(* ===== verification/Prelude.thy ===== *)
theory Prelude
  imports Main "HOL-Library.Word"
begin

text \<open>
  Shared vocabulary of the development: the C integer types, unsigned 64-bit
  (\<open>size_t\<close>) arithmetic on \<open>nat\<close> with the wrap-around written out, byte
  buffers with bounds-checked block copies, and little-endian encoding of
  integers into bytes.  Every component theory imports this one.
\<close>

unbundle bit_operations_syntax

section \<open>C integer types\<close>

type_synonym u8 = "8 word"
type_synonym u32 = "32 word"
type_synonym u64 = "64 word"

text \<open>
  A \<open>size_t\<close> whose value is compared, divided and used as an index is a
  \<open>nat\<close> below \<open>2 ^ 64\<close>; the operations that may leave that range are
  written with the reduction C performs.
\<close>

definition SIZE_MOD :: nat where
  "SIZE_MOD = 2 ^ 64"

definition size_add :: "nat \<Rightarrow> nat \<Rightarrow> nat" where
  "size_add a b = (a + b) mod SIZE_MOD"

definition size_sub :: "nat \<Rightarrow> nat \<Rightarrow> nat" where
  "size_sub a b = (a + SIZE_MOD - b) mod SIZE_MOD"

definition size_mul :: "nat \<Rightarrow> nat \<Rightarrow> nat" where
  "size_mul a b = (a * b) mod SIZE_MOD"

named_theorems size_simps \<open>size_t operations that do not wrap\<close>

lemma size_add_id [size_simps]: "a + b < SIZE_MOD \<Longrightarrow> size_add a b = a + b"
  by (simp add: size_add_def)

lemma size_mul_id [size_simps]: "a * b < SIZE_MOD \<Longrightarrow> size_mul a b = a * b"
  by (simp add: size_mul_def)

lemma size_sub_id [size_simps]:
  assumes "b \<le> a" "a < SIZE_MOD"
  shows "size_sub a b = a - b"
proof -
  have "size_sub a b = ((a - b) + SIZE_MOD) mod SIZE_MOD"
    unfolding size_sub_def using assms by (intro arg_cong2 [where f = "(mod)"]) simp_all
  also have "\<dots> = (a - b) mod SIZE_MOD" by (rule mod_add_self2)
  finally show ?thesis using assms by simp
qed

lemma size_add_less [simp]: "size_add a b < SIZE_MOD"
  by (simp add: size_add_def SIZE_MOD_def)

lemma size_sub_less [simp]: "size_sub a b < SIZE_MOD"
  by (simp add: size_sub_def SIZE_MOD_def)

lemma size_add_neq: "n < SIZE_MOD \<Longrightarrow> size_add n 1 \<noteq> n"
proof (cases "n + 1 < SIZE_MOD")
  case False
  moreover assume "n < SIZE_MOD"
  ultimately have "n + 1 = SIZE_MOD" by simp
  then show ?thesis by (simp add: size_add_def SIZE_MOD_def)
qed (simp add: size_add_def)

text \<open>A difference that wraps and is then added back: \<open>(a - b) + c\<close>.\<close>

lemma size_add_sub:
  assumes "b \<le> a + c" "a + c - b < SIZE_MOD" "b \<le> SIZE_MOD"
  shows "size_add (size_sub a b) c = a + c - b"
proof -
  have "size_add (size_sub a b) c = (a + SIZE_MOD - b + c) mod SIZE_MOD"
    by (simp add: size_add_def size_sub_def mod_add_left_eq)
  also have "\<dots> = ((a + c - b) + SIZE_MOD) mod SIZE_MOD"
    using assms by (intro arg_cong2 [where f = "(mod)"]) simp_all
  also have "\<dots> = (a + c - b) mod SIZE_MOD" by (rule mod_add_self2)
  finally show ?thesis using assms by simp
qed

lemma and_mask_mod: "x AND (2 ^ k - 1) = x mod (2 ^ k :: nat)"
  by (simp add: take_bit_eq_mod [symmetric] take_bit_eq_mask mask_eq_exp_minus_1)

text \<open>For evaluating a program on concrete input: \<open>bind\<close> simplifies its first argument only,
  and a replicated element is written out.\<close>

lemma bind_weak_cong: "x = y \<Longrightarrow> Option.bind x f = Option.bind y f"
  by simp

lemma replicate_numeral_eq: "replicate (numeral k) x = x # replicate (pred_numeral k) x"
  by (simp only: numeral_eq_Suc replicate.simps)

section \<open>Byte buffers\<close>

text \<open>
  A block of memory is a list.  \<open>mem_load\<close> and \<open>mem_store\<close> are what \<open>memcpy\<close>
  and pointer accesses do to it; an access that leaves the block is \<open>None\<close>.
\<close>

definition slice :: "nat \<Rightarrow> nat \<Rightarrow> 'a list \<Rightarrow> 'a list" where
  "slice off n xs = take n (drop off xs)"

definition blit :: "nat \<Rightarrow> 'a list \<Rightarrow> 'a list \<Rightarrow> 'a list" where
  "blit off ys xs = take off xs @ ys @ drop (off + length ys) xs"

definition mem_load :: "nat \<Rightarrow> nat \<Rightarrow> 'a list \<Rightarrow> 'a list option" where
  "mem_load off n xs = (if off + n \<le> length xs then Some (slice off n xs) else None)"

definition mem_store :: "nat \<Rightarrow> 'a list \<Rightarrow> 'a list \<Rightarrow> 'a list option" where
  "mem_store off ys xs = (if off + length ys \<le> length xs then Some (blit off ys xs) else None)"

lemma length_blit [simp]: "off + length ys \<le> length xs \<Longrightarrow> length (blit off ys xs) = length xs"
  by (simp add: blit_def)

lemma length_slice [simp]: "off + n \<le> length xs \<Longrightarrow> length (slice off n xs) = n"
  by (simp add: slice_def)

lemma nth_blit:
  assumes "off + length ys \<le> length xs" "i < length xs"
  shows "blit off ys xs ! i = (if off \<le> i \<and> i < off + length ys then ys ! (i - off) else xs ! i)"
  using assms by (auto simp: blit_def nth_append)

lemma nth_slice: "off + n \<le> length xs \<Longrightarrow> i < n \<Longrightarrow> slice off n xs ! i = xs ! (off + i)"
  by (simp add: slice_def)

lemma slice_blit_inside:
  assumes "off + length ys \<le> length xs" "off \<le> a" "a + n \<le> off + length ys"
  shows "slice a n (blit off ys xs) = slice (a - off) n ys"
  using assms by (intro nth_equalityI) (auto simp: nth_slice nth_blit)

lemma slice_blit_same: "off + length ys \<le> length xs \<Longrightarrow> slice off (length ys) (blit off ys xs) = ys"
  by (simp add: slice_blit_inside) (simp add: slice_def)

lemma slice_blit_disjoint:
  assumes "off + length ys \<le> length xs" "a + n \<le> length xs" "a + n \<le> off \<or> off + length ys \<le> a"
  shows "slice a n (blit off ys xs) = slice a n xs"
  using assms by (intro nth_equalityI) (auto simp: nth_slice nth_blit)

lemma slice_split: "slice a (n + m) xs = slice a n xs @ slice (a + n) m xs"
  unfolding slice_def take_add [of n m] by (simp add: add.commute)

lemma slice_slice: "a + n \<le> m \<Longrightarrow> slice a n (slice b m xs) = slice (b + a) n xs"
  by (simp add: slice_def drop_take add.commute min_def)

text \<open>Little-endian integers in memory.\<close>

fun le_bytes :: "nat \<Rightarrow> nat \<Rightarrow> u8 list" where
  "le_bytes 0 v = []"
| "le_bytes (Suc n) v = of_nat v # le_bytes n (v div 256)"

fun le_val :: "u8 list \<Rightarrow> nat" where
  "le_val [] = 0"
| "le_val (b # bs) = unat b + 256 * le_val bs"

lemma length_le_bytes [simp]: "length (le_bytes n v) = n"
  by (induction n arbitrary: v) auto

lemma le_val_le_bytes: "le_val (le_bytes n v) = v mod 256 ^ n"
proof (induction n arbitrary: v)
  case (Suc n)
  have "unat (of_nat v :: u8) = v mod 256" by (simp add: unat_of_nat)
  then show ?case using Suc [of "v div 256"] by (simp add: mod_mult2_eq)
qed simp

lemma le_val_le_bytes_id [simp]: "v < 256 ^ n \<Longrightarrow> le_val (le_bytes n v) = v"
  by (simp add: le_val_le_bytes)

end
