(* ===== verification/Circular_List.thy ===== *)
theory Circular_List
  imports Prelude
begin

text \<open>
  Circular doubly linked lists with a sentinel head, as used by the Linux-style
  \<open>list.h\<close> and by the free lists of the buddy allocator.  \<open>ring nx pv h xs\<close>
  says that following the \<open>next\<close> links from the head \<open>h\<close> visits exactly the
  nodes \<open>xs\<close> and comes back, and that every \<open>prev\<close> link is the inverse of a
  \<open>next\<close> link.  The locale \<open>circular_list\<close> states what initialising,
  appending and unlinking do to the link fields, and derives their effect on
  rings; both list implementations of the repository interpret it.
\<close>

section \<open>Chains and rings\<close>

primrec chain :: "('a \<Rightarrow> 'a) \<Rightarrow> ('a \<Rightarrow> 'a) \<Rightarrow> 'a \<Rightarrow> 'a list \<Rightarrow> 'a \<Rightarrow> bool" where
  "chain nx pv a [] b \<longleftrightarrow> nx a = b \<and> pv b = a"
| "chain nx pv a (x # xs) b \<longleftrightarrow> nx a = x \<and> pv x = a \<and> chain nx pv x xs b"

definition ring :: "('a \<Rightarrow> 'a) \<Rightarrow> ('a \<Rightarrow> 'a) \<Rightarrow> 'a \<Rightarrow> 'a list \<Rightarrow> bool" where
  "ring nx pv h xs \<longleftrightarrow> distinct (h # xs) \<and> chain nx pv h xs h"

lemma chain_append [simp]:
  "chain nx pv a (xs @ y # ys) b \<longleftrightarrow> chain nx pv a xs y \<and> chain nx pv y ys b"
  by (induction xs arbitrary: a) auto

lemma chain_cong:
  assumes "\<And>x. x \<in> insert a (set xs) \<Longrightarrow> nx' x = nx x"
    and "\<And>x. x \<in> insert b (set xs) \<Longrightarrow> pv' x = pv x"
  shows "chain nx' pv' a xs b \<longleftrightarrow> chain nx pv a xs b"
  using assms by (induction xs arbitrary: a) auto

lemma chain_frame [simp]:
  "u \<noteq> a \<Longrightarrow> u \<notin> set xs \<Longrightarrow> chain (nx(u := v)) pv a xs b \<longleftrightarrow> chain nx pv a xs b"
  "u \<noteq> b \<Longrightarrow> u \<notin> set xs \<Longrightarrow> chain nx (pv(u := v)) a xs b \<longleftrightarrow> chain nx pv a xs b"
  by (rule chain_cong; force)+

lemma ring_cong:
  assumes "\<And>x. x \<in> insert h (set xs) \<Longrightarrow> nx' x = nx x"
    and "\<And>x. x \<in> insert h (set xs) \<Longrightarrow> pv' x = pv x"
  shows "ring nx' pv' h xs \<longleftrightarrow> ring nx pv h xs"
  unfolding ring_def using chain_cong [of h xs nx' nx h pv' pv] assms by auto

lemma ring_distinct: "ring nx pv h xs \<Longrightarrow> distinct xs \<and> h \<notin> set xs"
  by (simp add: ring_def)

lemma ring_self: "ring (nx(h := h)) (pv(h := h)) h []"
  by (simp add: ring_def)

lemma ring_prev_head: "ring nx pv h xs \<Longrightarrow> pv h = (if xs = [] then h else last xs)"
  by (cases xs rule: rev_cases) (auto simp: ring_def)

lemma ring_next_head: "ring nx pv h xs \<Longrightarrow> nx h = (if xs = [] then h else hd xs)"
  by (cases xs) (auto simp: ring_def)

lemma ring_unique: "ring nx pv h xs \<Longrightarrow> ring nx pv h ys \<Longrightarrow> xs = ys"
proof -
  have "chain nx pv a xs h \<Longrightarrow> chain nx pv a ys h \<Longrightarrow> h \<notin> set xs \<Longrightarrow> h \<notin> set ys \<Longrightarrow> xs = ys"
    for a
  proof (induction xs arbitrary: a ys)
    case Nil
    then show ?case by (cases ys) auto
  next
    case (Cons x xs)
    then show ?case by (cases ys) auto
  qed
  then show "ring nx pv h xs \<Longrightarrow> ring nx pv h ys \<Longrightarrow> xs = ys"
    by (auto simp: ring_def)
qed

text \<open>Appending before the head, and prepending after it.\<close>

lemma ring_snoc:
  assumes r: "ring nx pv h xs" and e: "e \<noteq> h" "e \<notin> set xs"
  shows "ring (nx(pv h := e, e := h)) (pv(e := pv h, h := e)) h (xs @ [e])"
proof (cases xs rule: rev_cases)
  case Nil
  with r e show ?thesis by (auto simp: ring_def)
next
  case (snoc ys l)
  with r have "pv h = l" by (simp add: ring_def)
  with r e snoc show ?thesis by (auto simp: ring_def)
qed

lemma ring_cons:
  assumes r: "ring nx pv h xs" and e: "e \<noteq> h" "e \<notin> set xs"
  shows "ring (nx(e := nx h, h := e)) (pv(nx h := e, e := h)) h (e # xs)"
proof (cases xs)
  case Nil
  with r e show ?thesis by (auto simp: ring_def)
next
  case (Cons x ys)
  with r have "nx h = x" by (simp add: ring_def)
  with r e Cons show ?thesis by (auto simp: ring_def)
qed

lemma chain_nx_last: "chain nx pv a xs b \<Longrightarrow> nx (if xs = [] then a else last xs) = b"
  by (induction xs arbitrary: a) (auto split: if_splits)

lemma chain_pv_first: "chain nx pv a xs b \<Longrightarrow> pv (if xs = [] then b else hd xs) = a"
  by (cases xs) auto

lemma chain_nx_mem: "chain nx pv a xs b \<Longrightarrow> x \<in> insert a (set xs) \<Longrightarrow> nx x \<in> insert b (set xs)"
  by (induction xs arbitrary: a) auto

lemma chain_pv_mem: "chain nx pv a xs b \<Longrightarrow> x \<in> insert b (set xs) \<Longrightarrow> pv x \<in> insert a (set xs)"
  by (induction xs arbitrary: a) auto

text \<open>Unlinking a node joins its neighbours.\<close>

lemma chain_join:
  assumes "chain nx pv a xs e" "chain nx pv e ys b" "distinct (a # xs @ e # ys)" "b \<notin> set (xs @ e # ys)"
  shows "chain (nx(pv e := nx e)) (pv(nx e := pv e)) a (xs @ ys) b"
  using assms
proof (cases xs rule: rev_cases)
  case Nil
  with assms show ?thesis by (cases ys) auto
next
  case (snoc zs l)
  with assms show ?thesis by (cases ys) auto
qed

lemma ring_delete:
  assumes "ring nx pv h (xs @ e # ys)"
  shows "ring (nx(pv e := nx e)) (pv(nx e := pv e)) h (xs @ ys)"
  using assms chain_join [of nx pv h xs e ys h] by (auto simp: ring_def)

lemma ring_links_mem:
  assumes "ring nx pv h xs" "x \<in> insert h (set xs)"
  shows "nx x \<in> insert h (set xs)" "pv x \<in> insert h (set xs)"
  using assms chain_nx_mem [of nx pv h xs h x] chain_pv_mem [of nx pv h xs h x]
  by (auto simp: ring_def)

section \<open>The interface of a circular list implementation\<close>

locale circular_list =
  fixes nxt :: "'s \<Rightarrow> 'a \<Rightarrow> 'a"
    and prv :: "'s \<Rightarrow> 'a \<Rightarrow> 'a"
    and init :: "'a \<Rightarrow> 's \<Rightarrow> 's"
    and push :: "'a \<Rightarrow> 'a \<Rightarrow> 's \<Rightarrow> 's"
    and unlink :: "'a \<Rightarrow> 's \<Rightarrow> 's"
  assumes nxt_init: "nxt (init h s) = (nxt s)(h := h)"
    and prv_init: "prv (init h s) = (prv s)(h := h)"
    and nxt_push: "e \<noteq> prv s h \<Longrightarrow> e \<noteq> h \<Longrightarrow>
      nxt (push e h s) = (nxt s)(prv s h := e, e := h)"
    and prv_push: "e \<noteq> prv s h \<Longrightarrow> e \<noteq> h \<Longrightarrow>
      prv (push e h s) = (prv s)(e := prv s h, h := e)"
    and nxt_unlink: "nxt (unlink e s) = (nxt s)(prv s e := nxt s e)"
    and prv_unlink: "prv (unlink e s) = (prv s)(nxt s e := prv s e)"
begin

lemma init_ring: "ring (nxt (init h s)) (prv (init h s)) h []"
  by (simp add: nxt_init prv_init ring_self)

lemma init_other:
  assumes "h \<noteq> g" "h \<notin> set ys"
  shows "ring (nxt (init h s)) (prv (init h s)) g ys \<longleftrightarrow> ring (nxt s) (prv s) g ys"
  unfolding nxt_init prv_init by (rule ring_cong) (use assms in auto)

lemma push_not_prev:
  assumes "ring (nxt s) (prv s) h xs" "e \<noteq> h" "e \<notin> set xs"
  shows "e \<noteq> prv s h"
  using ring_links_mem(2) [OF assms(1), of h] assms(2,3) by auto

lemma push_ring:
  assumes "ring (nxt s) (prv s) h xs" "e \<noteq> h" "e \<notin> set xs"
  shows "ring (nxt (push e h s)) (prv (push e h s)) h (xs @ [e])"
  using ring_snoc [OF assms] assms(2) push_not_prev [OF assms]
  by (simp add: nxt_push prv_push)

lemma push_other:
  assumes "ring (nxt s) (prv s) h xs" "e \<noteq> h" "e \<notin> set xs"
    and "insert h (insert e (set xs)) \<inter> insert g (set ys) = {}"
  shows "ring (nxt (push e h s)) (prv (push e h s)) g ys \<longleftrightarrow> ring (nxt s) (prv s) g ys"
  unfolding nxt_push [OF push_not_prev [OF assms(1-3)] assms(2)]
    prv_push [OF push_not_prev [OF assms(1-3)] assms(2)]
  by (rule ring_cong) (use ring_links_mem(2) [OF assms(1), of h] assms(4) in auto)

lemma unlink_ring:
  assumes "ring (nxt s) (prv s) h (xs @ e # ys)"
  shows "ring (nxt (unlink e s)) (prv (unlink e s)) h (xs @ ys)"
  unfolding nxt_unlink prv_unlink by (rule ring_delete [OF assms])

lemma unlink_other:
  assumes "ring (nxt s) (prv s) h xs" "e \<in> set xs"
    and "insert h (set xs) \<inter> insert g (set ys) = {}"
  shows "ring (nxt (unlink e s)) (prv (unlink e s)) g ys \<longleftrightarrow> ring (nxt s) (prv s) g ys"
  unfolding nxt_unlink prv_unlink
  by (rule ring_cong) (use ring_links_mem [OF assms(1), of e] assms(2,3) in auto)

end

end
