(* ===== verification/Buddy.thy ===== *)
theory Buddy
  imports Circular_List
begin

text \<open>
  The buddy allocator of \<open>buddy-alloc/alloc.c\<close>, with its free lists, its
  split bits and its growing tree.

  Pointers into the managed range are \<open>nat\<close> addresses (0 is NULL); a
  \<open>list_t *\<close> is either the address of a bucket head or of a block.  The first
  16 bytes of a block are one memory cell that holds either the two links of
  a free-list entry or the size header of an allocation: writing one destroys
  the other, as in the C code.  \<open>brk\<close> is a parameter: \<open>brk_ok a\<close> tells
  whether the kernel moves the break to \<open>a\<close> (the C call returns 0), and
  \<open>sbrk0\<close> is what \<open>sbrk(0)\<close> returns on the first call.
  The result \<open>None\<close> stands for executions the C standard leaves undefined
  (a header read from a block that is not allocated, a free list that holds
  something else than a block) or that never return.
\<close>

section \<open>State\<close>

definition HEADER_SIZE :: nat where "HEADER_SIZE = 8"
definition MIN_ALLOC_LOG2 :: nat where "MIN_ALLOC_LOG2 = 4"
definition MIN_ALLOC :: nat where "MIN_ALLOC = 2 ^ MIN_ALLOC_LOG2"
definition MAX_ALLOC_LOG2 :: nat where "MAX_ALLOC_LOG2 = 31"
definition MAX_ALLOC :: nat where "MAX_ALLOC = 2 ^ MAX_ALLOC_LOG2"
definition BUCKET_COUNT :: nat where "BUCKET_COUNT = MAX_ALLOC_LOG2 - MIN_ALLOC_LOG2 + 1"
definition sizeof_list_t :: nat where "sizeof_list_t = 16"

lemmas buddy_consts = HEADER_SIZE_def MIN_ALLOC_LOG2_def MIN_ALLOC_def MAX_ALLOC_LOG2_def
  MAX_ALLOC_def BUCKET_COUNT_def sizeof_list_t_def

datatype lptr = Bucket nat | Blk nat | Wild

datatype bcell = LinkCell lptr lptr | HeaderCell nat | RawCell

record balloc =
  bmem :: "lptr \<Rightarrow> bcell"
  bucket_limit :: nat
  node_is_split :: "nat \<Rightarrow> u8"
  base_ptr :: nat
  max_ptr :: nat

definition balloc_start :: balloc where
  "balloc_start = \<lparr>bmem = (\<lambda>_. RawCell), bucket_limit = 0, node_is_split = (\<lambda>_. 0),
     base_ptr = 0, max_ptr = 0\<rparr>"

section \<open>Reserving memory\<close>

definition update_max_ptr :: "(nat \<Rightarrow> bool) \<Rightarrow> nat \<Rightarrow> balloc \<Rightarrow> bool \<times> balloc" where
  "update_max_ptr brk_ok new_value s =
     (if new_value > max_ptr s
      then if \<not> brk_ok new_value then (False, s) else (True, s\<lparr>max_ptr := new_value\<rparr>)
      else (True, s))"

section \<open>Free lists\<close>

definition list_prev :: "balloc \<Rightarrow> lptr \<Rightarrow> lptr" where
  "list_prev s p = (case bmem s p of LinkCell a b \<Rightarrow> a | _ \<Rightarrow> Wild)"

definition list_next :: "balloc \<Rightarrow> lptr \<Rightarrow> lptr" where
  "list_next s p = (case bmem s p of LinkCell a b \<Rightarrow> b | _ \<Rightarrow> Wild)"

definition write_prev :: "lptr \<Rightarrow> lptr \<Rightarrow> balloc \<Rightarrow> balloc" where
  "write_prev p v s = s\<lparr>bmem := (bmem s)(p := LinkCell v (list_next s p))\<rparr>"

definition write_next :: "lptr \<Rightarrow> lptr \<Rightarrow> balloc \<Rightarrow> balloc" where
  "write_next p v s = s\<lparr>bmem := (bmem s)(p := LinkCell (list_prev s p) v)\<rparr>"

definition list_init :: "lptr \<Rightarrow> balloc \<Rightarrow> balloc" where
  "list_init l s = write_next l l (write_prev l l s)"

definition list_push :: "lptr \<Rightarrow> lptr \<Rightarrow> balloc \<Rightarrow> balloc" where
  "list_push l entry s =
     (let prv = list_prev s l;
          s1 = write_prev entry prv s;
          s2 = write_next entry l s1;
          s3 = write_next prv entry s2
      in write_prev l entry s3)"

definition list_remove :: "lptr \<Rightarrow> balloc \<Rightarrow> balloc" where
  "list_remove entry s =
     (let prv = list_prev s entry;
          nxt = list_next s entry;
          s1 = write_next prv nxt s
      in write_prev nxt prv s1)"

definition list_pop :: "lptr \<Rightarrow> balloc \<Rightarrow> lptr option \<times> balloc" where
  "list_pop l s =
     (let back = list_prev s l
      in if back = l then (None, s) else (Some back, list_remove back s))"

section \<open>The tree of nodes\<close>

definition ptr_for_node :: "nat \<Rightarrow> nat \<Rightarrow> balloc \<Rightarrow> nat" where
  "ptr_for_node index bucket s =
     base_ptr s + push_bit (MAX_ALLOC_LOG2 - bucket) (size_add (size_sub index (2 ^ bucket)) 1)"

definition node_for_ptr :: "nat \<Rightarrow> nat \<Rightarrow> balloc \<Rightarrow> nat" where
  "node_for_ptr ptr bucket s =
     nat ((drop_bit (MAX_ALLOC_LOG2 - bucket) (int ptr - int (base_ptr s)) + 2 ^ bucket - 1)
       mod 2 ^ 64)"

definition parent_index :: "nat \<Rightarrow> nat" where
  "parent_index index = size_sub index 1 div 2"

definition parent_is_split :: "nat \<Rightarrow> balloc \<Rightarrow> bool" where
  "parent_is_split index s =
     (let index = parent_index index
      in drop_bit (index mod 8) (node_is_split s (index div 8)) AND 1 \<noteq> 0)"

definition flip_parent_is_split :: "nat \<Rightarrow> balloc \<Rightarrow> balloc" where
  "flip_parent_is_split index s =
     (let index = parent_index index
      in s\<lparr>node_is_split := (node_is_split s)
           (index div 8 := node_is_split s (index div 8) XOR push_bit (index mod 8) 1)\<rparr>)"

partial_function (option) bucket_for_request_loop :: "nat \<Rightarrow> nat \<Rightarrow> nat \<Rightarrow> nat option" where
  "bucket_for_request_loop request bucket sz =
     (if sz < request
      then bucket_for_request_loop request (size_sub bucket 1) (size_mul sz 2)
      else Some bucket)"

declare bucket_for_request_loop.simps [code]

definition bucket_for_request :: "nat \<Rightarrow> nat option" where
  "bucket_for_request request = bucket_for_request_loop request (BUCKET_COUNT - 1) MIN_ALLOC"

text \<open>Fields no list, bit or reservation operation touches.\<close>

lemma bucket_limit_frame [simp]:
  "bucket_limit (list_init l s) = bucket_limit s"
  "bucket_limit (list_push l e s) = bucket_limit s"
  "bucket_limit (list_remove e s) = bucket_limit s"
  "bucket_limit (snd (list_pop l s)) = bucket_limit s"
  "bucket_limit (flip_parent_is_split i s) = bucket_limit s"
  "bucket_limit (snd (update_max_ptr brk_ok v s)) = bucket_limit s"
  by (simp_all add: list_init_def list_push_def list_remove_def list_pop_def write_next_def
      write_prev_def flip_parent_is_split_def update_max_ptr_def Let_def)

lemma base_ptr_frame [simp]:
  "base_ptr (list_init l s) = base_ptr s"
  "base_ptr (list_push l e s) = base_ptr s"
  "base_ptr (list_remove e s) = base_ptr s"
  "base_ptr (snd (list_pop l s)) = base_ptr s"
  "base_ptr (flip_parent_is_split i s) = base_ptr s"
  "base_ptr (snd (update_max_ptr brk_ok v s)) = base_ptr s"
  by (simp_all add: list_init_def list_push_def list_remove_def list_pop_def write_next_def
      write_prev_def flip_parent_is_split_def update_max_ptr_def Let_def)

section \<open>Growing the tree, allocating and freeing\<close>

function lower_bucket_limit :: "(nat \<Rightarrow> bool) \<Rightarrow> nat \<Rightarrow> balloc \<Rightarrow> bool \<times> balloc" where
  "lower_bucket_limit brk_ok bucket s =
     (if bucket < bucket_limit s
      then let root = node_for_ptr (base_ptr s) (bucket_limit s) s
           in if \<not> parent_is_split root s
              then let s1 = list_remove (Blk (base_ptr s)) s;
                       s2 = s1\<lparr>bucket_limit := bucket_limit s1 - 1\<rparr>;
                       s3 = list_init (Bucket (bucket_limit s2)) s2;
                       s4 = list_push (Bucket (bucket_limit s3)) (Blk (base_ptr s3)) s3
                   in lower_bucket_limit brk_ok bucket s4
              else let right_child = ptr_for_node (root + 1) (bucket_limit s) s;
                       r = update_max_ptr brk_ok (right_child + sizeof_list_t) s
                   in if \<not> fst r then (False, snd r)
                      else let s1 = list_push (Bucket (bucket_limit (snd r))) (Blk right_child) (snd r);
                               s2 = s1\<lparr>bucket_limit := bucket_limit s1 - 1\<rparr>;
                               s3 = list_init (Bucket (bucket_limit s2)) s2;
                               root' = parent_index root;
                               s4 = (if root' \<noteq> 0 then flip_parent_is_split root' s3 else s3)
                           in lower_bucket_limit brk_ok bucket s4
      else (True, s))"
  by pat_completeness auto
termination
  by (relation "measure (\<lambda>(_, _, s). bucket_limit s)") (auto simp: Let_def)

declare lower_bucket_limit.simps [simp del]

function split_down :: "nat \<Rightarrow> nat \<Rightarrow> nat \<Rightarrow> balloc \<Rightarrow> balloc" where
  "split_down original_bucket i bucket s =
     (if bucket < original_bucket
      then let i = i * 2 + 1;
               bucket = bucket + 1;
               s1 = flip_parent_is_split i s;
               s2 = list_push (Bucket bucket) (Blk (ptr_for_node (i + 1) bucket s1)) s1
           in split_down original_bucket i bucket s2
      else s)"
  by pat_completeness auto
termination
  by (relation "measure (\<lambda>(ob, i, b, s). ob - b)") auto

declare split_down.simps [simp del]

definition bmalloc_take ::
    "(nat \<Rightarrow> bool) \<Rightarrow> nat \<Rightarrow> nat \<Rightarrow> nat \<Rightarrow> lptr \<Rightarrow> balloc \<Rightarrow> (nat \<times> balloc) option" where
  "bmalloc_take brk_ok request original_bucket bucket p s =
     (case p of
        Blk ptr \<Rightarrow>
          (let size = 2 ^ (MAX_ALLOC_LOG2 - bucket);
               bytes_needed = (if bucket < original_bucket then size div 2 + sizeof_list_t else size);
               r = update_max_ptr brk_ok (ptr + bytes_needed) s
           in if \<not> fst r then Some (0, list_push (Bucket bucket) (Blk ptr) (snd r))
              else let i = node_for_ptr ptr bucket (snd r);
                       s1 = (if i \<noteq> 0 then flip_parent_is_split i (snd r) else snd r);
                       s2 = split_down original_bucket i bucket s1
                   in Some (ptr + HEADER_SIZE, s2\<lparr>bmem := (bmem s2)(Blk ptr := HeaderCell request)\<rparr>))
      | _ \<Rightarrow> None)"

fun bmalloc_loop ::
    "(nat \<Rightarrow> bool) \<Rightarrow> nat \<Rightarrow> nat \<Rightarrow> nat \<Rightarrow> balloc \<Rightarrow> (nat \<times> balloc) option" where
  "bmalloc_loop brk_ok request original_bucket bucket s =
     (let r = lower_bucket_limit brk_ok bucket s
      in if \<not> fst r then Some (0, snd r)
         else let q = list_pop (Bucket bucket) (snd r)
              in case fst q of
                   Some p \<Rightarrow> bmalloc_take brk_ok request original_bucket bucket p (snd q)
                 | None \<Rightarrow>
                     if bucket \<noteq> bucket_limit (snd q) \<or> bucket = 0
                     then if bucket = 0 then Some (0, snd q) \<comment> \<open>\<open>bucket--\<close> wraps; the loop ends\<close>
                          else bmalloc_loop brk_ok request original_bucket (bucket - 1) (snd q)
                     else let r' = lower_bucket_limit brk_ok (bucket - 1) (snd q)
                          in if \<not> fst r' then Some (0, snd r')
                             else let q' = list_pop (Bucket bucket) (snd r')
                                  in case fst q' of
                                       Some p \<Rightarrow> bmalloc_take brk_ok request original_bucket bucket p (snd q')
                                     | None \<Rightarrow> None)"

declare bmalloc_loop.simps [simp del]

definition bmalloc_init :: "(nat \<Rightarrow> bool) \<Rightarrow> nat \<Rightarrow> balloc \<Rightarrow> balloc" where
  "bmalloc_init brk_ok sbrk0 s =
     (let s1 = s\<lparr>base_ptr := sbrk0, max_ptr := sbrk0, bucket_limit := BUCKET_COUNT - 1\<rparr>;
          s2 = snd (update_max_ptr brk_ok (base_ptr s1 + sizeof_list_t) s1);
          s3 = list_init (Bucket (BUCKET_COUNT - 1)) s2
      in list_push (Bucket (BUCKET_COUNT - 1)) (Blk (base_ptr s3)) s3)"

definition bmalloc :: "(nat \<Rightarrow> bool) \<Rightarrow> nat \<Rightarrow> nat \<Rightarrow> balloc \<Rightarrow> (nat \<times> balloc) option" where
  "bmalloc brk_ok sbrk0 request s =
     (if size_add request HEADER_SIZE > MAX_ALLOC then Some (0, s)
      else let s1 = (if base_ptr s = 0 then bmalloc_init brk_ok sbrk0 s else s)
           in case bucket_for_request (size_add request HEADER_SIZE) of
                None \<Rightarrow> None
              | Some bucket \<Rightarrow> bmalloc_loop brk_ok request bucket bucket s1)"

function bfree_loop :: "nat \<Rightarrow> nat \<Rightarrow> balloc \<Rightarrow> nat \<times> nat \<times> balloc" where
  "bfree_loop i bucket s =
     (if i \<noteq> 0
      then let s1 = flip_parent_is_split i s
           in if parent_is_split i s1 \<or> bucket = bucket_limit s1 then (i, bucket, s1)
              else let s2 = list_remove (Blk (ptr_for_node (((i - 1) XOR 1) + 1) bucket s1)) s1
                   in bfree_loop ((i - 1) div 2) (size_sub bucket 1) s2
      else (i, bucket, s))"
  by pat_completeness auto
termination
  by (relation "measure (\<lambda>(i, b, s). i)") auto

declare bfree_loop.simps [simp del]

definition bfree :: "nat \<Rightarrow> balloc \<Rightarrow> balloc option" where
  "bfree ptr s =
     (if ptr = 0 then Some s
      else let ptr = ptr - HEADER_SIZE
           in case bmem s (Blk ptr) of
                HeaderCell request \<Rightarrow>
                  (case bucket_for_request (size_add request HEADER_SIZE) of
                     None \<Rightarrow> None
                   | Some bucket \<Rightarrow>
                       (case bfree_loop (node_for_ptr ptr bucket s) bucket s of
                          (i, bucket, s') \<Rightarrow>
                            Some (list_push (Bucket bucket) (Blk (ptr_for_node i bucket s')) s')))
              | _ \<Rightarrow> None)"

section \<open>The free lists are circular lists\<close>

lemma list_links_write [simp]:
  "list_next (write_prev p v s) = list_next s"
  "list_prev (write_next p v s) = list_prev s"
  "list_next (write_next p v s) = (list_next s)(p := v)"
  "list_prev (write_prev p v s) = (list_prev s)(p := v)"
  by (auto simp: fun_eq_iff list_next_def list_prev_def write_prev_def write_next_def split: bcell.splits)

interpretation bl: circular_list list_next list_prev list_init "\<lambda>e l. list_push l e" list_remove
  by unfold_locales (auto simp: list_init_def list_push_def list_remove_def Let_def)

text \<open>Which memory cells a list operation may write.\<close>

lemma bmem_write [simp]:
  "x \<noteq> p \<Longrightarrow> bmem (write_prev p v s) x = bmem s x"
  "x \<noteq> p \<Longrightarrow> bmem (write_next p v s) x = bmem s x"
  by (simp_all add: write_prev_def write_next_def)

lemma bmem_list_ops:
  "x \<noteq> l \<Longrightarrow> bmem (list_init l s) x = bmem s x"
  "x \<notin> {l, e, list_prev s l} \<Longrightarrow> bmem (list_push l e s) x = bmem s x"
  "x \<notin> {list_prev s e, list_next s e} \<Longrightarrow> bmem (list_remove e s) x = bmem s x"
  by (simp_all add: list_init_def list_push_def list_remove_def Let_def)

lemma links_frame [simp]:
  "list_next (s\<lparr>bucket_limit := n\<rparr>) = list_next s"
  "list_prev (s\<lparr>bucket_limit := n\<rparr>) = list_prev s"
  "list_next (s\<lparr>max_ptr := m\<rparr>) = list_next s"
  "list_prev (s\<lparr>max_ptr := m\<rparr>) = list_prev s"
  "list_next (flip_parent_is_split i s) = list_next s"
  "list_prev (flip_parent_is_split i s) = list_prev s"
  "list_next (snd (update_max_ptr brk_ok v s)) = list_next s"
  "list_prev (snd (update_max_ptr brk_ok v s)) = list_prev s"
  by (auto simp: fun_eq_iff list_next_def list_prev_def flip_parent_is_split_def update_max_ptr_def Let_def)

lemma bmem_frame [simp]:
  "bmem (flip_parent_is_split i s) = bmem s"
  "bmem (snd (update_max_ptr brk_ok v s)) = bmem s"
  by (auto simp: flip_parent_is_split_def update_max_ptr_def Let_def)

lemma max_ptr_frame [simp]:
  "max_ptr (list_init l s) = max_ptr s"
  "max_ptr (list_push l e s) = max_ptr s"
  "max_ptr (list_remove e s) = max_ptr s"
  "max_ptr (flip_parent_is_split i s) = max_ptr s"
  by (simp_all add: list_init_def list_push_def list_remove_def write_next_def write_prev_def
      flip_parent_is_split_def Let_def)

lemma node_is_split_frame [simp]:
  "node_is_split (list_init l s) = node_is_split s"
  "node_is_split (list_push l e s) = node_is_split s"
  "node_is_split (list_remove e s) = node_is_split s"
  "node_is_split (snd (update_max_ptr brk_ok v s)) = node_is_split s"
  by (simp_all add: list_init_def list_push_def list_remove_def write_next_def write_prev_def
      update_max_ptr_def Let_def)

section \<open>Single bits\<close>

definition nbit :: "balloc \<Rightarrow> nat \<Rightarrow> bool" where
  "nbit s j = bit (node_is_split s (j div 8)) (j mod 8)"

lemma parent_is_split_nbit: "parent_is_split i s = nbit s (parent_index i)"
  by (simp add: parent_is_split_def nbit_def Let_def bit_iff_odd_drop_bit and_one_eq mod_2_eq_odd)

lemma nbit_flip: "nbit (flip_parent_is_split i s) j = (nbit s j \<noteq> (j = parent_index i))"
proof -
  let ?k = "parent_index i"
  have eq: "j = ?k \<longleftrightarrow> j div 8 = ?k div 8 \<and> j mod 8 = ?k mod 8"
    by (metis div_mult_mod_eq)
  have "j mod 8 < 8" "?k mod 8 < 8" by simp_all
  then show ?thesis
    unfolding eq by (auto simp: nbit_def flip_parent_is_split_def Let_def bit_xor_iff
        bit_push_bit_iff bit_1_iff bit_exp_iff)
qed

lemma nbit_frame [simp]:
  "nbit (list_init l s) = nbit s"
  "nbit (list_push l e s) = nbit s"
  "nbit (list_remove e s) = nbit s"
  "nbit (snd (update_max_ptr brk_ok v s)) = nbit s"
  "nbit (s\<lparr>bucket_limit := n\<rparr>) = nbit s"
  by (auto simp: fun_eq_iff nbit_def)

section \<open>The bucket of a request\<close>

text \<open>
  For any size up to \<open>MAX_ALLOC\<close> the loop ends within the bucket array, with
  the smallest power of two that holds the request.
\<close>

lemma bucket_for_request_loop_run:
  assumes "b \<le> 27" "request \<le> 2 ^ 31" "b < 27 \<longrightarrow> 2 ^ (30 - b) < request"
  shows "\<exists>c \<le> b. bucket_for_request_loop request b (2 ^ (31 - b)) = Some c \<and>
    request \<le> 2 ^ (31 - c) \<and> (c < 27 \<longrightarrow> 2 ^ (30 - c) < request)"
  using assms
proof (induction b)
  case 0
  then show ?case by (subst bucket_for_request_loop.simps) auto
next
  case (Suc b)
  show ?case
  proof (cases "(2::nat) ^ (31 - Suc b) < request")
    case True
    have "31 - b = Suc (31 - Suc b)" using Suc.prems(1) by simp
    then have dbl: "(2::nat) ^ (31 - b) = 2 ^ (31 - Suc b) * 2" by simp
    have "(2::nat) ^ (31 - b) \<le> 2 ^ 31" by (intro power_increasing) auto
    then have "size_mul (2 ^ (31 - Suc b)) 2 = 2 ^ (31 - b)"
      using dbl by (simp add: size_mul_def SIZE_MOD_def)
    moreover have "size_sub (Suc b) 1 = b"
      using Suc.prems(1) by (simp add: size_sub_def SIZE_MOD_def)
    ultimately have "bucket_for_request_loop request (Suc b) (2 ^ (31 - Suc b))
        = bucket_for_request_loop request b (2 ^ (31 - b))"
      using True by (subst bucket_for_request_loop.simps) simp
    moreover have "b \<le> 27" "b < 27 \<longrightarrow> 2 ^ (30 - b) < request"
      using Suc.prems(1) True by auto
    ultimately show ?thesis using Suc.IH Suc.prems(2) by (auto intro: le_SucI)
  next
    case False
    then have "bucket_for_request_loop request (Suc b) (2 ^ (31 - Suc b)) = Some (Suc b)"
      by (subst bucket_for_request_loop.simps) simp
    with False Suc.prems(3) show ?thesis by auto
  qed
qed

lemma bucket_for_request_run:
  assumes "request \<le> MAX_ALLOC"
  shows "\<exists>b \<le> 27. bucket_for_request request = Some b \<and> request \<le> 2 ^ (31 - b) \<and>
    (b < 27 \<longrightarrow> 2 ^ (30 - b) < request)"
  using bucket_for_request_loop_run [of 27 request] assms
  by (simp add: bucket_for_request_def buddy_consts)

end
