(* ===== verification/Buddy_Tree.thy ===== *)
theory Buddy_Tree
  imports Buddy "HOL-Library.Sublist"
begin

text \<open>
  The abstract view of the buddy allocator: a binary tree whose leaves are free
  or used blocks.  Nodes are named by paths from the root (\<open>False\<close> is left).
  This theory holds the tree, the arithmetic that ties paths to the node
  indices and addresses of \<open>alloc.c\<close>, and how replacing a subtree changes the
  split bits and the set of free blocks.  \<open>HoleN\<close> marks a block in transit,
  neither free nor used, while an operation is running.
\<close>

section \<open>Trees and paths\<close>

datatype btree = FreeN | UsedN nat | HoleN | SplitN btree btree

fun sub :: "btree \<Rightarrow> bool list \<Rightarrow> btree option" where
  "sub t [] = Some t"
| "sub (SplitN l r) (d # p) = sub (if d then r else l) p"
| "sub _ (d # p) = None"

fun put :: "btree \<Rightarrow> bool list \<Rightarrow> btree \<Rightarrow> btree" where
  "put t [] u = u"
| "put (SplitN l r) (d # p) u = (if d then SplitN l (put r p u) else SplitN (put l p u) r)"
| "put t (d # p) u = t"

fun hgt :: "btree \<Rightarrow> nat" where
  "hgt (SplitN l r) = Suc (max (hgt l) (hgt r))"
| "hgt _ = 0"

fun merged :: "btree \<Rightarrow> bool" where
  "merged (SplitN l r) \<longleftrightarrow> \<not> (l = FreeN \<and> r = FreeN) \<and> merged l \<and> merged r"
| "merged _ \<longleftrightarrow> True"

definition leafy :: "btree \<Rightarrow> bool" where
  "leafy t \<longleftrightarrow> (\<forall>l r. t \<noteq> SplitN l r)"

definition split_at :: "btree \<Rightarrow> bool list \<Rightarrow> bool" where
  "split_at t p \<longleftrightarrow> (\<exists>l r. sub t p = Some (SplitN l r) \<and> (l = FreeN) \<noteq> (r = FreeN))"

lemma leafy_simps [simp]: "leafy FreeN" "leafy (UsedN n)" "leafy HoleN" "\<not> leafy (SplitN l r)"
  by (auto simp: leafy_def)

lemma sub_append: "sub t (p @ q) = (case sub t p of None \<Rightarrow> None | Some u \<Rightarrow> sub u q)"
  by (induction t p rule: sub.induct) auto

lemma sub_leafy [simp]: "leafy t \<Longrightarrow> sub t (d # p) = None"
  by (cases t) auto

lemma sub_leafy_None: "leafy t \<Longrightarrow> p \<noteq> [] \<Longrightarrow> sub t p = None"
  by (cases p) auto

lemma length_path: "sub t p = Some u \<Longrightarrow> length p + hgt u \<le> hgt t"
  by (induction t p rule: sub.induct) (auto split: if_splits)

lemma hgt_put: "sub t p = Some v \<Longrightarrow> hgt (put t p u) \<le> max (hgt t) (length p + hgt u)"
  by (induction t p u rule: put.induct) (fastforce split: if_splits)+

lemma sub_put_append: "sub t p = Some v \<Longrightarrow> sub (put t p u) (p @ q) = sub u q"
  by (induction t p u rule: put.induct) auto

lemma sub_put_same [simp]: "sub t p = Some v \<Longrightarrow> sub (put t p u) p = Some u"
  using sub_put_append [of t p v u "[]"] by simp

lemma parallel_Cons [simp]: "d # p \<parallel> e # q \<longleftrightarrow> d \<noteq> e \<or> p \<parallel> q"
  by (auto simp: parallel_def)

lemma sub_put_parallel: "p \<parallel> q \<Longrightarrow> sub (put t p u) q = sub t q"
proof (induction t p u arbitrary: q rule: put.induct)
  case (2 l r d p u)
  then show ?case by (cases q) auto
qed auto

lemma sub_put_above:
  "sub t (q @ d # p) = Some v \<Longrightarrow> \<exists>l r. sub t q = Some (SplitN l r) \<and>
     sub (put t (q @ d # p) u) q = Some (put (SplitN l r) (d # p) u)"
proof (induction q arbitrary: t)
  case Nil
  then show ?case by (cases t) auto
next
  case (Cons e q)
  then show ?case by (cases d; cases t) auto
qed

lemma put_put: "put (put t p u) p w = put t p w"
  by (induction t p u rule: put.induct) auto

lemma put_put_above: "sub t p = Some v \<Longrightarrow> put (put t (p @ q) u) p w = put t p w"
  by (induction t p w rule: put.induct) auto

lemma put_append: "sub t p = Some v \<Longrightarrow> put t (p @ q) u = put t p (put v q u)"
  by (induction t p u rule: put.induct) auto

lemma put_eq_Free: "put t (d # p) u = FreeN \<longleftrightarrow> t = FreeN"
  by (cases t) auto

lemma merged_sub: "merged t \<Longrightarrow> sub t p = Some u \<Longrightarrow> merged u"
  by (induction t p rule: sub.induct) (auto split: if_splits)

lemma put_not_Free: "sub t p = Some v \<Longrightarrow> u \<noteq> FreeN \<Longrightarrow> put t p u \<noteq> FreeN"
  by (cases p; cases t) auto

lemma merged_put:
  assumes "merged t" "sub t p = Some v" "merged u" "u \<noteq> FreeN"
  shows "merged (put t p u)"
  using assms by (induction t p u rule: put.induct) (auto simp: put_not_Free)

lemma path_cases:
  fixes p q :: "bool list"
  obtains (below) r where "q = p @ r"
    | (above) d r where "p = q @ d # r"
    | (aside) "p \<parallel> q"
proof (cases "prefix p q")
  case True
  then show ?thesis using below by (auto simp: prefix_def)
next
  case False
  show ?thesis
  proof (cases "prefix q p")
    case True
    then obtain r where "p = q @ r" by (auto simp: prefix_def)
    with False above show ?thesis by (cases r) auto
  next
    case False2: False
    with False show ?thesis using aside by (auto simp: parallel_def)
  qed
qed

text \<open>Two different leaves are on parallel paths.\<close>

lemma leaves_parallel:
  assumes "sub t p = Some u" "sub t q = Some v" "leafy u" "leafy v" "p \<noteq> q"
  shows "p \<parallel> q"
  using assms by (cases rule: path_cases [of q p]) (auto simp: sub_append sub_leafy_None)

section \<open>How replacing a leaf changes bits and leaves\<close>

lemma split_at_leafy [simp]: "leafy t \<Longrightarrow> \<not> split_at t p"
  by (cases p) (auto simp: split_at_def)

lemma split_at_SplitN:
  "split_at (SplitN a b) r =
     (case r of [] \<Rightarrow> (a = FreeN) \<noteq> (b = FreeN) | d # r' \<Rightarrow> split_at (if d then b else a) r')"
  by (cases r) (auto simp: split_at_def)

lemma split_at_below: "sub t p = Some v \<Longrightarrow> split_at t (p @ r) = split_at v r"
  by (simp add: split_at_def sub_append)

lemma butlast_neq_append: "p \<noteq> [] \<Longrightarrow> butlast p \<noteq> p @ r"
  by (cases p rule: rev_cases) auto

lemma split_at_put:
  assumes p: "sub t p = Some v" "leafy v" "leafy u"
  shows "split_at (put t p u) q =
    (if p \<noteq> [] \<and> q = butlast p then split_at t q \<noteq> ((u = FreeN) \<noteq> (v = FreeN)) else split_at t q)"
proof (cases rule: path_cases [of q p])
  case (below r)
  then show ?thesis
    using p split_at_below [of t p v r] split_at_below [of "put t p u" p u r] butlast_neq_append [of p r]
    by auto
next
  case (above d r)
  obtain l rr where s: "sub t q = Some (SplitN l rr)"
    and s': "sub (put t p u) q = Some (put (SplitN l rr) (d # r) u)"
    using sub_put_above [of t q d r v u] p(1) above by metis
  have v: "sub (SplitN l rr) (d # r) = Some v" using p(1) s above by (simp add: sub_append)
  show ?thesis
  proof (cases r)
    case Nil
    then show ?thesis using s s' v above by (cases d) (auto simp: split_at_def)
  next
    case (Cons e r')
    then have "q \<noteq> butlast p" using above by (auto simp: butlast_append)
    moreover have "l \<noteq> FreeN" if "\<not> d" using v Cons that by (cases l) auto
    moreover have "rr \<noteq> FreeN" if d using v Cons that by (cases rr) auto
    ultimately show ?thesis using s s' Cons by (cases d) (auto simp: split_at_def put_eq_Free)
  qed
next
  case aside
  then have "q \<noteq> butlast p \<or> p = []"
    by (metis append_butlast_last_id parallelE prefixI)
  then show ?thesis using aside by (auto simp: split_at_def sub_put_parallel)
qed

lemma split_at_put_nonfree:
  assumes p: "sub t p = Some v" "u \<noteq> FreeN" "v \<noteq> FreeN"
  shows "split_at (put t p u) q =
    (if prefix p q then split_at u (drop (length p) q) else split_at t q)"
proof (cases rule: path_cases [of q p])
  case (below r)
  then show ?thesis using split_at_below [of "put t p u" p u r] p(1) by simp
next
  case (above d r)
  obtain l rr where s: "sub t q = Some (SplitN l rr)"
    and s': "sub (put t p u) q = Some (put (SplitN l rr) (d # r) u)"
    using sub_put_above [of t q d r v u] p(1) above by metis
  have v: "sub (SplitN l rr) (d # r) = Some v" using p(1) s above by (simp add: sub_append)
  have "l \<noteq> FreeN \<and> put l r u \<noteq> FreeN" if "\<not> d"
    using v p(2,3) that put_not_Free by (cases r; cases l) auto
  moreover have "rr \<noteq> FreeN \<and> put rr r u \<noteq> FreeN" if d
    using v p(2,3) that put_not_Free by (cases r; cases rr) auto
  ultimately show ?thesis using s s' above by (cases d) (auto simp: split_at_def prefix_def)
next
  case aside
  then show ?thesis by (auto simp: split_at_def sub_put_parallel parallel_def)
qed

section \<open>Paths, node indices and addresses\<close>

text \<open>
  The position of a node within its level, its index in the linearised tree
  whose root sits at bucket \<open>lim\<close>, and its offset from \<open>base_ptr\<close>.
\<close>

fun pos :: "bool list \<Rightarrow> nat" where
  "pos [] = 0"
| "pos (d # p) = of_bool d * 2 ^ length p + pos p"

definition idx :: "nat \<Rightarrow> bool list \<Rightarrow> nat" where
  "idx lim p = 2 ^ (lim + length p) - 1 + pos p"

definition blksize :: "nat \<Rightarrow> nat" where
  "blksize b = 2 ^ (MAX_ALLOC_LOG2 - b)"

definition off :: "nat \<Rightarrow> bool list \<Rightarrow> nat" where
  "off lim p = pos p * blksize (lim + length p)"

lemma pos_less: "pos p < 2 ^ length p"
  by (induction p) auto

lemma pos_snoc: "pos (p @ [d]) = 2 * pos p + of_bool d"
  by (induction p) (auto simp: algebra_simps)

lemma pos_append: "pos (p @ q) = pos p * 2 ^ length q + pos q"
  by (induction p) (auto simp: algebra_simps power_add)

lemma pos_inj: "length p = length q \<Longrightarrow> pos p = pos q \<Longrightarrow> p = q"
proof (induction p q rule: list_induct2)
  case (Cons d p e q)
  then show ?case using pos_less [of p] pos_less [of q] by (cases d; cases e) auto
qed simp

lemma idx_lower: "2 ^ (lim + length p) - 1 \<le> idx lim p"
  by (simp add: idx_def)

lemma idx_upper: "idx lim p < 2 ^ (lim + length p + 1) - 1"
proof -
  have "pos p < 2 ^ (lim + length p)"
    using pos_less [of p] by (rule less_le_trans) (simp add: power_increasing)
  then show ?thesis unfolding idx_def by (simp add: less_diff_conv)
qed

lemma level_unique:
  fixes a b :: nat
  assumes "2 ^ a - 1 \<le> (x :: nat)" "x < 2 ^ (a + 1) - 1" "2 ^ b - 1 \<le> x" "x < 2 ^ (b + 1) - 1"
  shows "a = b"
proof (rule ccontr)
  assume "a \<noteq> b"
  then consider "a + 1 \<le> b" | "b + 1 \<le> a" by linarith
  then show False
  proof cases
    case 1
    then have "(2::nat) ^ (a + 1) \<le> 2 ^ b" by (rule power_increasing) simp
    with assms show False by linarith
  next
    case 2
    then have "(2::nat) ^ (b + 1) \<le> 2 ^ a" by (rule power_increasing) simp
    with assms show False by linarith
  qed
qed

lemma idx_inj: "idx lim p = idx lim q \<Longrightarrow> p = q"
proof -
  assume e: "idx lim p = idx lim q"
  have "lim + length p = lim + length q"
    using level_unique [of "lim + length p" "idx lim p" "lim + length q"]
      idx_lower [of lim p] idx_upper [of lim p] idx_lower [of lim q] idx_upper [of lim q] e by simp
  moreover from this have "pos p = pos q"
    using e by (metis idx_def add_left_cancel)
  ultimately show "p = q" using pos_inj [of p q] by simp
qed

lemma idx_eq_iff [simp]: "idx lim p = idx lim q \<longleftrightarrow> p = q"
  using idx_inj by auto

lemma idx_snoc: "idx lim (p @ [d]) = 2 * idx lim p + 1 + of_bool d"
proof -
  obtain m where "(2::nat) ^ (lim + length p) = Suc m"
    by (metis gr0_implies_Suc zero_less_numeral zero_less_power)
  then show ?thesis by (simp add: idx_def pos_snoc)
qed

lemma idx_Nil: "idx lim [] = 2 ^ lim - 1"
  by (simp add: idx_def)

lemma idx_grow: "0 < lim \<Longrightarrow> idx (lim - Suc 0) (False # p) = idx lim p"
  by (simp add: idx_def)

lemma off_grow: "0 < lim \<Longrightarrow> off (lim - Suc 0) (False # p) = off lim p"
  by (simp add: off_def)

lemma idx_pos_iff: "0 < idx lim p \<longleftrightarrow> 0 < lim \<or> p \<noteq> []"
proof -
  have "(1::nat) < 2 ^ (lim + length p)" if "0 < lim \<or> p \<noteq> []"
    using that by (intro one_less_power) auto
  then show ?thesis by (auto simp: idx_def)
qed

lemma idx_bound: "lim + length p \<le> 27 \<Longrightarrow> idx lim p < 2 ^ 28"
proof -
  assume "lim + length p \<le> 27"
  then have "(2::nat) ^ (lim + length p + 1) \<le> 2 ^ 28" by (intro power_increasing) auto
  with idx_upper [of lim p] show ?thesis by linarith
qed

lemma blksize_pos [simp]: "0 < blksize b"
  by (simp add: blksize_def)

lemma blksize_split: "b < 31 \<Longrightarrow> blksize b = 2 * blksize (b + 1)"
proof -
  assume "b < 31"
  then have "MAX_ALLOC_LOG2 - b = Suc (MAX_ALLOC_LOG2 - (b + 1))" by (simp add: buddy_consts)
  then show ?thesis by (simp add: blksize_def)
qed

lemma blksize_min: "b \<le> 27 \<Longrightarrow> 16 \<le> blksize b"
proof -
  assume "b \<le> 27"
  then have "(2::nat) ^ 4 \<le> 2 ^ (MAX_ALLOC_LOG2 - b)" by (intro power_increasing) (auto simp: buddy_consts)
  then show ?thesis by (simp add: blksize_def)
qed

lemma blksize_below: "b + n \<le> 31 \<Longrightarrow> blksize b = 2 ^ n * blksize (b + n)"
proof (induction n)
  case (Suc n)
  then show ?case using blksize_split [of "b + n"] by simp
qed simp

lemma off_append:
  assumes "lim + length p + length q \<le> 31"
  shows "off lim (p @ q) = off lim p + pos q * blksize (lim + length p + length q)"
  using blksize_below [of "lim + length p" "length q"] assms
  by (simp add: off_def pos_append algebra_simps)

text \<open>A node's range contains the ranges of its descendants.\<close>

lemma off_nested:
  assumes "lim + length p + length q \<le> 31"
  shows "off lim p \<le> off lim (p @ q)"
    and "off lim (p @ q) + blksize (lim + length p + length q) \<le> off lim p + blksize (lim + length p)"
proof -
  have "(pos q + 1) * blksize (lim + length p + length q)
      \<le> 2 ^ length q * blksize (lim + length p + length q)"
    using pos_less [of q] by (intro mult_le_mono1) simp
  then show "off lim (p @ q) + blksize (lim + length p + length q) \<le> off lim p + blksize (lim + length p)"
    using blksize_below [of "lim + length p" "length q"] off_append [OF assms] assms by simp
  show "off lim p \<le> off lim (p @ q)" using off_append [OF assms] by simp
qed

lemma off_parallel:
  assumes "p \<parallel> q" "lim + length p \<le> 31" "lim + length q \<le> 31"
  shows "off lim p + blksize (lim + length p) \<le> off lim q \<or>
    off lim q + blksize (lim + length q) \<le> off lim p"
proof -
  obtain r d e p' q' where pq: "p = r @ d # p'" "q = r @ e # q'" "d \<noteq> e"
    using parallel_decomp [OF assms(1)] by auto
  have l: "lim + length (r @ [d]) + length p' \<le> 31" "lim + length (r @ [e]) + length q' \<le> 31"
    using assms(2,3) pq by auto
  have "off lim (r @ [True]) = off lim (r @ [False]) + blksize (lim + length r + 1)"
    using off_append [of lim r "[True]"] off_append [of lim r "[False]"] l by simp
  then show ?thesis
    using off_nested [OF l(1)] off_nested [OF l(2)] pq by (cases d) (auto simp: ac_simps)
qed

end
