(* ===== verification/Buddy_Refine.thy ===== *)
theory Buddy_Refine
  imports Buddy_Tree
begin

text \<open>
  The buddy allocator implements its abstract tree.  \<open>brel s t\<close> relates a
  concrete state of \<open>alloc.c\<close> to a tree: the split bits, the free lists, the
  headers of the used blocks and the reserved memory are what the tree says.
  Growing the tree, \<open>bmalloc\<close> and \<open>bfree\<close> are simulated step by step.
\<close>

section \<open>Leaves of an updated tree\<close>

lemma leaf_sub_put:
  assumes "sub t p = Some v" "leafy v" "leafy u" "leafy w"
  shows "sub (put t p u) q = Some w \<longleftrightarrow> (if q = p then w = u else sub t q = Some w)"
proof (cases rule: path_cases [of q p])
  case (below r)
  then show ?thesis using assms by (cases r) (auto simp: sub_put_append sub_append)
next
  case (above d r)
  then show ?thesis using sub_put_above [of t q d r v u] assms by (cases d) auto
next
  case aside
  then show ?thesis using assms by (auto simp: sub_put_parallel)
qed

lemma leaf_sub_split:
  assumes "sub t p = Some v" "leafy v" "leafy a" "leafy b" "leafy w"
  shows "sub (put t p (SplitN a b)) q = Some w \<longleftrightarrow>
    (if q = p @ [False] then w = a else if q = p @ [True] then w = b else q \<noteq> p \<and> sub t q = Some w)"
proof (cases rule: path_cases [of q p])
  case (below r)
  then show ?thesis using assms
  proof (cases r)
    case (Cons d r')
    then show ?thesis using assms below by (cases r'; cases d) (auto simp: sub_put_append sub_append)
  qed (auto simp: sub_put_append)
next
  case (above d r)
  then show ?thesis using sub_put_above [of t q d r v "SplitN a b"] assms by (cases d) auto
next
  case aside
  then show ?thesis using assms by (auto simp: sub_put_parallel)
qed

lemma leaf_sub_join:
  assumes "sub t p = Some (SplitN a b)" "leafy a" "leafy b" "leafy u" "leafy w"
  shows "sub (put t p u) q = Some w \<longleftrightarrow>
    (if q = p then w = u else q \<noteq> p @ [False] \<and> q \<noteq> p @ [True] \<and> sub t q = Some w)"
proof (cases rule: path_cases [of q p])
  case (below r)
  then show ?thesis using assms
  proof (cases r)
    case (Cons d r')
    then show ?thesis using assms below by (cases r'; cases d) (auto simp: sub_put_append sub_append)
  qed (auto simp: sub_put_append)
next
  case (above d r)
  then show ?thesis using sub_put_above [of t q d r "SplitN a b" u] assms by (cases d) auto
next
  case aside
  then show ?thesis using assms by (auto simp: sub_put_parallel)
qed

section \<open>Indices and addresses of nodes\<close>

abbreviation addr :: "balloc \<Rightarrow> nat \<Rightarrow> bool list \<Rightarrow> nat" where
  "addr s lim p \<equiv> base_ptr s + off lim p"

lemma ptr_for_node_idx:
  assumes "lim + length p \<le> 27"
  shows "ptr_for_node (idx lim p) (lim + length p) s = addr s lim p"
proof -
  have i: "idx lim p + 1 = pos p + 2 ^ (lim + length p)" by (simp add: idx_def)
  have "(2::nat) ^ (lim + length p) \<le> 2 ^ 27" using assms by (intro power_increasing) auto
  then have "size_add (size_sub (idx lim p) (2 ^ (lim + length p))) 1 = pos p"
    using i idx_bound [OF assms] by (subst size_add_sub) (auto simp: SIZE_MOD_def)
  then show ?thesis by (simp add: ptr_for_node_def off_def blksize_def push_bit_eq_mult)
qed

lemma node_for_ptr_addr:
  assumes "lim + length p \<le> 27"
  shows "node_for_ptr (addr s lim p) (lim + length p) s = idx lim p"
proof -
  let ?b = "lim + length p"
  have "drop_bit (MAX_ALLOC_LOG2 - ?b) (int (addr s lim p) - int (base_ptr s)) = int (pos p)"
    by (simp add: off_def blksize_def drop_bit_eq_div)
  moreover have "int (pos p) + 2 ^ ?b - 1 = int (idx lim p)"
  proof -
    have "idx lim p + 1 = pos p + 2 ^ ?b" by (simp add: idx_def)
    from arg_cong [OF this, of int] show ?thesis by simp
  qed
  ultimately show ?thesis
    using idx_bound [OF assms] by (simp add: node_for_ptr_def)
qed

lemma parent_index_snoc:
  assumes "lim + length p < 27"
  shows "parent_index (idx lim (p @ [d])) = idx lim p"
proof -
  have "idx lim (p @ [d]) < 2 ^ 28" using assms by (intro idx_bound) simp
  then have "size_sub (idx lim (p @ [d])) 1 = idx lim (p @ [d]) - 1"
    by (intro size_sub_id) (auto simp: idx_snoc SIZE_MOD_def)
  then show ?thesis by (cases d) (simp_all add: parent_index_def idx_snoc)
qed

lemma parent_index_root:
  assumes "0 < lim" "lim \<le> 27"
  shows "parent_index (idx lim []) = idx (lim - 1) []"
proof -
  have "idx lim [] = idx (lim - 1) [False]" using idx_grow [of lim "[]"] assms by simp
  then show ?thesis using parent_index_snoc [of "lim - 1" "[]" False] assms by simp
qed

lemma sibling_idx: "(idx lim (p @ [d]) - 1) XOR 1 = idx lim (p @ [\<not> d]) - 1"
proof -
  have x: "(2 * n) XOR 1 = 2 * n + 1" "(2 * n + 1) XOR 1 = 2 * n" for n :: nat
    by (simp_all add: xor_Suc_0_eq)
  then show ?thesis using x [of "idx lim p"] by (cases d) (simp_all add: idx_snoc)
qed

lemma leaf_addr_inj:
  assumes "sub t p = Some u" "sub t q = Some v" "leafy u" "leafy v" "lim + hgt t \<le> 27"
    and "addr s lim p = addr s lim q"
  shows "p = q"
proof (rule ccontr)
  assume "p \<noteq> q"
  then have "p \<parallel> q" using assms leaves_parallel by blast
  moreover have "lim + length p \<le> 31" "lim + length q \<le> 31"
    using length_path [OF assms(1)] length_path [OF assms(2)] assms(5) by auto
  ultimately have "off lim p + blksize (lim + length p) \<le> off lim q \<or>
      off lim q + blksize (lim + length q) \<le> off lim p" by (rule off_parallel)
  with assms(6) show False
    using blksize_pos [of "lim + length p"] blksize_pos [of "lim + length q"] by linarith
qed

section \<open>The free lists as sets of addresses\<close>

definition lists_ok :: "balloc \<Rightarrow> (nat \<Rightarrow> nat set) \<Rightarrow> nat \<Rightarrow> bool" where
  "lists_ok s F lim \<longleftrightarrow> (\<forall>b. lim \<le> b \<and> b \<le> 27 \<longrightarrow>
     (\<exists>xs. ring (list_next s) (list_prev s) (Bucket b) (map Blk xs) \<and> set xs = F b))"

definition free_blocks :: "balloc \<Rightarrow> nat \<Rightarrow> btree \<Rightarrow> nat \<Rightarrow> nat set" where
  "free_blocks s lim t b = {addr s lim p |p. sub t p = Some FreeN \<and> lim + length p = b}"

lemma lists_okD:
  assumes "lists_ok s F lim" "lim \<le> b" "b \<le> 27"
  obtains xs where "ring (list_next s) (list_prev s) (Bucket b) (map Blk xs)" "set xs = F b"
  using assms by (auto simp: lists_ok_def)

lemma lists_push:
  assumes ok: "lists_ok s F lim" and b: "lim \<le> b" "b \<le> 27"
    and new: "\<And>c. lim \<le> c \<Longrightarrow> c \<le> 27 \<Longrightarrow> a \<notin> F c"
    and disj: "\<And>c. lim \<le> c \<Longrightarrow> c \<le> 27 \<Longrightarrow> c \<noteq> b \<Longrightarrow> F c \<inter> F b = {}"
  shows "lists_ok (list_push (Bucket b) (Blk a) s) (F(b := insert a (F b))) lim"
  unfolding lists_ok_def
proof (intro allI impI)
  fix c assume c: "lim \<le> c \<and> c \<le> 27"
  obtain xs where xs: "ring (list_next s) (list_prev s) (Bucket b) (map Blk xs)" "set xs = F b"
    using ok b by (rule lists_okD)
  have na: "Blk a \<noteq> Bucket b" "Blk a \<notin> set (map Blk xs)" using new [of b] b xs(2) by auto
  let ?s = "list_push (Bucket b) (Blk a) s"
  show "\<exists>ys. ring (list_next ?s) (list_prev ?s) (Bucket c) (map Blk ys) \<and>
      set ys = (F(b := insert a (F b))) c"
  proof (cases "c = b")
    case True
    have "ring (list_next ?s) (list_prev ?s) (Bucket b) (map Blk (xs @ [a]))"
      using bl.push_ring [OF xs(1) na] by simp
    with True xs(2) show ?thesis by (intro exI [of _ "xs @ [a]"]) auto
  next
    case False
    obtain ys where ys: "ring (list_next s) (list_prev s) (Bucket c) (map Blk ys)" "set ys = F c"
      using ok c by (auto elim: lists_okD)
    have "insert (Bucket b) (insert (Blk a) (set (map Blk xs))) \<inter> insert (Bucket c) (set (map Blk ys)) = {}"
      using False disj [of c] new [of c] c xs(2) ys(2) by auto
    then have "ring (list_next ?s) (list_prev ?s) (Bucket c) (map Blk ys)"
      using bl.push_other [OF xs(1) na] ys(1) by blast
    then show ?thesis using ys(2) False by auto
  qed
qed

lemma lists_remove:
  assumes ok: "lists_ok s F lim" and b: "lim \<le> b" "b \<le> 27" and a: "a \<in> F b"
    and disj: "\<And>c. lim \<le> c \<Longrightarrow> c \<le> 27 \<Longrightarrow> c \<noteq> b \<Longrightarrow> F c \<inter> F b = {}"
  shows "lists_ok (list_remove (Blk a) s) (F(b := F b - {a})) lim"
  unfolding lists_ok_def
proof (intro allI impI)
  fix c assume c: "lim \<le> c \<and> c \<le> 27"
  obtain xs where xs: "ring (list_next s) (list_prev s) (Bucket b) (map Blk xs)" "set xs = F b"
    using ok b by (rule lists_okD)
  then obtain us vs where uv: "xs = us @ a # vs" using a by (metis split_list)
  have d: "distinct xs" using ring_distinct [OF xs(1)] by (simp add: distinct_map)
  let ?s = "list_remove (Blk a) s"
  show "\<exists>ys. ring (list_next ?s) (list_prev ?s) (Bucket c) (map Blk ys) \<and> set ys = (F(b := F b - {a})) c"
  proof (cases "c = b")
    case True
    have "ring (list_next ?s) (list_prev ?s) (Bucket b) (map Blk us @ map Blk vs)"
      using xs(1) uv by (intro bl.unlink_ring) simp
    with True xs(2) uv d show ?thesis by (intro exI [of _ "us @ vs"]) auto
  next
    case False
    obtain ys where ys: "ring (list_next s) (list_prev s) (Bucket c) (map Blk ys)" "set ys = F c"
      using ok c by (auto elim: lists_okD)
    have "insert (Bucket b) (set (map Blk xs)) \<inter> insert (Bucket c) (set (map Blk ys)) = {}"
      using False disj [of c] c xs(2) ys(2) by auto
    then have "ring (list_next ?s) (list_prev ?s) (Bucket c) (map Blk ys)"
      using bl.unlink_other [OF xs(1), of "Blk a"] ys(1) uv by auto
    then show ?thesis using ys(2) False by auto
  qed
qed

lemma lists_pop:
  assumes ok: "lists_ok s F lim" and b: "lim \<le> b" "b \<le> 27"
  obtains "F b = {}" "list_pop (Bucket b) s = (None, s)"
  | a where "a \<in> F b" "list_pop (Bucket b) s = (Some (Blk a), list_remove (Blk a) s)"
proof -
  obtain xs where xs: "ring (list_next s) (list_prev s) (Bucket b) (map Blk xs)" "set xs = F b"
    using ok b by (rule lists_okD)
  show ?thesis
  proof (cases xs rule: rev_cases)
    case Nil
    then show ?thesis using xs that(1) ring_prev_head [OF xs(1)] by (simp add: list_pop_def)
  next
    case (snoc ys y)
    then show ?thesis using xs that(2) [of y] ring_prev_head [OF xs(1)] by (auto simp: list_pop_def Let_def)
  qed
qed

lemma lists_mem_frame:
  assumes ok: "lists_ok s F lim" and b: "lim \<le> b" "b \<le> 27" and c: "c \<notin> F b"
  shows "c \<noteq> a \<Longrightarrow> bmem (list_push (Bucket b) (Blk a) s) (Blk c) = bmem s (Blk c)"
    and "a \<in> F b \<Longrightarrow> bmem (list_remove (Blk a) s) (Blk c) = bmem s (Blk c)"
proof -
  obtain xs where xs: "ring (list_next s) (list_prev s) (Bucket b) (map Blk xs)" "set xs = F b"
    using ok b by (rule lists_okD)
  have nc: "Blk c \<notin> insert (Bucket b) (set (map Blk xs))" using xs(2) c by auto
  show "bmem (list_push (Bucket b) (Blk a) s) (Blk c) = bmem s (Blk c)" if "c \<noteq> a"
  proof -
    have "list_prev s (Bucket b) \<noteq> Blk c" using ring_links_mem(2) [OF xs(1) insertI1] nc by metis
    with that show ?thesis by (intro bmem_list_ops(2)) simp
  qed
  show "bmem (list_remove (Blk a) s) (Blk c) = bmem s (Blk c)" if "a \<in> F b"
  proof -
    have "Blk a \<in> insert (Bucket b) (set (map Blk xs))" using that xs(2) by simp
    with ring_links_mem [OF xs(1) this] nc
    have "list_next s (Blk a) \<noteq> Blk c" "list_prev s (Blk a) \<noteq> Blk c" by metis+
    then show ?thesis by (intro bmem_list_ops(3)) auto
  qed
qed

section \<open>The split bits\<close>

definition bits_ok :: "balloc \<Rightarrow> btree \<Rightarrow> nat \<Rightarrow> bool" where
  "bits_ok s t lim \<longleftrightarrow> (\<forall>j. nbit s j \<longleftrightarrow>
     (\<exists>p. j = idx lim p \<and> split_at t p) \<or> (0 < lim \<and> t \<noteq> FreeN \<and> j = idx (lim - 1) []))"

lemma root_parent_neq: "0 < lim \<Longrightarrow> idx (lim - 1) [] \<noteq> idx lim p"
  using idx_grow [of lim p] by (metis One_nat_def idx_inj list.discI)

lemma bits_ok_path: "bits_ok s t lim \<Longrightarrow> nbit s (idx lim p) \<longleftrightarrow> split_at t p"
  using root_parent_neq [of lim p] by (auto simp: bits_ok_def)

lemma bits_ok_root: "bits_ok s t lim \<Longrightarrow> 0 < lim \<Longrightarrow> nbit s (idx (lim - 1) []) \<longleftrightarrow> t \<noteq> FreeN"
  using root_parent_neq [of lim] by (fastforce simp: bits_ok_def)

lemma bits_same:
  assumes "bits_ok s t lim" "\<And>q. split_at t' q = split_at t q" "(t' = FreeN) = (t = FreeN)" "nbit s' = nbit s"
  shows "bits_ok s' t' lim"
  using assms by (simp add: bits_ok_def)

text \<open>Flipping the bit of an inner node, and the bit above the root.\<close>

lemma bits_flip_inner:
  assumes "bits_ok s t lim" "parent_index i = idx lim p"
    and "\<And>q. split_at t' q = (split_at t q \<noteq> (q = p))" "(t' = FreeN) = (t = FreeN)"
  shows "bits_ok (flip_parent_is_split i s) t' lim"
  unfolding bits_ok_def
proof
  fix j
  show "nbit (flip_parent_is_split i s) j \<longleftrightarrow>
      (\<exists>p. j = idx lim p \<and> split_at t' p) \<or> (0 < lim \<and> t' \<noteq> FreeN \<and> j = idx (lim - 1) [])"
  proof (cases "\<exists>q. j = idx lim q")
    case True
    then obtain q where j: "j = idx lim q" by blast
    have "nbit (flip_parent_is_split i s) j = (split_at t q \<noteq> (q = p))"
      by (simp add: nbit_flip j assms(2) bits_ok_path [OF assms(1)])
    also have "\<dots> = split_at t' q" using assms(3) [of q] by simp
    finally show ?thesis using j root_parent_neq [of lim q] by (metis idx_inj)
  next
    case False
    then have "j \<noteq> parent_index i" using assms(2) by auto
    moreover have "nbit s j \<longleftrightarrow> 0 < lim \<and> t \<noteq> FreeN \<and> j = idx (lim - 1) []"
      using assms(1) False by (auto simp: bits_ok_def)
    ultimately show ?thesis using False assms(4) by (auto simp: nbit_flip)
  qed
qed

lemma bits_flip_root:
  assumes "bits_ok s t lim" "parent_index i = idx (lim - 1) []" "0 < lim"
    and "\<And>q. split_at t' q = split_at t q" "(t' = FreeN) = (t \<noteq> FreeN)"
  shows "bits_ok (flip_parent_is_split i s) t' lim"
  unfolding bits_ok_def
proof
  fix j
  show "nbit (flip_parent_is_split i s) j \<longleftrightarrow>
      (\<exists>p. j = idx lim p \<and> split_at t' p) \<or> (0 < lim \<and> t' \<noteq> FreeN \<and> j = idx (lim - 1) [])"
    using assms root_parent_neq [OF assms(3)] bits_ok_root [OF assms(1,3)]
    by (cases "j = idx (lim - 1) []") (auto simp: nbit_flip bits_ok_def)
qed

text \<open>A leaf that turns free or stops being free flips its parent's bit.\<close>

lemma bits_put_leaf:
  assumes bits: "bits_ok s t lim" and p: "sub t p = Some v" "leafy v" "leafy u" "(u = FreeN) \<noteq> (v = FreeN)"
    and h: "lim + hgt t \<le> 27" and i: "idx lim p \<noteq> 0"
  shows "bits_ok (flip_parent_is_split (idx lim p) s) (put t p u) lim"
proof (cases p rule: rev_cases)
  case Nil
  with i have l: "0 < lim" by (auto simp: idx_def intro: gr0I)
  show ?thesis
    using bits parent_index_root [of lim] l h Nil p by (intro bits_flip_root) auto
next
  case (snoc q d)
  with p(1) h have len: "lim + length q < 27" using length_path [OF p(1)] by simp
  have "t \<noteq> FreeN \<and> put t p u \<noteq> FreeN" using p(1) snoc by (cases q; cases t) auto
  then show ?thesis
    using bits parent_index_snoc [OF len, of d] snoc p
    by (intro bits_flip_inner [of s t lim _ q]) (auto simp: split_at_put)
qed

text \<open>Splitting a block in transit sets the bit of its node.\<close>

lemma bits_split:
  assumes bits: "bits_ok s t lim" and p: "sub t p = Some HoleN" and h: "lim + length p < 27"
  shows "bits_ok (flip_parent_is_split (idx lim (p @ [False])) s) (put t p (SplitN HoleN FreeN)) lim"
proof (rule bits_flip_inner [OF bits parent_index_snoc [OF h]])
  fix q
  have "split_at t q = False" if "prefix p q"
    using that split_at_below [OF p] by (auto simp: prefix_def)
  moreover have "split_at (SplitN HoleN FreeN) r = (r = [])" for r
    by (cases r) (auto simp: split_at_SplitN)
  moreover have "split_at (put t p (SplitN HoleN FreeN)) q =
      (if prefix p q then split_at (SplitN HoleN FreeN) (drop (length p) q) else split_at t q)"
    by (rule split_at_put_nonfree [OF p]) simp_all
  moreover have "prefix p q \<and> drop (length p) q = [] \<longleftrightarrow> q = p" by (auto simp: prefix_def)
  ultimately show "split_at (put t p (SplitN HoleN FreeN)) q = (split_at t q \<noteq> (q = p))"
    by metis
next
  show "(put t p (SplitN HoleN FreeN) = FreeN) = (t = FreeN)"
    using p put_not_Free [OF p, of "SplitN HoleN FreeN"] by (cases p; cases t) auto
qed

section \<open>Free blocks of an updated tree\<close>

lemma free_blocks_cong: "base_ptr s' = base_ptr s \<Longrightarrow> free_blocks s' = free_blocks s"
  by (simp add: fun_eq_iff free_blocks_def)

lemma fb_mem: "sub t p = Some FreeN \<Longrightarrow> addr s lim p \<in> free_blocks s lim t (lim + length p)"
  by (auto simp: free_blocks_def)

lemma fb_not:
  assumes "sub t p = Some v" "leafy v" "v \<noteq> FreeN" "lim + hgt t \<le> 27"
  shows "addr s lim p \<notin> free_blocks s lim t b"
proof
  assume "addr s lim p \<in> free_blocks s lim t b"
  then obtain q where q: "sub t q = Some FreeN" "addr s lim p = addr s lim q"
    by (auto simp: free_blocks_def)
  then have "p = q" using leaf_addr_inj [OF assms(1) q(1) assms(2) _ assms(4) q(2)] by simp
  with q assms show False by simp
qed

lemma fb_disj:
  assumes "lim + hgt t \<le> 27" "b \<noteq> c"
  shows "free_blocks s lim t b \<inter> free_blocks s lim t c = {}"
proof (rule ccontr)
  assume "free_blocks s lim t b \<inter> free_blocks s lim t c \<noteq> {}"
  then obtain p q where "sub t p = Some FreeN" "sub t q = Some FreeN" "addr s lim p = addr s lim q"
    "lim + length p = b" "lim + length q = c"
    unfolding free_blocks_def by blast
  with leaf_addr_inj [of t p FreeN q FreeN lim s] assms show False by auto
qed

lemma fb_update:
  assumes leaves: "\<And>q. sub t' q = Some FreeN \<longleftrightarrow> (if q = p then x else sub t q = Some FreeN)"
    and p: "sub t p = Some v \<or> sub t' p = Some v" "leafy v"
    and h: "lim + hgt t \<le> 27" "lim + hgt t' \<le> 27"
  shows "free_blocks s lim t' = (free_blocks s lim t)(lim + length p :=
    (if x then insert (addr s lim p) (free_blocks s lim t (lim + length p))
     else free_blocks s lim t (lim + length p) - {addr s lim p}))"
proof (rule ext)
  fix b
  have inj: "addr s lim q \<noteq> addr s lim p" if "q \<noteq> p" "sub t q = Some FreeN" for q
  proof -
    have "sub t' q = Some FreeN" using leaves [of q] that by simp
    then show ?thesis
      using p leaf_addr_inj [of t q FreeN p v lim s] leaf_addr_inj [of t' q FreeN p v lim s] h that
      by (metis leafy_simps(1))
  qed
  have t': "free_blocks s lim t' b =
      {addr s lim q |q. q \<noteq> p \<and> sub t q = Some FreeN \<and> lim + length q = b} \<union>
      (if x \<and> lim + length p = b then {addr s lim p} else {})"
    unfolding free_blocks_def leaves by auto
  have t: "{addr s lim q |q. q \<noteq> p \<and> sub t q = Some FreeN \<and> lim + length q = b} =
      (if lim + length p = b then free_blocks s lim t b - {addr s lim p} else free_blocks s lim t b)"
    unfolding free_blocks_def using inj by auto
  show "free_blocks s lim t' b = ((free_blocks s lim t)(lim + length p :=
    (if x then insert (addr s lim p) (free_blocks s lim t (lim + length p))
     else free_blocks s lim t (lim + length p) - {addr s lim p}))) b"
    unfolding t' t by auto
qed

lemma fb_take:
  assumes "sub t p = Some FreeN" "leafy u" "u \<noteq> FreeN" "lim + hgt t \<le> 27"
  shows "free_blocks s lim (put t p u) = (free_blocks s lim t)
    (lim + length p := free_blocks s lim t (lim + length p) - {addr s lim p})"
proof -
  have "lim + hgt (put t p u) \<le> 27"
    using hgt_put [OF assms(1), of u] length_path [OF assms(1)] assms by (cases u) auto
  then show ?thesis
    using fb_update [of "put t p u" p False t FreeN lim s] assms by (simp add: leaf_sub_put)
qed

lemma fb_give:
  assumes "sub t p = Some v" "leafy v" "v \<noteq> FreeN" "lim + hgt t \<le> 27"
  shows "free_blocks s lim (put t p FreeN) = (free_blocks s lim t)
    (lim + length p := insert (addr s lim p) (free_blocks s lim t (lim + length p)))"
proof -
  have "lim + hgt (put t p FreeN) \<le> 27"
    using hgt_put [OF assms(1), of FreeN] length_path [OF assms(1)] assms by auto
  then show ?thesis
    using fb_update [of "put t p FreeN" p True t v lim s] assms by (simp add: leaf_sub_put)
qed

lemma fb_same:
  assumes "sub t p = Some v" "leafy v" "v \<noteq> FreeN" "leafy u" "u \<noteq> FreeN"
  shows "free_blocks s lim (put t p u) = free_blocks s lim t"
proof -
  have "sub (put t p u) q = Some FreeN \<longleftrightarrow> sub t q = Some FreeN" for q
    using leaf_sub_put [OF assms(1,2,4), of FreeN q] assms by auto
  then show ?thesis by (simp add: fun_eq_iff free_blocks_def)
qed

lemma fb_split:
  assumes "sub t p = Some HoleN" "lim + hgt t \<le> 27" "lim + length p < 27"
  shows "free_blocks s lim (put t p (SplitN HoleN FreeN)) = (free_blocks s lim t)
    (lim + length p + 1 := insert (addr s lim (p @ [True])) (free_blocks s lim t (lim + length p + 1)))"
proof -
  let ?t = "put t p (SplitN HoleN FreeN)"
  have h: "lim + hgt ?t \<le> 27"
    using hgt_put [OF assms(1), of "SplitN HoleN FreeN"] assms by auto
  have s: "sub ?t (p @ [True]) = Some FreeN" by (simp add: sub_put_append [OF assms(1)])
  have "sub t (p @ r) = Some FreeN \<longleftrightarrow> False" if "r \<noteq> []" for r
    using assms(1) that by (simp add: sub_append sub_leafy_None)
  then have "sub ?t q = Some FreeN \<longleftrightarrow> (if q = p @ [True] then True else sub t q = Some FreeN)" for q
    using leaf_sub_split [OF assms(1), of HoleN FreeN FreeN q] assms(1) by auto
  then show ?thesis
    using fb_update [of ?t "p @ [True]" True t FreeN lim s] h assms(2) s by simp
qed

lemma fb_join:
  assumes p: "sub t p = Some (SplitN a b)" "{a, b} = {HoleN, FreeN}" "sub t (p @ [d]) = Some FreeN"
    and h: "lim + hgt t \<le> 27"
  shows "free_blocks s lim (put t p HoleN) = (free_blocks s lim t)
    (lim + length p + 1 := free_blocks s lim t (lim + length p + 1) - {addr s lim (p @ [d])})"
proof -
  have h': "lim + hgt (put t p HoleN) \<le> 27"
    using hgt_put [OF p(1), of HoleN] length_path [OF p(1)] h by auto
  have ab: "leafy a" "leafy b" using p(2) by (auto simp: doubleton_eq_iff)
  have d: "sub t (p @ [\<not> d]) = Some HoleN"
    using p by (cases d) (auto simp: sub_append doubleton_eq_iff)
  have "sub (put t p HoleN) q = Some FreeN \<longleftrightarrow>
      q \<noteq> p \<and> q \<noteq> p @ [d] \<and> q \<noteq> p @ [\<not> d] \<and> sub t q = Some FreeN" for q
    using leaf_sub_join [OF p(1) ab, of HoleN FreeN q] by (cases d) auto
  moreover have "sub t p \<noteq> Some FreeN" "sub t (p @ [\<not> d]) \<noteq> Some FreeN"
    unfolding d p(1) by simp_all
  ultimately have "sub (put t p HoleN) q = Some FreeN \<longleftrightarrow>
      (if q = p @ [d] then False else sub t q = Some FreeN)" for q by metis
  then show ?thesis
    using fb_update [of "put t p HoleN" "p @ [d]" False t FreeN lim s] h h' p(3) by simp
qed

end
