(* ===== verification/Buddy_Sim.thy ===== *)
theory Buddy_Sim
  imports Buddy_Refine
begin

text \<open>
  The simulation between \<open>alloc.c\<close> and the abstract tree.  Every elementary
  action of the allocator (taking a block off its free list, splitting a block
  in transit, writing a header, merging with the buddy, giving a block back,
  growing the tree) is shown to keep the relation \<open>brel\<close>; the loops of
  \<open>lower_bucket_limit\<close>, \<open>bmalloc\<close> and \<open>bfree\<close> follow by induction.
\<close>

section \<open>The refinement relation\<close>

definition hdrs_ok :: "balloc \<Rightarrow> btree \<Rightarrow> nat \<Rightarrow> bool" where
  "hdrs_ok s t lim \<longleftrightarrow> (\<forall>p r. sub t p = Some (UsedN r) \<longrightarrow>
     bmem s (Blk (addr s lim p)) = HeaderCell r \<and> size_add r HEADER_SIZE \<le> MAX_ALLOC \<and>
     bucket_for_request (size_add r HEADER_SIZE) = Some (lim + length p))"

definition resv_ok :: "balloc \<Rightarrow> btree \<Rightarrow> nat \<Rightarrow> bool" where
  "resv_ok s t lim \<longleftrightarrow> (\<forall>p u. sub t p = Some u \<longrightarrow> leafy u \<longrightarrow>
     addr s lim p + sizeof_list_t \<le> max_ptr s \<and>
     (\<forall>r. u = UsedN r \<longrightarrow> addr s lim p + blksize (lim + length p) \<le> max_ptr s))"

definition brel :: "balloc \<Rightarrow> btree \<Rightarrow> bool" where
  "brel s t \<longleftrightarrow> base_ptr s \<noteq> 0 \<and> bucket_limit s + hgt t \<le> 27 \<and> merged t \<and>
     bits_ok s t (bucket_limit s) \<and>
     lists_ok s (free_blocks s (bucket_limit s) t) (bucket_limit s) \<and>
     hdrs_ok s t (bucket_limit s) \<and> resv_ok s t (bucket_limit s)"

definition allocs :: "balloc \<Rightarrow> btree \<Rightarrow> (nat \<times> nat) set" where
  "allocs s t = {(addr s (bucket_limit s) p + HEADER_SIZE, r) |p r. sub t p = Some (UsedN r)}"

lemma brelI:
  assumes "base_ptr s \<noteq> 0" "bucket_limit s = lim" "lim + hgt t \<le> 27" "merged t" "bits_ok s t lim"
    "lists_ok s (free_blocks s lim t) lim" "hdrs_ok s t lim" "resv_ok s t lim"
  shows "brel s t"
  using assms by (simp add: brel_def)

lemma brelD:
  assumes "brel s t"
  shows "base_ptr s \<noteq> 0" "bucket_limit s + hgt t \<le> 27" "merged t" "bits_ok s t (bucket_limit s)"
    "lists_ok s (free_blocks s (bucket_limit s) t) (bucket_limit s)"
    "hdrs_ok s t (bucket_limit s)" "resv_ok s t (bucket_limit s)"
  using assms by (simp_all add: brel_def)

lemma brel_path: "brel s t \<Longrightarrow> sub t p = Some u \<Longrightarrow> bucket_limit s + length p \<le> 27"
  using length_path [of t p u] by (auto simp: brel_def)

lemma update_max_ptr_cases:
  obtains "update_max_ptr brk_ok v s = (False, s)"
  | m where "update_max_ptr brk_ok v s = (True, s\<lparr>max_ptr := m\<rparr>)" "v \<le> m" "max_ptr s \<le> m"
proof (cases "max_ptr s < v")
  case True
  then show ?thesis using that(1) that(2) [of v] by (cases "brk_ok v") (auto simp: update_max_ptr_def)
next
  case False
  then show ?thesis using that(2) [of "max_ptr s"] by (auto simp: update_max_ptr_def)
qed

lemma lists_cong:
  assumes "list_next s' = list_next s" "list_prev s' = list_prev s" "lists_ok s F lim"
  shows "lists_ok s' F lim"
  using assms by (simp add: lists_ok_def)

text \<open>Writing a block that is on no free list.\<close>

lemma lists_write:
  assumes "lists_ok s F lim" "\<And>b. a \<notin> F b"
  shows "lists_ok (s\<lparr>bmem := (bmem s)(Blk a := c)\<rparr>) F lim"
  unfolding lists_ok_def
proof (intro allI impI)
  let ?s = "s\<lparr>bmem := (bmem s)(Blk a := c)\<rparr>"
  fix b assume "lim \<le> b \<and> b \<le> 27"
  then obtain xs where xs: "ring (list_next s) (list_prev s) (Bucket b) (map Blk xs)" "set xs = F b"
    using assms(1) by (auto simp: lists_ok_def)
  have "ring (list_next ?s) (list_prev ?s) (Bucket b) (map Blk xs) \<longleftrightarrow>
      ring (list_next s) (list_prev s) (Bucket b) (map Blk xs)"
    using assms(2) [of b] xs(2) by (intro ring_cong) (auto simp: list_next_def list_prev_def)
  with xs show "\<exists>xs. ring (list_next ?s) (list_prev ?s) (Bucket b) (map Blk xs) \<and> set xs = F b"
    by blast
qed

lemma hdrs_frame:
  assumes "hdrs_ok s t lim" "base_ptr s' = base_ptr s"
    and "\<And>p r. sub t' p = Some (UsedN r) \<Longrightarrow> sub t p = Some (UsedN r)"
    and "\<And>p r. sub t' p = Some (UsedN r) \<Longrightarrow>
      bmem s' (Blk (addr s lim p)) = bmem s (Blk (addr s lim p))"
  shows "hdrs_ok s' t' lim"
  using assms unfolding hdrs_ok_def by metis

lemma resv_frame:
  assumes "resv_ok s t lim" "base_ptr s' = base_ptr s" "max_ptr s \<le> max_ptr s'"
    and "\<And>p u. sub t' p = Some u \<Longrightarrow> leafy u \<Longrightarrow>
      sub t p = Some u \<or> (\<forall>r. u \<noteq> UsedN r) \<and> addr s lim p + sizeof_list_t \<le> max_ptr s'"
  shows "resv_ok s' t' lim"
  unfolding resv_ok_def
proof (intro allI impI)
  fix p u assume u: "sub t' p = Some u" "leafy u"
  show "addr s' lim p + sizeof_list_t \<le> max_ptr s' \<and>
      (\<forall>r. u = UsedN r \<longrightarrow> addr s' lim p + blksize (lim + length p) \<le> max_ptr s')"
    using assms(4) [OF u] assms(1-3) u by (auto simp: resv_ok_def intro: order_trans)
qed

section \<open>Elementary actions\<close>

text \<open>Reserving more memory.\<close>

lemma brel_max_ptr:
  assumes rel: "brel s t" and m: "max_ptr s \<le> m"
  shows "brel (s\<lparr>max_ptr := m\<rparr>) t" (is "brel ?s t")
proof (rule brelI [where lim = "bucket_limit s"])
  note rel' = brelD [OF rel]
  show "bits_ok ?s t (bucket_limit s)" using rel'(4) by (rule bits_same) (auto simp: nbit_def)
  show "lists_ok ?s (free_blocks ?s (bucket_limit s) t) (bucket_limit s)"
    using rel'(5) by (subst free_blocks_cong [of ?s s]) (auto intro: lists_cong)
  show "hdrs_ok ?s t (bucket_limit s)" using rel'(6) by (rule hdrs_frame) auto
  show "resv_ok ?s t (bucket_limit s)" using rel'(7) by (rule resv_frame) (use m in auto)
qed (use brelD [OF rel] in auto)

lemma brel_take:
  assumes rel: "brel s t" and p: "sub t p = Some FreeN" and lim: "lim = bucket_limit s"
    and m: "max_ptr s \<le> m"
  defines "s1 \<equiv> (list_remove (Blk (addr s lim p)) s)\<lparr>max_ptr := m\<rparr>"
  shows "brel (if idx lim p \<noteq> 0 then flip_parent_is_split (idx lim p) s1 else s1) (put t p HoleN)"
    (is "brel ?s ?t")
proof (rule brelI [where lim = lim])
  note rel' = brelD [OF rel, folded lim]
  have len: "lim + length p \<le> 27" using brel_path [OF rel p] lim by simp
  show "base_ptr ?s \<noteq> 0" using rel'(1) by (simp add: s1_def)
  show "bucket_limit ?s = lim" by (simp add: s1_def lim)
  show "lim + hgt ?t \<le> 27" using hgt_put [OF p, of HoleN] rel'(2) len by auto
  show "merged ?t" using rel'(3) p by (intro merged_put) auto
  have b1: "bits_ok s1 t lim" using rel'(4) by (rule bits_same) (auto simp: s1_def nbit_def)
  show "bits_ok ?s ?t lim"
  proof (cases "idx lim p = 0")
    case True
    then have "lim = 0" "p = []" using idx_pos_iff [of lim p] by auto
    with b1 p True show ?thesis by (simp add: bits_ok_def)
  next
    case False
    with b1 p rel'(2) show ?thesis using bits_put_leaf [of s1 t lim p FreeN HoleN] by simp
  qed
  have "lists_ok (list_remove (Blk (addr s lim p)) s) (free_blocks s lim ?t) lim"
    unfolding fb_take [OF p leafy_simps(3) btree.distinct(3) [symmetric] rel'(2)]
    using rel'(5) len fb_mem [OF p] fb_disj [OF rel'(2)] by (intro lists_remove) auto
  then show "lists_ok ?s (free_blocks ?s lim ?t) lim"
    by (subst free_blocks_cong [of ?s s]) (auto simp: s1_def intro: lists_cong)
  show "hdrs_ok ?s ?t lim"
  proof (rule hdrs_frame [OF rel'(6)])
    fix q r assume q: "sub ?t q = Some (UsedN r)"
    then show u: "sub t q = Some (UsedN r)" using p by (simp add: leaf_sub_put split: if_splits)
    have "addr s lim q \<notin> free_blocks s lim t (lim + length p)"
      using u rel'(2) by (intro fb_not) auto
    then have "bmem (list_remove (Blk (addr s lim p)) s) (Blk (addr s lim q)) = bmem s (Blk (addr s lim q))"
      using rel'(5) len fb_mem [OF p] by (intro lists_mem_frame(2) [of s _ lim]) auto
    then show "bmem ?s (Blk (addr s lim q)) = bmem s (Blk (addr s lim q))" by (simp add: s1_def)
  qed (simp add: s1_def)
  show "resv_ok ?s ?t lim"
  proof (rule resv_frame [OF rel'(7)])
    fix q u assume "sub ?t q = Some u" "leafy u"
    moreover have "addr s lim p + sizeof_list_t \<le> max_ptr s" using rel'(7) p by (auto simp: resv_ok_def)
    ultimately show "sub t q = Some u \<or> (\<forall>r. u \<noteq> UsedN r) \<and> addr s lim q + sizeof_list_t \<le> max_ptr ?s"
      using p m by (auto simp: leaf_sub_put s1_def split: if_splits)
  qed (use m in \<open>auto simp: s1_def\<close>)
qed

text \<open>Putting a block just taken back on its list, when no memory could be reserved.\<close>

lemma brel_put_back:
  assumes rel: "brel s t" and p: "sub t p = Some FreeN" and lim: "lim = bucket_limit s"
  shows "brel (list_push (Bucket (lim + length p)) (Blk (addr s lim p))
    (list_remove (Blk (addr s lim p)) s)) t" (is "brel ?s t")
proof (rule brelI [where lim = lim])
  let ?a = "addr s lim p" and ?b = "lim + length p"
  let ?F = "free_blocks s lim t" and ?s1 = "list_remove (Blk (addr s lim p)) s"
  note rel' = brelD [OF rel, folded lim]
  have len: "?b \<le> 27" using brel_path [OF rel p] lim by simp
  have l1: "lists_ok ?s1 (?F(?b := ?F ?b - {?a})) lim"
    using rel'(5) len fb_mem [OF p] fb_disj [OF rel'(2)] by (intro lists_remove) auto
  have "?a \<notin> ?F c" if "c \<noteq> ?b" for c using fb_disj [OF rel'(2) that] fb_mem [OF p, of s lim] by auto
  then have new: "?a \<notin> (?F(?b := ?F ?b - {?a})) c" for c by (cases "c = ?b") simp_all
  have dj: "(?F(?b := ?F ?b - {?a})) c \<inter> (?F(?b := ?F ?b - {?a})) ?b = {}" if "c \<noteq> ?b" for c
    using fb_disj [OF rel'(2) that, of s] that by auto
  have "lists_ok ?s ((?F(?b := ?F ?b - {?a}))(?b := insert ?a ((?F(?b := ?F ?b - {?a})) ?b))) lim"
    by (rule lists_push [OF l1 _ len new dj]) simp_all
  moreover have "insert ?a (?F ?b - {?a}) = ?F ?b" using fb_mem [OF p] by auto
  ultimately show "lists_ok ?s (free_blocks ?s lim t) lim"
    by (subst free_blocks_cong [of ?s s]) auto
  show "hdrs_ok ?s t lim"
  proof (rule hdrs_frame [OF rel'(6)])
    fix q r assume q: "sub t q = Some (UsedN r)"
    then have n: "addr s lim q \<notin> ?F ?b" using rel'(2) by (intro fb_not) auto
    then have "bmem ?s1 (Blk (addr s lim q)) = bmem s (Blk (addr s lim q))"
      using rel'(5) len fb_mem [OF p] by (intro lists_mem_frame(2) [of s _ lim]) auto
    moreover have "bmem ?s (Blk (addr s lim q)) = bmem ?s1 (Blk (addr s lim q))"
      using len n fb_mem [OF p, of s lim] by (intro lists_mem_frame(1) [OF l1]) auto
    ultimately show "bmem ?s (Blk (addr s lim q)) = bmem s (Blk (addr s lim q))" by simp
  qed simp_all
  show "resv_ok ?s t lim" using rel'(7) by (rule resv_frame) auto
  show "bits_ok ?s t lim" using rel'(4) by (rule bits_same) auto
qed (use brelD [OF rel] lim in auto)

lemma brel_split:
  assumes rel: "brel s t" and p: "sub t p = Some HoleN" and lim: "lim = bucket_limit s"
    and len: "lim + length p < 27" and m: "addr s lim (p @ [True]) + sizeof_list_t \<le> max_ptr s"
  shows "brel (list_push (Bucket (lim + length p + 1)) (Blk (addr s lim (p @ [True])))
      (flip_parent_is_split (idx lim (p @ [False])) s)) (put t p (SplitN HoleN FreeN))"
    (is "brel ?s ?t")
proof (rule brelI [where lim = lim])
  let ?a = "addr s lim (p @ [True])" and ?s1 = "flip_parent_is_split (idx lim (p @ [False])) s"
  note rel' = brelD [OF rel, folded lim]
  show h: "lim + hgt ?t \<le> 27" using hgt_put [OF p, of "SplitN HoleN FreeN"] rel'(2) len by auto
  show "merged ?t" using rel'(3) p by (intro merged_put) auto
  show "bits_ok ?s ?t lim" using bits_split [OF rel'(4) p len] by (rule bits_same) auto
  have new: "?a \<notin> free_blocks s lim t b" for b
  proof
    assume "?a \<in> free_blocks s lim t b"
    then obtain q where q: "sub t q = Some FreeN" "?a = addr s lim q" by (auto simp: free_blocks_def)
    then have n: "q \<noteq> p @ [False]" "q \<noteq> p" using p by (auto simp: sub_append)
    then have "sub ?t q = Some FreeN" using q p by (simp add: leaf_sub_split)
    moreover have "sub ?t (p @ [True]) = Some FreeN" by (simp add: sub_put_append [OF p])
    ultimately have "q = p @ [True]" using leaf_addr_inj [OF _ _ _ _ h q(2)] by auto
    with q(1) p show False by (simp add: sub_append)
  qed
  have "lists_ok (list_push (Bucket (lim + length p + 1)) (Blk ?a) ?s1) (free_blocks s lim ?t) lim"
    unfolding fb_split [OF p rel'(2) len]
    using new len fb_disj [OF rel'(2)] lists_cong [of ?s1 s, OF _ _ rel'(5)] by (intro lists_push) auto
  then show "lists_ok ?s (free_blocks ?s lim ?t) lim"
    by (subst free_blocks_cong [of ?s s]) auto
  show "hdrs_ok ?s ?t lim"
  proof (rule hdrs_frame [OF rel'(6)])
    fix q r assume q: "sub ?t q = Some (UsedN r)"
    then show u: "sub t q = Some (UsedN r)" using p by (simp add: leaf_sub_split split: if_splits)
    have "addr s lim q \<notin> free_blocks s lim t (lim + length p + 1)"
      using u rel'(2) by (intro fb_not) auto
    moreover have "addr s lim q \<noteq> ?a"
    proof
      assume "addr s lim q = ?a"
      then have "q = p @ [True]"
        using leaf_addr_inj [OF q _ _ _ h, of "p @ [True]" FreeN s] by (simp add: sub_put_append [OF p])
      with q show False by (simp add: sub_put_append [OF p])
    qed
    ultimately have "bmem ?s (Blk (addr s lim q)) = bmem ?s1 (Blk (addr s lim q))"
      using lists_cong [of ?s1 s, OF _ _ rel'(5)] len by (intro lists_mem_frame(1) [of _ _ lim]) auto
    then show "bmem ?s (Blk (addr s lim q)) = bmem s (Blk (addr s lim q))" by simp
  qed simp
  show "resv_ok ?s ?t lim"
  proof (rule resv_frame [OF rel'(7)])
    fix q u assume "sub ?t q = Some u" "leafy u"
    moreover have "addr s lim (p @ [False]) + sizeof_list_t \<le> max_ptr s"
      using m off_append [of lim p "[True]"] off_append [of lim p "[False]"] len by simp
    ultimately show "sub t q = Some u \<or> (\<forall>r. u \<noteq> UsedN r) \<and> addr s lim q + sizeof_list_t \<le> max_ptr ?s"
      using p m by (auto simp: leaf_sub_split split: if_splits)
  qed simp_all
qed (use brelD(1) [OF rel] lim in auto)

lemma brel_use:
  assumes rel: "brel s t" and p: "sub t p = Some HoleN" and lim: "lim = bucket_limit s"
    and r: "size_add r HEADER_SIZE \<le> MAX_ALLOC" "bucket_for_request (size_add r HEADER_SIZE) = Some (lim + length p)"
    and m: "addr s lim p + blksize (lim + length p) \<le> max_ptr s"
  shows "brel (s\<lparr>bmem := (bmem s)(Blk (addr s lim p) := HeaderCell r)\<rparr>) (put t p (UsedN r))"
    (is "brel ?s ?t")
proof (rule brelI [where lim = lim])
  note rel' = brelD [OF rel, folded lim]
  have len: "lim + length p \<le> 27" using brel_path [OF rel p] lim by simp
  show "lim + hgt ?t \<le> 27" using hgt_put [OF p, of "UsedN r"] rel'(2) len by auto
  show "merged ?t" using rel'(3) p by (intro merged_put) auto
  show "bits_ok ?s ?t lim"
  proof (rule bits_same [OF rel'(4)])
    show "split_at ?t q = split_at t q" for q using split_at_put [OF p] by auto
    show "(?t = FreeN) = (t = FreeN)" using p by (cases p; cases t) auto
  qed (auto simp: nbit_def)
  have "lists_ok ?s (free_blocks s lim t) lim"
    using rel'(2,5) p by (intro lists_write fb_not) auto
  moreover have "free_blocks s lim ?t = free_blocks s lim t" by (rule fb_same [OF p]) auto
  ultimately show "lists_ok ?s (free_blocks ?s lim ?t) lim"
    by (subst free_blocks_cong [of ?s s]) auto
  have inj: "addr s lim q \<noteq> addr s lim p" if "sub t q = Some (UsedN r')" for q r'
    using leaf_addr_inj [OF that p _ _ rel'(2), of s] that p by auto
  show "hdrs_ok ?s ?t lim"
    unfolding hdrs_ok_def
  proof (intro allI impI)
    fix q r' assume "sub ?t q = Some (UsedN r')"
    then have "q = p \<and> r' = r \<or> q \<noteq> p \<and> sub t q = Some (UsedN r')"
      using p by (auto simp: leaf_sub_put split: if_splits)
    then show "bmem ?s (Blk (addr ?s lim q)) = HeaderCell r' \<and> size_add r' HEADER_SIZE \<le> MAX_ALLOC \<and>
        bucket_for_request (size_add r' HEADER_SIZE) = Some (lim + length q)"
      using rel'(6) r inj [of q r'] by (auto simp: hdrs_ok_def)
  qed
  show "resv_ok ?s ?t lim"
    unfolding resv_ok_def
  proof (intro allI impI)
    fix q u assume "sub ?t q = Some u" "leafy u"
    then have "q = p \<and> u = UsedN r \<or> q \<noteq> p \<and> sub t q = Some u"
      using p by (auto simp: leaf_sub_put split: if_splits)
    then show "addr ?s lim q + sizeof_list_t \<le> max_ptr ?s \<and>
        (\<forall>r'. u = UsedN r' \<longrightarrow> addr ?s lim q + blksize (lim + length q) \<le> max_ptr ?s)"
      using rel'(7) m blksize_min [OF len] \<open>leafy u\<close> by (auto simp: resv_ok_def sizeof_list_t_def)
  qed
qed (use brelD(1) [OF rel] lim in auto)

lemma brel_unuse:
  assumes rel: "brel s t" and p: "sub t p = Some (UsedN r)"
  shows "brel s (put t p HoleN)" (is "brel s ?t")
proof (rule brelI [OF _ refl])
  let ?lim = "bucket_limit s"
  note rel' = brelD [OF rel]
  show "?lim + hgt ?t \<le> 27" using hgt_put [OF p, of HoleN] rel'(2) brel_path [OF rel p] by auto
  show "merged ?t" using rel'(3) p by (intro merged_put) auto
  show "bits_ok s ?t ?lim"
  proof (rule bits_same [OF rel'(4)])
    show "split_at ?t q = split_at t q" for q using split_at_put [OF p] by auto
    show "(?t = FreeN) = (t = FreeN)" using p by (cases p; cases t) auto
  qed simp
  show "lists_ok s (free_blocks s ?lim ?t) ?lim"
    using rel'(5) fb_same [OF p, of HoleN] by simp
  show "hdrs_ok s ?t ?lim"
    using rel'(6) p by (rule_tac hdrs_frame) (auto simp: leaf_sub_put split: if_splits)
  show "resv_ok s ?t ?lim"
    using rel'(7) p by (rule_tac resv_frame) (auto simp: leaf_sub_put resv_ok_def split: if_splits)
qed (use brelD(1) [OF rel] in simp)

text \<open>
  Giving a block in transit back to its list.  It must not have a free buddy,
  or the tree would hold two free siblings.
\<close>

lemma merged_give:
  assumes "merged t" "sub t p = Some v" "p \<noteq> [] \<Longrightarrow> sub t (butlast p @ [\<not> last p]) \<noteq> Some FreeN"
  shows "merged (put t p FreeN)"
  using assms
proof (induction t p FreeN rule: put.induct)
  case (2 l r d p)
  show ?case
  proof (cases p)
    case Nil
    with 2 show ?thesis by (auto split: if_splits)
  next
    case (Cons e p')
    have ne: "r \<noteq> FreeN" if d using 2 Cons that by auto
    have ne': "l \<noteq> FreeN" if "\<not> d" using 2 Cons that by auto
    have "put r p FreeN \<noteq> FreeN" if d using ne [OF that] Cons by (simp add: put_eq_Free)
    moreover have "put l p FreeN \<noteq> FreeN" if "\<not> d" using ne' [OF that] Cons by (simp add: put_eq_Free)
    ultimately show ?thesis using 2 Cons by (cases d) auto
  qed
qed auto

lemma brel_give:
  assumes rel: "brel s t" and p: "sub t p = Some HoleN" and lim: "lim = bucket_limit s"
    and sib: "p \<noteq> [] \<Longrightarrow> sub t (butlast p @ [\<not> last p]) \<noteq> Some FreeN"
  defines "s1 \<equiv> (if idx lim p \<noteq> 0 then flip_parent_is_split (idx lim p) s else s)"
  shows "brel (list_push (Bucket (lim + length p)) (Blk (addr s lim p)) s1) (put t p FreeN)"
    (is "brel ?s ?t")
proof (rule brelI [where lim = lim])
  note rel' = brelD [OF rel, folded lim]
  have len: "lim + length p \<le> 27" using brel_path [OF rel p] lim by simp
  show "base_ptr ?s \<noteq> 0" using rel'(1) by (simp add: s1_def)
  show "bucket_limit ?s = lim" by (simp add: s1_def lim)
  show "lim + hgt ?t \<le> 27" using hgt_put [OF p, of FreeN] rel'(2) len by auto
  show "merged ?t" using rel'(3) p sib by (rule merged_give)
  have "bits_ok s1 ?t lim"
  proof (cases "idx lim p = 0")
    case True
    then have "lim = 0" "p = []" using idx_pos_iff [of lim p] by auto
    with rel'(4) p True show ?thesis by (simp add: bits_ok_def s1_def)
  next
    case False
    with rel'(2,4) p show ?thesis using bits_put_leaf [of s t lim p HoleN FreeN] by (simp add: s1_def)
  qed
  then show "bits_ok ?s ?t lim" by (rule bits_same) auto
  have l1: "lists_ok s1 (free_blocks s lim t) lim"
    using rel'(5) by (rule lists_cong [rotated 2]) (auto simp: s1_def)
  have na: "addr s lim p \<notin> free_blocks s lim t b" for b using p rel'(2) by (intro fb_not) auto
  have "lists_ok ?s (free_blocks s lim ?t) lim"
    unfolding fb_give [OF p leafy_simps(3) btree.distinct(3) [symmetric] rel'(2)]
    using l1 len na fb_disj [OF rel'(2)] by (intro lists_push) auto
  then show "lists_ok ?s (free_blocks ?s lim ?t) lim"
    by (subst free_blocks_cong [of ?s s]) (auto simp: s1_def)
  show "hdrs_ok ?s ?t lim"
  proof (rule hdrs_frame [OF rel'(6)])
    fix q r assume q: "sub ?t q = Some (UsedN r)"
    then show u: "sub t q = Some (UsedN r)" using p by (simp add: leaf_sub_put split: if_splits)
    have "addr s lim q \<noteq> addr s lim p" using leaf_addr_inj [OF u p _ _ rel'(2), of s] u p by auto
    moreover have "addr s lim q \<notin> free_blocks s lim t (lim + length p)"
      using u rel'(2) by (intro fb_not) auto
    ultimately have "bmem ?s (Blk (addr s lim q)) = bmem s1 (Blk (addr s lim q))"
      using l1 len by (intro lists_mem_frame(1) [of _ _ lim]) auto
    then show "bmem ?s (Blk (addr s lim q)) = bmem s (Blk (addr s lim q))" by (simp add: s1_def)
  qed (simp add: s1_def)
  show "resv_ok ?s ?t lim"
    using rel'(7) p by (rule_tac resv_frame) (auto simp: leaf_sub_put resv_ok_def s1_def split: if_splits)
qed

lemma brel_merge:
  assumes rel: "brel s t" and p: "sub t (p @ [d]) = Some HoleN" and lim: "lim = bucket_limit s"
    and sib: "sub t (p @ [\<not> d]) = Some FreeN"
  shows "brel (list_remove (Blk (addr s lim (p @ [\<not> d])))
    (flip_parent_is_split (idx lim (p @ [d])) s)) (put t p HoleN)" (is "brel ?s ?t")
proof (rule brelI [where lim = lim])
  let ?s1 = "flip_parent_is_split (idx lim (p @ [d])) s" and ?t1 = "put t (p @ [d]) FreeN"
  note rel' = brelD [OF rel, folded lim]
  have len: "lim + length p + 1 \<le> 27" using brel_path [OF rel p] lim by simp
  obtain a b where ab: "sub t p = Some (SplitN a b)" "{a, b} = {HoleN, FreeN}"
  proof -
    have "sub t p \<noteq> None" using p by (auto simp: sub_append split: option.splits)
    then obtain v where v: "sub t p = Some v" by blast
    with p sib show ?thesis using that by (cases v; cases d) (auto simp: sub_append)
  qed
  have leafy: "leafy a" "leafy b" using ab(2) by (auto simp: doubleton_eq_iff)
  show "lim + hgt ?t \<le> 27" using hgt_put [OF ab(1), of HoleN] rel'(2) len by auto
  show "merged ?t" using rel'(3) ab(1) by (intro merged_put) auto
  show "bits_ok ?s ?t lim"
  proof (rule bits_same)
    show "bits_ok ?s1 ?t1 lim"
      using rel'(2,4) p idx_pos_iff [of lim "p @ [d]"] by (intro bits_put_leaf) auto
    have s: "sub ?t1 p = Some (SplitN FreeN FreeN)"
      using sub_put_above [OF p, of FreeN] ab p sib by (cases d) (auto simp: doubleton_eq_iff sub_append)
    show "split_at ?t q = split_at ?t1 q" for q
    proof -
      have "put ?t1 p HoleN = ?t" using put_put_above [OF ab(1)] .
      moreover have "\<not> split_at ?t1 (p @ r)" for r
        using split_at_below [OF s, of r] by (auto simp: split_at_SplitN split: list.splits)
      ultimately show ?thesis
        using split_at_put_nonfree [OF s, of HoleN q] by (auto simp: prefix_def)
    qed
    have "?t1 \<noteq> FreeN" using s by (cases p; cases ?t1) auto
    then show "(?t = FreeN) = (?t1 = FreeN)" using put_not_Free [OF ab(1), of HoleN] by simp
  qed simp
  have l1: "lists_ok ?s1 (free_blocks s lim t) lim" using rel'(5) by (rule lists_cong [rotated 2]) auto
  have mem: "addr s lim (p @ [\<not> d]) \<in> free_blocks s lim t (lim + length p + 1)"
    using fb_mem [OF sib, of s lim] by simp
  have "lists_ok ?s (free_blocks s lim ?t) lim"
    unfolding fb_join [OF ab sib rel'(2)]
    using l1 len mem fb_disj [OF rel'(2)] by (intro lists_remove) auto
  then show "lists_ok ?s (free_blocks ?s lim ?t) lim" by (subst free_blocks_cong [of ?s s]) auto
  show "hdrs_ok ?s ?t lim"
  proof (rule hdrs_frame [OF rel'(6)])
    fix q r assume q: "sub ?t q = Some (UsedN r)"
    then show u: "sub t q = Some (UsedN r)"
      using leaf_sub_join [OF ab(1) leafy, of HoleN "UsedN r" q] by (auto split: if_splits)
    have "addr s lim q \<notin> free_blocks s lim t (lim + length p + 1)"
      using u rel'(2) by (intro fb_not) auto
    then have "bmem ?s (Blk (addr s lim q)) = bmem ?s1 (Blk (addr s lim q))"
      using l1 len mem by (intro lists_mem_frame(2) [of _ _ lim]) auto
    then show "bmem ?s (Blk (addr s lim q)) = bmem s (Blk (addr s lim q))" by simp
  qed simp
  show "resv_ok ?s ?t lim"
  proof (rule resv_frame [OF rel'(7)])
    fix q u assume q: "sub ?t q = Some u" "leafy u"
    have "sub t (p @ [False]) \<in> {Some HoleN, Some FreeN}" using p sib by (cases d) auto
    then have "addr s lim (p @ [False]) + sizeof_list_t \<le> max_ptr s"
      using rel'(7) by (auto simp: resv_ok_def)
    moreover have "off lim (p @ [False]) = off lim p" using off_append [of lim p "[False]"] len by simp
    ultimately show "sub t q = Some u \<or> (\<forall>r. u \<noteq> UsedN r) \<and> addr s lim q + sizeof_list_t \<le> max_ptr ?s"
      using leaf_sub_join [OF ab(1) leafy, of HoleN u q] q by (auto split: if_splits)
  qed simp_all
qed (use brelD(1) [OF rel] lim in auto)

section \<open>Growing the tree\<close>

lemma sub_grow: "sub (SplitN t FreeN) q = Some u \<longleftrightarrow>
    (q = [] \<and> u = SplitN t FreeN \<or> q = [True] \<and> u = FreeN \<or> (\<exists>q'. q = False # q' \<and> sub t q' = Some u))"
proof (cases q)
  case (Cons d q')
  then show ?thesis by (cases d; cases q') auto
qed auto

lemma lists_new_bucket:
  assumes "lists_ok s F lim" "0 < lim" "lim \<le> 27"
    and "list_next s' = list_next s" "list_prev s' = list_prev s"
  shows "lists_ok (list_init (Bucket (lim - 1)) s') (F(lim - 1 := {})) (lim - 1)"
  unfolding lists_ok_def
proof (intro allI impI)
  let ?s = "list_init (Bucket (lim - 1)) s'"
  fix b assume b: "lim - 1 \<le> b \<and> b \<le> 27"
  show "\<exists>xs. ring (list_next ?s) (list_prev ?s) (Bucket b) (map Blk xs) \<and> set xs = (F(lim - 1 := {})) b"
  proof (cases "b = lim - 1")
    case True
    have "ring (list_next ?s) (list_prev ?s) (Bucket b) (map Blk [])"
      using bl.init_ring [of "Bucket b" s'] True by simp
    with True show ?thesis by (intro exI [of _ "[]"]) auto
  next
    case False
    with b have "lim \<le> b" "b \<le> 27" by auto
    then obtain xs where "ring (list_next s) (list_prev s) (Bucket b) (map Blk xs)" "set xs = F b"
      using assms(1) lists_okD by blast
    moreover have "ring (list_next ?s) (list_prev ?s) (Bucket b) (map Blk xs) \<longleftrightarrow>
        ring (list_next s') (list_prev s') (Bucket b) (map Blk xs)"
      using False by (intro bl.init_other) auto
    ultimately show ?thesis using assms(4,5) False by auto
  qed
qed

lemma lists_FreeN:
  "free_blocks s lim FreeN = (\<lambda>b. if b = lim then {base_ptr s} else {})"
proof (rule ext)
  fix b
  have "sub FreeN p = Some FreeN \<longleftrightarrow> p = []" for p by (cases p) auto
  then show "free_blocks s lim FreeN b = (if b = lim then {base_ptr s} else {})"
    by (auto simp: free_blocks_def off_def)
qed

text \<open>An unused tree moves its only block one bucket up.\<close>

lemma brel_grow_free:
  assumes rel: "brel s FreeN" and l: "0 < bucket_limit s"
  defines "s2 \<equiv> (list_remove (Blk (base_ptr s)) s)\<lparr>bucket_limit := bucket_limit s - 1\<rparr>"
  shows "brel (list_push (Bucket (bucket_limit s - 1)) (Blk (base_ptr s))
    (list_init (Bucket (bucket_limit s - 1)) s2)) FreeN" (is "brel ?s FreeN")
proof (rule brelI [where lim = "bucket_limit s - 1"])
  let ?l = "bucket_limit s" and ?b = "base_ptr s"
  let ?s3 = "list_init (Bucket (bucket_limit s - 1)) s2"
  note rel' = brelD [OF rel]
  show "base_ptr ?s \<noteq> 0" "bucket_limit ?s = ?l - 1" using rel'(1) by (simp_all add: s2_def)
  show "?l - 1 + hgt FreeN \<le> 27" "merged FreeN" using rel'(2) by auto
  have "\<not> nbit s j" for j using rel'(4) by (simp add: bits_ok_def)
  then show "bits_ok ?s FreeN (?l - 1)" by (simp add: bits_ok_def s2_def nbit_def)
  have F: "free_blocks s ?l FreeN = (\<lambda>b. if b = ?l then {?b} else {})" by (rule lists_FreeN)
  have "lists_ok (list_remove (Blk ?b) s) ((free_blocks s ?l FreeN)(?l := {})) ?l"
    using rel'(2,5) lists_remove [of s "free_blocks s ?l FreeN" ?l ?l ?b] by (simp add: F)
  then have "lists_ok ?s3 (((free_blocks s ?l FreeN)(?l := {}))(?l - 1 := {})) (?l - 1)"
    using l rel'(2) by (intro lists_new_bucket [of "list_remove (Blk ?b) s"]) (auto simp: s2_def)
  then have e: "lists_ok ?s3 (\<lambda>_. {}) (?l - 1)"
    by (rule back_subst [where P = "\<lambda>F. lists_ok ?s3 F (?l - 1)"]) (auto simp: F fun_eq_iff)
  have "lists_ok ?s ((\<lambda>_. {})(?l - 1 := {?b})) (?l - 1)"
    using lists_push [OF e, of "?l - 1" ?b] rel'(2) by simp
  moreover have "free_blocks ?s (?l - 1) FreeN = (\<lambda>_. {})(?l - 1 := {?b})"
    by (subst lists_FreeN) (auto simp: s2_def fun_eq_iff)
  ultimately show "lists_ok ?s (free_blocks ?s (?l - 1) FreeN) (?l - 1)" by simp
  have leaf: "sub FreeN p = Some u \<longleftrightarrow> p = [] \<and> u = FreeN" for p u by (cases p) auto
  show "hdrs_ok ?s FreeN (?l - 1)" by (simp add: hdrs_ok_def leaf)
  show "resv_ok ?s FreeN (?l - 1)"
    using rel'(7) by (simp add: resv_ok_def leaf s2_def off_def)
qed

text \<open>A tree in use becomes the left child of a new root; the right child is free.\<close>

lemma bits_grow:
  assumes bits: "bits_ok s t lim" and t: "t \<noteq> FreeN" and l: "0 < lim" "lim \<le> 27"
  defines "i \<equiv> idx (lim - 1) []"
  shows "bits_ok (if i \<noteq> 0 then flip_parent_is_split i s else s) (SplitN t FreeN) (lim - 1)"
    (is "bits_ok ?s _ _")
  unfolding bits_ok_def
proof
  fix j
  have old: "nbit s j \<longleftrightarrow> (\<exists>p. j = idx (lim - 1) (False # p) \<and> split_at t p) \<or> j = idx (lim - 1) []"
    using bits t l(1) by (simp add: bits_ok_def idx_grow)
  have split: "split_at (SplitN t FreeN) p \<longleftrightarrow> p = [] \<or> (\<exists>p'. p = False # p' \<and> split_at t p')" for p
    using t by (cases p) (auto simp: split_at_SplitN)
  have i0: "i = 0 \<longleftrightarrow> lim = 1" using idx_pos_iff [of "lim - 1" "[]"] l by (auto simp: i_def)
  have flip: "nbit ?s j \<longleftrightarrow> (nbit s j \<noteq> (1 < lim \<and> j = idx (lim - 1 - 1) []))"
    using i0 l parent_index_root [of "lim - 1"] by (auto simp: nbit_flip i_def)
  have "nbit s j = False" if "1 < lim" "j = idx (lim - 1 - 1) []"
    using that old root_parent_neq [of "lim - 1"] by auto
  then show "nbit ?s j \<longleftrightarrow> (\<exists>p. j = idx (lim - 1) p \<and> split_at (SplitN t FreeN) p) \<or>
      (0 < lim - 1 \<and> SplitN t FreeN \<noteq> FreeN \<and> j = idx (lim - 1 - 1) [])"
    unfolding flip split using old by auto
qed

lemma fb_grow:
  assumes l: "0 < lim"
  shows "free_blocks s (lim - 1) (SplitN t FreeN) =
    (free_blocks s lim t)(lim := insert (addr s (lim - 1) [True]) (free_blocks s lim t lim), lim - 1 := {})"
proof (rule ext)
  fix b
  have "free_blocks s lim t b = {}" if "b < lim" using that by (auto simp: free_blocks_def)
  moreover have "free_blocks s (lim - 1) (SplitN t FreeN) b =
      (if b = lim then {addr s (lim - 1) [True]} else {}) \<union> free_blocks s lim t b"
  proof -
    have "free_blocks s (lim - 1) (SplitN t FreeN) b =
        {addr s (lim - 1) [True] |x::unit. lim - 1 + length [True] = b} \<union>
        {addr s (lim - 1) (False # q) |q. sub t q = Some FreeN \<and> lim - 1 + length (False # q) = b}"
      unfolding free_blocks_def sub_grow by blast
    then show ?thesis using l by (simp add: off_grow free_blocks_def)
  qed
  ultimately show "free_blocks s (lim - 1) (SplitN t FreeN) b =
    ((free_blocks s lim t)(lim := insert (addr s (lim - 1) [True]) (free_blocks s lim t lim), lim - 1 := {})) b"
    using l by auto
qed

lemma brel_grow_used:
  assumes rel: "brel s t" and t: "t \<noteq> FreeN" and lim: "lim = bucket_limit s" and l: "0 < lim"
    and m: "addr s (lim - 1) [True] + sizeof_list_t \<le> max_ptr s"
  defines "s1 \<equiv> list_push (Bucket lim) (Blk (addr s (lim - 1) [True])) s"
  defines "s3 \<equiv> list_init (Bucket (lim - 1)) (s1\<lparr>bucket_limit := lim - 1\<rparr>)"
  defines "i \<equiv> idx (lim - 1) []"
  shows "brel (if i \<noteq> 0 then flip_parent_is_split i s3 else s3) (SplitN t FreeN)" (is "brel ?s ?t")
proof (rule brelI [where lim = "lim - 1"])
  let ?a = "addr s (lim - 1) [True]"
  note rel' = brelD [OF rel, folded lim]
  have l27: "lim \<le> 27" using rel'(2) by simp
  show "base_ptr ?s \<noteq> 0" "bucket_limit ?s = lim - 1" using rel'(1) by (simp_all add: s1_def s3_def)
  show h: "lim - 1 + hgt ?t \<le> 27" using rel'(2) l by auto
  show "merged ?t" using rel'(3) t by simp
  have "bits_ok s3 t lim" using rel'(4) by (rule bits_same) (auto simp: s1_def s3_def nbit_def)
  then show "bits_ok ?s ?t (lim - 1)" unfolding i_def by (rule bits_grow [OF _ t l l27])
  have leaf: "addr s lim q \<noteq> ?a" if "sub t q = Some u" "leafy u" for q u
  proof
    assume "addr s lim q = ?a"
    then have "addr s (lim - 1) (False # q) = addr s (lim - 1) [True]" using l by (simp add: off_grow)
    then have "False # q = [True]"
      using leaf_addr_inj [of ?t "False # q" u "[True]" FreeN "lim - 1" s] h that by simp
    then show False by simp
  qed
  then have na: "?a \<notin> free_blocks s lim t b" for b by (auto simp: free_blocks_def dest: leaf)
  have "lists_ok s1 ((free_blocks s lim t)(lim := insert ?a (free_blocks s lim t lim))) lim"
    unfolding s1_def using rel'(5) l27 na fb_disj [OF rel'(2)] by (intro lists_push) auto
  then have "lists_ok s3 (free_blocks s (lim - 1) ?t) (lim - 1)"
    unfolding s3_def fb_grow [OF l] using l l27 by (rule lists_new_bucket) auto
  then show "lists_ok ?s (free_blocks ?s (lim - 1) ?t) (lim - 1)"
    by (subst free_blocks_cong [of ?s s]) (auto simp: s1_def s3_def intro: lists_cong)
  show "hdrs_ok ?s ?t (lim - 1)"
    unfolding hdrs_ok_def
  proof (intro allI impI)
    fix q r assume "sub ?t q = Some (UsedN r)"
    then obtain q' where q: "q = False # q'" and u: "sub t q' = Some (UsedN r)" by (auto simp: sub_grow)
    have "addr s lim q' \<notin> free_blocks s lim t lim" using u rel'(2) by (intro fb_not) auto
    then have "bmem s1 (Blk (addr s lim q')) = bmem s (Blk (addr s lim q'))"
      unfolding s1_def using rel'(5) l27 leaf [OF u] by (intro lists_mem_frame(1) [OF rel'(5)]) auto
    then have "bmem ?s (Blk (addr s lim q')) = bmem s (Blk (addr s lim q'))"
      by (simp add: s3_def bmem_list_ops(1))
    moreover have "addr ?s (lim - 1) q = addr s lim q'"
      using l q by (simp add: off_grow s1_def s3_def)
    ultimately show "bmem ?s (Blk (addr ?s (lim - 1) q)) = HeaderCell r \<and>
        size_add r HEADER_SIZE \<le> MAX_ALLOC \<and>
        bucket_for_request (size_add r HEADER_SIZE) = Some (lim - 1 + length q)"
      using rel'(6) u l q by (simp only: hdrs_ok_def) simp
  qed
  show "resv_ok ?s ?t (lim - 1)"
    unfolding resv_ok_def
  proof (intro allI impI)
    fix q u assume u: "sub ?t q = Some u" "leafy u"
    then show "addr ?s (lim - 1) q + sizeof_list_t \<le> max_ptr ?s \<and>
        (\<forall>r. u = UsedN r \<longrightarrow> addr ?s (lim - 1) q + blksize (lim - 1 + length q) \<le> max_ptr ?s)"
      using rel'(7) m l by (auto simp: sub_grow resv_ok_def off_grow s1_def s3_def)
  qed
qed

end
