(* ===== verification/Buddy_Alloc.thy ===== *)
theory Buddy_Alloc
  imports Buddy_Sim
begin

text \<open>
  The operations of the buddy allocator against the tree: growing keeps the
  allocations, \<open>bmalloc\<close> adds exactly one or reports failure, \<open>bfree\<close> removes
  exactly one and coalesces.  \<open>buddy_inv s A\<close> is what a client sees: \<open>A\<close> is the
  set of live allocations, each a user pointer with its requested size.
\<close>

section \<open>Trees without and with one block in transit\<close>

definition noholes :: "btree \<Rightarrow> bool" where
  "noholes t \<longleftrightarrow> (\<forall>p. sub t p \<noteq> Some HoleN)"

definition hole :: "btree \<Rightarrow> bool list \<Rightarrow> bool" where
  "hole t p \<longleftrightarrow> sub t p = Some HoleN \<and> (\<forall>q. sub t q = Some HoleN \<longrightarrow> q = p)"

definition same_used :: "btree \<Rightarrow> btree \<Rightarrow> bool" where
  "same_used t t' \<longleftrightarrow> (\<forall>q r. sub t' q = Some (UsedN r) \<longleftrightarrow> sub t q = Some (UsedN r))"

lemma same_used_refl [simp]: "same_used t t"
  by (simp add: same_used_def)

lemma same_used_trans: "same_used t u \<Longrightarrow> same_used u w \<Longrightarrow> same_used t w"
  by (simp add: same_used_def)

lemma same_used_put:
  assumes "sub t p = Some v" "leafy v" "leafy u" "\<And>r. v \<noteq> UsedN r" "\<And>r. u \<noteq> UsedN r"
  shows "same_used t (put t p u)"
  unfolding same_used_def
proof (intro allI)
  fix q r
  show "sub (put t p u) q = Some (UsedN r) \<longleftrightarrow> sub t q = Some (UsedN r)"
    using leaf_sub_put [OF assms(1-3), of "UsedN r" q] assms(1) assms(4) [of r] assms(5) [of r] by auto
qed

lemma same_used_split: "sub t p = Some HoleN \<Longrightarrow> same_used t (put t p (SplitN HoleN FreeN))"
  unfolding same_used_def
proof (intro allI)
  fix q r assume p: "sub t p = Some HoleN"
  show "sub (put t p (SplitN HoleN FreeN)) q = Some (UsedN r) \<longleftrightarrow> sub t q = Some (UsedN r)"
    using leaf_sub_split [OF p, of HoleN FreeN "UsedN r" q] p by (auto simp: sub_append)
qed

lemma same_used_join:
  assumes p: "sub t p = Some (SplitN a b)" "{a, b} = {HoleN, FreeN}"
  shows "same_used t (put t p HoleN)"
  unfolding same_used_def
proof (intro allI)
  fix q r
  have ab: "leafy a" "leafy b" "a \<noteq> UsedN r" "b \<noteq> UsedN r" using p(2) by (auto simp: doubleton_eq_iff)
  then show "sub (put t p HoleN) q = Some (UsedN r) \<longleftrightarrow> sub t q = Some (UsedN r)"
    using leaf_sub_join [OF p(1) ab(1,2), of HoleN "UsedN r" q] p(1) by (auto simp: sub_append)
qed

lemma hole_put: "noholes t \<Longrightarrow> sub t p = Some v \<Longrightarrow> leafy v \<Longrightarrow> hole (put t p HoleN) p"
  by (auto simp: noholes_def hole_def leaf_sub_put)

lemma hole_split: "hole t p \<Longrightarrow> hole (put t p (SplitN HoleN FreeN)) (p @ [False])"
  by (auto simp: hole_def leaf_sub_split split: if_splits)

lemma hole_fill: "hole t p \<Longrightarrow> leafy u \<Longrightarrow> u \<noteq> HoleN \<Longrightarrow> noholes (put t p u)"
  by (auto simp: hole_def noholes_def leaf_sub_put split: if_splits)

lemma hole_join:
  assumes h: "hole t (p @ [d])" and p: "sub t p = Some (SplitN a b)" "{a, b} = {HoleN, FreeN}"
  shows "hole (put t p HoleN) p"
proof -
  have ab: "leafy a" "leafy b" using p(2) by (auto simp: doubleton_eq_iff)
  have "q = p" if "sub (put t p HoleN) q = Some HoleN" for q
  proof -
    have "q = p \<or> q \<noteq> p @ [False] \<and> q \<noteq> p @ [True] \<and> sub t q = Some HoleN"
      using leaf_sub_join [OF p(1) ab, of HoleN HoleN q] that by (simp split: if_splits)
    moreover have "sub t q = Some HoleN \<Longrightarrow> q = p @ [d]" using h by (simp add: hole_def)
    ultimately show ?thesis by (cases d) auto
  qed
  then show ?thesis using p(1) by (auto simp: hole_def)
qed

section \<open>Allocations as seen by the client\<close>

lemma allocs_cong:
  assumes "same_used t t'" "base_ptr s' = base_ptr s" "bucket_limit s' = bucket_limit s"
  shows "allocs s' t' = allocs s t"
  using assms by (simp add: allocs_def same_used_def)

lemma allocs_use:
  assumes "sub t p = Some v" "leafy v" "\<And>r. v \<noteq> UsedN r"
    and "base_ptr s' = base_ptr s" "bucket_limit s' = bucket_limit s"
  shows "allocs s' (put t p (UsedN r)) = insert (addr s (bucket_limit s) p + HEADER_SIZE, r) (allocs s t)"
proof -
  have "sub (put t p (UsedN r)) q = Some (UsedN x) \<longleftrightarrow> q = p \<and> x = r \<or> sub t q = Some (UsedN x)" for q x
    using leaf_sub_put [OF assms(1,2), of "UsedN r" "UsedN x" q] assms(1) assms(3) [of x] by auto
  then show ?thesis unfolding allocs_def assms(4,5) by auto
qed

lemma allocs_unuse:
  assumes rel: "brel s t" and p: "sub t p = Some (UsedN r)"
  shows "allocs s (put t p HoleN) = allocs s t - {(addr s (bucket_limit s) p + HEADER_SIZE, r)}"
proof -
  let ?l = "bucket_limit s"
  have "sub (put t p HoleN) q = Some (UsedN x) \<longleftrightarrow> q \<noteq> p \<and> sub t q = Some (UsedN x)" for q x
    using leaf_sub_put [OF p, of HoleN "UsedN x" q] by auto
  then have e: "allocs s (put t p HoleN) = {(addr s ?l q + HEADER_SIZE, x) |q x. q \<noteq> p \<and> sub t q = Some (UsedN x)}"
    by (simp add: allocs_def)
  have "addr s ?l q \<noteq> addr s ?l p" if "sub t q = Some (UsedN x)" "q \<noteq> p" for q x
    using leaf_addr_inj [OF that(1) p _ _ brelD(2) [OF rel], of s] that(2) by auto
  moreover have "x = r" if "sub t p = Some (UsedN x)" for x using that p by simp
  ultimately have "{(addr s ?l q + HEADER_SIZE, x) |q x. q \<noteq> p \<and> sub t q = Some (UsedN x)} =
      {(addr s ?l q + HEADER_SIZE, x) |q x. sub t q = Some (UsedN x)} - {(addr s ?l p + HEADER_SIZE, r)}"
    by auto metis+
  then show ?thesis unfolding e by (simp add: allocs_def)
qed

lemma allocs_fresh:
  assumes rel: "brel s t" and p: "sub t p = Some v" "leafy v" "\<And>r. v \<noteq> UsedN r"
  shows "(addr s (bucket_limit s) p + HEADER_SIZE, r) \<notin> allocs s t"
proof
  assume "(addr s (bucket_limit s) p + HEADER_SIZE, r) \<in> allocs s t"
  then obtain q where q: "sub t q = Some (UsedN r)" "addr s (bucket_limit s) p = addr s (bucket_limit s) q"
    by (auto simp: allocs_def)
  then have "p = q" using leaf_addr_inj [OF p(1) q(1) p(2) _ brelD(2) [OF rel] q(2)] by simp
  with p q show False by auto
qed

text \<open>Live allocations never overlap, and lie in reserved memory.\<close>

lemma allocs_block:
  assumes rel: "brel s t" and a: "(x, r) \<in> allocs s t"
  obtains p b where "sub t p = Some (UsedN r)" "b = bucket_limit s + length p"
    "x = addr s (bucket_limit s) p + HEADER_SIZE" "bucket_for_request (size_add r HEADER_SIZE) = Some b"
    "b \<le> 27" "addr s (bucket_limit s) p + blksize b \<le> max_ptr s" "size_add r HEADER_SIZE \<le> MAX_ALLOC"
proof -
  obtain p where p: "sub t p = Some (UsedN r)" "x = addr s (bucket_limit s) p + HEADER_SIZE"
    using a by (auto simp: allocs_def)
  then show ?thesis
    using that [OF p(1) refl p(2)] brelD [OF rel] brel_path [OF rel p(1)]
    by (auto simp: hdrs_ok_def resv_ok_def)
qed

lemma allocs_disjoint:
  assumes rel: "brel s t" and a: "(x, r) \<in> allocs s t" "(y, r') \<in> allocs s t" "(x, r) \<noteq> (y, r')"
    and b: "bucket_for_request (size_add r HEADER_SIZE) = Some b"
      "bucket_for_request (size_add r' HEADER_SIZE) = Some b'"
  shows "x + blksize b \<le> y \<or> y + blksize b' \<le> x"
proof -
  obtain p where p: "sub t p = Some (UsedN r)" "b = bucket_limit s + length p" "b \<le> 27"
    "x = addr s (bucket_limit s) p + HEADER_SIZE"
    using allocs_block [OF rel a(1)] b(1) by auto
  obtain q where q: "sub t q = Some (UsedN r')" "b' = bucket_limit s + length q" "b' \<le> 27"
    "y = addr s (bucket_limit s) q + HEADER_SIZE"
    using allocs_block [OF rel a(2)] b(2) by auto
  have "p \<noteq> q" using p q a(3) by auto
  then have "p \<parallel> q" using leaves_parallel [OF p(1) q(1)] by simp
  then have "off (bucket_limit s) p + blksize b \<le> off (bucket_limit s) q \<or>
      off (bucket_limit s) q + blksize b' \<le> off (bucket_limit s) p"
    using off_parallel [of p q "bucket_limit s"] p(2,3) q(2,3) by simp
  then show ?thesis using p(4) q(4) by auto
qed

section \<open>Growing the tree\<close>

definition grow :: "btree \<Rightarrow> btree" where
  "grow t = (if t = FreeN then FreeN else SplitN t FreeN)"

lemma noholes_FreeN [simp]: "noholes FreeN"
proof -
  have "sub FreeN p \<noteq> Some HoleN" for p by (cases p) auto
  then show ?thesis by (simp add: noholes_def)
qed

lemma noholes_grow: "noholes t \<Longrightarrow> noholes (grow t)"
  by (auto simp: noholes_def grow_def sub_grow)

lemma noholes_grows: "noholes t \<Longrightarrow> noholes ((grow ^^ k) t)"
  by (induction k) (auto simp: noholes_grow)

lemma allocs_grow:
  assumes "0 < bucket_limit s" "base_ptr s' = base_ptr s" "bucket_limit s' = bucket_limit s - Suc 0"
  shows "allocs s' (grow t) = allocs s t"
proof (cases "t = FreeN")
  case True
  have "sub FreeN p \<noteq> Some (UsedN r)" for p r by (cases p) auto
  with True show ?thesis by (simp add: allocs_def grow_def)
next
  case False
  have "allocs s' (grow t) =
      {(addr s (bucket_limit s - Suc 0) (False # q) + HEADER_SIZE, r) |q r. sub t q = Some (UsedN r)}"
    using False unfolding allocs_def assms(2,3) grow_def by (auto simp: sub_grow)
  then show ?thesis using assms(1) by (simp add: off_grow allocs_def)
qed

text \<open>One turn of the loop in \<open>lower_bucket_limit\<close>.\<close>

lemma lower_bucket_limit_turn:
  assumes rel: "brel s t" and b: "bucket < bucket_limit s"
  shows "(\<exists>s'. lower_bucket_limit brk_ok bucket s = lower_bucket_limit brk_ok bucket s' \<and>
        brel s' (grow t) \<and> bucket_limit s' = bucket_limit s - 1 \<and> base_ptr s' = base_ptr s) \<or>
    (lower_bucket_limit brk_ok bucket s = (False, s) \<and> (\<exists>a. \<not> brk_ok a))"
proof -
  let ?l = "bucket_limit s"
  note rel' = brelD [OF rel]
  have l: "0 < ?l" "?l \<le> 27" using b rel'(2) by auto
  have root: "node_for_ptr (base_ptr s) ?l s = idx ?l []"
    using node_for_ptr_addr [of ?l "[]" s] l by (simp add: off_def)
  have parent: "parent_index (idx ?l []) = idx (?l - 1) []" using l by (rule parent_index_root)
  have split: "parent_is_split (idx ?l []) s \<longleftrightarrow> t \<noteq> FreeN"
    unfolding parent_is_split_nbit parent by (rule bits_ok_root [OF rel'(4) l(1)])
  have right: "ptr_for_node (idx ?l [] + 1) ?l s = addr s (?l - 1) [True]"
    using ptr_for_node_idx [of "?l - 1" "[True]" s] l idx_snoc [of "?l - 1" "[]" True]
      idx_snoc [of "?l - 1" "[]" False] idx_grow [of ?l "[]"] by simp
  show ?thesis
  proof (cases "t = FreeN")
    case True
    let ?s = "list_push (Bucket (?l - 1)) (Blk (base_ptr s)) (list_init (Bucket (?l - 1))
      ((list_remove (Blk (base_ptr s)) s)\<lparr>bucket_limit := ?l - 1\<rparr>))"
    have "lower_bucket_limit brk_ok bucket s = lower_bucket_limit brk_ok bucket ?s"
      using b split root True by (subst lower_bucket_limit.simps) (simp add: Let_def)
    moreover have "brel ?s (grow t)" using brel_grow_free [of s] rel True l by (simp add: grow_def)
    ultimately show ?thesis by (intro disjI1 exI [of _ ?s]) simp
  next
    case False
    note unf = lower_bucket_limit.simps [of brk_ok bucket s]
    show ?thesis
    proof (cases rule: update_max_ptr_cases [of brk_ok "addr s (?l - 1) [True] + sizeof_list_t" s])
      case 1
      then have "\<exists>a. \<not> brk_ok a" by (auto simp: update_max_ptr_def split: if_splits)
      moreover have "lower_bucket_limit brk_ok bucket s = (False, s)"
        using b split root right False 1 unf by (simp add: Let_def)
      ultimately show ?thesis by simp
    next
      case (2 m)
      let ?sm = "s\<lparr>max_ptr := m\<rparr>" and ?i = "idx (?l - 1) []"
      let ?sn = "list_init (Bucket (?l - 1))
        ((list_push (Bucket ?l) (Blk (addr s (?l - 1) [True])) ?sm)\<lparr>bucket_limit := ?l - 1\<rparr>)"
      let ?s = "if ?i \<noteq> 0 then flip_parent_is_split ?i ?sn else ?sn"
      have "brel ?sm t" using rel 2(3) by (rule brel_max_ptr)
      then have "brel ?s (SplitN t FreeN)"
        using brel_grow_used [of ?sm t ?l] False l 2(2) by (simp split: if_splits)
      moreover have "lower_bucket_limit brk_ok bucket s = lower_bucket_limit brk_ok bucket ?s"
        using b split root right parent False 2(1) unf by (simp add: Let_def)
      ultimately show ?thesis using False by (intro disjI1 exI [of _ ?s]) (simp add: grow_def)
    qed
  qed
qed

lemma lower_bucket_limit_run:
  assumes rel: "brel s t"
  shows "\<exists>k ok s'. lower_bucket_limit brk_ok bucket s = (ok, s') \<and> brel s' ((grow ^^ k) t) \<and>
    k \<le> bucket_limit s \<and> bucket_limit s' = bucket_limit s - k \<and> base_ptr s' = base_ptr s \<and>
    allocs s' ((grow ^^ k) t) = allocs s t \<and>
    (if ok then bucket_limit s' = min bucket (bucket_limit s) else \<exists>a. \<not> brk_ok a)"
  using rel
proof (induction "bucket_limit s" arbitrary: s t rule: less_induct)
  case less
  show ?case
  proof (cases "bucket < bucket_limit s")
    case False
    then have "lower_bucket_limit brk_ok bucket s = (True, s)" by (subst lower_bucket_limit.simps) simp
    with less.prems False show ?thesis by (intro exI [of _ 0] exI [of _ True] exI [of _ s]) auto
  next
    case True
    from lower_bucket_limit_turn [OF less.prems True, of brk_ok] show ?thesis
    proof
      assume "lower_bucket_limit brk_ok bucket s = (False, s) \<and> (\<exists>a. \<not> brk_ok a)"
      with less.prems show ?thesis by (intro exI [of _ 0] exI [of _ False] exI [of _ s]) auto
    next
      assume "\<exists>s'. lower_bucket_limit brk_ok bucket s = lower_bucket_limit brk_ok bucket s' \<and>
        brel s' (grow t) \<and> bucket_limit s' = bucket_limit s - 1 \<and> base_ptr s' = base_ptr s"
      then obtain s1 where s1: "lower_bucket_limit brk_ok bucket s = lower_bucket_limit brk_ok bucket s1"
        "brel s1 (grow t)" "bucket_limit s1 = bucket_limit s - 1" "base_ptr s1 = base_ptr s" by blast
      have "bucket_limit s1 < bucket_limit s" using s1(3) True by simp
      from less.hyps [OF this s1(2)] obtain k ok s' where s':
        "lower_bucket_limit brk_ok bucket s1 = (ok, s')" "brel s' ((grow ^^ k) (grow t))"
        "k \<le> bucket_limit s1" "bucket_limit s' = bucket_limit s1 - k" "base_ptr s' = base_ptr s1"
        "allocs s' ((grow ^^ k) (grow t)) = allocs s1 (grow t)"
        "if ok then bucket_limit s' = min bucket (bucket_limit s1) else \<exists>a. \<not> brk_ok a" by blast
      have "allocs s1 (grow t) = allocs s t" using True s1 by (intro allocs_grow) auto
      with s' s1 True show ?thesis
        by (intro exI [of _ "Suc k"] exI [of _ ok] exI [of _ s']) (auto simp: funpow_swap1)
    qed
  qed
qed

section \<open>Allocating\<close>

lemma split_down_run:
  assumes "brel s t" "hole t p" "lim = bucket_limit s" "ob \<le> 27"
    and "lim + length p < ob \<Longrightarrow> addr s lim p + (blksize (lim + length p) div 2 + sizeof_list_t) \<le> max_ptr s"
  shows "\<exists>t'. let s' = split_down ob (idx lim p) (lim + length p) s in
    brel s' t' \<and> hole t' (p @ replicate (ob - (lim + length p)) False) \<and> same_used t t' \<and>
    base_ptr s' = base_ptr s \<and> bucket_limit s' = lim \<and> max_ptr s' = max_ptr s"
  using assms
proof (induction "ob - (lim + length p)" arbitrary: p s t)
  case 0
  then have "split_down ob (idx lim p) (lim + length p) s = s" by (subst split_down.simps) simp
  with 0 show ?case by (intro exI [of _ t]) simp
next
  case (Suc n)
  let ?b = "lim + length p"
  have b: "?b < ob" "?b < 27" using Suc.hyps(2) Suc.prems(4) by auto
  have hole: "sub t p = Some HoleN" using Suc.prems(2) by (simp add: hole_def)
  have half: "blksize ?b div 2 = blksize (?b + 1)" using blksize_split [of ?b] b by simp
  have offs: "off lim (p @ [True]) = off lim p + blksize (?b + 1)" "off lim (p @ [False]) = off lim p"
    using off_append [of lim p "[True]"] off_append [of lim p "[False]"] b by simp_all
  define s1 where "s1 = list_push (Bucket (?b + 1)) (Blk (addr s lim (p @ [True])))
    (flip_parent_is_split (idx lim (p @ [False])) s)"
  define t1 where "t1 = put t p (SplitN HoleN FreeN)"
  have ix: "idx lim p * 2 + 1 = idx lim (p @ [False])" "idx lim (p @ [False]) + 1 = idx lim (p @ [True])"
    by (simp_all add: idx_snoc)
  have ptr: "ptr_for_node (idx lim (p @ [True])) (?b + 1) s' = addr s' lim (p @ [True])" for s'
    using ptr_for_node_idx [of lim "p @ [True]" s'] b by simp
  have step: "split_down ob (idx lim p) ?b s = split_down ob (idx lim (p @ [False])) (lim + length (p @ [False])) s1"
    using b(1) ptr [of "flip_parent_is_split (idx lim (p @ [False])) s"]
    by (subst split_down.simps) (simp add: Let_def ix [simplified] s1_def)
  have "brel s1 t1"
    unfolding s1_def t1_def
    using brel_split [OF Suc.prems(1) hole Suc.prems(3) b(2)] Suc.prems(5) b(1) half offs by simp
  moreover have "hole t1 (p @ [False])" unfolding t1_def using Suc.prems(2) by (rule hole_split)
  moreover have "lim = bucket_limit s1" "base_ptr s1 = base_ptr s" "max_ptr s1 = max_ptr s"
    using Suc.prems(3) by (simp_all add: s1_def)
  moreover have "addr s1 lim (p @ [False]) + (blksize (lim + length (p @ [False])) div 2 + sizeof_list_t) \<le> max_ptr s1"
    using Suc.prems(5) b(1) half offs(2) by (simp add: s1_def)
  moreover have "n = ob - (lim + length (p @ [False]))" using Suc.hyps(2) by simp
  ultimately obtain t' where t': "brel (split_down ob (idx lim p) ?b s) t'"
    "hole t' ((p @ [False]) @ replicate n False)" "same_used t1 t'"
    "base_ptr (split_down ob (idx lim p) ?b s) = base_ptr s"
    "bucket_limit (split_down ob (idx lim p) ?b s) = lim"
    "max_ptr (split_down ob (idx lim p) ?b s) = max_ptr s"
    using Suc.hyps(1) [of "p @ [False]" s1 t1] Suc.prems(4) unfolding step Let_def by force
  have "same_used t t'"
    using same_used_split [OF hole] t'(3) unfolding t1_def by (rule same_used_trans)
  with t' Suc.hyps(2) [symmetric] show ?case by (intro exI [of _ t']) (simp add: Let_def)
qed

lemma off_left [simp]: "lim + length p + n \<le> 31 \<Longrightarrow> off lim (p @ replicate n False) = off lim p"
proof -
  have "pos (replicate n False) = 0" by (induction n) auto
  then show "lim + length p + n \<le> 31 \<Longrightarrow> off lim (p @ replicate n False) = off lim p"
    using off_append [of lim p "replicate n False"] by simp
qed

text \<open>What an allocation attempt may do, as the client sees it.\<close>

definition bm_post :: "(nat \<Rightarrow> bool) \<Rightarrow> nat \<Rightarrow> nat \<Rightarrow> balloc \<Rightarrow> btree \<Rightarrow> (nat \<times> balloc) option \<Rightarrow> bool" where
  "bm_post brk_ok r ob s t res \<longleftrightarrow> (\<exists>v s' t'. res = Some (v, s') \<and> brel s' t' \<and> noholes t' \<and>
     base_ptr s' = base_ptr s \<and>
     (if v = 0
      then allocs s' t' = allocs s t \<and>
        ((\<exists>a. \<not> brk_ok a) \<or> bucket_limit s' = 0 \<and> (\<forall>p. sub t' p = Some FreeN \<longrightarrow> ob < length p))
      else v \<notin> fst ` allocs s t \<and> allocs s' t' = insert (v, r) (allocs s t)))"

lemma bmalloc_take_run:
  assumes rel: "brel s t" and nh: "noholes t" and p: "sub t p = Some FreeN"
    and lim: "lim = bucket_limit s" and b: "lim + length p \<le> ob" "ob \<le> 27"
    and r: "size_add r HEADER_SIZE \<le> MAX_ALLOC" "bucket_for_request (size_add r HEADER_SIZE) = Some ob"
  shows "bm_post brk_ok r ob s t (bmalloc_take brk_ok r ob (lim + length p) (Blk (addr s lim p))
    (list_remove (Blk (addr s lim p)) s))"
proof -
  let ?b = "lim + length p" and ?a = "addr s lim p"
  let ?r = "list_remove (Blk ?a) s"
  define need where "need = (if ?b < ob then blksize ?b div 2 + sizeof_list_t else blksize ?b)"
  have take: "bmalloc_take brk_ok r ob ?b (Blk ?a) ?r = (case update_max_ptr brk_ok (?a + need) ?r of (ok, s0) \<Rightarrow>
      if \<not> ok then Some (0, list_push (Bucket ?b) (Blk ?a) s0)
      else let i = node_for_ptr ?a ?b s0; s1 = if i \<noteq> 0 then flip_parent_is_split i s0 else s0;
               s2 = split_down ob i ?b s1
           in Some (?a + HEADER_SIZE, s2\<lparr>bmem := (bmem s2)(Blk ?a := HeaderCell r)\<rparr>))"
    by (simp add: bmalloc_take_def need_def blksize_def Let_def split: prod.splits)
  have len: "?b \<le> 27" using b by simp
  have node: "node_for_ptr ?a ?b s' = idx lim p" if "base_ptr s' = base_ptr s" for s'
    using node_for_ptr_addr [OF len, of s'] that by simp
  show ?thesis
  proof (cases rule: update_max_ptr_cases [of brk_ok "?a + need" ?r])
    case 1
    then have "\<exists>a. \<not> brk_ok a" by (auto simp: update_max_ptr_def split: if_splits)
    moreover have "bmalloc_take brk_ok r ob ?b (Blk ?a) ?r = Some (0, list_push (Bucket ?b) (Blk ?a) ?r)"
      using 1 by (simp add: take)
    moreover have "brel (list_push (Bucket ?b) (Blk ?a) ?r) t" using rel p lim by (rule brel_put_back)
    moreover have "allocs (list_push (Bucket ?b) (Blk ?a) ?r) t = allocs s t" by (intro allocs_cong) auto
    ultimately show ?thesis
      using nh unfolding bm_post_def
      by (intro exI [of _ 0] exI [of _ "list_push (Bucket ?b) (Blk ?a) ?r"] exI [of _ t]) simp
  next
    case (2 m)
    define s1 where "s1 = (if idx lim p \<noteq> 0 then flip_parent_is_split (idx lim p) (?r\<lparr>max_ptr := m\<rparr>) else ?r\<lparr>max_ptr := m\<rparr>)"
    define s2 where "s2 = split_down ob (idx lim p) ?b s1"
    define q where "q = p @ replicate (ob - ?b) False"
    have s1: "base_ptr s1 = base_ptr s" "bucket_limit s1 = lim" "max_ptr s1 = m"
      by (simp_all add: s1_def lim)
    have rel1: "brel s1 (put t p HoleN)" unfolding s1_def using rel p lim 2(3) by (intro brel_take) auto
    have hole1: "hole (put t p HoleN) p" using nh p by (rule hole_put) simp
    obtain t2 where t2: "brel s2 t2" "hole t2 q" "same_used (put t p HoleN) t2"
      "base_ptr s2 = base_ptr s" "bucket_limit s2 = lim" "max_ptr s2 = m"
    proof -
      have "addr s1 lim p + (blksize ?b div 2 + sizeof_list_t) \<le> max_ptr s1" if "?b < ob"
        using 2(2) s1 that by (simp add: need_def)
      from split_down_run [OF rel1 hole1 s1(2) [symmetric] b(2) this] show ?thesis
        using that s1 unfolding s2_def q_def by (auto simp: Let_def)
    qed
    have q: "sub t2 q = Some HoleN" using t2(2) by (simp add: hole_def)
    have offq: "off lim q = off lim p" "lim + length q = ob" using b unfolding q_def by simp_all
    have fits: "addr s2 lim q + blksize (lim + length q) \<le> max_ptr s2"
    proof (cases "?b < ob")
      case True
      then have "blksize (?b + 1) = 2 ^ (ob - (?b + 1)) * blksize ob"
        using blksize_below [of "?b + 1" "ob - (?b + 1)"] b by simp
      then have "blksize ob \<le> blksize (?b + 1)" by simp
      then show ?thesis using True 2(2) blksize_split [of ?b] len t2 offq by (simp add: need_def)
    qed (use 2(2) t2 offq b in \<open>simp add: need_def\<close>)
    let ?s = "s2\<lparr>bmem := (bmem s2)(Blk ?a := HeaderCell r)\<rparr>" and ?t = "put t2 q (UsedN r)"
    have res: "bmalloc_take brk_ok r ob ?b (Blk ?a) ?r = Some (?a + HEADER_SIZE, ?s)"
      using 2(1) node [of "?r\<lparr>max_ptr := m\<rparr>"] by (simp add: take Let_def s2_def s1_def)
    have "brel ?s ?t" using brel_use [OF t2(1) q] t2 r offq fits by simp
    moreover have "noholes ?t" using t2(2) by (rule hole_fill) auto
    moreover have "allocs ?s ?t = insert (?a + HEADER_SIZE, r) (allocs s2 t2)"
      using allocs_use [OF q, of ?s s2 r] t2 offq by simp
    moreover have "allocs s2 t2 = allocs s t"
      using same_used_trans [OF same_used_put [OF p] t2(3)] t2 lim by (intro allocs_cong) auto
    moreover have "(?a + HEADER_SIZE, r') \<notin> allocs s t" for r'
      using allocs_fresh [OF rel p] lim by simp
    ultimately show ?thesis
      using t2(4) res unfolding bm_post_def
      by (intro exI [of _ "?a + HEADER_SIZE"] exI [of _ ?s] exI [of _ ?t]) (auto simp: HEADER_SIZE_def)
  qed
qed

lemma bm_post_mono:
  assumes "bm_post brk_ok r ob s t res" "base_ptr s = base_ptr s0" "allocs s t = allocs s0 t0"
  shows "bm_post brk_ok r ob s0 t0 res"
  using assms unfolding bm_post_def by metis

lemma bm_post_fail:
  assumes "brel s' t'" "noholes t'" "base_ptr s' = base_ptr s" "allocs s' t' = allocs s t"
    and "(\<exists>a. \<not> brk_ok a) \<or> bucket_limit s' = 0 \<and> (\<forall>p. sub t' p = Some FreeN \<longrightarrow> ob < length p)"
  shows "bm_post brk_ok r ob s t (Some (0, s'))"
  unfolding bm_post_def using assms by (intro exI [of _ 0] exI [of _ s'] exI [of _ t']) simp

lemma list_pop_brel:
  assumes rel: "brel s t" and b: "bucket_limit s \<le> b" "b \<le> 27"
  obtains (none) "list_pop (Bucket b) s = (None, s)" "\<And>p. sub t p = Some FreeN \<Longrightarrow> bucket_limit s + length p \<noteq> b"
  | (some) p where "sub t p = Some FreeN" "bucket_limit s + length p = b"
      "list_pop (Bucket b) s = (Some (Blk (addr s (bucket_limit s) p)), list_remove (Blk (addr s (bucket_limit s) p)) s)"
proof (cases rule: lists_pop [OF brelD(5) [OF rel] b])
  case 1
  then show ?thesis using none by (auto simp: free_blocks_def)
next
  case (2 a)
  then show ?thesis using some by (auto simp: free_blocks_def)
qed

text \<open>An empty root bucket: growing by one level makes the next pop succeed.\<close>

lemma bmalloc_grow_root:
  assumes rel: "brel s t" and nh: "noholes t" and t: "t \<noteq> FreeN" and lim: "0 < bucket_limit s" "bucket_limit s \<le> ob" "ob \<le> 27"
    and r: "size_add r HEADER_SIZE \<le> MAX_ALLOC" "bucket_for_request (size_add r HEADER_SIZE) = Some ob"
  shows "bm_post brk_ok r ob s t (let r' = lower_bucket_limit brk_ok (bucket_limit s - 1) s
    in if \<not> fst r' then Some (0, snd r')
       else let q' = list_pop (Bucket (bucket_limit s)) (snd r')
            in case fst q' of Some p \<Rightarrow> bmalloc_take brk_ok r ob (bucket_limit s) p (snd q') | None \<Rightarrow> None)"
proof -
  let ?l = "bucket_limit s"
  obtain k ok s' where run: "lower_bucket_limit brk_ok (?l - 1) s = (ok, s')" "brel s' ((grow ^^ k) t)"
    "k \<le> ?l" "bucket_limit s' = ?l - k" "base_ptr s' = base_ptr s" "allocs s' ((grow ^^ k) t) = allocs s t"
    "if ok then bucket_limit s' = min (?l - 1) ?l else \<exists>a. \<not> brk_ok a"
    using lower_bucket_limit_run [OF rel, of brk_ok "?l - 1"] by blast
  have nh': "noholes ((grow ^^ k) t)" using nh by (rule noholes_grows)
  show ?thesis
  proof (cases ok)
    case False
    then have "bm_post brk_ok r ob s t (Some (0, s'))" using run nh' by (intro bm_post_fail) auto
    with run(1) False show ?thesis by simp
  next
    case True
    then have k: "k = 1" using run(3,4,7) lim by auto
    then have rel': "brel s' (SplitN t FreeN)" using run(2) t by (simp add: grow_def)
    have l: "bucket_limit s' \<le> ?l" "?l \<le> 27" using run(4) lim by auto
    show ?thesis
    proof (cases rule: list_pop_brel [OF rel' l])
      case 1
      from 1(2) [of "[True]"] show ?thesis using run(4) k lim by simp
    next
      case (2 p)
      have "bm_post brk_ok r ob s' (SplitN t FreeN) (bmalloc_take brk_ok r ob (bucket_limit s' + length p)
          (Blk (addr s' (bucket_limit s') p)) (list_remove (Blk (addr s' (bucket_limit s') p)) s'))"
        using rel' nh' k t 2 lim r by (intro bmalloc_take_run) (auto simp: grow_def)
      then have "bm_post brk_ok r ob s t (bmalloc_take brk_ok r ob (bucket_limit s' + length p)
          (Blk (addr s' (bucket_limit s') p)) (list_remove (Blk (addr s' (bucket_limit s') p)) s'))"
        by (rule bm_post_mono) (use run(5,6) k t in \<open>simp_all add: grow_def\<close>)
      with 2 run(1) True show ?thesis by (simp add: Let_def)
    qed
  qed
qed

lemma bmalloc_loop_lowered:
  assumes run: "lower_bucket_limit brk_ok bucket s0 = (True, s)"
    and rel: "brel s t" and nh: "noholes t" and b: "bucket \<le> ob" "ob \<le> 27" "bucket_limit s \<le> bucket"
    and none: "\<And>p. sub t p = Some FreeN \<Longrightarrow> bucket_limit s + length p \<le> ob \<Longrightarrow> bucket_limit s + length p \<le> bucket"
    and r: "size_add r HEADER_SIZE \<le> MAX_ALLOC" "bucket_for_request (size_add r HEADER_SIZE) = Some ob"
    and IH: "bucket_limit s < bucket \<Longrightarrow>
      (\<And>p. sub t p = Some FreeN \<Longrightarrow> bucket_limit s + length p \<le> ob \<Longrightarrow> bucket_limit s + length p \<le> bucket - 1) \<Longrightarrow>
      bm_post brk_ok r ob s t (bmalloc_loop brk_ok r ob (bucket - 1) s)"
  shows "bm_post brk_ok r ob s t (bmalloc_loop brk_ok r ob bucket s0)"
proof -
  have b27: "bucket \<le> 27" using b by simp
  note unf = bmalloc_loop.simps [of brk_ok r ob bucket s0]
  show ?thesis
  proof (cases rule: list_pop_brel [OF rel b(3) b27])
    case 1
    have less: "bucket_limit s + length p \<le> bucket - 1"
      if "sub t p = Some FreeN" "bucket_limit s + length p \<le> ob" for p
      using none [OF that] 1(2) [OF that(1)] by simp
    consider "bucket_limit s < bucket" | "bucket = 0" | "bucket = bucket_limit s" "0 < bucket"
      using b(3) by linarith
    then show ?thesis
    proof cases
      case c1: 1
      have "bmalloc_loop brk_ok r ob bucket s0 = bmalloc_loop brk_ok r ob (bucket - 1) s"
        using c1 run 1(1) by (simp add: unf Let_def)
      with IH [OF c1 less] show ?thesis by simp
    next
      case c2: 2
      have "bmalloc_loop brk_ok r ob bucket s0 = Some (0, s)"
        unfolding unf using c2 run 1(1) by (simp add: Let_def)
      moreover have "ob < length p" if "sub t p = Some FreeN" for p
        using less [OF that] 1(2) [OF that] c2 b(3) by (cases "length p \<le> ob") auto
      ultimately show ?thesis using bm_post_fail [OF rel nh refl refl] c2 b(3) by simp
    next
      case c3: 3
      have "t \<noteq> FreeN" using 1(2) [of "[]"] c3 by auto
      from bmalloc_grow_root [OF rel nh this _ _ b(2) r, of brk_ok] show ?thesis
        unfolding unf using c3 b run 1(1) by (simp add: Let_def split: if_splits cong: option.case_cong)
    qed
  next
    case (2 p)
    have "bm_post brk_ok r ob s t (bmalloc_take brk_ok r ob (bucket_limit s + length p)
        (Blk (addr s (bucket_limit s) p)) (list_remove (Blk (addr s (bucket_limit s) p)) s))"
      using rel nh 2 b r by (intro bmalloc_take_run) auto
    with 2 run show ?thesis by (simp add: unf Let_def)
  qed
qed

lemma bmalloc_loop_run:
  assumes "brel s t" "noholes t" "bucket \<le> ob" "ob \<le> 27" "bucket = ob \<or> bucket_limit s \<le> bucket"
    and "\<And>p. sub t p = Some FreeN \<Longrightarrow> bucket_limit s + length p \<le> ob \<Longrightarrow> bucket_limit s + length p \<le> bucket"
    and r: "size_add r HEADER_SIZE \<le> MAX_ALLOC" "bucket_for_request (size_add r HEADER_SIZE) = Some ob"
  shows "bm_post brk_ok r ob s t (bmalloc_loop brk_ok r ob bucket s)"
  using assms(1-6)
proof (induction bucket arbitrary: s t rule: less_induct)
  case (less bucket)
  obtain k ok s' where run: "lower_bucket_limit brk_ok bucket s = (ok, s')" "brel s' ((grow ^^ k) t)"
    "k \<le> bucket_limit s" "bucket_limit s' = bucket_limit s - k" "base_ptr s' = base_ptr s"
    "allocs s' ((grow ^^ k) t) = allocs s t"
    "if ok then bucket_limit s' = min bucket (bucket_limit s) else \<exists>a. \<not> brk_ok a"
    using lower_bucket_limit_run [OF less.prems(1), of brk_ok bucket] by blast
  have nh: "noholes ((grow ^^ k) t)" using less.prems(2) by (rule noholes_grows)
  show ?case
  proof (cases ok)
    case False
    then have "bm_post brk_ok r ob s t (Some (0, s'))" using run nh by (intro bm_post_fail) auto
    with run(1) False show ?thesis by (subst bmalloc_loop.simps) simp
  next
    case True
    then have l: "bucket_limit s' \<le> bucket" using run(7) by simp
    have free: "bucket_limit s' + length p \<le> bucket"
      if p: "sub ((grow ^^ k) t) p = Some FreeN" "bucket_limit s' + length p \<le> ob" for p
    proof (cases "bucket = ob")
      case False
      then have "bucket_limit s' = bucket_limit s" "k = 0" using less.prems(5) run(3,4,7) True by auto
      with p less.prems(6) show ?thesis by simp
    qed (use p in simp)
    have "bm_post brk_ok r ob s' ((grow ^^ k) t) (bmalloc_loop brk_ok r ob bucket s)"
    proof (rule bmalloc_loop_lowered [OF _ run(2) nh less.prems(3,4) l free r])
      show "lower_bucket_limit brk_ok bucket s = (True, s')" using run(1) True by simp
      assume "bucket_limit s' < bucket"
        and "\<And>p. sub ((grow ^^ k) t) p = Some FreeN \<Longrightarrow> bucket_limit s' + length p \<le> ob \<Longrightarrow>
          bucket_limit s' + length p \<le> bucket - 1"
      then show "bm_post brk_ok r ob s' ((grow ^^ k) t) (bmalloc_loop brk_ok r ob (bucket - 1) s')"
        using less.prems(3,4) by (intro less.IH [OF _ run(2) nh]) auto
    qed
    then show ?thesis using run(5,6) by (rule bm_post_mono)
  qed
qed

section \<open>The first call\<close>

definition fresh :: "balloc \<Rightarrow> bool" where
  "fresh s \<longleftrightarrow> base_ptr s = 0 \<and> (\<forall>j. \<not> nbit s j)"

lemma bmalloc_init_brel:
  assumes f: "\<forall>j. \<not> nbit s j" and k: "brk_ok (sbrk0 + sizeof_list_t)" "sbrk0 \<noteq> 0"
  shows "brel (bmalloc_init brk_ok sbrk0 s) FreeN"
proof -
  let ?s1 = "s\<lparr>base_ptr := sbrk0, bucket_limit := 27, max_ptr := sbrk0 + sizeof_list_t\<rparr>"
  let ?s2 = "list_init (Bucket 27) ?s1"
  let ?s = "list_push (Bucket 27) (Blk sbrk0) ?s2"
  have e: "bmalloc_init brk_ok sbrk0 s = ?s"
    using k by (simp add: bmalloc_init_def Let_def update_max_ptr_def buddy_consts)
  have "lists_ok ?s2 (\<lambda>_. {}) 27"
    unfolding lists_ok_def
  proof (intro allI impI exI [of _ "[]"] conjI)
    fix b :: nat assume "27 \<le> b \<and> b \<le> 27"
    then have "b = 27" by simp
    then show "ring (list_next ?s2) (list_prev ?s2) (Bucket b) (map Blk [])"
      using bl.init_ring [of "Bucket 27" ?s1] by simp
  qed simp
  from lists_push [OF this, of 27 sbrk0]
  have l: "lists_ok ?s ((\<lambda>_. {})(27 := {sbrk0})) 27" by simp
  have leaf: "sub FreeN p = Some u \<longleftrightarrow> p = [] \<and> u = FreeN" for p u by (cases p) auto
  have "brel ?s FreeN"
  proof (rule brelI [where lim = 27])
    show "bits_ok ?s FreeN 27" using f by (simp add: bits_ok_def nbit_def)
    show "lists_ok ?s (free_blocks ?s 27 FreeN) 27"
      using l unfolding lists_FreeN fun_upd_def by (simp cong: if_cong)
    show "hdrs_ok ?s FreeN 27" by (simp add: hdrs_ok_def leaf)
    show "resv_ok ?s FreeN 27" by (simp add: resv_ok_def leaf off_def)
  qed (use k in auto)
  then show ?thesis by (simp add: e)
qed

section \<open>Freeing\<close>

lemma split_at_hole:
  assumes "sub t (q @ [d]) = Some HoleN"
  shows "split_at t q \<longleftrightarrow> sub t (q @ [\<not> d]) = Some FreeN"
proof -
  obtain v where "sub t q = Some v" using assms by (auto simp: sub_append split: option.splits)
  with assms show ?thesis by (cases v; cases d) (auto simp: split_at_def sub_append)
qed

lemma bfree_loop_run:
  assumes "brel s t" "hole t p" "lim = bucket_limit s"
    and "bfree_loop (idx lim p) (lim + length p) s = (i, b, s')"
  shows "\<exists>t'. brel (list_push (Bucket b) (Blk (ptr_for_node i b s')) s') t' \<and> noholes t' \<and> same_used t t' \<and>
    base_ptr s' = base_ptr s \<and> bucket_limit s' = lim"
  using assms
proof (induction p arbitrary: s t rule: rev_induct)
  case Nil
  let ?s1 = "if idx lim [] \<noteq> 0 then flip_parent_is_split (idx lim []) s else s"
  have h: "sub t [] = Some HoleN" using Nil(2) by (simp add: hole_def)
  have len: "lim + length [] \<le> 27" using brelD(2) [OF Nil(1)] Nil(3) by simp
  have "bfree_loop (idx lim []) (lim + length []) s = (idx lim [], lim, ?s1)"
    unfolding bfree_loop.simps [of "idx lim []" "lim + length []" s] using Nil(3) by (simp add: Let_def)
  then have res: "i = idx lim []" "b = lim" "s' = ?s1" using Nil(4) by auto
  have "brel (list_push (Bucket b) (Blk (ptr_for_node i b s')) s') (put t [] FreeN)"
    using brel_give [OF Nil(1) h Nil(3)] ptr_for_node_idx [OF len, of ?s1] unfolding res by (simp split: if_splits)
  moreover have "noholes (put t [] FreeN)" using Nil(2) by (rule hole_fill) auto
  moreover have "same_used t (put t [] FreeN)" using h by (intro same_used_put) auto
  ultimately show ?case using Nil(3) res by (intro exI [of _ "put t [] FreeN"]) simp
next
  case (snoc d q)
  let ?p = "q @ [d]" and ?sib = "q @ [\<not> d]"
  let ?s1 = "flip_parent_is_split (idx lim ?p) s"
  have h: "sub t ?p = Some HoleN" using snoc.prems(2) by (simp add: hole_def)
  have len: "lim + length ?p \<le> 27" using brel_path [OF snoc.prems(1) h] snoc.prems(3) by simp
  have i0: "idx lim ?p \<noteq> 0" using idx_pos_iff [of lim ?p] by simp
  have par: "parent_is_split (idx lim ?p) ?s1 \<longleftrightarrow> sub t ?sib \<noteq> Some FreeN"
    using bits_ok_path [OF brelD(4) [OF snoc.prems(1)], of q] split_at_hole [OF h]
      parent_index_snoc [of lim q d] len snoc.prems(3)
    by (simp add: parent_is_split_nbit nbit_flip)
  note unf = bfree_loop.simps [of "idx lim ?p" "lim + length ?p" s]
  show ?case
  proof (cases "sub t ?sib = Some FreeN")
    case False
    have res: "i = idx lim ?p" "b = lim + length ?p" "s' = ?s1"
      using snoc.prems(4) i0 par False unfolding unf by (auto simp: Let_def)
    have "brel (list_push (Bucket b) (Blk (ptr_for_node i b s')) s') (put t ?p FreeN)"
      using brel_give [OF snoc.prems(1) h snoc.prems(3)] False i0 ptr_for_node_idx [OF len, of ?s1]
      unfolding res by simp
    moreover have "noholes (put t ?p FreeN)" using snoc.prems(2) by (rule hole_fill) auto
    moreover have "same_used t (put t ?p FreeN)" using h by (intro same_used_put) auto
    ultimately show ?thesis using snoc.prems(3) res by (intro exI [of _ "put t ?p FreeN"]) simp
  next
    case True
    define s2 where "s2 = list_remove (Blk (addr s lim ?sib)) ?s1"
    have "((idx lim ?p - 1) XOR 1) + 1 = idx lim ?sib"
      unfolding sibling_idx using idx_pos_iff [of lim ?sib] by simp
    moreover have "(idx lim ?p - 1) div 2 = idx lim q" by (cases d) (simp_all add: idx_snoc)
    moreover have "size_sub (lim + length ?p) 1 = lim + length q"
      using len by (simp add: size_sub_def SIZE_MOD_def)
    moreover have "ptr_for_node (idx lim ?sib) (lim + length ?p) ?s1 = addr s lim ?sib"
      using ptr_for_node_idx [of lim ?sib ?s1] len by simp
    moreover have "lim + length ?p \<noteq> bucket_limit ?s1" using snoc.prems(3) by simp
    ultimately have loop: "bfree_loop (idx lim q) (lim + length q) s2 = (i, b, s')"
      using snoc.prems(4) i0 par True unfolding unf by (simp add: Let_def s2_def)
    obtain u w where uw: "sub t q = Some (SplitN u w)" "{u, w} = {HoleN, FreeN}"
    proof -
      obtain v where v: "sub t q = Some v" using h by (auto simp: sub_append split: option.splits)
      with h True show ?thesis using that by (cases v; cases d) (auto simp: sub_append)
    qed
    have rel2: "brel s2 (put t q HoleN)"
      unfolding s2_def using snoc.prems(1) h snoc.prems(3) True by (rule brel_merge)
    have hole2: "hole (put t q HoleN) q" using snoc.prems(2) uw by (rule hole_join)
    have s2: "lim = bucket_limit s2" "base_ptr s2 = base_ptr s" using snoc.prems(3) by (simp_all add: s2_def)
    from snoc.IH [OF rel2 hole2 s2(1) loop] show ?thesis
      using same_used_join [OF uw] s2(2) by (metis same_used_trans)
  qed
qed

end
