(* ===== verification/Allocator.thy ===== *)
theory Allocator
  imports Prelude
begin

text \<open>
  What a client may rely on when it uses a memory allocator of the repository.
  \<open>inv s A\<close> says that in allocator state \<open>s\<close> exactly the blocks \<open>A\<close> are live,
  each a pointer with the size that was requested.  The laws say that allocating
  returns NULL (0) or a new block, that freeing a live block retires exactly that
  block, and that live blocks never overlap.  From them follows the correctness
  of every client that frees only what it holds.
\<close>

section \<open>Client programs\<close>

text \<open>A client allocates, or frees the \<open>k\<close>-th block it holds.\<close>

datatype client_op = Alloc nat | Free nat

fun client_run ::
    "(nat \<Rightarrow> 's \<Rightarrow> (nat \<times> 's) option) \<Rightarrow> (nat \<Rightarrow> 's \<Rightarrow> 's option) \<Rightarrow> client_op list \<Rightarrow>
     's \<Rightarrow> (nat \<times> nat) list \<Rightarrow> ('s \<times> (nat \<times> nat) list) option" where
  "client_run al fr [] s held = Some (s, held)"
| "client_run al fr (Alloc r # ops) s held =
     (case al r s of
        None \<Rightarrow> None
      | Some (v, s') \<Rightarrow> client_run al fr ops s' (if v = 0 then held else held @ [(v, r)]))"
| "client_run al fr (Free k # ops) s held =
     (if k < length held
      then case fr (fst (held ! k)) s of
             None \<Rightarrow> None
           | Some s' \<Rightarrow> client_run al fr ops s' (take k held @ drop (Suc k) held)
      else client_run al fr ops s held)"

section \<open>The contract\<close>

lemma distinct_drop_nth:
  assumes "distinct xs" "k < length xs"
  shows "distinct (take k xs @ drop (Suc k) xs)" "set (take k xs @ drop (Suc k) xs) = set xs - {xs ! k}"
proof -
  have "distinct (take k xs @ xs ! k # drop (Suc k) xs)" using id_take_nth_drop [OF assms(2)] assms(1) by simp
  moreover have "set xs = insert (xs ! k) (set (take k xs @ drop (Suc k) xs))"
    using arg_cong [OF id_take_nth_drop [OF assms(2)], of set] by simp
  ultimately show "distinct (take k xs @ drop (Suc k) xs)" "set (take k xs @ drop (Suc k) xs) = set xs - {xs ! k}"
    by auto
qed

locale allocator =
  fixes inv :: "'s \<Rightarrow> (nat \<times> nat) set \<Rightarrow> bool"
    and okreq :: "nat \<Rightarrow> bool"
    and al :: "nat \<Rightarrow> 's \<Rightarrow> (nat \<times> 's) option"
    and fr :: "nat \<Rightarrow> 's \<Rightarrow> 's option"
  assumes al_total: "inv s A \<Longrightarrow> okreq r \<Longrightarrow> \<exists>v s'. al r s = Some (v, s') \<and>
      (if v = 0 then inv s' A else v \<notin> fst ` A \<and> inv s' (insert (v, r) A))"
    and fr_total: "inv s A \<Longrightarrow> (p, r) \<in> A \<Longrightarrow> \<exists>s'. fr p s = Some s' \<and> inv s' (A - {(p, r)})"
    and apart: "inv s A \<Longrightarrow> (p, r) \<in> A \<Longrightarrow> (q, r') \<in> A \<Longrightarrow> (p, r) \<noteq> (q, r') \<Longrightarrow> p + r \<le> q \<or> q + r' \<le> p"
begin

lemma client_safe:
  assumes "inv s (set held)" "distinct held" "\<And>r. Alloc r \<in> set ops \<Longrightarrow> okreq r"
  shows "\<exists>s' held'. client_run al fr ops s held = Some (s', held') \<and> inv s' (set held') \<and> distinct held'"
  using assms
proof (induction ops arbitrary: s held)
  case (Cons oper ops)
  show ?case
  proof (cases oper)
    case (Alloc r)
    obtain v s' where v: "al r s = Some (v, s')"
      "if v = 0 then inv s' (set held) else v \<notin> fst ` set held \<and> inv s' (insert (v, r) (set held))"
      using al_total [OF Cons.prems(1), of r] Cons.prems(3) Alloc by auto
    let ?held = "if v = 0 then held else held @ [(v, r)]"
    have "inv s' (set ?held)" "distinct ?held" using v(2) Cons.prems(2) by (force simp: image_iff)+
    then show ?thesis using Cons.IH [of s' ?held] Cons.prems(3) v(1) Alloc by auto
  next
    case (Free k)
    show ?thesis
    proof (cases "k < length held")
      case True
      note d = distinct_drop_nth [OF Cons.prems(2) True]
      obtain s' where "fr (fst (held ! k)) s = Some s'" "inv s' (set held - {held ! k})"
        using fr_total [OF Cons.prems(1), of "fst (held ! k)" "snd (held ! k)"] True by auto
      then show ?thesis
        using Cons.IH [of s' "take k held @ drop (Suc k) held"] Cons.prems(3) d True Free by auto
    qed (use Cons Free in auto)
  qed
qed simp

end

end
