(* ===== verification/Buddy_Spec.thy ===== *)
theory Buddy_Spec
  imports Buddy_Alloc Allocator
begin

text \<open>
  What \<open>bmalloc\<close> and \<open>bfree\<close> promise to their callers.  \<open>buddy_inv s A\<close>: in
  state \<open>s\<close> exactly the blocks \<open>A\<close> (user pointer, requested size) are live, and
  the state is one the tree describes.  The allocator meets the contract of
  theory \<open>Allocator\<close> for every request whose header does not overflow
  \<open>size_t\<close>.
\<close>

section \<open>The client's view\<close>

definition buddy_inv :: "balloc \<Rightarrow> (nat \<times> nat) set \<Rightarrow> bool" where
  "buddy_inv s A \<longleftrightarrow> (fresh s \<and> A = {}) \<or> (\<exists>t. brel s t \<and> noholes t \<and> A = allocs s t)"

definition kernel_ok :: "(nat \<Rightarrow> bool) \<Rightarrow> nat \<Rightarrow> bool" where
  "kernel_ok brk_ok sbrk0 \<longleftrightarrow> sbrk0 \<noteq> 0 \<and> brk_ok (sbrk0 + sizeof_list_t)"

lemma bmalloc_start:
  assumes inv: "buddy_inv s A" and k: "kernel_ok brk_ok sbrk0"
  obtains t where "brel (if base_ptr s = 0 then bmalloc_init brk_ok sbrk0 s else s) t" "noholes t"
    "A = allocs (if base_ptr s = 0 then bmalloc_init brk_ok sbrk0 s else s) t"
proof (cases "fresh s \<and> A = {}")
  case True
  have "sub FreeN p \<noteq> Some (UsedN r)" for p r by (cases p) auto
  then have "allocs s' FreeN = {}" for s' by (simp add: allocs_def)
  with True show ?thesis using that [of FreeN] bmalloc_init_brel [of s brk_ok sbrk0] k
    by (auto simp: fresh_def kernel_ok_def)
next
  case False
  then obtain t where "brel s t" "noholes t" "A = allocs s t" using inv by (auto simp: buddy_inv_def)
  with that [of t] brelD(1) [of s t] show ?thesis by simp
qed

lemma bmalloc_run:
  assumes inv: "buddy_inv s A" and k: "kernel_ok brk_ok sbrk0" and r: "size_add r HEADER_SIZE \<le> MAX_ALLOC"
  shows "\<exists>v s' t' ob. bmalloc brk_ok sbrk0 r s = Some (v, s') \<and> brel s' t' \<and> noholes t' \<and>
    bucket_for_request (size_add r HEADER_SIZE) = Some ob \<and> ob \<le> 27 \<and>
    (if v = 0 then allocs s' t' = A \<and>
        ((\<exists>a. \<not> brk_ok a) \<or> bucket_limit s' = 0 \<and> (\<forall>p. sub t' p = Some FreeN \<longrightarrow> ob < length p))
     else v \<notin> fst ` A \<and> allocs s' t' = insert (v, r) A)"
proof -
  let ?s = "if base_ptr s = 0 then bmalloc_init brk_ok sbrk0 s else s"
  obtain t where t: "brel ?s t" "noholes t" "A = allocs ?s t" using inv k by (rule bmalloc_start)
  obtain ob where ob: "bucket_for_request (size_add r HEADER_SIZE) = Some ob" "ob \<le> 27"
    using bucket_for_request_run [OF r] by blast
  have "bmalloc brk_ok sbrk0 r s = bmalloc_loop brk_ok r ob ob ?s"
    using r ob by (simp add: bmalloc_def Let_def)
  moreover have "bm_post brk_ok r ob ?s t (bmalloc_loop brk_ok r ob ob ?s)"
    using t ob r by (intro bmalloc_loop_run) auto
  ultimately show ?thesis using ob t(3) unfolding bm_post_def by metis
qed

lemma bmalloc_inv:
  assumes "buddy_inv s A" "kernel_ok brk_ok sbrk0"
  shows "\<exists>v s'. bmalloc brk_ok sbrk0 r s = Some (v, s') \<and>
    (if v = 0 then buddy_inv s' A else v \<notin> fst ` A \<and> buddy_inv s' (insert (v, r) A))"
proof (cases "size_add r HEADER_SIZE \<le> MAX_ALLOC")
  case True
  from bmalloc_run [OF assms True] show ?thesis unfolding buddy_inv_def by metis
next
  case False
  then show ?thesis using assms(1) by (simp add: bmalloc_def)
qed

lemma bfree_inv:
  assumes "buddy_inv s A" "(p, r) \<in> A"
  shows "\<exists>s'. bfree p s = Some s' \<and> buddy_inv s' (A - {(p, r)})"
proof -
  obtain t where t: "brel s t" "noholes t" "A = allocs s t" using assms by (auto simp: buddy_inv_def)
  let ?l = "bucket_limit s"
  obtain q b where q: "sub t q = Some (UsedN r)" "b = ?l + length q" "p = addr s ?l q + HEADER_SIZE"
    "bucket_for_request (size_add r HEADER_SIZE) = Some b" "b \<le> 27"
    using allocs_block [OF t(1)] assms(2) t(3) by metis
  have hdr: "bmem s (Blk (addr s ?l q)) = HeaderCell r"
    using brelD(6) [OF t(1)] q(1) by (simp add: hdrs_ok_def)
  have node: "node_for_ptr (addr s ?l q) b s = idx ?l q" using node_for_ptr_addr [of ?l q s] q(2,5) by simp
  obtain i c s1 where loop: "bfree_loop (idx ?l q) (?l + length q) s = (i, c, s1)"
    by (cases "bfree_loop (idx ?l q) (?l + length q) s")
  let ?s = "list_push (Bucket c) (Blk (ptr_for_node i c s1)) s1"
  have res: "bfree p s = Some ?s"
    using q hdr node loop by (simp add: bfree_def Let_def HEADER_SIZE_def)
  have "brel s (put t q HoleN)" using t(1) q(1) by (rule brel_unuse)
  moreover have "hole (put t q HoleN) q" using t(2) q(1) by (rule hole_put) simp
  ultimately obtain t' where t': "brel ?s t'" "noholes t'" "same_used (put t q HoleN) t'"
    "base_ptr s1 = base_ptr s" "bucket_limit s1 = ?l"
    using bfree_loop_run [OF _ _ refl loop] by blast
  have "allocs ?s t' = allocs s (put t q HoleN)" using t' by (intro allocs_cong) auto
  then have "allocs ?s t' = A - {(p, r)}" using allocs_unuse [OF t(1) q(1)] t(3) q(3) by simp
  with res t' show ?thesis by (auto simp: buddy_inv_def)
qed

lemma blocks_separate:
  assumes "buddy_inv s A" "(p, r) \<in> A" "r + HEADER_SIZE < SIZE_MOD"
  shows "base_ptr s + HEADER_SIZE \<le> p \<and> p + r \<le> max_ptr s \<and> (p - HEADER_SIZE - base_ptr s) mod MIN_ALLOC = 0 \<and>
    (\<forall>q r'. (q, r') \<in> A \<longrightarrow> (q, r') \<noteq> (p, r) \<longrightarrow> p + r \<le> q \<or> q < p)"
proof -
  obtain t where t: "brel s t" "noholes t" "A = allocs s t" using assms by (auto simp: buddy_inv_def)
  let ?l = "bucket_limit s"
  obtain q b where q: "sub t q = Some (UsedN r)" "b = ?l + length q" "p = addr s ?l q + HEADER_SIZE"
    "bucket_for_request (size_add r HEADER_SIZE) = Some b" "b \<le> 27" "addr s ?l q + blksize b \<le> max_ptr s"
    "size_add r HEADER_SIZE \<le> MAX_ALLOC"
    using allocs_block [OF t(1)] assms(2) t(3) by metis
  have fit: "r + HEADER_SIZE \<le> blksize b"
    using bucket_for_request_run [OF q(7)] q(4) size_add_id [OF assms(3)]
    by (auto simp: blksize_def MAX_ALLOC_LOG2_def)
  have "MAX_ALLOC_LOG2 - b = (MAX_ALLOC_LOG2 - b - 4) + 4" using q(5) by (simp add: MAX_ALLOC_LOG2_def)
  then have "blksize b = 2 ^ (MAX_ALLOC_LOG2 - b - 4) * 2 ^ 4" unfolding blksize_def by (metis power_add)
  then have al: "off ?l q mod 16 = 0" unfolding off_def q(2) [symmetric] by (simp add: mult.assoc [symmetric])
  have sep: "p + r \<le> x \<or> x < p" if x: "(x, y) \<in> A" "(x, y) \<noteq> (p, r)" for x y
  proof -
    obtain b' where b': "bucket_for_request (size_add y HEADER_SIZE) = Some b'"
      using allocs_block [OF t(1)] x(1) t(3) by metis
    from allocs_disjoint [OF t(1), of p r x y, OF _ _ _ q(4) b'] assms(2) x t(3)
    have "p + blksize b \<le> x \<or> x + blksize b' \<le> p" by auto
    with fit show ?thesis using blksize_pos [of b'] by linarith
  qed
  have "base_ptr s + HEADER_SIZE \<le> p" "p + r \<le> max_ptr s" "(p - HEADER_SIZE - base_ptr s) mod MIN_ALLOC = 0"
    using q(3,6) fit al by (simp_all add: MIN_ALLOC_def MIN_ALLOC_LOG2_def)
  with sep show ?thesis by blast
qed

lemma merged_unused_FreeN:
  assumes "merged t" "noholes t" "\<And>p r. sub t p \<noteq> Some (UsedN r)"
  shows "t = FreeN"
  using assms
proof (induction t)
  case (UsedN r)
  from UsedN(3) [of "[]" r] show ?case by simp
next
  case HoleN
  from HoleN(2) show ?case unfolding noholes_def by (metis sub.simps(1))
next
  case (SplitN l r)
  have "noholes l" "noholes r" using SplitN.prems(2) unfolding noholes_def by (metis sub.simps(2))+
  moreover have "sub l p \<noteq> Some (UsedN x)" "sub r p \<noteq> Some (UsedN x)" for p x
    using SplitN.prems(3) [of "False # p" x] SplitN.prems(3) [of "True # p" x] by simp_all
  ultimately have "l = FreeN" "r = FreeN" using SplitN by auto
  with SplitN.prems(1) show ?case by simp
qed simp

lemma brel_no_allocs: "brel s t \<Longrightarrow> noholes t \<Longrightarrow> allocs s t = {} \<Longrightarrow> t = FreeN"
  by (rule merged_unused_FreeN) (auto simp: allocs_def dest: brelD(3))

section \<open>The allocator contract\<close>

definition buddy_client_inv :: "(nat \<Rightarrow> bool) \<Rightarrow> nat \<Rightarrow> balloc \<Rightarrow> (nat \<times> nat) set \<Rightarrow> bool" where
  "buddy_client_inv brk_ok sbrk0 s A \<longleftrightarrow> kernel_ok brk_ok sbrk0 \<and> buddy_inv s A \<and> (\<forall>(p, r) \<in> A. r + HEADER_SIZE < SIZE_MOD)"

interpretation buddy: allocator "buddy_client_inv brk_ok sbrk0" "\<lambda>r. r + HEADER_SIZE < SIZE_MOD"
  "bmalloc brk_ok sbrk0" bfree
proof
  show "\<exists>v s'. bmalloc brk_ok sbrk0 r s = Some (v, s') \<and>
      (if v = 0 then buddy_client_inv brk_ok sbrk0 s' A
       else v \<notin> fst ` A \<and> buddy_client_inv brk_ok sbrk0 s' (insert (v, r) A))"
    if "buddy_client_inv brk_ok sbrk0 s A" "r + HEADER_SIZE < SIZE_MOD" for s A r
  proof -
    have "buddy_inv s A" "kernel_ok brk_ok sbrk0" using that(1) by (simp_all add: buddy_client_inv_def)
    from bmalloc_inv [OF this, of r] obtain v s' where "bmalloc brk_ok sbrk0 r s = Some (v, s')"
      "if v = 0 then buddy_inv s' A else v \<notin> fst ` A \<and> buddy_inv s' (insert (v, r) A)" by blast
    with that show ?thesis by (intro exI [of _ v] exI [of _ s']) (auto simp: buddy_client_inv_def)
  qed
  show "\<exists>s'. bfree p s = Some s' \<and> buddy_client_inv brk_ok sbrk0 s' (A - {(p, r)})"
    if "buddy_client_inv brk_ok sbrk0 s A" "(p, r) \<in> A" for s A p r
    using bfree_inv [of s A p r] that by (auto simp: buddy_client_inv_def)
  show "p + r \<le> q \<or> q + r' \<le> p"
    if "buddy_client_inv brk_ok sbrk0 s A" "(p, r) \<in> A" "(q, r') \<in> A" "(p, r) \<noteq> (q, r')" for s A p q r r'
    using blocks_separate [of s A p r] blocks_separate [of s A q r'] that
    by (fastforce simp: buddy_client_inv_def)
qed

section \<open>Properties\<close>

text \<open>Unfolding the allocator on concrete inputs.\<close>

lemmas buddy_eval = bmalloc_def bmalloc_init_def update_max_ptr_def balloc_start_def Let_def
  buddy_consts list_init_def list_push_def list_remove_def list_pop_def write_prev_def
  write_next_def list_prev_def list_next_def ptr_for_node_def node_for_ptr_def parent_index_def
  parent_is_split_def flip_parent_is_split_def bucket_for_request_def
  bucket_for_request_loop.simps lower_bucket_limit.simps split_down.simps bmalloc_take_def
  bmalloc_loop.simps bfree_loop.simps bfree_def size_add_def size_sub_def size_mul_def SIZE_MOD_def

lemma kernel_ok_True: "sbrk0 \<noteq> 0 \<Longrightarrow> kernel_ok (\<lambda>_. True) sbrk0"
  by (simp add: kernel_ok_def)

lemma buddy_inv_start: "buddy_inv balloc_start {}"
  by (simp add: buddy_inv_def fresh_def balloc_start_def nbit_def)

text \<open>C1: \<open>bmalloc\<close> always returns.  Either it returns NULL and the live
  blocks are unchanged, or it returns a pointer no live block has and adds
  exactly that block, whatever \<open>brk\<close> does after the first page; the state stays
  one that the abstract buddy tree describes (free lists, split bits, headers
  and reserved memory agree).\<close>

theorem bmalloc_correct:
  assumes "buddy_inv s A" "kernel_ok brk_ok sbrk0"
  shows "\<exists>v s'. bmalloc brk_ok sbrk0 r s = Some (v, s') \<and>
    (if v = 0 then buddy_inv s' A else v \<notin> fst ` A \<and> buddy_inv s' (insert (v, r) A))"
  using assms by (rule bmalloc_inv)

lemma bmalloc_example: "map_option fst (bmalloc (\<lambda>_. True) 4096 1 balloc_start) = Some 4104"
  by (simp add: buddy_eval)

theorem bmalloc_correct_witness:
  "\<exists>s'. bmalloc (\<lambda>_. True) 4096 1 balloc_start = Some (4104, s') \<and> buddy_inv s' {(4104, 1)}"
  using bmalloc_correct [OF buddy_inv_start kernel_ok_True, of 4096 1] bmalloc_example by auto

text \<open>C3: freeing a live block always returns and retires exactly that block,
  merging it with free buddies on the way; every other block stays live.\<close>

theorem bfree_correct:
  assumes "buddy_inv s A" "(p, r) \<in> A"
  shows "\<exists>s'. bfree p s = Some s' \<and> buddy_inv s' (A - {(p, r)})"
  using assms by (rule bfree_inv)

theorem bfree_correct_witness:
  "\<exists>s s'. bmalloc (\<lambda>_. True) 4096 1 balloc_start = Some (4104, s) \<and> bfree 4104 s = Some s' \<and> buddy_inv s' {}"
proof -
  obtain s where s: "bmalloc (\<lambda>_. True) 4096 1 balloc_start = Some (4104, s)" "buddy_inv s {(4104, 1)}"
    using bmalloc_inv [OF buddy_inv_start kernel_ok_True, of 4096 1] bmalloc_example by auto
  with bfree_correct [OF s(2), of 4104 1] show ?thesis by auto
qed

text \<open>A live block starts after its header, is 16-byte aligned
  relative to the base of the heap, lies below the reserved end \<open>max_ptr\<close>, and
  does not overlap another live block.\<close>

theorem buddy_blocks_separate:
  assumes "buddy_inv s A" "(p, r) \<in> A" "(q, r') \<in> A" "(q, r') \<noteq> (p, r)"
    and "r + HEADER_SIZE < SIZE_MOD" "r' + HEADER_SIZE < SIZE_MOD"
  shows "base_ptr s + HEADER_SIZE \<le> p \<and> p + r \<le> max_ptr s \<and>
    (p - HEADER_SIZE - base_ptr s) mod MIN_ALLOC = 0 \<and> (p + r \<le> q \<or> q + r' \<le> p)"
  using blocks_separate [OF assms(1,2,5)] blocks_separate [OF assms(1,3,6)] assms(2-4) by fastforce

text \<open>Two blocks allocated one after the other.\<close>

lemma buddy_example2:
  "map_option snd (client_run (bmalloc (\<lambda>_. True) 4096) bfree [Alloc 1, Alloc 1] balloc_start []) =
    Some [(4104, 1), (4120, 1)]"
  by (simp add: buddy_eval)

lemma client_example:
  assumes "map_option snd (client_run (bmalloc (\<lambda>_. True) 4096) bfree ops balloc_start []) = Some held"
    and "\<And>r. Alloc r \<in> set ops \<Longrightarrow> r + HEADER_SIZE < SIZE_MOD"
  obtains s where "client_run (bmalloc (\<lambda>_. True) 4096) bfree ops balloc_start [] = Some (s, held)"
    "buddy_inv s (set held)"
  using buddy.client_safe [of "\<lambda>_. True" 4096 balloc_start "[]" ops] assms that
  by (auto simp: buddy_client_inv_def kernel_ok_True buddy_inv_start)

theorem buddy_blocks_separate_witness:
  "\<exists>s held. client_run (bmalloc (\<lambda>_. True) 4096) bfree [Alloc 1, Alloc 1] balloc_start [] = Some (s, held) \<and>
    base_ptr s + HEADER_SIZE \<le> 4120 \<and> (4121::nat) \<le> max_ptr s"
proof -
  obtain s where s: "client_run (bmalloc (\<lambda>_. True) 4096) bfree [Alloc 1, Alloc 1] balloc_start [] =
      Some (s, [(4104, 1), (4120, 1)])" "buddy_inv s {(4104, 1), (4120, 1)}"
    using client_example [OF buddy_example2] by (auto simp: HEADER_SIZE_def SIZE_MOD_def)
  with buddy_blocks_separate [OF s(2), of 4120 1 4104 1] show ?thesis
    by (auto simp: HEADER_SIZE_def SIZE_MOD_def)
qed

text \<open>When \<open>brk\<close> never fails and the request fits the hard limit, \<open>bmalloc\<close>
  returns NULL only if the whole 2 GiB range is in the tree and no free list
  holds a block that is large enough; in particular never while nothing is
  allocated.\<close>

theorem bmalloc_null_only_exhausted:
  assumes "buddy_inv s A" "sbrk0 \<noteq> 0" "r + HEADER_SIZE \<le> MAX_ALLOC"
  shows "\<exists>v s'. bmalloc (\<lambda>_. True) sbrk0 r s = Some (v, s') \<and>
    (v \<noteq> 0 \<or> A \<noteq> {} \<and> bucket_limit s' = 0 \<and> (\<exists>ob. bucket_for_request (r + HEADER_SIZE) = Some ob \<and>
      (\<forall>b \<in> {..ob}. fst (list_pop (Bucket b) s') = None)))"
proof -
  have r: "size_add r HEADER_SIZE = r + HEADER_SIZE"
    using assms(3) by (intro size_add_id) (simp add: buddy_consts SIZE_MOD_def)
  have "size_add r HEADER_SIZE \<le> MAX_ALLOC" using r assms(3) by simp
  from bmalloc_run [OF assms(1) kernel_ok_True [OF assms(2)] this]
  obtain v s' t' ob where t': "bmalloc (\<lambda>_. True) sbrk0 r s = Some (v, s')" "brel s' t'" "noholes t'"
    "bucket_for_request (r + HEADER_SIZE) = Some ob" "ob \<le> 27"
    "if v = 0 then allocs s' t' = A \<and> bucket_limit s' = 0 \<and> (\<forall>p. sub t' p = Some FreeN \<longrightarrow> ob < length p)
     else v \<notin> fst ` A \<and> allocs s' t' = insert (v, r) A" unfolding r by (simp cong: if_cong) blast
  have "A \<noteq> {} \<and> bucket_limit s' = 0 \<and> (\<forall>b \<in> {..ob}. fst (list_pop (Bucket b) s') = None)" if "v = 0"
  proof (intro conjI ballI)
    have v: "allocs s' t' = A" "bucket_limit s' = 0" "\<forall>p. sub t' p = Some FreeN \<longrightarrow> ob < length p"
      using t'(6) that by simp_all
    then show "bucket_limit s' = 0" by simp
    show "A \<noteq> {}"
      using brel_no_allocs [OF t'(2,3)] v(1) v(3) [rule_format, of "[]"] by auto
    show "fst (list_pop (Bucket b) s') = None" if "b \<in> {..ob}" for b
    proof -
      have b: "bucket_limit s' \<le> b" "b \<le> 27" using that t'(5) v(2) by auto
      show ?thesis using that v by (cases rule: list_pop_brel [OF t'(2) b]) auto
    qed
  qed
  with t'(1,4) show ?thesis by blast
qed

theorem bmalloc_null_only_exhausted_witness:
  "\<exists>s'. bmalloc (\<lambda>_. True) 4096 1 balloc_start = Some (4104, s')"
  using bmalloc_null_only_exhausted [OF buddy_inv_start, of 4096 1] bmalloc_example
  by (auto simp: buddy_consts)

text \<open>C4: once every block has been freed the allocator has coalesced
  everything: the root bucket holds the whole heap as its only free block,
  every other free list is empty and no split bit is set.\<close>

theorem buddy_coalesced:
  assumes "buddy_inv s {}" "base_ptr s \<noteq> 0"
  shows "ring (list_next s) (list_prev s) (Bucket (bucket_limit s)) [Blk (base_ptr s)] \<and>
    (\<forall>b. bucket_limit s < b \<and> b < BUCKET_COUNT \<longrightarrow> ring (list_next s) (list_prev s) (Bucket b) []) \<and>
    (\<forall>i. \<not> parent_is_split i s)"
proof -
  obtain t where t: "brel s t" "noholes t" "allocs s t = {}"
    using assms by (auto simp: buddy_inv_def fresh_def)
  have T: "t = FreeN" using t by (rule brel_no_allocs)
  have rings: "\<exists>xs. ring (list_next s) (list_prev s) (Bucket b) (map Blk xs) \<and>
      set xs = (if b = bucket_limit s then {base_ptr s} else {})" if "bucket_limit s \<le> b" "b \<le> 27" for b
    using brelD(5) [OF t(1)] that unfolding T lists_FreeN by (auto simp: lists_ok_def)
  have "ring (list_next s) (list_prev s) (Bucket (bucket_limit s)) [Blk (base_ptr s)]"
  proof -
    obtain xs where xs: "ring (list_next s) (list_prev s) (Bucket (bucket_limit s)) (map Blk xs)"
      "set xs = {base_ptr s}" using rings [of "bucket_limit s"] brelD(2) [OF t(1)] by auto
    have "distinct xs" using ring_distinct [OF xs(1)] by (simp add: distinct_map)
    then have "length xs = 1" using xs(2) distinct_card [of xs] by simp
    then have "xs = [base_ptr s]" using xs(2) by (cases xs) auto
    with xs(1) show ?thesis by simp
  qed
  moreover have "ring (list_next s) (list_prev s) (Bucket b) []" if "bucket_limit s < b \<and> b < BUCKET_COUNT" for b
    using rings [of b] that by (auto simp: buddy_consts)
  moreover have "\<not> parent_is_split i s" for i
    using brelD(4) [OF t(1)] unfolding T parent_is_split_nbit by (simp add: bits_ok_def)
  ultimately show ?thesis by blast
qed

lemma buddy_example3:
  "map_option snd (client_run (bmalloc (\<lambda>_. True) 4096) bfree [Alloc 1, Alloc 1, Free 0, Free 0] balloc_start []) =
    Some []"
  by (simp add: buddy_eval)

lemma buddy_example3_base:
  "map_option (base_ptr \<circ> fst)
    (client_run (bmalloc (\<lambda>_. True) 4096) bfree [Alloc 1, Alloc 1, Free 0, Free 0] balloc_start []) = Some 4096"
  by (simp add: buddy_eval)

theorem buddy_coalesced_witness:
  "\<exists>s. client_run (bmalloc (\<lambda>_. True) 4096) bfree [Alloc 1, Alloc 1, Free 0, Free 0] balloc_start [] = Some (s, []) \<and>
    ring (list_next s) (list_prev s) (Bucket (bucket_limit s)) [Blk 4096]"
proof -
  obtain s where s: "client_run (bmalloc (\<lambda>_. True) 4096) bfree [Alloc 1, Alloc 1, Free 0, Free 0] balloc_start [] =
      Some (s, [])" "buddy_inv s {}"
    using client_example [OF buddy_example3] by (auto simp: HEADER_SIZE_def SIZE_MOD_def)
  with buddy_example3_base have "base_ptr s = 4096" by simp
  with s buddy_coalesced [OF s(2)] show ?thesis by auto
qed

text \<open>C5: a client that only frees what it holds never gets stuck: every
  sequence of \<open>bmalloc\<close> and \<open>bfree\<close> calls from the initial state returns, and
  the allocator's live blocks are exactly the ones the client holds.\<close>

theorem buddy_client_safe:
  assumes "sbrk0 \<noteq> 0" "\<And>r. Alloc r \<in> set ops \<Longrightarrow> r + HEADER_SIZE < SIZE_MOD"
  shows "\<exists>s held. client_run (bmalloc (\<lambda>_. True) sbrk0) bfree ops balloc_start [] = Some (s, held) \<and>
    buddy_inv s (set held) \<and> distinct held"
  using buddy.client_safe [of "\<lambda>_. True" sbrk0 balloc_start "[]" ops] assms buddy_inv_start
  by (auto simp: buddy_client_inv_def kernel_ok_True)

theorem buddy_client_safe_witness:
  "\<exists>s held. client_run (bmalloc (\<lambda>_. True) 4096) bfree [Alloc 100, Alloc 50, Free 0, Alloc 7] balloc_start [] =
    Some (s, held) \<and> buddy_inv s (set held)"
proof -
  have "r + HEADER_SIZE < SIZE_MOD" if "Alloc r \<in> set [Alloc 100, Alloc 50, Free 0, Alloc 7]" for r
    using that by (auto simp: HEADER_SIZE_def SIZE_MOD_def)
  from buddy_client_safe [OF numeral_neq_zero this] show ?thesis by blast
qed

text \<open>The guard against oversized requests adds the header size in \<open>size_t\<close>
  and wraps: a request of \<open>2 ^ 64 - 1\<close> bytes passes it and is answered with a
  block of which 8 bytes belong to the caller.\<close>

theorem bmalloc_overflow:
  "map_option (\<lambda>(v, s'). (v, max_ptr s')) (bmalloc (\<lambda>_. True) 4096 (2 ^ 64 - 1) balloc_start) =
    Some (4104, 4112)"
  by (simp add: buddy_eval)

end
