(* ===== verification/Buddy_Demo.thy ===== *)
theory Buddy_Demo
  imports Buddy_Spec "HOL-Library.Monad_Syntax"
begin

text \<open>
  How much the allocator of \<open>buddy-alloc/alloc.c\<close> can hand out, and the demonstration program
  at the end of the file: \<open>bmalloc\<close> fails only when the live blocks, each counted with the size
  of the request if that is larger, fill the 2 GiB of address space, so the assertions of
  \<open>main\<close> hold as long as the kernel grants memory.
\<close>

section \<open>Capacity\<close>

definition used_paths :: "btree \<Rightarrow> bool list set" where
  "used_paths t = {p. \<exists>r. sub t p = Some (UsedN r)}"

lemma used_paths_simps [simp]:
  "used_paths (SplitN l r) = Cons False ` used_paths l \<union> Cons True ` used_paths r"
  "used_paths (UsedN x) = {[]}" "used_paths FreeN = {}" "used_paths HoleN = {}"
proof -
  have "p \<in> used_paths (SplitN l r) \<longleftrightarrow> p \<in> Cons False ` used_paths l \<union> Cons True ` used_paths r" for p
    by (cases p) (auto simp: used_paths_def)
  then show "used_paths (SplitN l r) = Cons False ` used_paths l \<union> Cons True ` used_paths r" by blast
  have "p \<in> used_paths (UsedN x) \<longleftrightarrow> p = []" "p \<notin> used_paths FreeN" "p \<notin> used_paths HoleN" for p
    by (cases p; auto simp: used_paths_def)+
  then show "used_paths (UsedN x) = {[]}" "used_paths FreeN = {}" "used_paths HoleN = {}" by blast+
qed

lemma finite_used_paths [simp]: "finite (used_paths t)"
  by (induction t) auto

text \<open>Kraft's inequality for a tree whose free leaves are all deeper than \<open>n\<close>.\<close>

lemma used_weight:
  assumes "merged t" "noholes t" "\<forall>p. sub t p = Some FreeN \<longrightarrow> n < length p"
  shows "2 ^ n \<le> (\<Sum>p \<in> used_paths t. 2 ^ (n - min (length p) n) :: nat)"
  using assms
proof (induction t arbitrary: n)
  case FreeN
  from FreeN(3) [rule_format, of "[]"] show ?case by simp
next
  case HoleN
  from HoleN(2) show ?case unfolding noholes_def by (metis sub.simps(1))
next
  case (SplitN l r)
  have h: "noholes l" "noholes r" using SplitN.prems(2) unfolding noholes_def by (metis sub.simps(2))+
  have d: "n < Suc (length p)" if "sub (if x then r else l) p = Some FreeN" for x p
    using SplitN.prems(3) [rule_format, of "x # p"] that by simp
  show ?case
  proof (cases n)
    case 0
    have "used_paths (SplitN l r) \<noteq> {}"
      using merged_unused_FreeN [OF SplitN.prems(1,2)] by (auto simp: used_paths_def)
    then show ?thesis using 0 by (simp add: Suc_le_eq card_gt_0_iff)
  next
    case (Suc m)
    have "2 ^ m \<le> (\<Sum>p \<in> used_paths l. 2 ^ (m - min (length p) m) :: nat)"
      by (rule SplitN.IH) (use SplitN.prems h d [where x = False] Suc in auto)
    moreover have "2 ^ m \<le> (\<Sum>p \<in> used_paths r. 2 ^ (m - min (length p) m) :: nat)"
      by (rule SplitN.IH) (use SplitN.prems h d [where x = True] Suc in auto)
    moreover have "(\<Sum>p \<in> Cons x ` used_paths u. 2 ^ (n - min (length p) n) :: nat) = (\<Sum>p \<in> used_paths u. 2 ^ (m - min (length p) m))" for x u
      by (subst sum.reindex) (auto simp: Suc)
    moreover have "(\<Sum>p \<in> used_paths (SplitN l r). 2 ^ (n - min (length p) n) :: nat) =
        (\<Sum>p \<in> Cons False ` used_paths l. 2 ^ (n - min (length p) n)) + (\<Sum>p \<in> Cons True ` used_paths r. 2 ^ (n - min (length p) n))"
      unfolding used_paths_simps by (rule sum.union_disjoint) auto
    ultimately show ?thesis using Suc by simp
  qed
qed simp

text \<open>The size of the block that serves a request.\<close>

definition block_size :: "nat \<Rightarrow> nat" where
  "block_size r = (case bucket_for_request (size_add r HEADER_SIZE) of None \<Rightarrow> 0 | Some b \<Rightarrow> blksize b)"

lemma blksize_scaled:
  assumes "n \<le> 31"
  shows "2 ^ (n - min k n) * blksize n = max (blksize k) (blksize n)"
proof (cases "k \<le> n")
  case True
  then have "n - k + (31 - n) = 31 - k" using assms by simp
  then have "2 ^ (n - k) * blksize n = blksize k" unfolding blksize_def MAX_ALLOC_LOG2_def by (metis power_add)
  moreover have "blksize n \<le> blksize k" using True by (simp add: blksize_def power_increasing)
  ultimately show ?thesis using True by (simp add: min_def max_def)
next
  case False
  then have "blksize k \<le> blksize n" by (simp add: blksize_def power_increasing)
  then show ?thesis using False by (simp add: min_def max_def)
qed

lemma allocs_weight:
  assumes rel: "brel s t" "noholes t" and l: "bucket_limit s = 0" and n: "n \<le> 31"
    and free: "\<forall>p. sub t p = Some FreeN \<longrightarrow> n < length p"
  shows "MAX_ALLOC \<le> (\<Sum>(a, r) \<in> allocs s t. max (block_size r) (blksize n))"
proof -
  let ?r = "\<lambda>p. THE r. sub t p = Some (UsedN r)"
  let ?f = "\<lambda>p. (addr s 0 p + HEADER_SIZE, ?r p)"
  have inj: "inj_on ?f (used_paths t)"
  proof (rule inj_onI)
    fix p q assume "p \<in> used_paths t" "q \<in> used_paths t" "?f p = ?f q"
    then obtain x y where "sub t p = Some (UsedN x)" "sub t q = Some (UsedN y)" "addr s 0 p = addr s 0 q"
      by (auto simp: used_paths_def)
    then show "p = q" using leaf_addr_inj [of t p "UsedN x" q "UsedN y" 0 s] brelD(2) [OF rel(1)] l by simp
  qed
  have img: "allocs s t = ?f ` used_paths t" using l by (force simp: allocs_def used_paths_def image_iff)
  have size_p: "block_size (?r p) = blksize (length p)" if p: "p \<in> used_paths t" for p
  proof -
    obtain r where r: "sub t p = Some (UsedN r)" using p by (auto simp: used_paths_def)
    then have "bucket_for_request (size_add r HEADER_SIZE) = Some (length p)"
      using brelD(6) [OF rel(1)] l by (simp add: hdrs_ok_def)
    then show ?thesis using r by (simp add: block_size_def)
  qed
  have "n + (31 - n) = 31" using n by simp
  then have "MAX_ALLOC = 2 ^ n * blksize n" unfolding blksize_def MAX_ALLOC_def MAX_ALLOC_LOG2_def by (metis power_add)
  also have "\<dots> \<le> (\<Sum>p \<in> used_paths t. 2 ^ (n - min (length p) n)) * blksize n"
    using used_weight [OF brelD(3) [OF rel(1)] rel(2) free] by simp
  also have "\<dots> = (\<Sum>p \<in> used_paths t. max (blksize (length p)) (blksize n))"
    by (simp add: sum_distrib_right blksize_scaled [OF n])
  also have "\<dots> = (\<Sum>p \<in> used_paths t. max (block_size (?r p)) (blksize n))"
    by (rule sum.cong) (simp_all add: size_p)
  also have "\<dots> = (\<Sum>(a, r) \<in> allocs s t. max (block_size r) (blksize n))"
    unfolding img by (subst sum.reindex [OF inj]) simp
  finally show ?thesis .
qed

text \<open>\<open>bmalloc\<close> returns NULL only when the live blocks, rounded up to the size of the block asked
  for, cover all 2 GiB.\<close>

lemma bmalloc_capacity:
  assumes "buddy_inv s A" "sbrk0 \<noteq> 0" "r + HEADER_SIZE \<le> MAX_ALLOC"
    and "(\<Sum>(a, x) \<in> A. max (block_size x) (block_size r)) < MAX_ALLOC"
  shows "\<exists>v s'. bmalloc (\<lambda>_. True) sbrk0 r s = Some (v, s') \<and> v \<noteq> 0 \<and> v \<notin> fst ` A \<and> buddy_inv s' (insert (v, r) A)"
proof -
  have r: "size_add r HEADER_SIZE \<le> MAX_ALLOC"
    using assms(3) by (subst size_add_id) (simp_all add: buddy_consts SIZE_MOD_def)
  from bmalloc_run [OF assms(1) kernel_ok_True [OF assms(2)] r]
  obtain v s' t' ob where t': "bmalloc (\<lambda>_. True) sbrk0 r s = Some (v, s')" "brel s' t'" "noholes t'"
    "bucket_for_request (size_add r HEADER_SIZE) = Some ob" "ob \<le> 27"
    "if v = 0 then allocs s' t' = A \<and> bucket_limit s' = 0 \<and> (\<forall>p. sub t' p = Some FreeN \<longrightarrow> ob < length p)
     else v \<notin> fst ` A \<and> allocs s' t' = insert (v, r) A" by (simp cong: if_cong) blast
  have "v \<noteq> 0"
  proof
    assume "v = 0"
    then have v: "allocs s' t' = A" "bucket_limit s' = 0" "\<forall>p. sub t' p = Some FreeN \<longrightarrow> ob < length p"
      using t'(6) by simp_all
    have "block_size r = blksize ob" using t'(4) by (simp add: block_size_def)
    then show False using allocs_weight [OF t'(2,3) v(2) _ v(3)] t'(5) v(1) assms(4) by simp
  qed
  then show ?thesis using t' by (auto simp: buddy_inv_def)
qed

lemma block_size_le:
  assumes "r \<le> 2 ^ 16"
  shows "block_size r \<le> 2 ^ 18" "r + HEADER_SIZE \<le> MAX_ALLOC"
proof -
  show le: "r + HEADER_SIZE \<le> MAX_ALLOC" using assms by (simp add: buddy_consts)
  have r: "size_add r HEADER_SIZE = r + HEADER_SIZE" using assms by (intro size_add_id) (simp add: buddy_consts SIZE_MOD_def)
  obtain b where b: "b \<le> 27" "bucket_for_request (r + HEADER_SIZE) = Some b" "b < 27 \<longrightarrow> 2 ^ (30 - b) < r + HEADER_SIZE"
    using bucket_for_request_run [OF le] by blast
  have "blksize b \<le> 2 ^ 18"
  proof (cases "b < 27")
    case True
    then have "31 - b = Suc (30 - b)" by simp
    then have "blksize b = 2 * 2 ^ (30 - b)" unfolding blksize_def MAX_ALLOC_LOG2_def by simp
    then show ?thesis using True b(3) assms by (simp add: HEADER_SIZE_def)
  next
    case False
    then have "b = 27" using b(1) by simp
    then show ?thesis by (simp add: blksize_def MAX_ALLOC_LOG2_def)
  qed
  then show "block_size r \<le> 2 ^ 18" using b(2) r by (simp add: block_size_def)
qed

text \<open>C2: as long as \<open>brk\<close> does not fail and the live blocks, each counted with the size of the
  block that serves the request if that is larger, do not fill 2 GiB, \<open>bmalloc\<close> finds a block: it
  returns a pointer that no live block has and adds exactly that block.  Fragmentation costs no
  more than this rounding.\<close>

theorem bmalloc_fits:
  assumes "buddy_inv s A" "sbrk0 \<noteq> 0" "r + HEADER_SIZE \<le> MAX_ALLOC"
    and "(\<Sum>(a, x) \<in> A. max (block_size x) (block_size r)) < MAX_ALLOC"
  shows "\<exists>v s'. bmalloc (\<lambda>_. True) sbrk0 r s = Some (v, s') \<and> v \<noteq> 0 \<and> v \<notin> fst ` A \<and> buddy_inv s' (insert (v, r) A)"
  using assms by (rule bmalloc_capacity)

theorem bmalloc_fits_witness:
  "\<exists>s v s'. bmalloc (\<lambda>_. True) 4096 1 balloc_start = Some (4104, s) \<and> bmalloc (\<lambda>_. True) 4096 100 s = Some (v, s') \<and>
    v \<noteq> 0 \<and> v \<noteq> 4104"
proof -
  obtain s where s: "bmalloc (\<lambda>_. True) 4096 1 balloc_start = Some (4104, s)" "buddy_inv s {(4104, 1)}"
    using bmalloc_inv [OF buddy_inv_start kernel_ok_True, of 4096 1] bmalloc_example by auto
  have "block_size 1 \<le> 2 ^ 18" "block_size 100 \<le> 2 ^ 18" by (rule block_size_le, simp)+
  then have "(\<Sum>(a, x) \<in> {(4104, 1)}. max (block_size x) (block_size 100)) < MAX_ALLOC" by (simp add: buddy_consts)
  then show ?thesis using bmalloc_fits [OF s(2), of 4096 100] s(1) by (auto simp: buddy_consts)
qed

section \<open>The demonstration program\<close>

text \<open>\<open>assert(bmalloc(r))\<close>, and \<open>main\<close>; \<open>None\<close> is a failed assertion or a fault.\<close>

definition bmalloc_assert :: "(nat \<Rightarrow> bool) \<Rightarrow> nat \<Rightarrow> nat \<Rightarrow> balloc \<Rightarrow> (nat \<times> balloc) option" where
  "bmalloc_assert brk_ok sbrk0 r s = do { (v, s) \<leftarrow> bmalloc brk_ok sbrk0 r s; if v = 0 then None else Some (v, s) }"

definition buddy_main :: "(nat \<Rightarrow> bool) \<Rightarrow> nat \<Rightarrow> balloc option" where
  "buddy_main brk_ok sbrk0 = do {
     (a1, s) \<leftarrow> bmalloc_assert brk_ok sbrk0 64 balloc_start;
     (a, s) \<leftarrow> bmalloc_assert brk_ok sbrk0 100 s;
     s \<leftarrow> bfree a s;
     (a, s) \<leftarrow> bmalloc_assert brk_ok sbrk0 32 s;
     s \<leftarrow> bfree a s;
     (a, s) \<leftarrow> bmalloc_assert brk_ok sbrk0 128 s;
     s \<leftarrow> bfree a s;
     (a, s) \<leftarrow> bmalloc_assert brk_ok sbrk0 100 s;
     s \<leftarrow> bfree a1 s;
     (a1, s) \<leftarrow> bmalloc_assert brk_ok sbrk0 16 s;
     s \<leftarrow> bfree a1 s;
     (a1, s) \<leftarrow> bmalloc_assert brk_ok sbrk0 100 s;
     (a2, s) \<leftarrow> bmalloc_assert brk_ok sbrk0 10000 s;
     s \<leftarrow> bfree a2 s;
     s \<leftarrow> bfree a1 s;
     bfree a s
   }"

text \<open>A few small blocks leave room for another.\<close>

definition small :: "(nat \<times> nat) set \<Rightarrow> bool" where
  "small A \<longleftrightarrow> finite A \<and> card A \<le> 3 \<and> (\<forall>(a, x) \<in> A. x \<le> 2 ^ 16)"

lemma bmalloc_assert_small:
  assumes "buddy_inv s A" "sbrk0 \<noteq> 0" "small A" "r \<le> 2 ^ 16"
  obtains v s' where "bmalloc_assert (\<lambda>_. True) sbrk0 r s = Some (v, s')" "v \<notin> fst ` A" "buddy_inv s' (insert (v, r) A)"
proof -
  have "(case e of (a, x) \<Rightarrow> max (block_size x) (block_size r)) \<le> 2 ^ 18" if "e \<in> A" for e
    using assms(3) that block_size_le(1) [OF assms(4)] block_size_le(1) [of "snd e"] by (cases e) (auto simp: small_def)
  then have "(\<Sum>(a, x) \<in> A. max (block_size x) (block_size r)) \<le> card A * 2 ^ 18"
    using sum_bounded_above [of A "\<lambda>(a, x). max (block_size x) (block_size r)" "2 ^ 18"] by simp
  also have "\<dots> < MAX_ALLOC" using assms(3) by (simp add: small_def buddy_consts)
  finally have "(\<Sum>(a, x) \<in> A. max (block_size x) (block_size r)) < MAX_ALLOC" .
  from bmalloc_capacity [OF assms(1,2) block_size_le(2) [OF assms(4)] this]
  show ?thesis using that by (auto simp: bmalloc_assert_def)
qed

lemma bfree_held:
  assumes "buddy_inv s (insert (p, r) A)" "p \<notin> fst ` A"
  obtains s' where "bfree p s = Some s'" "buddy_inv s' A"
proof -
  have "insert (p, r) A - {(p, r)} = A" using assms(2) by force
  then show ?thesis using bfree_inv [OF assms(1), of p r] that by auto
qed

text \<open>Taking a block and giving it back.\<close>

lemma take_and_return:
  assumes "buddy_inv s A" "sbrk0 \<noteq> 0" "small A" "r \<le> 2 ^ 16"
  obtains v s' s'' where "bmalloc_assert (\<lambda>_. True) sbrk0 r s = Some (v, s')" "bfree v s' = Some s''" "buddy_inv s'' A"
proof -
  obtain v s' where v: "bmalloc_assert (\<lambda>_. True) sbrk0 r s = Some (v, s')" "v \<notin> fst ` A" "buddy_inv s' (insert (v, r) A)"
    using bmalloc_assert_small [OF assms] .
  obtain s'' where "bfree v s' = Some s''" "buddy_inv s'' A" using bfree_held [OF v(3,2)] .
  with v(1) that show ?thesis by blast
qed

text \<open>No assertion of \<open>main\<close> fails when the kernel grants memory, and at the end everything has been
  given back.\<close>

theorem buddy_main_passes:
  assumes "sbrk0 \<noteq> 0"
  shows "\<exists>s. buddy_main (\<lambda>_. True) sbrk0 = Some s \<and> buddy_inv s {}"
proof -
  have sm: "small {}" "small {(a, x)}" if "x \<le> 2 ^ 16" for a x using that by (auto simp: small_def)
  have sm2: "small {(a, x), (b, y)}" if "x \<le> 2 ^ 16" "y \<le> 2 ^ 16" for a b x y
    using that by (auto simp: small_def card_insert_if)
  obtain a1 s1 where 1: "bmalloc_assert (\<lambda>_. True) sbrk0 64 balloc_start = Some (a1, s1)" "buddy_inv s1 {(a1, 64)}"
    using bmalloc_assert_small [OF buddy_inv_start assms, of 64] sm by (auto simp: small_def)
  obtain b s2 s3 where 2: "bmalloc_assert (\<lambda>_. True) sbrk0 100 s1 = Some (b, s2)" "bfree b s2 = Some s3" "buddy_inv s3 {(a1, 64)}"
    using take_and_return [OF 1(2) assms sm(2), of 100] by auto
  obtain c s4 s5 where 3: "bmalloc_assert (\<lambda>_. True) sbrk0 32 s3 = Some (c, s4)" "bfree c s4 = Some s5" "buddy_inv s5 {(a1, 64)}"
    using take_and_return [OF 2(3) assms sm(2), of 32] by auto
  obtain d s6 s7 where 4: "bmalloc_assert (\<lambda>_. True) sbrk0 128 s5 = Some (d, s6)" "bfree d s6 = Some s7" "buddy_inv s7 {(a1, 64)}"
    using take_and_return [OF 3(3) assms sm(2), of 128] by auto
  obtain a s8 where 5: "bmalloc_assert (\<lambda>_. True) sbrk0 100 s7 = Some (a, s8)" "a \<noteq> a1" "buddy_inv s8 {(a, 100), (a1, 64)}"
    using bmalloc_assert_small [OF 4(3) assms sm(2), of 100] by auto
  obtain s9 where 6: "bfree a1 s8 = Some s9" "buddy_inv s9 {(a, 100)}"
    using bfree_held [of s8 a1 64 "{(a, 100)}"] 5(2,3) by (auto simp: insert_commute)
  obtain e s10 s11 where 7: "bmalloc_assert (\<lambda>_. True) sbrk0 16 s9 = Some (e, s10)" "bfree e s10 = Some s11" "buddy_inv s11 {(a, 100)}"
    using take_and_return [OF 6(2) assms sm(2), of 16] by auto
  obtain f s12 where 8: "bmalloc_assert (\<lambda>_. True) sbrk0 100 s11 = Some (f, s12)" "f \<noteq> a" "buddy_inv s12 {(f, 100), (a, 100)}"
    using bmalloc_assert_small [OF 7(3) assms sm(2), of 100] by auto
  obtain g s13 s14 where 9: "bmalloc_assert (\<lambda>_. True) sbrk0 10000 s12 = Some (g, s13)" "bfree g s13 = Some s14"
    "buddy_inv s14 {(f, 100), (a, 100)}"
    using take_and_return [OF 8(3) assms sm2, of 10000] by auto
  obtain s15 where 10: "bfree f s14 = Some s15" "buddy_inv s15 {(a, 100)}"
    using bfree_held [OF 9(3)] 8(2) by auto
  obtain s16 where 11: "bfree a s15 = Some s16" "buddy_inv s16 {}"
    using bfree_held [OF 10(2)] by auto
  show ?thesis using 1 2 3 4 5 6 7 8 9 10 11 by (simp add: buddy_main_def)
qed

end
