(* ===== verification/Kernel_List.thy ===== *)
theory Kernel_List
  imports Circular_List
begin

text \<open>
  The Linux-style intrusive list of \<open>user-level-thread/list.h\<close> (the file
  \<open>proxy/list.h\<close> is the same text).  A \<open>struct list_head\<close> is a pair of link
  fields; the memory that holds all of them is a record of two functions from
  node addresses to node addresses, and every operation is the source's
  sequence of field reads and writes on it.  \<open>list_entry\<close> and
  \<open>container_of\<close> subtract a constant offset from a node address; entries are
  identified with their nodes here.  The build does not define
  \<open>LIST_POISONING\<close>, so \<open>list_del\<close> leaves the links of the removed node alone.
\<close>

section \<open>Operations\<close>

record 'p links =
  lprev :: "'p \<Rightarrow> 'p"
  lnext :: "'p \<Rightarrow> 'p"

definition set_prev :: "'p \<Rightarrow> 'p \<Rightarrow> 'p links \<Rightarrow> 'p links" where
  "set_prev p v h = h\<lparr>lprev := (lprev h)(p := v)\<rparr>"

definition set_next :: "'p \<Rightarrow> 'p \<Rightarrow> 'p links \<Rightarrow> 'p links" where
  "set_next p v h = h\<lparr>lnext := (lnext h)(p := v)\<rparr>"

definition INIT_LIST_HEAD :: "'p \<Rightarrow> 'p links \<Rightarrow> 'p links" where
  "INIT_LIST_HEAD head h = set_prev head head (set_next head head h)"

definition list_add :: "'p \<Rightarrow> 'p \<Rightarrow> 'p links \<Rightarrow> 'p links" where
  "list_add node head h =
     (let nxt = lnext h head;
          h1 = set_prev nxt node h;
          h2 = set_next node nxt h1;
          h3 = set_prev node head h2
      in set_next head node h3)"

definition list_add_tail :: "'p \<Rightarrow> 'p \<Rightarrow> 'p links \<Rightarrow> 'p links" where
  "list_add_tail node head h =
     (let prv = lprev h head;
          h1 = set_next prv node h;
          h2 = set_next node head h1;
          h3 = set_prev node prv h2
      in set_prev head node h3)"

definition list_del :: "'p \<Rightarrow> 'p links \<Rightarrow> 'p links" where
  "list_del node h =
     (let nxt = lnext h node;
          prv = lprev h node;
          h1 = set_prev nxt prv h
      in set_next prv nxt h1)"

definition list_del_init :: "'p \<Rightarrow> 'p links \<Rightarrow> 'p links" where
  "list_del_init node h = INIT_LIST_HEAD node (list_del node h)"

definition list_empty :: "'p \<Rightarrow> 'p links \<Rightarrow> bool" where
  "list_empty head h \<longleftrightarrow> lnext h head = head"

definition list_is_singular :: "'p \<Rightarrow> 'p links \<Rightarrow> bool" where
  "list_is_singular head h \<longleftrightarrow> \<not> list_empty head h \<and> lprev h head = lnext h head"

definition list_splice :: "'p \<Rightarrow> 'p \<Rightarrow> 'p links \<Rightarrow> 'p links" where
  "list_splice l head h =
     (let head_first = lnext h head;
          list_first = lnext h l;
          list_last = lprev h l
      in if list_empty l h then h
         else let h1 = set_next head list_first h;
                  h2 = set_prev list_first head h1;
                  h3 = set_next list_last head_first h2
              in set_prev head_first list_last h3)"

definition list_splice_tail :: "'p \<Rightarrow> 'p \<Rightarrow> 'p links \<Rightarrow> 'p links" where
  "list_splice_tail l head h =
     (let head_last = lprev h head;
          list_first = lnext h l;
          list_last = lprev h l
      in if list_empty l h then h
         else let h1 = set_prev head list_last h;
                  h2 = set_next list_last head h1;
                  h3 = set_prev list_first head_last h2
              in set_next head_last list_first h3)"

definition list_splice_init :: "'p \<Rightarrow> 'p \<Rightarrow> 'p links \<Rightarrow> 'p links" where
  "list_splice_init l head h = INIT_LIST_HEAD l (list_splice l head h)"

definition list_splice_tail_init :: "'p \<Rightarrow> 'p \<Rightarrow> 'p links \<Rightarrow> 'p links" where
  "list_splice_tail_init l head h = INIT_LIST_HEAD l (list_splice_tail l head h)"

definition list_cut_position :: "'p \<Rightarrow> 'p \<Rightarrow> 'p \<Rightarrow> 'p links \<Rightarrow> 'p links" where
  "list_cut_position head_to head_from node h =
     (let head_from_first = lnext h head_from
      in if list_empty head_from h then h
         else if head_from = node then INIT_LIST_HEAD head_to h
         else let h1 = set_next head_from (lnext h node) h;
                  h2 = set_prev (lnext h1 head_from) head_from h1;
                  h3 = set_prev head_to node h2;
                  h4 = set_next node head_to h3;
                  h5 = set_next head_to head_from_first h4
              in set_prev (lnext h5 head_to) head_to h5)"

definition list_move :: "'p \<Rightarrow> 'p \<Rightarrow> 'p links \<Rightarrow> 'p links" where
  "list_move node head h = list_add node head (list_del node h)"

definition list_move_tail :: "'p \<Rightarrow> 'p \<Rightarrow> 'p links \<Rightarrow> 'p links" where
  "list_move_tail node head h = list_add_tail node head (list_del node h)"

definition list_first_entry :: "'p \<Rightarrow> 'p links \<Rightarrow> 'p" where
  "list_first_entry head h = lnext h head"

definition list_last_entry :: "'p \<Rightarrow> 'p links \<Rightarrow> 'p" where
  "list_last_entry head h = lprev h head"

text \<open>
  The iteration macros.  The state \<open>s\<close> the body works on contains the links
  (\<open>lk s\<close>); the loops follow the current links, so they may run forever on
  links that are not a list: the result is then \<open>None\<close>.
\<close>

partial_function (option) list_for_each_from ::
    "('s \<Rightarrow> 'p links) \<Rightarrow> ('p \<Rightarrow> 's \<Rightarrow> 's) \<Rightarrow> 'p \<Rightarrow> 'p \<Rightarrow> 's \<Rightarrow> 's option" where
  "list_for_each_from lk body head node s =
     (if node \<noteq> head
      then let s' = body node s
           in list_for_each_from lk body head (lnext (lk s') node) s'
      else Some s)"

definition list_for_each :: "('s \<Rightarrow> 'p links) \<Rightarrow> ('p \<Rightarrow> 's \<Rightarrow> 's) \<Rightarrow> 'p \<Rightarrow> 's \<Rightarrow> 's option" where
  "list_for_each lk body head s = list_for_each_from lk body head (lnext (lk s) head) s"

partial_function (option) list_for_each_safe_from ::
    "('s \<Rightarrow> 'p links) \<Rightarrow> ('p \<Rightarrow> 's \<Rightarrow> 's) \<Rightarrow> 'p \<Rightarrow> 'p \<Rightarrow> 'p \<Rightarrow> 's \<Rightarrow> 's option" where
  "list_for_each_safe_from lk body head node safe s =
     (if node \<noteq> head
      then let s' = body node s
           in list_for_each_safe_from lk body head safe (lnext (lk s') safe) s'
      else Some s)"

definition list_for_each_entry_safe ::
    "('s \<Rightarrow> 'p links) \<Rightarrow> ('p \<Rightarrow> 's \<Rightarrow> 's) \<Rightarrow> 'p \<Rightarrow> 's \<Rightarrow> 's option" where
  "list_for_each_entry_safe lk body head s =
     (let node = lnext (lk s) head
      in list_for_each_safe_from lk body head node (lnext (lk s) node) s)"

declare list_for_each_from.simps [code] list_for_each_safe_from.simps [code]

section \<open>What the operations do to lists\<close>

abbreviation klist :: "'p links \<Rightarrow> 'p \<Rightarrow> 'p list \<Rightarrow> bool" where
  "klist h head xs \<equiv> ring (lnext h) (lprev h) head xs"

lemmas klist_ops_defs = set_prev_def set_next_def INIT_LIST_HEAD_def list_add_def
  list_add_tail_def list_del_def list_del_init_def list_splice_def list_splice_tail_def
  list_splice_init_def list_splice_tail_init_def list_cut_position_def list_move_def
  list_move_tail_def list_empty_def Let_def

interpretation kl: circular_list lnext lprev INIT_LIST_HEAD list_add_tail list_del
  by unfold_locales (auto simp: klist_ops_defs)

lemma list_add_klist:
  assumes "klist h head xs" "node \<noteq> head" "node \<notin> set xs"
  shows "klist (list_add node head h) head (node # xs)"
  using ring_cons [OF assms] by (simp add: klist_ops_defs)

lemma list_add_other:
  assumes "klist h head xs" "insert head (insert node (set xs)) \<inter> insert g (set ys) = {}"
  shows "klist (list_add node head h) g ys \<longleftrightarrow> klist h g ys"
  by (rule ring_cong)
    (use ring_links_mem(1) [OF assms(1), of head] assms(2) in \<open>auto simp: klist_ops_defs\<close>)

lemma list_empty_iff: "klist h head xs \<Longrightarrow> list_empty head h \<longleftrightarrow> xs = []"
  by (cases xs) (auto simp: list_empty_def ring_def)

lemma list_is_singular_iff:
  assumes "klist h head xs"
  shows "list_is_singular head h \<longleftrightarrow> length xs = 1"
proof (cases xs)
  case Nil
  with assms show ?thesis by (simp add: list_is_singular_def list_empty_iff)
next
  case (Cons x ys)
  with assms have "distinct (x # ys)" by (simp add: ring_def)
  then have "last (x # ys) = x \<longleftrightarrow> ys = []" by (cases ys rule: rev_cases) auto
  with assms Cons show ?thesis
    by (auto simp: list_is_singular_def list_empty_iff ring_prev_head ring_next_head)
qed

lemma list_first_last_entry:
  assumes "klist h head xs" "xs \<noteq> []"
  shows "list_first_entry head h = hd xs" "list_last_entry head h = last xs"
  using assms by (simp_all add: list_first_entry_def list_last_entry_def ring_next_head ring_prev_head)

lemma list_del_init_klist:
  assumes "klist h head (xs @ node # ys)"
  shows "klist (list_del_init node h) head (xs @ ys)" "klist (list_del_init node h) node []"
proof -
  have "klist (list_del node h) head (xs @ ys)" using assms by (rule kl.unlink_ring)
  moreover have "node \<noteq> head" "node \<notin> set (xs @ ys)" using assms by (auto simp: ring_def)
  ultimately show "klist (list_del_init node h) head (xs @ ys)"
    by (simp add: list_del_init_def kl.init_other)
  show "klist (list_del_init node h) node []"
    by (simp add: list_del_init_def kl.init_ring)
qed

text \<open>Moving a node between two lists, or to the front or back of its own list.\<close>

lemma list_move_between:
  assumes src: "klist h g (xs @ node # ys)" and dst: "klist h head zs"
    and disj: "insert g (set (xs @ node # ys)) \<inter> insert head (set zs) = {}"
  shows "klist (list_move node head h) head (node # zs)"
    and "klist (list_move node head h) g (xs @ ys)"
    and "klist (list_move_tail node head h) head (zs @ [node])"
    and "klist (list_move_tail node head h) g (xs @ ys)"
proof -
  let ?h = "list_del node h"
  have d: "klist ?h head zs"
    using kl.unlink_other [OF src _ disj] dst by simp
  have g: "klist ?h g (xs @ ys)" using src by (rule kl.unlink_ring)
  have n: "node \<noteq> head" "node \<notin> set zs" "node \<notin> insert g (set (xs @ ys))"
    using src disj by (auto simp: ring_def)
  have dj: "insert head (insert node (set zs)) \<inter> insert g (set (xs @ ys)) = {}"
    using n(3) disj by auto
  show "klist (list_move node head h) head (node # zs)"
    unfolding list_move_def by (rule list_add_klist [OF d n(1,2)])
  show "klist (list_move node head h) g (xs @ ys)"
    unfolding list_move_def using list_add_other [OF d dj] g by simp
  show "klist (list_move_tail node head h) head (zs @ [node])"
    unfolding list_move_tail_def by (rule kl.push_ring [OF d n(1,2)])
  show "klist (list_move_tail node head h) g (xs @ ys)"
    unfolding list_move_tail_def using kl.push_other [OF d n(1,2) dj] g by simp
qed

lemma list_move_within:
  assumes "klist h head (xs @ node # ys)"
  shows "klist (list_move node head h) head (node # xs @ ys)"
    and "klist (list_move_tail node head h) head (xs @ ys @ [node])"
proof -
  have d: "klist (list_del node h) head (xs @ ys)" using assms by (rule kl.unlink_ring)
  have n: "node \<noteq> head" "node \<notin> set (xs @ ys)" using assms by (auto simp: ring_def)
  show "klist (list_move node head h) head (node # xs @ ys)"
    unfolding list_move_def using list_add_klist [OF d n] by simp
  show "klist (list_move_tail node head h) head (xs @ ys @ [node])"
    unfolding list_move_tail_def using kl.push_ring [OF d n] by simp
qed

text \<open>Joining two chains end to end, the core of both splices and of the cut.\<close>

lemma chain_snoc_iff:
  "chain nx pv a (xs @ [z]) b \<longleftrightarrow> chain nx pv a xs z \<and> nx z = b \<and> pv b = z"
  by (induction xs arbitrary: a) auto

lemma list_splice_klist:
  assumes l: "klist h l ys" and r: "klist h head xs"
    and disj: "insert l (set ys) \<inter> insert head (set xs) = {}"
  shows "klist (list_splice l head h) head (ys @ xs)"
proof (cases ys)
  case Nil
  with l r show ?thesis by (simp add: list_splice_def list_empty_iff Let_def)
next
  case (Cons y zs)
  note ne = list_empty_iff [OF l]
  show ?thesis
  proof (cases zs rule: rev_cases)
    case Nil
    with l r disj Cons ne show ?thesis
      by (cases xs) (auto simp: klist_ops_defs ring_def)
  next
    case (snoc ws w)
    with l r disj Cons ne show ?thesis
      by (cases xs) (auto simp: klist_ops_defs ring_def)
  qed
qed

lemma list_splice_tail_klist:
  assumes l: "klist h l ys" and r: "klist h head xs"
    and disj: "insert l (set ys) \<inter> insert head (set xs) = {}"
  shows "klist (list_splice_tail l head h) head (xs @ ys)"
proof (cases ys)
  case Nil
  with l r show ?thesis by (simp add: list_splice_tail_def list_empty_iff Let_def)
next
  case (Cons y zs)
  note ne = list_empty_iff [OF l]
  show ?thesis
  proof (cases zs rule: rev_cases)
    case Nil
    with l r disj Cons ne show ?thesis
      by (cases xs rule: rev_cases) (auto simp: klist_ops_defs ring_def)
  next
    case (snoc ws w)
    with l r disj Cons ne show ?thesis
      by (cases xs rule: rev_cases) (auto simp: klist_ops_defs ring_def)
  qed
qed

lemma list_splice_init_klist:
  assumes "klist h l ys" "klist h head xs" "insert l (set ys) \<inter> insert head (set xs) = {}"
  shows "klist (list_splice_init l head h) head (ys @ xs)" "klist (list_splice_init l head h) l []"
    and "klist (list_splice_tail_init l head h) head (xs @ ys)"
    and "klist (list_splice_tail_init l head h) l []"
proof -
  have "l \<noteq> head" "l \<notin> set (ys @ xs)" using assms by (auto simp: ring_def)
  then show "klist (list_splice_init l head h) head (ys @ xs)"
    and "klist (list_splice_tail_init l head h) head (xs @ ys)"
    using list_splice_klist [OF assms] list_splice_tail_klist [OF assms]
    by (auto simp: list_splice_init_def list_splice_tail_init_def kl.init_other)
qed (simp_all add: list_splice_init_def list_splice_tail_init_def kl.init_ring)

lemma list_cut_position_links:
  assumes "\<not> list_empty head_from h" "head_from \<noteq> node" "head_to \<noteq> head_from" "head_to \<noteq> node"
  shows "lnext (list_cut_position head_to head_from node h) =
      (lnext h)(head_from := lnext h node, node := head_to, head_to := lnext h head_from)"
    and "lprev (list_cut_position head_to head_from node h) =
      (lprev h)(lnext h node := head_from, head_to := node, lnext h head_from := head_to)"
  using assms by (simp_all add: list_cut_position_def set_prev_def set_next_def Let_def)

lemma list_cut_position_klist:
  assumes r: "klist h head_from (xs @ node # ys)"
    and t: "head_to \<notin> insert head_from (set (xs @ node # ys))"
  shows "klist (list_cut_position head_to head_from node h) head_to (xs @ [node])"
    and "klist (list_cut_position head_to head_from node h) head_from ys"
proof -
  let ?f = "lnext h head_from" and ?l = "lnext h node"
  have d: "distinct (head_to # head_from # xs @ node # ys)"
    and c: "chain (lnext h) (lprev h) head_from xs node" "chain (lnext h) (lprev h) node ys head_from"
    using r t by (auto simp: ring_def)
  have l: "?l = (if ys = [] then head_from else hd ys)" using c(2) by (cases ys) auto
  have f: "?f = hd (xs @ [node])" using c(1) by (cases xs) auto
  have links: "lnext (list_cut_position head_to head_from node h) =
      (lnext h)(head_from := ?l, node := head_to, head_to := ?f)"
    "lprev (list_cut_position head_to head_from node h) =
      (lprev h)(?l := head_from, head_to := node, ?f := head_to)"
    using d by (intro list_cut_position_links; auto simp: list_empty_iff [OF r])+
  show "klist (list_cut_position head_to head_from node h) head_to (xs @ [node])"
    unfolding links l f using c(1) d by (cases xs; cases ys) (auto simp: ring_def chain_snoc_iff)
  show "klist (list_cut_position head_to head_from node h) head_from ys"
    unfolding links l f using c(2) d by (cases xs; cases ys) (auto simp: ring_def)
qed

text \<open>
  The safe iteration runs the body once on every node, in list order, and
  returns, provided some invariant \<open>P\<close> of the nodes still to come holds at the
  start, tells where their \<open>next\<close> fields point, and is kept by the body (which
  may unlink or free the node it is given).
\<close>

lemma list_for_each_safe_from_run:
  assumes "P (x # xs) s"
    and P: "\<And>y ys t. P (y # ys) t \<Longrightarrow> y \<noteq> head \<and> lnext (lk t) y = hd (ys @ [head]) \<and> P ys (body y t)"
  shows "list_for_each_safe_from lk body head x (lnext (lk s) x) s = Some (fold body (x # xs) s)"
  using assms(1)
proof (induction xs arbitrary: x s)
  case Nil
  then show ?case
    using P [of x "[]" s] by (simp add: list_for_each_safe_from.simps [of lk body head x]
        list_for_each_safe_from.simps [of lk body head head])
next
  case (Cons z zs)
  have "lnext (lk s) x = z" "x \<noteq> head" "P (z # zs) (body x s)" using P [OF Cons.prems] by simp_all
  with Cons.IH [of z "body x s"] show ?case
    by (simp add: list_for_each_safe_from.simps [of lk body head x])
qed

lemma list_for_each_entry_safe_run:
  assumes "P xs s" "lnext (lk s) head = hd (xs @ [head])"
    and P: "\<And>y ys t. P (y # ys) t \<Longrightarrow> y \<noteq> head \<and> lnext (lk t) y = hd (ys @ [head]) \<and> P ys (body y t)"
  shows "list_for_each_entry_safe lk body head s = Some (fold body xs s)"
proof (cases xs)
  case Nil
  with assms(2) show ?thesis
    by (simp add: list_for_each_entry_safe_def list_for_each_safe_from.simps)
next
  case (Cons x ys)
  with list_for_each_safe_from_run [of P x ys s head lk body] assms show ?thesis
    by (simp add: list_for_each_entry_safe_def)
qed

section \<open>Properties\<close>

text \<open>Three nodes and two heads, for concrete lists: node 0 heads \<open>[1, 2]\<close>, node 5 is an empty list.\<close>

definition sample_links :: "nat links" where
  "sample_links = list_add_tail 2 0 (list_add_tail 1 0 (INIT_LIST_HEAD 5 (INIT_LIST_HEAD 0
     \<lparr>lprev = (\<lambda>x. x), lnext = (\<lambda>x. x)\<rparr>)))"

lemma sample_links_klist: "klist sample_links 0 [1, 2]" "klist sample_links 5 []"
  by (simp_all add: sample_links_def ring_def klist_ops_defs)

text \<open>Inserting at either end of a list puts the node exactly there
  and no other list that shares no node with it changes.\<close>

theorem list_add_both_ends:
  assumes "klist h head xs" "node \<noteq> head" "node \<notin> set xs"
    and "klist h g ys" "insert head (insert node (set xs)) \<inter> insert g (set ys) = {}"
  shows "klist (list_add node head h) head (node # xs) \<and> klist (list_add node head h) g ys \<and>
    klist (list_add_tail node head h) head (xs @ [node]) \<and> klist (list_add_tail node head h) g ys"
  using list_add_klist [OF assms(1-3)] list_add_other [OF assms(1,5)] kl.push_ring [OF assms(1-3)]
    kl.push_other [OF assms(1-3,5)] assms(4) by simp

theorem list_add_both_ends_witness:
  "klist (list_add 3 0 sample_links) 0 [3, 1, 2] \<and> klist (list_add_tail 3 0 sample_links) 0 [1, 2, 3] \<and>
   klist (list_add 3 0 sample_links) 5 []"
  using list_add_both_ends [OF sample_links_klist(1) _ _ sample_links_klist(2), of 3] by simp

text \<open>C6: cutting a list at one of its nodes and splicing the cut part
  back to the front restores the list; in between the two lists are exactly the
  part up to the node and the rest.\<close>

theorem list_cut_splice:
  assumes "klist h from (xs @ node # ys)" "to \<notin> insert from (set (xs @ node # ys))"
  shows "klist (list_cut_position to from node h) to (xs @ [node]) \<and>
    klist (list_cut_position to from node h) from ys \<and>
    klist (list_splice_init to from (list_cut_position to from node h)) from (xs @ node # ys) \<and>
    klist (list_splice_init to from (list_cut_position to from node h)) to []"
proof -
  note cut = list_cut_position_klist [OF assms]
  have "distinct (from # xs @ node # ys)" using assms(1) by (simp add: ring_def)
  with assms(2) have "insert to (set (xs @ [node])) \<inter> insert from (set ys) = {}" by auto
  from list_splice_init_klist(1,2) [OF cut this] cut show ?thesis by simp
qed

theorem list_cut_splice_witness:
  "klist (list_cut_position 5 0 1 sample_links) 5 [1] \<and>
   klist (list_splice_init 5 0 (list_cut_position 5 0 1 sample_links)) 0 [1, 2]"
  using list_cut_splice [of sample_links 0 "[]" 1 "[2]" 5] sample_links_klist(1) by simp

text \<open>Deleting every node while iterating with
  \<open>list_for_each_entry_safe\<close> visits all of them, returns, and leaves an empty
  list.\<close>

theorem list_for_each_entry_safe_delete:
  assumes "klist h head xs"
  shows "\<exists>h'. list_for_each_entry_safe (\<lambda>s. s) list_del_init head h = Some h' \<and> klist h' head []"
proof -
  have step: "y \<noteq> head \<and> lnext t y = hd (ys @ [head]) \<and> klist (list_del_init y t) head ys"
    if "klist t head (y # ys)" for y ys t
    using that list_del_init_klist(1) [of t head "[]" y ys] by (cases ys) (auto simp: ring_def)
  have "klist (fold list_del_init xs h) head []"
    using assms step by (induction xs arbitrary: h) auto
  moreover have "list_for_each_entry_safe (\<lambda>s. s) list_del_init head h = Some (fold list_del_init xs h)"
    using assms step ring_next_head [OF assms]
    by (intro list_for_each_entry_safe_run [where P = "\<lambda>xs t. klist t head xs"]) (auto simp: hd_append)
  ultimately show ?thesis by blast
qed

theorem list_for_each_entry_safe_delete_witness:
  "\<exists>h'. list_for_each_entry_safe (\<lambda>s. s) list_del_init 0 sample_links = Some h' \<and> klist h' 0 []"
  by (rule list_for_each_entry_safe_delete [OF sample_links_klist(1)])

end
