(* ===== verification/Ringbuf.thy ===== *)
theory Ringbuf
  imports Prelude
begin

text \<open>
  The single-producer single-consumer ring buffer of \<open>producer/producer.c\<close>.
  The body \<open>buf\<close> is the list of its bytes; a pointer into it is an offset, NULL
  is \<open>None\<close>.  Each element is an 8-byte header (a 32-bit size and a 32-bit gap
  flag, little-endian) followed by the padded payload.  A failing \<open>assert\<close> and
  an access outside the body are the result \<open>None\<close>.
\<close>

section \<open>State and operations\<close>

datatype memory_order = Relaxed | Acquire | Release

record ringbuf =
  rb_size :: nat
  rb_mask :: nat
  rsvd :: nat
  gapd :: nat
  rb_acquire :: memory_order
  rb_release :: memory_order
  rb_head :: nat
  rb_tail :: nat
  rb_buf :: "u8 list"

definition RINGBUF_PAD :: "nat \<Rightarrow> nat" where
  "RINGBUF_PAD n = size_add n 7 AND 4294967288"

text \<open>\<open>sizeof(ringbuf_element_t)\<close> and \<open>sizeof(ringbuf_t)\<close>.\<close>

definition ELEM :: nat where "ELEM = 8"
definition sizeof_ringbuf_t :: nat where "sizeof_ringbuf_t = 56"

text \<open>Writing an element header at an offset, and reading its two fields.\<close>

definition put_element :: "nat \<Rightarrow> nat \<Rightarrow> nat \<Rightarrow> u8 list \<Rightarrow> u8 list option" where
  "put_element off sz gap b =
     (case mem_store off (le_bytes 4 sz) b of
        None \<Rightarrow> None
      | Some b' \<Rightarrow> mem_store (off + 4) (le_bytes 4 gap) b')"

definition element_size :: "nat \<Rightarrow> u8 list \<Rightarrow> nat option" where
  "element_size off b = map_option le_val (mem_load off 4 b)"

definition element_gap :: "nat \<Rightarrow> u8 list \<Rightarrow> nat option" where
  "element_gap off b = map_option le_val (mem_load (off + 4) 4 b)"

partial_function (option) body_size_loop :: "nat \<Rightarrow> nat \<Rightarrow> nat option" where
  "body_size_loop minimum sz =
     (if sz < minimum then body_size_loop minimum (size_mul sz 2) else Some sz)"

declare body_size_loop.simps [code]

definition ringbuf_body_size :: "nat \<Rightarrow> nat option" where
  "ringbuf_body_size minimum = body_size_loop minimum 1"

definition ringbuf_init :: "nat \<Rightarrow> bool \<Rightarrow> ringbuf \<Rightarrow> ringbuf" where
  "ringbuf_init body_size release_and_acquire rb =
     rb\<lparr>rb_acquire := (if release_and_acquire then Acquire else Relaxed),
        rb_release := (if release_and_acquire then Release else Relaxed),
        rb_head := 0, rb_tail := 0,
        rb_size := body_size, rb_mask := size_sub body_size 1\<rparr>"

text \<open>
  \<open>posix_memalign\<close> is a parameter: the block it returns for a given total size,
  with whatever it holds, or \<open>None\<close> when it fails.  The outer \<open>None\<close> is a
  \<open>ringbuf_body_size\<close> that does not return.
\<close>

definition ringbuf_new :: "(nat \<Rightarrow> ringbuf option) \<Rightarrow> nat \<Rightarrow> bool \<Rightarrow> ringbuf option option" where
  "ringbuf_new memalign minimum release_and_acquire =
     (case ringbuf_body_size minimum of
        None \<Rightarrow> None
      | Some body_size \<Rightarrow>
          (let total_size = size_add sizeof_ringbuf_t body_size
           in case memalign total_size of
                None \<Rightarrow> Some None
              | Some rb \<Rightarrow> Some (Some (ringbuf_init body_size release_and_acquire rb))))"

definition write_advance_raw :: "nat \<Rightarrow> nat \<Rightarrow> ringbuf \<Rightarrow> ringbuf" where
  "write_advance_raw head written rb = rb\<lparr>rb_head := size_add head written AND rb_mask rb\<rparr>"

definition ringbuf_write_request_max :: "nat \<Rightarrow> ringbuf \<Rightarrow> (nat option \<times> nat) \<times> ringbuf" where
  "ringbuf_write_request_max minimum rb =
     (let head = rb_head rb;
          tail = rb_tail rb;
          padded = size_add (2 * ELEM) (RINGBUF_PAD minimum);
          space = (if head > tail
                   then size_sub (size_add (size_sub tail head) (rb_size rb) AND rb_mask rb) 1
                   else if head < tail then size_sub (size_sub tail head) 1
                   else size_sub (rb_size rb) 1);
          end = size_add head space
      in if end > rb_size rb
         then let len1 = size_sub (rb_size rb) head
              in if len1 < padded
                 then let len2 = end AND rb_mask rb
                      in if len2 < padded
                         then ((None, 0), rb\<lparr>rsvd := 0, gapd := 0\<rparr>)
                         else ((Some ELEM, len2), rb\<lparr>rsvd := len2, gapd := len1\<rparr>)
                 else ((Some (head + ELEM), len1), rb\<lparr>rsvd := len1, gapd := 0\<rparr>)
         else if space < padded
         then ((None, 0), rb\<lparr>rsvd := 0, gapd := 0\<rparr>)
         else ((Some (head + ELEM), space), rb\<lparr>rsvd := space, gapd := 0\<rparr>))"

definition ringbuf_write_request :: "nat \<Rightarrow> ringbuf \<Rightarrow> nat option \<times> ringbuf" where
  "ringbuf_write_request minimum rb =
     (case ringbuf_write_request_max minimum rb of ((p, _), rb') \<Rightarrow> (p, rb'))"

definition ringbuf_write_advance :: "nat \<Rightarrow> ringbuf \<Rightarrow> ringbuf option" where
  "ringbuf_write_advance written rb =
     (if \<not> written \<le> rsvd rb then None
      else let head = rb_head rb;
               headers = (if gapd rb > 0
                          then case put_element head (size_sub (gapd rb) ELEM) 1 (rb_buf rb) of
                                 None \<Rightarrow> None
                               | Some b \<Rightarrow> put_element 0 written 0 b
                          else put_element head written 0 (rb_buf rb))
           in case headers of
                None \<Rightarrow> None
              | Some b \<Rightarrow>
                  Some (write_advance_raw head
                    (size_add (size_add (gapd rb) ELEM) (RINGBUF_PAD written)) (rb\<lparr>rb_buf := b\<rparr>)))"

definition read_advance_raw :: "nat \<Rightarrow> nat \<Rightarrow> ringbuf \<Rightarrow> ringbuf" where
  "read_advance_raw tail read rb = rb\<lparr>rb_tail := size_add tail read AND rb_mask rb\<rparr>"

text \<open>The result pairs the returned pointer with \<open>*toread\<close>.\<close>

definition ringbuf_read_request :: "ringbuf \<Rightarrow> ((nat option \<times> nat) \<times> ringbuf) option" where
  "ringbuf_read_request rb =
     (let tail = rb_tail rb;
          head = rb_head rb;
          space = (if head > tail then size_sub head tail
                   else size_add (size_sub head tail) (rb_size rb) AND rb_mask rb)
      in if space > 0
         then let end = size_add tail space
              in if end > rb_size rb
                 then let len1 = size_sub (rb_size rb) tail
                      in case element_gap tail (rb_buf rb) of
                           None \<Rightarrow> None
                         | Some gap \<Rightarrow>
                             if gap \<noteq> 0
                             then let rb' = read_advance_raw tail len1 rb
                                  in map_option (\<lambda>n. ((Some ELEM, n), rb')) (element_size 0 (rb_buf rb'))
                             else map_option (\<lambda>n. ((Some (tail + ELEM), n), rb)) (element_size tail (rb_buf rb))
                 else map_option (\<lambda>n. ((Some (tail + ELEM), n), rb)) (element_size tail (rb_buf rb))
         else Some ((None, 0), rb))"

definition ringbuf_read_advance :: "ringbuf \<Rightarrow> ringbuf option" where
  "ringbuf_read_advance rb =
     (let tail = rb_tail rb
      in map_option (\<lambda>n. read_advance_raw tail (size_add ELEM (RINGBUF_PAD n)) rb)
           (element_size tail (rb_buf rb)))"

section \<open>Padding and headers\<close>

lemma RINGBUF_PAD_mult:
  assumes "n + 7 < 2 ^ 32"
  shows "RINGBUF_PAD n = (n + 7) div 8 * 8"
proof -
  have m: "(4294967288::nat) = push_bit 3 (mask 29)" by (simp add: push_bit_eq_mult mask_eq_exp_minus_1)
  have "(n + 7) AND 4294967288 = push_bit 3 (drop_bit 3 (n + 7) AND mask 29)"
    unfolding m by (rule bit_eqI) (auto simp: bit_simps)
  also have "drop_bit 3 (n + 7) AND mask 29 = take_bit 29 (drop_bit 3 (n + 7))"
    by (simp add: take_bit_eq_mask)
  also have "\<dots> = (n + 7) div 8"
  proof -
    have "(n + 7) div 8 < 2 ^ 29" using assms by (simp add: less_mult_imp_div_less)
    then show ?thesis by (simp add: drop_bit_eq_div take_bit_nat_eq_self)
  qed
  finally have "(n + 7) AND 4294967288 = (n + 7) div 8 * 8" by (simp add: push_bit_eq_mult)
  moreover have "size_add n 7 = n + 7" using assms by (intro size_add_id) (simp add: SIZE_MOD_def)
  ultimately show ?thesis by (simp add: RINGBUF_PAD_def)
qed

lemma RINGBUF_PAD_bounds:
  assumes "n + 7 < 2 ^ 32"
  shows "n \<le> RINGBUF_PAD n" "RINGBUF_PAD n < n + 8" "8 dvd RINGBUF_PAD n"
  using RINGBUF_PAD_mult [OF assms] by auto

lemma put_element_some:
  assumes "off + 8 \<le> length b"
  shows "put_element off sz gap b = Some (blit off (le_bytes 4 sz @ le_bytes 4 gap) b)"
proof -
  have "put_element off sz gap b = Some (blit (off + 4) (le_bytes 4 gap) (blit off (le_bytes 4 sz) b))"
    using assms by (simp add: put_element_def mem_store_def)
  also have "blit (off + 4) (le_bytes 4 gap) (blit off (le_bytes 4 sz) b) =
      blit off (le_bytes 4 sz @ le_bytes 4 gap) b"
    using assms by (intro nth_equalityI) (auto simp: nth_blit nth_append)
  finally show ?thesis .
qed

lemma put_element_none: "\<not> off + 8 \<le> length b \<Longrightarrow> put_element off sz gap b = None"
  by (simp add: put_element_def mem_store_def)

section \<open>Well-formed buffers\<close>

definition rb_valid :: "ringbuf \<Rightarrow> bool" where
  "rb_valid rb \<longleftrightarrow> (\<exists>k. 3 \<le> k \<and> k \<le> 31 \<and> rb_size rb = 2 ^ k) \<and> rb_mask rb = rb_size rb - 1 \<and>
     length (rb_buf rb) = rb_size rb \<and> 8 dvd rb_head rb \<and> 8 dvd rb_tail rb \<and>
     rb_head rb + 8 \<le> rb_size rb \<and> rb_tail rb + 8 \<le> rb_size rb"

lemma rb_validD:
  assumes "rb_valid rb"
  shows "8 \<le> rb_size rb" "rb_size rb \<le> 2 ^ 31" "8 dvd rb_size rb" "length (rb_buf rb) = rb_size rb"
    "8 dvd rb_head rb" "8 dvd rb_tail rb" "rb_head rb + 8 \<le> rb_size rb" "rb_tail rb + 8 \<le> rb_size rb"
    "x AND rb_mask rb = x mod rb_size rb"
proof -
  obtain k where k: "3 \<le> k" "k \<le> 31" "rb_size rb = 2 ^ k" "rb_mask rb = 2 ^ k - 1"
    using assms by (auto simp: rb_valid_def)
  have "(2::nat) ^ 3 dvd 2 ^ k" using k(1) by (rule le_imp_power_dvd)
  then show "8 dvd rb_size rb" using k by simp
  have "(2::nat) ^ 3 \<le> 2 ^ k" using k(1) by (rule power_increasing) simp
  moreover have "(2::nat) ^ k \<le> 2 ^ 31" using k(2) by (rule power_increasing) simp
  ultimately show "8 \<le> rb_size rb" "rb_size rb \<le> 2 ^ 31" using k(3) by simp_all
  show "x AND rb_mask rb = x mod rb_size rb" unfolding k(3,4) by (rule and_mask_mod)
qed (use assms in \<open>auto simp: rb_valid_def\<close>)

text \<open>The space computation of a write request, with the modular arithmetic resolved.\<close>

lemma write_request_eq:
  fixes minimum rb
  defines "padded \<equiv> 16 + RINGBUF_PAD minimum" and "h \<equiv> rb_head rb" and "t \<equiv> rb_tail rb" and "N \<equiv> rb_size rb"
  assumes v: "rb_valid rb" and m: "minimum + 7 < 2 ^ 32"
  shows "ringbuf_write_request_max minimum rb =
    (let fail = ((None, 0), rb\<lparr>rsvd := 0, gapd := 0\<rparr>);
         here = (\<lambda>n. ((Some (h + 8), n), rb\<lparr>rsvd := n, gapd := 0\<rparr>))
     in if h < t then if t - h - 1 < padded then fail else here (t - h - 1)
        else if t = 0 then if N - h - 1 < padded then fail else here (N - h - 1)
        else if padded \<le> N - h then here (N - h)
        else if t - 1 < padded then fail
        else ((Some 8, t - 1), rb\<lparr>rsvd := t - 1, gapd := N - h\<rparr>))"
proof -
  note D = rb_validD [OF v, folded h_def t_def N_def]
  have big: "N + 2 ^ 33 < SIZE_MOD" using D(2) by (simp add: SIZE_MOD_def)
  have pad: "size_add (2 * ELEM) (RINGBUF_PAD minimum) = padded"
    using RINGBUF_PAD_bounds(2) [OF m] m by (simp add: padded_def ELEM_def size_add_def SIZE_MOD_def)
  have sub1: "size_sub x 1 = x - 1" if "0 < x" "x \<le> N" for x
    using that big by (intro size_sub_id) auto
  have add: "size_add x y = x + y" if "x \<le> N" "y \<le> N" for x y
    using that big D(2) by (intro size_add_id) (auto simp: SIZE_MOD_def)
  have len1: "size_sub N h = N - h" using D(7) big by (intro size_sub_id) auto
  have wrap: "size_add (size_sub t h) N mod N = N - (h - t)" if "t < h"
  proof -
    have "size_add (size_sub t h) N = t + N - h" using that D big by (intro size_add_sub) auto
    then show ?thesis using that D(7) by simp
  qed
  have len2: "(N + t - 1) mod N = t - 1" if "t \<noteq> 0"
  proof -
    have "(N + t - 1) mod N = (t - 1 + N) mod N" using that by (intro arg_cong2 [where f = "(mod)"]) simp_all
    also have "\<dots> = t - 1" using D(8) by simp
    finally show ?thesis .
  qed
  have t1: "1 < t" if "t \<noteq> 0" using that D(6) by (auto elim: dvdE)
  let ?space = "if t < h then size_sub (size_add (size_sub t h) N mod N) 1
    else if h < t then size_sub (size_sub t h) 1 else size_sub N 1"
  have space: "?space = (if h < t then t - h - 1 else N - (h - t) - 1)"
  proof -
    consider "t < h" | "h < t" | "h = t" by linarith
    then show ?thesis
    proof cases
      case 1
      then show ?thesis using wrap [OF 1] sub1 [of "N - (h - t)"] D(7) by simp
    next
      case 2
      then have "size_sub t h = t - h" using D big by (intro size_sub_id) auto
      then show ?thesis using 2 sub1 [of "t - h"] D(8) by simp
    next
      case 3
      then show ?thesis using sub1 [of N] D(1) by simp
    qed
  qed
  have "?space \<le> N" unfolding space using D by auto
  then have fin: "size_add h ?space = (if h < t then t - 1 else N + t - 1)"
    using add [of h ?space] D(7) unfolding space by auto
  show ?thesis
    unfolding ringbuf_write_request_max_def Let_def pad D(9) h_def [symmetric] t_def [symmetric] N_def [symmetric]
    unfolding fin unfolding space len1
    using len2 t1 D by (auto simp: ELEM_def)
qed

section \<open>Messages in the buffer\<close>

text \<open>
  \<open>elem_at b pos d\<close>: the message \<open>d\<close> with its header lies at \<open>pos\<close>, with room
  for another header behind it.  \<open>lin b a q e\<close>: from \<open>a\<close> to \<open>e\<close> lie exactly the
  messages \<open>q\<close>.  The buffer either holds one such run from tail to head, or a
  run that ends in a gap element followed by a run from the start to the head.
\<close>

abbreviation footprint :: "u8 list \<Rightarrow> nat" where
  "footprint d \<equiv> 8 + RINGBUF_PAD (length d)"

definition elem_at :: "u8 list \<Rightarrow> nat \<Rightarrow> u8 list \<Rightarrow> bool" where
  "elem_at b pos d \<longleftrightarrow> pos + footprint d + 8 \<le> length b \<and> length d + 7 < 2 ^ 32 \<and>
     slice pos 8 b = le_bytes 4 (length d) @ le_bytes 4 0 \<and> slice (pos + 8) (length d) b = d"

definition gap_at :: "u8 list \<Rightarrow> nat \<Rightarrow> bool" where
  "gap_at b pos \<longleftrightarrow> pos + 8 \<le> length b \<and> slice (pos + 4) 4 b = le_bytes 4 1"

fun lin :: "u8 list \<Rightarrow> nat \<Rightarrow> u8 list list \<Rightarrow> nat \<Rightarrow> bool" where
  "lin b a [] e \<longleftrightarrow> a = e"
| "lin b a (d # q) e \<longleftrightarrow> elem_at b a d \<and> lin b (a + footprint d) q e"

definition rb_rep :: "ringbuf \<Rightarrow> u8 list list \<Rightarrow> bool" where
  "rb_rep rb q \<longleftrightarrow> rb_valid rb \<and>
     (rb_tail rb \<le> rb_head rb \<and> lin (rb_buf rb) (rb_tail rb) q (rb_head rb) \<or>
      rb_head rb < rb_tail rb \<and> (\<exists>q1 q2 g. q = q1 @ q2 \<and> q2 \<noteq> [] \<and> lin (rb_buf rb) (rb_tail rb) q1 g \<and>
        gap_at (rb_buf rb) g \<and> lin (rb_buf rb) 0 q2 (rb_head rb)))"

definition reserved :: "ringbuf \<Rightarrow> nat \<Rightarrow> bool" where
  "reserved rb base \<longleftrightarrow>
     (gapd rb = 0 \<and> base = rb_head rb \<and>
        (if rb_head rb < rb_tail rb then rb_head rb + rsvd rb < rb_tail rb
         else rb_head rb + rsvd rb \<le> rb_size rb)) \<or>
     (gapd rb = rb_size rb - rb_head rb \<and> base = 0 \<and> rb_tail rb \<le> rb_head rb \<and> rsvd rb < rb_tail rb)"

text \<open>Two buffers that agree on a range hold the same messages there.\<close>

definition agree :: "u8 list \<Rightarrow> u8 list \<Rightarrow> nat \<Rightarrow> nat \<Rightarrow> bool" where
  "agree b b' a e \<longleftrightarrow> length b' = length b \<and> (\<forall>i. a \<le> i \<and> i < e \<longrightarrow> b' ! i = b ! i)"

lemma agree_slice: "agree b b' a e \<Longrightarrow> a \<le> p \<Longrightarrow> p + n \<le> e \<Longrightarrow> p + n \<le> length b \<Longrightarrow> slice p n b' = slice p n b"
  by (intro nth_equalityI) (auto simp: agree_def nth_slice)

lemma agree_sub: "agree b b' a e \<Longrightarrow> a \<le> a' \<Longrightarrow> e' \<le> e \<Longrightarrow> agree b b' a' e'"
  by (auto simp: agree_def)

lemma agree_trans: "agree b b' a e \<Longrightarrow> agree b' b'' a e \<Longrightarrow> agree b b'' a e"
  by (auto simp: agree_def)

lemma agree_refl [simp]: "agree b b a e"
  by (simp add: agree_def)

lemma agree_blit:
  assumes "off + length ys \<le> length b" "e \<le> length b" "e \<le> off \<or> off + length ys \<le> a"
  shows "agree b (blit off ys b) a e"
  using assms by (auto simp: agree_def nth_blit)

lemma elem_at_agree:
  assumes "elem_at b p d" "agree b b' p (p + footprint d)"
  shows "elem_at b' p d"
proof -
  have "length d \<le> RINGBUF_PAD (length d)" using assms(1) by (intro RINGBUF_PAD_bounds) (simp add: elem_at_def)
  then have "slice p 8 b' = slice p 8 b" "slice (p + 8) (length d) b' = slice (p + 8) (length d) b"
    using assms(1) by (intro agree_slice [OF assms(2)]; simp add: elem_at_def)+
  then show ?thesis using assms by (simp add: elem_at_def agree_def)
qed

lemma gap_at_agree: "gap_at b p \<Longrightarrow> agree b b' p (p + 8) \<Longrightarrow> gap_at b' p"
  using agree_slice [of b b' p "p + 8" "p + 4" 4] by (simp add: gap_at_def agree_def)

lemma lin_le: "lin b a q e \<Longrightarrow> a \<le> e"
  by (induction q arbitrary: a) force+

lemma lin_agree: "lin b a q e \<Longrightarrow> agree b b' a e \<Longrightarrow> lin b' a q e"
proof (induction q arbitrary: a)
  case (Cons d q)
  have "a + footprint d \<le> e" using Cons.prems(1) lin_le [of b "a + footprint d" q e] by simp
  then show ?case using Cons elem_at_agree [of b a d b'] agree_sub [OF Cons.prems(2)] by auto
qed auto

lemma lin_snoc: "lin b a (q @ [d]) e \<longleftrightarrow> (\<exists>m. lin b a q m \<and> elem_at b m d \<and> e = m + footprint d)"
  by (induction q arbitrary: a) auto

lemma lin_fits: "lin b a q e \<Longrightarrow> q \<noteq> [] \<Longrightarrow> e + 8 \<le> length b"
proof (induction q arbitrary: a)
  case (Cons d q)
  show ?case
  proof (cases "q = []")
    case True
    with Cons.prems show ?thesis by (auto simp: elem_at_def)
  next
    case False
    with Cons.prems show ?thesis by (intro Cons.IH [of "a + footprint d"]) auto
  qed
qed simp

lemma elem_not_gap: "elem_at b p d \<Longrightarrow> \<not> gap_at b p"
proof
  assume e: "elem_at b p d" and g: "gap_at b p"
  have "slice p (4 + 4) b = slice p 4 b @ slice (p + 4) 4 b" by (rule slice_split)
  then have "slice p 4 b @ le_bytes 4 1 = le_bytes 4 (length d) @ le_bytes 4 0"
    using e g by (simp add: elem_at_def gap_at_def)
  then have "le_bytes 4 1 = le_bytes 4 0" using e by (subst (asm) append_eq_append_conv) (simp_all add: elem_at_def)
  then have "le_val (le_bytes 4 1) = le_val (le_bytes 4 0)" by simp
  then show False by simp
qed

lemma element_fields:
  assumes "elem_at b p d"
  shows "element_size p b = Some (length d)" "element_gap p b = Some 0"
proof -
  have "slice p (4 + 4) b = slice p 4 b @ slice (p + 4) 4 b" by (rule slice_split)
  then have "slice p 4 b @ slice (p + 4) 4 b = le_bytes 4 (length d) @ le_bytes 4 0"
    using assms by (simp add: elem_at_def)
  then have s: "slice p 4 b = le_bytes 4 (length d)" "slice (p + 4) 4 b = le_bytes 4 0"
    using assms by (subst (asm) append_eq_append_conv; simp add: elem_at_def)+
  have len: "p + 8 \<le> length b" "length d < 2 ^ 32" using assms by (auto simp: elem_at_def)
  show "element_size p b = Some (length d)"
    using len s by (simp add: element_size_def mem_load_def le_val_le_bytes)
  show "element_gap p b = Some 0"
    using len s by (simp add: element_gap_def mem_load_def le_val_le_bytes)
qed

lemma gap_field: "gap_at b p \<Longrightarrow> element_gap p b = Some 1"
  by (simp add: element_gap_def mem_load_def gap_at_def le_val_le_bytes)

end
