(* ===== verification/Channel.thy ===== *)
theory Channel
  imports Main
begin

text \<open>
  The contract of a bounded first-in first-out channel, shared by the two ring
  buffers of the repository.  \<open>rep s q\<close> says that channel state \<open>s\<close> holds the
  messages \<open>q\<close>, oldest first.  Sending appends the message or reports that there
  is no room, receiving takes the oldest one or reports that there is none.
\<close>

datatype 'm chan_op = Send 'm | Recv

fun chan_run ::
    "('m \<Rightarrow> 's \<Rightarrow> (bool \<times> 's) option) \<Rightarrow> ('s \<Rightarrow> ('m option \<times> 's) option) \<Rightarrow> 'm chan_op list \<Rightarrow>
     's \<Rightarrow> 'm list \<Rightarrow> 'm list \<Rightarrow> ('s \<times> 'm list \<times> 'm list) option" where
  "chan_run snd' rcv [] s sent got = Some (s, sent, got)"
| "chan_run snd' rcv (Send m # ops) s sent got =
     (case snd' m s of
        None \<Rightarrow> None
      | Some (ok, s') \<Rightarrow> chan_run snd' rcv ops s' (if ok then sent @ [m] else sent) got)"
| "chan_run snd' rcv (Recv # ops) s sent got =
     (case rcv s of
        None \<Rightarrow> None
      | Some (None, s') \<Rightarrow> chan_run snd' rcv ops s' sent got
      | Some (Some m, s') \<Rightarrow> chan_run snd' rcv ops s' sent (got @ [m]))"

locale channel =
  fixes rep :: "'s \<Rightarrow> 'm list \<Rightarrow> bool"
    and okmsg :: "'m \<Rightarrow> bool"
    and send :: "'m \<Rightarrow> 's \<Rightarrow> (bool \<times> 's) option"
    and recv :: "'s \<Rightarrow> ('m option \<times> 's) option"
  assumes send_step: "rep s q \<Longrightarrow> okmsg m \<Longrightarrow> \<exists>ok s'. send m s = Some (ok, s') \<and> rep s' (if ok then q @ [m] else q)"
    and recv_none: "rep s [] \<Longrightarrow> \<exists>s'. recv s = Some (None, s') \<and> rep s' []"
    and recv_some: "rep s (m # q) \<Longrightarrow> \<exists>s'. recv s = Some (Some m, s') \<and> rep s' q"
begin

text \<open>Nothing is lost, duplicated or reordered: what was sent is what was received, then what is still inside.\<close>

lemma fifo:
  assumes "rep s q" "sent = got @ q" "\<And>m. Send m \<in> set ops \<Longrightarrow> okmsg m"
  shows "\<exists>s' q' sent' got'. chan_run send recv ops s sent got = Some (s', sent', got') \<and>
    rep s' q' \<and> sent' = got' @ q'"
  using assms
proof (induction ops arbitrary: s q sent got)
  case (Cons oper ops)
  have ok: "\<And>m. Send m \<in> set ops \<Longrightarrow> okmsg m" using Cons.prems(3) by simp
  show ?case
  proof (cases oper)
    case (Send m)
    obtain b s' where s': "send m s = Some (b, s')" "rep s' (if b then q @ [m] else q)"
      using send_step [OF Cons.prems(1), of m] Cons.prems(3) Send by auto
    from Cons.IH [OF s'(2), of "if b then sent @ [m] else sent" got] ok Cons.prems(2)
    show ?thesis using Send s'(1) by (cases b) auto
  next
    case Recv
    show ?thesis
    proof (cases q)
      case Nil
      then obtain s' where "recv s = Some (None, s')" "rep s' []" using recv_none Cons.prems(1) by blast
      with Cons.IH [of s' "[]" sent got] ok Cons.prems(2) Nil Recv show ?thesis by auto
    next
      case (Cons m q')
      then obtain s' where "recv s = Some (Some m, s')" "rep s' q'"
        using recv_some \<open>rep s q\<close> by blast
      with Cons.IH [of s' q' sent "got @ [m]"] ok Cons.prems(2) Cons Recv show ?thesis by auto
    qed
  qed
qed auto

end

end
