(* ===== verification/Ringbuf_Spec.thy ===== *)
theory Ringbuf_Spec
  imports Ringbuf Channel
begin

text \<open>
  The ring buffer refines a queue of messages.  The lemmas are stated for one
  operation at a time but under the invariants that hold while the other thread
  is in the middle of its own operation: a reservation (\<open>reserved\<close>) stays valid
  while the consumer advances, and the message at the tail stays in place while
  the producer writes.
\<close>

section \<open>The producer's operations\<close>

lemma write_request_reserves:
  assumes v: "rb_valid rb" and m: "minimum + 7 < 2 ^ 32"
    and res: "ringbuf_write_request_max minimum rb = ((p, maximum), rb')"
  shows "case p of
      None \<Rightarrow> rb' = rb\<lparr>rsvd := 0, gapd := 0\<rparr>
    | Some ptr \<Rightarrow> \<exists>base g. ptr = base + 8 \<and> rb' = rb\<lparr>rsvd := maximum, gapd := g\<rparr> \<and> reserved rb' base \<and>
        16 + RINGBUF_PAD minimum \<le> maximum"
proof -
  note D = rb_validD [OF v]
  show ?thesis
    using res D(7,8) unfolding write_request_eq [OF v m] Let_def reserved_def
    by (auto split: if_splits)
qed

lemma write_request_succeeds:
  assumes v: "rb_valid rb" and e: "rb_head rb = rb_tail rb"
    and m: "minimum + 7 < 2 ^ 32" "2 * (16 + RINGBUF_PAD minimum) \<le> rb_size rb"
  shows "fst (fst (ringbuf_write_request_max minimum rb)) \<noteq> None"
proof -
  note D = rb_validD [OF v]
  show ?thesis using D(1,7) e m(2) unfolding write_request_eq [OF v m(1)] Let_def by auto
qed

lemma reserved_bounds:
  assumes "reserved rb base" "rb_valid rb" "16 + n \<le> rsvd rb"
  shows "base + 8 + n + 8 \<le> rb_size rb"
  using assms rb_validD(7,8) [OF assms(2)] by (auto simp: reserved_def split: if_splits)

text \<open>
  Bytes the producer may write while it holds a reservation: the reserved part
  and, when it will leave a gap, the rest of the buffer after the head.  The
  messages are outside of them.
\<close>

definition writable :: "ringbuf \<Rightarrow> nat \<Rightarrow> nat \<Rightarrow> bool" where
  "writable rb base i \<longleftrightarrow> base \<le> i \<and> i < base + rsvd rb \<or> 0 < gapd rb \<and> rb_head rb \<le> i"

definition untouched :: "ringbuf \<Rightarrow> nat \<Rightarrow> u8 list \<Rightarrow> bool" where
  "untouched rb base b' \<longleftrightarrow> length b' = length (rb_buf rb) \<and>
     (\<forall>i < length b'. \<not> writable rb base i \<longrightarrow> b' ! i = rb_buf rb ! i)"

lemma untouched_agree:
  assumes "untouched rb base b'" "reserved rb base" "rb_valid rb"
  shows "rb_tail rb \<le> rb_head rb \<Longrightarrow> agree (rb_buf rb) b' (rb_tail rb) (rb_head rb)"
    and "rb_head rb < rb_tail rb \<Longrightarrow> agree (rb_buf rb) b' 0 (rb_head rb)"
    and "rb_head rb < rb_tail rb \<Longrightarrow> agree (rb_buf rb) b' (rb_tail rb) (rb_size rb)"
  using assms rb_validD(4,7,8) [OF assms(3)]
  by (auto simp: untouched_def writable_def agree_def reserved_def split: if_splits)

lemma untouched_rep:
  assumes rep: "rb_rep rb q" and u: "untouched rb base b'" and r: "reserved rb base"
  shows "rb_rep (rb\<lparr>rb_buf := b'\<rparr>) q"
proof -
  have v: "rb_valid rb" using rep by (simp add: rb_rep_def)
  note ag = untouched_agree [OF u r v] and D = rb_validD [OF v]
  have v': "rb_valid (rb\<lparr>rb_buf := b'\<rparr>)" using v u by (simp add: rb_valid_def untouched_def)
  show ?thesis
  proof (cases "rb_tail rb \<le> rb_head rb")
    case True
    then show ?thesis using rep v' ag(1) lin_agree by (auto simp: rb_rep_def)
  next
    case False
    then obtain q1 q2 g where q: "q = q1 @ q2" "q2 \<noteq> []" "lin (rb_buf rb) (rb_tail rb) q1 g"
      "gap_at (rb_buf rb) g" "lin (rb_buf rb) 0 q2 (rb_head rb)" using rep by (auto simp: rb_rep_def)
    have g: "rb_tail rb \<le> g" "g + 8 \<le> rb_size rb" using lin_le [OF q(3)] q(4) D(4) by (auto simp: gap_at_def)
    have ag3: "agree (rb_buf rb) b' (rb_tail rb) (rb_size rb)" using ag(3) False by simp
    have "lin b' (rb_tail rb) q1 g" "gap_at b' g" "lin b' 0 q2 (rb_head rb)"
      using q False g ag(2) agree_sub [OF ag3, of "rb_tail rb" g] agree_sub [OF ag3, of g "g + 8"]
      by (auto intro: lin_agree gap_at_agree)
    then show ?thesis using q False v' by (auto simp: rb_rep_def)
  qed
qed

lemma untouched_first:
  assumes rep: "rb_rep rb (d # q)" and e: "elem_at (rb_buf rb) (rb_tail rb) d"
    and u: "untouched rb base b'" and r: "reserved rb base"
  shows "elem_at b' (rb_tail rb) d"
proof -
  have v: "rb_valid rb" using rep by (simp add: rb_rep_def)
  note ag = untouched_agree [OF u r v] and D = rb_validD [OF v]
  show ?thesis
  proof (cases "rb_tail rb \<le> rb_head rb")
    case True
    then have "lin (rb_buf rb) (rb_tail rb + footprint d) q (rb_head rb)"
      using rep by (auto simp: rb_rep_def)
    then have "rb_tail rb + footprint d \<le> rb_head rb" by (rule lin_le)
    then have "agree (rb_buf rb) b' (rb_tail rb) (rb_tail rb + footprint d)"
      by (intro agree_sub [OF ag(1) [OF True]]) auto
    then show ?thesis by (rule elem_at_agree [OF e])
  next
    case False
    have "rb_tail rb + footprint d \<le> rb_size rb" using e D(4) by (simp add: elem_at_def)
    moreover have "rb_head rb < rb_tail rb" using False by simp
    ultimately have "agree (rb_buf rb) b' (rb_tail rb) (rb_tail rb + footprint d)"
      by (intro agree_sub [OF ag(3)]) auto
    then show ?thesis by (rule elem_at_agree [OF e])
  qed
qed

lemma advance_rep:
  assumes rep: "rb_rep rb q" and r: "reserved rb base" and u: "untouched rb base b'"
    and e: "elem_at b' base d" and sz: "footprint d + 8 \<le> rsvd rb"
    and g: "0 < gapd rb \<Longrightarrow> gap_at b' (rb_head rb)"
  shows "rb_rep (rb\<lparr>rb_buf := b', rb_head := base + footprint d\<rparr>) (q @ [d])" (is "rb_rep ?rb _")
proof -
  have v: "rb_valid rb" using rep by (simp add: rb_rep_def)
  note D = rb_validD [OF v]
  have rep': "rb_rep (rb\<lparr>rb_buf := b'\<rparr>) q" using rep u r by (rule untouched_rep)
  have len: "length b' = rb_size rb" using u D(4) by (simp add: untouched_def)
  have d: "8 dvd footprint d" using e RINGBUF_PAD_bounds(3) [of "length d"] by (auto simp: elem_at_def)
  have fit: "base + footprint d + 8 \<le> rb_size rb" using e len by (simp add: elem_at_def)
  have b8: "8 dvd base" using r D(5) by (auto simp: reserved_def)
  have v': "rb_valid ?rb"
    using v len fit dvd_add [OF b8 d] by (simp add: rb_valid_def)
  consider (gap) "0 < gapd rb" "base = 0" "rb_tail rb \<le> rb_head rb" "rsvd rb < rb_tail rb"
    | (plain) "gapd rb = 0" "base = rb_head rb" "rb_tail rb \<le> rb_head rb"
    | (below) "gapd rb = 0" "base = rb_head rb" "rb_head rb < rb_tail rb" "rb_head rb + rsvd rb < rb_tail rb"
    using r D(7) by (force simp: reserved_def split: if_splits)
  then show ?thesis
  proof cases
    case gap
    have "lin b' (rb_tail rb) q (rb_head rb)" using rep' gap(3) by (auto simp: rb_rep_def)
    moreover have "lin b' 0 [d] (0 + footprint d)" using e gap(2) by simp
    ultimately show ?thesis using v' g gap sz unfolding rb_rep_def
      by (intro conjI disjI2 exI [of _ q] exI [of _ "[d]"] exI [of _ "rb_head rb"]) auto
  next
    case plain
    have "lin b' (rb_tail rb) q (rb_head rb)" using rep' plain(3) by (auto simp: rb_rep_def)
    then have "lin b' (rb_tail rb) (q @ [d]) (base + footprint d)" using e plain(2) by (auto simp: lin_snoc)
    then show ?thesis using v' plain by (simp add: rb_rep_def)
  next
    case below
    obtain q1 q2 x where q: "q = q1 @ q2" "q2 \<noteq> []" "lin b' (rb_tail rb) q1 x" "gap_at b' x"
      "lin b' 0 q2 (rb_head rb)" using rep' below(3) by (auto simp: rb_rep_def)
    have "lin b' 0 (q2 @ [d]) (base + footprint d)" using q(5) e below(2) by (auto simp: lin_snoc)
    then show ?thesis using v' q below sz unfolding rb_rep_def
      by (intro conjI disjI2 exI [of _ q1] exI [of _ "q2 @ [d]"] exI [of _ x]) auto
  qed
qed

lemma element_header:
  assumes "off + 8 \<le> length b" "length d + 7 < 2 ^ 32" "off + footprint d + 8 \<le> length b"
    "slice (off + 8) (length d) b = d"
  shows "elem_at (blit off (le_bytes 4 (length d) @ le_bytes 4 0) b) off d"
proof -
  let ?h = "le_bytes 4 (length d) @ le_bytes 4 0"
  have "slice off (length ?h) (blit off ?h b) = ?h" using assms(1) by (intro slice_blit_same) simp
  moreover have "slice (off + 8) (length d) (blit off ?h b) = slice (off + 8) (length d) b"
    using assms RINGBUF_PAD_bounds(1) [OF assms(2)] by (intro slice_blit_disjoint) auto
  ultimately show ?thesis using assms by (simp add: elem_at_def)
qed

lemma gap_header:
  assumes "off + 8 \<le> length b"
  shows "gap_at (blit off (le_bytes 4 n @ le_bytes 4 1) b) off"
proof -
  have "slice (off + 4) 4 (blit off (le_bytes 4 n @ le_bytes 4 1) b) = slice (off + 4 - off) 4 (le_bytes 4 n @ le_bytes 4 1)"
    using assms by (intro slice_blit_inside) auto
  then show ?thesis using assms by (simp add: gap_at_def slice_def)
qed

lemma untouched_blit:
  assumes "untouched rb base b" "off + length ys \<le> length b"
    and "\<And>i. off \<le> i \<Longrightarrow> i < off + length ys \<Longrightarrow> writable rb base i"
  shows "untouched rb base (blit off ys b)"
  using assms by (auto simp: untouched_def nth_blit)

lemma write_advance_pushes:
  assumes rep: "rb_rep rb q" and r: "reserved rb base"
    and data: "slice (base + 8) (length d) (rb_buf rb) = d" and sz: "footprint d + 8 \<le> rsvd rb"
  shows "\<exists>b'. ringbuf_write_advance (length d) rb = Some (rb\<lparr>rb_buf := b', rb_head := base + footprint d\<rparr>) \<and>
    untouched rb base b' \<and> rb_rep (rb\<lparr>rb_buf := b', rb_head := base + footprint d\<rparr>) (q @ [d])"
proof -
  have v: "rb_valid rb" using rep by (simp add: rb_rep_def)
  note D = rb_validD [OF v]
  have "length d \<le> length (rb_buf rb)" using arg_cong [OF data, of length] by (simp add: slice_def)
  then have ld: "length d + 7 < 2 ^ 32" using D(2,4) by simp
  note pad = RINGBUF_PAD_bounds [OF ld]
  have fit: "base + footprint d + 8 \<le> rb_size rb" using reserved_bounds [OF r v, of "RINGBUF_PAD (length d)"] sz by simp
  have "length d \<le> rsvd rb" using pad(1) sz by simp
  let ?h = "le_bytes 4 (length d) @ le_bytes 4 0"
  have un0: "untouched rb base (rb_buf rb)" by (simp add: untouched_def)
  show ?thesis
  proof (cases "gapd rb = 0")
    case True
    then have base: "base = rb_head rb" using r D(7) by (auto simp: reserved_def)
    let ?b = "blit base ?h (rb_buf rb)"
    have "put_element (rb_head rb) (length d) 0 (rb_buf rb) = Some ?b"
      using fit D(4) by (simp add: put_element_some base)
    moreover have "size_add (rb_head rb) (size_add (size_add 0 ELEM) (RINGBUF_PAD (length d))) AND rb_mask rb =
        base + footprint d"
      unfolding D(9) using fit D(2) pad(2) ld by (simp add: size_add_def SIZE_MOD_def ELEM_def base)
    ultimately have res: "ringbuf_write_advance (length d) rb = Some (rb\<lparr>rb_buf := ?b, rb_head := base + footprint d\<rparr>)"
      using True \<open>length d \<le> rsvd rb\<close> by (simp add: ringbuf_write_advance_def write_advance_raw_def Let_def)
    have un: "untouched rb base ?b"
      using un0 fit D(4) sz by (intro untouched_blit) (auto simp: writable_def)
    moreover have "elem_at ?b base d" using fit D(4) ld data by (intro element_header) auto
    ultimately have "rb_rep (rb\<lparr>rb_buf := ?b, rb_head := base + footprint d\<rparr>) (q @ [d])"
      using rep r sz True by (intro advance_rep) auto
    with res un show ?thesis by blast
  next
    case False
    then have gap: "gapd rb = rb_size rb - rb_head rb" "base = 0" "rb_tail rb \<le> rb_head rb" "rsvd rb < rb_tail rb"
      using r D(7) by (auto simp: reserved_def split: if_splits)
    let ?g = "le_bytes 4 (gapd rb - 8) @ le_bytes 4 1"
    let ?b1 = "blit (rb_head rb) ?g (rb_buf rb)"
    let ?b = "blit 0 ?h ?b1"
    have sub: "size_sub (gapd rb) ELEM = gapd rb - 8"
      using gap(1) D(2,7) unfolding ELEM_def by (intro size_sub_id) (auto simp: SIZE_MOD_def)
    have b1: "put_element (rb_head rb) (size_sub (gapd rb) ELEM) 1 (rb_buf rb) = Some ?b1" "length ?b1 = rb_size rb"
      using D(4,7) by (simp_all add: put_element_some sub)
    have b: "put_element 0 (length d) 0 ?b1 = Some ?b"
      using b1(2) D(1) by (simp add: put_element_some)
    have "size_add (rb_head rb) (size_add (size_add (gapd rb) ELEM) (RINGBUF_PAD (length d))) =
        rb_size rb + footprint d"
      using gap(1) D(2,7) pad(2) ld by (simp add: size_add_def SIZE_MOD_def ELEM_def)
    then have hd: "size_add (rb_head rb) (size_add (size_add (gapd rb) ELEM) (RINGBUF_PAD (length d))) AND rb_mask rb =
        base + footprint d"
      unfolding D(9) using fit gap(2) by simp
    have res: "ringbuf_write_advance (length d) rb = Some (rb\<lparr>rb_buf := ?b, rb_head := base + footprint d\<rparr>)"
      using False \<open>length d \<le> rsvd rb\<close> b1(1) b hd
      by (simp add: ringbuf_write_advance_def write_advance_raw_def Let_def)
    have "untouched rb base ?b1"
      using un0 D(4,7) False by (intro untouched_blit) (auto simp: writable_def)
    then have un: "untouched rb base ?b"
      by (rule untouched_blit) (use b1(2) D(1) gap(2) sz in \<open>auto simp: writable_def\<close>)
    have "slice (base + 8) (length d) ?b1 = d"
      using data D(4,7) gap pad(1) sz by (subst slice_blit_disjoint) auto
    then have e: "elem_at ?b base d" using fit b1(2) ld gap(2) D(1) element_header [of 0 ?b1 d] by simp
    have "gap_at ?b (rb_head rb)"
    proof (rule gap_at_agree)
      show "gap_at ?b1 (rb_head rb)" using D(4,7) by (intro gap_header) simp
      show "agree ?b1 ?b (rb_head rb) (rb_head rb + 8)"
        using b1(2) D(7) gap sz by (intro agree_blit) auto
    qed
    then have "rb_rep (rb\<lparr>rb_buf := ?b, rb_head := base + footprint d\<rparr>) (q @ [d])"
      using rep r sz un e by (intro advance_rep) auto
    with res un show ?thesis by blast
  qed
qed

section \<open>The consumer's operations\<close>

lemma read_request_space:
  assumes v: "rb_valid rb"
  shows "(if rb_head rb > rb_tail rb then size_sub (rb_head rb) (rb_tail rb)
      else size_add (size_sub (rb_head rb) (rb_tail rb)) (rb_size rb) AND rb_mask rb) =
    (if rb_tail rb \<le> rb_head rb then rb_head rb - rb_tail rb else rb_size rb - rb_tail rb + rb_head rb)"
proof -
  note D = rb_validD [OF v]
  have "size_sub (rb_head rb) (rb_tail rb) = rb_head rb - rb_tail rb" if "rb_tail rb < rb_head rb"
    using that D(2,7) by (intro size_sub_id) (auto simp: SIZE_MOD_def)
  moreover have "size_add (size_sub (rb_head rb) (rb_tail rb)) (rb_size rb) = rb_head rb + rb_size rb - rb_tail rb"
    if "\<not> rb_tail rb < rb_head rb"
    using that D(2,7,8) by (intro size_add_sub) (auto simp: SIZE_MOD_def)
  ultimately show ?thesis unfolding D(9) using D(7,8) by auto
qed

text \<open>The reservation of the producer survives a move of the tail over read data.\<close>

lemma reserved_tail:
  assumes "reserved rb base" "rb_valid rb" "rb_tail rb \<le> t \<and> t \<le> rb_head rb \<or>
    rb_head rb < rb_tail rb \<and> (rb_tail rb \<le> t \<or> t = 0)"
  shows "reserved (rb\<lparr>rb_tail := t\<rparr>) base"
  using assms rb_validD(7,8) [OF assms(2)] by (auto simp: reserved_def split: if_splits)

lemma read_request_empty:
  assumes rep: "rb_rep rb []"
  shows "ringbuf_read_request rb = Some ((None, 0), rb)"
proof -
  have v: "rb_valid rb" and e: "rb_tail rb = rb_head rb" using rep by (auto simp: rb_rep_def)
  show ?thesis
    unfolding ringbuf_read_request_def Let_def read_request_space [OF v] using e by simp
qed

lemma read_request_first:
  assumes rep: "rb_rep rb (d # q)"
  shows "\<exists>t. ringbuf_read_request rb = Some ((Some (t + 8), length d), rb\<lparr>rb_tail := t\<rparr>) \<and>
    rb_rep (rb\<lparr>rb_tail := t\<rparr>) (d # q) \<and> elem_at (rb_buf rb) t d \<and>
    (t = rb_tail rb \<or> t = 0 \<and> rb_head rb < rb_tail rb)"
proof -
  have v: "rb_valid rb" using rep by (simp add: rb_rep_def)
  note D = rb_validD [OF v] and sp = read_request_space [OF v]
  show ?thesis
  proof (cases "rb_tail rb \<le> rb_head rb")
    case True
    then have l: "lin (rb_buf rb) (rb_tail rb) (d # q) (rb_head rb)" using rep by (auto simp: rb_rep_def)
    then have e: "elem_at (rb_buf rb) (rb_tail rb) d" by simp
    have lt: "rb_tail rb < rb_head rb" using l lin_le [of "rb_buf rb" "rb_tail rb + footprint d" q] by force
    have en: "size_add (rb_tail rb) (rb_head rb - rb_tail rb) = rb_head rb"
      using True D(2,7) by (subst size_add_id) (auto simp: SIZE_MOD_def)
    have "ringbuf_read_request rb = Some ((Some (rb_tail rb + 8), length d), rb)"
      unfolding ringbuf_read_request_def Let_def sp using True lt en D(7) element_fields [OF e] by (simp add: ELEM_def)
    with rep e show ?thesis by (intro exI [of _ "rb_tail rb"]) simp
  next
    case False
    then obtain q1 q2 g where q: "d # q = q1 @ q2" "q2 \<noteq> []" "lin (rb_buf rb) (rb_tail rb) q1 g"
      "gap_at (rb_buf rb) g" "lin (rb_buf rb) 0 q2 (rb_head rb)" using rep by (auto simp: rb_rep_def)
    have h0: "0 < rb_head rb" using q(2,5) lin_le by (cases q2) fastforce+
    have en: "size_add (rb_tail rb) (rb_size rb - rb_tail rb + rb_head rb) = rb_size rb + rb_head rb"
      using D(2,7,8) by (subst size_add_id) (auto simp: SIZE_MOD_def)
    show ?thesis
    proof (cases q1)
      case Nil
      then have q2: "q2 = d # q" "g = rb_tail rb" using q by auto
      have e: "elem_at (rb_buf rb) 0 d" using q(5) q2 by simp
      have len1: "size_sub (rb_size rb) (rb_tail rb) = rb_size rb - rb_tail rb"
        using D(2,8) by (intro size_sub_id) (auto simp: SIZE_MOD_def)
      have "size_add (rb_tail rb) (rb_size rb - rb_tail rb) AND rb_mask rb = 0"
        unfolding D(9) using D(2,8) by (subst size_add_id) (auto simp: SIZE_MOD_def)
      then have "ringbuf_read_request rb = Some ((Some (0 + 8), length d), rb\<lparr>rb_tail := 0\<rparr>)"
        unfolding ringbuf_read_request_def Let_def sp
        using False en h0 len1 gap_field [OF q(4)] q2 element_fields [OF e]
        by (simp add: ELEM_def read_advance_raw_def)
      moreover have "rb_rep (rb\<lparr>rb_tail := 0\<rparr>) (d # q)"
        using v q(5) q2 D(1) by (simp add: rb_rep_def rb_valid_def)
      ultimately show ?thesis using e False by (intro exI [of _ 0]) simp
    next
      case (Cons d' q1')
      then have e: "elem_at (rb_buf rb) (rb_tail rb) d" using q(1,3) by simp
      have "ringbuf_read_request rb = Some ((Some (rb_tail rb + 8), length d), rb)"
        unfolding ringbuf_read_request_def Let_def sp
        using False en h0 element_fields [OF e] by (simp add: ELEM_def)
      with rep e show ?thesis by (intro exI [of _ "rb_tail rb"]) simp
    qed
  qed
qed

lemma read_advance_pops:
  assumes rep: "rb_rep rb (d # q)" and e: "elem_at (rb_buf rb) (rb_tail rb) d"
  defines "t \<equiv> rb_tail rb + footprint d"
  shows "ringbuf_read_advance rb = Some (rb\<lparr>rb_tail := t\<rparr>) \<and> rb_rep (rb\<lparr>rb_tail := t\<rparr>) q \<and>
    (t \<le> rb_head rb \<or> rb_head rb < rb_tail rb)"
proof -
  have v: "rb_valid rb" using rep by (simp add: rb_rep_def)
  note D = rb_validD [OF v]
  have ld: "length d + 7 < 2 ^ 32" and fit: "t + 8 \<le> rb_size rb" using e D(4) by (auto simp: elem_at_def t_def)
  note pad = RINGBUF_PAD_bounds [OF ld]
  have "size_add (rb_tail rb) (size_add ELEM (RINGBUF_PAD (length d))) AND rb_mask rb = t"
    unfolding D(9) using fit D(2) by (simp add: size_add_def SIZE_MOD_def ELEM_def t_def)
  then have res: "ringbuf_read_advance rb = Some (rb\<lparr>rb_tail := t\<rparr>)"
    using element_fields(1) [OF e] by (simp add: ringbuf_read_advance_def Let_def read_advance_raw_def)
  have "8 dvd footprint d" using pad(3) by simp
  then have v': "rb_valid (rb\<lparr>rb_tail := t\<rparr>)" using v fit by (simp add: rb_valid_def t_def)
  show ?thesis
  proof (cases "rb_tail rb \<le> rb_head rb")
    case True
    then have "lin (rb_buf rb) t q (rb_head rb)" using rep by (auto simp: rb_rep_def t_def)
    then show ?thesis using res v' lin_le by (auto simp: rb_rep_def)
  next
    case False
    then obtain q1 q2 g where q: "d # q = q1 @ q2" "q2 \<noteq> []" "lin (rb_buf rb) (rb_tail rb) q1 g"
      "gap_at (rb_buf rb) g" "lin (rb_buf rb) 0 q2 (rb_head rb)" using rep by (auto simp: rb_rep_def)
    have "q1 \<noteq> []" using q(3,4) elem_not_gap [OF e] by auto
    then obtain q1' where q1: "q1 = d # q1'" "q = q1' @ q2" using q(1) by (cases q1) auto
    have "lin (rb_buf rb) t q1' g" using q(3) q1(1) by (simp add: t_def)
    then show ?thesis using res v' q q1 False by (auto simp: rb_rep_def t_def)
  qed
qed

section \<open>The ring buffer is a channel\<close>

text \<open>What a client does for one message: request, copy, advance.\<close>

definition rb_send :: "u8 list \<Rightarrow> ringbuf \<Rightarrow> (bool \<times> ringbuf) option" where
  "rb_send d rb =
     (case ringbuf_write_request (length d) rb of
        (None, rb') \<Rightarrow> Some (False, rb')
      | (Some ptr, rb') \<Rightarrow>
          (case mem_store ptr d (rb_buf rb') of
             None \<Rightarrow> None
           | Some b \<Rightarrow> map_option (Pair True) (ringbuf_write_advance (length d) (rb'\<lparr>rb_buf := b\<rparr>))))"

definition rb_recv :: "ringbuf \<Rightarrow> (u8 list option \<times> ringbuf) option" where
  "rb_recv rb =
     (case ringbuf_read_request rb of
        None \<Rightarrow> None
      | Some ((None, _), rb') \<Rightarrow> Some (None, rb')
      | Some ((Some ptr, toread), rb') \<Rightarrow>
          (case mem_load ptr toread (rb_buf rb') of
             None \<Rightarrow> None
           | Some d \<Rightarrow> map_option (Pair (Some d)) (ringbuf_read_advance rb')))"

lemma rep_counters [simp]: "rb_rep (rb\<lparr>rsvd := a, gapd := b\<rparr>) q = rb_rep rb q"
  by (simp add: rb_rep_def rb_valid_def)

lemma reserved_buf [simp]: "reserved (rb\<lparr>rb_buf := b\<rparr>) base = reserved rb base"
  by (auto simp: reserved_def)

lemma rb_send_step:
  assumes rep: "rb_rep rb q" and d: "length d + 7 < 2 ^ 32"
  shows "\<exists>ok rb'. rb_send d rb = Some (ok, rb') \<and> rb_rep rb' (if ok then q @ [d] else q)"
proof -
  obtain p mx rb1 where res: "ringbuf_write_request_max (length d) rb = ((p, mx), rb1)" by (metis surj_pair)
  have v: "rb_valid rb" using rep by (simp add: rb_rep_def)
  note spec = write_request_reserves [OF v d res]
  have w: "ringbuf_write_request (length d) rb = (p, rb1)" using res by (simp add: ringbuf_write_request_def)
  show ?thesis
  proof (cases p)
    case None
    with w spec rep show ?thesis by (auto simp: rb_send_def)
  next
    case (Some ptr)
    then obtain base g where r: "ptr = base + 8" "rb1 = rb\<lparr>rsvd := mx, gapd := g\<rparr>" "reserved rb1 base"
      "16 + RINGBUF_PAD (length d) \<le> mx" using spec by auto
    have rep1: "rb_rep rb1 q" using rep r(2) by simp
    then have v1: "rb_valid rb1" by (simp add: rb_rep_def)
    have sz: "16 + RINGBUF_PAD (length d) \<le> rsvd rb1" using r(2,4) by simp
    have fit: "ptr + length d \<le> length (rb_buf rb1)"
      using reserved_bounds [OF r(3) v1 sz] RINGBUF_PAD_bounds(1) [OF d] rb_validD(4) [OF v1] r(1) by simp
    let ?b = "blit ptr d (rb_buf rb1)"
    have un: "untouched rb1 base ?b"
      by (rule untouched_blit) (use fit sz r(1) RINGBUF_PAD_bounds(1) [OF d] in \<open>auto simp: untouched_def writable_def\<close>)
    have rep2: "rb_rep (rb1\<lparr>rb_buf := ?b\<rparr>) q" using rep1 un r(3) by (rule untouched_rep)
    have "slice (base + 8) (length d) ?b = d" using slice_blit_same [of ptr d] fit r(1) by simp
    then obtain rb' where "ringbuf_write_advance (length d) (rb1\<lparr>rb_buf := ?b\<rparr>) = Some rb'" "rb_rep rb' (q @ [d])"
      using write_advance_pushes [OF rep2, of base d] r(3) sz by auto
    then show ?thesis using Some w fit by (auto simp: rb_send_def mem_store_def)
  qed
qed

interpretation rbch: channel rb_rep "\<lambda>d. length d + 7 < 2 ^ 32" rb_send rb_recv
proof
  show "\<exists>ok s'. rb_send m s = Some (ok, s') \<and> rb_rep s' (if ok then q @ [m] else q)"
    if "rb_rep s q" "length m + 7 < 2 ^ 32" for s q m
    using that by (rule rb_send_step)
  show "\<exists>s'. rb_recv s = Some (None, s') \<and> rb_rep s' []" if "rb_rep s []" for s
    using that read_request_empty [OF that] by (simp add: rb_recv_def)
  show "\<exists>s'. rb_recv s = Some (Some m, s') \<and> rb_rep s' q" if rep: "rb_rep s (m # q)" for s m q
  proof -
    obtain t where t: "ringbuf_read_request s = Some ((Some (t + 8), length m), s\<lparr>rb_tail := t\<rparr>)"
      "rb_rep (s\<lparr>rb_tail := t\<rparr>) (m # q)" "elem_at (rb_buf s) t m"
      using read_request_first [OF rep] by blast
    have m: "t + footprint m + 8 \<le> length (rb_buf s)" "length m + 7 < 2 ^ 32" "slice (t + 8) (length m) (rb_buf s) = m"
      using t(3) by (auto simp: elem_at_def)
    then have "mem_load (t + 8) (length m) (rb_buf s) = Some m"
      using RINGBUF_PAD_bounds(1) [OF m(2)] by (simp add: mem_load_def)
    moreover have "\<exists>rb'. ringbuf_read_advance (s\<lparr>rb_tail := t\<rparr>) = Some rb' \<and> rb_rep rb' q"
      using read_advance_pops [OF t(2)] t(3) by auto
    ultimately show ?thesis using t(1) by (auto simp: rb_recv_def)
  qed
qed

text \<open>A fresh buffer of 2 to the \<open>k\<close> bytes is empty, whatever the memory held before.\<close>

lemma ringbuf_init_rep:
  assumes "3 \<le> k" "k \<le> 31" "length (rb_buf rb) = 2 ^ k"
  shows "rb_rep (ringbuf_init (2 ^ k) ra rb) []"
proof -
  have le: "(2::nat) ^ 3 \<le> 2 ^ k" "(2::nat) ^ k \<le> 2 ^ 31" using assms(1,2) by (auto intro!: power_increasing simp del: power_numeral)
  then have "size_sub (2 ^ k) 1 = 2 ^ k - 1" by (intro size_sub_id) (auto simp: SIZE_MOD_def)
  then show ?thesis using assms le by (auto simp: rb_rep_def rb_valid_def ringbuf_init_def)
qed

section \<open>The size of the body\<close>

lemma body_size_loop_run:
  assumes "k \<le> 63" "minimum \<le> 2 ^ 63" "0 < k \<longrightarrow> 2 ^ (k - 1) < minimum"
  shows "\<exists>j. body_size_loop minimum (2 ^ k) = Some (2 ^ j) \<and> j \<le> 63 \<and> minimum \<le> 2 ^ j \<and> (0 < j \<longrightarrow> 2 ^ (j - 1) < minimum)"
  using assms
proof (induction "63 - k" arbitrary: k)
  case 0
  then show ?case by (intro exI [of _ k]) (simp add: body_size_loop.simps)
next
  case (Suc n)
  show ?case
  proof (cases "2 ^ k < minimum")
    case True
    have "(2::nat) ^ Suc k \<le> 2 ^ 63" using Suc.hyps(2) by (intro power_increasing) auto
    then have "size_mul (2 ^ k) 2 = 2 ^ Suc k" by (simp add: size_mul_def SIZE_MOD_def)
    then have "body_size_loop minimum (2 ^ k) = body_size_loop minimum (2 ^ Suc k)"
      using True by (subst body_size_loop.simps) simp
    moreover have "n = 63 - Suc k" "Suc k \<le> 63" using Suc.hyps(2) by auto
    ultimately show ?thesis using Suc.hyps(1) [of "Suc k"] True Suc.prems(2) by simp
  next
    case False
    then show ?thesis using Suc.prems by (intro exI [of _ k]) (simp add: body_size_loop.simps)
  qed
qed

end
