(* ===== verification/Ringbuf_Threads.thy ===== *)
theory Ringbuf_Threads
  imports Ringbuf_Spec
begin

text \<open>
  The test program of \<open>producer/producer.c\<close>: a producer and a consumer thread on
  one ring buffer, interleaved arbitrarily.  A step of a thread is one call of a
  ring buffer operation or one 8-byte access to the payload, so each thread may
  be anywhere inside its loop body while the other runs.  The acquire and release
  accesses to head and tail order the payload accesses, so interleaving steps
  over one memory is what the program may rely on.  The result \<open>None\<close> is a failed
  assertion or an access outside the buffer.
\<close>

section \<open>The two threads\<close>

datatype producer_pc = PLoop | PFill nat nat nat
datatype consumer_pc = CLoop | CCheck nat nat nat

record rsys =
  rs_ring :: ringbuf
  p_cnt :: nat
  p_pc :: producer_pc
  c_cnt :: nat
  c_pc :: consumer_pc

text \<open>\<open>rnd\<close> is the value of \<open>rand() * 1024.f / RAND_MAX\<close>, converted to an integer.\<close>

definition producer_main :: "nat \<Rightarrow> nat \<Rightarrow> rsys \<Rightarrow> rsys option" where
  "producer_main iterations rnd s =
     (case p_pc s of
        PLoop \<Rightarrow>
          if p_cnt s < iterations
          then let written = RINGBUF_PAD rnd
               in case ringbuf_write_request_max written (rs_ring s) of
                    ((None, _), rb) \<Rightarrow> Some (s\<lparr>rs_ring := rb\<rparr>)
                  | ((Some ptr, maximum), rb) \<Rightarrow>
                      if maximum \<ge> written then Some (s\<lparr>rs_ring := rb, p_pc := PFill ptr written ptr\<rparr>)
                      else None
          else Some s
      | PFill ptr written src \<Rightarrow>
          if src < ptr + written
          then case mem_store src (le_bytes 8 (p_cnt s)) (rb_buf (rs_ring s)) of
                 None \<Rightarrow> None
               | Some b \<Rightarrow>
                   if mem_load src 8 b = Some (le_bytes 8 (p_cnt s))
                   then Some (s\<lparr>rs_ring := (rs_ring s)\<lparr>rb_buf := b\<rparr>, p_pc := PFill ptr written (src + 8)\<rparr>)
                   else None
          else case ringbuf_write_advance written (rs_ring s) of
                 None \<Rightarrow> None
               | Some rb \<Rightarrow> Some (s\<lparr>rs_ring := rb, p_cnt := p_cnt s + 1, p_pc := PLoop\<rparr>))"

definition consumer_main :: "nat \<Rightarrow> rsys \<Rightarrow> rsys option" where
  "consumer_main iterations s =
     (case c_pc s of
        CLoop \<Rightarrow>
          if c_cnt s < iterations
          then case ringbuf_read_request (rs_ring s) of
                 None \<Rightarrow> None
               | Some ((None, _), rb) \<Rightarrow> Some (s\<lparr>rs_ring := rb\<rparr>)
               | Some ((Some ptr, toread), rb) \<Rightarrow> Some (s\<lparr>rs_ring := rb, c_pc := CCheck ptr toread ptr\<rparr>)
          else Some s
      | CCheck ptr toread src \<Rightarrow>
          if src < ptr + toread
          then case mem_load src 8 (rb_buf (rs_ring s)) of
                 None \<Rightarrow> None
               | Some bs \<Rightarrow> if le_val bs = c_cnt s then Some (s\<lparr>c_pc := CCheck ptr toread (src + 8)\<rparr>) else None
          else case ringbuf_read_advance (rs_ring s) of
                 None \<Rightarrow> None
               | Some rb \<Rightarrow> Some (s\<lparr>rs_ring := rb, c_cnt := c_cnt s + 1, c_pc := CLoop\<rparr>))"

datatype turn = Producer nat | Consumer

fun test_threaded :: "nat \<Rightarrow> turn list \<Rightarrow> rsys \<Rightarrow> rsys option" where
  "test_threaded iterations [] s = Some s"
| "test_threaded iterations (Producer rnd # ts) s =
     (case producer_main iterations rnd s of None \<Rightarrow> None | Some s' \<Rightarrow> test_threaded iterations ts s')"
| "test_threaded iterations (Consumer # ts) s =
     (case consumer_main iterations s of None \<Rightarrow> None | Some s' \<Rightarrow> test_threaded iterations ts s')"

definition threads_start :: "ringbuf \<Rightarrow> rsys" where
  "threads_start rb = \<lparr>rs_ring = rb, p_cnt = 0, p_pc = PLoop, c_cnt = 0, c_pc = CLoop\<rparr>"

section \<open>The invariant\<close>

text \<open>A message whose 8-byte words all hold the counter \<open>k\<close>.\<close>

definition is_msg :: "nat \<Rightarrow> u8 list \<Rightarrow> bool" where
  "is_msg k d \<longleftrightarrow> 8 dvd length d \<and> (\<forall>j < length d div 8. slice (8 * j) 8 d = le_bytes 8 k)"

definition queue_ok :: "nat \<Rightarrow> nat \<Rightarrow> u8 list list \<Rightarrow> bool" where
  "queue_ok c p q \<longleftrightarrow> p = c + length q \<and> (\<forall>i < length q. is_msg (c + i) (q ! i))"

definition prod_ok :: "ringbuf \<Rightarrow> nat \<Rightarrow> producer_pc \<Rightarrow> bool" where
  "prod_ok rb cnt pc \<longleftrightarrow> (case pc of PLoop \<Rightarrow> True | PFill ptr w src \<Rightarrow>
     \<exists>base. ptr = base + 8 \<and> reserved rb base \<and> 16 + RINGBUF_PAD w \<le> rsvd rb \<and> w + 7 < 2 ^ 32 \<and> 8 dvd w \<and>
       (\<exists>n. src = ptr + 8 * n \<and> 8 * n \<le> w \<and> (\<forall>j < n. slice (ptr + 8 * j) 8 (rb_buf rb) = le_bytes 8 cnt)))"

definition cons_ok :: "ringbuf \<Rightarrow> u8 list list \<Rightarrow> consumer_pc \<Rightarrow> bool" where
  "cons_ok rb q pc \<longleftrightarrow> (case pc of CLoop \<Rightarrow> True | CCheck ptr n src \<Rightarrow>
     \<exists>d q' m. q = d # q' \<and> elem_at (rb_buf rb) (rb_tail rb) d \<and> ptr = rb_tail rb + 8 \<and> n = length d \<and>
       src = ptr + 8 * m \<and> 8 * m \<le> n)"

definition threads_inv :: "nat \<Rightarrow> rsys \<Rightarrow> bool" where
  "threads_inv iterations s \<longleftrightarrow> (\<exists>q. rb_rep (rs_ring s) q \<and> queue_ok (c_cnt s) (p_cnt s) q \<and>
     p_cnt s \<le> iterations \<and> (p_pc s \<noteq> PLoop \<longrightarrow> p_cnt s < iterations) \<and>
     prod_ok (rs_ring s) (p_cnt s) (p_pc s) \<and> cons_ok (rs_ring s) q (c_pc s))"

lemma cons_counters [simp]:
  "cons_ok (rb\<lparr>rsvd := a, gapd := b\<rparr>) q pc = cons_ok rb q pc"
  by (simp add: cons_ok_def split: consumer_pc.splits)

lemma cons_untouched:
  assumes "cons_ok rb q pc" "rb_rep rb q" "untouched rb base b'" "reserved rb base"
  shows "cons_ok (rb\<lparr>rb_buf := b'\<rparr>) q pc"
  using assms untouched_first [OF _ _ assms(3,4)] by (fastforce simp: cons_ok_def split: consumer_pc.splits)

lemma cons_append:
  assumes "cons_ok rb q pc" shows "cons_ok (rb\<lparr>rb_head := h\<rparr>) (q @ q') pc"
  using assms by (auto simp: cons_ok_def split: consumer_pc.splits)

lemma prod_tail:
  assumes "prod_ok rb cnt pc" "rb_valid rb"
    and "rb_tail rb \<le> t \<and> t \<le> rb_head rb \<or> rb_head rb < rb_tail rb \<and> (rb_tail rb \<le> t \<or> t = 0)"
  shows "prod_ok (rb\<lparr>rb_tail := t\<rparr>) cnt pc"
  using assms reserved_tail [OF _ assms(2,3)] by (fastforce simp: prod_ok_def split: producer_pc.splits)

section \<open>Steps of the producer\<close>

lemma queue_ok_push: "queue_ok c p q \<Longrightarrow> is_msg p d \<Longrightarrow> queue_ok c (p + 1) (q @ [d])"
  by (auto simp: queue_ok_def nth_append less_Suc_eq)

lemma producer_request_ok:
  assumes inv: "threads_inv iterations s" and pc: "p_pc s = PLoop" and rnd: "rnd \<le> 1024"
  shows "\<exists>s'. producer_main iterations rnd s = Some s' \<and> threads_inv iterations s'"
proof (cases "p_cnt s < iterations")
  case False
  with inv pc show ?thesis by (simp add: producer_main_def)
next
  case True
  obtain q where q: "rb_rep (rs_ring s) q" "queue_ok (c_cnt s) (p_cnt s) q" "cons_ok (rs_ring s) q (c_pc s)"
    using inv by (auto simp: threads_inv_def)
  have v: "rb_valid (rs_ring s)" using q(1) by (simp add: rb_rep_def)
  let ?w = "RINGBUF_PAD rnd"
  have w: "?w + 7 < 2 ^ 32" "8 dvd ?w" using RINGBUF_PAD_bounds [of rnd] rnd by auto
  have idem: "?w \<le> RINGBUF_PAD ?w" using RINGBUF_PAD_bounds(1) [OF w(1)] .
  obtain p mx rb where res: "ringbuf_write_request_max ?w (rs_ring s) = ((p, mx), rb)" by (metis surj_pair)
  note spec = write_request_reserves [OF v w(1) res]
  show ?thesis
  proof (cases p)
    case None
    then have "producer_main iterations rnd s = Some (s\<lparr>rs_ring := (rs_ring s)\<lparr>rsvd := 0, gapd := 0\<rparr>\<rparr>)"
      using True pc res spec by (simp add: producer_main_def)
    then show ?thesis using q True pc by (auto simp: threads_inv_def prod_ok_def)
  next
    case (Some ptr)
    then obtain base g where r: "ptr = base + 8" "rb = (rs_ring s)\<lparr>rsvd := mx, gapd := g\<rparr>"
      "reserved rb base" "16 + RINGBUF_PAD ?w \<le> mx" using spec by auto
    have "producer_main iterations rnd s = Some (s\<lparr>rs_ring := rb, p_pc := PFill ptr ?w ptr\<rparr>)"
      using True pc res Some r(4) idem by (simp add: producer_main_def)
    moreover have "prod_ok rb (p_cnt s) (PFill ptr ?w ptr)"
      using r w by (auto simp: prod_ok_def)
    ultimately show ?thesis using q True r(2) by (auto simp: threads_inv_def)
  qed
qed

lemma producer_fill_ok:
  assumes inv: "threads_inv iterations s" and pc: "p_pc s = PFill ptr w src" and src: "src < ptr + w"
  shows "\<exists>s'. producer_main iterations rnd s = Some s' \<and> threads_inv iterations s'"
proof -
  let ?rb = "rs_ring s" and ?k = "p_cnt s"
  obtain q where q: "rb_rep ?rb q" "queue_ok (c_cnt s) ?k q" "cons_ok ?rb q (c_pc s)" "?k < iterations"
    "prod_ok ?rb ?k (PFill ptr w src)"
    using inv pc by (auto simp: threads_inv_def)
  then obtain base n where r: "ptr = base + 8" "reserved ?rb base" "16 + RINGBUF_PAD w \<le> rsvd ?rb"
    "w + 7 < 2 ^ 32" "8 dvd w" "src = ptr + 8 * n" "8 * n \<le> w"
    "\<forall>j < n. slice (ptr + 8 * j) 8 (rb_buf ?rb) = le_bytes 8 ?k" by (auto simp: prod_ok_def)
  have v: "rb_valid ?rb" using q(1) by (simp add: rb_rep_def)
  have n: "8 * (n + 1) \<le> w" using src r(5,6) by (auto elim!: dvdE)
  have in_range: "src + 8 \<le> base + rsvd ?rb - 8" "src + 8 \<le> length (rb_buf ?rb)"
    using n r(1,3,6) RINGBUF_PAD_bounds(1) [OF r(4)] reserved_bounds [OF r(2) v r(3)] rb_validD(4) [OF v] by auto
  let ?b = "blit src (le_bytes 8 ?k) (rb_buf ?rb)"
  let ?s = "s\<lparr>rs_ring := ?rb\<lparr>rb_buf := ?b\<rparr>, p_pc := PFill ptr w (src + 8)\<rparr>"
  have slice_new: "slice src 8 ?b = le_bytes 8 ?k"
    using slice_blit_same [of src "le_bytes 8 ?k" "rb_buf ?rb"] in_range(2) by simp
  have res: "producer_main iterations rnd s = Some ?s"
    using pc src in_range(2) slice_new by (simp add: producer_main_def mem_store_def mem_load_def)
  have un: "untouched ?rb base ?b"
    using in_range r(1,3,6) by (intro untouched_blit) (auto simp: untouched_def writable_def)
  have old: "slice (ptr + 8 * j) 8 ?b = le_bytes 8 ?k" if "j < n" for j
    using that r(6,8) in_range(2) by (subst slice_blit_disjoint) auto
  have all: "slice (ptr + 8 * j) 8 ?b = le_bytes 8 ?k" if "j < n + 1" for j
    using that old [of j] slice_new r(6) by (cases "j = n") auto
  have "prod_ok (?rb\<lparr>rb_buf := ?b\<rparr>) ?k (PFill ptr w (src + 8))"
    unfolding prod_ok_def producer_pc.case
  proof (rule exI [of _ base], intro conjI)
    show "\<exists>m. src + 8 = ptr + 8 * m \<and> 8 * m \<le> w \<and>
        (\<forall>j < m. slice (ptr + 8 * j) 8 (rb_buf (?rb\<lparr>rb_buf := ?b\<rparr>)) = le_bytes 8 ?k)"
      by (rule exI [of _ "n + 1"]) (use r(6) n all in auto)
  qed (use r in auto)
  moreover have "rb_rep (?rb\<lparr>rb_buf := ?b\<rparr>) q" using q(1) un r(2) by (rule untouched_rep)
  moreover have "cons_ok (?rb\<lparr>rb_buf := ?b\<rparr>) q (c_pc s)" using q(3,1) un r(2) by (rule cons_untouched)
  ultimately have "threads_inv iterations ?s" using q by (auto simp: threads_inv_def)
  with res show ?thesis by blast
qed

lemma producer_advance_ok:
  assumes inv: "threads_inv iterations s" and pc: "p_pc s = PFill ptr w src" and src: "\<not> src < ptr + w"
  shows "\<exists>s'. producer_main iterations rnd s = Some s' \<and> threads_inv iterations s'"
proof -
  let ?rb = "rs_ring s" and ?k = "p_cnt s"
  obtain q where q: "rb_rep ?rb q" "queue_ok (c_cnt s) ?k q" "cons_ok ?rb q (c_pc s)" "?k < iterations"
    "prod_ok ?rb ?k (PFill ptr w src)"
    using inv pc by (auto simp: threads_inv_def)
  then obtain base n where r: "ptr = base + 8" "reserved ?rb base" "16 + RINGBUF_PAD w \<le> rsvd ?rb"
    "w + 7 < 2 ^ 32" "8 dvd w" "src = ptr + 8 * n" "8 * n \<le> w"
    "\<forall>j < n. slice (ptr + 8 * j) 8 (rb_buf ?rb) = le_bytes 8 ?k" by (auto simp: prod_ok_def)
  have v: "rb_valid ?rb" using q(1) by (simp add: rb_rep_def)
  have w: "w = 8 * n" using src r(6,7) by simp
  let ?d = "slice ptr w (rb_buf ?rb)"
  have len: "ptr + w \<le> length (rb_buf ?rb)"
    using r(1) RINGBUF_PAD_bounds(1) [OF r(4)] reserved_bounds [OF r(2) v r(3)] rb_validD(4) [OF v] by simp
  then have ld: "length ?d = w" by simp
  have "slice (8 * j) 8 ?d = slice (ptr + 8 * j) 8 (rb_buf ?rb)" if "j < n" for j
    using that w by (intro slice_slice) simp
  then have msg: "is_msg ?k ?d" using r(5,8) ld w by (simp add: is_msg_def)
  obtain b' where b': "ringbuf_write_advance w ?rb = Some (?rb\<lparr>rb_buf := b', rb_head := base + footprint ?d\<rparr>)"
    "untouched ?rb base b'" "rb_rep (?rb\<lparr>rb_buf := b', rb_head := base + footprint ?d\<rparr>) (q @ [?d])"
    using write_advance_pushes [OF q(1) r(2), of ?d] ld r(1,3) by auto
  let ?s = "s\<lparr>rs_ring := ?rb\<lparr>rb_buf := b', rb_head := base + footprint ?d\<rparr>, p_cnt := ?k + 1, p_pc := PLoop\<rparr>"
  have res: "producer_main iterations rnd s = Some ?s" using pc src b'(1) by (simp add: producer_main_def)
  have "cons_ok (?rb\<lparr>rb_buf := b', rb_head := base + footprint ?d\<rparr>) (q @ [?d]) (c_pc s)"
    using cons_append [OF cons_untouched [OF q(3,1) b'(2) r(2)]] by simp
  then have "threads_inv iterations ?s"
    using b'(3) queue_ok_push [OF q(2) msg] q(4) by (auto simp: threads_inv_def prod_ok_def)
  with res show ?thesis by blast
qed

section \<open>Steps of the consumer\<close>

lemma consumer_request_ok:
  assumes inv: "threads_inv iterations s" and pc: "c_pc s = CLoop"
  shows "\<exists>s'. consumer_main iterations s = Some s' \<and> threads_inv iterations s'"
proof (cases "c_cnt s < iterations")
  case False
  with inv pc show ?thesis by (simp add: consumer_main_def)
next
  case True
  let ?rb = "rs_ring s"
  obtain q where q: "rb_rep ?rb q" "queue_ok (c_cnt s) (p_cnt s) q" "prod_ok ?rb (p_cnt s) (p_pc s)"
    "p_cnt s \<le> iterations" "p_pc s \<noteq> PLoop \<longrightarrow> p_cnt s < iterations" using inv by (auto simp: threads_inv_def)
  have v: "rb_valid ?rb" using q(1) by (simp add: rb_rep_def)
  show ?thesis
  proof (cases q)
    case Nil
    then have "consumer_main iterations s = Some s"
      using True pc read_request_empty [of ?rb] q(1) by (simp add: consumer_main_def)
    with inv show ?thesis by simp
  next
    case (Cons d q')
    obtain t where t: "ringbuf_read_request ?rb = Some ((Some (t + 8), length d), ?rb\<lparr>rb_tail := t\<rparr>)"
      "rb_rep (?rb\<lparr>rb_tail := t\<rparr>) (d # q')" "elem_at (rb_buf ?rb) t d"
      "t = rb_tail ?rb \<or> t = 0 \<and> rb_head ?rb < rb_tail ?rb"
      using read_request_first [of ?rb d q'] q(1) Cons by blast
    let ?s = "s\<lparr>rs_ring := ?rb\<lparr>rb_tail := t\<rparr>, c_pc := CCheck (t + 8) (length d) (t + 8)\<rparr>"
    have res: "consumer_main iterations s = Some ?s" using True pc t(1) by (simp add: consumer_main_def)
    have "prod_ok (?rb\<lparr>rb_tail := t\<rparr>) (p_cnt s) (p_pc s)" using q(3) v t(4) by (rule_tac prod_tail) auto
    moreover have "cons_ok (?rb\<lparr>rb_tail := t\<rparr>) (d # q') (CCheck (t + 8) (length d) (t + 8))"
      using t(3) by (auto simp: cons_ok_def)
    ultimately have "threads_inv iterations ?s" using t(2) q Cons by (auto simp: threads_inv_def)
    with res show ?thesis by blast
  qed
qed

lemma consumer_check_ok:
  assumes inv: "threads_inv iterations s" and pc: "c_pc s = CCheck ptr n src" and it: "iterations \<le> 2 ^ 64"
  shows "\<exists>s'. consumer_main iterations s = Some s' \<and> threads_inv iterations s'"
proof -
  let ?rb = "rs_ring s" and ?k = "c_cnt s"
  obtain q where q: "rb_rep ?rb q" "queue_ok ?k (p_cnt s) q" "prod_ok ?rb (p_cnt s) (p_pc s)"
    "p_cnt s \<le> iterations" "p_pc s \<noteq> PLoop \<longrightarrow> p_cnt s < iterations" "cons_ok ?rb q (CCheck ptr n src)"
    using inv pc by (auto simp: threads_inv_def)
  then obtain d q' m where d: "q = d # q'" "elem_at (rb_buf ?rb) (rb_tail ?rb) d" "ptr = rb_tail ?rb + 8"
    "n = length d" "src = ptr + 8 * m" "8 * m \<le> n" by (auto simp: cons_ok_def)
  have v: "rb_valid ?rb" using q(1) by (simp add: rb_rep_def)
  have msg: "is_msg ?k d" using q(2) d(1) by (auto simp: queue_ok_def)
  have k: "?k < 2 ^ 64" using q(2,4) it d(1) by (simp add: queue_ok_def)
  show ?thesis
  proof (cases "src < ptr + n")
    case True
    then have m: "m < length d div 8" "8 * m + 8 \<le> length d"
      using d(4,5) msg by (auto simp: is_msg_def elim!: dvdE)
    have pos: "slice ptr (length d) (rb_buf ?rb) = d" "length d + 7 < 2 ^ 32"
      "rb_tail ?rb + footprint d + 8 \<le> length (rb_buf ?rb)"
      using d(2,3) by (auto simp: elem_at_def)
    have fit: "ptr + length d \<le> length (rb_buf ?rb)"
      using pos RINGBUF_PAD_bounds(1) [OF pos(2)] d(3) by simp
    have "slice src 8 (rb_buf ?rb) = slice (8 * m) 8 (slice ptr (length d) (rb_buf ?rb))"
      using m(2) d(5) by (subst slice_slice) simp_all
    then have "mem_load src 8 (rb_buf ?rb) = Some (le_bytes 8 ?k)"
      using pos(1) msg m fit d(5) by (simp add: mem_load_def is_msg_def)
    then have res: "consumer_main iterations s = Some (s\<lparr>c_pc := CCheck ptr n (src + 8)\<rparr>)"
      using pc True k by (simp add: consumer_main_def)
    have "cons_ok ?rb q (CCheck ptr n (src + 8))"
      unfolding cons_ok_def consumer_pc.case using d m(2)
      by (intro exI [of _ d] exI [of _ q'] exI [of _ "m + 1"]) simp
    then show ?thesis using res q by (auto simp: threads_inv_def)
  next
    case False
    let ?t = "rb_tail ?rb + footprint d"
    let ?s = "s\<lparr>rs_ring := ?rb\<lparr>rb_tail := ?t\<rparr>, c_cnt := ?k + 1, c_pc := CLoop\<rparr>"
    have adv: "ringbuf_read_advance ?rb = Some (?rb\<lparr>rb_tail := ?t\<rparr>)" "rb_rep (?rb\<lparr>rb_tail := ?t\<rparr>) q'"
      "?t \<le> rb_head ?rb \<or> rb_head ?rb < rb_tail ?rb"
      using read_advance_pops [of ?rb d q'] q(1) d(1,2) by auto
    have res: "consumer_main iterations s = Some ?s" using pc False adv(1) by (simp add: consumer_main_def)
    have "prod_ok (?rb\<lparr>rb_tail := ?t\<rparr>) (p_cnt s) (p_pc s)" using q(3) v adv(3) by (rule_tac prod_tail) auto
    moreover have "queue_ok (?k + 1) (p_cnt s) q'"
      using q(2) d(1) by (fastforce simp: queue_ok_def)
    ultimately have "threads_inv iterations ?s" using adv(2) q by (auto simp: threads_inv_def cons_ok_def)
    with res show ?thesis by blast
  qed
qed

section \<open>Properties\<close>

lemma threads_step:
  assumes "threads_inv iterations s" "iterations \<le> 2 ^ 64"
  shows "rnd \<le> 1024 \<Longrightarrow> \<exists>s'. producer_main iterations rnd s = Some s' \<and> threads_inv iterations s'"
    and "\<exists>s'. consumer_main iterations s = Some s' \<and> threads_inv iterations s'"
proof -
  show "\<exists>s'. producer_main iterations rnd s = Some s' \<and> threads_inv iterations s'" if "rnd \<le> 1024"
  proof (cases "p_pc s")
    case PLoop
    with assms(1) that show ?thesis by (intro producer_request_ok)
  next
    case (PFill ptr w src)
    show ?thesis
    proof (cases "src < ptr + w")
      case True
      with assms(1) PFill show ?thesis by (intro producer_fill_ok)
    next
      case False
      with assms(1) PFill show ?thesis by (intro producer_advance_ok)
    qed
  qed
  show "\<exists>s'. consumer_main iterations s = Some s' \<and> threads_inv iterations s'"
  proof (cases "c_pc s")
    case CLoop
    with assms(1) show ?thesis by (intro consumer_request_ok)
  next
    case (CCheck ptr n src)
    with assms show ?thesis by (intro consumer_check_ok)
  qed
qed

lemma threads_run:
  assumes "threads_inv iterations s" "iterations \<le> 2 ^ 64" "\<And>r. Producer r \<in> set ts \<Longrightarrow> r \<le> 1024"
  shows "\<exists>s'. test_threaded iterations ts s = Some s' \<and> threads_inv iterations s'"
  using assms
proof (induction iterations ts s rule: test_threaded.induct)
  case (2 iterations rnd ts s)
  obtain s' where s': "producer_main iterations rnd s = Some s'" "threads_inv iterations s'"
    using threads_step(1) [OF 2(2,3), of rnd] 2(4) by auto
  from 2(1) [OF s'(1) s'(2) 2(3)] 2(4) s'(1) show ?case by auto
next
  case (3 iterations ts s)
  obtain s' where s': "consumer_main iterations s = Some s'" "threads_inv iterations s'"
    using threads_step(2) [OF 3(2,3)] by auto
  from 3(1) [OF s'(1) s'(2) 3(3)] 3(4) s'(1) show ?case by auto
qed simp

text \<open>C7: the threaded test program.  However the scheduler interleaves the
  two threads and whatever lengths \<open>rand\<close> picks, no assertion fails and no access
  leaves the buffer; the consumer never overtakes the producer, and every message
  in between carries its own counter.\<close>

theorem test_threaded_safe:
  assumes "3 \<le> k" "k \<le> 31" "length (rb_buf rb) = 2 ^ k" "iterations \<le> 2 ^ 64"
    and "\<And>r. Producer r \<in> set ts \<Longrightarrow> r \<le> 1024"
  shows "\<exists>s. test_threaded iterations ts (threads_start (ringbuf_init (2 ^ k) True rb)) = Some s \<and>
    c_cnt s \<le> p_cnt s \<and> p_cnt s \<le> iterations \<and>
    (\<exists>q. rb_rep (rs_ring s) q \<and> length q = p_cnt s - c_cnt s \<and> (\<forall>i < length q. is_msg (c_cnt s + i) (q ! i)))"
proof -
  have "threads_inv iterations (threads_start (ringbuf_init (2 ^ k) True rb))"
    using ringbuf_init_rep [OF assms(1-3)]
    by (auto simp: threads_inv_def threads_start_def queue_ok_def prod_ok_def cons_ok_def intro!: exI [of _ "[]"])
  from threads_run [OF this assms(4,5)] show ?thesis
    unfolding threads_inv_def queue_ok_def by force
qed

definition sample_ring :: "nat \<Rightarrow> ringbuf" where
  "sample_ring n = \<lparr>rb_size = 0, rb_mask = 0, rsvd = 0, gapd = 0, rb_acquire = Relaxed, rb_release = Relaxed,
     rb_head = 0, rb_tail = 0, rb_buf = replicate n 0\<rparr>"

theorem test_threaded_safe_witness:
  "\<exists>s. test_threaded 10000 [Producer 24, Consumer, Producer 7, Producer 0, Consumer]
    (threads_start (ringbuf_init (2 ^ 13) True (sample_ring (2 ^ 13)))) = Some s \<and> c_cnt s \<le> p_cnt s"
proof -
  have "r \<le> 1024" if "Producer r \<in> set [Producer 24, Consumer, Producer 7, Producer 0, Consumer]" for r
    using that by auto
  moreover have "length (rb_buf (sample_ring (2 ^ 13))) = 2 ^ 13" by (simp add: sample_ring_def)
  ultimately show ?thesis
    using test_threaded_safe [of 13 "sample_ring (2 ^ 13)" 10000
      "[Producer 24, Consumer, Producer 7, Producer 0, Consumer]"] by (auto simp del: test_threaded.simps)
qed

text \<open>C8: the two threads cannot block each other.  Whenever both are at the
  top of their loops and messages remain, a step of the producer gets a
  reservation or a step of the consumer gets a message (in a buffer that holds
  two of the largest messages).\<close>

theorem test_threaded_progress:
  assumes "threads_inv iterations s" "p_pc s = PLoop" "c_pc s = CLoop" "c_cnt s < iterations"
    and "rnd \<le> 1024" "2080 \<le> rb_size (rs_ring s)"
  shows "(\<exists>s'. producer_main iterations rnd s = Some s' \<and> p_pc s' \<noteq> PLoop) \<or>
    (\<exists>s'. consumer_main iterations s = Some s' \<and> c_pc s' \<noteq> CLoop)"
proof -
  obtain q where q: "rb_rep (rs_ring s) q" "queue_ok (c_cnt s) (p_cnt s) q" using assms(1) by (auto simp: threads_inv_def)
  show ?thesis
  proof (cases q)
    case Nil
    then have e: "rb_head (rs_ring s) = rb_tail (rs_ring s)" "p_cnt s < iterations" and v: "rb_valid (rs_ring s)"
      using q assms(4) by (auto simp: rb_rep_def queue_ok_def)
    let ?w = "RINGBUF_PAD rnd"
    have r: "rnd + 7 < 2 ^ 32" using assms(5) by simp
    have "(rnd + 7) div 8 \<le> 128" using assms(5) by simp
    then have w: "?w \<le> 1024" unfolding RINGBUF_PAD_mult [OF r] by linarith
    then have "(?w + 7) div 8 \<le> 128" by simp
    then have pw: "RINGBUF_PAD ?w \<le> 1024" using RINGBUF_PAD_mult [of ?w] w by simp
    obtain p mx rb where res: "ringbuf_write_request_max ?w (rs_ring s) = ((p, mx), rb)" by (metis surj_pair)
    have "p \<noteq> None"
      using write_request_succeeds [OF v e(1), of ?w] w pw assms(6) res by simp
    then obtain ptr where p: "p = Some ptr" by blast
    have "?w \<le> mx" using write_request_reserves [OF v _ res] p w RINGBUF_PAD_bounds(1) [of ?w] by auto
    then show ?thesis using res p e(2) assms(2) by (intro disjI1) (simp add: producer_main_def)
  next
    case (Cons d q')
    then show ?thesis using read_request_first [of "rs_ring s" d q'] q(1) assms(3,4)
      by (intro disjI2) (auto simp: consumer_main_def)
  qed
qed

lemma threads_inv_start:
  assumes "3 \<le> k" "k \<le> 31" "length (rb_buf rb) = 2 ^ k"
  shows "threads_inv iterations (threads_start (ringbuf_init (2 ^ k) True rb))"
  using ringbuf_init_rep [OF assms, of True]
  by (auto simp: threads_inv_def threads_start_def queue_ok_def prod_ok_def cons_ok_def intro!: exI [of _ "[]"])

theorem test_threaded_progress_witness:
  "let s = threads_start (ringbuf_init (2 ^ 13) True (sample_ring (2 ^ 13))) in
    (\<exists>s'. producer_main 10000 100 s = Some s' \<and> p_pc s' \<noteq> PLoop) \<or> (\<exists>s'. consumer_main 10000 s = Some s' \<and> c_pc s' \<noteq> CLoop)"
  unfolding Let_def
proof (rule test_threaded_progress)
  show "threads_inv 10000 (threads_start (ringbuf_init (2 ^ 13) True (sample_ring (2 ^ 13))))"
    by (rule threads_inv_start) (simp_all add: sample_ring_def)
qed (simp_all add: threads_start_def ringbuf_init_def)

text \<open>C9: the ring buffer is a first-in first-out channel.  Any sequence of
  sends (request, copy, advance) and receives (request, copy, advance) on a fresh
  buffer returns, and what was sent is what was received followed by what is still
  in the buffer.\<close>

theorem ringbuf_fifo:
  assumes "3 \<le> k" "k \<le> 31" "length (rb_buf rb) = 2 ^ k" "\<And>d. Send d \<in> set ops \<Longrightarrow> length d + 7 < 2 ^ 32"
  shows "\<exists>rb' q sent got. chan_run rb_send rb_recv ops (ringbuf_init (2 ^ k) ra rb) [] [] = Some (rb', sent, got) \<and>
    rb_rep rb' q \<and> sent = got @ q"
  using rbch.fifo [OF ringbuf_init_rep [OF assms(1-3)] _ assms(4)] by simp

theorem ringbuf_fifo_witness:
  "\<exists>rb' q sent got. chan_run rb_send rb_recv [Send [1, 2, 3], Send [4], Recv]
    (ringbuf_init (2 ^ 6) True (sample_ring 64)) [] [] = Some (rb', sent, got) \<and> rb_rep rb' q \<and> sent = got @ q"
  by (rule ringbuf_fifo) (auto simp: sample_ring_def)

text \<open>The body size is the least power of two that holds the requested
  minimum; the search returns for every minimum up to \<open>2 ^ 63\<close>.\<close>

theorem ringbuf_body_size_least:
  assumes "minimum \<le> 2 ^ 63"
  shows "\<exists>j. ringbuf_body_size minimum = Some (2 ^ j) \<and> minimum \<le> 2 ^ j \<and> (\<forall>i. minimum \<le> 2 ^ i \<longrightarrow> j \<le> i)"
proof -
  obtain j where j: "body_size_loop minimum (2 ^ 0) = Some (2 ^ j)" "minimum \<le> 2 ^ j" "0 < j \<longrightarrow> 2 ^ (j - 1) < minimum"
    using body_size_loop_run [of 0 minimum] assms by auto
  have "j \<le> i" if "minimum \<le> 2 ^ i" for i
  proof (rule ccontr)
    assume "\<not> j \<le> i"
    then have "(2::nat) ^ i \<le> 2 ^ (j - 1)" "0 < j" by (auto intro!: power_increasing)
    with order_trans [OF that this(1)] j(3) show False by simp
  qed
  with j show ?thesis by (auto simp: ringbuf_body_size_def)
qed

theorem ringbuf_body_size_least_witness: "\<exists>j. ringbuf_body_size 5000 = Some (2 ^ j) \<and> (5000::nat) \<le> 2 ^ j"
  using ringbuf_body_size_least [of 5000] by auto

text \<open>\<open>RINGBUF_PAD\<close> masks with the 32-bit constant \<open>~7U\<close>, so it rounds up to a
  multiple of 8 only below \<open>2 ^ 32 - 7\<close>; a request for \<open>2 ^ 32\<close> bytes is padded to 0
  and granted by a 64-byte buffer.\<close>

theorem ringbuf_pad_truncates:
  "RINGBUF_PAD (2 ^ 32) = 0 \<and>
   fst (ringbuf_write_request_max (2 ^ 32) (ringbuf_init 64 True (sample_ring 64))) = (Some 8, 63)"
  by (simp add: RINGBUF_PAD_def ringbuf_write_request_max_def ringbuf_init_def sample_ring_def ELEM_def Let_def
      size_add_def size_sub_def SIZE_MOD_def)

text \<open>The reserved size that \<open>ringbuf_write_request_max\<close> reports and the
  assertion of \<open>ringbuf_write_advance\<close> checks includes the element header.  A caller
  that writes as much as it was offered passes the assertion and publishes an
  element that reaches beyond the end of the buffer.\<close>

theorem ringbuf_advance_overrun:
  "\<exists>rb rb' n. ringbuf_write_request_max 40 (ringbuf_init 64 True (sample_ring 64)) = ((Some 8, n), rb) \<and>
    ringbuf_write_advance n rb = Some rb' \<and> ringbuf_read_request rb' = Some ((Some 8, n), rb') \<and>
    length (rb_buf rb') < 8 + n"
proof -
  let ?rb = "(ringbuf_init 64 True (sample_ring 64))\<lparr>rsvd := 63, gapd := 0\<rparr>"
  let ?b = "blit 0 (le_bytes 4 63 @ le_bytes 4 0) (replicate 64 0)"
  let ?rb' = "?rb\<lparr>rb_buf := ?b, rb_head := 8\<rparr>"
  note ar = RINGBUF_PAD_def ELEM_def size_add_def size_sub_def SIZE_MOD_def ringbuf_init_def sample_ring_def Let_def
  have "ringbuf_write_request_max 40 (ringbuf_init 64 True (sample_ring 64)) = ((Some 8, 63), ?rb)"
    by (simp add: ringbuf_write_request_max_def ar)
  moreover have "ringbuf_write_advance 63 ?rb = Some ?rb'"
    by (simp add: ringbuf_write_advance_def write_advance_raw_def put_element_some ar)
  moreover have "slice 0 4 ?b = slice (0 - 0) 4 (le_bytes 4 63 @ le_bytes 4 0)"
    by (rule slice_blit_inside) simp_all
  then have "element_size 0 ?b = Some 63"
    by (simp add: element_size_def mem_load_def slice_def le_val_le_bytes)
  then have "ringbuf_read_request ?rb' = Some ((Some 8, 63), ?rb')"
    by (simp add: ringbuf_read_request_def ar)
  moreover have "length ?b = 64" by simp
  ultimately show ?thesis by (intro exI [of _ ?rb] exI [of _ ?rb'] exI [of _ 63]) simp
qed

end
