(* ===== verification/Ringbuf_Shm.thy ===== *)
theory Ringbuf_Shm
  imports Ringbuf_Threads "HOL-Library.Monad_Syntax"
begin

text \<open>
  The shared-memory set-up of \<open>producer/producer.c\<close>.  The world holds the shared-memory
  objects, the one that the name is linked to, and what the process has open: descriptors,
  copies of the name and mappings.  An object holds the ring buffer; a new one is filled
  with zeros.
\<close>

section \<open>Set-up and release\<close>

record shm_world =
  linked :: "nat option"
  objects :: "nat \<Rightarrow> ringbuf"
  next_object :: nat
  fds :: nat
  names :: nat
  maps :: nat

text \<open>Which of the calls succeed, as far as that is not determined by the world.\<close>

record shm_answers =
  strdup_ok :: bool
  create_ok :: bool
  open_ok :: bool
  ftruncate_ok :: bool
  mmap_ok :: bool

text \<open>\<open>ringbuf_shm_t\<close>: the name and the descriptor are implied, the object is the one mapped.\<close>

record ringbuf_shm =
  shm_object :: nat

definition zero_ring :: "nat \<Rightarrow> ringbuf" where
  "zero_ring body = \<lparr>rb_size = 0, rb_mask = 0, rsvd = 0, gapd = 0, rb_acquire = Relaxed, rb_release = Relaxed,
     rb_head = 0, rb_tail = 0, rb_buf = replicate body 0\<rparr>"

text \<open>\<open>shm_open\<close> with \<open>O_CREAT | O_EXCL\<close>, and without.\<close>

definition shm_create :: "bool \<Rightarrow> nat \<Rightarrow> shm_world \<Rightarrow> (nat \<times> shm_world) option" where
  "shm_create ok body w =
     (if ok \<and> linked w = None
      then Some (next_object w, w\<lparr>linked := Some (next_object w), objects := (objects w)(next_object w := zero_ring body),
                   next_object := next_object w + 1, fds := fds w + 1\<rparr>)
      else None)"

definition shm_open :: "bool \<Rightarrow> shm_world \<Rightarrow> (nat \<times> shm_world) option" where
  "shm_open ok w = (if ok then map_option (\<lambda>obj. (obj, w\<lparr>fds := fds w + 1\<rparr>)) (linked w) else None)"

text \<open>The returned code, the handle and the world.  The outer \<open>None\<close> is a \<open>ringbuf_body_size\<close>
  that does not return.\<close>

definition ringbuf_shm_init ::
    "shm_answers \<Rightarrow> nat \<Rightarrow> bool \<Rightarrow> shm_world \<Rightarrow> (int \<times> ringbuf_shm option \<times> shm_world) option" where
  "ringbuf_shm_init K minimum release_and_acquire w =
     do { body_size \<leftarrow> ringbuf_body_size minimum;
          Some (if \<not> strdup_ok K then (-1, None, w)
            else let w = w\<lparr>names := names w + 1\<rparr>;
                     (is_first, r) = (case shm_create (create_ok K) body_size w of
                        Some ow \<Rightarrow> (True, Some ow)
                      | None \<Rightarrow> (False, shm_open (open_ok K) w))
                 in case r of
                      None \<Rightarrow> (-1, None, w\<lparr>names := names w - 1\<rparr>)
                    | Some (obj, w) \<Rightarrow>
                        if \<not> (ftruncate_ok K \<and> mmap_ok K)
                        then (-1, None, w\<lparr>linked := None, fds := fds w - 1, names := names w - 1\<rparr>)
                        else let w = w\<lparr>maps := maps w + 1\<rparr>;
                                 w = (if is_first
                                      then w\<lparr>objects := (objects w)(obj := ringbuf_init body_size release_and_acquire (objects w obj))\<rparr>
                                      else w)
                             in (0, Some \<lparr>shm_object = obj\<rparr>, w)) }"

definition ringbuf_shm_deinit :: "ringbuf_shm \<Rightarrow> shm_world \<Rightarrow> shm_world" where
  "ringbuf_shm_deinit h w = w\<lparr>maps := maps w - 1, linked := None, fds := fds w - 1, names := names w - 1\<rparr>"

text \<open>\<open>ringbuf_free\<close>: whether a block is passed to \<open>free\<close>.\<close>

definition ringbuf_free :: "ringbuf option \<Rightarrow> bool" where
  "ringbuf_free rb = (rb \<noteq> None)"

section \<open>Properties\<close>

lemma body_size_some:
  assumes "minimum \<le> 2 ^ 63"
  obtains j where "ringbuf_body_size minimum = Some (2 ^ j)" "minimum \<le> 2 ^ j" "j \<le> 63" "0 < j \<Longrightarrow> 2 ^ (j - 1) < minimum"
  using body_size_loop_run [of 0 minimum] assms by (auto simp: ringbuf_body_size_def)

text \<open>What the process holds: nothing more after a failure, one of each after a success.\<close>

definition holdings :: "shm_world \<Rightarrow> nat \<times> nat \<times> nat" where
  "holdings w = (fds w, names w, maps w)"

theorem shm_init_outcome:
  assumes "minimum \<le> 2 ^ 63"
  shows "\<exists>r h w'. ringbuf_shm_init K minimum ra w = Some (r, h, w') \<and>
    (if r = 0 then (\<exists>obj. h = Some \<lparr>shm_object = obj\<rparr> \<and> linked w' = Some obj \<and>
         holdings w' = (fds w + 1, names w + 1, maps w + 1) \<and>
         holdings (ringbuf_shm_deinit \<lparr>shm_object = obj\<rparr> w') = holdings w)
     else r = -1 \<and> h = None \<and> holdings w' = holdings w)"
proof -
  obtain j where j: "ringbuf_body_size minimum = Some (2 ^ j)" using body_size_some [OF assms] by metis
  show ?thesis
    by (cases "linked w") (auto simp: ringbuf_shm_init_def j Let_def shm_create_def shm_open_def holdings_def ringbuf_shm_deinit_def)
qed

text \<open>The first process creates the buffer and initialises it; a process that attaches after
  that shares it.\<close>

theorem shm_init_shares:
  assumes m: "8 \<le> minimum" "minimum \<le> 2 ^ 31" and K: "strdup_ok K" "create_ok K" "ftruncate_ok K" "mmap_ok K" "open_ok K" and w: "linked w = None"
  shows "\<exists>obj w1 w2. ringbuf_shm_init K minimum ra w = Some (0, Some \<lparr>shm_object = obj\<rparr>, w1) \<and>
    rb_valid (objects w1 obj) \<and> rb_head (objects w1 obj) = 0 \<and> rb_tail (objects w1 obj) = 0 \<and> minimum \<le> rb_size (objects w1 obj) \<and>
    ringbuf_shm_init K minimum ra w1 = Some (0, Some \<lparr>shm_object = obj\<rparr>, w2) \<and> objects w2 = objects w1"
proof -
  have "minimum \<le> 2 ^ 63" using m(2) by simp
  then obtain j where j: "ringbuf_body_size minimum = Some (2 ^ j)" "minimum \<le> 2 ^ j" "0 < j \<Longrightarrow> 2 ^ (j - 1) < minimum"
    by (rule body_size_some) blast
  have "3 \<le> j"
  proof (rule ccontr)
    assume "\<not> 3 \<le> j"
    then have "(2::nat) ^ j \<le> 2 ^ 2" by (intro power_increasing) auto
    then show False using j(2) m(1) by simp
  qed
  moreover have "j \<le> 31"
  proof (rule ccontr)
    assume "\<not> j \<le> 31"
    then have "(2::nat) ^ 31 \<le> 2 ^ (j - 1)" by (intro power_increasing) auto
    moreover have "0 < j" using \<open>\<not> j \<le> 31\<close> by simp
    ultimately show False using j(3) m(2) by linarith
  qed
  moreover have "size_sub (2 ^ j) 1 = 2 ^ j - 1"
  proof -
    have "(2::nat) ^ j \<le> 2 ^ 31" using \<open>j \<le> 31\<close> by (rule power_increasing) simp
    then show ?thesis by (simp add: size_sub_id SIZE_MOD_def)
  qed
  moreover have "(8::nat) \<le> 2 ^ j" using j(2) m(1) by simp
  ultimately have "rb_valid (ringbuf_init (2 ^ j) ra (zero_ring (2 ^ j)))"
    by (auto simp: rb_valid_def ringbuf_init_def zero_ring_def)
  then show ?thesis
    using K w j(1,2) by (simp add: ringbuf_shm_init_def Let_def shm_create_def shm_open_def ringbuf_init_def zero_ring_def)
qed

text \<open>Two defects.  A process that attaches but then fails removes the name of the object that
  another process has created.  And the name is linked before the buffer is initialised: a
  producer that finds \<open>size\<close> stored but \<open>mask\<close> still zero gets a reservation, and its message
  is lost because the head stays where it was.\<close>

lemma shm_failure_unlinks_others:
  assumes "linked w = Some obj" "strdup_ok K" "open_ok K" "\<not> mmap_ok K" "minimum \<le> 2 ^ 63"
  shows "\<exists>w'. ringbuf_shm_init K minimum ra w = Some (-1, None, w') \<and> linked w' = None"
proof -
  obtain j where j: "ringbuf_body_size minimum = Some (2 ^ j)" using body_size_some [OF assms(5)] by metis
  show ?thesis using assms by (simp add: ringbuf_shm_init_def j Let_def shm_create_def shm_open_def)
qed

lemma shm_race_loses_message:
  "\<exists>p n rb rb'. ringbuf_write_request_max 8 ((zero_ring 8192)\<lparr>rb_size := 8192\<rparr>) = ((Some p, n), rb) \<and>
     ringbuf_write_advance 8 rb = Some rb' \<and> rb_head rb' = rb_tail rb'"
proof -
  have "RINGBUF_PAD 8 = 8" by (subst RINGBUF_PAD_mult) simp_all
  then show ?thesis
    by (simp add: zero_ring_def ringbuf_write_request_max_def ringbuf_write_advance_def Let_def size_add_def size_sub_def
      SIZE_MOD_def ELEM_def put_element_some write_advance_raw_def)
qed

end
