(* ===== verification/Vqueue.thy ===== *)
theory Vqueue
  imports Prelude Channel
begin

text \<open>
  The blocking message queue of \<open>ring-buffer/queue.h\<close>.  Its buffer is one block
  of physical memory mapped twice in a row, so the byte at virtual offset \<open>i\<close> is
  the physical byte \<open>i mod size\<close>, for offsets below twice the size; an access
  beyond that is the result \<open>None\<close>.  \<open>queue_put\<close> and \<open>queue_get\<close> are the critical
  sections between locking and either waiting or unlocking; theory
  \<open>Vqueue_Threads\<close> adds the threads and the condition variables.
\<close>

section \<open>The double mapping\<close>

definition vread :: "u8 list \<Rightarrow> nat \<Rightarrow> nat \<Rightarrow> u8 list" where
  "vread mem off n = map (\<lambda>i. mem ! (i mod length mem)) [off..<off + n]"

fun vwrite :: "u8 list \<Rightarrow> nat \<Rightarrow> u8 list \<Rightarrow> u8 list" where
  "vwrite mem off [] = mem"
| "vwrite mem off (y # ys) = vwrite (mem[off mod length mem := y]) (Suc off) ys"

definition vload :: "u8 list \<Rightarrow> nat \<Rightarrow> nat \<Rightarrow> u8 list option" where
  "vload mem off n = (if off + n \<le> 2 * length mem then Some (vread mem off n) else None)"

definition vstore :: "u8 list \<Rightarrow> nat \<Rightarrow> u8 list \<Rightarrow> u8 list option" where
  "vstore mem off ys = (if off + length ys \<le> 2 * length mem then Some (vwrite mem off ys) else None)"

section \<open>Operations\<close>

record vqueue =
  vq_buffer :: "u8 list"
  vq_size :: nat
  vq_fd :: int
  vq_head :: nat
  vq_tail :: nat
  vq_head_seq :: nat
  vq_tail_seq :: nat

text \<open>\<open>sizeof(message_t)\<close>: the length and the sequence number.\<close>

definition MSG :: nat where "MSG = 16"

text \<open>
  The kernel and pthread calls of \<open>queue_init\<close> in their order; each field tells
  what the call returns (\<open>True\<close> for success).
\<close>

record queue_calls =
  memfd_create :: int
  ftruncate_ok :: bool
  mmap_range_ok :: bool
  mmap_first_ok :: bool
  mmap_second_ok :: bool
  mutex_init_ok :: bool
  readable_init_ok :: bool
  writeable_init_ok :: bool

datatype queue_error = SizeNotPages | NoMemfd | NoTruncate | NoAddress | NoMap | NoMutex | NoCond
  | NoUnmap | NoClose

definition queue_init :: "nat \<Rightarrow> queue_calls \<Rightarrow> nat \<Rightarrow> queue_error + vqueue" where
  "queue_init pagesize k s =
     (if s mod pagesize \<noteq> 0 then Inl SizeNotPages
      else if memfd_create k = -1 then Inl NoMemfd
      else if \<not> ftruncate_ok k then Inl NoTruncate
      else if \<not> mmap_range_ok k then Inl NoAddress
      else if \<not> mmap_first_ok k then Inl NoMap
      else if \<not> mmap_second_ok k then Inl NoMap
      else if \<not> mutex_init_ok k then Inl NoMutex
      else if \<not> readable_init_ok k then Inl NoCond
      else if \<not> writeable_init_ok k then Inl NoCond
      else Inr \<lparr>vq_buffer = replicate s 0, vq_size = s, vq_fd = memfd_create k,
        vq_head = 0, vq_tail = 0, vq_head_seq = 0, vq_tail_seq = 0\<rparr>)"

record destroy_calls =
  munmap_second_ok :: bool
  munmap_first_ok :: bool
  close_ok :: bool
  mutex_destroy_ok :: bool
  readable_destroy_ok :: bool
  writeable_destroy_ok :: bool

definition queue_destroy :: "destroy_calls \<Rightarrow> queue_error + unit" where
  "queue_destroy k =
     (if \<not> munmap_second_ok k then Inl NoUnmap
      else if \<not> munmap_first_ok k then Inl NoUnmap
      else if \<not> close_ok k then Inl NoClose
      else if \<not> mutex_destroy_ok k then Inl NoMutex
      else if \<not> readable_destroy_ok k then Inl NoCond
      else if \<not> writeable_destroy_ok k then Inl NoCond
      else Inr ())"

text \<open>\<open>Some None\<close>: the caller waits on \<open>writeable\<close>.\<close>

definition queue_put :: "u8 list \<Rightarrow> vqueue \<Rightarrow> vqueue option option" where
  "queue_put buffer q =
     (let sz = length buffer
      in if size_sub (vq_size q) (size_sub (vq_tail q) (vq_head q)) < size_add sz MSG then Some None
         else let m = le_bytes 8 sz @ le_bytes 8 (vq_tail_seq q);
                  q1 = q\<lparr>vq_tail_seq := size_add (vq_tail_seq q) 1\<rparr>
              in case vstore (vq_buffer q1) (vq_tail q1) m of
                   None \<Rightarrow> None
                 | Some b1 \<Rightarrow>
                     (case vstore b1 (size_add (vq_tail q1) MSG) buffer of
                        None \<Rightarrow> None
                      | Some b2 \<Rightarrow>
                          Some (Some (q1\<lparr>vq_buffer := b2,
                            vq_tail := size_add (vq_tail q1) (size_add MSG sz)\<rparr>))))"

text \<open>
  \<open>WaitReadable\<close> and \<open>WaitTooLong seq\<close> are the two ways to wait.  When the header
  at the front is too long but carries another sequence number than \<open>head_seq\<close>,
  the code goes round its loop for ever: \<open>None\<close>.
\<close>

datatype get_result = WaitReadable | WaitTooLong nat | Got "u8 list" vqueue

definition queue_get :: "nat \<Rightarrow> vqueue \<Rightarrow> get_result option" where
  "queue_get mx q =
     (if size_sub (vq_tail q) (vq_head q) = 0 then Some WaitReadable
      else case vload (vq_buffer q) (vq_head q) MSG of
             None \<Rightarrow> None
           | Some m \<Rightarrow>
               (let len = le_val (take 8 m); seq = le_val (drop 8 m)
                in if len > mx then if vq_head_seq q = seq then Some (WaitTooLong seq) else None
                   else case vload (vq_buffer q) (size_add (vq_head q) MSG) len of
                          None \<Rightarrow> None
                        | Some d \<Rightarrow>
                            (let q1 = q\<lparr>vq_head := size_add (vq_head q) (size_add len MSG),
                                        vq_head_seq := size_add (vq_head_seq q) 1\<rparr>;
                                 q2 = (if vq_head q1 \<ge> vq_size q1
                                       then q1\<lparr>vq_head := size_sub (vq_head q1) (vq_size q1),
                                               vq_tail := size_sub (vq_tail q1) (vq_size q1)\<rparr>
                                       else q1)
                             in Some (Got d q2))))"

section \<open>Reading and writing through the mapping\<close>

lemma length_vread [simp]: "length (vread mem off n) = n"
  by (simp add: vread_def)

lemma length_vwrite [simp]: "length (vwrite mem off ys) = length mem"
  by (induction mem off ys rule: vwrite.induct) auto

lemma vread_append: "vread mem off (n + m) = vread mem off n @ vread mem (off + n) m"
  using upt_add_eq_append [of off "off + n" m] by (simp add: vread_def add.assoc)

lemma vread_wrap: "vread mem (off + length mem) n = vread mem off n"
proof (intro nth_equalityI)
  fix i
  have "(off + length mem + i) mod length mem = (off + i + length mem) mod length mem" by (simp add: ac_simps)
  also have "\<dots> = (off + i) mod length mem" by simp
  finally show "i < length (vread mem (off + length mem) n) \<Longrightarrow> vread mem (off + length mem) n ! i = vread mem off n ! i"
    by (simp add: vread_def)
qed simp

lemma vwrite_other: "(\<And>i. i < length ys \<Longrightarrow> (off + i) mod length mem \<noteq> k) \<Longrightarrow> vwrite mem off ys ! k = mem ! k"
proof (induction mem off ys rule: vwrite.induct)
  case (2 mem off y ys)
  have "(Suc off + i) mod length (mem[off mod length mem := y]) \<noteq> k" if "i < length ys" for i
    using 2(2) [of "Suc i"] that by simp
  then have "vwrite (mem[off mod length mem := y]) (Suc off) ys ! k = mem[off mod length mem := y] ! k"
    by (rule 2(1))
  moreover have "off mod length mem \<noteq> k" using 2(2) [of 0] by simp
  ultimately show ?case by simp
qed simp

lemma mod_diff_neq:
  assumes "i < j" "j < i + n"
  shows "(i :: nat) mod n \<noteq> j mod n"
proof
  assume "i mod n = j mod n"
  then have "n dvd j - i" using assms by (metis mod_eq_dvd_iff_nat less_imp_le)
  with assms show False using nat_dvd_not_less [of "j - i" n] by auto
qed

lemma vwrite_same:
  "i < length ys \<Longrightarrow> length ys \<le> length mem \<Longrightarrow> vwrite mem off ys ! ((off + i) mod length mem) = ys ! i"
proof (induction mem off ys arbitrary: i rule: vwrite.induct)
  case (2 mem off y ys)
  let ?mem = "mem[off mod length mem := y]"
  show ?case
  proof (cases i)
    case 0
    have "vwrite ?mem (Suc off) ys ! (off mod length mem) = ?mem ! (off mod length mem)"
    proof (rule vwrite_other)
      fix j assume "j < length ys"
      then have "off mod length mem \<noteq> (Suc off + j) mod length mem"
        using 2(3) by (intro mod_diff_neq) auto
      then show "(Suc off + j) mod length ?mem \<noteq> off mod length mem" by simp
    qed
    moreover have "off mod length mem < length mem" using 2(3) by (intro mod_less_divisor) auto
    ultimately show ?thesis using 0 by simp
  next
    case (Suc j)
    then show ?thesis using 2(1) [of j] 2(2,3) by simp
  qed
qed simp

text \<open>A window of at most the whole buffer reads back what was written, and leaves the rest alone.\<close>

lemma vread_vwrite_same: "length ys \<le> length mem \<Longrightarrow> vread (vwrite mem off ys) off (length ys) = ys"
  by (intro nth_equalityI) (auto simp: vread_def vwrite_same)

lemma vread_vwrite_before:
  assumes "a + n \<le> off" "off + length ys \<le> a + length mem"
  shows "vread (vwrite mem off ys) a n = vread mem a n"
proof (intro nth_equalityI)
  fix i assume "i < length (vread (vwrite mem off ys) a n)"
  then have i: "i < n" by simp
  have "vwrite mem off ys ! ((a + i) mod length mem) = mem ! ((a + i) mod length mem)"
  proof (rule vwrite_other)
    fix j assume "j < length ys"
    then have "(a + i) mod length mem \<noteq> (off + j) mod length mem"
      using assms i by (intro mod_diff_neq) auto
    then show "(off + j) mod length mem \<noteq> (a + i) mod length mem" by simp
  qed
  with i show "vread (vwrite mem off ys) a n ! i = vread mem a n ! i" by (simp add: vread_def)
qed simp

lemma vwrite_append: "vwrite mem off (xs @ ys) = vwrite (vwrite mem off xs) (off + length xs) ys"
  by (induction mem off xs rule: vwrite.induct) auto

section \<open>Messages in the queue\<close>

definition vmsg_at :: "u8 list \<Rightarrow> nat \<Rightarrow> nat \<Rightarrow> u8 list \<Rightarrow> bool" where
  "vmsg_at mem pos seq d \<longleftrightarrow> vread mem pos 16 = le_bytes 8 (length d) @ le_bytes 8 seq \<and> vread mem (pos + 16) (length d) = d"

fun vlin :: "u8 list \<Rightarrow> nat \<Rightarrow> nat \<Rightarrow> u8 list list \<Rightarrow> nat \<Rightarrow> bool" where
  "vlin mem a seq [] e \<longleftrightarrow> a = e"
| "vlin mem a seq (d # q) e \<longleftrightarrow> vmsg_at mem a seq d \<and> vlin mem (a + 16 + length d) (size_add seq 1) q e"

fun seq_after :: "nat \<Rightarrow> nat \<Rightarrow> nat" where
  "seq_after s 0 = s"
| "seq_after s (Suc n) = seq_after (size_add s 1) n"

definition vq_rep :: "vqueue \<Rightarrow> u8 list list \<Rightarrow> bool" where
  "vq_rep q ms \<longleftrightarrow> length (vq_buffer q) = vq_size q \<and> vq_size q \<le> 2 ^ 62 \<and>
     (vq_head q < vq_size q \<or> vq_size q = 0 \<and> vq_head q = 0) \<and>
     vq_tail q \<le> vq_head q + vq_size q \<and> vq_head_seq q < SIZE_MOD \<and>
     vq_tail_seq q = seq_after (vq_head_seq q) (length ms) \<and>
     vlin (vq_buffer q) (vq_head q) (vq_head_seq q) ms (vq_tail q)"

lemma vlin_le: "vlin mem a seq ms e \<Longrightarrow> a + 16 * length ms + length (concat ms) = e"
  by (induction ms arbitrary: a seq) fastforce+

lemma vlin_wrap: "vlin mem (a + length mem) seq ms (e + length mem) = vlin mem a seq ms e"
proof (induction ms arbitrary: a seq)
  case (Cons d ms)
  have "vmsg_at mem (a + length mem) seq d = vmsg_at mem a seq d"
    using vread_wrap [of mem a 16] vread_wrap [of mem "a + 16" "length d"] by (simp add: vmsg_at_def ac_simps)
  moreover have "vlin mem (a + length mem + 16 + length d) (size_add seq 1) ms (e + length mem) =
      vlin mem (a + 16 + length d) (size_add seq 1) ms e"
    using Cons [of "a + 16 + length d"] by (simp add: ac_simps)
  ultimately show ?case by simp
qed simp

lemma vlin_snoc:
  "vlin mem a seq (ms @ [d]) e \<longleftrightarrow>
    (\<exists>m. vlin mem a seq ms m \<and> vmsg_at mem m (seq_after seq (length ms)) d \<and> e = m + 16 + length d)"
  by (induction ms arbitrary: a seq) auto

lemma vlin_vwrite:
  assumes "vlin mem a seq ms off" "off + length ys \<le> b + length mem" "b \<le> a"
  shows "vlin (vwrite mem off ys) a seq ms off"
  using assms
proof (induction ms arbitrary: a seq)
  case (Cons d ms)
  have "a + 16 + length d \<le> off" using Cons.prems(1) vlin_le [of mem "a + 16 + length d" "size_add seq 1" ms off] by simp
  then have "vread (vwrite mem off ys) a 16 = vread mem a 16"
    "vread (vwrite mem off ys) (a + 16) (length d) = vread mem (a + 16) (length d)"
    using Cons.prems(2,3) by (intro vread_vwrite_before; simp)+
  then show ?case using Cons by (simp add: vmsg_at_def)
qed simp

lemma seq_after_Suc: "seq_after s (Suc n) = size_add (seq_after s n) 1"
  by (induction n arbitrary: s) simp_all

lemma seq_after_less: "s < SIZE_MOD \<Longrightarrow> seq_after s n < SIZE_MOD"
  by (induction n arbitrary: s) auto

definition used :: "u8 list list \<Rightarrow> nat" where
  "used ms = 16 * length ms + length (concat ms)"

lemma vq_repD:
  assumes "vq_rep q ms"
  shows "length (vq_buffer q) = vq_size q" "vq_size q \<le> 2 ^ 62" "vq_head q \<le> vq_size q"
    "vq_tail q = vq_head q + used ms" "used ms \<le> vq_size q" "vq_head_seq q < SIZE_MOD"
    "vq_tail_seq q = seq_after (vq_head_seq q) (length ms)"
    "vlin (vq_buffer q) (vq_head q) (vq_head_seq q) ms (vq_tail q)"
    "size_sub (vq_tail q) (vq_head q) = used ms"
proof -
  show "vq_tail q = vq_head q + used ms"
    using assms vlin_le [of "vq_buffer q" "vq_head q" "vq_head_seq q" ms "vq_tail q"]
    by (simp add: vq_rep_def used_def)
  then show "used ms \<le> vq_size q" using assms by (auto simp: vq_rep_def)
  then show "size_sub (vq_tail q) (vq_head q) = used ms"
    using assms \<open>vq_tail q = _\<close> by (subst size_sub_id) (auto simp: vq_rep_def SIZE_MOD_def)
qed (use assms in \<open>auto simp: vq_rep_def\<close>)

lemma used_simps [simp]: "used [] = 0" "used (d # ms) = 16 + length d + used ms" "used (ms @ ms') = used ms + used ms'"
  by (simp_all add: used_def)

lemma queue_put_step:
  assumes rep: "vq_rep q ms" and d: "length d < 2 ^ 63"
  shows "if vq_size q < used (ms @ [d]) then queue_put d q = Some None
    else \<exists>q'. queue_put d q = Some (Some q') \<and> vq_rep q' (ms @ [d]) \<and> vq_size q' = vq_size q \<and>
      vq_head_seq q' = vq_head_seq q"
proof -
  note D = vq_repD [OF rep]
  have sp: "size_sub (vq_size q) (size_sub (vq_tail q) (vq_head q)) = vq_size q - used ms"
    unfolding D(9) using D(2,5) by (intro size_sub_id) (auto simp: SIZE_MOD_def)
  have need: "size_add (length d) MSG = length d + 16" using d by (simp add: size_add_def SIZE_MOD_def MSG_def)
  have lt: "vq_size q - used ms < length d + 16 \<longleftrightarrow> vq_size q < used (ms @ [d])" using D(5) by auto
  show ?thesis
  proof (cases "vq_size q < used (ms @ [d])")
    case True
    then show ?thesis using lt unfolding queue_put_def Let_def sp need by simp
  next
    case False
    let ?t = "vq_tail q" and ?b = "vq_buffer q" and ?m = "le_bytes 8 (length d) @ le_bytes 8 (vq_tail_seq q)"
    have fit: "?t + 16 + length d \<le> vq_head q + vq_size q" using False D(4) by simp
    have len: "length (?m @ d) \<le> length ?b" using False D(1) by simp
    let ?b' = "vwrite ?b ?t (?m @ d)"
    have b': "?b' = vwrite (vwrite ?b ?t ?m) (?t + 16) d"
      using vwrite_append [of ?b ?t ?m d] by simp
    have t1: "size_add ?t MSG = ?t + 16" "size_add ?t (size_add MSG (length d)) = ?t + 16 + length d"
      using fit D(2,3) d by (simp_all add: size_add_def SIZE_MOD_def MSG_def)
    let ?q = "q\<lparr>vq_tail_seq := size_add (vq_tail_seq q) 1, vq_buffer := ?b', vq_tail := ?t + 16 + length d\<rparr>"
    have res: "queue_put d q = Some (Some ?q)"
      using lt False fit D(1,3) t1 b' unfolding queue_put_def Let_def sp need by (simp add: vstore_def)
    have "vlin ?b' (vq_head q) (vq_head_seq q) ms ?t"
      using D(8) by (rule vlin_vwrite [where b = "vq_head q"]) (use fit D(1) in auto)
    moreover have "vmsg_at ?b' ?t (vq_tail_seq q) d"
    proof -
      have "vread ?b' ?t (16 + length d) = ?m @ d" using vread_vwrite_same [OF len, of ?t] by simp
      then have "vread ?b' ?t 16 @ vread ?b' (?t + 16) (length d) = ?m @ d" by (simp add: vread_append)
      then show ?thesis by (subst (asm) append_eq_append_conv) (simp_all add: vmsg_at_def)
    qed
    ultimately have "vlin ?b' (vq_head q) (vq_head_seq q) (ms @ [d]) (?t + 16 + length d)"
      using D(7) by (auto simp: vlin_snoc)
    moreover have "seq_after (vq_head_seq q) (length (ms @ [d])) = size_add (vq_tail_seq q) 1"
      using D(7) seq_after_Suc [of "vq_head_seq q" "length ms"] by simp
    ultimately have "vq_rep ?q (ms @ [d])" using rep fit by (simp add: vq_rep_def)
    with res False show ?thesis by auto
  qed
qed

lemma queue_get_empty: "vq_rep q [] \<Longrightarrow> queue_get mx q = Some WaitReadable"
  using vq_repD(9) [of q "[]"] by (simp add: queue_get_def)

lemma queue_get_step:
  assumes rep: "vq_rep q (d # ms)"
  shows "if mx < length d then queue_get mx q = Some (WaitTooLong (vq_head_seq q))
    else \<exists>q'. queue_get mx q = Some (Got d q') \<and> vq_rep q' ms \<and> vq_size q' = vq_size q \<and>
      vq_head_seq q' = size_add (vq_head_seq q) 1"
proof -
  note D = vq_repD [OF rep]
  let ?h = "vq_head q" and ?b = "vq_buffer q"
  have sz: "0 < vq_size q" "?h < vq_size q" using rep D(5) by (auto simp: vq_rep_def)
  have d: "16 + length d + used ms \<le> vq_size q" using D(5) by simp
  have at: "vread ?b ?h 16 = le_bytes 8 (length d) @ le_bytes 8 (vq_head_seq q)" "vread ?b (?h + 16) (length d) = d"
    using D(8) by (simp_all add: vmsg_at_def)
  have hdr: "vload ?b ?h MSG = Some (le_bytes 8 (length d) @ le_bytes 8 (vq_head_seq q))"
    using at(1) D(1) d sz by (simp add: vload_def MSG_def)
  have val: "le_val (le_bytes 8 (length d)) = length d" "le_val (le_bytes 8 (vq_head_seq q)) = vq_head_seq q"
    using d D(2,6) by (auto simp: SIZE_MOD_def)
  have ne: "size_sub (vq_tail q) ?h \<noteq> 0" using D(9) by simp
  show ?thesis
  proof (cases "mx < length d")
    case True
    then show ?thesis using ne hdr val by (simp add: queue_get_def)
  next
    case False
    have body: "vload ?b (?h + 16) (length d) = Some d" using at(2) D(1) d sz by (simp add: vload_def)
    have add: "size_add ?h MSG = ?h + 16" "size_add ?h (size_add (length d) MSG) = ?h + 16 + length d"
      using d sz D(2) by (simp_all add: size_add_def SIZE_MOD_def MSG_def)
    let ?q1 = "q\<lparr>vq_head := ?h + 16 + length d, vq_head_seq := size_add (vq_head_seq q) 1\<rparr>"
    have tail: "vq_tail q = ?h + 16 + length d + used ms" using D(4) by simp
    have lin: "vlin ?b (?h + 16 + length d) (size_add (vq_head_seq q) 1) ms (vq_tail q)" using D(8) by simp
    have seq: "vq_tail_seq q = seq_after (size_add (vq_head_seq q) 1) (length ms)" using D(7) by simp
    show ?thesis
    proof (cases "vq_size q \<le> ?h + 16 + length d")
      case True
      let ?q2 = "?q1\<lparr>vq_head := ?h + 16 + length d - vq_size q, vq_tail := vq_tail q - vq_size q\<rparr>"
      have sub: "size_sub (?h + 16 + length d) (vq_size q) = ?h + 16 + length d - vq_size q"
        "size_sub (vq_tail q) (vq_size q) = vq_tail q - vq_size q"
        using True d sz D(2) tail by (intro size_sub_id; simp add: SIZE_MOD_def)+
      have res: "queue_get mx q = Some (Got d ?q2)"
        using False True ne hdr val body add sub by (simp add: queue_get_def Let_def)
      have "vlin ?b (?h + 16 + length d - vq_size q) (size_add (vq_head_seq q) 1) ms (vq_tail q - vq_size q)"
        using lin vlin_wrap [of ?b "?h + 16 + length d - vq_size q" _ ms "vq_tail q - vq_size q"] True tail D(1) by simp
      moreover have "?h + 16 + length d - vq_size q < vq_size q"
        "vq_tail q - vq_size q \<le> ?h + 16 + length d - vq_size q + vq_size q"
        using True tail d sz by linarith+
      ultimately have "vq_rep ?q2 ms" using rep seq by (simp add: vq_rep_def)
      with res False show ?thesis by auto
    next
      case small: False
      have "queue_get mx q = Some (Got d ?q1)"
        using False small ne hdr val body add by (simp add: queue_get_def Let_def)
      moreover have "vq_rep ?q1 ms" using rep seq small tail d sz lin by (simp add: vq_rep_def)
      ultimately show ?thesis using False by auto
    qed
  qed
qed

lemma queue_init_rep:
  assumes "queue_init pagesize k s = Inr q" "s \<le> 2 ^ 62"
  shows "vq_rep q []" "vq_size q = s"
  using assms by (auto simp: queue_init_def vq_rep_def SIZE_MOD_def split: if_splits)

section \<open>The queue is a channel\<close>

text \<open>Without blocking: a put that would wait reports that there is no room.\<close>

definition vq_send :: "u8 list \<Rightarrow> vqueue \<Rightarrow> (bool \<times> vqueue) option" where
  "vq_send d q = map_option (\<lambda>r. case r of None \<Rightarrow> (False, q) | Some q' \<Rightarrow> (True, q')) (queue_put d q)"

definition vq_recv :: "nat \<Rightarrow> vqueue \<Rightarrow> (u8 list option \<times> vqueue) option" where
  "vq_recv mx q = map_option (\<lambda>r. case r of Got d q' \<Rightarrow> (Some d, q') | _ \<Rightarrow> (None, q)) (queue_get mx q)"

interpretation vqch: channel "\<lambda>q ms. vq_rep q ms \<and> (\<forall>d \<in> set ms. length d \<le> mx)"
  "\<lambda>d. length d < 2 ^ 63 \<and> length d \<le> mx" vq_send "vq_recv mx"
proof
  show "\<exists>ok s'. vq_send m s = Some (ok, s') \<and> vq_rep s' (if ok then q @ [m] else q) \<and>
      (\<forall>d \<in> set (if ok then q @ [m] else q). length d \<le> mx)"
    if "vq_rep s q \<and> (\<forall>d \<in> set q. length d \<le> mx)" "length m < 2 ^ 63 \<and> length m \<le> mx" for s q m
    using queue_put_step [of s q m] that by (force simp: vq_send_def split: if_splits)
  show "\<exists>s'. vq_recv mx s = Some (None, s') \<and> vq_rep s' [] \<and> (\<forall>d \<in> set []. length d \<le> mx)"
    if "vq_rep s [] \<and> (\<forall>d \<in> set []. length d \<le> mx)" for s
    using queue_get_empty [of s] that by (simp add: vq_recv_def)
  show "\<exists>s'. vq_recv mx s = Some (Some m, s') \<and> vq_rep s' q \<and> (\<forall>d \<in> set q. length d \<le> mx)"
    if "vq_rep s (m # q) \<and> (\<forall>d \<in> set (m # q). length d \<le> mx)" for s m q
    using queue_get_step [of s m q mx] that by (auto simp: vq_recv_def)
qed

end
