(* ===== verification/Vqueue_Threads.thy ===== *)
theory Vqueue_Threads
  imports Vqueue
begin

text \<open>
  Threads that call \<open>queue_put\<close> and \<open>queue_get\<close> of \<open>ring-buffer/queue.h\<close>.  The
  mutex makes each critical section one step; a step ends in
  \<open>pthread_cond_wait\<close>, which parks the thread on one of the two condition
  variables, or in \<open>pthread_cond_signal\<close> and unlock.  A signal wakes one thread
  parked on the variable, whichever the scheduler picks, or none if there is none.
  With the flag \<open>sp\<close> threads may also wake spuriously, as POSIX allows.
\<close>

section \<open>Threads\<close>

datatype qop = Put "u8 list" | Get nat

text \<open>
  \<open>OnReadable\<close>, \<open>OnWriteable\<close>: parked in the two inner loops of \<open>queue_get\<close> and
  \<open>queue_put\<close>; \<open>OnSeq s\<close>: parked on \<open>writeable\<close> because the front message with
  sequence number \<open>s\<close> is too long; \<open>Recheck s\<close>: woken from there.
\<close>

datatype qstatus = Ready | OnReadable | OnWriteable | OnSeq nat | Recheck nat

record qconf =
  cf_q :: vqueue
  cf_threads :: "(qop list \<times> qstatus) list"
  cf_sent :: "u8 list list"
  cf_got :: "u8 list list"

fun wake_readable :: "qstatus \<Rightarrow> qstatus option" where
  "wake_readable OnReadable = Some Ready"
| "wake_readable _ = None"

fun wake_writeable :: "qstatus \<Rightarrow> qstatus option" where
  "wake_writeable OnWriteable = Some Ready"
| "wake_writeable (OnSeq s) = Some (Recheck s)"
| "wake_writeable _ = None"

inductive signal :: "(qstatus \<Rightarrow> qstatus option) \<Rightarrow> (qop list \<times> qstatus) list \<Rightarrow> (qop list \<times> qstatus) list \<Rightarrow> bool"
  for wake where
  nobody: "(\<And>t. t \<in> set ts \<Longrightarrow> wake (snd t) = None) \<Longrightarrow> signal wake ts ts"
| somebody: "i < length ts \<Longrightarrow> ts ! i = (ops, st) \<Longrightarrow> wake st = Some st' \<Longrightarrow> signal wake ts (ts[i := (ops, st')])"

inductive qstep :: "bool \<Rightarrow> qconf \<Rightarrow> qconf \<Rightarrow> bool" for sp where
  put_wait: "i < length (cf_threads c) \<Longrightarrow> cf_threads c ! i = (Put d # ops, Ready) \<Longrightarrow>
    queue_put d (cf_q c) = Some None \<Longrightarrow>
    qstep sp c (c\<lparr>cf_threads := (cf_threads c)[i := (Put d # ops, OnWriteable)]\<rparr>)"
| put_done: "i < length (cf_threads c) \<Longrightarrow> cf_threads c ! i = (Put d # ops, Ready) \<Longrightarrow>
    queue_put d (cf_q c) = Some (Some q) \<Longrightarrow>
    signal wake_readable ((cf_threads c)[i := (ops, Ready)]) ts \<Longrightarrow>
    qstep sp c (c\<lparr>cf_q := q, cf_threads := ts, cf_sent := cf_sent c @ [d]\<rparr>)"
| get_wait: "i < length (cf_threads c) \<Longrightarrow> cf_threads c ! i = (Get mx # ops, Ready) \<Longrightarrow>
    queue_get mx (cf_q c) = Some WaitReadable \<Longrightarrow>
    qstep sp c (c\<lparr>cf_threads := (cf_threads c)[i := (Get mx # ops, OnReadable)]\<rparr>)"
| get_wait_long: "i < length (cf_threads c) \<Longrightarrow> cf_threads c ! i = (Get mx # ops, Ready) \<Longrightarrow>
    queue_get mx (cf_q c) = Some (WaitTooLong s) \<Longrightarrow>
    qstep sp c (c\<lparr>cf_threads := (cf_threads c)[i := (Get mx # ops, OnSeq s)]\<rparr>)"
| get_done: "i < length (cf_threads c) \<Longrightarrow> cf_threads c ! i = (Get mx # ops, Ready) \<Longrightarrow>
    queue_get mx (cf_q c) = Some (Got d q) \<Longrightarrow>
    signal wake_writeable ((cf_threads c)[i := (ops, Ready)]) ts \<Longrightarrow>
    qstep sp c (c\<lparr>cf_q := q, cf_threads := ts, cf_got := cf_got c @ [d]\<rparr>)"
| recheck_wait: "i < length (cf_threads c) \<Longrightarrow> cf_threads c ! i = (ops, Recheck s) \<Longrightarrow>
    vq_head_seq (cf_q c) = s \<Longrightarrow>
    qstep sp c (c\<lparr>cf_threads := (cf_threads c)[i := (ops, OnSeq s)]\<rparr>)"
| recheck_go: "i < length (cf_threads c) \<Longrightarrow> cf_threads c ! i = (ops, Recheck s) \<Longrightarrow>
    vq_head_seq (cf_q c) \<noteq> s \<Longrightarrow>
    qstep sp c (c\<lparr>cf_threads := (cf_threads c)[i := (ops, Ready)]\<rparr>)"
| spurious: "sp \<Longrightarrow> i < length (cf_threads c) \<Longrightarrow> cf_threads c ! i = (ops, st) \<Longrightarrow>
    wake_readable st = Some st' \<or> wake_writeable st = Some st' \<Longrightarrow>
    qstep sp c (c\<lparr>cf_threads := (cf_threads c)[i := (ops, st')]\<rparr>)"

abbreviation qsteps :: "bool \<Rightarrow> qconf \<Rightarrow> qconf \<Rightarrow> bool" where
  "qsteps sp \<equiv> (qstep sp)\<^sup>*\<^sup>*"

section \<open>Safety of every interleaving\<close>

definition ops_ok :: "(qop list \<times> qstatus) list \<Rightarrow> bool" where
  "ops_ok ts \<longleftrightarrow> (\<forall>t \<in> set ts. \<forall>d. Put d \<in> set (fst t) \<longrightarrow> length d < 2 ^ 63)"

definition conf_inv :: "qconf \<Rightarrow> bool" where
  "conf_inv c \<longleftrightarrow> ops_ok (cf_threads c) \<and> (\<exists>ms. vq_rep (cf_q c) ms \<and> cf_sent c = cf_got c @ ms)"

lemma ops_ok_update:
  assumes "ops_ok ts" "i < length ts" "set (fst t) \<subseteq> set (fst (ts ! i))"
  shows "ops_ok (ts[i := t])"
  unfolding ops_ok_def
proof (intro ballI allI impI)
  fix x d assume "x \<in> set (ts[i := t])" "Put d \<in> set (fst x)"
  moreover have "ts ! i \<in> set ts" using assms(2) by simp
  moreover have "x = t \<or> x \<in> set ts" using \<open>x \<in> _\<close> set_update_subset_insert [of ts i t] by blast
  ultimately show "length d < 2 ^ 63" using assms(1,3) unfolding ops_ok_def by blast
qed

lemma ops_ok_signal: "signal wake ts ts' \<Longrightarrow> ops_ok ts \<Longrightarrow> ops_ok ts'"
  by (induction rule: signal.induct) (auto intro!: ops_ok_update)

lemma conf_inv_step:
  assumes "qstep sp c c'" "conf_inv c"
  shows "conf_inv c'"
  using assms
proof (induction rule: qstep.induct)
  case (put_done i c d ops q ts)
  obtain ms where ms: "vq_rep (cf_q c) ms" "cf_sent c = cf_got c @ ms" using put_done(5) by (auto simp: conf_inv_def)
  have ok: "ops_ok (cf_threads c)" using put_done(5) by (simp add: conf_inv_def)
  have "(Put d # ops, Ready) \<in> set (cf_threads c)" using put_done(1,2) by (metis nth_mem)
  then have "length d < 2 ^ 63" using ok by (fastforce simp: ops_ok_def)
  then have "vq_rep q (ms @ [d])" using queue_put_step [OF ms(1), of d] put_done(3) by (auto split: if_splits)
  moreover have "ops_ok ts"
    by (rule ops_ok_signal [OF put_done(4)]) (use put_done(1,2) ok in \<open>auto intro!: ops_ok_update\<close>)
  ultimately show ?case using ms(2) by (auto simp: conf_inv_def)
next
  case (get_done i c mx ops d q ts)
  obtain ms where ms: "vq_rep (cf_q c) ms" "cf_sent c = cf_got c @ ms" using get_done(5) by (auto simp: conf_inv_def)
  have ok: "ops_ok (cf_threads c)" using get_done(5) by (simp add: conf_inv_def)
  obtain ms' where "ms = d # ms'" "vq_rep q ms'"
  proof (cases ms)
    case Nil
    then show ?thesis using ms(1) queue_get_empty get_done(3) by fastforce
  next
    case (Cons e ms')
    then show ?thesis using ms(1) queue_get_step [of "cf_q c" e ms' mx] get_done(3) that by (auto split: if_splits)
  qed
  moreover have "ops_ok ts"
    by (rule ops_ok_signal [OF get_done(4)]) (use get_done(1,2) ok in \<open>auto intro!: ops_ok_update\<close>)
  ultimately show ?case using ms(2) by (auto simp: conf_inv_def)
qed (auto simp: conf_inv_def intro!: ops_ok_update)

lemma conf_inv_steps: "qsteps sp c c' \<Longrightarrow> conf_inv c \<Longrightarrow> conf_inv c'"
  by (induction rule: rtranclp_induct) (auto intro: conf_inv_step)

section \<open>Properties\<close>

definition all_calls_ok :: queue_calls where
  "all_calls_ok = \<lparr>memfd_create = 3, ftruncate_ok = True, mmap_range_ok = True, mmap_first_ok = True,
     mmap_second_ok = True, mutex_init_ok = True, readable_init_ok = True, writeable_init_ok = True\<rparr>"

lemma sample_queue: "\<exists>q. queue_init 4096 all_calls_ok 4096 = Inr q"
  by (simp add: queue_init_def all_calls_ok_def)

text \<open>C10: whatever the threads do and however they are scheduled, the messages
  received, in the order they were received, followed by the messages still in the
  queue are exactly the messages put, in the order they were put.\<close>

theorem queue_linearizable:
  assumes "queue_init pagesize k s = Inr q" "s \<le> 2 ^ 62" "ops_ok ts"
    and "qsteps True \<lparr>cf_q = q, cf_threads = ts, cf_sent = [], cf_got = []\<rparr> c"
  shows "\<exists>ms. cf_sent c = cf_got c @ ms \<and> vq_rep (cf_q c) ms"
proof -
  have "conf_inv \<lparr>cf_q = q, cf_threads = ts, cf_sent = [], cf_got = []\<rparr>"
    using queue_init_rep(1) [OF assms(1,2)] assms(3) by (simp add: conf_inv_def)
  with conf_inv_steps [OF assms(4)] show ?thesis by (auto simp: conf_inv_def)
qed

theorem queue_linearizable_witness:
  "\<exists>q c. queue_init 4096 all_calls_ok 4096 = Inr q \<and>
    qsteps True \<lparr>cf_q = q, cf_threads = [([Put [7]], Ready)], cf_sent = [], cf_got = []\<rparr> c \<and>
    cf_sent c = cf_got c @ [[7]]"
proof -
  obtain q where q: "queue_init 4096 all_calls_ok 4096 = Inr q" using sample_queue by blast
  let ?c = "\<lparr>cf_q = q, cf_threads = [([Put [7]], Ready)], cf_sent = [], cf_got = []\<rparr>"
  obtain q' where "queue_put [7] q = Some (Some q')"
    using queue_put_step [of q "[]" "[7]"] queue_init_rep [OF q] by auto
  then have st: "qstep True ?c (?c\<lparr>cf_q := q', cf_threads := [([], Ready)], cf_sent := cf_sent ?c @ [[7]]\<rparr>)"
    by (intro qstep.put_done [of 0 _ "[7]" "[]"]) (auto intro: signal.nobody)
  let ?c' = "?c\<lparr>cf_q := q', cf_threads := [([], Ready)], cf_sent := cf_sent ?c @ [[7]]\<rparr>"
  have "\<exists>ms. cf_sent ?c' = cf_got ?c' @ ms \<and> vq_rep (cf_q ?c') ms"
    using st by (intro queue_linearizable [OF q]) (auto simp: ops_ok_def)
  with q st show ?thesis by (intro exI [of _ q] exI [of _ ?c']) auto
qed

text \<open>A put waits exactly when the header and the body do not fit into the
  free space; otherwise it appends the message.  A get waits when the queue is empty
  or the front message is longer than the caller allows; otherwise it returns the
  front message whole and removes it.\<close>

theorem queue_put_get:
  assumes "vq_rep q ms" "length d < 2 ^ 63"
  shows "(if vq_size q < used ms + 16 + length d then queue_put d q = Some None
      else \<exists>q'. queue_put d q = Some (Some q') \<and> vq_rep q' (ms @ [d])) \<and>
    (case ms of
       [] \<Rightarrow> queue_get mx q = Some WaitReadable
     | m # ms' \<Rightarrow> if mx < length m then queue_get mx q = Some (WaitTooLong (vq_head_seq q))
         else \<exists>q'. queue_get mx q = Some (Got m q') \<and> vq_rep q' ms')"
proof
  show "if vq_size q < used ms + 16 + length d then queue_put d q = Some None
      else \<exists>q'. queue_put d q = Some (Some q') \<and> vq_rep q' (ms @ [d])"
    using queue_put_step [OF assms] by (auto simp: add.assoc)
  show "case ms of
       [] \<Rightarrow> queue_get mx q = Some WaitReadable
     | m # ms' \<Rightarrow> if mx < length m then queue_get mx q = Some (WaitTooLong (vq_head_seq q))
         else \<exists>q'. queue_get mx q = Some (Got m q') \<and> vq_rep q' ms'"
  proof (cases ms)
    case Nil
    then show ?thesis using queue_get_empty [of q mx] assms(1) by simp
  next
    case (Cons m ms')
    then show ?thesis using queue_get_step [of q m ms' mx] assms(1) by auto
  qed
qed

theorem queue_put_get_witness:
  "\<exists>q q'. queue_init 4096 all_calls_ok 4096 = Inr q \<and> queue_put [1, 2] q = Some (Some q') \<and> queue_get 10 q = Some WaitReadable"
proof -
  obtain q where q: "queue_init 4096 all_calls_ok 4096 = Inr q" using sample_queue by blast
  note rep = queue_init_rep [OF q]
  from queue_put_get [of q "[]" "[1, 2]" 10] rep q show ?thesis by auto
qed

text \<open>C11: waiting for room and waiting behind a message that is too long use the
  same condition variable, and a signal wakes only one thread.  A get can wake the
  reader that waits behind the message it just removed, which finds the queue empty
  and waits again, while the writer sleeps on although the queue is empty: no thread
  can move any more, and both calls would succeed.\<close>

theorem queue_lost_wakeup:
  assumes "queue_init pagesize k s = Inr q" "32 \<le> s" "s \<le> 2 ^ 62" "length d = s - 16" "length e = 8"
  shows "\<exists>c. qsteps False \<lparr>cf_q = q, cf_threads = [([Put d], Ready), ([Get 8], Ready), ([Put e], Ready), ([Get s], Ready)],
      cf_sent = [], cf_got = []\<rparr> c \<and> (\<forall>c'. \<not> qstep False c c') \<and>
    cf_threads c = [([], Ready), ([Get 8], OnReadable), ([Put e], OnWriteable), ([], Ready)] \<and>
    (\<exists>q'. queue_put e (cf_q c) = Some (Some q'))"
proof -
  note rep0 = queue_init_rep [OF assms(1,3)]
  have "length d < 2 ^ 63" using assms(3,4) by simp
  note put = queue_put_step [OF rep0(1) this]
  obtain q1 where q1: "queue_put d q = Some (Some q1)" "vq_rep q1 [d]" "vq_size q1 = s" "vq_head_seq q1 = vq_head_seq q"
    using put rep0(2) assms(2,4) by auto
  have long: "queue_get 8 q1 = Some (WaitTooLong (vq_head_seq q))"
    using queue_get_step [OF q1(2), of 8] q1(4) assms(2,4) by auto
  have full: "queue_put e q1 = Some None"
    using queue_put_step [OF q1(2), of e] q1(3) assms(2,4,5) by auto
  obtain q2 where q2: "queue_get s q1 = Some (Got d q2)" "vq_rep q2 []" "vq_size q2 = s"
    "vq_head_seq q2 = size_add (vq_head_seq q) 1"
    using queue_get_step [OF q1(2), of s] q1(3,4) assms(4) by (auto split: if_splits)
  have seq: "vq_head_seq q2 \<noteq> vq_head_seq q"
    using q2(4) vq_repD(6) [OF rep0(1)] size_add_neq [of "vq_head_seq q"] by simp
  have empty: "queue_get 8 q2 = Some WaitReadable" using q2(2) by (rule queue_get_empty)
  let ?c = "\<lambda>q ts st gt. \<lparr>cf_q = q, cf_threads = ts, cf_sent = st, cf_got = gt\<rparr>"
  let ?n = "vq_head_seq q"
  let ?t0 = "[([Put d], Ready), ([Get 8], Ready), ([Put e], Ready), ([Get s], Ready)]"
  let ?t1 = "[([], Ready), ([Get 8], Ready), ([Put e], Ready), ([Get s], Ready)]"
  let ?t2 = "[([], Ready), ([Get 8], OnSeq ?n), ([Put e], Ready), ([Get s], Ready)]"
  let ?t3 = "[([], Ready), ([Get 8], OnSeq ?n), ([Put e], OnWriteable), ([Get s], Ready)]"
  let ?t4 = "[([], Ready), ([Get 8], Recheck ?n), ([Put e], OnWriteable), ([], Ready)]"
  let ?t5 = "[([], Ready), ([Get 8], Ready), ([Put e], OnWriteable), ([], Ready)]"
  let ?t6 = "[([], Ready), ([Get 8], OnReadable), ([Put e], OnWriteable), ([], Ready)]"
  have "signal wake_readable ?t1 ?t1" by (rule signal.nobody) auto
  then have s1: "qstep False (?c q ?t0 [] []) (?c q1 ?t1 [d] [])"
    using qstep.put_done [of 0 "?c q ?t0 [] []" d "[]" q1 ?t1 False] q1(1) by simp
  have s2: "qstep False (?c q1 ?t1 [d] []) (?c q1 ?t2 [d] [])"
    using qstep.get_wait_long [of 1 "?c q1 ?t1 [d] []" 8 "[]" ?n False] long by simp
  have s3: "qstep False (?c q1 ?t2 [d] []) (?c q1 ?t3 [d] [])"
    using qstep.put_wait [of 2 "?c q1 ?t2 [d] []" e "[]" False] full by (simp add: numeral_2_eq_2)
  have "signal wake_writeable [([], Ready), ([Get 8], OnSeq ?n), ([Put e], OnWriteable), ([], Ready)] ?t4"
    using signal.somebody [of 1 "[([], Ready), ([Get 8], OnSeq ?n), ([Put e], OnWriteable), ([], Ready)]" "[Get 8]" "OnSeq ?n"
      wake_writeable "Recheck ?n"] by simp
  then have s4: "qstep False (?c q1 ?t3 [d] []) (?c q2 ?t4 [d] [d])"
    using qstep.get_done [of 3 "?c q1 ?t3 [d] []" s "[]" d q2 ?t4 False] q2(1) by (simp add: numeral_3_eq_3)
  have s5: "qstep False (?c q2 ?t4 [d] [d]) (?c q2 ?t5 [d] [d])"
    using qstep.recheck_go [of 1 "?c q2 ?t4 [d] [d]" "[Get 8]" ?n False] seq by simp
  have s6: "qstep False (?c q2 ?t5 [d] [d]) (?c q2 ?t6 [d] [d])"
    using qstep.get_wait [of 1 "?c q2 ?t5 [d] [d]" 8 "[]" False] empty by simp
  have stuck: "\<not> qstep False (?c q2 ?t6 [d] [d]) c'" for c'
    by (auto elim!: qstep.cases simp: less_Suc_eq numeral_2_eq_2 numeral_3_eq_3)
  have "qsteps False (?c q ?t0 [] []) (?c q2 ?t6 [d] [d])"
    by (meson s1 s2 s3 s4 s5 s6 rtranclp.rtrancl_refl converse_rtranclp_into_rtranclp)
  moreover have "\<exists>q'. queue_put e q2 = Some (Some q')"
    using queue_put_step [OF q2(2), of e] q2(3) assms(2,5) by auto
  ultimately show ?thesis using stuck by (intro exI [of _ "?c q2 ?t6 [d] [d]"]) simp
qed

theorem queue_lost_wakeup_witness:
  "\<exists>q c. queue_init 4096 all_calls_ok 4096 = Inr q \<and>
    qsteps False \<lparr>cf_q = q, cf_threads = [([Put (replicate 4080 0)], Ready), ([Get 8], Ready),
      ([Put (replicate 8 0)], Ready), ([Get 4096], Ready)], cf_sent = [], cf_got = []\<rparr> c \<and> (\<forall>c'. \<not> qstep False c c')"
proof -
  obtain q where q: "queue_init 4096 all_calls_ok 4096 = Inr q" using sample_queue by blast
  from queue_lost_wakeup [OF q, of "replicate 4080 0" "replicate 8 0"] q show ?thesis by auto
qed

text \<open>The space check of \<open>queue_put\<close> adds the header size in \<open>size_t\<close>: for a
  message of \<open>2 ^ 64 - 16\<close> bytes the sum wraps to 0, the check passes on any queue, and
  the copy runs past the mapped region.\<close>

theorem queue_put_size_wraps:
  assumes "vq_rep q ms" "length d = 2 ^ 64 - 16"
  shows "queue_put d q = None"
proof -
  note D = vq_repD [OF assms(1)]
  have "size_add (length d) MSG = 0" using assms(2) by (simp add: size_add_def SIZE_MOD_def MSG_def)
  moreover have "vstore b p d = None" if "length b = vq_size q" for b p
    using that assms(2) D(2) by (simp add: vstore_def)
  ultimately show ?thesis using D(1) by (auto simp: queue_put_def Let_def vstore_def split: option.splits)
qed

theorem queue_put_size_wraps_witness:
  "\<exists>q. queue_init 4096 all_calls_ok 4096 = Inr q \<and> queue_put (replicate (2 ^ 64 - 16) 0) q = None"
proof -
  obtain q where q: "queue_init 4096 all_calls_ok 4096 = Inr q" using sample_queue by blast
  have "vq_rep q []" using queue_init_rep [OF q] by simp
  from queue_put_size_wraps [OF this, of "replicate (2 ^ 64 - 16) 0"] q show ?thesis by (simp only: length_replicate) simp
qed

end
