(* ===== verification/Vqueue_Test.thy ===== *)
theory Vqueue_Test
  imports Vqueue_Threads
begin

text \<open>
  The test program of \<open>ring-buffer/unittest.c\<close>: one publisher puts \<open>8 M\<close> messages of eight
  bytes, eight consumers get \<open>M\<close> each, with \<open>M\<close> twice the page size.  Since all
  messages are equally long no reader waits behind one, and no wakeup is lost: every run
  ends, with all messages received in order.
\<close>

section \<open>The program\<close>

definition NUM_THREADS :: nat where "NUM_THREADS = 8"

definition MESSAGES_PER_THREAD :: "nat \<Rightarrow> nat" where
  "MESSAGES_PER_THREAD pagesize = pagesize * 2"

text \<open>The loops compare \<open>(int) i\<close> with the bound, so the counts are those of the code as long
  as \<open>16 * getpagesize()\<close> is an \<open>int\<close>.\<close>

definition consumer_loop :: "nat \<Rightarrow> qop list" where
  "consumer_loop pagesize = replicate (MESSAGES_PER_THREAD pagesize) (Get 8)"

text \<open>The messages, and the loop that puts them.\<close>

definition counters :: "nat \<Rightarrow> u8 list list" where
  "counters pagesize = map (le_bytes 8) [0..<NUM_THREADS * MESSAGES_PER_THREAD pagesize]"

definition publisher_loop :: "nat \<Rightarrow> qop list" where
  "publisher_loop pagesize = map Put (counters pagesize)"

definition unittest_start :: "nat \<Rightarrow> vqueue \<Rightarrow> qconf" where
  "unittest_start pagesize q =
     \<lparr>cf_q = q, cf_threads = (publisher_loop pagesize, Ready) # replicate NUM_THREADS (consumer_loop pagesize, Ready),
      cf_sent = [], cf_got = []\<rparr>"

section \<open>Counting threads\<close>

definition busy :: "qop list \<times> qstatus \<Rightarrow> nat" where
  "busy t = of_bool (fst t \<noteq> [] \<and> snd t = Ready)"

definition ready :: "(qop list \<times> qstatus) list \<Rightarrow> nat" where
  "ready ts = sum_list (map busy ts)"

definition remaining :: "(qop list \<times> qstatus) list \<Rightarrow> nat" where
  "remaining ts = sum_list (map (\<lambda>t. length (fst t)) ts)"

definition parked :: "(qop list \<times> qstatus) list \<Rightarrow> bool" where
  "parked ts \<longleftrightarrow> (\<exists>t \<in> set ts. snd t = OnReadable)"

lemma sum_update: "j < length ts \<Longrightarrow> sum_list (map f (ts[j := t])) + f (ts ! j) = sum_list (map f ts) + (f t :: nat)"
proof (induction ts arbitrary: j)
  case (Cons a ts)
  then show ?case by (cases j) (auto simp: add.assoc add.commute add.left_commute)
qed simp

lemmas ready_update = sum_update [where f = busy, folded ready_def]

lemma remaining_update: "j < length ts \<Longrightarrow> remaining (ts[j := t]) + length (fst (ts ! j)) = remaining ts + length (fst t)"
  unfolding remaining_def by (rule sum_update)

lemma ready_Cons [simp]: "ready (t # ts) = busy t + ready ts"
  by (simp add: ready_def)

lemma remaining_Cons [simp]: "remaining (t # ts) = length (fst t) + remaining ts"
  by (simp add: remaining_def)

lemma ready_zero: "ready ts = 0 \<longleftrightarrow> (\<forall>t \<in> set ts. fst t = [] \<or> snd t \<noteq> Ready)"
  by (induction ts) (auto simp: ready_def busy_def)

lemma remaining_zero: "remaining ts = 0 \<longleftrightarrow> (\<forall>t \<in> set ts. fst t = [])"
  by (induction ts) (auto simp: remaining_def)

lemma remaining_pos: "t \<in> set ts \<Longrightarrow> fst t \<noteq> [] \<Longrightarrow> 0 < remaining ts"
  using remaining_zero [of ts] by auto

section \<open>The invariant\<close>

text \<open>\<open>ut_inv msgs n ms p cs c\<close>: of the messages \<open>msgs\<close> the first \<open>n\<close> have been put, \<open>ms\<close>
  are in the queue; the publisher sleeps only when there is no room, and if a consumer
  sleeps there are as many awake as messages.\<close>

definition consumers_ok :: "(qop list \<times> qstatus) list \<Rightarrow> bool" where
  "consumers_ok cs \<longleftrightarrow> (\<forall>t \<in> set cs. set (fst t) \<subseteq> {Get 8} \<and> (snd t = Ready \<or> snd t = OnReadable \<and> fst t \<noteq> []))"

definition ut_inv :: "u8 list list \<Rightarrow> nat \<Rightarrow> u8 list list \<Rightarrow> qop list \<times> qstatus \<Rightarrow> (qop list \<times> qstatus) list \<Rightarrow> qconf \<Rightarrow> bool" where
  "ut_inv msgs n ms p cs c \<longleftrightarrow> cf_threads c = p # cs \<and> vq_rep (cf_q c) ms \<and> 24 \<le> vq_size (cf_q c) \<and>
     cf_sent c = take n msgs \<and> n \<le> length msgs \<and> cf_sent c = cf_got c @ ms \<and> (\<forall>m \<in> set msgs. length m = 8) \<and>
     fst p = map Put (drop n msgs) \<and>
     (snd p = Ready \<or> snd p = OnWriteable \<and> n < length msgs \<and> vq_size (cf_q c) < used ms + 24) \<and>
     consumers_ok cs \<and>
     length (cf_got c) + remaining cs = length msgs \<and> (parked cs \<longrightarrow> length ms \<le> ready cs)"

definition test_inv :: "u8 list list \<Rightarrow> qconf \<Rightarrow> bool" where
  "test_inv msgs c \<longleftrightarrow> (\<exists>n ms p cs. ut_inv msgs n ms p cs c)"

text \<open>Every step that is not a spurious wakeup uses this up.\<close>

definition work :: "qconf \<Rightarrow> nat" where
  "work c = 3 * remaining (cf_threads c) + ready (cf_threads c)"

lemma ut_invD:
  assumes "ut_inv msgs n ms p cs c"
  shows "cf_threads c = p # cs" "vq_rep (cf_q c) ms" "24 \<le> vq_size (cf_q c)" "cf_sent c = take n msgs" "n \<le> length msgs"
    "cf_sent c = cf_got c @ ms" "\<forall>m \<in> set msgs. length m = 8" "fst p = map Put (drop n msgs)"
    "snd p = Ready \<or> snd p = OnWriteable \<and> n < length msgs \<and> vq_size (cf_q c) < used ms + 24"
    "consumers_ok cs" "length (cf_got c) + remaining cs = length msgs" "parked cs \<longrightarrow> length ms \<le> ready cs"
  using assms unfolding ut_inv_def by blast+

lemma ut_messages:
  assumes "ut_inv msgs n ms p cs c"
  shows "\<forall>m \<in> set ms. length m = 8"
proof -
  have "set ms \<subseteq> set (take n msgs)" using ut_invD(4,6) [OF assms] by (metis set_append Un_upper2)
  also have "\<dots> \<subseteq> set msgs" by (rule set_take_subset)
  finally show ?thesis using ut_invD(7) [OF assms] by blast
qed

lemma consumers_ok_update:
  assumes "consumers_ok cs" "set (fst t) \<subseteq> {Get 8}" "snd t = Ready \<or> snd t = OnReadable \<and> fst t \<noteq> []"
  shows "consumers_ok (cs[j := t])"
  using assms set_update_subset_insert [of cs j t] unfolding consumers_ok_def by blast

lemma consumers_ok_nth: "consumers_ok cs \<Longrightarrow> j < length cs \<Longrightarrow> cs ! j = (ops, st) \<Longrightarrow> set ops \<subseteq> {Get 8}"
  unfolding consumers_ok_def by (metis fst_conv nth_mem)

lemma parked_update: "parked (cs[j := (ops, Ready)]) \<Longrightarrow> parked cs"
  unfolding parked_def using set_update_subset_insert [of cs j "(ops, Ready)"] by fastforce

lemma used_snoc: "length d = 8 \<Longrightarrow> used (ms @ [d]) = used ms + 24"
  by (simp add: used_def)

lemma signal_total: "\<exists>ts'. signal wake ts ts'"
proof (cases "\<exists>t \<in> set ts. wake (snd t) \<noteq> None")
  case True
  then obtain i ops st st' where "i < length ts" "ts ! i = (ops, st)" "wake st = Some st'"
    by (metis in_set_conv_nth not_None_eq prod.collapse)
  then show ?thesis by (blast intro: signal.somebody)
next
  case False
  then show ?thesis by (intro exI [of _ ts] signal.nobody) auto
qed

text \<open>Signals in this program: a put wakes a consumer if one sleeps, a get the publisher.\<close>

lemma signal_readable:
  assumes "signal wake_readable (p # cs) ts" "snd p \<noteq> OnReadable"
  obtains "ts = p # cs" "\<not> parked cs"
  | j ops where "ts = p # cs[j := (ops, Ready)]" "j < length cs" "cs ! j = (ops, OnReadable)"
  using assms(1)
proof cases
  case nobody
  then show ?thesis using that(1) by (fastforce simp: parked_def)
next
  case (somebody i ops st st')
  then have "st = OnReadable" "st' = Ready" by (cases st; simp)+
  then show ?thesis using somebody assms(2) that(2) [of "i - 1" ops] by (cases i) auto
qed

lemma signal_writeable:
  assumes "signal wake_writeable (p # cs) ts" "\<forall>t \<in> set cs. snd t = Ready \<or> snd t = OnReadable" "snd p = Ready \<or> snd p = OnWriteable"
  shows "ts = (fst p, Ready) # cs"
  using assms(1)
proof cases
  case nobody
  then have "wake_writeable (snd p) = None" by (metis list.set_intros(1))
  then have "snd p = Ready" using assms(3) by auto
  then show ?thesis using nobody by (cases p) simp
next
  case (somebody i ops st st')
  then show ?thesis
  proof (cases i)
    case (Suc j)
    then have "(ops, st) \<in> set cs" using somebody by (auto dest: nth_mem)
    then show ?thesis using somebody(4) assms(2) by force
  qed (use somebody assms(3) in auto)
qed

section \<open>Steps\<close>

text \<open>The publisher is thread 0, the consumers follow.\<close>

lemma publisher_thread:
  assumes "ut_inv msgs n ms p cs c" "i < length (cf_threads c)" "cf_threads c ! i = (Put d # ops, st)"
  shows "i = 0" "p = (Put d # ops, st)" "n < length msgs" "d = msgs ! n" "ops = map Put (drop (n + 1) msgs)" "length d = 8"
proof -
  show i: "i = 0"
  proof (rule ccontr)
    assume "i \<noteq> 0"
    then have "(Put d # ops, st) \<in> set cs" using assms by (cases i) (auto simp: ut_inv_def dest: nth_mem)
    then show False using assms(1) by (force simp: ut_inv_def consumers_ok_def)
  qed
  then show p: "p = (Put d # ops, st)" using assms by (simp add: ut_inv_def)
  then have "map Put (drop n msgs) = Put d # ops" using assms(1) by (simp add: ut_inv_def)
  then show n: "n < length msgs" and "d = msgs ! n" "ops = map Put (drop (n + 1) msgs)"
    by (auto simp: map_eq_Cons_conv) (metis drop_eq_Nil leI list.distinct(1), metis Cons_nth_drop_Suc drop_eq_Nil leI list.distinct(1) list.inject, metis Cons_nth_drop_Suc drop_eq_Nil leI list.distinct(1) list.inject)
  then show "length d = 8" using assms(1) by (simp add: ut_inv_def)
qed

lemma consumer_thread:
  assumes "ut_inv msgs n ms p cs c" "i < length (cf_threads c)" "cf_threads c ! i = (Get mx # ops, st)"
  obtains j where "i = Suc j" "j < length cs" "cs ! j = (Get 8 # ops, st)" "mx = 8" "set ops \<subseteq> {Get 8}"
proof (cases i)
  case 0
  then have "map Put (drop n msgs) = Get mx # ops" using assms by (auto simp: ut_inv_def)
  then show ?thesis by (auto simp: map_eq_Cons_conv)
next
  case (Suc j)
  then have j: "j < length cs" "cs ! j = (Get mx # ops, st)" using assms by (auto simp: ut_inv_def)
  have "set (Get mx # ops) \<subseteq> {Get 8}" using consumers_ok_nth [OF ut_invD(10) [OF assms(1)] j] .
  then have "mx = 8" "set ops \<subseteq> {Get 8}" by auto
  then show ?thesis using that Suc j by blast
qed

text \<open>The calls of a step, in terms of the messages in the queue.\<close>

lemma put_waits:
  assumes "ut_inv msgs n ms p cs c" "length d = 8" "queue_put d (cf_q c) = Some None"
  shows "vq_size (cf_q c) < used ms + 24"
  using queue_put_step [OF ut_invD(2) [OF assms(1)], of d] assms(2,3) by (auto simp: used_snoc split: if_splits)

lemma put_goes:
  assumes "ut_inv msgs n ms p cs c" "length d = 8" "queue_put d (cf_q c) = Some (Some q)"
  shows "vq_rep q (ms @ [d])" "vq_size q = vq_size (cf_q c)"
  using queue_put_step [OF ut_invD(2) [OF assms(1)], of d] assms(2,3) by (auto split: if_splits)

lemma get_outcome:
  assumes "ut_inv msgs n ms p cs c"
  shows "case ms of [] \<Rightarrow> queue_get 8 (cf_q c) = Some WaitReadable
    | m # ms' \<Rightarrow> \<exists>q. queue_get 8 (cf_q c) = Some (Got m q) \<and> vq_rep q ms' \<and> vq_size q = vq_size (cf_q c)"
proof (cases ms)
  case Nil
  then show ?thesis using queue_get_empty ut_invD(2) [OF assms] by simp
next
  case (Cons m ms')
  then have "length m = 8" using ut_messages [OF assms] by simp
  then show ?thesis using queue_get_step [of "cf_q c" m ms' 8] ut_invD(2) [OF assms] Cons by auto
qed

lemma put_wait_kept:
  assumes inv: "ut_inv msgs n ms p cs c" and i: "i < length (cf_threads c)" "cf_threads c ! i = (Put d # ops, Ready)"
    and q: "queue_put d (cf_q c) = Some None"
    and c': "c' = c\<lparr>cf_threads := (cf_threads c)[i := (Put d # ops, OnWriteable)]\<rparr>"
  shows "test_inv msgs c' \<and> work c' < work c"
proof -
  note P = publisher_thread [OF inv i] and I = ut_invD [OF inv]
  have "ut_inv msgs n ms (Put d # ops, OnWriteable) cs c'"
    using I P put_waits [OF inv P(6) q] by (simp add: ut_inv_def c')
  moreover have "work c' < work c" using P I(1) by (simp add: c' work_def busy_def)
  ultimately show ?thesis unfolding test_inv_def by blast
qed

lemma get_wait_kept:
  assumes inv: "ut_inv msgs n ms p cs c" and i: "i < length (cf_threads c)" "cf_threads c ! i = (Get mx # ops, Ready)"
    and q: "queue_get mx (cf_q c) = Some WaitReadable"
    and c': "c' = c\<lparr>cf_threads := (cf_threads c)[i := (Get mx # ops, OnReadable)]\<rparr>"
  shows "test_inv msgs c' \<and> work c' < work c"
proof -
  note I = ut_invD [OF inv]
  obtain j where j: "i = Suc j" "j < length cs" "cs ! j = (Get 8 # ops, Ready)" "mx = 8" "set ops \<subseteq> {Get 8}"
    by (rule consumer_thread [OF inv i])
  let ?cs = "cs[j := (Get 8 # ops, OnReadable)]"
  have "ms = []" using get_outcome [OF inv] q j(4) by (auto split: list.splits)
  moreover have "remaining ?cs = remaining cs" "ready ?cs + 1 = ready cs"
    using remaining_update [OF j(2), of "(Get 8 # ops, OnReadable)"] ready_update [OF j(2), of "(Get 8 # ops, OnReadable)"] j(3)
    by (auto simp: busy_def)
  moreover have "consumers_ok ?cs" using I(10) j(5) by (intro consumers_ok_update) auto
  ultimately have "ut_inv msgs n ms p ?cs c'" "work c' < work c"
    using I j by (auto simp: ut_inv_def c' work_def)
  then show ?thesis unfolding test_inv_def by blast
qed

lemma put_done_kept:
  assumes inv: "ut_inv msgs n ms p cs c" and i: "i < length (cf_threads c)" "cf_threads c ! i = (Put d # ops, Ready)"
    and q: "queue_put d (cf_q c) = Some (Some q)" and sg: "signal wake_readable ((cf_threads c)[i := (ops, Ready)]) ts"
    and c': "c' = c\<lparr>cf_q := q, cf_threads := ts, cf_sent := cf_sent c @ [d]\<rparr>"
  shows "test_inv msgs c' \<and> work c' < work c"
proof -
  note P = publisher_thread [OF inv i] and I = ut_invD [OF inv]
  note G = put_goes [OF inv P(6) q]
  have next_sent: "cf_sent c @ [d] = take (n + 1) msgs" using I(4) P(3,4) by (simp add: take_Suc_conv_app_nth)
  then have split: "take (n + 1) msgs = cf_got c @ (ms @ [d])" using I(6) by simp
  have sig: "signal wake_readable ((ops, Ready) # cs) ts" using sg P(1,2) I(1) by simp
  have p: "3 * length (fst p) + busy p = 3 * length ops + 4" "busy (ops, Ready) \<le> 1" using P(2) by (auto simp: busy_def)
  show ?thesis
  proof (rule signal_readable [OF sig])
    assume ts: "ts = (ops, Ready) # cs" "\<not> parked cs"
    then have "ut_inv msgs (n + 1) (ms @ [d]) (ops, Ready) cs c'"
      using I P next_sent split G by (simp add: ut_inv_def c' del: append_assoc)
    moreover have "work c' < work c" using ts(1) p I(1) by (simp add: c' work_def)
    ultimately show ?thesis unfolding test_inv_def by blast
  next
    fix j gs assume ts: "ts = (ops, Ready) # cs[j := (gs, Ready)]" and j: "j < length cs" "cs ! j = (gs, OnReadable)"
    let ?cs = "cs[j := (gs, Ready)]"
    have "(gs, OnReadable) \<in> set cs" using j by (metis nth_mem)
    then have pk: "parked cs" "gs \<noteq> []" using I(10) by (auto simp: parked_def consumers_ok_def)
    have "remaining ?cs = remaining cs" "ready ?cs = ready cs + 1"
      using remaining_update [OF j(1), of "(gs, Ready)"] ready_update [OF j(1), of "(gs, Ready)"] j(2) pk(2) by (auto simp: busy_def)
    moreover have "consumers_ok ?cs" using I(10) consumers_ok_nth [OF I(10) j] by (intro consumers_ok_update) auto
    ultimately have "ut_inv msgs (n + 1) (ms @ [d]) (ops, Ready) ?cs c'" "work c' < work c"
      using I P next_sent split G ts p pk(1) by (auto simp: ut_inv_def c' work_def)
    then show ?thesis unfolding test_inv_def by blast
  qed simp
qed

lemma get_done_kept:
  assumes inv: "ut_inv msgs n ms p cs c" and i: "i < length (cf_threads c)" "cf_threads c ! i = (Get mx # ops, Ready)"
    and q: "queue_get mx (cf_q c) = Some (Got d q)" and sg: "signal wake_writeable ((cf_threads c)[i := (ops, Ready)]) ts"
    and c': "c' = c\<lparr>cf_q := q, cf_threads := ts, cf_got := cf_got c @ [d]\<rparr>"
  shows "test_inv msgs c' \<and> work c' < work c"
proof -
  note I = ut_invD [OF inv]
  obtain j where j: "i = Suc j" "j < length cs" "cs ! j = (Get 8 # ops, Ready)" "mx = 8" "set ops \<subseteq> {Get 8}"
    by (rule consumer_thread [OF inv i])
  let ?cs = "cs[j := (ops, Ready)]"
  obtain ms' where ms: "ms = d # ms'" "vq_rep q ms'" "vq_size q = vq_size (cf_q c)"
    using get_outcome [OF inv] q j(4) by (auto split: list.splits)
  have ok: "consumers_ok ?cs" using I(10) j(5) by (intro consumers_ok_update) auto
  have sig: "signal wake_writeable (p # ?cs) ts" using sg j(1) I(1) by simp
  have ts: "ts = (fst p, Ready) # ?cs"
    by (rule signal_writeable [OF sig]) (use ok I(9) in \<open>auto simp: consumers_ok_def\<close>)
  have "remaining ?cs + 1 = remaining cs" "ready ?cs + 1 = ready cs + busy (ops, Ready)"
    using remaining_update [OF j(2), of "(ops, Ready)"] ready_update [OF j(2), of "(ops, Ready)"] j(3) by (auto simp: busy_def)
  moreover have "busy (ops, Ready) \<le> 1" "busy (fst p, Ready) \<le> 1" by (auto simp: busy_def)
  ultimately have "ut_inv msgs n ms' (fst p, Ready) ?cs c'" "work c' < work c"
    using I ms ok ts parked_update [of cs j ops] by (auto simp: ut_inv_def c' work_def)
  then show ?thesis unfolding test_inv_def by blast
qed

lemma spurious_kept:
  assumes inv: "ut_inv msgs n ms p cs c" and i: "i < length (cf_threads c)" "cf_threads c ! i = (ops, st)"
    and w: "wake_readable st = Some st' \<or> wake_writeable st = Some st'"
  shows "test_inv msgs (c\<lparr>cf_threads := (cf_threads c)[i := (ops, st')]\<rparr>)" (is "test_inv _ ?c")
proof (cases i)
  case 0
  then have "p = (ops, st)" "st' = Ready" using i w ut_invD(1,9) [OF inv] by auto
  then have "ut_inv msgs n ms (ops, st') cs ?c" using 0 ut_invD [OF inv] by (simp add: ut_inv_def)
  then show ?thesis unfolding test_inv_def by blast
next
  case (Suc j)
  note I = ut_invD [OF inv]
  have j: "j < length cs" "cs ! j = (ops, st)" using Suc i I(1) by auto
  then have "(ops, st) \<in> set cs" by (metis nth_mem)
  then have st: "st = OnReadable" "st' = Ready" "ops \<noteq> []" using w I(10) by (auto simp: consumers_ok_def)
  let ?cs = "cs[j := (ops, st')]"
  have "remaining ?cs = remaining cs" "ready ?cs = ready cs + 1"
    using remaining_update [OF j(1), of "(ops, st')"] ready_update [OF j(1), of "(ops, st')"] j(2) st by (auto simp: busy_def)
  moreover have "consumers_ok ?cs" using I(10) consumers_ok_nth [OF I(10) j] st(2) by (intro consumers_ok_update) auto
  ultimately have "ut_inv msgs n ms p ?cs ?c"
    using I Suc st(2) parked_update [of cs j ops] by (auto simp: ut_inv_def)
  then show ?thesis unfolding test_inv_def by blast
qed

lemma no_other_status:
  assumes "ut_inv msgs n ms p cs c" "i < length (cf_threads c)" "cf_threads c ! i = (ops, Recheck s)"
  shows False
proof -
  have "(ops, Recheck s) \<in> set (p # cs)" using assms ut_invD(1) [OF assms(1)] by (metis nth_mem)
  then show False using ut_invD(9,10) [OF assms(1)] by (auto simp: consumers_ok_def)
qed

lemma no_long_message:
  assumes "ut_inv msgs n ms p cs c" "i < length (cf_threads c)" "cf_threads c ! i = (Get mx # ops, Ready)"
  shows "queue_get mx (cf_q c) \<noteq> Some (WaitTooLong s)"
proof -
  have "mx = 8" by (rule consumer_thread [OF assms]) simp
  then show ?thesis using get_outcome [OF assms(1)] by (auto split: list.splits)
qed

lemma test_step:
  assumes "qstep sp c c'" "test_inv msgs c"
  shows "test_inv msgs c'" "\<not> sp \<Longrightarrow> work c' < work c"
proof -
  obtain n ms p cs where inv: "ut_inv msgs n ms p cs c" using assms(2) unfolding test_inv_def by blast
  have "test_inv msgs c' \<and> (\<not> sp \<longrightarrow> work c' < work c)"
    using assms(1)
  proof cases
    case (put_wait i d ops)
    then show ?thesis using put_wait_kept [OF inv] by blast
  next
    case (put_done i d ops q ts)
    then show ?thesis using put_done_kept [OF inv] by blast
  next
    case (get_wait i mx ops)
    then show ?thesis using get_wait_kept [OF inv] by blast
  next
    case (get_done i mx ops d q ts)
    then show ?thesis using get_done_kept [OF inv] by blast
  next
    case (spurious i ops st st')
    then show ?thesis using spurious_kept [OF inv] by blast
  qed (use no_other_status [OF inv] no_long_message [OF inv] in blast)+
  then show "test_inv msgs c'" "\<not> sp \<Longrightarrow> work c' < work c" by blast+
qed

lemma test_steps:
  assumes "(qstep False ^^ k) c c'" "test_inv msgs c"
  shows "test_inv msgs c' \<and> k + work c' \<le> work c"
  using assms(1)
proof (induction k arbitrary: c')
  case (Suc k)
  then obtain d where d: "(qstep False ^^ k) c d" "qstep False d c'" by auto
  then show ?case using Suc.IH [OF d(1)] test_step [OF d(2)] by fastforce
qed (use assms(2) in simp)

section \<open>Progress\<close>

lemma publisher_moves:
  assumes inv: "ut_inv msgs n ms p cs c" and p: "snd p = Ready" "n < length msgs"
  shows "\<exists>c'. qstep sp c c'"
proof -
  note I = ut_invD [OF inv]
  let ?d = "msgs ! n" and ?ops = "map Put (drop (n + 1) msgs)"
  have d: "length ?d = 8" using I(7) p(2) by simp
  have "fst p = Put ?d # ?ops" using I(8) p(2) by (simp add: Cons_nth_drop_Suc [symmetric])
  then have i: "0 < length (cf_threads c)" "cf_threads c ! 0 = (Put ?d # ?ops, Ready)" using I(1) p(1) by (auto simp: prod_eq_iff)
  obtain ts where ts: "signal wake_readable ((cf_threads c)[0 := (?ops, Ready)]) ts" using signal_total by blast
  have "queue_put ?d (cf_q c) = Some None \<or> (\<exists>q. queue_put ?d (cf_q c) = Some (Some q))"
    using queue_put_step [OF I(2), of ?d] d by (auto split: if_splits)
  then show ?thesis using qstep.put_wait [OF i] qstep.put_done [OF i _ ts] by blast
qed

lemma consumer_moves:
  assumes inv: "ut_inv msgs n ms p cs c" and t: "t \<in> set cs" "fst t \<noteq> []" "snd t = Ready"
  shows "\<exists>c'. qstep sp c c'"
proof -
  obtain j where j: "j < length cs" "cs ! j = t" using t(1) by (metis in_set_conv_nth)
  obtain ops where "fst t = Get 8 # ops"
    using t ut_invD(10) [OF inv] by (cases "fst t") (auto simp: consumers_ok_def)
  then have i: "Suc j < length (cf_threads c)" "cf_threads c ! Suc j = (Get 8 # ops, Ready)"
    using j t(3) ut_invD(1) [OF inv] by (auto simp: prod_eq_iff)
  obtain ts where ts: "signal wake_writeable ((cf_threads c)[Suc j := (ops, Ready)]) ts" using signal_total by blast
  have "queue_get 8 (cf_q c) = Some WaitReadable \<or> (\<exists>m q. queue_get 8 (cf_q c) = Some (Got m q))"
    using get_outcome [OF inv] by (auto split: list.splits)
  then show ?thesis using qstep.get_wait [OF i] qstep.get_done [OF i _ ts] by blast
qed

lemma test_progress:
  assumes "test_inv msgs c" "\<nexists>c'. qstep sp c c'"
  shows "cf_got c = msgs" "cf_sent c = msgs" "\<forall>t \<in> set (cf_threads c). fst t = []"
proof -
  obtain n ms p cs where inv: "ut_inv msgs n ms p cs c" using assms(1) unfolding test_inv_def by blast
  note I = ut_invD [OF inv]
  have idle: "\<forall>t \<in> set cs. fst t = [] \<or> snd t \<noteq> Ready" using consumer_moves [OF inv] assms(2) by blast
  have "ready cs = 0" using idle by (simp add: ready_zero)
  then have ms: "ms = []" if "parked cs" using I(12) that by simp
  have sleep: "parked cs" if "remaining cs \<noteq> 0"
    using that idle I(10) by (auto simp: remaining_zero parked_def consumers_ok_def)
  have n: "n = length msgs"
  proof (rule ccontr)
    assume "n \<noteq> length msgs"
    then have "n < length msgs" using I(5) by simp
    then have full: "vq_size (cf_q c) < used ms + 24" using publisher_moves [OF inv] assms(2) I(9) by blast
    have "length (cf_got c) \<le> n" using I(4,5,6) by (metis length_append length_take le_add1 min.absorb2)
    then have "parked cs" using \<open>n < length msgs\<close> I(11) sleep by simp
    then show False using full ms I(3) by (simp add: used_def)
  qed
  then have "length (cf_got c) + length ms = length msgs" using I(4,6) by (metis length_append take_all_iff order_refl)
  then have "remaining cs = length ms" using I(11) by simp
  then have r: "remaining cs = 0" "ms = []" using ms sleep by auto
  then show "cf_got c = msgs" "cf_sent c = msgs" using I(4,6) n by auto
  show "\<forall>t \<in> set (cf_threads c). fst t = []" using I(1,8) n r(1) by (auto simp: remaining_zero)
qed

section \<open>The test ends\<close>

lemma remaining_replicate: "remaining (replicate k t) = k * length (fst t)"
  by (simp add: remaining_def sum_list_replicate)

lemma ready_le: "ready ts \<le> length ts"
  by (induction ts) (auto simp: ready_def busy_def)

lemma test_inv_start:
  assumes "queue_init pagesize k pagesize = Inr q" "24 \<le> pagesize" "pagesize \<le> 2 ^ 62"
  shows "test_inv (counters pagesize) (unittest_start pagesize q)"
proof -
  have "remaining (replicate NUM_THREADS (consumer_loop pagesize, Ready)) = length (counters pagesize)"
    by (simp add: remaining_replicate consumer_loop_def counters_def)
  moreover have "consumers_ok (replicate NUM_THREADS (consumer_loop pagesize, Ready))"
    by (auto simp: consumers_ok_def consumer_loop_def)
  ultimately have "ut_inv (counters pagesize) 0 [] (publisher_loop pagesize, Ready)
      (replicate NUM_THREADS (consumer_loop pagesize, Ready)) (unittest_start pagesize q)"
    using queue_init_rep [OF assms(1,3)] assms(2)
    by (auto simp: ut_inv_def unittest_start_def publisher_loop_def counters_def)
  then show ?thesis unfolding test_inv_def by blast
qed

lemma work_start: "work (unittest_start pagesize q) \<le> 96 * pagesize + 9"
proof -
  have "ready (cf_threads (unittest_start pagesize q)) \<le> 9"
    using ready_le [of "cf_threads (unittest_start pagesize q)"] by (simp add: unittest_start_def NUM_THREADS_def)
  moreover have "remaining (cf_threads (unittest_start pagesize q)) = 32 * pagesize"
    by (simp add: unittest_start_def remaining_replicate publisher_loop_def consumer_loop_def counters_def
        NUM_THREADS_def MESSAGES_PER_THREAD_def)
  ultimately show ?thesis by (simp add: work_def)
qed

text \<open>C12: every run of the test program ends, whatever the scheduler does: without spurious
  wakeups it takes at most \<open>96 * pagesize + 9\<close> critical sections, and when no thread can take
  another all of them have returned and the messages were received in the order \<open>0, 1, 2, \<dots>\<close>.\<close>

theorem unittest_terminates:
  assumes "queue_init pagesize k pagesize = Inr q" "24 \<le> pagesize" "pagesize < 2 ^ 27"
    and "(qstep False ^^ i) (unittest_start pagesize q) c"
  shows "i \<le> 96 * pagesize + 9 \<and> ((\<exists>c'. qstep False c c') \<or>
    (\<forall>t \<in> set (cf_threads c). fst t = []) \<and> cf_sent c = counters pagesize \<and> cf_got c = counters pagesize)"
proof -
  have "test_inv (counters pagesize) (unittest_start pagesize q)"
    by (rule test_inv_start [OF assms(1,2)]) (use assms(3) in simp)
  then have "test_inv (counters pagesize) c \<and> i + work c \<le> work (unittest_start pagesize q)"
    by (rule test_steps [OF assms(4)])
  then show ?thesis using test_progress [of "counters pagesize" c False] work_start [of pagesize q] by fastforce
qed

theorem unittest_terminates_witness:
  "\<exists>q c. queue_init 4096 all_calls_ok 4096 = Inr q \<and> qstep False (unittest_start 4096 q) c"
proof -
  obtain q where q: "queue_init 4096 all_calls_ok 4096 = Inr q" using sample_queue by blast
  have "counters 4096 \<noteq> []" by (simp add: counters_def NUM_THREADS_def MESSAGES_PER_THREAD_def)
  then show ?thesis using unittest_terminates [OF q, of 0 "unittest_start 4096 q"] q
    by (auto simp: unittest_start_def)
qed

end
