(* ===== verification/Kv.thy ===== *)
theory Kv
  imports Prelude "HOL-Library.Signed_Division"
begin

text \<open>
  The shared-memory key-value store of \<open>key-value/kv.c\<close>.  Strings are lists of
  bytes; a \<open>char\<close> array is the list of all its bytes, its C string ends at the
  first zero.  A call runs its critical section as one step, under the semaphore
  of its bucket.  \<open>kv_st\<close> is the mapped store (\<open>None\<close> is the NULL pointer), the
  other fields of \<open>kv\<close> are the static variables of the process; the pointers in
  \<open>cache_data\<close> and \<open>cache_key\<close> are (bucket, slot) pairs into the store.  The
  outer \<open>None\<close> of a result is a crash (a NULL pointer given to \<open>strncmp\<close>).
\<close>

section \<open>C strings\<close>

definition cstr :: "u8 list \<Rightarrow> u8 list" where
  "cstr a = takeWhile (\<lambda>c. c \<noteq> 0) a"

definition strncpy :: "nat \<Rightarrow> u8 list \<Rightarrow> u8 list" where
  "strncpy n src = (let s = cstr (take n src) in s @ replicate (n - length s) 0)"

definition strncmp_eq :: "nat \<Rightarrow> u8 list \<Rightarrow> u8 list \<Rightarrow> bool" where
  "strncmp_eq n a b \<longleftrightarrow> cstr (take n a) = cstr (take n b)"

definition strndup :: "u8 list \<Rightarrow> nat \<Rightarrow> u8 list" where
  "strndup a n = cstr (take n a)"

section \<open>State\<close>

definition KV_BUCKET_COUNT :: nat where "KV_BUCKET_COUNT = 256"
definition BUCKET_SIZE :: nat where "BUCKET_SIZE = 512"
definition KEY_COUNT :: nat where "KEY_COUNT = 16"
definition KEY_SIZE :: nat where "KEY_SIZE = 32"
definition NAME_MAX :: nat where "NAME_MAX = 255"

lemmas kv_consts = KV_BUCKET_COUNT_def BUCKET_SIZE_def KEY_COUNT_def KEY_SIZE_def NAME_MAX_def

record bucket =
  bkeys :: "u8 list list"
  bvalues :: "u8 list list"
  bcache_valid :: bool

record store =
  buckets :: "bucket list"
  clients :: int
  sname :: "u8 list"

record kv =
  kv_st :: "store option"
  g_fd :: int
  cache_valid :: bool
  cache_idx :: nat
  cache_data :: "(nat \<times> nat) option list"
  cache_key :: "(nat \<times> nat) option"

definition kv_start :: kv where
  "kv_start = \<lparr>kv_st = None, g_fd = -1, cache_valid = False, cache_idx = 0,
     cache_data = replicate (BUCKET_SIZE + 1) None, cache_key = None\<rparr>"

definition reset_cache :: "kv \<Rightarrow> kv" where
  "reset_cache s = s\<lparr>cache_idx := 0, cache_valid := False, cache_key := None,
     cache_data := replicate (BUCKET_SIZE + 1) None\<rparr>"

section \<open>The shared memory object\<close>

text \<open>Return codes, and the outcome of the kernel calls as parameters.\<close>

datatype kv_code = KV_OK | KV_ERR | KV_ERR_ARG

definition sm_create :: "(u8 list \<Rightarrow> bool \<Rightarrow> int) \<Rightarrow> bool \<Rightarrow> u8 list option \<Rightarrow> bool \<Rightarrow> bool \<Rightarrow> kv_code \<times> int option" where
  "sm_create shm_open ftruncate_ok name creat clear =
     (case name of
        None \<Rightarrow> (KV_ERR_ARG, None)
      | Some n \<Rightarrow>
          (let fd = shm_open n creat
           in if fd = -1 then (KV_ERR, Some fd)
              else if clear \<and> \<not> ftruncate_ok then (KV_ERR, Some fd)
              else (KV_OK, Some fd)))"

definition sm_exists :: "(u8 list \<Rightarrow> bool \<Rightarrow> int) \<Rightarrow> u8 list option \<Rightarrow> kv_code" where
  "sm_exists shm_open name = fst (sm_create shm_open True name False False)"

definition sm_attach :: "(int \<Rightarrow> store option) \<Rightarrow> int \<Rightarrow> kv \<Rightarrow> kv_code \<times> kv" where
  "sm_attach mmap fd s =
     (case mmap fd of
        None \<Rightarrow> (KV_ERR, s\<lparr>kv_st := None\<rparr>)
      | Some m \<Rightarrow> (KV_OK, s\<lparr>kv_st := Some m\<rparr>))"

definition sm_detach :: "bool \<Rightarrow> kv \<Rightarrow> kv_code \<times> kv" where
  "sm_detach munmap_ok s = (if \<not> munmap_ok then (KV_ERR, s) else (KV_OK, s\<lparr>kv_st := None\<rparr>))"

definition sm_close :: "bool \<Rightarrow> u8 list option \<Rightarrow> kv_code" where
  "sm_close unlink_ok name =
     (case name of None \<Rightarrow> KV_ERR_ARG | Some _ \<Rightarrow> if \<not> unlink_ok then KV_ERR else KV_OK)"

definition empty_bucket :: bucket where
  "empty_bucket = \<lparr>bkeys = replicate BUCKET_SIZE (replicate KEY_COUNT 0),
     bvalues = replicate BUCKET_SIZE (replicate KEY_SIZE 0), bcache_valid = False\<rparr>"

text \<open>
  \<open>fstat_size\<close> is the size the sanity check sees, relative to \<open>sizeof(store_t)\<close>:
  \<open>None\<close> if \<open>fstat\<close> fails, otherwise whether the two are equal; a failing assertion
  is the outer \<open>None\<close>.
\<close>

definition kv_store_create ::
    "(u8 list \<Rightarrow> bool \<Rightarrow> int) \<Rightarrow> bool \<Rightarrow> (int \<Rightarrow> store option) \<Rightarrow> bool option \<Rightarrow> u8 list option \<Rightarrow> kv \<Rightarrow> (int \<times> kv) option" where
  "kv_store_create shm_open ftruncate_ok mmap fstat_size name s =
     (if kv_st s \<noteq> None then Some (0, s)
      else let r = sm_exists shm_open name;
               creat = (r \<noteq> KV_OK);
               clear = (r \<noteq> KV_OK);
               (r1, fd) = sm_create shm_open ftruncate_ok name creat clear;
               s1 = (case fd of None \<Rightarrow> s | Some f \<Rightarrow> s\<lparr>g_fd := f\<rparr>)
           in if r1 \<noteq> KV_OK then Some (-1, s1)
              else let (r2, s2) = sm_attach mmap (g_fd s1) s1
                   in if r2 \<noteq> KV_OK then Some (-1, s2)
                      else let s3 = (if clear
                             then let s' = reset_cache s2
                                  in s'\<lparr>kv_st := map_option (\<lambda>m. m\<lparr>
                                    sname := (strncpy NAME_MAX (the name))[NAME_MAX - 1 := 0], clients := 0,
                                    buckets := replicate KV_BUCKET_COUNT empty_bucket\<rparr>) (kv_st s')\<rparr>
                             else s2)
                           in if fstat_size = Some False then None
                              else Some (0, s3\<lparr>kv_st := map_option (\<lambda>m. m\<lparr>clients := clients m + 1\<rparr>) (kv_st s3)\<rparr>))"

definition kv_store_destroy :: "bool \<Rightarrow> bool \<Rightarrow> u8 list option \<Rightarrow> kv \<Rightarrow> int \<times> kv" where
  "kv_store_destroy munmap_ok unlink_ok name s =
     (case (kv_st s, name) of
        (Some m, Some n) \<Rightarrow>
          (let s1 = reset_cache s
           in if \<not> strncmp_eq (NAME_MAX - 1) (sname m) n then (-1, s1)
              else let cl = clients m - 1;
                       s2 = s1\<lparr>kv_st := Some (m\<lparr>clients := cl\<rparr>)\<rparr>;
                       (r, s3) = sm_detach munmap_ok s2
                   in if r \<noteq> KV_OK then (-1, s3)
                      else let s4 = s3\<lparr>kv_st := None\<rparr>
                           in if cl < 1 \<and> sm_close unlink_ok name \<noteq> KV_OK then (-1, s4) else (0, s4))
      | _ \<Rightarrow> (-1, s))"

definition kv_delete_db :: "bool \<Rightarrow> bool \<Rightarrow> kv \<Rightarrow> int \<times> kv" where
  "kv_delete_db munmap_ok unlink_ok s =
     (case kv_st s of
        None \<Rightarrow> (-1, s)
      | Some m \<Rightarrow> kv_store_destroy munmap_ok unlink_ok (Some (strncpy NAME_MAX (sname m))) s)"

section \<open>Hashing, writing and reading\<close>

text \<open>\<open>char\<close> is signed; \<open>%\<close> truncates towards zero; no intermediate value leaves \<open>int32_t\<close>.\<close>

definition hash_step :: "u8 \<Rightarrow> int \<Rightarrow> int" where
  "hash_step c val = (let val = val smod 2 ^ 24 in (val * 32 + val) + sint c)"

definition hash_val :: "u8 list \<Rightarrow> int" where
  "hash_val word = fold hash_step word 5381"

definition hash :: "u8 list \<Rightarrow> int \<Rightarrow> int" where
  "hash word mx =
     (let val = hash_val word
      in if val smod mx < 0 then (- val) smod mx else val smod mx)"

definition kv_bucket :: "u8 list \<Rightarrow> nat" where
  "kv_bucket key = nat (hash key (int KV_BUCKET_COUNT))"

definition bucket_write :: "u8 list \<Rightarrow> u8 list \<Rightarrow> bucket \<Rightarrow> bucket" where
  "bucket_write key val p =
     (let keys = map (strncpy KEY_COUNT) (bkeys p);
          vals = map (strncpy KEY_SIZE) (bvalues p);
          ks = fold (\<lambda>k a. a[k + 1 := strncpy KEY_COUNT (keys ! k)]) [0..<BUCKET_SIZE - 1] (bkeys p);
          vs = fold (\<lambda>k a. a[k + 1 := strncpy KEY_SIZE (vals ! k)]) [0..<BUCKET_SIZE - 1] (bvalues p)
      in p\<lparr>bcache_valid := False,
           bkeys := ks[0 := (strncpy KEY_COUNT key)[KEY_COUNT - 1 := 0]],
           bvalues := vs[0 := (strncpy KEY_SIZE val)[KEY_SIZE - 1 := 0]]\<rparr>)"

definition kv_store_write :: "u8 list option \<Rightarrow> u8 list option \<Rightarrow> kv \<Rightarrow> int \<times> kv" where
  "kv_store_write key val s =
     (case (key, val, kv_st s) of
        (Some k, Some v, Some m) \<Rightarrow>
          if length k < 1 then (-1, s)
          else let i = kv_bucket k;
                   s1 = reset_cache s
               in (0, s1\<lparr>kv_st := Some (m\<lparr>buckets := (buckets m)[i := bucket_write k v (buckets m ! i)]\<rparr>)\<rparr>)
      | _ \<Rightarrow> (-1, s))"

text \<open>The search loop of \<open>kv_store_read\<close>: the slots from the last to the first.\<close>

definition read_scan :: "nat \<Rightarrow> u8 list \<Rightarrow> bucket \<Rightarrow> kv \<Rightarrow> nat \<times> kv" where
  "read_scan b key p s =
     fold (\<lambda>i (l, s). let j = BUCKET_SIZE - i - 1
        in if strncmp_eq KEY_COUNT (bkeys p ! j) key
           then (l + 1, s\<lparr>cache_key := Some (b, j), cache_data := (cache_data s)[l := Some (b, j)]\<rparr>)
           else (l, s)) [0..<BUCKET_SIZE] (0, s)"

definition read_fill :: "u8 list \<Rightarrow> nat \<Rightarrow> store \<Rightarrow> kv \<Rightarrow> (u8 list option \<times> kv) option" where
  "read_fill key b m s =
     (let p = buckets m ! b;
          s1 = s\<lparr>kv_st := Some (m\<lparr>buckets := (buckets m)[b := p\<lparr>bcache_valid := True\<rparr>]\<rparr>),
                 cache_idx := 0, cache_valid := True\<rparr>;
          (l, s2) = read_scan b key p s1;
          s3 = s2\<lparr>cache_data := (cache_data s2)[l := None]\<rparr>
      in if l > 0
         then case cache_data s3 ! cache_idx s3 of
                None \<Rightarrow> None
              | Some (b', j) \<Rightarrow>
                  Some (Some (strndup (bvalues (buckets m ! b') ! j) KEY_SIZE), s3\<lparr>cache_idx := cache_idx s3 + 1\<rparr>)
         else Some (None, s3))"

definition kv_store_read :: "u8 list option \<Rightarrow> kv \<Rightarrow> (u8 list option \<times> kv) option" where
  "kv_store_read key s =
     (case (key, kv_st s) of
        (Some k, Some m) \<Rightarrow>
          (let b = kv_bucket k;
               p = buckets m ! b
           in if bcache_valid p \<and> cache_valid s
              then case cache_key s of
                     None \<Rightarrow> None
                   | Some (b', j) \<Rightarrow>
                       if strncmp_eq KEY_COUNT (bkeys (buckets m ! b') ! j) k
                       then case cache_data s ! cache_idx s of
                              None \<Rightarrow> Some (None, s\<lparr>cache_idx := 0\<rparr>)
                            | Some (b', j) \<Rightarrow>
                                Some (Some (strndup (bvalues (buckets m ! b') ! j) KEY_SIZE),
                                      s\<lparr>cache_idx := cache_idx s + 1\<rparr>)
                       else read_fill k b m s
              else read_fill k b m s)
      | _ \<Rightarrow> Some (None, s))"

text \<open>The result is the array up to its terminating NULL pointer; \<open>None\<close> is NULL.\<close>

definition kv_store_read_all :: "u8 list option \<Rightarrow> kv \<Rightarrow> u8 list list option" where
  "kv_store_read_all key s =
     (case (key, kv_st s) of
        (Some k, Some m) \<Rightarrow>
          (let p = buckets m ! kv_bucket k;
               vals = fold (\<lambda>i vs. let j = BUCKET_SIZE - i - 1
                 in if strncmp_eq KEY_COUNT (bkeys p ! j) k then vs @ [strndup (bvalues p ! j) KEY_SIZE] else vs)
                 [0..<BUCKET_SIZE] []
           in if vals = [] then None else Some vals)
      | _ \<Rightarrow> None)"

section \<open>The hash function\<close>

lemma smod_abs_less: "m > 0 \<Longrightarrow> \<bar>(a::int) smod m\<bar> < m"
  using smod_int_range [of m a] by auto

lemma smod_uminus: "(- a) smod (m::int) = - (a smod m)"
  by (simp add: smod_int_alt_def)

lemma hash_step_range: "\<bar>hash_step c val\<bar> < 2 ^ 31"
proof -
  have "\<bar>val smod 2 ^ 24\<bar> < (2::int) ^ 24" by (rule smod_abs_less) simp
  moreover have "- 128 \<le> sint c" "sint c < 128" using sint_ge [of c] sint_lt [of c] by simp_all
  ultimately show ?thesis by (simp add: hash_step_def Let_def)
qed

text \<open>No step of the hash leaves the range of \<open>int32_t\<close>.\<close>

lemma hash_val_range: "\<bar>hash_val w\<bar> < 2 ^ 31"
proof (cases w rule: rev_cases)
  case (snoc ys y)
  then show ?thesis using hash_step_range [of y "fold hash_step ys 5381"] by (simp add: hash_val_def)
qed (simp add: hash_val_def)

lemma hash_range:
  assumes "0 < m"
  shows "0 \<le> hash w m" "hash w m < m"
  using smod_abs_less [OF assms, of "hash_val w"] by (auto simp: hash_def Let_def smod_uminus)

lemma kv_bucket_less: "kv_bucket k < KV_BUCKET_COUNT"
  using hash_range [of "int KV_BUCKET_COUNT" k] by (simp add: kv_bucket_def kv_consts)

end
