(* ===== verification/Kv_Spec.thy ===== *)
theory Kv_Spec
  imports Kv
begin

text \<open>
  What the key-value store promises.  A bucket is abstracted to its entries, a
  list of (key, value) strings with the newest first; writing pushes at the front
  and drops the oldest of 512 entries, reading visits the entries of a key from
  the oldest to the newest.
\<close>

section \<open>Strings in arrays\<close>

definition nozero :: "u8 list \<Rightarrow> bool" where
  "nozero s \<longleftrightarrow> 0 \<notin> set s"

text \<open>A \<open>char\<close> array of \<open>n\<close> bytes that ends in a zero.\<close>

definition carray :: "nat \<Rightarrow> u8 list \<Rightarrow> bool" where
  "carray n a \<longleftrightarrow> length a = n \<and> 0 < n \<and> a ! (n - 1) = 0"

lemma cstr_nozero [simp]: "nozero s \<Longrightarrow> cstr s = s"
  by (induction s) (auto simp: cstr_def nozero_def)

lemma cstr_append_zero: "nozero s \<Longrightarrow> cstr (s @ 0 # t) = s"
  by (induction s) (auto simp: cstr_def nozero_def)

lemma nozero_cstr [simp]: "nozero (cstr a)"
  by (auto simp: nozero_def cstr_def dest: set_takeWhileD)

lemma nozero_take: "nozero s \<Longrightarrow> nozero (take n s)"
  by (auto simp: nozero_def dest: in_set_takeD)

lemma carray_cstr:
  assumes "carray n a"
  obtains t where "a = cstr a @ 0 # t" "length (cstr a) < n" "length a = n"
proof -
  have "a ! (n - 1) \<in> set a" using assms by (intro nth_mem) (simp add: carray_def)
  then have "0 \<in> set a" using assms by (simp add: carray_def)
  then obtain ys zs where a: "a = ys @ 0 # zs" "0 \<notin> set ys" by (metis split_list_first)
  then have "cstr a = ys" using cstr_append_zero [of ys zs] by (simp add: nozero_def)
  with a that [of zs] assms show thesis by (auto simp: carray_def)
qed

text \<open>Comparing a stored key with a key that fits.\<close>

lemma strncmp_eq_carray:
  assumes "carray n a" "nozero k" "length k < n"
  shows "strncmp_eq n a k \<longleftrightarrow> cstr a = k"
  using assms by (simp add: strncmp_eq_def carray_def)

text \<open>A key that fills the whole array is never found: the stored copy is cut at \<open>n - 1\<close> bytes.\<close>

lemma strncmp_eq_long:
  assumes "carray n a" "nozero k" "n \<le> length k"
  shows "\<not> strncmp_eq n a k"
proof
  assume "strncmp_eq n a k"
  moreover obtain t where "length (cstr a) < n" "length a = n" using carray_cstr [OF assms(1)] by metis
  ultimately have "cstr a = take n k" using assms by (simp add: strncmp_eq_def nozero_take)
  with \<open>length (cstr a) < n\<close> assms(3) show False by simp
qed

lemma strncpy_carray:
  assumes "carray n a"
  shows "cstr (strncpy n a) = cstr a" "carray n (strncpy n a)"
proof -
  obtain t where t: "length (cstr a) < n" "length a = n" using carray_cstr [OF assms] by metis
  have e: "strncpy n a = cstr a @ replicate (n - length (cstr a)) 0"
    using t by (simp add: strncpy_def Let_def)
  obtain m where m: "n - length (cstr a) = Suc m" using t(1) by (metis Suc_diff_Suc)
  show "cstr (strncpy n a) = cstr a" unfolding e m by (simp add: cstr_append_zero)
  show "carray n (strncpy n a)" unfolding e using t(1) by (auto simp: carray_def nth_append)
qed

lemma strncpy_cut:
  assumes "nozero s" "0 < n"
  shows "cstr ((strncpy n s)[n - 1 := 0]) = take (n - 1) s" "carray n ((strncpy n s)[n - 1 := 0])"
proof -
  have e: "strncpy n s = take n s @ replicate (n - length s) 0"
    using assms(1) by (simp add: strncpy_def Let_def nozero_take)
  have len: "length (strncpy n s) = n" unfolding e by simp
  have "(strncpy n s)[n - 1 := 0] = take (n - 1) s @ 0 # replicate (n - Suc (length (take (n - 1) s))) 0"
    using assms(2) by (intro nth_equalityI) (auto simp: e nth_append nth_list_update nth_Cons' min_def)
  then show "cstr ((strncpy n s)[n - 1 := 0]) = take (n - 1) s"
    using cstr_append_zero [OF nozero_take [OF assms(1)]] by simp
  show "carray n ((strncpy n s)[n - 1 := 0])" using assms(2) len by (simp add: carray_def)
qed

section \<open>Buckets\<close>

definition bucket_ok :: "bucket \<Rightarrow> bool" where
  "bucket_ok p \<longleftrightarrow> length (bkeys p) = BUCKET_SIZE \<and> length (bvalues p) = BUCKET_SIZE \<and>
     (\<forall>a \<in> set (bkeys p). carray KEY_COUNT a) \<and> (\<forall>a \<in> set (bvalues p). carray KEY_SIZE a)"

definition entries :: "bucket \<Rightarrow> (u8 list \<times> u8 list) list" where
  "entries p = zip (map cstr (bkeys p)) (map cstr (bvalues p))"

definition values_of :: "u8 list \<Rightarrow> bucket \<Rightarrow> u8 list list" where
  "values_of k p = map snd (filter (\<lambda>e. fst e = k) (rev (entries p)))"

text \<open>The shifting loop.\<close>

lemma fold_shift:
  assumes "n < length a" "length old = length a"
  shows "fold (\<lambda>k a. a[k + 1 := f (old ! k)]) [0..<n] a = a ! 0 # map f (take n old) @ drop (Suc n) a"
  using assms
proof (induction n)
  case 0
  then show ?case by (cases a) auto
next
  case (Suc n)
  have "fold (\<lambda>k a. a[k + 1 := f (old ! k)]) [0..<Suc n] a =
      (a ! 0 # map f (take n old) @ drop (Suc n) a)[n + 1 := f (old ! n)]" using Suc by simp
  also have "\<dots> = a ! 0 # map f (take n old) @ f (old ! n) # drop (Suc (Suc n)) a"
  proof -
    have "drop (Suc n) a = a ! Suc n # drop (Suc (Suc n)) a" using Suc.prems(1) by (simp add: Cons_nth_drop_Suc)
    moreover have "length (map f (take n old)) = n" using Suc.prems by simp
    ultimately show ?thesis by (simp add: list_update_append)
  qed
  also have "map f (take n old) @ f (old ! n) # drop (Suc (Suc n)) a = map f (take (Suc n) old) @ drop (Suc (Suc n)) a"
    using Suc.prems by (simp add: take_Suc_conv_app_nth)
  finally show ?case .
qed

lemma bucket_write_eq:
  assumes "bucket_ok p"
  shows "bucket_write k v p = p\<lparr>bcache_valid := False,
    bkeys := (strncpy KEY_COUNT k)[KEY_COUNT - 1 := 0] # map (strncpy KEY_COUNT \<circ> strncpy KEY_COUNT) (take (BUCKET_SIZE - 1) (bkeys p)),
    bvalues := (strncpy KEY_SIZE v)[KEY_SIZE - 1 := 0] # map (strncpy KEY_SIZE \<circ> strncpy KEY_SIZE) (take (BUCKET_SIZE - 1) (bvalues p))\<rparr>"
proof -
  have len: "length (bkeys p) = BUCKET_SIZE" "length (bvalues p) = BUCKET_SIZE" "0 < BUCKET_SIZE"
    using assms by (auto simp: bucket_ok_def kv_consts)
  have shift: "fold (\<lambda>k a. a[k + 1 := f (map f b ! k)]) [0..<BUCKET_SIZE - 1] b =
      b ! 0 # map (f \<circ> f) (take (BUCKET_SIZE - 1) b)" if "length b = BUCKET_SIZE" for f and b :: "u8 list list"
    using fold_shift [of "BUCKET_SIZE - 1" b "map f b" f] that len(3) by (simp add: take_map)
  show ?thesis
    unfolding bucket_write_def Let_def using shift [OF len(1), of "strncpy KEY_COUNT"] shift [OF len(2), of "strncpy KEY_SIZE"]
    by simp
qed

lemma bucket_write_entries:
  assumes ok: "bucket_ok p" and kv: "nozero k" "nozero v"
  shows "entries (bucket_write k v p) =
      (take (KEY_COUNT - 1) k, take (KEY_SIZE - 1) v) # take (BUCKET_SIZE - 1) (entries p)"
    and "bucket_ok (bucket_write k v p)"
proof -
  have c: "0 < KEY_COUNT" "0 < KEY_SIZE" "0 < BUCKET_SIZE" by (simp_all add: kv_consts)
  have ks: "map (cstr \<circ> (strncpy KEY_COUNT \<circ> strncpy KEY_COUNT)) (take n (bkeys p)) = take n (map cstr (bkeys p))" for n
    using ok strncpy_carray by (auto simp: bucket_ok_def take_map dest!: in_set_takeD)
  have vs: "map (cstr \<circ> (strncpy KEY_SIZE \<circ> strncpy KEY_SIZE)) (take n (bvalues p)) = take n (map cstr (bvalues p))" for n
    using ok strncpy_carray by (auto simp: bucket_ok_def take_map dest!: in_set_takeD)
  show "entries (bucket_write k v p) =
      (take (KEY_COUNT - 1) k, take (KEY_SIZE - 1) v) # take (BUCKET_SIZE - 1) (entries p)"
    unfolding bucket_write_eq [OF ok] entries_def
    using ks vs strncpy_cut(1) [OF kv(1) c(1)] strncpy_cut(1) [OF kv(2) c(2)]
    by (simp add: take_zip)
  have "carray KEY_COUNT (strncpy KEY_COUNT (strncpy KEY_COUNT a))" if "a \<in> set (bkeys p)" for a
    using ok that strncpy_carray(2) by (auto simp: bucket_ok_def)
  moreover have "carray KEY_SIZE (strncpy KEY_SIZE (strncpy KEY_SIZE a))" if "a \<in> set (bvalues p)" for a
    using ok that strncpy_carray(2) by (auto simp: bucket_ok_def)
  ultimately show "bucket_ok (bucket_write k v p)"
    unfolding bucket_write_eq [OF ok] using ok c strncpy_cut(2) [OF kv(1) c(1)] strncpy_cut(2) [OF kv(2) c(2)]
    by (auto simp: bucket_ok_def dest!: in_set_takeD)
qed

lemma empty_bucket_ok: "bucket_ok empty_bucket"
  by (simp add: bucket_ok_def empty_bucket_def carray_def kv_consts)

section \<open>Searching a bucket\<close>

text \<open>The loops run over the slots from the last to the first.\<close>

definition hits :: "u8 list \<Rightarrow> bucket \<Rightarrow> nat list" where
  "hits k p = filter (\<lambda>j. strncmp_eq KEY_COUNT (bkeys p ! j) k) (rev [0..<BUCKET_SIZE])"

lemma rev_upt_down: "rev [0..<n] = map (\<lambda>i. n - i - 1) [0..<n]"
  by (intro nth_equalityI) (auto simp: rev_nth)

lemma fold_filter_acc: "fold (\<lambda>j vs. if P j then vs @ [g j] else vs) js acc = acc @ map g (filter P js)"
  by (induction js arbitrary: acc) auto

lemma hits_bound: "j \<in> set (hits k p) \<Longrightarrow> j < BUCKET_SIZE"
  by (auto simp: hits_def)

lemma length_hits: "length (hits k p) \<le> BUCKET_SIZE"
  unfolding hits_def by (rule order_trans [OF length_filter_le]) simp

lemma read_all_hits:
  "fold (\<lambda>i vs. let j = BUCKET_SIZE - i - 1
     in if strncmp_eq KEY_COUNT (bkeys p ! j) k then vs @ [strndup (bvalues p ! j) KEY_SIZE] else vs) [0..<BUCKET_SIZE] [] =
   map (\<lambda>j. strndup (bvalues p ! j) KEY_SIZE) (hits k p)"
proof -
  have "fold (\<lambda>i vs. let j = BUCKET_SIZE - i - 1
      in if strncmp_eq KEY_COUNT (bkeys p ! j) k then vs @ [strndup (bvalues p ! j) KEY_SIZE] else vs) [0..<BUCKET_SIZE] [] =
    fold (\<lambda>j vs. if strncmp_eq KEY_COUNT (bkeys p ! j) k then vs @ [strndup (bvalues p ! j) KEY_SIZE] else vs)
      (map (\<lambda>i. BUCKET_SIZE - i - 1) [0..<BUCKET_SIZE]) []"
    by (simp add: fold_map comp_def Let_def)
  then show ?thesis by (simp add: fold_filter_acc hits_def rev_upt_down)
qed

lemma hits_values:
  assumes ok: "bucket_ok p" and k: "nozero k" "length k < KEY_COUNT"
  shows "map (\<lambda>j. strndup (bvalues p ! j) KEY_SIZE) (hits k p) = values_of k p"
proof -
  have len: "length (bkeys p) = BUCKET_SIZE" "length (bvalues p) = BUCKET_SIZE" using ok by (auto simp: bucket_ok_def)
  have e: "entries p = map (\<lambda>j. (cstr (bkeys p ! j), cstr (bvalues p ! j))) [0..<BUCKET_SIZE]"
    using len by (intro nth_equalityI) (auto simp: entries_def)
  have m: "strncmp_eq KEY_COUNT (bkeys p ! j) k \<longleftrightarrow> cstr (bkeys p ! j) = k" if "j < BUCKET_SIZE" for j
    using ok k len that by (intro strncmp_eq_carray) (auto simp: bucket_ok_def)
  have v: "strndup (bvalues p ! j) KEY_SIZE = cstr (bvalues p ! j)" if "j < BUCKET_SIZE" for j
  proof -
    have "carray KEY_SIZE (bvalues p ! j)" using ok len that by (auto simp: bucket_ok_def)
    then show ?thesis by (simp add: strndup_def carray_def)
  qed
  have h: "hits k p = filter (\<lambda>j. cstr (bkeys p ! j) = k) (rev [0..<BUCKET_SIZE])"
    unfolding hits_def by (rule filter_cong) (auto simp: m)
  have "map (\<lambda>j. strndup (bvalues p ! j) KEY_SIZE) (hits k p) = map (\<lambda>j. cstr (bvalues p ! j)) (hits k p)"
    by (rule map_cong) (auto simp: v dest: hits_bound)
  then show ?thesis unfolding values_of_def e h by (simp add: rev_map filter_map comp_def)
qed

lemma hits_long_key:
  assumes ok: "bucket_ok p" and k: "nozero k" "KEY_COUNT \<le> length k"
  shows "hits k p = []"
proof -
  have "\<not> strncmp_eq KEY_COUNT (bkeys p ! j) k" if "j < BUCKET_SIZE" for j
    using ok k that by (intro strncmp_eq_long) (auto simp: bucket_ok_def)
  then show ?thesis by (auto simp: hits_def filter_empty_conv)
qed

section \<open>Store invariant\<close>

definition store_ok :: "store \<Rightarrow> bool" where
  "store_ok m \<longleftrightarrow> length (buckets m) = KV_BUCKET_COUNT \<and> (\<forall>p \<in> set (buckets m). bucket_ok p)"

definition kv_ok :: "kv \<Rightarrow> bool" where
  "kv_ok s \<longleftrightarrow> (case kv_st s of None \<Rightarrow> True | Some m \<Rightarrow> store_ok m) \<and> length (cache_data s) = BUCKET_SIZE + 1"

lemma store_ok_bucket: "store_ok m \<Longrightarrow> bucket_ok (buckets m ! kv_bucket k)"
  using kv_bucket_less [of k] by (auto simp: store_ok_def)

lemma store_ok_update:
  assumes "store_ok m" "bucket_ok p"
  shows "store_ok (m\<lparr>buckets := (buckets m)[i := p]\<rparr>)"
  using assms set_update_subset_insert [of "buckets m" i p] by (auto simp: store_ok_def)

lemma kv_write_ok:
  assumes "kv_ok s" "kv_st s = Some m" "nozero k" "nozero v" "k \<noteq> []"
  shows "\<exists>m'. kv_store_write (Some k) (Some v) s = (0, (reset_cache s)\<lparr>kv_st := Some m'\<rparr>) \<and> store_ok m' \<and>
    entries (buckets m' ! kv_bucket k) = (take 15 k, take 31 v) # take 511 (entries (buckets m ! kv_bucket k)) \<and>
    bcache_valid (buckets m' ! kv_bucket k) = False \<and>
    (\<forall>b. b \<noteq> kv_bucket k \<longrightarrow> buckets m' ! b = buckets m ! b)"
proof -
  let ?i = "kv_bucket k" and ?p = "bucket_write k v (buckets m ! kv_bucket k)"
  let ?m = "m\<lparr>buckets := (buckets m)[?i := ?p]\<rparr>"
  have m: "store_ok m" using assms(1,2) by (simp add: kv_ok_def)
  note b = bucket_write_entries [OF store_ok_bucket [OF m, of k] assms(3,4)]
  have "?i < length (buckets m)" using m kv_bucket_less [of k] by (simp add: store_ok_def)
  moreover have "kv_store_write (Some k) (Some v) s = (0, (reset_cache s)\<lparr>kv_st := Some ?m\<rparr>)"
    using assms(2,5) by (simp add: kv_store_write_def Let_def Suc_le_eq)
  moreover have "bcache_valid ?p = False" by (simp add: bucket_write_def Let_def)
  ultimately show ?thesis
    using store_ok_update [OF m b(2), of ?i] b(1) by (intro exI [of _ ?m]) (simp add: kv_consts)
qed

section \<open>Reading\<close>

definition scan_step :: "nat \<Rightarrow> u8 list \<Rightarrow> bucket \<Rightarrow> nat \<Rightarrow> nat \<times> kv \<Rightarrow> nat \<times> kv" where
  "scan_step b k p j = (\<lambda>(l, s). if strncmp_eq KEY_COUNT (bkeys p ! j) k
     then (l + 1, s\<lparr>cache_key := Some (b, j), cache_data := (cache_data s)[l := Some (b, j)]\<rparr>) else (l, s))"

lemma scan_fold:
  assumes "length (filter (\<lambda>j. strncmp_eq KEY_COUNT (bkeys p ! j) k) js) + l \<le> length (cache_data s)"
  shows "fold (scan_step b k p) js (l, s) =
    (let hs = filter (\<lambda>j. strncmp_eq KEY_COUNT (bkeys p ! j) k) js
     in (l + length hs, s\<lparr>cache_key := (if hs = [] then cache_key s else Some (b, last hs)),
        cache_data := take l (cache_data s) @ map (\<lambda>j. Some (b, j)) hs @ drop (l + length hs) (cache_data s)\<rparr>))"
  using assms
proof (induction js arbitrary: l s)
  case (Cons j js)
  show ?case
  proof (cases "strncmp_eq KEY_COUNT (bkeys p ! j) k")
    case True
    let ?s = "s\<lparr>cache_key := Some (b, j), cache_data := (cache_data s)[l := Some (b, j)]\<rparr>"
    have "take (Suc l) ((cache_data s)[l := Some (b, j)]) = take l (cache_data s) @ [Some (b, j)]"
      using Cons.prems True by (simp add: take_Suc_conv_app_nth)
    with Cons.IH [of "l + 1" ?s] Cons.prems True show ?thesis by (simp add: scan_step_def Let_def)
  next
    case False
    with Cons.IH [of l s] Cons.prems show ?thesis by (simp add: scan_step_def Let_def)
  qed
qed simp

lemma read_scan_hits:
  assumes "length (cache_data s) = BUCKET_SIZE + 1"
  shows "read_scan b k p s = (length (hits k p),
    s\<lparr>cache_key := (if hits k p = [] then cache_key s else Some (b, last (hits k p))),
      cache_data := map (\<lambda>j. Some (b, j)) (hits k p) @ drop (length (hits k p)) (cache_data s)\<rparr>)"
proof -
  have "read_scan b k p s = fold (scan_step b k p) (map (\<lambda>i. BUCKET_SIZE - i - 1) [0..<BUCKET_SIZE]) (0, s)"
    by (simp add: read_scan_def scan_step_def fold_map comp_def Let_def)
  also have "\<dots> = fold (scan_step b k p) (rev [0..<BUCKET_SIZE]) (0, s)" by (simp only: rev_upt_down)
  finally show ?thesis
    using scan_fold [of p k "rev [0..<BUCKET_SIZE]" 0 s b] length_hits [of k p] assms by (simp add: hits_def Let_def)
qed

text \<open>
  The cache after a successful search: it points at the hits of \<open>k\<close>, followed by
  NULL, and \<open>i\<close> of them have been returned.
\<close>

definition cached :: "u8 list \<Rightarrow> nat \<Rightarrow> kv \<Rightarrow> bool" where
  "cached k i s \<longleftrightarrow> (\<exists>m. kv_st s = Some m \<and> store_ok m \<and>
     (let b = kv_bucket k; p = buckets m ! b; hs = hits k p
      in bcache_valid p \<and> cache_valid s \<and> hs \<noteq> [] \<and> cache_key s = Some (b, last hs) \<and> i \<le> length hs \<and> cache_idx s = i \<and>
        (\<exists>rest. cache_data s = map (\<lambda>j. Some (b, j)) hs @ None # rest)))"

definition kv_vals :: "u8 list \<Rightarrow> kv \<Rightarrow> u8 list list" where
  "kv_vals k s = (case kv_st s of None \<Rightarrow> [] | Some m \<Rightarrow>
     map (\<lambda>j. strndup (bvalues (buckets m ! kv_bucket k) ! j) KEY_SIZE) (hits k (buckets m ! kv_bucket k)))"

lemma kv_read_all_vals:
  "kv_store_read_all (Some k) s = (if kv_vals k s = [] then None else Some (kv_vals k s))"
proof (cases "kv_st s")
  case (Some m)
  then show ?thesis using read_all_hits [of "buckets m ! kv_bucket k" k]
    by (simp add: kv_store_read_all_def kv_vals_def Let_def)
qed (simp add: kv_store_read_all_def kv_vals_def)

lemma hits_cong: "bkeys p = bkeys q \<Longrightarrow> hits k p = hits k q"
  by (simp add: hits_def)

lemma read_fill_run:
  assumes ok: "kv_ok s" and m: "kv_st s = Some m"
  shows "if kv_vals k s = []
    then \<exists>s'. read_fill k (kv_bucket k) m s = Some (None, s') \<and> cache_valid s' \<and> cache_key s' = cache_key s \<and> kv_ok s' \<and>
      cache_idx s' = 0 \<and> cache_data s' ! 0 = None \<and>
      kv_st s' = Some (m\<lparr>buckets := (buckets m)[kv_bucket k := (buckets m ! kv_bucket k)\<lparr>bcache_valid := True\<rparr>]\<rparr>)
    else \<exists>s'. read_fill k (kv_bucket k) m s = Some (Some (kv_vals k s ! 0), s') \<and> cached k 1 s' \<and> kv_vals k s' = kv_vals k s \<and>
      kv_ok s' \<and> kv_st s' = Some (m\<lparr>buckets := (buckets m)[kv_bucket k := (buckets m ! kv_bucket k)\<lparr>bcache_valid := True\<rparr>]\<rparr>)"
proof -
  let ?b = "kv_bucket k" and ?p = "buckets m ! kv_bucket k"
  let ?q = "?p\<lparr>bcache_valid := True\<rparr>"
  let ?m = "m\<lparr>buckets := (buckets m)[?b := ?q]\<rparr>" and ?hs = "hits k ?p"
  let ?s1 = "s\<lparr>kv_st := Some ?m, cache_idx := 0, cache_valid := True\<rparr>"
  have mok: "store_ok m" and len: "length (cache_data s) = BUCKET_SIZE + 1" using ok m by (simp_all add: kv_ok_def)
  have "bucket_ok ?q" using store_ok_bucket [OF mok, of k] by (simp add: bucket_ok_def)
  then have mok': "store_ok ?m" using mok by (intro store_ok_update)
  have b: "?b < length (buckets m)" using mok kv_bucket_less [of k] by (simp add: store_ok_def)
  let ?s2 = "?s1\<lparr>cache_key := (if ?hs = [] then cache_key s else Some (?b, last ?hs)),
      cache_data := map (\<lambda>j. Some (?b, j)) ?hs @ drop (length ?hs) (cache_data s)\<rparr>"
  have scan: "read_scan ?b k ?p ?s1 = (length ?hs, ?s2)" using read_scan_hits [of ?s1 ?b k ?p] len by simp
  obtain x rest where "drop (length ?hs) (cache_data s) = x # rest" "length rest + length ?hs = BUCKET_SIZE"
    using length_hits [of k ?p] len by (cases "drop (length ?hs) (cache_data s)")
      (auto simp: drop_eq_Nil dest: arg_cong [where f = length])
  then have data: "(map (\<lambda>j. Some (?b, j)) ?hs @ drop (length ?hs) (cache_data s))[length ?hs := None] =
      map (\<lambda>j. Some (?b, j)) ?hs @ None # rest" "length rest + length ?hs = BUCKET_SIZE"
    by (simp_all add: list_update_append)
  let ?s3 = "?s2\<lparr>cache_data := map (\<lambda>j. Some (?b, j)) ?hs @ None # rest\<rparr>"
  have ok3: "kv_ok ?s3" using mok' data(2) by (simp add: kv_ok_def)
  have vals: "kv_vals k s = map (\<lambda>j. strndup (bvalues ?p ! j) KEY_SIZE) ?hs" using m by (simp add: kv_vals_def)
  show ?thesis
  proof (cases "?hs = []")
    case True
    then have "read_fill k ?b m s = Some (None, ?s3)"
      using scan data by (simp add: read_fill_def Let_def)
    with True vals ok3 show ?thesis by simp
  next
    case False
    let ?s4 = "?s3\<lparr>cache_idx := 1\<rparr>"
    have "(map (\<lambda>j. Some (?b, j)) ?hs @ None # rest) ! 0 = Some (?b, ?hs ! 0)" using False by (simp add: nth_append)
    then have res: "read_fill k ?b m s = Some (Some (strndup (bvalues ?p ! (?hs ! 0)) KEY_SIZE), ?s4)"
      using scan data False by (simp add: read_fill_def Let_def)
    have h: "hits k (buckets ?m ! ?b) = ?hs" using b by (simp add: hits_cong [of ?q ?p])
    then have "cached k 1 ?s4"
      using False mok' b by (auto simp: cached_def Let_def Suc_le_eq)
    moreover have "kv_vals k ?s4 = kv_vals k s" using h b vals by (simp add: kv_vals_def)
    moreover have "kv_ok ?s4" using ok3 by (simp add: kv_ok_def)
    ultimately show ?thesis using res False vals by auto
  qed
qed

lemma cached_key_matches:
  assumes "cached k i s" "kv_st s = Some m"
  shows "strncmp_eq KEY_COUNT (bkeys (buckets m ! kv_bucket k) ! last (hits k (buckets m ! kv_bucket k))) k"
proof -
  have "hits k (buckets m ! kv_bucket k) \<noteq> []" using assms by (auto simp: cached_def Let_def)
  then have "last (hits k (buckets m ! kv_bucket k)) \<in> set (hits k (buckets m ! kv_bucket k))" by simp
  then show ?thesis by (simp add: hits_def)
qed

lemma read_cached:
  assumes c: "cached k i s"
  shows "if i < length (kv_vals k s)
    then \<exists>s'. kv_store_read (Some k) s = Some (Some (kv_vals k s ! i), s') \<and> cached k (i + 1) s' \<and> kv_vals k s' = kv_vals k s
    else \<exists>s'. kv_store_read (Some k) s = Some (None, s') \<and> cached k 0 s' \<and> kv_vals k s' = kv_vals k s"
proof -
  obtain m rest where m: "kv_st s = Some m" and d: "cache_data s =
      map (\<lambda>j. Some (kv_bucket k, j)) (hits k (buckets m ! kv_bucket k)) @ None # rest" "cache_idx s = i"
    "i \<le> length (hits k (buckets m ! kv_bucket k))"
    using c by (auto simp: cached_def Let_def)
  note key = cached_key_matches [OF c m]
  have vals: "kv_vals k s = map (\<lambda>j. strndup (bvalues (buckets m ! kv_bucket k) ! j) KEY_SIZE) (hits k (buckets m ! kv_bucket k))"
    using m by (simp add: kv_vals_def)
  show ?thesis
  proof (cases "i < length (kv_vals k s)")
    case True
    then have "cache_data s ! i = Some (kv_bucket k, hits k (buckets m ! kv_bucket k) ! i)"
      using d(1) vals by (simp add: nth_append)
    then have "kv_store_read (Some k) s = Some (Some (kv_vals k s ! i), s\<lparr>cache_idx := i + 1\<rparr>)"
      using c m key d(2) True vals by (auto simp: kv_store_read_def cached_def Let_def)
    moreover have "cached k (i + 1) (s\<lparr>cache_idx := i + 1\<rparr>)" using c m True vals by (auto simp: cached_def Let_def)
    ultimately show ?thesis using True by (auto simp: kv_vals_def)
  next
    case False
    then have i: "i = length (hits k (buckets m ! kv_bucket k))" using d(3) vals by simp
    then have "cache_data s ! i = None" using d(1) by (simp add: nth_append)
    then have "kv_store_read (Some k) s = Some (None, s\<lparr>cache_idx := 0\<rparr>)"
      using c m key d(2) by (auto simp: kv_store_read_def cached_def Let_def)
    moreover have "cached k 0 (s\<lparr>cache_idx := 0\<rparr>)" using c by (auto simp: cached_def Let_def)
    ultimately show ?thesis using False by (auto simp: kv_vals_def)
  qed
qed

fun kv_reads :: "u8 list \<Rightarrow> nat \<Rightarrow> kv \<Rightarrow> (u8 list option list \<times> kv) option" where
  "kv_reads k 0 s = Some ([], s)"
| "kv_reads k (Suc t) s =
     (case kv_store_read (Some k) s of
        None \<Rightarrow> None
      | Some (r, s') \<Rightarrow> map_option (\<lambda>(rs, s''). (r # rs, s'')) (kv_reads k t s'))"

text \<open>The answer of the \<open>i\<close>-th read in a cycle through \<open>vs\<close> that ends in NULL.\<close>

definition cycle_answer :: "u8 list list \<Rightarrow> nat \<Rightarrow> u8 list option" where
  "cycle_answer vs i = (let j = i mod (length vs + 1) in if j < length vs then Some (vs ! j) else None)"

lemma cached_reads:
  assumes "cached k i s" "i \<le> length (kv_vals k s)"
  shows "\<exists>s'. kv_reads k t s = Some (map (\<lambda>j. cycle_answer (kv_vals k s) (i + j)) [0..<t], s')"
  using assms
proof (induction t arbitrary: i s)
  case (Suc t)
  let ?vs = "kv_vals k s" and ?n = "length (kv_vals k s)"
  let ?i = "if i < ?n then i + 1 else 0"
  obtain s1 where s1: "kv_store_read (Some k) s = Some (cycle_answer ?vs i, s1)" "cached k ?i s1" "kv_vals k s1 = ?vs"
    using read_cached [OF Suc.prems(1)] Suc.prems(2) by (auto simp: cycle_answer_def Let_def split: if_splits)
  have shift: "cycle_answer ?vs (?i + j) = cycle_answer ?vs (i + Suc j)" for j
  proof -
    have "Suc (?n + j) mod Suc ?n = j mod Suc ?n" using mod_add_self1 [of "Suc ?n" j] by simp
    with Suc.prems(2) show ?thesis by (auto simp: cycle_answer_def Let_def)
  qed
  have "?i \<le> length (kv_vals k s1)" using s1(3) Suc.prems(2) by simp
  then obtain s' where "kv_reads k t s1 = Some (map (\<lambda>j. cycle_answer ?vs (?i + j)) [0..<t], s')"
    using Suc.IH [OF s1(2)] s1(3) by auto
  then show ?case using s1(1) by (simp add: shift map_upt_Suc del: upt_Suc)
qed simp

section \<open>Writing many entries\<close>

definition kv_writes :: "(u8 list \<times> u8 list) list \<Rightarrow> kv \<Rightarrow> kv" where
  "kv_writes ws s = fold (\<lambda>(k, v) s. snd (kv_store_write (Some k) (Some v) s)) ws s"

definition short_entry :: "u8 list \<times> u8 list \<Rightarrow> bool" where
  "short_entry e \<longleftrightarrow> nozero (fst e) \<and> nozero (snd e) \<and> 0 < length (fst e) \<and> length (fst e) < KEY_COUNT \<and> length (snd e) < KEY_SIZE"

lemma kv_ok_write:
  assumes "kv_ok s" "kv_st s = Some m" "short_entry (k, v)"
  shows "\<exists>m'. kv_st (snd (kv_store_write (Some k) (Some v) s)) = Some m' \<and>
    kv_ok (snd (kv_store_write (Some k) (Some v) s)) \<and> \<not> cache_valid (snd (kv_store_write (Some k) (Some v) s)) \<and>
    cache_key (snd (kv_store_write (Some k) (Some v) s)) = None \<and>
    (\<forall>b. entries (buckets m' ! b) = (if b = kv_bucket k then (k, v) # take (BUCKET_SIZE - 1) (entries (buckets m ! b)) else entries (buckets m ! b)))"
proof -
  have e: "nozero k" "nozero v" "k \<noteq> []" "take 15 k = k" "take 31 v = v"
    using assms(3) by (auto simp: short_entry_def kv_consts)
  from kv_write_ok [OF assms(1,2) e(1-3)] obtain m' where m': "store_ok m'"
    "kv_store_write (Some k) (Some v) s = (0, (reset_cache s)\<lparr>kv_st := Some m'\<rparr>)"
    "entries (buckets m' ! kv_bucket k) = (take 15 k, take 31 v) # take 511 (entries (buckets m ! kv_bucket k))"
    "\<forall>b. b \<noteq> kv_bucket k \<longrightarrow> buckets m' ! b = buckets m ! b" by blast
  then show ?thesis using e(4,5) by (intro exI [of _ m']) (auto simp: kv_ok_def reset_cache_def kv_consts)
qed

lemma kv_writes_entries:
  assumes "kv_ok s" "kv_st s = Some m" "\<forall>e \<in> set ws. short_entry e" "length (entries (buckets m ! b)) = BUCKET_SIZE"
  shows "\<exists>m'. kv_st (kv_writes ws s) = Some m' \<and> kv_ok (kv_writes ws s) \<and>
    (ws \<noteq> [] \<longrightarrow> \<not> cache_valid (kv_writes ws s) \<and> cache_key (kv_writes ws s) = None) \<and>
    entries (buckets m' ! b) =
      take BUCKET_SIZE (rev (filter (\<lambda>e. kv_bucket (fst e) = b) ws) @ entries (buckets m ! b))"
  using assms
proof (induction ws arbitrary: s m)
  case (Cons e ws)
  obtain k v where e: "e = (k, v)" by (cases e)
  let ?s = "snd (kv_store_write (Some k) (Some v) s)"
  obtain m1 where m1: "kv_st ?s = Some m1" "kv_ok ?s" "\<not> cache_valid ?s" "cache_key ?s = None"
    "\<forall>b. entries (buckets m1 ! b) = (if b = kv_bucket k then (k, v) # take (BUCKET_SIZE - 1) (entries (buckets m ! b)) else entries (buckets m ! b))"
    using kv_ok_write [OF Cons.prems(1,2), of k v] Cons.prems(3) e by auto
  have pos: "0 < BUCKET_SIZE" by (simp add: kv_consts)
  have len: "length (entries (buckets m1 ! b)) = BUCKET_SIZE" using m1(5) Cons.prems(4) pos by (cases "b = kv_bucket k") auto
  obtain m' where m': "kv_st (kv_writes ws ?s) = Some m'" "kv_ok (kv_writes ws ?s)"
    "ws \<noteq> [] \<longrightarrow> \<not> cache_valid (kv_writes ws ?s) \<and> cache_key (kv_writes ws ?s) = None"
    "entries (buckets m' ! b) = take BUCKET_SIZE (rev (filter (\<lambda>e. kv_bucket (fst e) = b) ws) @ entries (buckets m1 ! b))"
    using Cons.IH [OF m1(2,1) _ len] Cons.prems(3) by auto
  have w: "kv_writes (e # ws) s = kv_writes ws ?s" by (simp add: kv_writes_def e)
  have "take BUCKET_SIZE (r @ (k, v) # take (BUCKET_SIZE - 1) E) = take BUCKET_SIZE ((r @ [(k, v)]) @ E)" for r and E :: "(u8 list \<times> u8 list) list"
    using pos by (auto simp: take_Cons' min_def)
  then have "entries (buckets m' ! b) =
      take BUCKET_SIZE (rev (filter (\<lambda>e. kv_bucket (fst e) = b) (e # ws)) @ entries (buckets m ! b))"
    using m'(4) m1(5) e by (simp del: take_append append_assoc)
  moreover have "\<not> cache_valid (kv_writes (e # ws) s) \<and> cache_key (kv_writes (e # ws) s) = None"
    using m'(3) m1(3,4) w by (cases "ws = []") (simp_all add: kv_writes_def)
  ultimately show ?case using m'(1,2) w by auto
qed (simp add: kv_writes_def)

section \<open>Opening a new store\<close>

lemma kv_create_fresh:
  assumes "shm_open n False = -1" "shm_open n True \<noteq> -1" "mmap (shm_open n True) = Some m0" "fstat_size \<noteq> Some False"
  shows "\<exists>s. kv_store_create shm_open True mmap fstat_size (Some n) kv_start = Some (0, s) \<and>
    kv_st s = Some (m0\<lparr>buckets := replicate KV_BUCKET_COUNT empty_bucket, clients := 1,
      sname := (strncpy NAME_MAX n)[NAME_MAX - 1 := 0]\<rparr>) \<and> \<not> cache_valid s \<and> cache_key s = None \<and>
    length (cache_data s) = BUCKET_SIZE + 1"
  using assms by (simp add: kv_store_create_def sm_exists_def sm_create_def sm_attach_def kv_start_def reset_cache_def Let_def)

definition fresh_kv :: "kv \<Rightarrow> bool" where
  "fresh_kv s \<longleftrightarrow> (\<exists>m. kv_st s = Some m \<and> buckets m = replicate KV_BUCKET_COUNT empty_bucket) \<and>
     \<not> cache_valid s \<and> cache_key s = None \<and> length (cache_data s) = BUCKET_SIZE + 1"

lemma fresh_kv_ok: "fresh_kv s \<Longrightarrow> kv_ok s"
  by (auto simp: fresh_kv_def kv_ok_def store_ok_def empty_bucket_ok)

lemma entries_empty: "entries empty_bucket = replicate BUCKET_SIZE ([], [])"
  by (simp add: entries_def empty_bucket_def cstr_def zip_replicate kv_consts)

lemma kv_vals_history:
  assumes f: "fresh_kv s" and ws: "\<forall>e \<in> set ws. short_entry e" and k: "nozero k" "k \<noteq> []" "length k < KEY_COUNT"
  shows "kv_vals k (kv_writes ws s) =
    map snd (filter (\<lambda>e. fst e = k) (rev (take BUCKET_SIZE (rev (filter (\<lambda>e. kv_bucket (fst e) = kv_bucket k) ws)))))"
proof -
  obtain m where m: "kv_st s = Some m" "buckets m = replicate KV_BUCKET_COUNT empty_bucket" using f by (auto simp: fresh_kv_def)
  have e0: "entries (buckets m ! kv_bucket k) = replicate BUCKET_SIZE ([], [])"
    using m(2) kv_bucket_less [of k] by (simp add: entries_empty)
  obtain m' where m': "kv_st (kv_writes ws s) = Some m'" "kv_ok (kv_writes ws s)"
    "entries (buckets m' ! kv_bucket k) = take BUCKET_SIZE (rev (filter (\<lambda>e. kv_bucket (fst e) = kv_bucket k) ws) @ replicate BUCKET_SIZE ([], []))"
    using kv_writes_entries [OF fresh_kv_ok [OF f] m(1) ws, of "kv_bucket k"] e0 by auto
  have "bucket_ok (buckets m' ! kv_bucket k)" using m'(1,2) store_ok_bucket by (simp add: kv_ok_def)
  then have "kv_vals k (kv_writes ws s) = values_of k (buckets m' ! kv_bucket k)"
    using m'(1) k by (simp add: kv_vals_def hits_values)
  moreover have "filter (\<lambda>e. fst e = k) (replicate n ([], [])) = []" for n using k(2) by (simp add: filter_replicate)
  ultimately show ?thesis unfolding values_of_def m'(3) by (simp add: rev_append)
qed

section \<open>Properties\<close>

text \<open>A store that has just been created, and three keys with their buckets.\<close>

definition sample_kv :: kv where
  "sample_kv = kv_start\<lparr>kv_st := Some \<lparr>buckets = replicate KV_BUCKET_COUNT empty_bucket, clients = 1, sname = []\<rparr>\<rparr>"

lemma fresh_sample_kv: "fresh_kv sample_kv"
  by (simp add: fresh_kv_def sample_kv_def kv_start_def)

text \<open>C13: after any sequence of writes of keys of 1 to 15 and values of up to 31
  characters to a new store, \<open>kv_store_read_all\<close> returns the values of a key in the
  order they were written, as far as they are among the last 512 entries written to
  the key's bucket (first in, first out), and NULL if there is none.\<close>

theorem kv_read_all_history:
  assumes "fresh_kv s" "\<forall>e \<in> set ws. short_entry e" "nozero k" "k \<noteq> []" "length k < KEY_COUNT"
  shows "kv_store_read_all (Some k) (kv_writes ws s) =
    (let vs = map snd (filter (\<lambda>e. fst e = k) (rev (take BUCKET_SIZE (rev (filter (\<lambda>e. kv_bucket (fst e) = kv_bucket k) ws)))))
     in if vs = [] then None else Some vs)"
  using kv_vals_history [OF assms] by (simp add: kv_read_all_vals)

theorem kv_read_all_history_witness:
  "kv_store_read_all (Some [77]) (kv_writes [([77], [65]), ([77], [66])] sample_kv) = Some [[65], [66]]"
proof -
  have "\<forall>e \<in> set [([77], [65]), ([77], [66])]. short_entry e" by (simp add: short_entry_def nozero_def kv_consts)
  from kv_read_all_history [OF fresh_sample_kv this, of "[77]"] show ?thesis
    by (simp add: nozero_def kv_consts)
qed

text \<open>C14: reading one key repeatedly after a write cycles through its values from
  the oldest to the newest, then NULL, then from the start again.\<close>

theorem kv_read_cycles:
  assumes "kv_ok s" "\<not> cache_valid s" "kv_store_read_all (Some k) s = Some vs"
  shows "\<exists>s'. kv_reads k t s = Some (map (cycle_answer vs) [0..<t], s')"
proof (cases t)
  case (Suc t')
  obtain m where m: "kv_st s = Some m" using assms(3) by (auto simp: kv_store_read_all_def split: option.splits)
  have vs: "vs = kv_vals k s" "vs \<noteq> []" using assms(3) by (auto simp: kv_read_all_vals split: if_splits)
  obtain s1 where s1: "read_fill k (kv_bucket k) m s = Some (Some (vs ! 0), s1)" "cached k 1 s1" "kv_vals k s1 = vs"
    using read_fill_run [OF assms(1) m, of k] vs by auto
  have "kv_store_read (Some k) s = Some (Some (vs ! 0), s1)"
    using s1(1) m assms(2) by (simp add: kv_store_read_def Let_def)
  moreover obtain s' where "kv_reads k t' s1 = Some (map (\<lambda>j. cycle_answer vs (1 + j)) [0..<t'], s')"
    using cached_reads [OF s1(2), of t'] s1(3) vs(2) by (cases vs) auto
  moreover have "cycle_answer vs 0 = Some (vs ! 0)" using vs(2) by (simp add: cycle_answer_def)
  ultimately show ?thesis using Suc by (simp add: map_upt_Suc del: upt_Suc)
qed simp

lemma sample_writes:
  "kv_ok (kv_writes [([77], [65]), ([77], [66])] sample_kv)" "\<not> cache_valid (kv_writes [([77], [65]), ([77], [66])] sample_kv)"
  "kv_store_read_all (Some [77]) (kv_writes [([77], [65]), ([77], [66])] sample_kv) = Some [[65], [66]]"
proof -
  let ?ws = "[([77], [65]), ([77], [66])] :: (u8 list \<times> u8 list) list"
  have e: "\<forall>e \<in> set ?ws. short_entry e" by (simp add: short_entry_def nozero_def kv_consts)
  obtain m where m: "kv_st sample_kv = Some m" "buckets m = replicate KV_BUCKET_COUNT empty_bucket"
    using fresh_sample_kv by (auto simp: fresh_kv_def)
  have "length (entries (buckets m ! kv_bucket [77])) = BUCKET_SIZE"
    using m(2) kv_bucket_less [of "[77]"] by (simp add: entries_empty)
  from kv_writes_entries [OF fresh_kv_ok [OF fresh_sample_kv] m(1) e this]
  obtain m' where m': "kv_st (kv_writes ?ws sample_kv) = Some m'" "kv_ok (kv_writes ?ws sample_kv)" "\<not> cache_valid (kv_writes ?ws sample_kv)"
    by auto
  then show "kv_ok (kv_writes ?ws sample_kv)" "\<not> cache_valid (kv_writes ?ws sample_kv)" by simp_all
  have "kv_vals [77] (kv_writes ?ws sample_kv) = [[65], [66]]"
    using kv_vals_history [OF fresh_sample_kv e, of "[77]"] by (simp add: nozero_def kv_consts)
  then show "kv_store_read_all (Some [77]) (kv_writes ?ws sample_kv) = Some [[65], [66]]"
    by (simp add: kv_read_all_vals)
qed

theorem kv_read_cycles_witness:
  "\<exists>s'. kv_reads [77] 4 (kv_writes [([77], [65]), ([77], [66])] sample_kv) =
    Some ([Some [65], Some [66], None, Some [65]], s')"
proof -
  have "map (cycle_answer [[65], [66]]) [0..<4] = [Some [65], Some [66], None, Some [65]]"
    by (simp add: cycle_answer_def upt_rec)
  with kv_read_cycles [OF sample_writes, of 4] show ?thesis by simp
qed

text \<open>The bucket index is in range for every key, and no intermediate value of
  the hash overflows \<open>int32_t\<close>.\<close>

theorem kv_hash_in_range: "0 \<le> hash key 256 \<and> hash key 256 < 256 \<and> \<bar>hash_val key\<bar> < 2 ^ 31"
  using hash_range [of 256 key] hash_val_range [of key] by simp

text \<open>After a read of a key that is not in the store, the process believes
  its cache to be valid while \<open>cache_key\<close> is still NULL; the next read of any key in
  that bucket passes the NULL pointer to \<open>strncmp\<close>.\<close>

theorem kv_read_missing_twice:
  assumes "kv_ok s" "kv_st s = Some m" "\<not> cache_valid s" "cache_key s = None" "kv_store_read_all (Some k) s = None"
  shows "\<exists>s'. kv_store_read (Some k) s = Some (None, s') \<and> kv_store_read (Some k) s' = None"
proof -
  have vs: "kv_vals k s = []" using assms(5) by (simp add: kv_read_all_vals split: if_splits)
  obtain s' where s': "read_fill k (kv_bucket k) m s = Some (None, s')" "cache_valid s'" "cache_key s' = None"
    "kv_st s' = Some (m\<lparr>buckets := (buckets m)[kv_bucket k := (buckets m ! kv_bucket k)\<lparr>bcache_valid := True\<rparr>]\<rparr>)"
    using read_fill_run [OF assms(1,2), of k] vs assms(4) by auto
  have "kv_bucket k < length (buckets m)"
    using assms(1,2) kv_bucket_less [of k] by (simp add: kv_ok_def store_ok_def)
  then show ?thesis using s' assms(2,3) by (auto simp: kv_store_read_def Let_def)
qed

theorem kv_read_missing_twice_witness:
  "\<exists>s'. kv_store_read (Some [77]) sample_kv = Some (None, s') \<and> kv_store_read (Some [77]) s' = None"
proof -
  obtain m where m: "kv_st sample_kv = Some m" using fresh_sample_kv by (auto simp: fresh_kv_def)
  have "kv_vals [77] sample_kv = []"
    using kv_vals_history [OF fresh_sample_kv, of "[]" "[77]"] by (simp add: kv_writes_def nozero_def kv_consts)
  then have "kv_store_read_all (Some [77]) sample_kv = None" by (simp add: kv_read_all_vals)
  with kv_read_missing_twice [OF fresh_kv_ok [OF fresh_sample_kv] m] fresh_sample_kv show ?thesis
    by (simp add: fresh_kv_def)
qed

text \<open>A key of 16 or more characters can be written but never read back: the
  stored copy is cut to 15 characters, and the comparison looks at 16.\<close>

theorem kv_long_key_lost:
  assumes "kv_ok s" "kv_st s = Some m" "nozero k" "nozero v" "16 \<le> length k"
  shows "fst (kv_store_write (Some k) (Some v) s) = 0 \<and>
    kv_store_read_all (Some k) (snd (kv_store_write (Some k) (Some v) s)) = None"
proof -
  have "k \<noteq> []" using assms(5) by auto
  from kv_write_ok [OF assms(1-4) this] obtain m' where m': "store_ok m'"
    "kv_store_write (Some k) (Some v) s = (0, (reset_cache s)\<lparr>kv_st := Some m'\<rparr>)" by blast
  have "hits k (buckets m' ! kv_bucket k) = []"
    using store_ok_bucket [OF m'(1), of k] assms(3,5) by (intro hits_long_key) (simp_all add: kv_consts)
  then show ?thesis using m'(2) by (simp add: kv_read_all_vals kv_vals_def)
qed

theorem kv_long_key_lost_witness:
  "fst (kv_store_write (Some (replicate 16 77)) (Some [65]) sample_kv) = 0 \<and>
   kv_store_read_all (Some (replicate 16 77)) (snd (kv_store_write (Some (replicate 16 77)) (Some [65]) sample_kv)) = None"
proof -
  obtain m where m: "kv_st sample_kv = Some m" using fresh_sample_kv by (auto simp: fresh_kv_def)
  from kv_long_key_lost [OF fresh_kv_ok [OF fresh_sample_kv] m, of "replicate 16 77" "[65]"] show ?thesis
    by (simp add: nozero_def)
qed

text \<open>The stored name compares equal to the name it was made from.\<close>

lemma stored_name_matches:
  assumes "nozero n"
  shows "strncmp_eq (NAME_MAX - 1) ((strncpy NAME_MAX n)[NAME_MAX - 1 := 0]) n"
proof -
  let ?n = "(strncpy NAME_MAX n)[NAME_MAX - 1 := 0]"
  have pos: "0 < NAME_MAX" by (simp add: kv_consts)
  note cut = strncpy_cut [OF assms pos]
  have "cstr (take (NAME_MAX - 1) ?n) = take (NAME_MAX - 1) n"
  proof -
    obtain t where t: "?n = cstr ?n @ 0 # t" using carray_cstr [OF cut(2)] by metis
    have len: "length ?n = NAME_MAX" using cut(2) by (simp add: carray_def)
    have "take (NAME_MAX - 1) ?n = take (NAME_MAX - 1) (cstr ?n @ 0 # t)" using t by simp
    also have "cstr \<dots> = take (NAME_MAX - 1) n"
    proof (cases "length n < NAME_MAX - 1")
      case True
      then have "take (NAME_MAX - 1) (cstr ?n @ 0 # t) = n @ 0 # take (NAME_MAX - 1 - Suc (length n)) t"
        using cut(1) by (simp add: take_Cons')
      then show ?thesis using True assms by (simp add: cstr_append_zero)
    next
      case False
      then show ?thesis using cut(1) assms by (simp add: nozero_take)
    qed
    finally show ?thesis .
  qed
  then show ?thesis using assms by (simp add: strncmp_eq_def nozero_take)
qed

text \<open>Creating a store that does not exist yet and destroying it under the
  same name both succeed, whatever the length of the name; in between one client is
  attached.\<close>

theorem kv_create_destroy:
  assumes "shm_open n False = -1" "shm_open n True \<noteq> -1" "mmap (shm_open n True) = Some m0" "nozero n"
  shows "\<exists>s s'. kv_store_create shm_open True mmap (Some True) (Some n) kv_start = Some (0, s) \<and> fresh_kv s \<and>
    map_option clients (kv_st s) = Some 1 \<and> kv_store_destroy True True (Some n) s = (0, s') \<and> kv_st s' = None"
proof -
  let ?n = "(strncpy NAME_MAX n)[NAME_MAX - 1 := 0]"
  obtain s where s: "kv_store_create shm_open True mmap (Some True) (Some n) kv_start = Some (0, s)"
    "kv_st s = Some (m0\<lparr>buckets := replicate KV_BUCKET_COUNT empty_bucket, clients := 1, sname := ?n\<rparr>)"
    "\<not> cache_valid s" "cache_key s = None" "length (cache_data s) = BUCKET_SIZE + 1"
    using kv_create_fresh [of shm_open n mmap m0 "Some True"] assms(1-3) by auto
  have eq: "strncmp_eq (NAME_MAX - 1) ?n n" by (rule stored_name_matches [OF assms(4)])
  then have "\<exists>s'. kv_store_destroy True True (Some n) s = (0, s') \<and> kv_st s' = None"
    using s(2) by (simp add: kv_store_destroy_def sm_detach_def sm_close_def reset_cache_def Let_def)
  with s show ?thesis by (auto simp: fresh_kv_def)
qed

theorem kv_create_destroy_witness:
  "\<exists>s s'. kv_store_create (\<lambda>_ creat. if creat then 3 else -1) True (\<lambda>_. Some \<lparr>buckets = [], clients = 0, sname = []\<rparr>) (Some True)
      (Some [47, 83]) kv_start = Some (0, s) \<and> kv_store_destroy True True (Some [47, 83]) s = (0, s') \<and> kv_st s' = None"
  using kv_create_destroy [of "\<lambda>_ creat. if creat then 3 else -1" "[47, 83]"
    "\<lambda>_. Some \<lparr>buckets = [], clients = 0, sname = []\<rparr>" "\<lparr>buckets = [], clients = 0, sname = []\<rparr>"]
  by (auto simp: nozero_def)

lemma read_uncached:
  assumes "kv_ok s" "\<not> cache_valid s" "kv_vals k s \<noteq> []"
  shows "\<exists>s'. kv_store_read (Some k) s = Some (Some (kv_vals k s ! 0), s') \<and> cached k 1 s' \<and> kv_ok s' \<and>
    (\<forall>k'. kv_vals k' s' = kv_vals k' s)"
proof -
  obtain m where m: "kv_st s = Some m" using assms(3) by (auto simp: kv_vals_def split: option.splits)
  obtain s' where s': "read_fill k (kv_bucket k) m s = Some (Some (kv_vals k s ! 0), s')" "cached k 1 s'" "kv_ok s'"
    "kv_st s' = Some (m\<lparr>buckets := (buckets m)[kv_bucket k := (buckets m ! kv_bucket k)\<lparr>bcache_valid := True\<rparr>]\<rparr>)"
    using read_fill_run [OF assms(1) m, of k] assms(3) by auto
  let ?p = "buckets m ! kv_bucket k"
  have "kv_vals k' s' = kv_vals k' s" for k'
    using s'(4) m hits_cong [of "?p\<lparr>bcache_valid := True\<rparr>" ?p k']
    by (cases "kv_bucket k' = kv_bucket k"; cases "kv_bucket k < length (buckets m)") (auto simp: kv_vals_def list_update_beyond)
  then show ?thesis using s' m assms(2) by (auto simp: kv_store_read_def Let_def)
qed

text \<open>A read of a missing key overwrites the cached values but keeps the cached
  key.  After reading a key successfully, then a missing key of another bucket, the
  first key reads as NULL although its values are still in the store.\<close>

theorem kv_stale_cache:
  assumes "kv_ok s" "\<not> cache_valid s" "kv_store_read_all (Some k) s \<noteq> None" "kv_store_read_all (Some k') s = None"
    and "nozero k" "length k < KEY_COUNT" "nozero k'" "length k' < KEY_COUNT" "kv_bucket k' \<noteq> kv_bucket k"
  shows "\<exists>v s1 s2 s3. kv_store_read (Some k) s = Some (Some v, s1) \<and> kv_store_read (Some k') s1 = Some (None, s2) \<and>
    kv_store_read (Some k) s2 = Some (None, s3) \<and> kv_store_read_all (Some k) s2 = kv_store_read_all (Some k) s"
proof -
  have vs: "kv_vals k s \<noteq> []" "kv_vals k' s = []" using assms(3,4) by (auto simp: kv_read_all_vals split: if_splits)
  obtain s1 where s1: "kv_store_read (Some k) s = Some (Some (kv_vals k s ! 0), s1)" "cached k 1 s1" "kv_ok s1"
    "\<forall>x. kv_vals x s1 = kv_vals x s" using read_uncached [OF assms(1,2) vs(1)] by blast
  obtain m where m: "kv_st s1 = Some m" "store_ok m" "bcache_valid (buckets m ! kv_bucket k)"
    "cache_key s1 = Some (kv_bucket k, last (hits k (buckets m ! kv_bucket k)))"
    using s1(2) by (auto simp: cached_def Let_def)
  note key = cached_key_matches [OF s1(2) m(1)]
  let ?a = "bkeys (buckets m ! kv_bucket k) ! last (hits k (buckets m ! kv_bucket k))"
  have "last (hits k (buckets m ! kv_bucket k)) < BUCKET_SIZE"
    using s1(2) m(1) last_in_set by (intro hits_bound [of _ k "buckets m ! kv_bucket k"]) (auto simp: cached_def Let_def)
  then have "carray KEY_COUNT ?a" using store_ok_bucket [OF m(2), of k] by (auto simp: bucket_ok_def)
  then have nkey: "\<not> strncmp_eq KEY_COUNT ?a k'"
    using key assms(5-9) by (auto simp: strncmp_eq_carray)
  obtain s2 where s2: "read_fill k' (kv_bucket k') m s1 = Some (None, s2)" "cache_valid s2" "cache_key s2 = cache_key s1"
    "cache_idx s2 = 0" "cache_data s2 ! 0 = None"
    "kv_st s2 = Some (m\<lparr>buckets := (buckets m)[kv_bucket k' := (buckets m ! kv_bucket k')\<lparr>bcache_valid := True\<rparr>]\<rparr>)"
    using read_fill_run [OF s1(3) m(1), of k'] s1(4) vs(2) by auto
  have r2: "kv_store_read (Some k') s1 = Some (None, s2)"
    using s2(1) m(1,4) nkey by (simp add: kv_store_read_def Let_def)
  have "kv_store_read (Some k) s2 = Some (None, s2\<lparr>cache_idx := 0\<rparr>)"
    using s2 m key assms(9) by (simp add: kv_store_read_def Let_def)
  moreover have "kv_vals k s2 = kv_vals k s" using s1(4) s2(6) m(1) assms(9) by (simp add: kv_vals_def)
  ultimately show ?thesis using s1(1) r2 by (auto simp: kv_read_all_vals)
qed

theorem kv_stale_cache_witness:
  "\<exists>v s1 s2 s3. kv_store_read (Some [77]) (kv_writes [([77], [65]), ([77], [66])] sample_kv) = Some (Some v, s1) \<and>
    kv_store_read (Some [78]) s1 = Some (None, s2) \<and> kv_store_read (Some [77]) s2 = Some (None, s3)"
proof -
  have e: "\<forall>e \<in> set [([77], [65]), ([77], [66])]. short_entry e" by (simp add: short_entry_def nozero_def kv_consts)
  have b: "kv_bucket [78] \<noteq> kv_bucket [77]"
    by (simp add: kv_bucket_def hash_def hash_val_def hash_step_def kv_consts Let_def smod_int_alt_def)
  have "kv_vals [78] (kv_writes [([77], [65]), ([77], [66])] sample_kv) = []"
    using kv_vals_history [OF fresh_sample_kv e, of "[78]"] b by (simp add: nozero_def kv_consts)
  then have "kv_store_read_all (Some [78]) (kv_writes [([77], [65]), ([77], [66])] sample_kv) = None"
    by (simp add: kv_read_all_vals)
  with kv_stale_cache [OF sample_writes(1,2), of "[77]" "[78]"] sample_writes(3) b show ?thesis
    by (auto simp: nozero_def kv_consts)
qed

end
