(* ===== verification/Kv_Types.thy ===== *)
theory Kv_Types
  imports Kv_Spec
begin

text \<open>
  Well-formedness of the key-value store.  \<open>kv_typed\<close> extends the invariant of the
  stored strings to the static variables of the process: the cache has a terminating NULL
  at or behind the current index, so that the index stays inside the array, and its
  pointers point to slots of the store.  Every call of the interface keeps it, and so
  does any other process that writes a well-formed store.
\<close>

section \<open>Calls\<close>

text \<open>What the kernel answers during a call.\<close>

record kv_os =
  os_shm_open :: "u8 list \<Rightarrow> bool \<Rightarrow> int"
  os_truncate :: bool
  os_mmap :: "int \<Rightarrow> store option"
  os_fstat :: "bool option"
  os_munmap :: bool
  os_unlink :: bool

text \<open>The calls of \<open>kv.c\<close>, and a change of the shared memory by another process.\<close>

datatype kv_call =
    Create "u8 list option"
  | Write "u8 list option" "u8 list option"
  | Read "u8 list option"
  | Read_all "u8 list option"
  | Destroy "u8 list option"
  | Delete_db
  | Others store

text \<open>One call: the strings it returns and the new state; \<open>None\<close> is a crash.\<close>

fun kv_step :: "kv_os \<Rightarrow> kv_call \<Rightarrow> kv \<Rightarrow> (u8 list list \<times> kv) option" where
  "kv_step K (Create n) s =
     map_option (\<lambda>(r, s). ([], s)) (kv_store_create (os_shm_open K) (os_truncate K) (os_mmap K) (os_fstat K) n s)"
| "kv_step K (Write k v) s = Some ([], snd (kv_store_write k v s))"
| "kv_step K (Read k) s = map_option (\<lambda>(r, s). (case r of None \<Rightarrow> [] | Some v \<Rightarrow> [v], s)) (kv_store_read k s)"
| "kv_step K (Read_all k) s = Some (case kv_store_read_all k s of None \<Rightarrow> [] | Some vs \<Rightarrow> vs, s)"
| "kv_step K (Destroy n) s = Some ([], snd (kv_store_destroy (os_munmap K) (os_unlink K) n s))"
| "kv_step K Delete_db s = Some ([], snd (kv_delete_db (os_munmap K) (os_unlink K) s))"
| "kv_step K (Others m) s = Some ([], s\<lparr>kv_st := map_option (\<lambda>_. m) (kv_st s)\<rparr>)"

section \<open>Types\<close>

definition slot_ok :: "nat \<times> nat \<Rightarrow> bool" where
  "slot_ok p \<longleftrightarrow> fst p < KV_BUCKET_COUNT \<and> snd p < BUCKET_SIZE"

definition cache_ok :: "kv \<Rightarrow> bool" where
  "cache_ok s \<longleftrightarrow> (\<exists>n \<le> BUCKET_SIZE. cache_data s ! n = None \<and> cache_idx s \<le> n) \<and>
     (\<forall>p. Some p \<in> set (cache_data s) \<longrightarrow> slot_ok p) \<and> (\<forall>p. cache_key s = Some p \<longrightarrow> slot_ok p)"

definition kv_typed :: "kv \<Rightarrow> bool" where
  "kv_typed s \<longleftrightarrow> kv_ok s \<and> cache_ok s"

text \<open>The arguments are C strings.\<close>

fun call_ok :: "kv_call \<Rightarrow> bool" where
  "call_ok (Write (Some k) (Some v)) \<longleftrightarrow> nozero k \<and> nozero v"
| "call_ok (Others m) \<longleftrightarrow> store_ok m"
| "call_ok c \<longleftrightarrow> True"

text \<open>The two ways to crash: the sanity check of \<open>kv_store_create\<close> fails, or a bucket is
  marked as cached while \<open>cache_key\<close> is NULL.\<close>

definition crashes :: "kv_os \<Rightarrow> kv_call \<Rightarrow> kv \<Rightarrow> bool" where
  "crashes K c s \<longleftrightarrow> (\<exists>n. c = Create n \<and> kv_st s = None \<and> os_fstat K = Some False) \<or>
     (\<exists>k m. c = Read (Some k) \<and> kv_st s = Some m \<and> bcache_valid (buckets m ! kv_bucket k) \<and> cache_valid s \<and>
        cache_key s = None)"

definition string_ok :: "u8 list \<Rightarrow> bool" where
  "string_ok v \<longleftrightarrow> nozero v \<and> length v < KEY_SIZE"

section \<open>Every call keeps the types\<close>

lemma cache_ok_reset [simp]: "cache_ok (reset_cache s)"
  by (auto simp: cache_ok_def reset_cache_def)

lemma cache_ok_update [simp]:
  "cache_ok (s\<lparr>kv_st := m\<rparr>) = cache_ok s" "cache_ok (s\<lparr>g_fd := f\<rparr>) = cache_ok s"
  by (simp_all add: cache_ok_def)

lemma cached_slot: "cache_ok s \<Longrightarrow> Some p \<in> set (cache_data s) \<Longrightarrow> slot_ok p"
  by (cases p) (simp add: cache_ok_def)

lemma reset_cache_fields [simp]: "kv_st (reset_cache s) = kv_st s" "length (cache_data (reset_cache s)) = BUCKET_SIZE + 1"
  by (simp_all add: reset_cache_def)

lemma kv_ok_reset: "kv_ok s \<Longrightarrow> kv_ok (reset_cache s)"
  by (simp add: kv_ok_def reset_cache_def)

lemma kv_ok_update:
  "length (cache_data s) = BUCKET_SIZE + 1 \<Longrightarrow> kv_ok (s\<lparr>kv_st := m\<rparr>) = (case m of None \<Rightarrow> True | Some m \<Rightarrow> store_ok m)"
  by (simp add: kv_ok_def)

lemma kv_ok_length: "kv_ok s \<Longrightarrow> length (cache_data s) = BUCKET_SIZE + 1"
  by (simp add: kv_ok_def)

lemma kv_ok_fd [simp]: "kv_ok (s\<lparr>g_fd := f\<rparr>) = kv_ok s"
  by (simp add: kv_ok_def)

lemma store_ok_fields [simp]: "store_ok (m\<lparr>clients := c\<rparr>) = store_ok m" "store_ok (m\<lparr>sname := n\<rparr>) = store_ok m"
  by (simp_all add: store_ok_def)

lemma typed_write: "kv_typed s \<Longrightarrow> call_ok (Write k v) \<Longrightarrow> kv_typed (snd (kv_store_write k v s))"
proof (cases "\<exists>k' v' m. k = Some k' \<and> v = Some v' \<and> kv_st s = Some m \<and> k' \<noteq> []")
  case True
  assume s: "kv_typed s" "call_ok (Write k v)"
  obtain k' v' m where kv: "k = Some k'" "v = Some v'" "kv_st s = Some m" "k' \<noteq> []" using True by blast
  obtain m' where "kv_store_write k v s = (0, (reset_cache s)\<lparr>kv_st := Some m'\<rparr>)" "store_ok m'"
    using kv_write_ok [of s m k' v'] s kv by (auto simp: kv_typed_def)
  then show ?thesis using s(1) by (simp add: kv_typed_def kv_ok_reset kv_ok_update)
qed (auto simp: kv_store_write_def split: option.splits)

lemma stored_value:
  assumes "store_ok m" "j < BUCKET_SIZE" "b < KV_BUCKET_COUNT"
  shows "string_ok (strndup (bvalues (buckets m ! b) ! j) KEY_SIZE)"
proof -
  have "bucket_ok (buckets m ! b)" using assms(1,3) by (simp add: store_ok_def)
  then have "carray KEY_SIZE (bvalues (buckets m ! b) ! j)" using assms(2) by (simp add: bucket_ok_def)
  then show ?thesis using carray_cstr by (metis string_ok_def strndup_def nozero_cstr take_all order_refl)
qed

lemma read_fill_typed:
  assumes s: "kv_typed s" and m: "kv_st s = Some m"
  shows "\<exists>r s'. read_fill k (kv_bucket k) m s = Some (r, s') \<and> kv_typed s' \<and> (\<forall>v. r = Some v \<longrightarrow> string_ok v)"
proof -
  let ?b = "kv_bucket k" and ?hs = "hits k (buckets m ! kv_bucket k)"
  let ?q = "(buckets m ! ?b)\<lparr>bcache_valid := True\<rparr>"
  let ?s1 = "s\<lparr>kv_st := Some (m\<lparr>buckets := (buckets m)[?b := ?q]\<rparr>), cache_idx := 0, cache_valid := True\<rparr>"
  let ?d = "map (\<lambda>j. Some (?b, j)) ?hs @ drop (length ?hs) (cache_data s)"
  let ?s3 = "?s1\<lparr>cache_key := (if ?hs = [] then cache_key s else Some (?b, last ?hs)), cache_data := ?d[length ?hs := None]\<rparr>"
  have mok: "store_ok m" and len: "length (cache_data s) = BUCKET_SIZE + 1" and c: "cache_ok s"
    using s m by (simp_all add: kv_typed_def kv_ok_def)
  have hs: "slot_ok (?b, j)" if "j \<in> set ?hs" for j using that hits_bound kv_bucket_less by (simp add: slot_ok_def)
  have lh: "length ?hs \<le> BUCKET_SIZE" by (rule length_hits)
  have "store_ok (m\<lparr>buckets := (buckets m)[?b := ?q]\<rparr>)"
    using store_ok_bucket [OF mok, of k] by (intro store_ok_update [OF mok]) (simp add: bucket_ok_def)
  then have ok: "kv_ok ?s3" using len lh by (simp add: kv_ok_def)
  have "slot_ok p" if "Some p \<in> set (?d[length ?hs := None])" for p
  proof -
    have "Some p \<in> insert None (set ?d)" using that set_update_subset_insert by fast
    then consider "p \<in> Pair ?b ` set ?hs" | "Some p \<in> set (cache_data s)" by (auto dest: in_set_dropD)
    then show ?thesis using hs cached_slot [OF c] by cases auto
  qed
  moreover have "slot_ok p" if "(if ?hs = [] then cache_key s else Some (?b, last ?hs)) = Some p" for p
    using that hs c by (cases p) (auto simp: cache_ok_def split: if_splits)
  moreover have nul: "?d[length ?hs := None] ! length ?hs = None" using len lh by simp
  ultimately have c3: "cache_ok ?s3" "0 < length ?hs \<Longrightarrow> cache_ok (?s3\<lparr>cache_idx := 1\<rparr>)"
    using lh unfolding cache_ok_def by (auto simp: Suc_le_eq)
  have scan: "read_scan ?b k (buckets m ! ?b) ?s1 = (length ?hs, ?s1\<lparr>cache_key := (if ?hs = [] then cache_key s else Some (?b, last ?hs)),
      cache_data := ?d\<rparr>)"
    using read_scan_hits [of ?s1 ?b k "buckets m ! ?b"] len by simp
  show ?thesis
  proof (cases "?hs = []")
    case True
    then have "read_fill k ?b m s = Some (None, ?s3)" using scan by (simp add: read_fill_def Let_def)
    then show ?thesis using ok c3(1) by (auto simp: kv_typed_def)
  next
    case False
    then have "(?d[length ?hs := None]) ! 0 = Some (?b, ?hs ! 0)" by (simp add: nth_list_update nth_append)
    then have "read_fill k ?b m s = Some (Some (strndup (bvalues (buckets m ! ?b) ! (?hs ! 0)) KEY_SIZE), ?s3\<lparr>cache_idx := 1\<rparr>)"
      using scan False by (simp add: read_fill_def Let_def)
    moreover have "kv_ok (?s3\<lparr>cache_idx := 1\<rparr>)" using ok by (simp add: kv_ok_def)
    moreover have "string_ok (strndup (bvalues (buckets m ! ?b) ! (?hs ! 0)) KEY_SIZE)"
      using hs [of "?hs ! 0"] False by (intro stored_value [OF mok]) (auto simp: slot_ok_def)
    ultimately show ?thesis using c3(2) False by (auto simp: kv_typed_def)
  qed
qed

text \<open>Reading the next cached value: the index stays in front of a NULL.\<close>

lemma read_next_typed:
  assumes s: "kv_typed s" and m: "kv_st s = Some m"
  shows "case cache_data s ! cache_idx s of
      None \<Rightarrow> kv_typed (s\<lparr>cache_idx := 0\<rparr>)
    | Some (b, j) \<Rightarrow> kv_typed (s\<lparr>cache_idx := cache_idx s + 1\<rparr>) \<and> string_ok (strndup (bvalues (buckets m ! b) ! j) KEY_SIZE)"
proof -
  have ok: "kv_ok s" "store_ok m" "length (cache_data s) = BUCKET_SIZE + 1" and c: "cache_ok s"
    using s m by (simp_all add: kv_typed_def kv_ok_def)
  obtain n where n: "n \<le> BUCKET_SIZE" "cache_data s ! n = None" "cache_idx s \<le> n" using c by (auto simp: cache_ok_def)
  show ?thesis
  proof (cases "cache_data s ! cache_idx s")
    case None
    have "cache_ok (s\<lparr>cache_idx := 0\<rparr>)" using c by (auto simp: cache_ok_def)
    then show ?thesis using None ok(1) by (simp add: kv_typed_def kv_ok_def)
  next
    case (Some p)
    then have "cache_idx s \<noteq> n" using n(2) by auto
    then have "cache_ok (s\<lparr>cache_idx := cache_idx s + 1\<rparr>)" using c n by (auto simp: cache_ok_def intro!: exI [of _ n])
    moreover have "slot_ok p" using Some n ok(3) nth_mem [of "cache_idx s" "cache_data s"] by (intro cached_slot [OF c]) simp
    ultimately show ?thesis using Some ok(1,2) by (auto simp: kv_typed_def kv_ok_def slot_ok_def intro: stored_value split: prod.splits)
  qed
qed

lemma typed_read:
  assumes s: "kv_typed s" and nc: "\<not> crashes K (Read k) s"
  shows "\<exists>r s'. kv_store_read k s = Some (r, s') \<and> kv_typed s' \<and> (\<forall>v. r = Some v \<longrightarrow> string_ok v)"
proof (cases "\<exists>k' m. k = Some k' \<and> kv_st s = Some m")
  case True
  then obtain k' m where k: "k = Some k'" "kv_st s = Some m" by blast
  show ?thesis
  proof (cases "bcache_valid (buckets m ! kv_bucket k') \<and> cache_valid s")
    case cv: True
    then obtain b j where key: "cache_key s = Some (b, j)" using nc k by (auto simp: crashes_def)
    show ?thesis
    proof (cases "strncmp_eq KEY_COUNT (bkeys (buckets m ! b) ! j) k'")
      case eq: True
      show ?thesis using read_next_typed [OF s k(2)] k cv key eq
        by (cases "cache_data s ! cache_idx s") (auto simp: kv_store_read_def Let_def)
    qed (use read_fill_typed [OF s k(2), of k'] k cv key in \<open>auto simp: kv_store_read_def Let_def\<close>)
  qed (use read_fill_typed [OF s k(2), of k'] k in \<open>auto simp: kv_store_read_def Let_def\<close>)
qed (use s in \<open>auto simp: kv_store_read_def split: option.splits\<close>)

lemma read_all_typed:
  assumes "kv_typed s" "kv_store_read_all k s = Some vs"
  shows "\<forall>v \<in> set vs. string_ok v"
proof -
  obtain k' m where k: "k = Some k'" "kv_st s = Some m"
    using assms(2) by (auto simp: kv_store_read_all_def split: option.splits)
  have mok: "store_ok m" using assms(1) k by (simp add: kv_typed_def kv_ok_def)
  have "vs = kv_vals k' s" using assms(2) k by (simp add: kv_read_all_vals split: if_splits)
  then show ?thesis using stored_value [OF mok] hits_bound kv_bucket_less by (auto simp: kv_vals_def k(2))
qed

lemma typed_create:
  assumes s: "kv_typed s" and K: "\<And>fd m. os_mmap K fd = Some m \<Longrightarrow> store_ok m"
    and r: "kv_store_create (os_shm_open K) (os_truncate K) (os_mmap K) (os_fstat K) n s = Some (r, s')"
  shows "kv_typed s'"
proof -
  have fresh: "store_ok (m\<lparr>buckets := replicate KV_BUCKET_COUNT empty_bucket\<rparr>)" for m
    by (simp add: store_ok_def empty_bucket_ok)
  show ?thesis
    using r s
    by (auto simp: kv_store_create_def Let_def kv_typed_def kv_ok_update kv_ok_reset kv_ok_length sm_attach_def fresh
        split: if_splits option.splits prod.splits dest: K)
qed

lemma typed_destroy: "kv_typed s \<Longrightarrow> kv_typed (snd (kv_store_destroy um ul n s))"
  by (auto simp: kv_store_destroy_def Let_def kv_typed_def kv_ok_update kv_ok_reset sm_detach_def kv_ok_def
      split: if_splits option.splits prod.splits)

lemma typed_delete: "kv_typed s \<Longrightarrow> kv_typed (snd (kv_delete_db um ul s))"
  by (auto simp: kv_delete_db_def typed_destroy split: option.splits)

section \<open>Property\<close>

text \<open>C15: Every variable keeps its type.  The initial state is well formed, and in every
  well-formed state each call with C strings as arguments, for every answer of the kernel
  and whatever well-formed store another process leaves in the shared memory, either
  returns in a well-formed state (256 buckets of 512 terminated keys and values, an index
  into the cache that is in range, cached pointers into the store), giving terminated
  strings of at most 31 characters back, or crashes in one of two known ways.\<close>

theorem kv_calls_typed:
  assumes "kv_typed s" "call_ok c" and "\<And>fd m. os_mmap K fd = Some m \<Longrightarrow> store_ok m"
  shows "kv_typed kv_start \<and>
    (case kv_step K c s of
       None \<Rightarrow> crashes K c s
     | Some (vs, s') \<Rightarrow> kv_typed s' \<and> (\<forall>v \<in> set vs. string_ok v))"
proof
  show "kv_typed kv_start" by (auto simp: kv_typed_def kv_ok_def cache_ok_def kv_start_def)
  show "case kv_step K c s of None \<Rightarrow> crashes K c s | Some (vs, s') \<Rightarrow> kv_typed s' \<and> (\<forall>v \<in> set vs. string_ok v)"
  proof (cases c)
    case (Create n)
    show ?thesis
    proof (cases "kv_store_create (os_shm_open K) (os_truncate K) (os_mmap K) (os_fstat K) n s")
      case None
      then show ?thesis using Create by (auto simp: crashes_def kv_store_create_def Let_def split: if_splits prod.splits)
    next
      case (Some p)
      then show ?thesis using typed_create [OF assms(1,3)] Create by (cases p) auto
    qed
  next
    case (Read k)
    show ?thesis
    proof (cases "crashes K c s")
      case True
      then obtain k' m where "k = Some k'" "kv_st s = Some m" "bcache_valid (buckets m ! kv_bucket k')" "cache_valid s" "cache_key s = None"
        using Read by (auto simp: crashes_def)
      then show ?thesis using Read True by (simp add: kv_store_read_def Let_def)
    next
      case False
      then show ?thesis using typed_read [OF assms(1)] Read by (fastforce split: option.splits)
    qed
  next
    case (Read_all k)
    then show ?thesis using assms(1) read_all_typed [OF assms(1), of k] by (cases "kv_store_read_all k s") auto
  next
    case (Others m)
    then show ?thesis using assms(1,2) by (auto simp: kv_typed_def kv_ok_def split: option.splits)
  qed (use assms in \<open>auto simp: typed_write typed_destroy typed_delete\<close>)
qed

theorem kv_calls_typed_witness:
  "kv_typed kv_start \<and>
    (case kv_step \<lparr>os_shm_open = \<lambda>_ c. if c then 3 else -1, os_truncate = True,
        os_mmap = \<lambda>_. Some \<lparr>buckets = replicate KV_BUCKET_COUNT empty_bucket, clients = 0, sname = []\<rparr>,
        os_fstat = Some True, os_munmap = True, os_unlink = True\<rparr> (Create (Some [47, 83])) kv_start of
       None \<Rightarrow> False | Some (vs, s') \<Rightarrow> kv_typed s')"
proof -
  have t: "kv_typed kv_start" by (auto simp: kv_typed_def kv_ok_def cache_ok_def kv_start_def)
  show ?thesis
    using kv_calls_typed [OF t, of "Create (Some [47, 83])"
      "\<lparr>os_shm_open = \<lambda>_ c. if c then 3 else -1, os_truncate = True,
        os_mmap = \<lambda>_. Some \<lparr>buckets = replicate KV_BUCKET_COUNT empty_bucket, clients = 0, sname = []\<rparr>,
        os_fstat = Some True, os_munmap = True, os_unlink = True\<rparr>"]
    by (auto simp: store_ok_def empty_bucket_ok crashes_def split: option.splits)
qed

end
