(* ===== verification/Kv_Main.thy ===== *)
theory Kv_Main
  imports Kv_Types "HOL-Library.Monad_Syntax"
begin

text \<open>
  The program of \<open>key-value/kv.c\<close>: it writes nineteen values under one key, reads them
  one by one until NULL, prints what \<open>kv_store_read_all\<close> returns, and destroys the store;
  a signal deletes the store.  \<open>None\<close> is a crash or a loop that does not end.
\<close>

section \<open>The program\<close>

definition bytes :: "string \<Rightarrow> u8 list" where
  "bytes = map of_char"

text \<open>\<open>sprintf(str, "[%zu]", k)\<close> for a number of one or two digits.\<close>

definition bracketed :: "nat \<Rightarrow> u8 list" where
  "bracketed k = [91] @ (if k < 10 then [48 + of_nat k] else [48 + of_nat (k div 10), 48 + of_nat (k mod 10)]) @ [93]"

primrec write_all :: "u8 list \<Rightarrow> u8 list list \<Rightarrow> kv \<Rightarrow> kv" where
  "write_all k [] s = s"
| "write_all k (v # vs) s = write_all k vs (snd (kv_store_write (Some k) (Some v) s))"

text \<open>The loop that reads until NULL; the values it got.\<close>

partial_function (option) read_until_null :: "u8 list \<Rightarrow> kv \<Rightarrow> (u8 list list \<times> kv) option" where
  "read_until_null k s =
     do { (p, s) \<leftarrow> kv_store_read (Some k) s;
          case p of
            None \<Rightarrow> Some ([], s)
          | Some v \<Rightarrow> do { (vs, s) \<leftarrow> read_until_null k s; Some (v # vs, s) } }"

definition my_key :: "u8 list" where "my_key = bytes ''MyKey''"
definition store_name :: "u8 list" where "store_name = bytes ''/STORE''"

definition my_values :: "u8 list list" where
  "my_values = [bytes ''content [A]'', bytes ''content [B]''] @ map bracketed [0..<17]"

text \<open>The result: the values read one by one, the values printed, the code that
  \<open>kv_store_destroy\<close> returns and the last state.  A NULL from \<open>kv_store_read_all\<close> is dereferenced.\<close>

definition kv_main :: "kv_os \<Rightarrow> kv \<Rightarrow> (u8 list list \<times> u8 list list \<times> int \<times> kv) option" where
  "kv_main K s =
     do { (_, s) \<leftarrow> kv_store_create (os_shm_open K) (os_truncate K) (os_mmap K) (os_fstat K) (Some store_name) s;
          let s = write_all my_key my_values s;
          (rs, s) \<leftarrow> read_until_null my_key s;
          vs \<leftarrow> kv_store_read_all (Some my_key) s;
          let (r, s) = kv_store_destroy (os_munmap K) (os_unlink K) (Some store_name) s;
          Some (rs, vs, r, s) }"

definition sig_handler :: "kv_os \<Rightarrow> kv \<Rightarrow> kv" where
  "sig_handler K s = snd (kv_delete_db (os_munmap K) (os_unlink K) s)"

section \<open>What it does\<close>

lemma write_all_writes: "write_all k vs s = kv_writes (map (Pair k) vs) s"
  by (induction vs arbitrary: s) (simp_all add: kv_writes_def)

lemma read_rest:
  assumes "cached k i s" "i \<le> length (kv_vals k s)"
  shows "\<exists>s'. read_until_null k s = Some (drop i (kv_vals k s), s') \<and> cached k 0 s' \<and> kv_vals k s' = kv_vals k s"
  using assms
proof (induction "length (kv_vals k s) - i" arbitrary: i s)
  case 0
  then obtain s' where "kv_store_read (Some k) s = Some (None, s')" "cached k 0 s'" "kv_vals k s' = kv_vals k s"
    using read_cached [OF 0(2)] by auto
  then show ?case using 0 by (subst read_until_null.simps) simp
next
  case (Suc n)
  then have i: "i < length (kv_vals k s)" by simp
  then obtain s1 where s1: "kv_store_read (Some k) s = Some (Some (kv_vals k s ! i), s1)" "cached k (i + 1) s1" "kv_vals k s1 = kv_vals k s"
    using read_cached [OF Suc(3)] by auto
  have n: "n = length (kv_vals k s1) - (i + 1)" "i + 1 \<le> length (kv_vals k s1)" using Suc(2) i s1(3) by simp_all
  obtain s' where "read_until_null k s1 = Some (drop (i + 1) (kv_vals k s), s')" "cached k 0 s'" "kv_vals k s' = kv_vals k s"
    using Suc(1) [OF n(1) s1(2) n(2)] s1(3) by auto
  then show ?case using s1(1) i by (subst read_until_null.simps) (simp add: Cons_nth_drop_Suc)
qed

lemma read_until_null_all:
  assumes "kv_ok s" "\<not> cache_valid s" "kv_vals k s \<noteq> []"
  shows "\<exists>s'. read_until_null k s = Some (kv_vals k s, s') \<and> cached k 0 s' \<and> kv_vals k s' = kv_vals k s"
proof -
  obtain s1 where s1: "kv_store_read (Some k) s = Some (Some (kv_vals k s ! 0), s1)" "cached k 1 s1" "kv_vals k s1 = kv_vals k s"
    using read_uncached [OF assms] by auto
  have "1 \<le> length (kv_vals k s1)" using assms(3) s1(3) by (simp add: Suc_le_eq)
  then obtain s' where "read_until_null k s1 = Some (drop 1 (kv_vals k s), s')" "cached k 0 s'" "kv_vals k s' = kv_vals k s"
    using read_rest [OF s1(2)] s1(3) by auto
  then show ?thesis using s1(1) assms(3) by (subst read_until_null.simps) (cases "kv_vals k s", auto)
qed

text \<open>Writing and reading leave the name and the number of clients alone.\<close>

definition owner_info :: "kv \<Rightarrow> (u8 list \<times> int) option" where
  "owner_info s = map_option (\<lambda>m. (sname m, clients m)) (kv_st s)"

lemma owner_write: "owner_info (snd (kv_store_write k v s)) = owner_info s"
  by (auto simp: owner_info_def kv_store_write_def Let_def reset_cache_def split: option.splits)

lemma owner_writes: "owner_info (kv_writes ws s) = owner_info s"
  unfolding kv_writes_def by (induction ws arbitrary: s) (auto simp: owner_write)

lemma owner_scan: "kv_st (snd (read_scan b k p s)) = kv_st s"
proof -
  have "kv_st (snd (fold (\<lambda>i (l, s). let j = BUCKET_SIZE - i - 1 in if strncmp_eq KEY_COUNT (bkeys p ! j) k
      then (l + 1, s\<lparr>cache_key := Some (b, j), cache_data := (cache_data s)[l := Some (b, j)]\<rparr>) else (l, s)) is ls)) = kv_st (snd ls)"
    for "is" and ls :: "nat \<times> kv"
    by (induction "is" arbitrary: ls) (auto simp: Let_def split: prod.splits)
  then show ?thesis by (simp add: read_scan_def)
qed

lemma owner_fill: "read_fill k b m s = Some (r, s') \<Longrightarrow> kv_st s = Some m \<Longrightarrow> owner_info s' = owner_info s"
  using owner_scan [of b k "buckets m ! b" "s\<lparr>kv_st := Some (m\<lparr>buckets := (buckets m)[b := (buckets m ! b)\<lparr>bcache_valid := True\<rparr>]\<rparr>), cache_idx := 0, cache_valid := True\<rparr>"]
  by (auto simp: read_fill_def owner_info_def Let_def split: prod.splits if_splits option.splits)

lemma owner_read: "kv_store_read k s = Some (r, s') \<Longrightarrow> owner_info s' = owner_info s"
  by (auto simp: kv_store_read_def Let_def owner_info_def split: option.splits if_splits prod.splits dest: owner_fill)

lemma owner_read_until_null:
  assumes "read_until_null k s = Some r"
  shows "owner_info (snd r) = owner_info s"
proof (rule read_until_null.raw_induct [where P = "\<lambda>k s r. owner_info (snd r) = owner_info s", OF _ assms])
  fix f k s r
  assume "\<And>k s r. f k s = Some r \<Longrightarrow> owner_info (snd r) = owner_info s"
    and "do { (p, s) \<leftarrow> kv_store_read (Some k) s;
      case p of None \<Rightarrow> Some ([], s) | Some v \<Rightarrow> do { (vs, s) \<leftarrow> f k s; Some (v # vs, s) } } = Some r"
  then show "owner_info (snd r) = owner_info s"
    by (auto split: bind_splits prod.splits option.splits dest!: owner_read)
qed

section \<open>The outcome\<close>

lemma my_strings:
  "nozero my_key" "my_key \<noteq> []" "length my_key < KEY_COUNT" "nozero store_name" "\<forall>v \<in> set my_values. short_entry (my_key, v)"
  by (simp_all add: my_key_def store_name_def my_values_def bytes_def bracketed_def nozero_def short_entry_def kv_consts upt_rec)

text \<open>When no store of this name exists and the kernel does not fail, the program ends, reads
  and prints the nineteen values in the order they were written, and removes the store.\<close>

theorem kv_main_prints:
  assumes "os_shm_open K store_name False = -1" "os_shm_open K store_name True = fd" "fd \<noteq> -1" "os_truncate K"
    "os_mmap K fd = Some m0" "os_fstat K = Some True" "os_munmap K" "os_unlink K"
  shows "\<exists>s. kv_main K kv_start = Some (my_values, my_values, 0, s) \<and> kv_st s = None"
proof -
  obtain s where s: "kv_store_create (os_shm_open K) (os_truncate K) (os_mmap K) (os_fstat K) (Some store_name) kv_start = Some (0, s)"
    "kv_st s = Some (m0\<lparr>buckets := replicate KV_BUCKET_COUNT empty_bucket, clients := 1,
      sname := (strncpy NAME_MAX store_name)[NAME_MAX - 1 := 0]\<rparr>)" "\<not> cache_valid s" "cache_key s = None"
    "length (cache_data s) = BUCKET_SIZE + 1"
    using kv_create_fresh [of "os_shm_open K" store_name "os_mmap K" m0 "os_fstat K"] assms by auto
  have f: "fresh_kv s" using s by (auto simp: fresh_kv_def)
  let ?ws = "map (Pair my_key) my_values"
  have ws: "\<forall>e \<in> set ?ws. short_entry e" using my_strings(5) by auto
  have same: "filter (\<lambda>e. kv_bucket (fst e) = kv_bucket my_key) ?ws = ?ws" "filter (\<lambda>e. fst e = my_key) ?ws = ?ws"
    by (simp_all add: filter_map comp_def)
  have len: "length my_values = 19" by (simp add: my_values_def)
  have "rev (take BUCKET_SIZE (rev ?ws)) = ?ws" using len by (simp add: kv_consts take_all)
  then have vals: "kv_vals my_key (kv_writes ?ws s) = my_values"
    using kv_vals_history [OF f ws my_strings(1-3)] same by (simp add: comp_def)
  obtain m where m: "kv_st s = Some m" "entries (buckets m ! 0) = replicate BUCKET_SIZE ([], [])"
    using s(2) by (simp add: entries_empty KV_BUCKET_COUNT_def)
  have w: "kv_ok (kv_writes ?ws s)" "\<not> cache_valid (kv_writes ?ws s)"
    using kv_writes_entries [OF fresh_kv_ok [OF f] m(1) ws, of 0] m(2) len by auto
  obtain s2 where s2: "read_until_null my_key (kv_writes ?ws s) = Some (my_values, s2)" "kv_vals my_key s2 = my_values"
    using read_until_null_all [OF w, of my_key] len unfolding vals by fastforce
  have "owner_info s2 = owner_info s" using owner_read_until_null [OF s2(1)] by (simp add: owner_writes)
  then obtain m2 where m2: "kv_st s2 = Some m2" "sname m2 = (strncpy NAME_MAX store_name)[NAME_MAX - 1 := 0]" "clients m2 = 1"
    using s(2) by (auto simp: owner_info_def)
  have "\<exists>s'. kv_store_destroy True True (Some store_name) s2 = (0, s') \<and> kv_st s' = None"
    using m2 stored_name_matches [OF my_strings(4)] by (simp add: kv_store_destroy_def sm_detach_def sm_close_def Let_def)
  moreover have "kv_store_read_all (Some my_key) s2 = Some my_values" using s2(2) len by (auto simp: kv_read_all_vals)
  ultimately show ?thesis using s(1) s2(1) assms(7,8) by (auto simp: kv_main_def write_all_writes)
qed

end
