(* ===== verification/Event_Loop.thy ===== *)
theory Event_Loop
  imports Prelude
begin

text \<open>
  The event loop library of \<open>event-loop/ev.c\<close> (the part before the unit tests):
  \<open>struct ev\<close> and \<open>struct ev_entry\<close> live on an explicit heap, so that a use of a
  freed object is visible; every system call is a field of the parameter
  \<open>kernel\<close>, acting on a state the library cannot see.  A computation either ends
  in a \<open>fault\<close> (an invalid pointer, a failed assertion, \<open>exit\<close>) or returns a
  value and the new state.
\<close>

section \<open>Data\<close>

datatype callback = Timer_cd | Cancel_timer_cb | Callback_oneshot | Callback_timer_periodic | Fd_cb_raw

record ev =
  ev_fd :: int
  break_loop :: bool
  entries :: nat

record ev_entry =
  e_fd :: int
  e_type :: nat
  e_raw :: bool
  tv_sec :: int
  tv_nsec :: int
  e_cb :: "callback option"
  e_data :: nat
  flags :: nat
  signal_mask :: nat

record ev_wrapper =
  w_ev :: nat
  w_entry :: nat

record ctx_timer =
  c_eve :: nat
  c_ev :: nat
  periodic_runs :: nat

datatype obj = Ev ev | Entry ev_entry | Wrapper ev_wrapper | Ctx ctx_timer

definition EV_READ :: nat where "EV_READ = 1"
definition EV_WRITE :: nat where "EV_WRITE = 2"
definition EV_TIMEOUT_ONESHOT :: nat where "EV_TIMEOUT_ONESHOT = 4"
definition EV_TIMEOUT_PERIODIC :: nat where "EV_TIMEOUT_PERIODIC = 8"
definition EV_SIGNAL :: nat where "EV_SIGNAL = 16"
definition EV_CLOEXEC :: int where "EV_CLOEXEC = 1"
definition EVE_EPOLL_ARRAY_SIZE :: nat where "EVE_EPOLL_ARRAY_SIZE = 64"

text \<open>Constants of the C library: \<open>EINVAL\<close>, \<open>EPOLL_CLOEXEC\<close>, \<open>O_NONBLOCK\<close>, and
  \<open>EPOLLIN | EPOLLPRI | EPOLLERR | EPOLLHUP\<close>.\<close>

definition EINVAL :: int where "EINVAL = 22"
definition EPOLL_CLOEXEC :: int where "EPOLL_CLOEXEC = 524288"
definition O_NONBLOCK :: int where "O_NONBLOCK = 2048"
definition EPOLL_ANY :: nat where "EPOLL_ANY = 27"
definition sizeof_siginfo :: int where "sizeof_siginfo = 128"

lemmas ev_types = EV_READ_def EV_WRITE_def EV_TIMEOUT_ONESHOT_def EV_TIMEOUT_PERIODIC_def EV_SIGNAL_def

section \<open>The kernel\<close>

text \<open>
  The system calls the file makes.  \<open>sys_malloc\<close> only decides whether an
  allocation succeeds.  \<open>sys_timerfd_settime\<close> gets whether the time is absolute,
  the expiry and the interval.  \<open>sys_epoll_wait\<close> returns the count and the
  \<open>data.ptr\<close> fields of the events it stored.
\<close>

record 'k kernel =
  sys_malloc :: "'k \<Rightarrow> bool \<times> 'k"
  sys_close :: "int \<Rightarrow> 'k \<Rightarrow> 'k"
  sys_getfl :: "int \<Rightarrow> 'k \<Rightarrow> int \<times> 'k"
  sys_setfl :: "int \<Rightarrow> int \<Rightarrow> 'k \<Rightarrow> int \<times> 'k"
  sys_clock_gettime :: "'k \<Rightarrow> (int \<times> int \<times> int) \<times> 'k"
  sys_timerfd_create :: "'k \<Rightarrow> int \<times> 'k"
  sys_timerfd_settime :: "int \<Rightarrow> bool \<Rightarrow> int \<times> int \<Rightarrow> int \<times> int \<Rightarrow> 'k \<Rightarrow> int \<times> 'k"
  sys_sigprocmask :: "nat \<Rightarrow> 'k \<Rightarrow> int \<times> 'k"
  sys_signalfd :: "nat \<Rightarrow> 'k \<Rightarrow> int \<times> 'k"
  sys_epoll_create1 :: "int \<Rightarrow> 'k \<Rightarrow> int \<times> 'k"
  sys_epoll_add :: "int \<Rightarrow> int \<Rightarrow> nat \<Rightarrow> nat \<Rightarrow> 'k \<Rightarrow> int \<times> 'k"
  sys_epoll_del :: "int \<Rightarrow> int \<Rightarrow> 'k \<Rightarrow> int \<times> 'k"
  sys_epoll_wait :: "int \<Rightarrow> nat \<Rightarrow> 'k \<Rightarrow> (int \<times> nat list) \<times> 'k"
  sys_read_u64 :: "int \<Rightarrow> 'k \<Rightarrow> (int \<times> nat) \<times> 'k"
  sys_read_siginfo :: "int \<Rightarrow> 'k \<Rightarrow> (int \<times> nat \<times> nat) \<times> 'k"
  sys_pipe :: "'k \<Rightarrow> (int \<times> int \<times> int) \<times> 'k"
  sys_write :: "int \<Rightarrow> 'k \<Rightarrow> 'k"

section \<open>Computations\<close>

datatype fault = Bad_pointer nat | Bad_call | Assertion | Exited int | Aborted | Out_of_fuel

text \<open>The program's memory, the next address \<open>malloc\<close> returns, the global \<open>i\<close>, and the kernel's state.\<close>

record 'k st =
  heap :: "nat \<Rightarrow> obj option"
  fresh :: nat
  glob_i :: int
  os :: 'k

type_synonym ('k, 'a) prog = "'k st \<Rightarrow> fault + 'a \<times> 'k st"

definition ret :: "'a \<Rightarrow> ('k, 'a) prog" where
  "ret x s = Inr (x, s)"

definition fail :: "fault \<Rightarrow> ('k, 'a) prog" where
  "fail e s = Inl e"

definition bind :: "('k, 'a) prog \<Rightarrow> ('a \<Rightarrow> ('k, 'b) prog) \<Rightarrow> ('k, 'b) prog" where
  "bind m f s = (case m s of Inl e \<Rightarrow> Inl e | Inr (x, s') \<Rightarrow> f x s')"

definition sys :: "('k \<Rightarrow> 'a \<times> 'k) \<Rightarrow> ('k, 'a) prog" where
  "sys c s = (case c (os s) of (x, k) \<Rightarrow> Inr (x, s\<lparr>os := k\<rparr>))"

definition load_ev :: "nat \<Rightarrow> ('k, ev) prog" where
  "load_ev p s = (case heap s p of Some (Ev v) \<Rightarrow> Inr (v, s) | _ \<Rightarrow> Inl (Bad_pointer p))"

definition load_entry :: "nat \<Rightarrow> ('k, ev_entry) prog" where
  "load_entry p s = (case heap s p of Some (Entry e) \<Rightarrow> Inr (e, s) | _ \<Rightarrow> Inl (Bad_pointer p))"

definition load_wrapper :: "nat \<Rightarrow> ('k, ev_wrapper) prog" where
  "load_wrapper p s = (case heap s p of Some (Wrapper w) \<Rightarrow> Inr (w, s) | _ \<Rightarrow> Inl (Bad_pointer p))"

definition load_ctx :: "nat \<Rightarrow> ('k, ctx_timer) prog" where
  "load_ctx p s = (case heap s p of Some (Ctx c) \<Rightarrow> Inr (c, s) | _ \<Rightarrow> Inl (Bad_pointer p))"

text \<open>Stores go to objects that were loaded before; \<open>free\<close> of anything else is a fault.\<close>

definition write_obj :: "nat \<Rightarrow> obj \<Rightarrow> ('k, unit) prog" where
  "write_obj p ob s = (if heap s p = None then Inl (Bad_pointer p) else Inr ((), s\<lparr>heap := (heap s)(p \<mapsto> ob)\<rparr>))"

definition free_obj :: "nat \<Rightarrow> ('k, unit) prog" where
  "free_obj p s = (if heap s p = None then Inl (Bad_pointer p) else Inr ((), s\<lparr>heap := (heap s)(p := None)\<rparr>))"

definition malloc :: "'k kernel \<Rightarrow> obj \<Rightarrow> ('k, nat) prog" where
  "malloc K ob s = (case sys_malloc K (os s) of (ok, k) \<Rightarrow>
     if ok then Inr (fresh s, s\<lparr>heap := (heap s)(fresh s \<mapsto> ob), fresh := fresh s + 1, os := k\<rparr>)
     else Inr (0, s\<lparr>os := k\<rparr>))"

section \<open>The library\<close>

definition struct_ev_new_internal :: "'k kernel \<Rightarrow> ('k, nat) prog" where
  "struct_ev_new_internal K = malloc K (Ev \<lparr>ev_fd = 0, break_loop = False, entries = 0\<rparr>)"

definition ev_run_out :: "nat \<Rightarrow> ('k, int) prog" where
  "ev_run_out p = bind (load_ev p) (\<lambda>v. bind (write_obj p (Ev (v\<lparr>break_loop := True\<rparr>))) (\<lambda>_. ret 0))"

definition ev_set_non_blocking :: "'k kernel \<Rightarrow> int \<Rightarrow> ('k, int) prog" where
  "ev_set_non_blocking K fd =
     bind (sys (sys_getfl K fd)) (\<lambda>fl.
     if fl < 0 then ret (- EINVAL)
     else bind (sys (sys_setfl K fd (or fl O_NONBLOCK))) (\<lambda>fl.
          if fl < 0 then ret (- EINVAL) else ret 0))"

definition close_fd :: "'k kernel \<Rightarrow> int \<Rightarrow> ('k, unit) prog" where
  "close_fd K fd = sys (\<lambda>k. ((), sys_close K fd k))"

definition ev_destroy :: "'k kernel \<Rightarrow> nat \<Rightarrow> ('k, unit) prog" where
  "ev_destroy K p =
     bind (load_ev p) (\<lambda>v.
     bind (close_fd K (ev_fd v)) (\<lambda>_.
     bind (write_obj p (Ev \<lparr>ev_fd = 0, break_loop = False, entries = 0\<rparr>)) (\<lambda>_.
     free_obj p)))"

definition ev_new_flags_convert :: "int \<Rightarrow> int" where
  "ev_new_flags_convert fl =
     (if fl = 0 then 0 else if fl = EV_CLOEXEC then EPOLL_CLOEXEC else - EINVAL)"

definition ev_new :: "'k kernel \<Rightarrow> int \<Rightarrow> ('k, nat) prog" where
  "ev_new K fl =
     (let flags_epoll = ev_new_flags_convert fl in
      if flags_epoll < 0 then ret 0
      else bind (struct_ev_new_internal K) (\<lambda>p.
           if p = 0 then ret 0
           else bind (sys (sys_epoll_create1 K flags_epoll)) (\<lambda>fd.
                bind (load_ev p) (\<lambda>v.
                bind (write_obj p (Ev (v\<lparr>ev_fd := fd\<rparr>))) (\<lambda>_.
                if fd < 0 then bind (free_obj p) (\<lambda>_. ret 0)
                else bind (load_ev p) (\<lambda>v.
                     bind (write_obj p (Ev (v\<lparr>entries := 0, break_loop := False\<rparr>))) (\<lambda>_.
                     ret p)))))))"

definition entry_zero :: ev_entry where
  "entry_zero = \<lparr>e_fd = 0, e_type = 0, e_raw = False, tv_sec = 0, tv_nsec = 0, e_cb = None,
     e_data = 0, flags = 0, signal_mask = 0\<rparr>"

text \<open>The entry and its \<open>priv_data\<close> block are allocated and freed together; the
  model keeps the fields of the block in the entry and both \<open>malloc\<close> outcomes.\<close>

definition ev_entry_new_epoll_internal :: "'k kernel \<Rightarrow> ('k, nat) prog" where
  "ev_entry_new_epoll_internal K =
     bind (malloc K (Entry entry_zero)) (\<lambda>p.
     if p = 0 then ret 0
     else bind (sys (sys_malloc K)) (\<lambda>ok.
          if \<not> ok then bind (free_obj p) (\<lambda>_. ret 0) else ret p))"

definition ev_entry_new_raw :: "'k kernel \<Rightarrow> int \<Rightarrow> nat \<Rightarrow> callback \<Rightarrow> nat \<Rightarrow> ('k, nat) prog" where
  "ev_entry_new_raw K fd evs cb data =
     bind (ev_entry_new_epoll_internal K) (\<lambda>p.
     if p = 0 then ret 0
     else bind (load_entry p) (\<lambda>e.
          bind (write_obj p (Entry (e\<lparr>e_fd := fd, e_type := evs, e_cb := Some cb, e_raw := True,
                                  e_data := data, flags := evs\<rparr>))) (\<lambda>_. ret p)))"

definition ev_timer_oneshot_new :: "'k kernel \<Rightarrow> int \<times> int \<Rightarrow> callback \<Rightarrow> nat \<Rightarrow> ('k, nat) prog" where
  "ev_timer_oneshot_new K ts cb data =
     bind (ev_entry_new_epoll_internal K) (\<lambda>p.
     if p = 0 then ret 0
     else bind (load_entry p) (\<lambda>e.
          bind (write_obj p (Entry (e\<lparr>e_type := EV_TIMEOUT_ONESHOT, e_data := data, e_cb := Some cb,
                                  e_raw := False, tv_sec := fst ts, tv_nsec := snd ts\<rparr>))) (\<lambda>_. ret p)))"

definition ev_timer_periodic_new :: "'k kernel \<Rightarrow> int \<times> int \<Rightarrow> callback \<Rightarrow> nat \<Rightarrow> ('k, nat) prog" where
  "ev_timer_periodic_new K ts cb data =
     bind (ev_entry_new_epoll_internal K) (\<lambda>p.
     if p = 0 then ret 0
     else bind (load_entry p) (\<lambda>e.
          bind (write_obj p (Entry (e\<lparr>e_type := EV_TIMEOUT_PERIODIC, e_data := data, e_cb := Some cb,
                                  e_raw := False, tv_sec := fst ts, tv_nsec := snd ts\<rparr>))) (\<lambda>_. ret p)))"

definition ev_entry_timer_free :: "'k kernel \<Rightarrow> nat \<Rightarrow> ('k, unit) prog" where
  "ev_entry_timer_free K p = bind (load_entry p) (\<lambda>e. close_fd K (e_fd e))"

definition ev_entry_signal_free :: "'k kernel \<Rightarrow> nat \<Rightarrow> ('k, unit) prog" where
  "ev_entry_signal_free K p = bind (load_entry p) (\<lambda>e. close_fd K (e_fd e))"

definition ev_entry_free :: "'k kernel \<Rightarrow> nat \<Rightarrow> ('k, unit) prog" where
  "ev_entry_free K p =
     bind (load_entry p) (\<lambda>e.
     bind (if e_raw e then ret ()
           else if e_type e = EV_TIMEOUT_ONESHOT \<or> e_type e = EV_TIMEOUT_PERIODIC
           then ev_entry_timer_free K p
           else if e_type e = EV_SIGNAL then ev_entry_signal_free K p
           else ret ()) (\<lambda>_.
     bind (write_obj p (Entry entry_zero)) (\<lambda>_. free_obj p)))"

text \<open>Arming a one-shot timer: the expiry is the current time plus the timeout,
  with one carry from nanoseconds to seconds.\<close>

definition oneshot_expiry :: "int \<times> int \<Rightarrow> int \<times> int \<Rightarrow> int \<times> int" where
  "oneshot_expiry now ts =
     (let sec = fst now + fst ts; nsec = snd now + snd ts in
      if nsec \<ge> 1000000000 then (sec + 1, nsec - 1000000000) else (sec, nsec))"

text \<open>Common tail of the two timer functions, from \<open>timerfd_create\<close> on.\<close>

definition arm_timerfd :: "'k kernel \<Rightarrow> bool \<Rightarrow> int \<times> int \<Rightarrow> int \<times> int \<Rightarrow> nat \<Rightarrow> ('k, int) prog" where
  "arm_timerfd K abst val ival p =
     bind (sys (sys_timerfd_create K)) (\<lambda>fd.
     if fd < 0 then ret (- EINVAL)
     else bind (sys (sys_timerfd_settime K fd abst val ival)) (\<lambda>r.
          if r < 0 then bind (close_fd K fd) (\<lambda>_. ret (- EINVAL))
          else bind (ev_set_non_blocking K fd) (\<lambda>r.
               if r < 0 then bind (close_fd K fd) (\<lambda>_. ret (- EINVAL))
               else bind (load_entry p) (\<lambda>e.
                    bind (write_obj p (Entry (e\<lparr>flags := EPOLL_ANY, e_fd := fd\<rparr>))) (\<lambda>_. ret 0)))))"

definition ev_arm_timerfd_oneshot :: "'k kernel \<Rightarrow> nat \<Rightarrow> ('k, int) prog" where
  "ev_arm_timerfd_oneshot K p =
     bind (load_entry p) (\<lambda>e.
     bind (sys (sys_clock_gettime K)) (\<lambda>(r, now).
     if r < 0 then ret (- EINVAL)
     else arm_timerfd K True (oneshot_expiry now (tv_sec e, tv_nsec e)) (0, 0) p))"

definition ev_arm_timerfd_periodic :: "'k kernel \<Rightarrow> nat \<Rightarrow> ('k, int) prog" where
  "ev_arm_timerfd_periodic K p =
     bind (load_entry p) (\<lambda>e.
     arm_timerfd K False (tv_sec e, tv_nsec e) (tv_sec e, tv_nsec e) p)"

definition ev_arm_signal :: "'k kernel \<Rightarrow> nat \<Rightarrow> ('k, int) prog" where
  "ev_arm_signal K p =
     bind (load_entry p) (\<lambda>e.
     bind (sys (sys_sigprocmask K (signal_mask e))) (\<lambda>r.
     if r < 0 then ret (- EINVAL)
     else bind (sys (sys_signalfd K (signal_mask e))) (\<lambda>fd.
          if fd < 0 then ret (- EINVAL)
          else bind (ev_set_non_blocking K fd) (\<lambda>r.
               if r < 0 then bind (close_fd K fd) (\<lambda>_. ret (- EINVAL))
               else bind (load_entry p) (\<lambda>e.
                    bind (write_obj p (Entry (e\<lparr>flags := EPOLL_ANY, e_fd := fd\<rparr>))) (\<lambda>_. ret 0))))))"

text \<open>The \<open>switch\<close> of \<open>ev_add\<close>: what is done before \<open>epoll_ctl\<close>.\<close>

definition ev_arm :: "'k kernel \<Rightarrow> nat \<Rightarrow> ('k, int) prog" where
  "ev_arm K p =
     bind (load_entry p) (\<lambda>e.
     if e_raw e then ret 0
     else if e_type e = EV_TIMEOUT_ONESHOT then ev_arm_timerfd_oneshot K p
     else if e_type e = EV_TIMEOUT_PERIODIC then ev_arm_timerfd_periodic K p
     else if e_type e = EV_SIGNAL then ev_arm_signal K p
     else ret 0)"

definition ev_add :: "'k kernel \<Rightarrow> nat \<Rightarrow> nat \<Rightarrow> ('k, int) prog" where
  "ev_add K ev p =
     bind (ev_arm K p) (\<lambda>r.
     if r \<noteq> 0 then ret (- EINVAL)
     else bind (load_entry p) (\<lambda>e.
          bind (load_ev ev) (\<lambda>v.
          bind (sys (sys_epoll_add K (ev_fd v) (e_fd e) (flags e) p)) (\<lambda>r.
          if r < 0 then ret (- EINVAL)
          else bind (write_obj ev (Ev (v\<lparr>entries := size_add (entries v) 1\<rparr>))) (\<lambda>_. ret 0)))))"

definition ev_del :: "'k kernel \<Rightarrow> nat \<Rightarrow> nat \<Rightarrow> ('k, int) prog" where
  "ev_del K ev p =
     bind (load_ev ev) (\<lambda>v.
     bind (load_entry p) (\<lambda>e.
     bind (sys (sys_epoll_del K (ev_fd v) (e_fd e))) (\<lambda>r.
     if r < 0 then ret (- EINVAL)
     else bind (write_obj ev (Ev (v\<lparr>entries := size_sub (entries v) 1\<rparr>))) (\<lambda>_. ret 0))))"

definition ev_timer_cancel :: "'k kernel \<Rightarrow> nat \<Rightarrow> nat \<Rightarrow> ('k, int) prog" where
  "ev_timer_cancel K ev p = bind (ev_del K ev p) (\<lambda>r. if r \<noteq> 0 then ret (- EINVAL) else ret 0)"

section \<open>Dispatching\<close>

text \<open>How a callback is called; \<open>call\<close> is the code behind the function pointers.\<close>

datatype cb_arg =
    Arg_oneshot nat
  | Arg_periodic nat nat
  | Arg_fd int nat nat
  | Arg_raw int nat nat
  | Arg_signal nat nat nat

type_synonym 'k dispatch = "callback \<Rightarrow> cb_arg \<Rightarrow> ('k, unit) prog"

definition invoke :: "'k dispatch \<Rightarrow> callback option \<Rightarrow> cb_arg \<Rightarrow> ('k, unit) prog" where
  "invoke call c a = (case c of None \<Rightarrow> fail Bad_call | Some f \<Rightarrow> call f a)"

definition ev_process_timer_oneshot :: "'k kernel \<Rightarrow> 'k dispatch \<Rightarrow> nat \<Rightarrow> nat \<Rightarrow> ('k, unit) prog" where
  "ev_process_timer_oneshot K call ev p =
     bind (load_entry p) (\<lambda>e.
     bind (sys (sys_read_u64 K (e_fd e))) (\<lambda>(r, missed).
     if r < 0 then fail Assertion
     else bind (ev_del K ev p) (\<lambda>_.
          bind (load_entry p) (\<lambda>e. invoke call (e_cb e) (Arg_oneshot (e_data e))))))"

definition ev_process_timer_periodic :: "'k kernel \<Rightarrow> 'k dispatch \<Rightarrow> nat \<Rightarrow> ('k, unit) prog" where
  "ev_process_timer_periodic K call p =
     bind (load_entry p) (\<lambda>e.
     bind (sys (sys_read_u64 K (e_fd e))) (\<lambda>(r, missed).
     if r < 0 then fail Assertion
     else bind (load_entry p) (\<lambda>e. invoke call (e_cb e) (Arg_periodic missed (e_data e)))))"

definition ev_process_signal :: "'k kernel \<Rightarrow> 'k dispatch \<Rightarrow> nat \<Rightarrow> ('k, unit) prog" where
  "ev_process_signal K call p =
     bind (load_entry p) (\<lambda>e.
     bind (sys (sys_read_siginfo K (e_fd e))) (\<lambda>(r, signo, pid).
     if r < 0 then fail Assertion
     else if r \<noteq> sizeof_siginfo then ret ()
     else bind (load_entry p) (\<lambda>e. invoke call (e_cb e) (Arg_signal signo pid (e_data e)))))"

definition ev_process_call_internal :: "'k kernel \<Rightarrow> 'k dispatch \<Rightarrow> nat \<Rightarrow> nat \<Rightarrow> ('k, unit) prog" where
  "ev_process_call_internal K call ev p =
     bind (load_entry p) (\<lambda>e.
     if e_raw e then invoke call (e_cb e) (Arg_raw (e_fd e) (e_type e) (e_data e))
     else if e_type e = EV_READ \<or> e_type e = EV_WRITE
     then invoke call (e_cb e) (Arg_fd (e_fd e) (e_type e) (e_data e))
     else if e_type e = EV_TIMEOUT_ONESHOT then ev_process_timer_oneshot K call ev p
     else if e_type e = EV_TIMEOUT_PERIODIC then ev_process_timer_periodic K call p
     else if e_type e = EV_SIGNAL then ev_process_signal K call p
     else ret ())"

text \<open>The \<open>for\<close> loop of \<open>ev_loop\<close> over the events of one \<open>epoll_wait\<close>.\<close>

primrec ev_process_all :: "'k kernel \<Rightarrow> 'k dispatch \<Rightarrow> nat \<Rightarrow> nat list \<Rightarrow> ('k, unit) prog" where
  "ev_process_all K call ev [] = ret ()"
| "ev_process_all K call ev (p # ps) =
     bind (ev_process_call_internal K call ev p) (\<lambda>_. ev_process_all K call ev ps)"

text \<open>The \<open>while\<close> loop may run for ever; \<open>fuel\<close> bounds its iterations.\<close>

primrec ev_loop :: "'k kernel \<Rightarrow> 'k dispatch \<Rightarrow> nat \<Rightarrow> nat \<Rightarrow> ('k, int) prog" where
  "ev_loop K call 0 ev = fail Out_of_fuel"
| "ev_loop K call (Suc fuel) ev =
     bind (load_ev ev) (\<lambda>v.
     if entries v > 0
     then bind (sys (sys_epoll_wait K (ev_fd v) EVE_EPOLL_ARRAY_SIZE)) (\<lambda>(nfds, evs).
          if nfds < 0 then ret (- EINVAL)
          else bind (ev_process_all K call ev (take (nat nfds) evs)) (\<lambda>_.
               bind (load_ev ev) (\<lambda>v.
               if break_loop v then ret 0 else ev_loop K call fuel ev)))
     else ret 0)"

end
