(* ===== verification/Event_Tests.thy ===== *)
theory Event_Tests
  imports Event_Loop
begin

text \<open>
  The unit tests of \<open>event-loop/ev.c\<close>: the callbacks, which run inside \<open>ev_loop\<close>
  and call back into the library, and the four test programs.  Messages printed
  on \<open>stderr\<close> are left out.
\<close>

definition EXIT_FAILURE :: int where "EXIT_FAILURE = 1"
definition SLEEP_SECONDS :: int where "SLEEP_SECONDS = 1"
definition ITERATIO_MAX :: int where "ITERATIO_MAX = 2"

text \<open>\<open>i++\<close> on the global counter: the value before.\<close>

definition post_incr_i :: "('k, int) prog" where
  "post_incr_i s = Inr (glob_i s, s\<lparr>glob_i := glob_i s + 1\<rparr>)"

definition timer_cd :: "'k kernel \<Rightarrow> nat \<Rightarrow> ('k, unit) prog" where
  "timer_cd K ev =
     bind post_incr_i (\<lambda>i.
     if i \<ge> ITERATIO_MAX then ret ()
     else bind (ev_timer_oneshot_new K (SLEEP_SECONDS, 0) Timer_cd ev) (\<lambda>p.
          if p = 0 then fail (Exited 666)
          else bind (ev_add K ev p) (\<lambda>_. ret ())))"

definition cancel_timer_cb :: "'k kernel \<Rightarrow> nat \<Rightarrow> ('k, unit) prog" where
  "cancel_timer_cb K data =
     bind (load_wrapper data) (\<lambda>w.
     bind (ev_timer_cancel K (w_ev w) (w_entry w)) (\<lambda>r.
     if r \<noteq> 0 then fail (Exited EXIT_FAILURE)
     else bind (load_wrapper data) (\<lambda>w. ev_entry_free K (w_entry w))))"

definition ctx_timer_new :: "'k kernel \<Rightarrow> ('k, nat) prog" where
  "ctx_timer_new K =
     bind (malloc K (Ctx \<lparr>c_eve = 0, c_ev = 0, periodic_runs = 0\<rparr>)) (\<lambda>p.
     if p = 0 then fail Aborted else ret p)"

definition callback_oneshot :: "'k kernel \<Rightarrow> nat \<Rightarrow> ('k, unit) prog" where
  "callback_oneshot K data =
     bind (load_ctx data) (\<lambda>c.
     bind (ev_entry_free K (c_eve c)) (\<lambda>_. free_obj data))"

text \<open>\<open>periodic_runs\<close> is an \<open>unsigned\<close>: the decrement wraps at 32 bits.\<close>

definition callback_timer_periodic :: "'k kernel \<Rightarrow> nat \<Rightarrow> nat \<Rightarrow> ('k, unit) prog" where
  "callback_timer_periodic K missed data =
     bind (load_ctx data) (\<lambda>c.
     bind (write_obj data (Ctx (c\<lparr>periodic_runs := (periodic_runs c + 2 ^ 32 - 1) mod 2 ^ 32\<rparr>))) (\<lambda>_.
     bind (load_ctx data) (\<lambda>c.
     if periodic_runs c = 0
     then bind (ev_timer_cancel K (c_ev c) (c_eve c)) (\<lambda>r.
          if r < 0 then fail (Exited EXIT_FAILURE)
          else bind (load_ctx data) (\<lambda>c.
               bind (ev_entry_free K (c_eve c)) (\<lambda>_. free_obj data)))
     else ret ())))"

definition fd_cb_raw :: "int \<Rightarrow> nat \<Rightarrow> nat \<Rightarrow> ('k, unit) prog" where
  "fd_cb_raw fd events_ret priv_data =
     (if EPOLL_ANY \<noteq> events_ret then fail Assertion
      else bind (ev_run_out priv_data) (\<lambda>_. ret ()))"

text \<open>The code behind the function pointers; a call with arguments of another
  type than the function's is undefined.\<close>

fun test_call :: "'k kernel \<Rightarrow> 'k dispatch" where
  "test_call K Timer_cd (Arg_oneshot data) = timer_cd K data"
| "test_call K Cancel_timer_cb (Arg_oneshot data) = cancel_timer_cb K data"
| "test_call K Callback_oneshot (Arg_oneshot data) = callback_oneshot K data"
| "test_call K Callback_timer_periodic (Arg_periodic missed data) = callback_timer_periodic K missed data"
| "test_call K Fd_cb_raw (Arg_raw fd evs data) = fd_cb_raw fd evs data"
| "test_call K _ _ = fail Bad_call"

definition do_cancel_test :: "'k kernel \<Rightarrow> nat \<Rightarrow> nat \<Rightarrow> ('k, int) prog" where
  "do_cancel_test K fuel ev =
     bind (ev_timer_oneshot_new K (5, 0) Timer_cd ev) (\<lambda>eve1.
     if eve1 = 0 then fail (Exited EXIT_FAILURE)
     else bind (ev_add K ev eve1) (\<lambda>r.
     if r \<noteq> 0 then fail (Exited EXIT_FAILURE)
     else bind (malloc K (Wrapper \<lparr>w_ev = ev, w_entry = eve1\<rparr>)) (\<lambda>w.
     if w = 0 then fail (Exited EXIT_FAILURE)
     else bind (ev_timer_oneshot_new K (1, 0) Cancel_timer_cb w) (\<lambda>eve2.
     if eve2 = 0 then fail (Exited EXIT_FAILURE)
     else bind (ev_add K ev eve2) (\<lambda>r.
     if r \<noteq> 0 then fail (Exited EXIT_FAILURE)
     else bind (ev_loop K (test_call K) fuel ev) (\<lambda>_.
          bind (free_obj w) (\<lambda>_. ret 1)))))))"

definition test_timer :: "'k kernel \<Rightarrow> nat \<Rightarrow> ('k, unit) prog" where
  "test_timer K fuel =
     bind (ev_new K 0) (\<lambda>ev.
     if ev = 0 then ret ()
     else bind (do_cancel_test K fuel ev) (\<lambda>_. ev_destroy K ev))"

definition test_timer_oneshot :: "'k kernel \<Rightarrow> nat \<Rightarrow> ('k, unit) prog" where
  "test_timer_oneshot K fuel =
     bind (ev_new K 0) (\<lambda>ev.
     if ev = 0 then ret ()
     else bind (ctx_timer_new K) (\<lambda>ctxo.
          bind (load_ctx ctxo) (\<lambda>c. bind (write_obj ctxo (Ctx (c\<lparr>c_ev := ev\<rparr>))) (\<lambda>_.
          bind (ev_timer_oneshot_new K (1, 0) Callback_oneshot ctxo) (\<lambda>eve.
          if eve = 0 then fail (Exited EXIT_FAILURE)
          else bind (load_ctx ctxo) (\<lambda>c. bind (write_obj ctxo (Ctx (c\<lparr>c_eve := eve\<rparr>))) (\<lambda>_.
               bind (ev_add K ev eve) (\<lambda>r.
               if r \<noteq> 0 then fail (Exited EXIT_FAILURE)
               else bind (ev_loop K (test_call K) fuel ev) (\<lambda>_. ev_destroy K ev)))))))))"

definition test_timer_periodic :: "'k kernel \<Rightarrow> nat \<Rightarrow> ('k, unit) prog" where
  "test_timer_periodic K fuel =
     bind (ev_new K 0) (\<lambda>ev.
     if ev = 0 then ret ()
     else bind (ctx_timer_new K) (\<lambda>ctxo.
          bind (load_ctx ctxo) (\<lambda>c. bind (write_obj ctxo (Ctx (c\<lparr>c_ev := ev, periodic_runs := 5\<rparr>))) (\<lambda>_.
          bind (ev_timer_periodic_new K (1, 0) Callback_timer_periodic ctxo) (\<lambda>eve.
          if eve = 0 then fail (Exited EXIT_FAILURE)
          else bind (load_ctx ctxo) (\<lambda>c. bind (write_obj ctxo (Ctx (c\<lparr>c_eve := eve\<rparr>))) (\<lambda>_.
               bind (ev_add K ev eve) (\<lambda>r.
               if r \<noteq> 0 then fail (Exited EXIT_FAILURE)
               else bind (ev_loop K (test_call K) fuel ev) (\<lambda>_. ev_destroy K ev)))))))))"

definition test_events_raw :: "'k kernel \<Rightarrow> nat \<Rightarrow> ('k, unit) prog" where
  "test_events_raw K fuel =
     bind (sys (sys_pipe K)) (\<lambda>(r, rd, wr).
     if r = - 1 then fail (Exited EXIT_FAILURE)
     else bind (ev_new K 0) (\<lambda>ev.
     if ev = 0 then ret ()
     else bind (ev_entry_new_raw K rd EPOLL_ANY Fd_cb_raw ev) (\<lambda>eve.
     if eve = 0 then fail (Exited EXIT_FAILURE)
     else bind (ev_add K ev eve) (\<lambda>r.
     if r \<noteq> 0 then fail (Exited EXIT_FAILURE)
     else bind (sys (\<lambda>k. ((), sys_write K wr k))) (\<lambda>_.
          bind (ev_loop K (test_call K) fuel ev) (\<lambda>_.
          bind (ev_entry_free K eve) (\<lambda>_. ev_destroy K ev)))))))"

definition ev_main :: "'k kernel \<Rightarrow> nat \<Rightarrow> ('k, int) prog" where
  "ev_main K fuel =
     bind (test_timer_oneshot K fuel) (\<lambda>_.
     bind (test_timer_periodic K fuel) (\<lambda>_.
     bind (test_timer K fuel) (\<lambda>_.
     bind (test_events_raw K fuel) (\<lambda>_. ret 0))))"

end
