(* ===== verification/Event_Spec.thy ===== *)
theory Event_Spec
  imports Event_Tests
begin

text \<open>
  Correctness of the event loop for every kernel that behaves as documented.
  \<open>kernel_spec\<close> states that behaviour over a view of the kernel's state (the open
  descriptors and what each epoll instance watches); \<open>wp\<close> is the weakest
  precondition of a computation; \<open>ev_inv\<close> is the invariant of a \<open>struct ev\<close>: its
  counter is the number of watched descriptors, and every watched descriptor
  leads to a live entry.
\<close>

section \<open>What the kernel promises\<close>

record 'k kview =
  opened :: "'k \<Rightarrow> int set"
  watched :: "'k \<Rightarrow> int \<Rightarrow> int \<Rightarrow> nat option"

definition same :: "'k kview \<Rightarrow> 'k \<Rightarrow> 'k \<Rightarrow> bool" where
  "same V k k' \<longleftrightarrow> opened V k' = opened V k \<and> watched V k' = watched V k"

definition quiet :: "'k kview \<Rightarrow> ('k \<Rightarrow> 'a \<times> 'k) \<Rightarrow> bool" where
  "quiet V c \<longleftrightarrow> (\<forall>k. same V k (snd (c k)))"

definition makes_fd :: "'k kview \<Rightarrow> ('k \<Rightarrow> int \<times> 'k) \<Rightarrow> bool" where
  "makes_fd V c \<longleftrightarrow> (\<forall>k. watched V (snd (c k)) = watched V k \<and>
     (if fst (c k) < 0 then opened V (snd (c k)) = opened V k
      else fst (c k) \<notin> opened V k \<and> opened V (snd (c k)) = insert (fst (c k)) (opened V k)))"

definition fds_spec :: "'k kview \<Rightarrow> bool" where
  "fds_spec V \<longleftrightarrow> (\<forall>k. finite (opened V k) \<and> card (opened V k) < 2 ^ 31) \<and>
     (\<forall>k ep fd. watched V k ep fd \<noteq> None \<longrightarrow> ep \<in> opened V k \<and> fd \<in> opened V k)"

definition quiet_spec :: "'k kernel \<Rightarrow> 'k kview \<Rightarrow> bool" where
  "quiet_spec K V \<longleftrightarrow>
     quiet V (sys_malloc K) \<and> (\<forall>fd. quiet V (sys_getfl K fd)) \<and> (\<forall>fd fl. quiet V (sys_setfl K fd fl)) \<and>
     quiet V (sys_clock_gettime K) \<and> (\<forall>fd a v i. quiet V (sys_timerfd_settime K fd a v i)) \<and>
     (\<forall>m. quiet V (sys_sigprocmask K m)) \<and> (\<forall>fd. quiet V (sys_read_u64 K fd)) \<and>
     (\<forall>fd. quiet V (sys_read_siginfo K fd)) \<and> (\<forall>ep n. quiet V (sys_epoll_wait K ep n))"

definition makes_spec :: "'k kernel \<Rightarrow> 'k kview \<Rightarrow> bool" where
  "makes_spec K V \<longleftrightarrow> makes_fd V (sys_timerfd_create K) \<and> (\<forall>m. makes_fd V (sys_signalfd K m)) \<and>
     (\<forall>fl. makes_fd V (sys_epoll_create1 K fl))"

definition close_spec :: "'k kernel \<Rightarrow> 'k kview \<Rightarrow> bool" where
  "close_spec K V \<longleftrightarrow> (\<forall>fd k. opened V (sys_close K fd k) = opened V k - {fd} \<and>
     watched V (sys_close K fd k) = (\<lambda>ep f. if ep = fd \<or> f = fd then None else watched V k ep f))"

definition epoll_add_spec :: "'k kernel \<Rightarrow> 'k kview \<Rightarrow> bool" where
  "epoll_add_spec K V \<longleftrightarrow> (\<forall>ep fd fl p k r k'. sys_epoll_add K ep fd fl p k = (r, k') \<longrightarrow>
     opened V k' = opened V k \<and>
     (if r < 0 then watched V k' = watched V k
      else watched V k ep fd = None \<and> watched V k' = (watched V k)(ep := (watched V k ep)(fd \<mapsto> p))))"

definition epoll_del_spec :: "'k kernel \<Rightarrow> 'k kview \<Rightarrow> bool" where
  "epoll_del_spec K V \<longleftrightarrow> (\<forall>ep fd k r k'. sys_epoll_del K ep fd k = (r, k') \<longrightarrow>
     opened V k' = opened V k \<and> (r < 0 \<longleftrightarrow> watched V k ep fd = None) \<and>
     (if r < 0 then watched V k' = watched V k
      else watched V k' = (watched V k)(ep := (watched V k ep)(fd := None))))"

definition epoll_wait_spec :: "'k kernel \<Rightarrow> 'k kview \<Rightarrow> bool" where
  "epoll_wait_spec K V \<longleftrightarrow> (\<forall>ep n k r evs k'. sys_epoll_wait K ep n k = ((r, evs), k') \<longrightarrow> 0 \<le> r \<longrightarrow>
     int (length evs) = r \<and> 0 < r \<and> r \<le> int n \<and> distinct evs \<and> set evs \<subseteq> ran (watched V k ep))"

definition kernel_spec :: "'k kernel \<Rightarrow> 'k kview \<Rightarrow> bool" where
  "kernel_spec K V \<longleftrightarrow> fds_spec V \<and> quiet_spec K V \<and> makes_spec K V \<and> close_spec K V \<and>
     epoll_add_spec K V \<and> epoll_del_spec K V \<and> epoll_wait_spec K V"

section \<open>Weakest preconditions\<close>

text \<open>\<open>wp F m Q s\<close>: from \<open>s\<close>, \<open>m\<close> ends in a fault allowed by \<open>F\<close> or returns with \<open>Q\<close>.\<close>

definition wp :: "(fault \<Rightarrow> bool) \<Rightarrow> ('k, 'a) prog \<Rightarrow> ('a \<Rightarrow> 'k st \<Rightarrow> bool) \<Rightarrow> 'k st \<Rightarrow> bool" where
  "wp F m Q s = (case m s of Inl e \<Rightarrow> F e | Inr (x, s') \<Rightarrow> Q x s')"

named_theorems wp_simps \<open>weakest preconditions of the basic computations\<close>

lemma wp_ret [wp_simps]: "wp F (ret x) Q = Q x"
  by (simp add: wp_def ret_def fun_eq_iff)

lemma wp_fail [wp_simps]: "wp F (fail e) Q s = F e"
  by (simp add: wp_def fail_def)

lemma wp_bind [wp_simps]: "wp F (bind m f) Q = wp F m (\<lambda>x. wp F (f x) Q)"
  by (simp add: wp_def bind_def fun_eq_iff split: sum.splits)

lemma wp_if [wp_simps]: "wp F (if b then m else n) Q s = (if b then wp F m Q s else wp F n Q s)"
  by simp

text \<open>A normal order for updates of the state.\<close>

lemma st_updates [wp_simps]:
  "s\<lparr>heap := h, os := k\<rparr> = s\<lparr>os := k, heap := h\<rparr>" "s\<lparr>fresh := n, os := k\<rparr> = s\<lparr>os := k, fresh := n\<rparr>"
  "s\<lparr>heap := h, fresh := n\<rparr> = s\<lparr>fresh := n, heap := h\<rparr>"
  by simp_all

lemma wp_sys: "wp F (sys c) Q s = Q (fst (c (os s))) (s\<lparr>os := snd (c (os s))\<rparr>)"
  by (simp add: wp_def sys_def split: prod.split)

lemma wp_load_ev [wp_simps]: "heap s p = Some (Ev v) \<Longrightarrow> wp F (load_ev p) Q s = Q v s"
  by (simp add: wp_def load_ev_def)

lemma wp_load_entry [wp_simps]: "heap s p = Some (Entry e) \<Longrightarrow> wp F (load_entry p) Q s = Q e s"
  by (simp add: wp_def load_entry_def)

lemma wp_load_wrapper [wp_simps]: "heap s p = Some (Wrapper w) \<Longrightarrow> wp F (load_wrapper p) Q s = Q w s"
  by (simp add: wp_def load_wrapper_def)

lemma wp_load_ctx [wp_simps]: "heap s p = Some (Ctx c) \<Longrightarrow> wp F (load_ctx p) Q s = Q c s"
  by (simp add: wp_def load_ctx_def)

lemma wp_write_obj [wp_simps]:
  "heap s p = Some ob' \<Longrightarrow> wp F (write_obj p ob) Q s = Q () (s\<lparr>heap := (heap s)(p \<mapsto> ob)\<rparr>)"
  by (simp add: wp_def write_obj_def)

lemma wp_free_obj [wp_simps]:
  "heap s p = Some ob \<Longrightarrow> wp F (free_obj p) Q s = Q () (s\<lparr>heap := (heap s)(p := None)\<rparr>)"
  by (simp add: wp_def free_obj_def)

lemma wp_mono: "wp F m Q s \<Longrightarrow> (\<And>x s'. Q x s' \<Longrightarrow> Q' x s') \<Longrightarrow> wp F m Q' s"
  by (auto simp: wp_def split: sum.splits)

text \<open>From a statement without allowed faults to the result itself.\<close>

lemma wp_returns: "wp (\<lambda>_. False) m Q s \<Longrightarrow> \<exists>x s'. m s = Inr (x, s') \<and> Q x s'"
  by (auto simp: wp_def split: sum.splits)

subsection \<open>System calls\<close>

lemma wp_quiet:
  assumes "quiet V c" "\<And>x k. same V (os s) k \<Longrightarrow> Q x (s\<lparr>os := k\<rparr>)"
  shows "wp F (sys c) Q s"
  using assms by (simp add: wp_sys quiet_def)

lemma wp_makes_fd:
  assumes "makes_fd V c"
    "\<And>fd k. fd < 0 \<Longrightarrow> same V (os s) k \<Longrightarrow> Q fd (s\<lparr>os := k\<rparr>)"
    "\<And>fd k. 0 \<le> fd \<Longrightarrow> fd \<notin> opened V (os s) \<Longrightarrow> opened V k = insert fd (opened V (os s)) \<Longrightarrow>
       watched V k = watched V (os s) \<Longrightarrow> Q fd (s\<lparr>os := k\<rparr>)"
  shows "wp F (sys c) Q s"
proof (cases "fst (c (os s)) < 0")
  case True
  then show ?thesis using assms(1,2) by (simp add: wp_sys makes_fd_def same_def)
next
  case False
  then have "0 \<le> fst (c (os s))" by simp
  then show ?thesis using assms(1) assms(3) [of "fst (c (os s))" "snd (c (os s))"] False
    by (simp add: wp_sys makes_fd_def)
qed

lemma wp_close_fd:
  assumes "kernel_spec K V"
    "\<And>k. opened V k = opened V (os s) - {fd} \<Longrightarrow>
       watched V k = (\<lambda>ep f. if ep = fd \<or> f = fd then None else watched V (os s) ep f) \<Longrightarrow>
       Q () (s\<lparr>os := k\<rparr>)"
  shows "wp F (close_fd K fd) Q s"
  using assms by (simp add: close_fd_def wp_sys kernel_spec_def close_spec_def)

lemma wp_epoll_add:
  assumes "kernel_spec K V"
    "\<And>r k. r < 0 \<Longrightarrow> same V (os s) k \<Longrightarrow> Q r (s\<lparr>os := k\<rparr>)"
    "\<And>r k. 0 \<le> r \<Longrightarrow> watched V (os s) ep fd = None \<Longrightarrow> opened V k = opened V (os s) \<Longrightarrow>
       watched V k = (watched V (os s))(ep := (watched V (os s) ep)(fd \<mapsto> p)) \<Longrightarrow> Q r (s\<lparr>os := k\<rparr>)"
  shows "wp F (sys (sys_epoll_add K ep fd fl p)) Q s"
proof -
  obtain r k where r: "sys_epoll_add K ep fd fl p (os s) = (r, k)" by force
  have "opened V k = opened V (os s) \<and> (if r < 0 then watched V k = watched V (os s)
      else watched V (os s) ep fd = None \<and> watched V k = (watched V (os s))(ep := (watched V (os s) ep)(fd \<mapsto> p)))"
    using assms(1) r unfolding kernel_spec_def epoll_add_spec_def by blast
  then show ?thesis using assms(2,3) [of r k] r by (cases "r < 0") (simp_all add: wp_sys same_def)
qed

lemma wp_epoll_del:
  assumes "kernel_spec K V"
    "\<And>r k. r < 0 \<Longrightarrow> watched V (os s) ep fd = None \<Longrightarrow> same V (os s) k \<Longrightarrow> Q r (s\<lparr>os := k\<rparr>)"
    "\<And>r k. 0 \<le> r \<Longrightarrow> watched V (os s) ep fd \<noteq> None \<Longrightarrow> opened V k = opened V (os s) \<Longrightarrow>
       watched V k = (watched V (os s))(ep := (watched V (os s) ep)(fd := None)) \<Longrightarrow> Q r (s\<lparr>os := k\<rparr>)"
  shows "wp F (sys (sys_epoll_del K ep fd)) Q s"
proof -
  obtain r k where r: "sys_epoll_del K ep fd (os s) = (r, k)" by force
  have "opened V k = opened V (os s) \<and> (r < 0 \<longleftrightarrow> watched V (os s) ep fd = None) \<and>
      (if r < 0 then watched V k = watched V (os s)
       else watched V k = (watched V (os s))(ep := (watched V (os s) ep)(fd := None)))"
    using assms(1) r unfolding kernel_spec_def epoll_del_spec_def by blast
  then show ?thesis using assms(2,3) [of r k] r by (cases "r < 0") (auto simp add: wp_sys same_def)
qed

lemma wp_epoll_wait:
  assumes "kernel_spec K V"
    "\<And>nfds evs k. nfds < 0 \<Longrightarrow> same V (os s) k \<Longrightarrow> Q (nfds, evs) (s\<lparr>os := k\<rparr>)"
    "\<And>nfds evs k. nfds = int (length evs) \<Longrightarrow> evs \<noteq> [] \<Longrightarrow> distinct evs \<Longrightarrow>
       set evs \<subseteq> ran (watched V (os s) ep) \<Longrightarrow> same V (os s) k \<Longrightarrow> Q (nfds, evs) (s\<lparr>os := k\<rparr>)"
  shows "wp F (sys (sys_epoll_wait K ep n)) Q s"
proof -
  obtain r evs k where r: "sys_epoll_wait K ep n (os s) = ((r, evs), k)" by (metis surj_pair)
  have q: "quiet V (sys_epoll_wait K ep n)"
    using assms(1) unfolding kernel_spec_def quiet_spec_def by blast
  have w: "0 \<le> r \<longrightarrow> int (length evs) = r \<and> 0 < r \<and> distinct evs \<and> set evs \<subseteq> ran (watched V (os s) ep)"
    using assms(1) r unfolding kernel_spec_def epoll_wait_spec_def by blast
  have k: "same V (os s) k" using q r by (metis quiet_def snd_conv)
  show ?thesis
  proof (cases "r < 0")
    case True
    then show ?thesis using assms(2) [OF True k] r by (simp add: wp_sys)
  next
    case False
    then show ?thesis using assms(3) [of r evs k] w k r by (auto simp add: wp_sys)
  qed
qed

lemma kernel_quiet:
  assumes "kernel_spec K V"
  shows "quiet V (sys_malloc K)" "quiet V (sys_getfl K fd)" "quiet V (sys_setfl K fd fl)"
    "quiet V (sys_clock_gettime K)" "quiet V (sys_timerfd_settime K fd a v i)"
    "quiet V (sys_sigprocmask K m)" "quiet V (sys_read_u64 K fd)" "quiet V (sys_read_siginfo K fd)"
  using assms unfolding kernel_spec_def quiet_spec_def by blast+

lemma kernel_makes_fd:
  assumes "kernel_spec K V"
  shows "makes_fd V (sys_timerfd_create K)" "makes_fd V (sys_signalfd K m)" "makes_fd V (sys_epoll_create1 K n)"
  using assms unfolding kernel_spec_def makes_spec_def by blast+

lemma kernel_opened:
  assumes "kernel_spec K V"
  shows "finite (opened V k)" "card (opened V k) < 2 ^ 31"
    "watched V k ep fd = Some p \<Longrightarrow> ep \<in> opened V k \<and> fd \<in> opened V k"
    "dom (watched V k ep) \<subseteq> opened V k"
  using assms unfolding kernel_spec_def fds_spec_def by (blast, blast, fastforce, blast)

lemma wp_malloc:
  assumes "kernel_spec K V"
    "\<And>k. same V (os s) k \<Longrightarrow> Q 0 (s\<lparr>os := k\<rparr>)"
    "\<And>k. same V (os s) k \<Longrightarrow> Q (fresh s) (s\<lparr>os := k, fresh := fresh s + 1, heap := (heap s)(fresh s \<mapsto> ob)\<rparr>)"
  shows "wp F (malloc K ob) Q s"
proof -
  obtain b k where b: "sys_malloc K (os s) = (b, k)" by force
  have "same V (os s) k" using kernel_quiet(1) [OF assms(1)] b by (metis quiet_def snd_conv)
  then show ?thesis using assms(2,3) [of k] b by (simp add: wp_def malloc_def wp_simps)
qed

section \<open>The operations\<close>

lemma same_trans [trans]: "same V a b \<Longrightarrow> same V b c \<Longrightarrow> same V a c"
  by (simp add: same_def)

lemma wp_set_non_blocking:
  assumes K: "kernel_spec K V" and "\<And>r k. r = 0 \<or> r = - EINVAL \<Longrightarrow> same V (os s) k \<Longrightarrow> Q r (s\<lparr>os := k\<rparr>)"
  shows "wp F (ev_set_non_blocking K fd) Q s"
  unfolding ev_set_non_blocking_def wp_bind
  apply (rule wp_quiet [OF kernel_quiet(2) [OF K]])
  apply (simp add: wp_simps assms(2))
  apply (rule impI, rule wp_quiet [OF kernel_quiet(3) [OF K]])
  apply (simp add: wp_simps assms(2) same_def)
  done

text \<open>Closing a descriptor that was just opened takes the kernel back to where it was.\<close>

lemma close_new:
  assumes "kernel_spec K V" "fd \<notin> opened V kold" "opened V k = insert fd (opened V kold)" "watched V k = watched V kold"
    and "opened V k' = opened V k - {fd}"
    and "watched V k' = (\<lambda>ep f. if ep = fd \<or> f = fd then None else watched V k ep f)"
  shows "same V kold k'"
proof -
  have "watched V kold ep f = None" if "ep = fd \<or> f = fd" for ep f
    using kernel_opened(3) [OF assms(1), of kold ep f] assms(2) that by (cases "watched V kold ep f") auto
  then show ?thesis using assms by (auto simp: same_def fun_eq_iff)
qed

text \<open>A descriptor made by \<open>timerfd_create\<close> or \<open>signalfd\<close> is closed again on every error path.\<close>

definition armed_state :: "nat \<Rightarrow> ev_entry \<Rightarrow> int \<Rightarrow> 'k \<Rightarrow> 'k st \<Rightarrow> 'k st" where
  "armed_state p e fd k s = s\<lparr>os := k, heap := (heap s)(p \<mapsto> Entry (e\<lparr>flags := EPOLL_ANY, e_fd := fd\<rparr>))\<rparr>"

lemma wp_close_new:
  assumes K: "kernel_spec K V" and "fd \<notin> opened V kold" "opened V (os s) = insert fd (opened V kold)"
    "watched V (os s) = watched V kold" and Q: "\<And>k. same V kold k \<Longrightarrow> Q () (s\<lparr>os := k\<rparr>)"
  shows "wp F (close_fd K fd) Q s"
  by (rule wp_close_fd [OF K]) (rule Q [OF close_new [OF K assms(2,3,4)]])

lemma wp_arm_timerfd:
  assumes K: "kernel_spec K V" and e: "heap s p = Some (Entry e)"
    and Q: "\<And>k. same V (os s) k \<Longrightarrow> Q (- EINVAL) (s\<lparr>os := k\<rparr>)"
      "\<And>fd k. 0 \<le> fd \<Longrightarrow> fd \<notin> opened V (os s) \<Longrightarrow> opened V k = insert fd (opened V (os s)) \<Longrightarrow>
        watched V k = watched V (os s) \<Longrightarrow> Q 0 (armed_state p e fd k s)"
  shows "wp F (arm_timerfd K a v i p) Q s"
  unfolding arm_timerfd_def wp_bind
  apply (rule wp_makes_fd [OF kernel_makes_fd(1) [OF K]])
   apply (simp add: wp_simps Q)
  apply (simp add: wp_simps)
  apply (rule wp_quiet [OF kernel_quiet(5) [OF K]])
  apply (simp add: wp_simps same_def)
  apply (intro conjI impI)
   apply (rule wp_close_new [OF K, where kold = "os s"]; simp add: Q same_def wp_simps)
  apply (rule wp_set_non_blocking [OF K])
  apply (simp add: wp_simps e)
  apply (intro conjI impI)
   apply (rule wp_close_new [OF K, where kold = "os s"]; simp add: Q same_def wp_simps)
  using e Q(2) by (simp add: wp_simps same_def armed_state_def)

text \<open>Whether \<open>ev_add\<close> makes a descriptor for the entry.\<close>

definition needs_fd :: "ev_entry \<Rightarrow> bool" where
  "needs_fd e \<longleftrightarrow> \<not> e_raw e \<and> e_type e \<in> {EV_TIMEOUT_ONESHOT, EV_TIMEOUT_PERIODIC, EV_SIGNAL}"

lemma wp_ev_arm_signal:
  assumes K: "kernel_spec K V" and e: "heap s p = Some (Entry e)"
    and Q: "\<And>k. same V (os s) k \<Longrightarrow> Q (- EINVAL) (s\<lparr>os := k\<rparr>)"
      "\<And>fd k. 0 \<le> fd \<Longrightarrow> fd \<notin> opened V (os s) \<Longrightarrow> opened V k = insert fd (opened V (os s)) \<Longrightarrow>
        watched V k = watched V (os s) \<Longrightarrow> Q 0 (armed_state p e fd k s)"
  shows "wp F (ev_arm_signal K p) Q s"
  unfolding ev_arm_signal_def wp_bind wp_load_entry [OF e]
  apply (rule wp_quiet [OF kernel_quiet(6) [OF K]])
  apply (simp add: wp_simps Q)
  apply (rule impI, rule wp_makes_fd [OF kernel_makes_fd(2) [OF K]])
   apply (simp add: wp_simps Q same_def)
  apply (simp add: wp_simps)
  apply (rule wp_set_non_blocking [OF K])
  apply (simp add: wp_simps e)
  apply (intro conjI impI)
   apply (rule wp_close_new [OF K, where kold = "os s"]; simp add: Q same_def wp_simps)
  using e Q(2) by (simp add: wp_simps same_def armed_state_def)

lemma wp_ev_arm:
  assumes K: "kernel_spec K V" and e: "heap s p = Some (Entry e)"
    and Q: "\<And>k. needs_fd e \<Longrightarrow> same V (os s) k \<Longrightarrow> Q (- EINVAL) (s\<lparr>os := k\<rparr>)"
      "\<And>fd k. needs_fd e \<Longrightarrow> 0 \<le> fd \<Longrightarrow> fd \<notin> opened V (os s) \<Longrightarrow>
        opened V k = insert fd (opened V (os s)) \<Longrightarrow> watched V k = watched V (os s) \<Longrightarrow>
        Q 0 (armed_state p e fd k s)"
      "\<not> needs_fd e \<Longrightarrow> Q 0 s"
  shows "wp F (ev_arm K p) Q s"
proof (cases "needs_fd e")
  case False
  then show ?thesis using Q(3) by (auto simp add: ev_arm_def wp_simps e needs_fd_def)
next
  case True
  note Q' = Q(1,2) [OF True]
  have osh: "armed_state p e fd k (s\<lparr>os := k'\<rparr>) = armed_state p e fd k s" for fd k k'
    by (simp add: armed_state_def)
  have one: "wp F (ev_arm_timerfd_oneshot K p) Q s"
    unfolding ev_arm_timerfd_oneshot_def wp_bind wp_load_entry [OF e]
    by (rule wp_quiet [OF kernel_quiet(4) [OF K]])
      (auto simp: wp_simps Q' e same_def osh split: prod.splits intro!: wp_arm_timerfd [OF K])
  have per: "wp F (ev_arm_timerfd_periodic K p) Q s"
    unfolding ev_arm_timerfd_periodic_def wp_bind wp_load_entry [OF e]
    by (rule wp_arm_timerfd [OF K e]) (simp_all add: Q')
  show ?thesis
    using True one per wp_ev_arm_signal [OF K e, of Q] Q'
    by (auto simp: ev_arm_def wp_simps e needs_fd_def ev_types)
qed

text \<open>What arming makes of an entry when the kernel is in state \<open>k\<close>.\<close>

definition entry_armed :: "'k kview \<Rightarrow> 'k \<Rightarrow> ev_entry \<Rightarrow> ev_entry \<Rightarrow> bool" where
  "entry_armed V k e e' \<longleftrightarrow>
     (if needs_fd e then 0 \<le> e_fd e' \<and> e_fd e' \<notin> opened V k \<and> e' = e\<lparr>flags := EPOLL_ANY, e_fd := e_fd e'\<rparr>
      else e' = e)"

lemma entry_armed_cb: "entry_armed V k e e' \<Longrightarrow> e_cb e' = e_cb e \<and> e_data e' = e_data e \<and> e_type e' = e_type e \<and> e_raw e' = e_raw e"
  by (cases e; cases e') (auto simp: entry_armed_def split: if_splits)

definition opened_by :: "ev_entry \<Rightarrow> ev_entry \<Rightarrow> int set" where
  "opened_by e e' = (if needs_fd e then {e_fd e'} else {})"

lemma wp_ev_add:
  assumes K: "kernel_spec K V" and v: "heap s ev = Some (Ev v)" and e: "heap s p = Some (Entry e)"
    and bad: "\<And>k e'. watched V k = watched V (os s) \<Longrightarrow> e' = e \<and> same V (os s) k \<or>
        entry_armed V (os s) e e' \<and> opened V k = opened V (os s) \<union> opened_by e e' \<Longrightarrow>
        Q (- EINVAL) (s\<lparr>os := k, heap := (heap s)(p \<mapsto> Entry e')\<rparr>)"
    and good: "\<And>k e'. entry_armed V (os s) e e' \<Longrightarrow> opened V k = opened V (os s) \<union> opened_by e e' \<Longrightarrow>
        watched V (os s) (ev_fd v) (e_fd e') = None \<Longrightarrow>
        watched V k = (watched V (os s))(ev_fd v := (watched V (os s) (ev_fd v))(e_fd e' \<mapsto> p)) \<Longrightarrow>
        Q 0 (s\<lparr>os := k, heap := (heap s)(p \<mapsto> Entry e', ev \<mapsto> Ev (v\<lparr>entries := size_add (entries v) 1\<rparr>))\<rparr>)"
  shows "wp F (ev_add K ev p) Q s"
proof -
  have ne: "ev \<noteq> p" using v e by auto
  have upd: "heap s = (heap s)(p \<mapsto> Entry e)" using e by (simp add: map_upd_triv)
  let ?cont = "\<lambda>r. wp F (if r \<noteq> 0 then ret (- EINVAL) else bind (load_entry p) (\<lambda>e. bind (load_ev ev) (\<lambda>v.
          bind (sys (sys_epoll_add K (ev_fd v) (e_fd e) (flags e) p)) (\<lambda>r. if r < 0 then ret (- EINVAL)
          else bind (write_obj ev (Ev (v\<lparr>entries := size_add (entries v) 1\<rparr>))) (\<lambda>_. ret 0))))) Q"
  have reg: "?cont 0 (s\<lparr>os := k, heap := (heap s)(p \<mapsto> Entry e')\<rparr>)"
    if "entry_armed V (os s) e e'" "opened V k = opened V (os s) \<union> opened_by e e'" "watched V k = watched V (os s)" for k e'
    apply (simp add: wp_simps v ne)
    apply (rule wp_epoll_add [OF K])
     apply (use bad that in \<open>simp add: wp_simps same_def\<close>)
    apply (use good that ne v in \<open>simp add: wp_simps del: One_nat_def\<close>)
    done
  show ?thesis unfolding ev_add_def wp_bind
  proof (rule wp_ev_arm [OF K e])
    fix k assume k: "needs_fd e" "same V (os s) k"
    have "Q (- EINVAL) (s\<lparr>os := k, heap := (heap s)(p \<mapsto> Entry e)\<rparr>)" using bad k by (simp add: same_def)
    then show "?cont (- EINVAL) (s\<lparr>os := k\<rparr>)" using upd by (simp add: wp_simps EINVAL_def)
  next
    fix fd k assume "needs_fd e" "0 \<le> fd" "fd \<notin> opened V (os s)" "opened V k = insert fd (opened V (os s))"
      "watched V k = watched V (os s)"
    then show "?cont 0 (armed_state p e fd k s)" unfolding armed_state_def
      by (intro reg) (auto simp: entry_armed_def opened_by_def)
  next
    assume "\<not> needs_fd e"
    then show "?cont 0 s" using reg [of e "os s"] upd by (simp add: entry_armed_def opened_by_def)
  qed
qed

lemma wp_ev_del:
  assumes K: "kernel_spec K V" and v: "heap s ev = Some (Ev v)" and e: "heap s p = Some (Entry e)"
    and bad: "\<And>k. watched V (os s) (ev_fd v) (e_fd e) = None \<Longrightarrow> same V (os s) k \<Longrightarrow> Q (- EINVAL) (s\<lparr>os := k\<rparr>)"
    and good: "\<And>k. watched V (os s) (ev_fd v) (e_fd e) \<noteq> None \<Longrightarrow> opened V k = opened V (os s) \<Longrightarrow>
        watched V k = (watched V (os s))(ev_fd v := (watched V (os s) (ev_fd v))(e_fd e := None)) \<Longrightarrow>
        Q 0 (s\<lparr>os := k, heap := (heap s)(ev \<mapsto> Ev (v\<lparr>entries := size_sub (entries v) 1\<rparr>))\<rparr>)"
  shows "wp F (ev_del K ev p) Q s"
  unfolding ev_del_def wp_bind wp_load_ev [OF v] wp_load_entry [OF e]
  apply (rule wp_epoll_del [OF K])
   apply (simp add: wp_simps bad)
  apply (simp add: wp_simps v good del: One_nat_def)
  done

section \<open>The invariant\<close>

definition ev_inv :: "'k kview \<Rightarrow> nat \<Rightarrow> 'k st \<Rightarrow> bool" where
  "ev_inv V ev s \<longleftrightarrow> (\<exists>v. heap s ev = Some (Ev v) \<and> entries v = card (dom (watched V (os s) (ev_fd v))) \<and>
     (\<forall>fd p. watched V (os s) (ev_fd v) fd = Some p \<longrightarrow>
        (\<exists>e. heap s p = Some (Entry e) \<and> e_fd e = fd \<and> e_cb e \<noteq> None)))"

text \<open>The descriptors a \<open>struct ev\<close> watches, with their entries.\<close>

definition watching :: "'k kview \<Rightarrow> nat \<Rightarrow> 'k st \<Rightarrow> int \<Rightarrow> nat option" where
  "watching V ev s = (case heap s ev of Some (Ev v) \<Rightarrow> watched V (os s) (ev_fd v) | _ \<Rightarrow> (\<lambda>_. None))"

lemma watching_Ev [simp]: "heap s ev = Some (Ev v) \<Longrightarrow> watching V ev s = watched V (os s) (ev_fd v)"
  by (simp add: watching_def)

lemma watched_card:
  assumes "kernel_spec K V"
  shows "finite (dom (watched V k ep))" "card (dom (watched V k ep)) < 2 ^ 31"
proof -
  show "finite (dom (watched V k ep))"
    using kernel_opened(1,4) [OF assms] by (rule finite_subset [rotated])
  show "card (dom (watched V k ep)) < 2 ^ 31"
    using card_mono [OF kernel_opened(1) [OF assms] kernel_opened(4) [OF assms]] kernel_opened(2) [OF assms]
    by (rule le_less_trans)
qed

lemma entries_add:
  assumes "kernel_spec K V" "watched V k ep fd = None"
  shows "size_add (card (dom (watched V k ep))) 1 = card (dom ((watched V k ep)(fd \<mapsto> p)))"
  using watched_card [OF assms(1), of k ep] assms(2)
  by (simp add: size_add_def SIZE_MOD_def domIff)

lemma entries_del:
  assumes "kernel_spec K V" "watched V k ep fd \<noteq> None"
  shows "size_sub (card (dom (watched V k ep))) 1 = card (dom ((watched V k ep)(fd := None)))"
proof -
  have f: "finite (dom (watched V k ep))" "fd \<in> dom (watched V k ep)"
    using watched_card(1) [OF assms(1)] assms(2) by auto
  then have "card (dom (watched V k ep)) \<ge> 1" by (metis card_gt_0_iff Suc_leI One_nat_def empty_iff)
  then show ?thesis
    using size_sub_id [of 1 "card (dom (watched V k ep))"] watched_card(2) [OF assms(1), of k ep] f
    by (simp add: SIZE_MOD_def)
qed

lemma ev_inv_os: "watched V k = watched V (os s) \<Longrightarrow> ev_inv V ev (s\<lparr>os := k\<rparr>) = ev_inv V ev s"
  by (simp add: ev_inv_def)

lemma ev_inv_del:
  assumes K: "kernel_spec K V" and inv: "ev_inv V ev s" and v: "heap s ev = Some (Ev v)"
    and w: "watched V (os s) (ev_fd v) fd \<noteq> None"
      "watched V k = (watched V (os s))(ev_fd v := (watched V (os s) (ev_fd v))(fd := None))"
  shows "ev_inv V ev (s\<lparr>os := k, heap := (heap s)(ev \<mapsto> Ev (v\<lparr>entries := size_sub (entries v) 1\<rparr>))\<rparr>)"
proof -
  have inv': "entries v = card (dom (watched V (os s) (ev_fd v)))"
    "\<And>fd p. watched V (os s) (ev_fd v) fd = Some p \<Longrightarrow>
      \<exists>e. heap s p = Some (Entry e) \<and> e_fd e = fd \<and> e_cb e \<noteq> None"
    using inv v by (auto simp: ev_inv_def)
  have "size_sub (entries v) 1 = card (dom ((watched V (os s) (ev_fd v))(fd := None)))"
    using entries_del [OF K w(1)] inv'(1) by simp
  then show ?thesis using inv'(2) v w(2) by (fastforce simp: ev_inv_def simp del: One_nat_def)
qed

lemma ev_inv_add:
  assumes K: "kernel_spec K V" and inv: "ev_inv V ev s" and v: "heap s ev = Some (Ev v)"
    and p: "heap s p = Some (Entry e)" "p \<notin> ran (watched V (os s) (ev_fd v))" "e_cb e' \<noteq> None"
    and w: "watched V (os s) (ev_fd v) (e_fd e') = None"
      "watched V k = (watched V (os s))(ev_fd v := (watched V (os s) (ev_fd v))(e_fd e' \<mapsto> p))"
  shows "ev_inv V ev (s\<lparr>os := k, heap := (heap s)(p \<mapsto> Entry e', ev \<mapsto> Ev (v\<lparr>entries := size_add (entries v) 1\<rparr>))\<rparr>)"
proof -
  have inv': "entries v = card (dom (watched V (os s) (ev_fd v)))"
    "\<And>fd q. watched V (os s) (ev_fd v) fd = Some q \<Longrightarrow>
      q \<noteq> p \<and> q \<noteq> ev \<and> (\<exists>e. heap s q = Some (Entry e) \<and> e_fd e = fd \<and> e_cb e \<noteq> None)"
    using inv v p(2) by (fastforce simp: ev_inv_def ran_def)+
  have ne: "ev \<noteq> p" using v p(1) by auto
  have "size_add (entries v) 1 = card (dom ((watched V (os s) (ev_fd v))(e_fd e' \<mapsto> p)))"
    using entries_add [OF K w(1)] inv'(1) by simp
  then show ?thesis using inv'(2) v w(2) p(3) ne by (auto simp: ev_inv_def simp del: One_nat_def)
qed

lemma ev_inv_unwatched:
  assumes "ev_inv V ev s" "heap s ev = Some (Ev v)" "heap s p = Some (Entry e)"
    "p \<notin> ran (watched V (os s) (ev_fd v))" "watched V k = watched V (os s)"
  shows "ev_inv V ev (s\<lparr>os := k, heap := (heap s)(p \<mapsto> Entry e')\<rparr>)"
  using assms by (fastforce simp: ev_inv_def ran_def)

text \<open>Deleting an entry: 0 and one descriptor fewer when it was watched, an error and no change otherwise.\<close>

definition del_post :: "'k kview \<Rightarrow> nat \<Rightarrow> int \<Rightarrow> 'k st \<Rightarrow> int \<Rightarrow> 'k st \<Rightarrow> bool" where
  "del_post V ev fd s r s' \<longleftrightarrow> ev_inv V ev s' \<and> (\<forall>q. q \<noteq> ev \<longrightarrow> heap s' q = heap s q) \<and>
     opened V (os s') = opened V (os s) \<and>
     (if watching V ev s fd = None then r = - EINVAL \<and> watching V ev s' = watching V ev s
      else r = 0 \<and> watching V ev s' = (watching V ev s)(fd := None))"

lemma wp_ev_del_inv:
  assumes K: "kernel_spec K V" and inv: "ev_inv V ev s" and e: "heap s p = Some (Entry e)"
  shows "wp F (ev_del K ev p) (del_post V ev (e_fd e) s) s"
proof -
  obtain v where v: "heap s ev = Some (Ev v)" using inv by (auto simp: ev_inv_def)
  show ?thesis
  proof (rule wp_ev_del [OF K v e])
    fix k assume k: "watched V (os s) (ev_fd v) (e_fd e) \<noteq> None" "opened V k = opened V (os s)"
      "watched V k = (watched V (os s))(ev_fd v := (watched V (os s) (ev_fd v))(e_fd e := None))"
    from ev_inv_del [OF K inv v k(1,3)] show "del_post V ev (e_fd e) s 0
        (s\<lparr>os := k, heap := (heap s)(ev \<mapsto> Ev (v\<lparr>entries := size_sub (entries v) 1\<rparr>))\<rparr>)"
      using v k by (auto simp: watching_def del_post_def simp del: One_nat_def)
  qed (use inv v in \<open>simp add: same_def ev_inv_os watching_def del_post_def\<close>)
qed

text \<open>What \<open>ev_add\<close> guarantees: \<open>s\<close> before, \<open>s'\<close> after, \<open>r\<close> the result.\<close>

definition add_post :: "'k kview \<Rightarrow> nat \<Rightarrow> nat \<Rightarrow> 'k st \<Rightarrow> int \<Rightarrow> 'k st \<Rightarrow> bool" where
  "add_post V ev p s r s' \<longleftrightarrow> ev_inv V ev s' \<and> (\<exists>e'. heap s' p = Some (Entry e') \<and>
     opened V (os s') \<subseteq> opened V (os s) \<union> {e_fd e'} \<and>
     (if r = 0 then watching V ev s (e_fd e') = None \<and> watching V ev s' = (watching V ev s)(e_fd e' \<mapsto> p)
      else r = - EINVAL \<and> watching V ev s' = watching V ev s))"

lemma wp_ev_add_inv:
  assumes K: "kernel_spec K V" and inv: "ev_inv V ev s"
    and e: "heap s p = Some (Entry e)" "e_cb e \<noteq> None" "p \<notin> ran (watching V ev s)"
  shows "wp (\<lambda>_. False) (ev_add K ev p) (add_post V ev p s) s"
proof -
  obtain v where v: "heap s ev = Some (Ev v)" using inv by (auto simp: ev_inv_def)
  have p: "p \<notin> ran (watched V (os s) (ev_fd v))" using e(3) v by simp
  have ne: "ev \<noteq> p" using v e(1) by auto
  show ?thesis
  proof (rule wp_ev_add [OF K v e(1)])
    fix k e' assume k: "watched V k = watched V (os s)" "e' = e \<and> same V (os s) k \<or>
        entry_armed V (os s) e e' \<and> opened V k = opened V (os s) \<union> opened_by e e'"
    then show "add_post V ev p s (- EINVAL) (s\<lparr>os := k, heap := (heap s)(p \<mapsto> Entry e')\<rparr>)"
      using ev_inv_unwatched [OF inv v e(1) p k(1)] v ne
      by (auto simp: add_post_def EINVAL_def same_def opened_by_def watching_def split: if_splits)
  next
    fix k e' assume k: "entry_armed V (os s) e e'" "opened V k = opened V (os s) \<union> opened_by e e'"
        "watched V (os s) (ev_fd v) (e_fd e') = None"
        "watched V k = (watched V (os s))(ev_fd v := (watched V (os s) (ev_fd v))(e_fd e' \<mapsto> p))"
    have "e_cb e' \<noteq> None" using entry_armed_cb [OF k(1)] e(2) by simp
    from ev_inv_add [OF K inv v e(1) p this k(3,4)] show "add_post V ev p s 0
        (s\<lparr>os := k, heap := (heap s)(p \<mapsto> Entry e', ev \<mapsto> Ev (v\<lparr>entries := size_add (entries v) 1\<rparr>))\<rparr>)"
      using v k ne by (auto simp: add_post_def opened_by_def watching_def simp del: One_nat_def split: if_splits)
  qed
qed


end
