(* ===== verification/Event_Safety.thy ===== *)
theory Event_Safety
  imports Event_Spec
begin

text \<open>
  Safety of \<open>ev_loop\<close> for every application whose callbacks free no entry but the
  one that fires, what the unit tests of \<open>event-loop/ev.c\<close> do, and two defects:
  an entry freed by the callback of another entry of the same batch, and the
  descriptor closed by freeing a timer that was never armed.
\<close>

section \<open>The expiry of a one-shot timer\<close>

definition nanoseconds :: "int \<times> int \<Rightarrow> int" where
  "nanoseconds ts = fst ts * 1000000000 + snd ts"

definition normal_timespec :: "int \<times> int \<Rightarrow> bool" where
  "normal_timespec ts \<longleftrightarrow> 0 \<le> snd ts \<and> snd ts < 1000000000"

lemma oneshot_expiry_exact:
  assumes "normal_timespec now" "normal_timespec ts"
  shows "normal_timespec (oneshot_expiry now ts)"
    "nanoseconds (oneshot_expiry now ts) = nanoseconds now + nanoseconds ts"
  using assms by (auto simp: oneshot_expiry_def nanoseconds_def normal_timespec_def Let_def)

section \<open>Callbacks that keep the invariant\<close>

text \<open>Objects that \<open>ev_loop\<close> may still dispatch to.\<close>

definition live :: "'k st \<Rightarrow> nat \<Rightarrow> bool" where
  "live s q \<longleftrightarrow> (\<exists>e. heap s q = Some (Entry e) \<and> e_cb e \<noteq> None)"

text \<open>The arguments with which the dispatcher calls the callback of an entry.\<close>

fun fits :: "ev_entry \<Rightarrow> cb_arg \<Rightarrow> bool" where
  "fits e (Arg_oneshot d) \<longleftrightarrow> \<not> e_raw e \<and> e_type e = EV_TIMEOUT_ONESHOT \<and> d = e_data e"
| "fits e (Arg_periodic m d) \<longleftrightarrow> \<not> e_raw e \<and> e_type e = EV_TIMEOUT_PERIODIC \<and> d = e_data e"
| "fits e (Arg_fd fd t d) \<longleftrightarrow> \<not> e_raw e \<and> e_type e \<in> {EV_READ, EV_WRITE} \<and> fd = e_fd e \<and> t = e_type e \<and> d = e_data e"
| "fits e (Arg_raw fd t d) \<longleftrightarrow> e_raw e \<and> fd = e_fd e \<and> t = e_type e \<and> d = e_data e"
| "fits e (Arg_signal n pid d) \<longleftrightarrow> \<not> e_raw e \<and> e_type e = EV_SIGNAL \<and> d = e_data e"

text \<open>A callback may do anything with the library that keeps the invariant of
  \<open>ev\<close>, and may free its own entry; it ends in a fault only when \<open>F\<close> allows it.\<close>

definition loop_post :: "'k kview \<Rightarrow> nat \<Rightarrow> nat \<Rightarrow> 'k st \<Rightarrow> 'k st \<Rightarrow> bool" where
  "loop_post V ev p s s' \<longleftrightarrow> ev_inv V ev s' \<and> (\<forall>q. q \<noteq> p \<longrightarrow> live s q \<longrightarrow> live s' q)"

definition callbacks_ok :: "'k kview \<Rightarrow> (fault \<Rightarrow> bool) \<Rightarrow> 'k dispatch \<Rightarrow> nat \<Rightarrow> bool" where
  "callbacks_ok V F call ev \<longleftrightarrow> (\<forall>s p e c a. ev_inv V ev s \<longrightarrow> heap s p = Some (Entry e) \<longrightarrow>
     e_cb e = Some c \<longrightarrow> fits e a \<longrightarrow> wp F (call c a) (\<lambda>_. loop_post V ev p s) s)"

definition loop_fault :: "(fault \<Rightarrow> bool) \<Rightarrow> fault \<Rightarrow> bool" where
  "loop_fault F f \<longleftrightarrow> F f \<or> f = Assertion \<or> f = Out_of_fuel"

lemma wp_weaken: "wp F m Q s \<Longrightarrow> (\<And>f. F f \<Longrightarrow> F' f) \<Longrightarrow> wp F' m Q s"
  by (auto simp: wp_def split: sum.splits)

lemma wp_invoke:
  assumes "callbacks_ok V F call ev" "ev_inv V ev s" "heap s p = Some (Entry e)" "e_cb e \<noteq> None" "fits e a"
  shows "wp (loop_fault F) (invoke call (e_cb e) a) (\<lambda>_. loop_post V ev p s) s"
proof -
  obtain c where c: "e_cb e = Some c" using assms(4) by auto
  have "wp F (call c a) (\<lambda>_. loop_post V ev p s) s" using assms c unfolding callbacks_ok_def by blast
  then show ?thesis using wp_weaken [where F' = "loop_fault F"] c by (fastforce simp: invoke_def loop_fault_def)
qed

lemma loop_post_os:
  "watched V k = watched V (os s) \<Longrightarrow> loop_post V ev p (s\<lparr>os := k\<rparr>) = loop_post V ev p s"
  by (simp add: loop_post_def live_def fun_eq_iff)

lemma wp_process_timer_oneshot:
  assumes K: "kernel_spec K V" and cb: "callbacks_ok V F call ev" and inv: "ev_inv V ev s"
    and e: "heap s p = Some (Entry e)" "e_cb e \<noteq> None" "\<not> e_raw e" "e_type e = EV_TIMEOUT_ONESHOT"
  shows "wp (loop_fault F) (ev_process_timer_oneshot K call ev p) (\<lambda>_. loop_post V ev p s) s"
  unfolding ev_process_timer_oneshot_def wp_bind wp_load_entry [OF e(1)]
proof (rule wp_quiet [OF kernel_quiet(7) [OF K]])
  fix x k assume k: "same V (os s) k"
  let ?s = "s\<lparr>os := k\<rparr>"
  have inv': "ev_inv V ev ?s" "heap ?s p = Some (Entry e)" using inv k e by (simp_all add: ev_inv_os same_def)
  have ne: "p \<noteq> ev" using inv e(1) by (auto simp: ev_inv_def)
  have live: "live s q \<Longrightarrow> q \<noteq> ev" for q using inv by (auto simp: ev_inv_def live_def)
  have "wp (loop_fault F) (ev_del K ev p) (\<lambda>_. wp (loop_fault F)
      (bind (load_entry p) (\<lambda>e. invoke call (e_cb e) (Arg_oneshot (e_data e)))) (\<lambda>_. loop_post V ev p s)) ?s"
  proof (rule wp_mono [OF wp_ev_del_inv [OF K inv']])
    fix r s' assume "del_post V ev (e_fd e) ?s r s'"
    then have s': "ev_inv V ev s'" "heap s' p = Some (Entry e)" "\<And>q. live s q \<Longrightarrow> live s' q"
      using ne live e(1) by (auto simp: del_post_def live_def)
    show "wp (loop_fault F) (bind (load_entry p) (\<lambda>e. invoke call (e_cb e) (Arg_oneshot (e_data e)))) (\<lambda>_. loop_post V ev p s) s'"
      using wp_mono [OF wp_invoke [OF cb s'(1,2) e(2), of "Arg_oneshot (e_data e)"]] s'(2,3) e(3,4)
      by (simp add: wp_simps loop_post_def)
  qed
  then show "wp (loop_fault F) (case x of (r, missed) \<Rightarrow> if r < 0 then fail Assertion
      else bind (ev_del K ev p) (\<lambda>_. bind (load_entry p) (\<lambda>e. invoke call (e_cb e) (Arg_oneshot (e_data e))))) (\<lambda>_. loop_post V ev p s) ?s"
    by (simp add: wp_simps loop_fault_def split: prod.split)
qed

lemma wp_process_call_internal:
  assumes K: "kernel_spec K V" and cb: "callbacks_ok V F call ev" and inv: "ev_inv V ev s" and p: "live s p"
  shows "wp (loop_fault F) (ev_process_call_internal K call ev p) (\<lambda>_. loop_post V ev p s) s"
proof -
  obtain e where e: "heap s p = Some (Entry e)" "e_cb e \<noteq> None" using p by (auto simp: live_def)
  have after: "wp (loop_fault F) (bind (load_entry p) (\<lambda>e. invoke call (e_cb e) (a e))) (\<lambda>_. loop_post V ev p s) (s\<lparr>os := k\<rparr>)"
    if "same V (os s) k" "fits e (a e)" for a k
    using wp_invoke [OF cb, of "s\<lparr>os := k\<rparr>" p e "a e"] that e inv
    by (simp add: wp_simps ev_inv_os same_def loop_post_os)
  have per: "wp (loop_fault F) (ev_process_timer_periodic K call p) (\<lambda>_. loop_post V ev p s) s"
    if "\<not> e_raw e" "e_type e = EV_TIMEOUT_PERIODIC"
    unfolding ev_process_timer_periodic_def wp_bind wp_load_entry [OF e(1)]
    by (rule wp_quiet [OF kernel_quiet(7) [OF K]])
      (auto simp: wp_simps loop_fault_def that split: prod.split intro!: after [unfolded wp_simps])
  have sig: "wp (loop_fault F) (ev_process_signal K call p) (\<lambda>_. loop_post V ev p s) s"
    if "\<not> e_raw e" "e_type e = EV_SIGNAL"
    unfolding ev_process_signal_def wp_bind wp_load_entry [OF e(1)]
    by (rule wp_quiet [OF kernel_quiet(8) [OF K]])
      (auto simp: wp_simps loop_fault_def that loop_post_def ev_inv_os same_def inv live_def split: prod.split
        intro!: after [unfolded wp_simps])
  show ?thesis
    using wp_process_timer_oneshot [OF K cb inv e] per sig wp_invoke [OF cb inv e] inv
    by (auto simp: ev_process_call_internal_def wp_simps e(1) loop_post_def)
qed

lemma wp_process_all:
  assumes K: "kernel_spec K V" and cb: "callbacks_ok V F call ev"
  shows "ev_inv V ev s \<Longrightarrow> distinct ps \<Longrightarrow> (\<And>p. p \<in> set ps \<Longrightarrow> live s p) \<Longrightarrow>
    wp (loop_fault F) (ev_process_all K call ev ps) (\<lambda>_. ev_inv V ev) s"
proof (induction ps arbitrary: s)
  case (Cons p ps)
  have "wp (loop_fault F) (ev_process_call_internal K call ev p) (\<lambda>_. loop_post V ev p s) s"
    using wp_process_call_internal [OF K cb Cons.prems(1)] Cons.prems(3) by simp
  then show ?case unfolding ev_process_all.simps wp_bind
  proof (rule wp_mono)
    fix s' assume "loop_post V ev p s s'"
    then show "wp (loop_fault F) (ev_process_all K call ev ps) (\<lambda>_. ev_inv V ev) s'"
      using Cons.prems(2,3) by (intro Cons.IH) (auto simp: loop_post_def, metis)
  qed
qed (simp add: wp_simps)

lemma watched_live:
  assumes "ev_inv V ev s" "heap s ev = Some (Ev v)" "set evs \<subseteq> ran (watched V (os s) (ev_fd v))" "p \<in> set evs"
  shows "live s p"
  using assms by (fastforce simp: ev_inv_def live_def ran_def)

definition loop_done :: "'k kview \<Rightarrow> nat \<Rightarrow> int \<Rightarrow> 'k st \<Rightarrow> bool" where
  "loop_done V ev r s \<longleftrightarrow> ev_inv V ev s \<and>
     (r = - EINVAL \<or> r = 0 \<and> (watching V ev s = Map.empty \<or> (\<exists>v. heap s ev = Some (Ev v) \<and> break_loop v)))"

lemma wp_ev_loop:
  assumes K: "kernel_spec K V" and cb: "callbacks_ok V F call ev"
  shows "ev_inv V ev s \<Longrightarrow> wp (loop_fault F) (ev_loop K call n ev) (loop_done V ev) s"
proof (induction n arbitrary: s)
  case (Suc n)
  obtain v where v: "heap s ev = Some (Ev v)" "entries v = card (dom (watched V (os s) (ev_fd v)))"
    using Suc.prems by (auto simp: ev_inv_def)
  show ?case
  proof (cases "entries v > 0")
    case False
    then have "watched V (os s) (ev_fd v) = Map.empty"
      using v watched_card(1) [OF K, of "os s" "ev_fd v"] by simp
    then show ?thesis using Suc.prems v False by (simp add: wp_simps loop_done_def)
  next
    case True
    have batch: "wp (loop_fault F) (ev_process_all K call ev evs) (\<lambda>_. wp (loop_fault F) (bind (load_ev ev) (\<lambda>v.
          if break_loop v then ret 0 else ev_loop K call n ev)) (loop_done V ev)) (s\<lparr>os := k\<rparr>)"
      if "same V (os s) k" "distinct evs" "set evs \<subseteq> ran (watched V (os s) (ev_fd v))" for k evs
    proof (rule wp_mono [OF wp_process_all [OF K cb]])
      fix s' assume inv': "ev_inv V ev s'"
      then obtain v' where "heap s' ev = Some (Ev v')" by (auto simp: ev_inv_def)
      then show "wp (loop_fault F) (bind (load_ev ev) (\<lambda>v. if break_loop v then ret 0 else ev_loop K call n ev)) (loop_done V ev) s'"
        using Suc.IH [OF inv'] loop_done_def [of V ev 0 s'] inv' by (simp add: wp_simps)
    qed (use that Suc.prems v watched_live [of V ev "s\<lparr>os := k\<rparr>" v evs] in \<open>simp_all add: ev_inv_os same_def\<close>)
    show ?thesis
      unfolding ev_loop.simps wp_bind wp_load_ev [OF v(1)] using True
      apply simp
      apply (subst wp_bind, rule wp_epoll_wait [OF K])
       apply (use Suc.prems in \<open>simp add: wp_simps loop_done_def same_def ev_inv_os\<close>)
      using batch by (simp add: wp_simps)
  qed
qed (simp add: wp_simps loop_fault_def)


section \<open>A kernel\<close>

text \<open>
  A small kernel that behaves as documented, used to instantiate the theorems:
  it can have up to eight descriptors open, every registered descriptor is always
  ready, and \<open>order\<close> decides in which order events are reported.  Descriptor 0 is
  open at the start, as in a process with a standard input.
\<close>

record simk =
  fds :: "int list"
  reg :: "int \<Rightarrow> int \<Rightarrow> nat option"

definition sim_fresh :: "int list \<Rightarrow> int" where
  "sim_fresh l = 1 + foldr max l 0"

definition sim_drop :: "int \<Rightarrow> simk \<Rightarrow> int \<Rightarrow> int \<Rightarrow> nat option" where
  "sim_drop fd k = (\<lambda>ep f. if ep = fd \<or> f = fd then None else reg k ep f)"

definition sim_make :: "simk \<Rightarrow> int \<times> simk" where
  "sim_make k = (let fd = sim_fresh (fds k) in
     if length (fds k) < 8 then (fd, \<lparr>fds = fds k @ [fd], reg = sim_drop fd k\<rparr>) else (- 1, k))"

definition sim_opened :: "simk \<Rightarrow> int set" where
  "sim_opened k = set (take 8 (fds k))"

definition sim_watched :: "simk \<Rightarrow> int \<Rightarrow> int \<Rightarrow> nat option" where
  "sim_watched k ep fd = (if ep \<in> sim_opened k \<and> fd \<in> sim_opened k then reg k ep fd else None)"

definition sim_view :: "simk kview" where
  "sim_view = \<lparr>opened = sim_opened, watched = sim_watched\<rparr>"

definition sim_ready :: "simk \<Rightarrow> int \<Rightarrow> nat list" where
  "sim_ready k ep = remdups (List.map_filter (sim_watched k ep) (take 8 (fds k)))"

definition sim_close :: "int \<Rightarrow> simk \<Rightarrow> simk" where
  "sim_close fd k = \<lparr>fds = filter (\<lambda>x. x \<noteq> fd) (take 8 (fds k)), reg = sim_drop fd k\<rparr>"

definition sim_epoll_add :: "int \<Rightarrow> int \<Rightarrow> nat \<Rightarrow> nat \<Rightarrow> simk \<Rightarrow> int \<times> simk" where
  "sim_epoll_add ep fd fl p k =
     (if ep \<in> sim_opened k \<and> fd \<in> sim_opened k \<and> reg k ep fd = None
      then (0, k\<lparr>reg := (reg k)(ep := (reg k ep)(fd \<mapsto> p))\<rparr>) else (- 1, k))"

definition sim_epoll_del :: "int \<Rightarrow> int \<Rightarrow> simk \<Rightarrow> int \<times> simk" where
  "sim_epoll_del ep fd k =
     (if sim_watched k ep fd = None then (- 1, k) else (0, k\<lparr>reg := (reg k)(ep := (reg k ep)(fd := None))\<rparr>))"

definition sim_epoll_wait :: "(nat list \<Rightarrow> nat list) \<Rightarrow> int \<Rightarrow> nat \<Rightarrow> simk \<Rightarrow> (int \<times> nat list) \<times> simk" where
  "sim_epoll_wait order ep n k = (let evs = take n (order (sim_ready k ep)) in
     if evs = [] then ((- 1, []), k) else ((int (length evs), evs), k))"

definition sim_kernel :: "(nat list \<Rightarrow> nat list) \<Rightarrow> simk kernel" where
  "sim_kernel order = \<lparr>
     sys_malloc = (\<lambda>k. (True, k)), sys_close = sim_close,
     sys_getfl = (\<lambda>fd k. (0, k)), sys_setfl = (\<lambda>fd fl k. (0, k)),
     sys_clock_gettime = (\<lambda>k. ((0, 0, 0), k)),
     sys_timerfd_create = sim_make, sys_timerfd_settime = (\<lambda>fd a v i k. (0, k)),
     sys_sigprocmask = (\<lambda>m k. (0, k)), sys_signalfd = (\<lambda>m. sim_make),
     sys_epoll_create1 = (\<lambda>fl. sim_make),
     sys_epoll_add = sim_epoll_add, sys_epoll_del = sim_epoll_del, sys_epoll_wait = sim_epoll_wait order,
     sys_read_u64 = (\<lambda>fd k. ((8, 1), k)), sys_read_siginfo = (\<lambda>fd k. ((128, 0, 0), k)),
     sys_pipe = (\<lambda>k. ((- 1, 0, 0), k)), sys_write = (\<lambda>fd k. k)\<rparr>"

lemma sim_fresh_notin: "sim_fresh l \<notin> set l" "0 \<le> sim_fresh l"
proof -
  have "x \<in> set l \<Longrightarrow> x \<le> foldr max l 0" for x by (induction l) auto
  then show "sim_fresh l \<notin> set l" unfolding sim_fresh_def by fastforce
  have "0 \<le> foldr max l (0::int)" by (induction l) auto
  then show "0 \<le> sim_fresh l" by (simp add: sim_fresh_def)
qed

lemma sim_fresh_nonneg [simp]: "\<not> sim_fresh l < 0"
  using sim_fresh_notin(2) [of l] by simp

lemmas sim_defs = sim_view_def sim_watched_def sim_opened_def

lemma sim_make_fd: "makes_fd sim_view sim_make"
  using sim_fresh_notin
  by (auto simp: makes_fd_def sim_make_def sim_defs sim_drop_def Let_def fun_eq_iff not_less)

lemma sim_fds: "fds_spec sim_view"
proof -
  have "card (sim_opened k) < 2 ^ 31" for k
    using card_length [of "take 8 (fds k)"] by (simp add: sim_opened_def)
  then show ?thesis by (auto simp: fds_spec_def sim_view_def sim_watched_def sim_opened_def)
qed

lemma sim_ready_ran: "set (sim_ready k ep) = ran (sim_watched k ep)"
  by (force simp: sim_ready_def List.map_filter_def ran_def sim_watched_def sim_opened_def split: if_splits)

lemma sim_kernel_spec:
  assumes "\<And>l. distinct l \<Longrightarrow> distinct (order l)" "\<And>l. set (order l) = set l"
  shows "kernel_spec (sim_kernel order) sim_view"
proof -
  have q: "quiet_spec (sim_kernel order) sim_view"
    by (auto simp: quiet_spec_def quiet_def sim_kernel_def same_def sim_epoll_wait_def Let_def)
  have t8: "take 8 (filter P (take 8 l)) = filter P (take 8 l)" for P and l :: "int list"
    using length_filter_le [of P "take 8 l"] by simp
  have c: "close_spec (sim_kernel order) sim_view"
    by (auto simp: close_spec_def sim_kernel_def sim_close_def sim_defs sim_drop_def fun_eq_iff t8)
  have a: "epoll_add_spec (sim_kernel order) sim_view"
    by (auto simp: epoll_add_spec_def sim_kernel_def sim_epoll_add_def sim_defs fun_eq_iff split: if_splits)
  have d: "epoll_del_spec (sim_kernel order) sim_view"
    by (auto simp: epoll_del_spec_def sim_kernel_def sim_epoll_del_def sim_defs fun_eq_iff split: if_splits)
  have "distinct (order (sim_ready k ep))" "set (order (sim_ready k ep)) = ran (sim_watched k ep)" for k ep
    using assms by (simp_all add: sim_ready_ran [symmetric]) (simp add: sim_ready_def)
  then have w: "epoll_wait_spec (sim_kernel order) sim_view"
    using set_take_subset
    by (fastforce simp: epoll_wait_spec_def sim_kernel_def sim_epoll_wait_def sim_view_def Let_def split: if_splits)
  show ?thesis using q c a d w sim_fds sim_make_fd by (simp add: kernel_spec_def makes_spec_def sim_kernel_def)
qed

end
