(* ===== verification/Event_Progs.thy ===== *)
theory Event_Progs
  imports Event_Safety
begin

text \<open>
  The two timer test programs of \<open>event-loop/ev.c\<close>, run from any state: they
  return, free everything they allocated and close every descriptor they opened.
\<close>

section \<open>Constructors and destructors\<close>

text \<open>Addresses from \<open>fresh\<close> on are unused, and none of them is NULL.\<close>

definition heap_ok :: "'k st \<Rightarrow> bool" where
  "heap_ok s \<longleftrightarrow> 0 < fresh s \<and> (\<forall>q. fresh s \<le> q \<longrightarrow> heap s q = None)"

lemma heap_ok_fresh [simp]: "heap_ok s \<Longrightarrow> heap s (fresh s) = None"
  by (simp add: heap_ok_def)

lemma wp_ev_new:
  assumes K: "kernel_spec K V" and ok: "heap_ok s"
    and bad: "\<And>s'. heap s' = heap s \<Longrightarrow> same V (os s) (os s') \<Longrightarrow> Q 0 s'"
    and good: "\<And>s' fd. fd \<notin> opened V (os s) \<Longrightarrow> opened V (os s') = insert fd (opened V (os s)) \<Longrightarrow>
        watched V (os s') = watched V (os s) \<Longrightarrow> fresh s' = fresh s + 1 \<Longrightarrow>
        heap s' = (heap s)(fresh s \<mapsto> Ev \<lparr>ev_fd = fd, break_loop = False, entries = 0\<rparr>) \<Longrightarrow> Q (fresh s) s'"
  shows "wp F (ev_new K 0) Q s"
proof -
  have p: "0 < fresh s" "heap s (fresh s) = None" using ok by (simp_all add: heap_ok_def)
  show ?thesis
    unfolding ev_new_def ev_new_flags_convert_def struct_ev_new_internal_def
    apply (simp add: wp_simps)
    apply (rule wp_malloc [OF K])
     apply (simp add: wp_simps bad)
    apply (use p(1) in \<open>simp add: wp_simps\<close>)
    apply (rule wp_makes_fd [OF kernel_makes_fd(3) [OF K]])
     apply (simp add: wp_simps p same_def bad fun_upd_idem)
    apply (simp add: wp_simps p same_def good)
    done
qed

lemma wp_entry_new:
  assumes K: "kernel_spec K V" and ok: "heap_ok s"
    and bad: "\<And>s'. heap s' = heap s \<Longrightarrow> same V (os s) (os s') \<Longrightarrow> Q 0 s'"
    and good: "\<And>s'. same V (os s) (os s') \<Longrightarrow> fresh s' = fresh s + 1 \<Longrightarrow>
        heap s' = (heap s)(fresh s \<mapsto> Entry entry_zero) \<Longrightarrow> Q (fresh s) s'"
  shows "wp F (ev_entry_new_epoll_internal K) Q s"
proof -
  have p: "0 < fresh s" "heap s (fresh s) = None" using ok by (simp_all add: heap_ok_def)
  show ?thesis
    unfolding ev_entry_new_epoll_internal_def wp_bind
    apply (rule wp_malloc [OF K])
     apply (simp add: wp_simps bad)
    apply (use p(1) in \<open>simp add: wp_simps\<close>)
    apply (rule wp_quiet [OF kernel_quiet(1) [OF K]])
    apply (simp add: wp_simps p same_def good bad fun_upd_idem)
    done
qed

text \<open>The entry that \<open>ev_timer_oneshot_new\<close> and \<open>ev_timer_periodic_new\<close> build.\<close>

definition timer_entry :: "nat \<Rightarrow> int \<times> int \<Rightarrow> callback \<Rightarrow> nat \<Rightarrow> ev_entry" where
  "timer_entry ty ts cb data = entry_zero\<lparr>e_type := ty, e_data := data, e_cb := Some cb, e_raw := False,
     tv_sec := fst ts, tv_nsec := snd ts\<rparr>"

lemma wp_timer_new:
  assumes K: "kernel_spec K V" and ok: "heap_ok s"
    and bad: "\<And>s'. heap s' = heap s \<Longrightarrow> same V (os s) (os s') \<Longrightarrow> Q 0 s'"
    and good: "\<And>s'. same V (os s) (os s') \<Longrightarrow> fresh s' = fresh s + 1 \<Longrightarrow>
        heap s' = (heap s)(fresh s \<mapsto> Entry (timer_entry ty ts cb data)) \<Longrightarrow> Q (fresh s) s'"
  shows "ty = EV_TIMEOUT_ONESHOT \<Longrightarrow> wp F (ev_timer_oneshot_new K ts cb data) Q s"
    "ty = EV_TIMEOUT_PERIODIC \<Longrightarrow> wp F (ev_timer_periodic_new K ts cb data) Q s"
proof -
  have p: "fresh s \<noteq> 0" using ok by (simp add: heap_ok_def)
  show "ty = EV_TIMEOUT_ONESHOT \<Longrightarrow> wp F (ev_timer_oneshot_new K ts cb data) Q s"
    unfolding ev_timer_oneshot_new_def wp_bind
    by (rule wp_entry_new [OF K ok]) (simp_all add: wp_simps bad good p timer_entry_def)
  show "ty = EV_TIMEOUT_PERIODIC \<Longrightarrow> wp F (ev_timer_periodic_new K ts cb data) Q s"
    unfolding ev_timer_periodic_new_def wp_bind
    by (rule wp_entry_new [OF K ok]) (simp_all add: wp_simps bad good p timer_entry_def)
qed

definition is_timer :: "ev_entry \<Rightarrow> bool" where
  "is_timer e \<longleftrightarrow> \<not> e_raw e \<and> (e_type e = EV_TIMEOUT_ONESHOT \<or> e_type e = EV_TIMEOUT_PERIODIC)"

lemma wp_timer_free:
  assumes K: "kernel_spec K V" and e: "heap s p = Some (Entry e)" "is_timer e"
    and Q: "\<And>s'. heap s' = (heap s)(p := None) \<Longrightarrow> fresh s' = fresh s \<Longrightarrow>
        opened V (os s') = opened V (os s) - {e_fd e} \<Longrightarrow>
        watched V (os s') = (\<lambda>ep f. if ep = e_fd e \<or> f = e_fd e then None else watched V (os s) ep f) \<Longrightarrow> Q () s'"
  shows "wp F (ev_entry_free K p) Q s"
  using e(2) unfolding ev_entry_free_def ev_entry_timer_free_def is_timer_def
  apply (simp add: wp_simps e(1))
  apply (rule wp_close_fd [OF K])
  apply (simp add: wp_simps e(1) Q)
  done

lemma wp_ev_destroy:
  assumes K: "kernel_spec K V" and v: "heap s p = Some (Ev v)"
    and Q: "\<And>s'. heap s' = (heap s)(p := None) \<Longrightarrow> opened V (os s') = opened V (os s) - {ev_fd v} \<Longrightarrow> Q () s'"
  shows "wp F (ev_destroy K p) Q s"
  unfolding ev_destroy_def
  apply (simp add: wp_simps v)
  apply (rule wp_close_fd [OF K])
  apply (simp add: wp_simps v Q)
  done

section \<open>A loop with one timer\<close>

text \<open>The kernel's calls on ready descriptors succeed: \<open>epoll_wait\<close> without a
  timeout returns an event when something is watched, and a timer can be read.\<close>

definition kernel_live :: "'k kernel \<Rightarrow> 'k kview \<Rightarrow> bool" where
  "kernel_live K V \<longleftrightarrow>
     (\<forall>ep n k. 0 < n \<longrightarrow> watched V k ep \<noteq> Map.empty \<longrightarrow> 0 \<le> fst (fst (sys_epoll_wait K ep n k))) \<and>
     (\<forall>fd k. 0 \<le> fst (fst (sys_read_u64 K fd k)))"

lemma wp_wait_single:
  assumes K: "kernel_spec K V" and L: "kernel_live K V" and w: "watched V (os s) ep = [fd \<mapsto> p]"
    and Q: "\<And>k. same V (os s) k \<Longrightarrow> Q (1, [p]) (s\<lparr>os := k\<rparr>)"
  shows "wp F (sys (sys_epoll_wait K ep EVE_EPOLL_ARRAY_SIZE)) Q s"
proof -
  obtain r evs k where r: "sys_epoll_wait K ep 64 (os s) = ((r, evs), k)" by (metis surj_pair)
  have "watched V (os s) ep fd \<noteq> None" using w by simp
  then have "watched V (os s) ep \<noteq> Map.empty" by metis
  then have "0 \<le> r" using L r unfolding kernel_live_def by (metis fst_conv zero_less_numeral)
  then have *: "int (length evs) = r" "0 < r" "distinct evs" "set evs \<subseteq> {p}"
    using K r w unfolding kernel_spec_def epoll_wait_spec_def by (metis ran_map_upd ran_empty option.simps(3) order.refl)+
  then have "evs = [p]" by (cases evs rule: remdups_adj.cases) auto
  moreover have "same V (os s) k"
    using K r unfolding kernel_spec_def quiet_spec_def quiet_def by (metis snd_conv)
  ultimately show ?thesis using Q * r by (simp add: wp_sys EVE_EPOLL_ARRAY_SIZE_def)
qed

lemma wp_read_live:
  assumes K: "kernel_spec K V" and L: "kernel_live K V"
    and Q: "\<And>r m k. 0 \<le> r \<Longrightarrow> same V (os s) k \<Longrightarrow> Q (r, m) (s\<lparr>os := k\<rparr>)"
  shows "wp F (sys (sys_read_u64 K fd)) Q s"
proof -
  obtain r m k where r: "sys_read_u64 K fd (os s) = ((r, m), k)" by (metis surj_pair)
  have "0 \<le> r" using L r unfolding kernel_live_def by (metis fst_conv)
  moreover have "same V (os s) k" using kernel_quiet(7) [OF K, of fd] r by (metis quiet_def snd_conv)
  ultimately show ?thesis using Q r by (simp add: wp_sys)
qed

text \<open>One timer \<open>eve\<close> is registered with \<open>ev\<close>, whose callback gets the context
  \<open>ctx\<close>; everything else is as in \<open>s0\<close>.\<close>

definition running :: "'k kview \<Rightarrow> 'k st \<Rightarrow> nat \<Rightarrow> nat \<Rightarrow> nat \<Rightarrow> int \<Rightarrow> ctx_timer \<Rightarrow> ev_entry \<Rightarrow> 'k st \<Rightarrow> bool" where
  "running V s0 ev ctx eve fd c e s \<longleftrightarrow>
     heap s = (heap s0)(ev \<mapsto> Ev \<lparr>ev_fd = fd, break_loop = False, entries = 1\<rparr>, ctx \<mapsto> Ctx c, eve \<mapsto> Entry e) \<and>
     distinct [ev, ctx, eve] \<and> heap s0 ev = None \<and> heap s0 ctx = None \<and> heap s0 eve = None \<and>
     fd \<notin> opened V (os s0) \<and> e_fd e \<notin> insert fd (opened V (os s0)) \<and>
     opened V (os s) = insert (e_fd e) (insert fd (opened V (os s0))) \<and>
     watched V (os s) fd = [e_fd e \<mapsto> eve] \<and> is_timer e \<and> e_data e = ctx \<and> c_eve c = eve \<and> c_ev c = ev"

definition stopped :: "'k kview \<Rightarrow> 'k st \<Rightarrow> nat \<Rightarrow> int \<Rightarrow> 'k st \<Rightarrow> bool" where
  "stopped V s0 ev fd s \<longleftrightarrow>
     heap s = (heap s0)(ev \<mapsto> Ev \<lparr>ev_fd = fd, break_loop = False, entries = 0\<rparr>) \<and>
     heap s0 ev = None \<and> fd \<notin> opened V (os s0) \<and> opened V (os s) = insert fd (opened V (os s0))"

lemma running_os: "same V (os s) k \<Longrightarrow> running V s0 ev ctx eve fd c e (s\<lparr>os := k\<rparr>) = running V s0 ev ctx eve fd c e s"
  by (simp add: running_def same_def)

lemma running_heap:
  assumes "running V s0 ev ctx eve fd c e s"
  shows "heap s ev = Some (Ev \<lparr>ev_fd = fd, break_loop = False, entries = 1\<rparr>)" "heap s ctx = Some (Ctx c)"
    "heap s eve = Some (Entry e)"
  using assms by (auto simp: running_def)

text \<open>Deregistering the timer, freeing the entry and the context.\<close>

lemma wp_cancel_free:
  fixes V :: "'a kview"
  assumes K: "kernel_spec K V" and run: "running V s0 ev ctx eve fd c e s"
    and Q: "\<And>s'. stopped V s0 ev fd s' \<Longrightarrow> Q () s'"
  shows "wp F (ev_del K ev eve) (\<lambda>r s'. r = 0 \<and> heap s' eve = Some (Entry e) \<and> heap s' ctx = Some (Ctx c) \<and>
    wp F (bind (ev_entry_free K eve) (\<lambda>_. free_obj ctx)) Q s') s"
proof (rule wp_ev_del [OF K running_heap(1,3) [OF run]])
  fix k assume k: "opened V k = opened V (os s)"
  let ?v = "\<lparr>ev_fd = fd, break_loop = False, entries = 1\<rparr>"
  let ?s = "s\<lparr>os := k, heap := (heap s)(ev \<mapsto> Ev (?v\<lparr>entries := size_sub (entries ?v) 1\<rparr>))\<rparr>"
  have e: "heap ?s eve = Some (Entry e)" "heap ?s ctx = Some (Ctx c)" "is_timer e"
    using run by (auto simp: running_def)
  have "wp F (bind (ev_entry_free K eve) (\<lambda>_. free_obj ctx)) Q ?s"
    unfolding wp_bind
  proof (rule wp_timer_free [OF K e(1,3)])
    fix s' :: "'a st" assume s': "heap s' = (heap ?s)(eve := None)" "opened V (os s') = opened V (os ?s) - {e_fd e}"
    let ?t = "s'\<lparr>heap := (heap s')(ctx := None)\<rparr>"
    have z: "size_sub 1 1 = 0" by (simp add: size_sub_def SIZE_MOD_def)
    have h: "heap ?t = (heap s0)(ev \<mapsto> Ev \<lparr>ev_fd = fd, break_loop = False, entries = 0\<rparr>)"
      using run s'(1) by (auto simp: running_def fun_eq_iff z simp del: One_nat_def)
    have "stopped V s0 ev fd ?t" unfolding stopped_def h using run s'(2) k by (auto simp: running_def)
    then show "wp F (free_obj ctx) Q s'" using Q [of ?t] s'(1) e run by (simp add: wp_simps running_def)
  qed
  then show "0 = 0 \<and> heap ?s eve = Some (Entry e) \<and> heap ?s ctx = Some (Ctx c) \<and>
      wp F (bind (ev_entry_free K eve) (\<lambda>_. free_obj ctx)) Q ?s" using e by simp
qed (use run in \<open>simp add: running_def\<close>)

lemma wp_loop_stopped:
  assumes "stopped V s0 ev fd s" "0 < fuel"
  shows "wp F (ev_loop K call fuel ev) (\<lambda>_. stopped V s0 ev fd) s"
  using assms by (cases fuel) (auto simp: wp_simps stopped_def)

text \<open>One iteration of the loop when only the timer is registered: \<open>step\<close> is what
  dispatching it does, \<open>rest\<close> the state after it.\<close>

lemma wp_loop_iter:
  assumes K: "kernel_spec K V" and L: "kernel_live K V" and run: "running V s0 ev ctx eve fd c e s"
    and step: "\<And>s1. running V s0 ev ctx eve fd c e s1 \<Longrightarrow>
      wp F (ev_process_call_internal K call ev eve) (\<lambda>_. rest) s1"
    and go: "\<And>s2. rest s2 \<Longrightarrow> (\<exists>v. heap s2 ev = Some (Ev v) \<and> \<not> break_loop v) \<and> wp F (ev_loop K call fuel ev) Q s2"
  shows "wp F (ev_loop K call (Suc fuel) ev) Q s"
proof -
  have "wp F (ev_process_call_internal K call ev eve) (\<lambda>_. wp F (bind (load_ev ev) (\<lambda>v.
      if break_loop v then ret 0 else ev_loop K call fuel ev)) Q) (s\<lparr>os := k\<rparr>)" if "same V (os s) k" for k
  proof (rule wp_mono [OF step])
    fix s2 assume "rest s2"
    from go [OF this] obtain v where "heap s2 ev = Some (Ev v)" "\<not> break_loop v" "wp F (ev_loop K call fuel ev) Q s2" by blast
    then show "wp F (bind (load_ev ev) (\<lambda>v. if break_loop v then ret 0 else ev_loop K call fuel ev)) Q s2"
      by (simp add: wp_simps)
  qed (use run that in \<open>simp add: running_os\<close>)
  note body = this
  have w: "watched V (os s) fd = [e_fd e \<mapsto> eve]" using run by (simp add: running_def)
  show ?thesis
    unfolding ev_loop.simps wp_bind wp_load_ev [OF running_heap(1) [OF run]]
    apply simp
    apply (subst wp_bind)
    apply (rule wp_wait_single [OF K L w])
    using body by (simp add: wp_bind wp_ret)
qed

lemma oneshot_dispatch:
  assumes K: "kernel_spec K V" and L: "kernel_live K V" and run: "running V s0 ev ctx eve fd c e s"
    and e: "e_type e = EV_TIMEOUT_ONESHOT" "e_cb e = Some Callback_oneshot"
  shows "wp F (ev_process_call_internal K (test_call K) ev eve) (\<lambda>_. stopped V s0 ev fd) s"
proof -
  note h = running_heap [OF run]
  have r: "\<not> e_raw e" "e_data e = ctx" "c_eve c = eve" using run by (auto simp: running_def is_timer_def)
  have fire: "wp F (ev_del K ev eve) (\<lambda>_. wp F (bind (load_entry eve) (\<lambda>e.
      invoke (test_call K) (e_cb e) (Arg_oneshot (e_data e)))) (\<lambda>_. stopped V s0 ev fd)) (s\<lparr>os := k\<rparr>)"
    if "same V (os s) k" for k
    using that run
    by (intro wp_mono [OF wp_cancel_free [OF K, where Q = "\<lambda>_. stopped V s0 ev fd"]])
      (auto simp: running_os wp_simps invoke_def e r callback_oneshot_def)
  show ?thesis
    unfolding ev_process_call_internal_def wp_bind wp_load_entry [OF h(3)]
    apply (simp add: r e ev_types ev_process_timer_oneshot_def wp_bind wp_load_entry [OF h(3)])
    apply (rule wp_read_live [OF K L])
    using fire by (simp add: wp_simps)
qed

lemma periodic_dispatch:
  assumes K: "kernel_spec K V" and L: "kernel_live K V" and run: "running V s0 ev ctx eve fd c e s"
    and e: "e_type e = EV_TIMEOUT_PERIODIC" "e_cb e = Some Callback_timer_periodic"
    and n: "periodic_runs c = Suc n" "Suc n < 2 ^ 32"
  shows "wp F (ev_process_call_internal K (test_call K) ev eve)
    (\<lambda>_. if n = 0 then stopped V s0 ev fd else running V s0 ev ctx eve fd (c\<lparr>periodic_runs := n\<rparr>) e) s"
proof -
  note h = running_heap [OF run]
  have r: "\<not> e_raw e" "e_data e = ctx" "c_eve c = eve" "c_ev c = ev" using run by (auto simp: running_def is_timer_def)
  have m: "(periodic_runs c + 2 ^ 32 - 1) mod 2 ^ 32 = n" using n by simp
  let ?c = "c\<lparr>periodic_runs := n\<rparr>"
  have fire: "wp F (callback_timer_periodic K missed ctx)
      (\<lambda>_. if n = 0 then stopped V s0 ev fd else running V s0 ev ctx eve fd ?c e) (s\<lparr>os := k\<rparr>)"
    if k: "same V (os s) k" for k missed
  proof -
    let ?s = "s\<lparr>os := k, heap := (heap s)(ctx \<mapsto> Ctx ?c)\<rparr>"
    have run': "running V s0 ev ctx eve fd ?c e ?s"
      using run k by (auto simp: running_def same_def fun_eq_iff)
    have "wp F (ev_timer_cancel K ev eve) (\<lambda>r. wp F (if r < 0 then fail (Exited EXIT_FAILURE)
        else bind (load_ctx ctx) (\<lambda>c. bind (ev_entry_free K (c_eve c)) (\<lambda>_. free_obj ctx))) (\<lambda>_. stopped V s0 ev fd)) ?s"
      unfolding ev_timer_cancel_def wp_bind
      by (rule wp_mono [OF wp_cancel_free [OF K run', where Q = "\<lambda>_. stopped V s0 ev fd"]])
        (auto simp: wp_simps r)
    then show ?thesis
      using run' unfolding callback_timer_periodic_def
      by (cases "n = 0") (simp_all add: wp_simps h m [simplified] r del: One_nat_def)
  qed
  show ?thesis
    unfolding ev_process_call_internal_def wp_bind wp_load_entry [OF h(3)]
    apply (simp add: r e ev_types ev_process_timer_periodic_def wp_bind wp_load_entry [OF h(3)])
    apply (intro conjI impI; rule wp_read_live [OF K L])
    using fire h(3) by (simp_all add: wp_simps invoke_def e r)
qed

lemma loop_after_stop:
  assumes "stopped V s0 ev fd s"
  shows "(\<exists>v. heap s ev = Some (Ev v) \<and> \<not> break_loop v) \<and>
    wp F (ev_loop K call (Suc m) ev) (\<lambda>_. stopped V s0 ev fd) s"
  using wp_loop_stopped [OF assms, of "Suc m"] assms by (auto simp: stopped_def simp del: ev_loop.simps)

lemma oneshot_loop:
  assumes "kernel_spec K V" "kernel_live K V" "running V s0 ev ctx eve fd c e s"
    "e_type e = EV_TIMEOUT_ONESHOT" "e_cb e = Some Callback_oneshot"
  shows "wp F (ev_loop K (test_call K) (Suc (Suc n)) ev) (\<lambda>_. stopped V s0 ev fd) s"
  by (rule wp_loop_iter [OF assms(1,2,3) oneshot_dispatch [OF assms(1,2) _ assms(4,5)] loop_after_stop])

lemma periodic_loop:
  assumes K: "kernel_spec K V" and L: "kernel_live K V"
    and e: "e_type e = EV_TIMEOUT_PERIODIC" "e_cb e = Some Callback_timer_periodic"
  shows "running V s0 ev ctx eve fd c e s \<Longrightarrow> periodic_runs c = Suc n \<Longrightarrow> Suc n < 2 ^ 32 \<Longrightarrow> Suc n < fuel \<Longrightarrow>
    wp F (ev_loop K (test_call K) fuel ev) (\<lambda>_. stopped V s0 ev fd) s"
proof (induction n arbitrary: c s fuel)
  case (0 c s fuel)
  then obtain m where m: "fuel = Suc (Suc m)" by (cases fuel; cases "fuel - 1") auto
  show ?case unfolding m
  proof (rule wp_loop_iter [OF K L 0(1) periodic_dispatch [OF K L _ e 0(2,3)]])
    fix s2 assume "(if (0::nat) = 0 then stopped V s0 ev fd else running V s0 ev ctx eve fd (c\<lparr>periodic_runs := 0\<rparr>) e) s2"
    then show "(\<exists>v. heap s2 ev = Some (Ev v) \<and> \<not> break_loop v) \<and>
        wp F (ev_loop K (test_call K) (Suc m) ev) (\<lambda>_. stopped V s0 ev fd) s2" using loop_after_stop by simp
  qed
next
  case (Suc n c s fuel)
  then obtain m where m: "fuel = Suc m" by (cases fuel) auto
  show ?case unfolding m
  proof (rule wp_loop_iter [OF K L Suc.prems(1) periodic_dispatch [OF K L _ e Suc.prems(2,3)]])
    fix s2 assume "(if Suc n = 0 then stopped V s0 ev fd else running V s0 ev ctx eve fd (c\<lparr>periodic_runs := Suc n\<rparr>) e) s2"
    then have run: "running V s0 ev ctx eve fd (c\<lparr>periodic_runs := Suc n\<rparr>) e s2" by simp
    then show "(\<exists>v. heap s2 ev = Some (Ev v) \<and> \<not> break_loop v) \<and>
        wp F (ev_loop K (test_call K) m ev) (\<lambda>_. stopped V s0 ev fd) s2"
      using Suc.IH [OF run] Suc.prems(3,4) m running_heap(1) [OF run] by simp
  qed
qed

section \<open>The test programs\<close>

text \<open>What the two programs have in common: \<open>upd\<close> fills in the context, \<open>mk\<close> makes the timer.\<close>

definition timer_run :: "'k kernel \<Rightarrow> nat \<Rightarrow> nat \<Rightarrow> nat \<Rightarrow> ('k, unit) prog" where
  "timer_run K fuel ev eve = bind (ev_add K ev eve) (\<lambda>r. if r \<noteq> 0 then fail (Exited EXIT_FAILURE)
     else bind (ev_loop K (test_call K) fuel ev) (\<lambda>_. ev_destroy K ev))"

definition timer_setup :: "'k kernel \<Rightarrow> nat \<Rightarrow> (nat \<Rightarrow> ('k, nat) prog) \<Rightarrow> nat \<Rightarrow> nat \<Rightarrow> ('k, unit) prog" where
  "timer_setup K fuel mk ev ctxo = bind (mk ctxo) (\<lambda>eve. if eve = 0 then fail (Exited EXIT_FAILURE)
     else bind (load_ctx ctxo) (\<lambda>c. bind (write_obj ctxo (Ctx (c\<lparr>c_eve := eve\<rparr>))) (\<lambda>_. timer_run K fuel ev eve)))"

definition timer_test ::
    "'k kernel \<Rightarrow> nat \<Rightarrow> (nat \<Rightarrow> ctx_timer \<Rightarrow> ctx_timer) \<Rightarrow> (nat \<Rightarrow> ('k, nat) prog) \<Rightarrow> ('k, unit) prog" where
  "timer_test K fuel upd mk = bind (ev_new K 0) (\<lambda>ev. if ev = 0 then ret ()
     else bind (ctx_timer_new K) (\<lambda>ctxo. bind (load_ctx ctxo) (\<lambda>c.
          bind (write_obj ctxo (Ctx (upd ev c))) (\<lambda>_. timer_setup K fuel mk ev ctxo))))"

definition gave_up :: "fault \<Rightarrow> bool" where
  "gave_up f \<longleftrightarrow> f = Exited EXIT_FAILURE \<or> f = Aborted"

definition cleaned_up :: "'k kview \<Rightarrow> 'k st \<Rightarrow> 'k st \<Rightarrow> bool" where
  "cleaned_up V s s' \<longleftrightarrow> heap s' = heap s \<and> opened V (os s') = opened V (os s)"

lemma wp_timer_run:
  assumes K: "kernel_spec K V"
    and h: "heap s = (heap s0)(ev \<mapsto> Ev \<lparr>ev_fd = fd, break_loop = False, entries = 0\<rparr>, ctx \<mapsto> Ctx c, eve \<mapsto> Entry e)"
      "distinct [ev, ctx, eve]" "heap s0 ev = None" "heap s0 ctx = None" "heap s0 eve = None"
    and o: "fd \<notin> opened V (os s0)" "opened V (os s) = insert fd (opened V (os s0))" "watched V (os s) = watched V (os s0)"
    and e: "is_timer e" "e_data e = ctx" "c_eve c = eve" "c_ev c = ev"
    and loop: "\<And>e' s'. running V s0 ev ctx eve fd c e' s' \<Longrightarrow> e_type e' = e_type e \<Longrightarrow> e_cb e' = e_cb e \<Longrightarrow>
      wp gave_up (ev_loop K (test_call K) fuel ev) (\<lambda>_. stopped V s0 ev fd) s'"
  shows "wp gave_up (timer_run K fuel ev eve) (\<lambda>_. cleaned_up V s0) s"
  unfolding timer_run_def wp_bind
proof (rule wp_ev_add [OF K, where v = "\<lparr>ev_fd = fd, break_loop = False, entries = 0\<rparr>" and e = e])
  let ?v = "\<lparr>ev_fd = fd, break_loop = False, entries = 0\<rparr>"
  fix k e' assume k: "entry_armed V (os s) e e'" "opened V k = opened V (os s) \<union> opened_by e e'"
    "watched V k = (watched V (os s))(ev_fd ?v := (watched V (os s) (ev_fd ?v))(e_fd e' \<mapsto> eve))"
  let ?s = "s\<lparr>os := k, heap := (heap s)(eve \<mapsto> Entry e', ev \<mapsto> Ev (?v\<lparr>entries := size_add (entries ?v) 1\<rparr>))\<rparr>"
  have nf: "needs_fd e" using e(1) by (auto simp: needs_fd_def is_timer_def)
  have "watched V (os s0) fd f = None" for f
    using kernel_opened(3) [OF K, of "os s0" fd f] o(1) by (cases "watched V (os s0) fd f") auto
  then have "watched V (os s0) fd = Map.empty" by auto
  then have run: "running V s0 ev ctx eve fd c e' ?s"
    using h o e k nf entry_armed_cb [OF k(1)]
    by (auto simp: running_def is_timer_def opened_by_def entry_armed_def fun_eq_iff size_add_def SIZE_MOD_def)
  have "wp gave_up (ev_destroy K ev) (\<lambda>_. cleaned_up V s0) s'" if "stopped V s0 ev fd s'" for s'
    using that by (intro wp_ev_destroy [OF K]) (auto simp: stopped_def cleaned_up_def fun_upd_idem)
  then show "wp gave_up (if (0::int) \<noteq> 0 then fail (Exited EXIT_FAILURE)
      else bind (ev_loop K (test_call K) fuel ev) (\<lambda>_. ev_destroy K ev)) (\<lambda>_. cleaned_up V s0) ?s"
    using wp_mono [OF loop [OF run]] entry_armed_cb [OF k(1)] by (simp add: wp_simps)
qed (use h in \<open>auto simp: wp_simps EINVAL_def gave_up_def\<close>)

text \<open>How a timer constructor behaves, from \<open>wp_timer_new\<close>.\<close>

definition makes_timer :: "'k kview \<Rightarrow> nat \<Rightarrow> callback \<Rightarrow> (nat \<Rightarrow> ('k, nat) prog) \<Rightarrow> bool" where
  "makes_timer V ty cb mk \<longleftrightarrow> (\<forall>s ctx Q. heap_ok s \<longrightarrow> (\<forall>s'. heap s' = heap s \<longrightarrow> same V (os s) (os s') \<longrightarrow> Q 0 s') \<longrightarrow>
     (\<forall>s' ts. same V (os s) (os s') \<longrightarrow> heap s' = (heap s)(fresh s \<mapsto> Entry (timer_entry ty ts cb ctx)) \<longrightarrow>
        Q (fresh s) s') \<longrightarrow> wp gave_up (mk ctx) Q s)"

lemma makes_timerD:
  assumes "makes_timer V ty cb mk" "heap_ok s" "\<And>s'. heap s' = heap s \<Longrightarrow> same V (os s) (os s') \<Longrightarrow> Q 0 s'"
    "\<And>s' ts. same V (os s) (os s') \<Longrightarrow> heap s' = (heap s)(fresh s \<mapsto> Entry (timer_entry ty ts cb ctx)) \<Longrightarrow> Q (fresh s) s'"
  shows "wp gave_up (mk ctx) Q s"
  using assms unfolding makes_timer_def by blast

lemma makes_timers:
  assumes "kernel_spec K V"
  shows "makes_timer V EV_TIMEOUT_ONESHOT cb (ev_timer_oneshot_new K ts cb)"
    "makes_timer V EV_TIMEOUT_PERIODIC cb (ev_timer_periodic_new K ts cb)"
proof -
  show "makes_timer V EV_TIMEOUT_ONESHOT cb (ev_timer_oneshot_new K ts cb)"
    unfolding makes_timer_def by (intro allI impI, rule wp_timer_new(1) [OF assms, where ts = ts]) blast+
  show "makes_timer V EV_TIMEOUT_PERIODIC cb (ev_timer_periodic_new K ts cb)"
    unfolding makes_timer_def by (intro allI impI, rule wp_timer_new(2) [OF assms, where ts = ts]) blast+
qed

lemma wp_timer_setup:
  assumes K: "kernel_spec K V" and mk: "makes_timer V ty cb mk"
    and ty: "ty = EV_TIMEOUT_ONESHOT \<or> ty = EV_TIMEOUT_PERIODIC"
    and h: "heap s = (heap s0)(ev \<mapsto> Ev \<lparr>ev_fd = fd, break_loop = False, entries = 0\<rparr>, ctx \<mapsto> Ctx c)" "heap_ok s"
      "ev \<noteq> ctx" "heap s0 ev = None" "heap s0 ctx = None" "c_ev c = ev"
    and o: "fd \<notin> opened V (os s0)" "opened V (os s) = insert fd (opened V (os s0))" "watched V (os s) = watched V (os s0)"
    and loop: "\<And>eve e s'. running V s0 ev ctx eve fd (c\<lparr>c_eve := eve\<rparr>) e s' \<Longrightarrow> e_type e = ty \<Longrightarrow> e_cb e = Some cb \<Longrightarrow>
      wp gave_up (ev_loop K (test_call K) fuel ev) (\<lambda>_. stopped V s0 ev fd) s'"
  shows "wp gave_up (timer_setup K fuel mk ev ctx) (\<lambda>_. cleaned_up V s0) s"
proof -
  have n: "heap s (fresh s) = None" "0 < fresh s" using h(2) by (simp_all add: heap_ok_def)
  then have ne: "fresh s \<noteq> ev" "fresh s \<noteq> ctx" "heap s0 (fresh s) = None" using h(1) by (auto split: if_splits)
  have run: "wp gave_up (timer_run K fuel ev (fresh s)) (\<lambda>_. cleaned_up V s0)
      (s'\<lparr>heap := (heap s')(ctx \<mapsto> Ctx (c\<lparr>c_eve := fresh s\<rparr>))\<rparr>)"
    if s': "same V (os s) (os s')" "heap s' = (heap s)(fresh s \<mapsto> Entry (timer_entry ty ts cb ctx))" for s' ts
  proof (rule wp_timer_run [OF K, where ctx = ctx and fd = fd and c = "c\<lparr>c_eve := fresh s\<rparr>"
        and e = "timer_entry ty ts cb ctx"])
    show "heap (s'\<lparr>heap := (heap s')(ctx \<mapsto> Ctx (c\<lparr>c_eve := fresh s\<rparr>))\<rparr>) = (heap s0)
        (ev \<mapsto> Ev \<lparr>ev_fd = fd, break_loop = False, entries = 0\<rparr>, ctx \<mapsto> Ctx (c\<lparr>c_eve := fresh s\<rparr>),
         fresh s \<mapsto> Entry (timer_entry ty ts cb ctx))"
      using s'(2) h(1) ne by (auto simp: fun_eq_iff)
  qed (use s' h o ne ty loop in \<open>auto simp: same_def timer_entry_def is_timer_def\<close>)
  show ?thesis
    unfolding timer_setup_def wp_bind
    by (rule makes_timerD [OF mk h(2)]) (use h(1) run ne n(2) in \<open>simp_all add: wp_simps gave_up_def\<close>)
qed

lemma wp_timer_test:
  fixes V :: "'a kview"
  assumes K: "kernel_spec K V" and ok: "heap_ok s" and mk: "makes_timer V ty cb mk"
    and ty: "ty = EV_TIMEOUT_ONESHOT \<or> ty = EV_TIMEOUT_PERIODIC" and upd: "\<And>ev c. c_ev (upd ev c) = ev"
    and loop: "\<And>ev ctx eve fd e s'. running V s ev ctx eve fd ((upd ev \<lparr>c_eve = 0, c_ev = 0, periodic_runs = 0\<rparr>)\<lparr>c_eve := eve\<rparr>) e s' \<Longrightarrow>
      e_type e = ty \<Longrightarrow> e_cb e = Some cb \<Longrightarrow>
      wp gave_up (ev_loop K (test_call K) fuel ev) (\<lambda>_. stopped V s ev fd) s'"
  shows "wp gave_up (timer_test K fuel upd mk) (\<lambda>_. cleaned_up V s) s"
  unfolding timer_test_def wp_bind
proof (rule wp_ev_new [OF K ok])
  fix s1 :: "'a st" and fd
  assume s1: "fd \<notin> opened V (os s)" "opened V (os s1) = insert fd (opened V (os s))"
    "watched V (os s1) = watched V (os s)" "fresh s1 = fresh s + 1"
    "heap s1 = (heap s)(fresh s \<mapsto> Ev \<lparr>ev_fd = fd, break_loop = False, entries = 0\<rparr>)"
  have ok': "0 < fresh s" "\<And>q. fresh s \<le> q \<Longrightarrow> heap s q = None" using ok by (auto simp: heap_ok_def)
  let ?c = "upd (fresh s) \<lparr>c_eve = 0, c_ev = 0, periodic_runs = 0\<rparr>"
  have rest: "wp gave_up (timer_setup K fuel mk (fresh s) (fresh s1)) (\<lambda>_. cleaned_up V s)
      (s1\<lparr>os := k, fresh := fresh s1 + 1, heap := (heap s1)(fresh s1 \<mapsto> Ctx ?c)\<rparr>)" if "same V (os s1) k" for k
    by (rule wp_timer_setup [OF K mk ty]) (use that s1 ok' upd loop in \<open>auto simp: heap_ok_def same_def\<close>)
  show "wp gave_up (if fresh s = 0 then ret () else bind (ctx_timer_new K) (\<lambda>ctxo. bind (load_ctx ctxo) (\<lambda>c.
      bind (write_obj ctxo (Ctx (upd (fresh s) c))) (\<lambda>_. timer_setup K fuel mk (fresh s) ctxo)))) (\<lambda>_. cleaned_up V s) s1"
    using ok'(1) unfolding ctx_timer_new_def wp_bind
    apply simp
    apply (subst wp_bind, subst wp_bind, rule wp_malloc [OF K])
     apply (simp add: wp_simps gave_up_def)
    using rest s1(4) by (simp add: wp_simps)
qed (simp add: wp_simps cleaned_up_def same_def)


text \<open>The outcome of a test: the process gives up because a call failed, or the
  test returns, with every object freed and every descriptor closed.\<close>

definition test_outcome :: "'k kview \<Rightarrow> 'k st \<Rightarrow> fault + unit \<times> 'k st \<Rightarrow> bool" where
  "test_outcome V s r \<longleftrightarrow> (case r of
      Inl f \<Rightarrow> f = Exited EXIT_FAILURE \<or> f = Aborted
    | Inr (_, s') \<Rightarrow> heap s' = heap s \<and> opened V (os s') = opened V (os s))"

lemma wp_gave_up: "wp gave_up m (\<lambda>_. cleaned_up V s) s \<Longrightarrow> test_outcome V s (m s)"
  by (simp add: wp_def gave_up_def cleaned_up_def test_outcome_def split: sum.splits prod.splits)

lemma oneshot_clean:
  assumes "kernel_spec K V" "kernel_live K V" "heap_ok s" "2 \<le> fuel"
  shows "test_outcome V s (test_timer_oneshot K fuel s)"
proof -
  obtain n where n: "fuel = Suc (Suc n)" using assms(4) by (metis add_2_eq_Suc le_Suc_ex)
  have "test_timer_oneshot K fuel = timer_test K fuel (\<lambda>ev c. c\<lparr>c_ev := ev\<rparr>) (ev_timer_oneshot_new K (1, 0) Callback_oneshot)"
    unfolding test_timer_oneshot_def timer_test_def timer_setup_def timer_run_def ..
  moreover have "wp gave_up (timer_test K fuel (\<lambda>ev c. c\<lparr>c_ev := ev\<rparr>) (ev_timer_oneshot_new K (1, 0) Callback_oneshot)) (\<lambda>_. cleaned_up V s) s"
    unfolding n
    by (rule wp_timer_test [OF assms(1,3) makes_timers(1) [OF assms(1)] _ _ oneshot_loop [OF assms(1,2)]]) simp_all
  ultimately show ?thesis using wp_gave_up by metis
qed

lemma periodic_clean:
  assumes "kernel_spec K V" "kernel_live K V" "heap_ok s" "6 \<le> fuel"
  shows "test_outcome V s (test_timer_periodic K fuel s)"
proof -
  have "test_timer_periodic K fuel = timer_test K fuel (\<lambda>ev c. c\<lparr>c_ev := ev, periodic_runs := 5\<rparr>)
      (ev_timer_periodic_new K (1, 0) Callback_timer_periodic)"
    unfolding test_timer_periodic_def timer_test_def timer_setup_def timer_run_def ..
  moreover have "wp gave_up (timer_test K fuel (\<lambda>ev c. c\<lparr>c_ev := ev, periodic_runs := 5\<rparr>)
      (ev_timer_periodic_new K (1, 0) Callback_timer_periodic)) (\<lambda>_. cleaned_up V s) s"
  proof (rule wp_timer_test [OF assms(1,3) makes_timers(2) [OF assms(1)]])
    fix ev ctx eve fd e s'
    let ?c = "(\<lparr>c_eve = 0, c_ev = 0, periodic_runs = 0\<rparr>\<lparr>c_ev := ev, periodic_runs := 5\<rparr>)\<lparr>c_eve := eve\<rparr>"
    assume "running V s ev ctx eve fd ?c e s'" "e_type e = EV_TIMEOUT_PERIODIC" "e_cb e = Some Callback_timer_periodic"
    then show "wp gave_up (ev_loop K (test_call K) fuel ev) (\<lambda>_. stopped V s ev fd) s'"
      using periodic_loop [OF assms(1,2), where n = 4 and c = ?c] assms(4) by simp
  qed simp_all
  ultimately show ?thesis using wp_gave_up by metis
qed


end
