(* ===== verification/Event_Defects.thy ===== *)
theory Event_Defects
  imports Event_Progs
begin

text \<open>
  Two defects of \<open>event-loop/ev.c\<close>, and the theorems of the event loop applied to
  the small kernel of \<open>Event_Safety\<close>.
\<close>

section \<open>The small kernel and a first state\<close>

lemma sim_kernel_live:
  assumes "\<And>l. set (order l) = set l"
  shows "kernel_live (sim_kernel order) sim_view"
proof -
  have "take n (order (sim_ready k ep)) \<noteq> []" if w: "sim_watched k ep \<noteq> Map.empty" "0 < n" for k ep n
  proof -
    obtain fd p where "sim_watched k ep fd = Some p" using w(1) by (meson not_None_eq ext)
    then have "p \<in> set (order (sim_ready k ep))" using sim_ready_ran [of k ep] assms by (auto simp: ran_def)
    then show ?thesis using w(2) by auto
  qed
  then show ?thesis
    by (simp add: kernel_live_def sim_kernel_def sim_epoll_wait_def sim_view_def Let_def)
qed

definition sim_start :: "simk st" where
  "sim_start = \<lparr>heap = Map.empty, fresh = 1, glob_i = 0, os = \<lparr>fds = [0], reg = (\<lambda>_ _. None)\<rparr>\<rparr>"

text \<open>A loop object at address 1 with epoll descriptor 1 and a one-shot timer at address 2.\<close>

definition sim_loop :: "simk st" where
  "sim_loop = \<lparr>heap = [1 \<mapsto> Ev \<lparr>ev_fd = 1, break_loop = False, entries = 0\<rparr>,
       2 \<mapsto> Entry (timer_entry EV_TIMEOUT_ONESHOT (1, 0) Timer_cd 1)],
     fresh = 3, glob_i = 0, os = \<lparr>fds = [0, 1], reg = (\<lambda>_ _. None)\<rparr>\<rparr>"

lemmas sim_ok = sim_kernel_spec [of "\<lambda>l. l", simplified] sim_kernel_spec [of rev, simplified]
  sim_kernel_live [of "\<lambda>l. l", simplified] sim_kernel_live [of rev, simplified]

lemma sim_start_ok: "heap_ok sim_start"
  by (simp add: heap_ok_def sim_start_def)

lemma sim_loop_inv: "ev_inv sim_view 1 sim_loop" "ran (watching sim_view 1 sim_loop) = {}"
proof -
  have "sim_watched \<lparr>fds = l, reg = (\<lambda>_ _. None)\<rparr> ep = Map.empty" for l ep
    by (simp add: sim_watched_def fun_eq_iff)
  then show "ev_inv sim_view 1 sim_loop" "ran (watching sim_view 1 sim_loop) = {}"
    by (simp_all add: ev_inv_def sim_loop_def sim_view_def watching_def)
qed


text \<open>An application whose only callback stops the loop.\<close>

lemma stop_callbacks_ok: "callbacks_ok V (\<lambda>_. False) (\<lambda>c a. bind (ev_run_out ev) (\<lambda>_. ret ())) ev"
  unfolding callbacks_ok_def ev_run_out_def
  by (fastforce simp: wp_simps ev_inv_def loop_post_def live_def)



section \<open>Defects\<close>

lemma sim_drop_apply: "sim_drop fd k ep f = (if ep = fd \<or> f = fd then None else reg k ep f)"
  by (simp add: sim_drop_def)

lemma ev_loop_numeral:
  "ev_loop K call (numeral n) ev = ev_loop K call (Suc (pred_numeral n)) ev"
  by (simp only: numeral_eq_Suc)

lemmas sim_eval = sim_kernel_def sim_make_def sim_fresh_def sim_drop_apply sim_close_def sim_epoll_add_def
  sim_epoll_del_def sim_epoll_wait_def sim_ready_def sim_watched_def sim_opened_def sim_start_def

lemmas ev_eval = ret_def bind_def sys_def fail_def load_ev_def load_entry_def load_wrapper_def load_ctx_def
  write_obj_def free_obj_def malloc_def close_fd_def post_incr_i_def

lemmas lib_eval = test_timer_def do_cancel_test_def cancel_timer_cb_def timer_cd_def ev_new_def ev_new_flags_convert_def
  struct_ev_new_internal_def ev_timer_oneshot_new_def ev_entry_new_epoll_internal_def ev_add_def ev_arm_def
  ev_arm_timerfd_oneshot_def arm_timerfd_def oneshot_expiry_def ev_set_non_blocking_def ev_process_call_internal_def
  ev_process_timer_oneshot_def ev_del_def ev_timer_cancel_def ev_entry_free_def ev_entry_timer_free_def invoke_def
  entry_zero_def ev_types EINVAL_def EVE_EPOLL_ARRAY_SIZE_def


text \<open>Freeing a timer that was never armed closes descriptor 0: the entry is
  zero-initialised and \<open>ev_entry_free\<close> closes its \<open>fd\<close> field in any case.\<close>

theorem ev_entry_free_closes_stdin:
  assumes K: "kernel_spec K V" and ok: "heap_ok s"
    and new: "ev_timer_oneshot_new K ts cb data s = Inr (p, s1)" "p \<noteq> 0"
  shows "\<exists>s2. ev_entry_free K p s1 = Inr ((), s2) \<and> heap s2 = heap s \<and> opened V (os s2) = opened V (os s) - {0}"
proof -
  have "wp (\<lambda>_. False) (ev_timer_oneshot_new K ts cb data) (\<lambda>p s'. p = 0 \<or> p = fresh s \<and> same V (os s) (os s') \<and>
      heap s' = (heap s)(fresh s \<mapsto> Entry (timer_entry EV_TIMEOUT_ONESHOT ts cb data))) s"
    by (rule wp_timer_new(1) [OF K ok, where ts = ts and cb = cb and data = data]) simp_all
  then have s1: "p = fresh s" "same V (os s) (os s1)"
    "heap s1 = (heap s)(fresh s \<mapsto> Entry (timer_entry EV_TIMEOUT_ONESHOT ts cb data))"
    using new by (auto simp: wp_def)
  have "wp (\<lambda>_. False) (ev_entry_free K p) (\<lambda>_ s2. heap s2 = heap s \<and> opened V (os s2) = opened V (os s) - {0}) s1"
    by (rule wp_timer_free [OF K, where e = "timer_entry EV_TIMEOUT_ONESHOT ts cb data"])
      (use s1 ok in \<open>auto simp: timer_entry_def is_timer_def entry_zero_def same_def heap_ok_def fun_upd_idem\<close>)
  from wp_returns [OF this] show ?thesis by auto
qed

theorem ev_entry_free_closes_stdin_witness:
  "\<exists>s1 s2. ev_timer_oneshot_new (sim_kernel rev) (1, 0) Timer_cd 1 sim_start = Inr (1, s1) \<and>
     ev_entry_free (sim_kernel rev) 1 s1 = Inr ((), s2) \<and> opened sim_view (os s2) = {}"
proof -
  obtain s1 where "ev_timer_oneshot_new (sim_kernel rev) (1, 0) Timer_cd 1 sim_start = Inr (1, s1)"
    by (simp add: lib_eval ev_eval sim_eval)
  moreover have "opened sim_view (os sim_start) = {0}" by (simp add: sim_view_def sim_opened_def sim_start_def)
  ultimately show ?thesis using ev_entry_free_closes_stdin [OF sim_ok(2) sim_start_ok] by fastforce
qed

end
