(* ===== verification/Bitwise.thy ===== *)
theory Bitwise
  imports Prelude "HOL-Library.Multiset"
begin

text \<open>
  The bit-twiddling exercises of \<open>bitwise-1\<close>: division by multiplication
  (\<open>div.c\<close>), the number that occurs once (\<open>single-num.c\<close>) and the portable
  arithmetic shift (\<open>asr.c\<close>), each with its checkers.  C integers are words of
  their width; a checker that calls \<open>exit(1)\<close> has the value \<open>False\<close>.
\<close>

type_synonym s32 = "32 word"

section \<open>div.c\<close>

definition D :: u32 where "D = 3"

definition M :: u64 where "M = 0xFFFFFFFFFFFFFFFF div ucast D + 1"

definition quickmod :: "u32 \<Rightarrow> u32" where
  "quickmod n = (let quotient :: u64 = ucast (drop_bit 64 ((ucast M :: 128 word) * ucast n))
                 in ucast ((ucast n :: u64) - quotient * ucast D))"

definition divisible :: "u32 \<Rightarrow> bool" where
  "divisible n \<longleftrightarrow> ucast n * M \<le> M - 1"

text \<open>The testers count \<open>i\<close> from 0 below \<open>0xFFFFFFFF\<close> and then check that value.\<close>

definition quickmod_tester :: bool where
  "quickmod_tester \<longleftrightarrow>
     list_all (\<lambda>i. (of_nat i :: u32) mod D = quickmod (of_nat i)) [0..<0xFFFFFFFF] \<and>
     0xFFFFFFFF mod D = quickmod 0xFFFFFFFF"

definition divisible_tester :: bool where
  "divisible_tester \<longleftrightarrow>
     list_all (\<lambda>i. ((of_nat i :: u32) mod D = 0) = divisible (of_nat i)) [0..<0xFFFFFFFF] \<and>
     (0xFFFFFFFF mod D = 0) = divisible 0xFFFFFFFF"

lemma M_val: "unat M = 6148914691236517206" "3 * unat M = 2 ^ 64 + 2"
  by (simp_all add: M_def D_def)

lemma M_mult:
  fixes n :: nat
  assumes "n < 2 ^ 32"
  shows "unat M * n = n div 3 * 2 ^ 64 + (2 * (n div 3) + unat M * (n mod 3))"
    "2 * (n div 3) + unat M * (n mod 3) < 2 ^ 64"
proof -
  have "unat M * n = unat M * (3 * (n div 3) + n mod 3)" by simp
  also have "\<dots> = 3 * unat M * (n div 3) + unat M * (n mod 3)" by (simp only: algebra_simps)
  finally show "unat M * n = n div 3 * 2 ^ 64 + (2 * (n div 3) + unat M * (n mod 3))"
    unfolding M_val(2) by (simp add: algebra_simps)
  have "n mod 3 \<le> 2" by simp
  then have "unat M * (n mod 3) \<le> unat M * 2" by (rule mult_le_mono2)
  then show "2 * (n div 3) + unat M * (n mod 3) < 2 ^ 64" using assms by (simp add: M_val(1))
qed

lemma u32_less: "unat (n :: u32) < 2 ^ 32"
  using unsigned_less [of n] by simp

lemma div_rest: "(r::nat) < b \<Longrightarrow> (q * b + r) div b = q"
  by simp

lemma mod_rest: "(r::nat) < b \<Longrightarrow> (q * b + r) mod b = r"
  by simp

lemma quickmod_mod: "quickmod n = n mod 3"
proof -
  let ?n = "unat n"
  have "?n < 2 ^ 32" by (rule u32_less)
  then have small: "unat M * ?n < 2 ^ 128" "take_bit 128 ?n = ?n" "take_bit 64 ?n = ?n" "take_bit 128 (unat M) = unat M"
    by (simp_all add: M_val(1) take_bit_nat_eq_self)
  have "unat ((ucast M :: 128 word) * ucast n) = unat M * ?n"
    using small by (simp add: unat_word_ariths unsigned_ucast_eq)
  then have "unat (drop_bit 64 ((ucast M :: 128 word) * ucast n)) = unat M * ?n div 2 ^ 64"
    unfolding unat_drop_bit_eq by (simp only: drop_bit_eq_div)
  also have "\<dots> = ?n div 3"
    unfolding M_mult(1) [OF u32_less] by (rule div_rest [OF M_mult(2) [OF u32_less]])
  finally have "unat (ucast (drop_bit 64 ((ucast M :: 128 word) * ucast n)) :: u64) = ?n div 3"
    using u32_less [of n] by (simp add: unsigned_ucast_eq take_bit_nat_eq_self)
  then have "ucast (drop_bit 64 ((ucast M :: 128 word) * ucast n)) = (of_nat (?n div 3) :: u64)"
    using small(3) u32_less [of n] by (simp add: word_unat_eq_iff unsigned_of_nat take_bit_nat_eq_self)
  then have "quickmod n = ucast ((of_nat ?n :: u64) - of_nat (?n div 3) * 3)"
    by (simp add: quickmod_def Let_def D_def)
  also have "(of_nat ?n :: u64) - of_nat (?n div 3) * 3 = of_nat (?n mod 3)"
  proof -
    have "(of_nat ?n :: u64) = of_nat (3 * (?n div 3) + ?n mod 3)" by simp
    also have "\<dots> = of_nat (?n div 3) * 3 + of_nat (?n mod 3)" by (simp only: of_nat_add of_nat_mult) simp
    finally show ?thesis by simp
  qed
  finally show ?thesis
    by (simp add: word_unat_eq_iff) (simp add: unat_mod unsigned_ucast_eq take_bit_nat_eq_self unsigned_of_nat)
qed

lemma divisible_mod: "divisible n \<longleftrightarrow> n mod 3 = 0"
proof -
  let ?n = "unat n"
  have "?n < 2 ^ 32" by (rule u32_less)
  then have t: "take_bit 64 ?n = ?n" by (simp add: take_bit_nat_eq_self)
  have "unat (ucast n * M) = unat M * ?n mod 2 ^ 64"
    by (simp add: unat_word_ariths unsigned_ucast_eq t mult.commute)
  also have "\<dots> = 2 * (?n div 3) + unat M * (?n mod 3)"
    unfolding M_mult(1) [OF u32_less] by (rule mod_rest [OF M_mult(2) [OF u32_less]])
  finally have "divisible n \<longleftrightarrow> 2 * (?n div 3) + unat M * (?n mod 3) \<le> unat M - 1"
    unfolding divisible_def word_le_nat_alt by (simp add: M_def D_def)
  also have "\<dots> \<longleftrightarrow> ?n mod 3 = 0"
  proof (cases "?n mod 3 = 0")
    case True
    then show ?thesis using u32_less [of n] by (simp add: M_val(1))
  next
    case False
    then have "unat M \<le> unat M * (?n mod 3)" by simp
    moreover have "unat M > 0" by (simp add: M_val(1))
    ultimately show ?thesis using False by linarith
  qed
  also have "\<dots> \<longleftrightarrow> n mod 3 = 0" by (simp add: unat_eq_zero [symmetric] unat_mod)
  finally show ?thesis .
qed

text \<open>C21: Division without division: \<open>quickmod\<close> is the remainder modulo 3 and
  \<open>divisible\<close> decides divisibility by 3, for every 32-bit number; hence the two
  exhaustive testers succeed.\<close>

theorem quickmod_divisible_correct:
  "quickmod n = n mod 3 \<and> divisible n = (n mod 3 = 0) \<and> quickmod_tester \<and> divisible_tester"
  by (simp add: quickmod_mod divisible_mod quickmod_tester_def divisible_tester_def D_def list_all_iff)

section \<open>single-num.c\<close>

text \<open>\<open>__builtin_clz\<close>: the number of leading zero bits.\<close>

definition clz32 :: "s32 \<Rightarrow> nat" where
  "clz32 w = length (takeWhile Not (map (bit w) (rev [0..<32])))"

text \<open>The loop over \<open>j\<close> that collects the carry, the loop over \<open>i\<close> that adds one
  number to the counters \<open>x\<close>, and the loops that compute and apply the mask.\<close>

primrec carry_loop :: "nat \<Rightarrow> s32 list \<Rightarrow> s32 \<Rightarrow> s32" where
  "carry_loop 0 x carry = carry"
| "carry_loop (Suc j) x carry = carry_loop j x (carry AND x ! j)"

primrec add_loop :: "nat \<Rightarrow> s32 list \<Rightarrow> s32 \<Rightarrow> s32 list" where
  "add_loop 0 x num = x"
| "add_loop (Suc i) x num = add_loop i (x[i := x ! i XOR carry_loop i x num]) num"

primrec mask_loop :: "nat \<Rightarrow> s32 list \<Rightarrow> s32 list \<Rightarrow> s32 \<Rightarrow> s32" where
  "mask_loop 0 x opv msk = msk"
| "mask_loop (Suc i) x opv msk = mask_loop i x opv (msk AND (x ! i XOR opv ! i))"

primrec clear_loop :: "nat \<Rightarrow> s32 list \<Rightarrow> s32 \<Rightarrow> s32 list" where
  "clear_loop 0 x msk = x"
| "clear_loop (Suc i) x msk = clear_loop i (x[i := x ! i AND msk]) msk"

definition single_step :: "nat \<Rightarrow> s32 list \<Rightarrow> s32 list \<Rightarrow> s32 \<Rightarrow> s32 list" where
  "single_step msb opv x num =
     (let x = add_loop msb x num; msk = NOT (mask_loop msb x opv (- 1)) in clear_loop msb x msk)"

text \<open>\<open>None\<close> is the failed assertion \<open>k > 0\<close>.\<close>

definition generalSingleNumber :: "s32 \<Rightarrow> s32 list \<Rightarrow> s32 option" where
  "generalSingleNumber k nums =
     (if sint k > 0 then
        let msb = 32 - clz32 k;
            opv = map (\<lambda>i. if bit k i then 0 else - 1) [0..<msb];
            x = foldl (single_step msb opv) (replicate msb 0) nums
        in Some (x ! 0)
      else None)"

definition single_body :: "s32 \<times> s32 \<Rightarrow> s32 \<Rightarrow> s32 \<times> s32" where
  "single_body lh num =
     (let lower = fst lh XOR num; lower = lower AND NOT (snd lh);
          higher = snd lh XOR num; higher = higher AND NOT lower
      in (lower, higher))"

definition singleNumber :: "s32 list \<Rightarrow> s32" where
  "singleNumber nums = fst (foldl single_body (0, 0) nums)"

definition checker :: "s32 \<Rightarrow> s32 list \<Rightarrow> bool" where
  "checker ans nums \<longleftrightarrow> ans = singleNumber nums"

definition generalChecker :: "s32 \<Rightarrow> s32 \<Rightarrow> s32 list \<Rightarrow> bool" where
  "generalChecker k ans nums \<longleftrightarrow> Some ans = generalSingleNumber k nums"

definition threeNumChecker :: bool where
  "threeNumChecker \<longleftrightarrow>
     (let x1 = [0, 1, 0, 1, 0, 1, 3]; x2 = [2, 1, 2, 2]; x3 = [999] in
      checker 3 x1 \<and> checker 1 x2 \<and> checker 999 x3 \<and>
      generalChecker 3 3 x1 \<and> generalChecker 3 1 x2 \<and> generalChecker 3 999 x3)"

definition fourNumChecker :: bool where
  "fourNumChecker \<longleftrightarrow>
     (let x1 = [0, 1, 0, 1, 0, 1, 0, 1, 3]; x2 = [2, 1, 2, 2, 2]; x3 = [999];
          x4 = [0xF, 0xF, 0xFF, 0xF, 0xF]; x5 = [2, 0, 2, 2, 2] in
      generalChecker 4 3 x1 \<and> generalChecker 4 1 x2 \<and> generalChecker 4 999 x3 \<and>
      generalChecker 4 0xFF x4 \<and> generalChecker 4 0 x5)"

definition fiveNumChecker :: bool where
  "fiveNumChecker \<longleftrightarrow>
     (let x1 = [0, 1, 0, 1, 0, 1, 0, 0, 1, 1, 3]; x2 = [2, 1, 2, 2, 2, 2]; x3 = [999];
          x4 = [0xF, 0xF, 0xF, 0xFF, 0xF, 0xF]; x5 = [2, 0, 2, 2, 2, 2] in
      generalChecker 5 3 x1 \<and> generalChecker 5 1 x2 \<and> generalChecker 5 999 x3 \<and>
      generalChecker 5 0xFF x4 \<and> generalChecker 5 0 x5)"

definition sevenNumChecker :: bool where
  "sevenNumChecker \<longleftrightarrow>
     (let x1 = [0, 1, 0, 1, 0, 1, 0, 0, 1, 1, 3, 0, 0, 1, 1]; x2 = [2, 1, 2, 2, 2, 2, 2, 2]; x3 = [999];
          x4 = [0xF, 0xF, 0xF, 0xFF, 0xF, 0xF, 0xF, 0xF]; x5 = [2, 0, 2, 2, 2, 2, 2, 2] in
      generalChecker 7 3 x1 \<and> generalChecker 7 1 x2 \<and> generalChecker 7 999 x3 \<and>
      generalChecker 7 0xFF x4 \<and> generalChecker 7 0 x5)"

subsection \<open>Counters in columns\<close>

text \<open>Bit \<open>b\<close> of the words in \<open>x\<close>, least significant word first, read as a binary number.\<close>

definition column :: "nat \<Rightarrow> s32 list \<Rightarrow> bool list" where
  "column b x = map (\<lambda>w. bit w b) x"

definition colval :: "bool list \<Rightarrow> nat" where
  "colval bs = horner_sum of_bool 2 bs"

primrec incr :: "bool list \<Rightarrow> bool \<Rightarrow> bool list" where
  "incr [] c = []"
| "incr (b # bs) c = (b \<noteq> c) # incr bs (b \<and> c)"

lemma incr_length [simp]: "length (incr bs c) = length bs"
  by (induction bs arbitrary: c) auto

lemma incr_nth: "i < length bs \<Longrightarrow> incr bs c ! i = (bs ! i \<noteq> (c \<and> (\<forall>j < i. bs ! j)))"
proof (induction bs arbitrary: c i)
  case (Cons b bs)
  then show ?case by (cases i) (auto simp: less_Suc_eq_0_disj)
qed simp

lemma colval_less: "colval bs < 2 ^ length bs"
  by (induction bs) (auto simp: colval_def of_bool_def)

lemma colval_incr:
  assumes "colval bs + of_bool c < 2 ^ length bs"
  shows "colval (incr bs c) = colval bs + of_bool c"
  using assms by (induction bs arbitrary: c) (auto simp: colval_def split: if_splits)

lemma carry_loop_bit: "bit (carry_loop j x c) b = (bit c b \<and> (\<forall>i < j. bit (x ! i) b))"
  by (induction j arbitrary: c) (auto simp: bit_and_iff less_Suc_eq)

lemma length_loops [simp]: "length (add_loop n x v) = length x" "length (clear_loop n x m) = length x"
  by (induction n arbitrary: x) simp_all

lemma carry_loop_update: "j \<le> i \<Longrightarrow> carry_loop j (x[i := w]) c = carry_loop j x c"
  by (induction j arbitrary: c) auto

lemma add_loop_nth:
  "n \<le> length x \<Longrightarrow> i < length x \<Longrightarrow>
    add_loop n x v ! i = (if i < n then x ! i XOR carry_loop i x v else x ! i)"
proof (induction n arbitrary: x)
  case (Suc n)
  then show ?case by (cases "i = n") (auto simp: nth_list_update carry_loop_update less_Suc_eq)
qed simp

lemma clear_loop_nth:
  "n \<le> length x \<Longrightarrow> i < length x \<Longrightarrow> clear_loop n x m ! i = (if i < n then x ! i AND m else x ! i)"
proof (induction n arbitrary: x)
  case (Suc n)
  then show ?case by (cases "i = n") (auto simp: nth_list_update less_Suc_eq)
qed simp

lemma mask_loop_bit: "bit (mask_loop n x opv m) b = (bit m b \<and> (\<forall>i < n. bit (x ! i) b \<noteq> bit (opv ! i) b))"
  by (induction n arbitrary: m) (auto simp: bit_and_iff bit_xor_iff less_Suc_eq)

lemma column_add: "column b (add_loop (length x) x v) = incr (column b x) (bit v b)"
  by (rule nth_equalityI) (auto simp: column_def incr_nth add_loop_nth bit_xor_iff carry_loop_bit)

lemma clz32_props:
  assumes "w \<noteq> 0"
  shows "clz32 w < 32" "bit w (31 - clz32 w)" "\<And>i. 32 - clz32 w \<le> i \<Longrightarrow> \<not> bit w i"
proof -
  let ?xs = "map (bit w) (rev [0..<32])"
  let ?n = "clz32 w"
  obtain i where i: "i < 32" "bit w i"
    using assms by (auto simp: bit_eq_iff dest: bit_imp_le_length)
  have nth: "j < 32 \<Longrightarrow> ?xs ! j = bit w (31 - j)" for j by (simp add: rev_nth)
  have "?xs ! (31 - i)" "31 - i < length ?xs" using i nth [of "31 - i"] by simp_all
  then have "\<exists>x \<in> set ?xs. \<not> Not x" using nth_mem by blast
  then have "takeWhile Not ?xs \<noteq> ?xs" by (metis takeWhile_eq_all_conv)
  then have "?n \<noteq> 32" unfolding clz32_def using takeWhile_eq_take [of Not ?xs] by fastforce
  then show n: "?n < 32" using length_takeWhile_le [of Not ?xs] by (simp add: clz32_def)
  then have "\<not> Not (?xs ! ?n)" unfolding clz32_def by (intro nth_length_takeWhile) simp
  then show "bit w (31 - ?n)" using nth n by simp
  fix i assume i: "32 - ?n \<le> i"
  show "\<not> bit w i"
  proof (cases "i < 32")
    case True
    then have "31 - i < ?n" using i n by simp
    then have "takeWhile Not ?xs ! (31 - i) = ?xs ! (31 - i)" "takeWhile Not ?xs ! (31 - i) \<in> set (takeWhile Not ?xs)"
      unfolding clz32_def by (rule takeWhile_nth, rule nth_mem)
    then have "Not (?xs ! (31 - i))" using set_takeWhileD by metis
    then show ?thesis using nth [of "31 - i"] True by simp
  qed (auto dest: bit_imp_le_length)
qed

lemma colval_bits: "bit (colval bs) i \<longleftrightarrow> i < length bs \<and> bs ! i"
  by (simp add: colval_def bit_horner_sum_bit_iff)

lemma colval_eq_iff: "colval bs = n \<longleftrightarrow> (\<forall>i. bit n i \<longleftrightarrow> i < length bs \<and> bs ! i)"
  by (auto simp: bit_eq_iff colval_bits)

lemma colval_0: "colval (replicate n False) = 0"
  by (simp add: colval_eq_iff)

text \<open>One number is added to every column, modulo \<open>k\<close>.\<close>

lemma single_step_column:
  assumes k: "unat k > 0" "\<And>i. msb \<le> i \<Longrightarrow> \<not> bit k i"
    and x: "length x = msb" "colval (column b x) < unat k"
    and opv: "opv = map (\<lambda>i. if bit k i then 0 else - 1) [0..<msb]"
  shows "colval (column b (single_step msb opv x v)) = (colval (column b x) + of_bool (bit v b)) mod unat k"
    "length (single_step msb opv x v) = msb"
proof -
  let ?y = "add_loop msb x v"
  let ?m = "NOT (mask_loop msb ?y opv (- 1))"
  have kb: "bit k i \<Longrightarrow> i < msb" for i using k(2) [of i] by (cases "msb \<le> i") auto
  have b32: "bit w b \<Longrightarrow> b < 32" for w :: s32 by (auto dest: bit_imp_le_length)
  have "unat k < 2 ^ msb"
  proof -
    have "take_bit msb (unat k) = unat k"
      using kb by (auto simp: bit_eq_iff bit_take_bit_iff bit_unsigned_iff)
    then show ?thesis by (metis take_bit_nat_less_exp)
  qed
  then have val: "colval (column b ?y) = colval (column b x) + of_bool (bit v b)"
    using colval_incr [of "column b x" "bit v b"] x column_add [of b x v] by (auto simp: column_def)
  have full: "(\<forall>i < msb. bit (?y ! i) b \<noteq> bit (opv ! i) b) \<longleftrightarrow> colval (column b ?y) = unat k" if "b < 32"
  proof -
    have "bit (opv ! i) b \<noteq> bit k i" if "i < msb" for i using that \<open>b < 32\<close> by (simp add: opv)
    moreover have "bit (unat k) i = bit k i" for i by (simp add: bit_unsigned_iff)
    moreover have "length (column b ?y) = msb" "\<And>i. i < msb \<Longrightarrow> column b ?y ! i = bit (?y ! i) b"
      using x(1) by (simp_all add: column_def)
    ultimately show ?thesis using kb unfolding colval_eq_iff by metis
  qed
  have col: "column b (single_step msb opv x v) =
      (if b < 32 \<and> colval (column b ?y) = unat k then replicate msb False else column b ?y)"
    using full x(1) b32
    by (auto intro!: nth_equalityI simp: single_step_def Let_def column_def clear_loop_nth bit_and_iff bit_not_iff mask_loop_bit)
  have "\<not> b < 32 \<Longrightarrow> colval (column b ?y) = 0"
    using b32 by (auto simp: colval_eq_iff column_def)
  then show "colval (column b (single_step msb opv x v)) = (colval (column b x) + of_bool (bit v b)) mod unat k"
    using col val x(2) k(1) by (auto simp: colval_0 mod_if split: if_splits)
  show "length (single_step msb opv x v) = msb" using x(1) by (simp add: single_step_def Let_def)
qed

text \<open>How many of the numbers have bit \<open>b\<close> set.\<close>

definition ones :: "nat \<Rightarrow> s32 list \<Rightarrow> nat" where
  "ones b nums = length (filter (\<lambda>w. bit w b) nums)"

lemma single_steps_column:
  assumes k: "unat k > 0" "\<And>i. msb \<le> i \<Longrightarrow> \<not> bit k i"
    and opv: "opv = map (\<lambda>i. if bit k i then 0 else - 1) [0..<msb]"
  shows "length x = msb \<Longrightarrow> colval (column b x) < unat k \<Longrightarrow>
    colval (column b (foldl (single_step msb opv) x nums)) = (colval (column b x) + ones b nums) mod unat k \<and>
    length (foldl (single_step msb opv) x nums) = msb"
proof (induction nums arbitrary: x)
  case (Cons v nums)
  note st = single_step_column [OF k Cons.prems opv, of v]
  have "colval (column b (single_step msb opv x v)) < unat k" using st(1) k(1) by simp
  from Cons.IH [OF st(2) this] show ?case
    by (auto simp: st(1) ones_def mod_add_right_eq add.commute)
qed (simp add: ones_def)

lemma generalSingleNumber_bits:
  assumes "sint k > 0"
  shows "\<exists>r. generalSingleNumber k nums = Some r \<and> (\<forall>b. bit r b \<longleftrightarrow> odd (ones b nums mod unat k))"
proof -
  have k0: "k \<noteq> 0" "unat k > 0" using assms by (auto simp: unat_gt_0)
  let ?msb = "32 - clz32 k"
  let ?opv = "map (\<lambda>i. if bit k i then 0 else - 1) [0..<?msb]"
  let ?x = "foldl (single_step ?msb ?opv) (replicate ?msb 0) nums"
  have z: "column b (replicate n 0) = replicate n False" for b n by (simp add: column_def)
  have run: "colval (column b ?x) = ones b nums mod unat k" "length ?x = ?msb" for b
    using single_steps_column [OF k0(2) clz32_props(3) [OF k0(1)] refl, where x = "replicate ?msb 0" and b = b and nums = nums] k0(2)
    by (simp_all add: z colval_0)
  have "bit (?x ! 0) b = odd (colval (column b ?x))" for b
    using colval_bits [of "column b ?x" 0] run(2) clz32_props(1) [OF k0(1)] by (simp add: bit_0 column_def)
  then show ?thesis using assms run(1) by (simp add: generalSingleNumber_def Let_def)
qed

lemma singleNumber_bits:
  "(bit (fst (foldl single_body (0, 0) nums)) b \<longleftrightarrow> ones b nums mod 3 = 1) \<and>
   (bit (snd (foldl single_body (0, 0) nums)) b \<longleftrightarrow> ones b nums mod 3 = 2)"
proof (induction nums rule: rev_induct)
  case (snoc v nums)
  have b32: "bit w b \<Longrightarrow> b < 32" for w :: s32 by (auto dest: bit_imp_le_length)
  obtain l h where lh: "foldl single_body (0, 0) nums = (l, h)" by force
  have "ones b nums mod 3 < 3" "ones b (nums @ [v]) = ones b nums + of_bool (bit v b)" by (simp_all add: ones_def)
  then show ?case using snoc b32
    by (auto simp: lh single_body_def Let_def bit_and_iff bit_xor_iff bit_or_iff bit_not_iff mod_Suc split: if_splits)
qed (simp add: ones_def)

lemma size_filter_repeat: "size (filter_mset P (repeat_mset n A)) = n * size (filter_mset P A)"
  by (induction n) (auto simp: repeat_mset_Suc)

lemma ones_mset: "ones b nums = size (filter_mset (\<lambda>w. bit w b) (mset nums))"
  unfolding ones_def by (metis mset_filter size_mset)

text \<open>C22: The number that occurs once: when every number occurs a multiple of \<open>k\<close>
  times, \<open>k \<ge> 2\<close>, except that \<open>x\<close> occurs one time more, \<open>generalSingleNumber\<close>
  returns \<open>x\<close>.  For \<open>k = 3\<close> it agrees with \<open>singleNumber\<close> on every input.\<close>

theorem single_number_correct:
  assumes "sint k \<ge> 2" "mset nums = add_mset x (repeat_mset (unat k) A)"
  shows "generalSingleNumber k nums = Some x \<and> (\<forall>nums'. generalSingleNumber 3 nums' = Some (singleNumber nums'))"
proof -
  obtain r where r: "generalSingleNumber k nums = Some r" "\<And>b. bit r b \<longleftrightarrow> odd (ones b nums mod unat k)"
    using generalSingleNumber_bits [of k nums] assms(1) by auto
  have "unat k \<ge> 2"
  proof -
    have "uint k = take_bit 32 (sint k)" by (simp add: uint_sint)
    also have "\<dots> = sint k" using assms(1) sint_lt [of k] by (simp add: take_bit_int_eq_self)
    finally have "int (unat k) = sint k" by simp
    then show ?thesis using assms(1) by linarith
  qed
  moreover have "ones b nums = of_bool (bit x b) + unat k * size (filter_mset (\<lambda>w. bit w b) A)" for b
    by (simp add: ones_mset assms(2) size_filter_repeat)
  ultimately have "bit r b \<longleftrightarrow> bit x b" for b by (simp add: r(2))
  then have "r = x" by (simp add: bit_eq_iff)
  moreover have "generalSingleNumber 3 nums' = Some (singleNumber nums')" for nums'
  proof -
    obtain r' where r': "generalSingleNumber 3 nums' = Some r'" "\<And>b. bit r' b \<longleftrightarrow> odd (ones b nums' mod 3)"
      using generalSingleNumber_bits [of 3 nums'] by auto
    have "odd (n mod 3) \<longleftrightarrow> n mod 3 = 1" for n :: nat
    proof -
      have "n mod 3 = 0 \<or> n mod 3 = 1 \<or> n mod 3 = 2" by linarith
      then show ?thesis by auto
    qed
    then have "bit r' b \<longleftrightarrow> bit (singleNumber nums') b" for b
      using singleNumber_bits [of nums' b] r'(2) by (simp add: singleNumber_def)
    then show ?thesis using r'(1) by (simp add: bit_eq_iff)
  qed
  ultimately show ?thesis using r(1) by simp
qed

theorem single_number_correct_witness:
  "sint (5 :: s32) \<ge> 2 \<and> generalSingleNumber 5 [2, 1, 2, 2, 2, 2] = Some 1"
proof -
  have "repeat_mset 5 {#2 :: s32#} = {#2, 2, 2, 2, 2#}" by (simp add: numeral_eq_Suc)
  then show ?thesis using single_number_correct [of 5 "[2, 1, 2, 2, 2, 2]" 1 "{#2#}"] by simp
qed

text \<open>The checkers of the file succeed.\<close>

lemma single_number_checkers: "threeNumChecker" "fourNumChecker" "fiveNumChecker" "sevenNumChecker"
  by code_simp+

section \<open>asr.c\<close>

text \<open>\<open>>>\<close> on a negative number is up to the implementation: \<open>shr\<close> is the shift the compiler uses.\<close>

definition asr_i :: "(s32 \<Rightarrow> nat \<Rightarrow> s32) \<Rightarrow> s32 \<Rightarrow> nat \<Rightarrow> s32" where
  "asr_i shr m n =
     (let logical = sint (shr (- 1) 1) > 0;
          fixu :: u32 = - (if logical \<and> sint m < 0 then 1 else 0);
          fixv = fixu
      in shr m n OR (fixv XOR shr fixv n))"

lemma asr_i_arithmetic: "n < 32 \<Longrightarrow> asr_i (\<lambda>w n. signed_drop_bit n w) m n = signed_drop_bit n m"
  by (simp add: asr_i_def)

end
