(* ===== verification/Bytes.thy ===== *)
theory Bytes
  imports Prelude
begin

text \<open>
  The byte-parallel routines of \<open>bitwise-1/ascii.c\<close>: \<open>is_ascii\<close>, \<open>is_alphabet\<close> and
  \<open>is_alphabet_sse\<close>.  The first two handle eight characters at a time in one 64-bit word,
  the last one sixteen with an SSE4.2 instruction; \<open>pack\<close> is the word that \<open>memcpy\<close> makes of eight bytes,
  and the lemmas of the first section turn operations on packed words into
  operations on each byte.
\<close>

section \<open>Packed bytes\<close>

definition pack :: "u8 list \<Rightarrow> u64" where
  "pack bs = of_nat (le_val bs)"

lemma bit_split_pow:
  fixes u m :: nat
  assumes "u < 2 ^ k"
  shows "bit (u + 2 ^ k * m) i = (if i < k then bit u i else bit m (i - k))"
proof (cases "i < k")
  case True
  then have "(2::nat) ^ k = 2 ^ i * 2 ^ (k - i)" using power_add [of "2::nat" i "k - i"] by simp
  then have "u + 2 ^ k * m = u + 2 ^ i * (2 ^ (k - i) * m)" by (simp only: mult.assoc)
  then have "(u + 2 ^ k * m) div 2 ^ i = u div 2 ^ i + 2 ^ (k - i) * m" by (simp only: div_mult_self2 [OF power_not_zero] zero_neq_numeral)
  then show ?thesis using True by (simp add: bit_iff_odd)
next
  case False
  then have "(2::nat) ^ i = 2 ^ k * 2 ^ (i - k)" using power_add [of "2::nat" k "i - k"] by simp
  then show ?thesis using False assms by (simp add: bit_iff_odd div_mult2_eq)
qed

lemmas bit_split = bit_split_pow [of _ 8, simplified]

lemma byte_less: "unat (b :: u8) < 256"
  using unsigned_less [of b] by simp

lemma byte_bit: "bit (b :: u8) n \<Longrightarrow> n < 8"
  using bit_imp_le_length [of b n] by simp

lemma bit_le_val: "bit (le_val bs) i \<longleftrightarrow> i div 8 < length bs \<and> bit (bs ! (i div 8)) (i mod 8)"
proof (induction bs arbitrary: i)
  case (Cons b bs)
  show ?case
  proof (cases "i < 8")
    case True
    then show ?thesis by (simp add: bit_split [OF byte_less] bit_unsigned_iff)
  next
    case False
    then have "i div 8 = Suc ((i - 8) div 8)" "i mod 8 = (i - 8) mod 8" by (simp_all add: le_div_geq le_mod_geq)
    then show ?thesis using False Cons.IH [of "i - 8"] by (simp add: bit_split [OF byte_less])
  qed
qed simp

lemma bit_pack: "length bs \<le> 8 \<Longrightarrow> bit (pack bs) i \<longleftrightarrow> i div 8 < length bs \<and> bit (bs ! (i div 8)) (i mod 8)"
  unfolding pack_def by (auto simp: bit_of_nat_iff bit_le_val)

text \<open>Two packed words are equal when their bytes are, and bitwise operations work bytewise.\<close>

lemma pack_eqI:
  assumes "length bs \<le> 8" "\<And>i j. i < length bs \<Longrightarrow> j < 8 \<Longrightarrow> bit w (8 * i + j) = bit (bs ! i) j"
    "\<And>i. 8 * length bs \<le> i \<Longrightarrow> \<not> bit w i"
  shows "w = pack bs"
proof (rule bit_word_eqI)
  fix n
  show "bit w n = bit (pack bs) n"
  proof (cases "n div 8 < length bs")
    case True
    then show ?thesis using assms(1) assms(2) [of "n div 8" "n mod 8"] by (simp add: bit_pack)
  next
    case False
    then have "8 * length bs \<le> n" by linarith
    then show ?thesis using assms(1,3) False by (simp add: bit_pack)
  qed
qed

lemma pack_inj:
  assumes "length bs = length cs" "length bs \<le> 8"
  shows "pack bs = pack cs \<longleftrightarrow> bs = cs"
proof
  assume eq: "pack bs = pack cs"
  show "bs = cs"
  proof (rule nth_equalityI [OF assms(1)])
    fix i assume i: "i < length bs"
    have "bit (bs ! i) j = bit (cs ! i) j" if "j < 8" for j
      using arg_cong [OF eq, of "\<lambda>w. bit w (8 * i + j)"] that i assms by (simp add: bit_pack)
    then show "bs ! i = cs ! i" by (auto intro: bit_word_eqI)
  qed
qed simp

lemma pack_bitwise:
  assumes "length bs = length cs" "length bs \<le> 8"
  shows "pack bs AND pack cs = pack (map2 (AND) bs cs)" "pack bs OR pack cs = pack (map2 (OR) bs cs)"
    "pack bs XOR pack cs = pack (map2 (XOR) bs cs)"
  using assms by (auto intro!: bit_word_eqI simp: bit_pack bit_and_iff bit_or_iff bit_xor_iff)

lemma pack_add:
  "length bs = length cs \<Longrightarrow> (\<And>i. i < length bs \<Longrightarrow> unat (bs ! i) + unat (cs ! i) < 256) \<Longrightarrow>
    pack bs + pack cs = pack (map2 (+) bs cs)"
proof -
  have "length bs = length cs \<Longrightarrow> (\<And>i. i < length bs \<Longrightarrow> unat (bs ! i) + unat (cs ! i) < 256) \<Longrightarrow>
      le_val (map2 (+) bs cs) = le_val bs + le_val cs"
  proof (induction bs cs rule: list_induct2)
    case (Cons b bs c cs)
    have "unat (b + c) = unat b + unat c" using Cons.prems [of 0] by (simp add: unat_word_ariths)
    moreover have "le_val (map2 (+) bs cs) = le_val bs + le_val cs" using Cons.prems [of "Suc i" for i] by (intro Cons.IH) simp
    ultimately show ?case by simp
  qed simp
  then show "length bs = length cs \<Longrightarrow> (\<And>i. i < length bs \<Longrightarrow> unat (bs ! i) + unat (cs ! i) < 256) \<Longrightarrow>
    pack bs + pack cs = pack (map2 (+) bs cs)" by (simp add: pack_def)
qed

definition PACKED_BYTE :: "u64 \<Rightarrow> u64" where
  "PACKED_BYTE b = (b AND 0xff) * 0x0101010101010101"

lemma replicate_8: "replicate 8 c = [c, c, c, c, c, c, c, c]"
  by (simp add: numeral_eq_Suc)

lemma PACKED_BYTE_pack: "PACKED_BYTE (ucast (c :: u8)) = pack (replicate 8 c)"
proof -
  have m: "(0xff :: u64) = mask 8" by (simp add: mask_eq_exp_minus_1)
  have "ucast c AND (0xff :: u64) = of_nat (unat c)" unfolding m using byte_bit [of c]
    by (auto intro!: bit_word_eqI simp: bit_and_iff bit_unsigned_iff bit_of_nat_iff bit_mask_iff)
  moreover have "le_val (replicate 8 c) = unat c * 0x0101010101010101"
    unfolding replicate_8 by simp
  ultimately show ?thesis by (simp add: PACKED_BYTE_def pack_def)
qed

section \<open>ascii.c\<close>

text \<open>
  The buffer is a list of bytes; an access outside it is \<open>None\<close>, and so is a loop
  that does not end.  In \<open>is_ascii\<close> the index is an \<open>unsigned int\<close>, so \<open>i + 8\<close> wraps
  at 32 bits before it is compared with the \<open>size_t\<close>.
\<close>

definition uint_add :: "nat \<Rightarrow> nat \<Rightarrow> nat" where
  "uint_add a b = (a + b) mod 2 ^ 32"

partial_function (option) ascii_words :: "u8 list \<Rightarrow> nat \<Rightarrow> nat \<Rightarrow> (bool \<times> nat) option" where
  "ascii_words str sz i =
     (if uint_add i 8 \<le> sz then
        case mem_load i 8 str of
          None \<Rightarrow> None
        | Some payload \<Rightarrow>
            if pack payload AND 0x8080808080808080 \<noteq> 0 then Some (False, i)
            else ascii_words str sz (uint_add i 8)
      else Some (True, i))"

partial_function (option) ascii_bytes :: "u8 list \<Rightarrow> nat \<Rightarrow> nat \<Rightarrow> bool option" where
  "ascii_bytes str sz i =
     (if i < sz then
        case mem_load i 1 str of
          None \<Rightarrow> None
        | Some c \<Rightarrow> if hd c AND 0x80 \<noteq> 0 then Some False else ascii_bytes str sz (uint_add i 1)
      else Some True)"

definition is_ascii :: "u8 list \<Rightarrow> nat \<Rightarrow> bool option" where
  "is_ascii str sz =
     (if sz = 0 then Some False
      else case ascii_words str sz 0 of
             None \<Rightarrow> None
           | Some (ok, i) \<Rightarrow> if ok then ascii_bytes str sz i else Some False)"

text \<open>One chunk and one character of \<open>is_alphabet\<close>.\<close>

definition alpha_chunk :: "u64 \<Rightarrow> bool" where
  "alpha_chunk chunk \<longleftrightarrow>
     chunk AND PACKED_BYTE 128 = 0 \<and>
     (let chunk = chunk OR PACKED_BYTE 0x20;
          a = chunk + PACKED_BYTE (128 - 97);
          z = chunk + PACKED_BYTE (128 - 122 - 1)
      in PACKED_BYTE 128 = (a XOR z) AND PACKED_BYTE 128)"

definition alpha_char :: "u8 \<Rightarrow> bool" where
  "alpha_char c \<longleftrightarrow>
     c AND 128 = 0 \<and>
     (let c = c OR 0x20; a = c + (128 - 97); z = c + (128 - 122 - 1) in 128 = (a XOR z) AND 128)"

partial_function (option) alpha_words :: "u8 list \<Rightarrow> nat \<Rightarrow> nat \<Rightarrow> (bool \<times> nat) option" where
  "alpha_words str sz i =
     (if size_add i 8 \<le> sz then
        case mem_load i 8 str of
          None \<Rightarrow> None
        | Some chunk \<Rightarrow>
            if alpha_chunk (pack chunk) then alpha_words str sz (size_add i 8) else Some (False, i)
      else Some (True, i))"

partial_function (option) alpha_bytes :: "u8 list \<Rightarrow> nat \<Rightarrow> nat \<Rightarrow> bool option" where
  "alpha_bytes str sz i =
     (if i < sz then
        case mem_load i 1 str of
          None \<Rightarrow> None
        | Some c \<Rightarrow> if alpha_char (hd c) then alpha_bytes str sz (size_add i 1) else Some False
      else Some True)"

definition is_alphabet :: "u8 list \<Rightarrow> nat \<Rightarrow> bool option" where
  "is_alphabet str sz =
     (if sz = 0 then Some False
      else case alpha_words str sz 0 of
             None \<Rightarrow> None
           | Some (ok, i) \<Rightarrow> if ok then alpha_bytes str sz i else Some False)"

text \<open>
  \<open>_mm_cmpistri\<close> with \<open>_SIDD_CMP_RANGES | _SIDD_NEGATIVE_POLARITY\<close> on unsigned bytes: both
  operands end at their first NUL; the result is the first of the 16 positions whose byte
  is not valid or in none of the ranges, or 16.
\<close>

definition valid_bytes :: "u8 list \<Rightarrow> nat" where
  "valid_bytes m = length (takeWhile (\<lambda>b. b \<noteq> 0) m)"

fun in_ranges :: "u8 list \<Rightarrow> u8 \<Rightarrow> bool" where
  "in_ranges (lo # hi # rs) b \<longleftrightarrow> lo \<le> b \<and> b \<le> hi \<or> in_ranges rs b"
| "in_ranges rs b \<longleftrightarrow> False"

definition mm_cmpistri :: "u8 list \<Rightarrow> u8 list \<Rightarrow> nat" where
  "mm_cmpistri rng m =
     length (takeWhile (\<lambda>j. j < valid_bytes m \<and> in_ranges (take (valid_bytes rng) rng) (m ! j)) [0..<16])"

definition letter_ranges :: "u8 list" where
  "letter_ranges = [97, 122, 65, 90, 0, 0, 0, 0, 0, 0, 0, 0, 0, 0, 0, 0]"

text \<open>The list is the memory from \<open>str\<close> on; a load takes 16 bytes even where fewer are left
  of the string.\<close>

partial_function (option) sse_chunks :: "u8 list \<Rightarrow> nat \<Rightarrow> nat \<Rightarrow> (bool \<times> nat) option" where
  "sse_chunks str sz i =
     (if size_add i 16 \<le> sz then
        case mem_load i 16 str of
          None \<Rightarrow> None
        | Some m \<Rightarrow>
            if mm_cmpistri letter_ranges m \<noteq> 16 then Some (False, i) else sse_chunks str sz (size_add i 16)
      else Some (True, i))"

definition is_alphabet_sse :: "u8 list \<Rightarrow> nat \<Rightarrow> bool option" where
  "is_alphabet_sse str sz =
     (case sse_chunks str sz 0 of
        None \<Rightarrow> None
      | Some (ok, i) \<Rightarrow>
          if \<not> ok then Some False
          else if size_sub sz i \<noteq> 0 then
            map_option (\<lambda>m. size_sub sz i = mm_cmpistri letter_ranges m) (mem_load i 16 str)
          else Some True)"

subsection \<open>One chunk\<close>

definition ascii :: "u8 \<Rightarrow> bool" where "ascii c \<longleftrightarrow> c < 128"

definition letter :: "u8 \<Rightarrow> bool" where
  "letter c \<longleftrightarrow> 65 \<le> c \<and> c \<le> 90 \<or> 97 \<le> c \<and> c \<le> 122"

text \<open>A statement about all 256 bytes can be checked by evaluation.\<close>

lemma byte_cases: "(\<forall>n < 256. P (of_nat n :: u8)) \<Longrightarrow> P c"
  using byte_less [of c] by (metis of_nat_unat ucast_id)

lemma ascii_bit: "c AND 128 = 0 \<longleftrightarrow> ascii c"
proof -
  have "list_all (\<lambda>n. (of_nat n :: u8) AND 128 = 0 \<longleftrightarrow> ascii (of_nat n)) [0..<256]"
    unfolding ascii_def by code_simp
  then show ?thesis by (intro byte_cases [of "\<lambda>c. c AND 128 = 0 \<longleftrightarrow> ascii c"]) (simp add: list_all_iff)
qed

lemma alpha_char_letter: "alpha_char c \<longleftrightarrow> letter c"
proof -
  have "list_all (\<lambda>n. alpha_char (of_nat n) \<longleftrightarrow> letter (of_nat n)) [0..<256]"
    unfolding alpha_char_def letter_def by code_simp
  then show ?thesis by (intro byte_cases [of "\<lambda>c. alpha_char c \<longleftrightarrow> letter c"]) (simp add: list_all_iff)
qed

lemma map2_replicate: "length bs = 8 \<Longrightarrow> map2 f bs (replicate 8 c) = map (\<lambda>b. f b c) bs"
  by (rule nth_equalityI) simp_all

lemma pack_const:
  assumes "length bs = 8"
  shows "pack bs AND pack (replicate 8 c) = pack (map (\<lambda>b. b AND c) bs)"
    "pack bs OR pack (replicate 8 c) = pack (map (\<lambda>b. b OR c) bs)"
    "(\<And>b. b \<in> set bs \<Longrightarrow> unat b + unat c < 256) \<Longrightarrow> pack bs + pack (replicate 8 c) = pack (map (\<lambda>b. b + c) bs)"
  using assms pack_bitwise [of bs "replicate 8 c"] pack_add [of bs "replicate 8 c"] by (simp_all add: map2_replicate)

lemma pack_eq_const: "length bs = 8 \<Longrightarrow> pack bs = pack (replicate 8 c) \<longleftrightarrow> list_all (\<lambda>b. b = c) bs"
  by (simp add: pack_inj list_all_iff) (auto simp: list_eq_iff_nth_eq in_set_conv_nth all_set_conv_all_nth)

lemma pack_zero: "pack (replicate 8 0) = 0"
  by (simp add: pack_def replicate_8)

lemma ascii_chunk:
  assumes "length bs = 8"
  shows "pack bs AND 0x8080808080808080 = 0 \<longleftrightarrow> list_all ascii bs"
proof -
  have m: "(0x8080808080808080 :: u64) = pack (replicate 8 128)" by (simp add: pack_def replicate_8)
  show ?thesis unfolding m
    using assms pack_eq_const [of "map (\<lambda>b. b AND 128) bs" 0]
    by (simp add: pack_const pack_zero list_all_iff ascii_bit)
qed

lemma letter_bytes: "ascii c \<Longrightarrow> unat (c OR 0x20) < 128"
proof -
  have "list_all (\<lambda>n. ascii (of_nat n) \<longrightarrow> unat ((of_nat n :: u8) OR 0x20) < 128) [0..<256]"
    unfolding ascii_def by code_simp
  then show "ascii c \<Longrightarrow> unat (c OR 0x20) < 128"
    using byte_cases [of "\<lambda>c. ascii c \<longrightarrow> unat (c OR 0x20) < 128"] by (simp add: list_all_iff)
qed

lemma alpha_chunk_letters:
  assumes "length bs = 8"
  shows "alpha_chunk (pack bs) \<longleftrightarrow> list_all letter bs"
proof -
  have P: "PACKED_BYTE 128 = pack (replicate 8 128)" "PACKED_BYTE 0x20 = pack (replicate 8 0x20)"
    "PACKED_BYTE 31 = pack (replicate 8 31)" "PACKED_BYTE 5 = pack (replicate 8 5)"
    using PACKED_BYTE_pack [of 128] PACKED_BYTE_pack [of 32] PACKED_BYTE_pack [of 31] PACKED_BYTE_pack [of 5] by simp_all
  have asc: "pack bs AND PACKED_BYTE 128 = 0 \<longleftrightarrow> list_all ascii bs"
    using assms pack_eq_const [of "map (\<lambda>b. b AND 128) bs" 0]
    by (simp add: P pack_const pack_zero list_all_iff ascii_bit)
  let ?l = "map (\<lambda>b. b OR 0x20) bs"
  let ?g = "\<lambda>b :: u8. ((b OR 0x20) + 31 XOR (b OR 0x20) + 5) AND 128"
  have g: "((pack ?l + pack (replicate 8 31)) XOR (pack ?l + pack (replicate 8 5))) AND pack (replicate 8 128) = pack (map ?g bs)"
    if "list_all ascii bs"
  proof -
    have "pack ?l + pack (replicate 8 31) = pack (map (\<lambda>b. b + 31) ?l)" "pack ?l + pack (replicate 8 5) = pack (map (\<lambda>b. b + 5) ?l)"
      using that letter_bytes assms by (intro pack_const; fastforce simp: list_all_iff)+
    moreover have "pack (map (\<lambda>b. b + 31) ?l) XOR pack (map (\<lambda>b. b + 5) ?l) =
        pack (map (\<lambda>b. (b OR 0x20) + 31 XOR (b OR 0x20) + 5) bs)"
      using assms pack_bitwise(3) [of "map (\<lambda>b. b + 31) ?l" "map (\<lambda>b. b + 5) ?l"]
      by (simp add: zip_map1 zip_map2 comp_def zip_same_conv_map)
    ultimately show ?thesis
      using assms pack_const(1) [of "map (\<lambda>b. (b OR 0x20) + 31 XOR (b OR 0x20) + 5) bs" 128] by (simp add: comp_def)
  qed
  have "alpha_chunk (pack bs) \<longleftrightarrow> list_all ascii bs \<and> pack (map ?g bs) = pack (replicate 8 128)"
    using asc g assms by (auto simp: alpha_chunk_def Let_def P pack_const)
  also have "\<dots> \<longleftrightarrow> list_all alpha_char bs"
    using assms pack_eq_const [of "map ?g bs" 128] by (auto simp: list_all_iff alpha_char_def ascii_bit Let_def)
  finally show ?thesis by (simp add: alpha_char_letter [abs_def])
qed

subsection \<open>Scanning a buffer\<close>

text \<open>
  Both routines scan whole chunks first and the remaining bytes after that.
  \<open>good\<close> is what they look for; below \<open>lim\<close> the index does not wrap.
\<close>

locale chunk_scan =
  fixes wscan :: "u8 list \<Rightarrow> nat \<Rightarrow> nat \<Rightarrow> (bool \<times> nat) option"
    and bscan :: "u8 list \<Rightarrow> nat \<Rightarrow> nat \<Rightarrow> bool option"
    and good :: "u8 \<Rightarrow> bool"
    and lim :: nat
  assumes wscan_step: "sz + 8 < lim \<Longrightarrow> sz \<le> length str \<Longrightarrow> i \<le> sz \<Longrightarrow> wscan str sz i =
      (if i + 8 \<le> sz then if list_all good (slice i 8 str) then wscan str sz (i + 8) else Some (False, i)
       else Some (True, i))"
    and bscan_step: "sz + 8 < lim \<Longrightarrow> sz \<le> length str \<Longrightarrow> i \<le> sz \<Longrightarrow> bscan str sz i =
      (if i < sz then if good (str ! i) then bscan str sz (i + 1) else Some False else Some True)"
begin

lemma bytes_all:
  assumes "sz + 8 < lim" "sz \<le> length str"
  shows "i \<le> sz \<Longrightarrow> bscan str sz i = Some (list_all good (slice i (sz - i) str))"
proof (induction "sz - i" arbitrary: i)
  case 0
  then show ?case using bscan_step [OF assms, of i] by (simp add: slice_def)
next
  case (Suc n)
  then have "slice i (sz - i) str = str ! i # slice (i + 1) (sz - (i + 1)) str"
    using assms(2) by (simp add: slice_def Cons_nth_drop_Suc [symmetric] take_Cons' Suc_diff_Suc)
  moreover have "i < sz" "bscan str sz (i + 1) = Some (list_all good (slice (i + 1) (sz - (i + 1)) str))"
    using Suc(1) [of "i + 1"] Suc(2) by simp_all
  ultimately show ?case using bscan_step [OF assms, of i] by simp
qed

lemma words_all:
  assumes "sz + 8 < lim" "sz \<le> length str"
  shows "i \<le> sz \<Longrightarrow> \<exists>ok j. wscan str sz i = Some (ok, j) \<and> i \<le> j \<and> j \<le> sz \<and>
    (if ok then list_all good (slice i (j - i) str) else \<not> list_all good (slice i (sz - i) str))"
proof (induction "sz - i" arbitrary: i rule: less_induct)
  case less
  show ?case
  proof (cases "i + 8 \<le> sz \<and> list_all good (slice i 8 str)")
    case True
    have split: "slice i (8 + n) str = slice i 8 str @ slice (i + 8) n str" for n by (rule slice_split)
    from True obtain ok j where j: "wscan str sz (i + 8) = Some (ok, j)" "i + 8 \<le> j" "j \<le> sz"
      "if ok then list_all good (slice (i + 8) (j - (i + 8)) str) else \<not> list_all good (slice (i + 8) (sz - (i + 8)) str)"
    proof -
      have "sz - (i + 8) < sz - i" using True by linarith
      from less(1) [OF this] True that show thesis by blast
    qed
    then show ?thesis
      using True wscan_step [OF assms less(2)] split [of "j - (i + 8)"] split [of "sz - (i + 8)"] by auto
  next
    case False
    show ?thesis
    proof (cases "i + 8 \<le> sz")
      case True
      then have "slice i (sz - i) str = slice i 8 str @ slice (i + 8) (sz - i - 8) str"
        using slice_split [of i 8 "sz - i - 8" str] by simp
      then show ?thesis using wscan_step [OF assms less(2)] False True less(2) by auto
    qed (use wscan_step [OF assms less(2)] less(2) in \<open>auto simp: slice_def\<close>)
  qed
qed

lemma scan_all:
  assumes "sz + 8 < lim" "sz \<le> length str"
  shows "(case wscan str sz 0 of None \<Rightarrow> None | Some (ok, i) \<Rightarrow> if ok then bscan str sz i else Some False) =
    Some (list_all good (take sz str))"
proof -
  obtain ok j where j: "wscan str sz 0 = Some (ok, j)" "j \<le> sz"
    "if ok then list_all good (slice 0 j str) else \<not> list_all good (slice 0 sz str)"
    using words_all [OF assms le0] unfolding diff_zero by blast
  have "slice 0 sz str = slice 0 j str @ slice j (sz - j) str" using slice_split [of 0 j "sz - j" str] j(2) by simp
  then show ?thesis using j bytes_all [OF assms j(2)] by (cases ok) (auto simp: slice_def)
qed

end

lemma mem_load_slice: "i + n \<le> length str \<Longrightarrow> mem_load i n str = Some (slice i n str)"
  by (simp add: mem_load_def)

lemma hd_slice: "i < length str \<Longrightarrow> hd (slice i 1 str) = str ! i"
  by (simp add: slice_def hd_drop_conv_nth)

interpretation ascii_scan: chunk_scan ascii_words ascii_bytes ascii "2 ^ 32"
proof
  fix sz i :: nat and str :: "u8 list"
  assume lim: "sz + 8 < 2 ^ 32" "sz \<le> length str" "i \<le> sz"
  then have plus: "uint_add i 8 = i + 8" "uint_add i 1 = i + 1" by (simp_all add: uint_add_def)
  show "ascii_words str sz i = (if i + 8 \<le> sz then if list_all ascii (slice i 8 str) then ascii_words str sz (i + 8)
      else Some (False, i) else Some (True, i))"
    using lim by (subst ascii_words.simps) (simp add: plus mem_load_slice ascii_chunk hd_slice ascii_bit)
  have "i < sz \<Longrightarrow> mem_load i 1 str = Some (slice i 1 str) \<and> hd (slice i 1 str) = str ! i"
    using lim by (simp add: mem_load_slice hd_slice del: One_nat_def)
  then show "ascii_bytes str sz i = (if i < sz then if ascii (str ! i) then ascii_bytes str sz (i + 1) else Some False else Some True)"
    by (subst ascii_bytes.simps) (simp add: plus ascii_bit del: One_nat_def)
qed

interpretation alpha_scan: chunk_scan alpha_words alpha_bytes letter SIZE_MOD
proof
  fix sz i :: nat and str :: "u8 list"
  assume lim: "sz + 8 < SIZE_MOD" "sz \<le> length str" "i \<le> sz"
  then have plus: "size_add i 8 = i + 8" "size_add i 1 = i + 1" by (simp_all add: size_add_id)
  show "alpha_words str sz i = (if i + 8 \<le> sz then if list_all letter (slice i 8 str) then alpha_words str sz (i + 8)
      else Some (False, i) else Some (True, i))"
    using lim by (subst alpha_words.simps) (simp add: plus mem_load_slice alpha_chunk_letters hd_slice alpha_char_letter)
  have "i < sz \<Longrightarrow> mem_load i 1 str = Some (slice i 1 str) \<and> hd (slice i 1 str) = str ! i"
    using lim by (simp add: mem_load_slice hd_slice del: One_nat_def)
  then show "alpha_bytes str sz i = (if i < sz then if letter (str ! i) then alpha_bytes str sz (i + 1) else Some False else Some True)"
    by (subst alpha_bytes.simps) (simp add: plus alpha_char_letter del: One_nat_def)
qed

subsection \<open>Sixteen bytes at a time\<close>

lemma letter_range: "in_ranges (take (valid_bytes letter_ranges) letter_ranges) b \<longleftrightarrow> letter b"
  by (auto simp: valid_bytes_def letter_ranges_def letter_def)

lemma mm_cmpistri_letters:
  assumes "length m = 16"
  shows "mm_cmpistri letter_ranges m = length (takeWhile letter m)"
proof -
  let ?n = "length (takeWhile letter m)" and ?P = "\<lambda>j. j < valid_bytes m \<and> letter (m ! j)"
  have nz: "b \<noteq> 0" if "letter b" for b using that by (auto simp: letter_def)
  have n16: "?n \<le> 16" using assms length_takeWhile_le [of letter m] by simp
  have "takeWhile (\<lambda>b. b \<noteq> 0) (takeWhile letter m @ dropWhile letter m) =
      takeWhile letter m @ takeWhile (\<lambda>b. b \<noteq> 0) (dropWhile letter m)"
    by (rule takeWhile_append2) (metis set_takeWhileD nz)
  then have len: "?n \<le> valid_bytes m" unfolding takeWhile_dropWhile_id valid_bytes_def by simp
  have "takeWhile ?P [0..<16] = take ?n [0..<16]"
  proof (rule takeWhile_eq_take_P_nth)
    fix i assume i: "i < ?n"
    then have "letter (m ! i)" using nth_mem [OF i] set_takeWhileD [of _ letter m] takeWhile_nth [OF i] by metis
    then show "?P ([0..<16] ! i)" using i n16 len by simp
  next
    assume "?n < length [0..<16]"
    then show "\<not> ?P ([0..<16] ! ?n)" using nth_length_takeWhile [of letter m] assms by simp
  qed
  then show ?thesis using n16 by (simp add: mm_cmpistri_def letter_range)
qed

lemma takeWhile_all_length: "length (takeWhile P xs) = length xs \<longleftrightarrow> list_all P xs"
  by (induction xs) auto

text \<open>The rest of the string is accepted when the first byte that is no letter comes right behind it.\<close>

lemma takeWhile_prefix_length:
  assumes "n < length m"
  shows "n = length (takeWhile P m) \<longleftrightarrow> list_all P (take n m) \<and> \<not> P (m ! n)"
  using assms
proof (induction m arbitrary: n)
  case (Cons x m)
  then show ?case by (cases n) auto
qed simp

lemma sse_chunks_all:
  assumes sz: "sz + 16 < SIZE_MOD" "sz \<le> length str"
  shows "i \<le> sz \<Longrightarrow> \<exists>ok j. sse_chunks str sz i = Some (ok, j) \<and>
    (if ok then i \<le> j \<and> j \<le> sz \<and> sz - j < 16 \<and> (16 dvd sz - j \<longleftrightarrow> 16 dvd sz - i) \<and> list_all letter (slice i (j - i) str)
     else \<not> list_all letter (slice i (sz - i) str))"
proof (induction "sz - i" arbitrary: i rule: less_induct)
  case less
  have plus: "size_add i 16 = i + 16" using sz less(2) by (simp add: size_add_id)
  show ?case
  proof (cases "i + 16 \<le> sz")
    case False
    then have "sse_chunks str sz i = Some (True, i)" by (subst sse_chunks.simps) (simp add: plus)
    moreover have "sz - i < 16" using False by linarith
    ultimately show ?thesis using less(2) by (intro exI [of _ True] exI [of _ i]) (simp add: slice_def)
  next
    case le: True
    have ld: "mem_load i 16 str = Some (slice i 16 str)" using sz le by (simp add: mem_load_slice)
    have sl: "mm_cmpistri letter_ranges (slice i 16 str) = 16 \<longleftrightarrow> list_all letter (slice i 16 str)"
      using sz le takeWhile_all_length [of letter "slice i 16 str"] by (simp add: mm_cmpistri_letters)
    have split: "slice i (16 + n) str = slice i 16 str @ slice (i + 16) n str" for n by (rule slice_split)
    show ?thesis
    proof (cases "list_all letter (slice i 16 str)")
      case True
      have "sz - (i + 16) < sz - i" using le by linarith
      from less(1) [OF this le] obtain ok j where j: "sse_chunks str sz (i + 16) = Some (ok, j)"
        "if ok then i + 16 \<le> j \<and> j \<le> sz \<and> sz - j < 16 \<and> (16 dvd sz - j \<longleftrightarrow> 16 dvd sz - (i + 16)) \<and>
          list_all letter (slice (i + 16) (j - (i + 16)) str) else \<not> list_all letter (slice (i + 16) (sz - (i + 16)) str)"
        by blast
      have "sse_chunks str sz i = Some (ok, j)" using le True j(1) by (subst sse_chunks.simps) (simp add: plus ld sl)
      moreover have "16 dvd sz - (i + 16) \<longleftrightarrow> 16 dvd sz - i"
      proof -
        have "sz - i = 16 + (sz - (i + 16))" using le by simp
        then show ?thesis by (metis dvd_add_triv_left_iff)
      qed
      moreover have "slice i (sz - i) str = slice i 16 str @ slice (i + 16) (sz - (i + 16)) str"
        using split [of "sz - (i + 16)"] le by simp
      moreover have "slice i (j - i) str = slice i 16 str @ slice (i + 16) (j - (i + 16)) str" if "i + 16 \<le> j"
        using split [of "j - (i + 16)"] that by simp
      ultimately show ?thesis using j(2) True by (intro exI [of _ ok] exI [of _ j]) (simp split: if_splits)
    next
      case False
      then have "sse_chunks str sz i = Some (False, i)" using le by (subst sse_chunks.simps) (simp add: plus ld sl)
      moreover have "slice i (sz - i) str = slice i 16 str @ slice (i + 16) (sz - (i + 16)) str"
        using split [of "sz - (i + 16)"] le by simp
      ultimately show ?thesis using False by (intro exI [of _ False] exI [of _ i]) simp
    qed
  qed
qed

lemma is_alphabet_sse_exact:
  assumes sz: "sz + 16 < SIZE_MOD" "sz + 16 \<le> length str"
  shows "is_alphabet_sse str sz = Some (list_all letter (take sz str) \<and> (16 dvd sz \<or> \<not> letter (str ! sz)))"
proof -
  obtain ok j where j: "sse_chunks str sz 0 = Some (ok, j)"
    "if ok then j \<le> sz \<and> sz - j < 16 \<and> (16 dvd sz - j \<longleftrightarrow> 16 dvd sz) \<and> list_all letter (slice 0 j str)
     else \<not> list_all letter (slice 0 sz str)"
    using sse_chunks_all [OF sz(1) add_leD1 [OF sz(2)] le0] unfolding diff_zero by metis
  show ?thesis
  proof (cases ok)
    case True
    let ?m = "slice j 16 str"
    have le: "j \<le> sz" "sz - j < 16" and dvd: "sz - j = 0 \<longleftrightarrow> 16 dvd sz" and pre: "list_all letter (slice 0 j str)"
      using j(2) True by (auto dest: dvd_imp_le)
    have sub: "size_sub sz j = sz - j" using le sz by (simp add: size_sub_id)
    have all: "take sz str = slice 0 j str @ take (sz - j) ?m"
      using le slice_split [of 0 j "sz - j" str] by (simp add: slice_def min_def)
    have ld: "mem_load j 16 str = Some ?m" "length ?m = 16" using sz le by (simp_all add: mem_load_slice)
    have "?m ! (sz - j) = str ! sz" using sz le by (simp add: nth_slice)
    then have "sz - j = mm_cmpistri letter_ranges ?m \<longleftrightarrow> list_all letter (take (sz - j) ?m) \<and> \<not> letter (str ! sz)"
      using takeWhile_prefix_length [of "sz - j" ?m letter] le(2) ld(2) by (simp add: mm_cmpistri_letters)
    then show ?thesis using j(1) True sub ld(1) dvd pre all by (auto simp: is_alphabet_sse_def)
  qed (use j in \<open>simp add: is_alphabet_sse_def slice_def\<close>)
qed

text \<open>A string of letters that does not fill its last 16 bytes makes the code read behind it.\<close>

lemma is_alphabet_sse_overread:
  assumes "sz + 16 < SIZE_MOD" "length str = sz" "list_all letter str" "\<not> 16 dvd sz"
  shows "is_alphabet_sse str sz = None"
proof -
  obtain ok j where j: "sse_chunks str sz 0 = Some (ok, j)"
    "if ok then j \<le> sz \<and> sz - j < 16 \<and> (16 dvd sz - j \<longleftrightarrow> 16 dvd sz) else \<not> list_all letter (slice 0 sz str)"
    using sse_chunks_all [OF assms(1) eq_refl [OF assms(2) [symmetric]] le0] unfolding diff_zero by metis
  then have ok by (rule_tac ccontr) (use j assms(2,3) in \<open>simp add: slice_def\<close>)
  then have le: "j < sz" "sz < j + 16" using j(2) assms(4) by (auto intro: le_neq_implies_less)
  then have "size_sub sz j = sz - j" "mem_load j 16 str = None" using assms(1,2) by (simp_all add: size_sub_id mem_load_def)
  then show ?thesis using j(1) \<open>ok\<close> le by (simp add: is_alphabet_sse_def)
qed

lemma is_ascii_exact:
  "0 < sz \<Longrightarrow> sz \<le> length str \<Longrightarrow> sz + 8 < 2 ^ 32 \<Longrightarrow> is_ascii str sz = Some (list_all ascii (take sz str))"
  using ascii_scan.scan_all [of sz str] by (simp add: is_ascii_def)

lemma is_alphabet_exact:
  "0 < sz \<Longrightarrow> sz \<le> length str \<Longrightarrow> sz + 8 < SIZE_MOD \<Longrightarrow> is_alphabet str sz = Some (list_all letter (take sz str))"
  using alpha_scan.scan_all [of sz str] by (simp add: is_alphabet_def)

subsection \<open>Where the index wraps\<close>

text \<open>On characters below 128 the first loop of \<open>is_ascii\<close> ends only if its index passes the
  end of the buffer before it wraps.\<close>

lemma ascii_words_wraps:
  assumes "ascii_words str sz i = Some r"
  shows "list_all ascii str \<longrightarrow> 2 ^ 32 \<le> sz + 8 \<longrightarrow> 8 dvd i \<longrightarrow> i < 2 ^ 32 \<longrightarrow> False"
proof (rule ascii_words.raw_induct [where P = "\<lambda>str sz i r. list_all ascii str \<longrightarrow> 2 ^ 32 \<le> sz + 8 \<longrightarrow> 8 dvd i \<longrightarrow>
    i < 2 ^ 32 \<longrightarrow> False", OF _ assms])
  fix f :: "u8 list \<Rightarrow> nat \<Rightarrow> nat \<Rightarrow> (bool \<times> nat) option" and str sz i r
  assume ih: "\<And>str sz i r. f str sz i = Some r \<Longrightarrow> list_all ascii str \<longrightarrow> 2 ^ 32 \<le> sz + 8 \<longrightarrow> 8 dvd i \<longrightarrow> i < 2 ^ 32 \<longrightarrow> False"
    and body: "(if uint_add i 8 \<le> sz then case mem_load i 8 str of None \<Rightarrow> None
      | Some payload \<Rightarrow> if pack payload AND 0x8080808080808080 \<noteq> 0 then Some (False, i) else f str sz (uint_add i 8)
      else Some (True, i)) = Some r"
  show "list_all ascii str \<longrightarrow> 2 ^ 32 \<le> sz + 8 \<longrightarrow> 8 dvd i \<longrightarrow> i < 2 ^ 32 \<longrightarrow> False"
  proof (intro impI)
    assume a: "list_all ascii str" "2 ^ 32 \<le> sz + 8" "8 dvd i" "i < 2 ^ 32"
    let ?j = "uint_add i 8"
    have j: "8 dvd ?j" "?j < 2 ^ 32" using a(3) by (simp_all add: uint_add_def dvd_mod)
    then obtain k where "?j = 8 * k" by blast
    then have "?j \<le> sz" using a(2) j(2) by simp
    moreover have "pack p AND 0x8080808080808080 = 0" if "mem_load i 8 str = Some p" for p
    proof -
      have "length p = 8" "set p \<subseteq> set str"
        using that by (auto simp: mem_load_def slice_def split: if_splits dest: in_set_takeD in_set_dropD)
      then show ?thesis using a(1) by (simp add: ascii_chunk list_all_iff subset_iff)
    qed
    ultimately obtain p where "mem_load i 8 str = Some p" "f str sz ?j = Some r"
      using body by (auto split: option.splits if_splits)
    then show False using ih a(1,2) j by blast
  qed
qed

text \<open>C23: The byte-parallel scans agree with the byte-wise definitions: for a
  non-empty buffer that is not close to 4 GiB, \<open>is_ascii\<close> returns whether every
  byte is below 128, and \<open>is_alphabet\<close> whether every byte is a letter; both
  read inside the buffer only.  \<open>is_alphabet_sse\<close> reads up to 15 bytes behind the
  buffer; where these can be read, it returns whether every byte is a letter, except that
  it rejects every string that does not fill its last 16 bytes and is followed by a
  letter.\<close>

theorem ascii_alphabet_correct:
  assumes "0 < sz" "sz \<le> length str" "sz + 8 < 2 ^ 32"
  shows "is_ascii str sz = Some (list_all ascii (take sz str)) \<and>
    is_alphabet str sz = Some (list_all letter (take sz str)) \<and>
    (sz + 16 \<le> length str \<longrightarrow> is_alphabet_sse str sz =
       Some (list_all letter (take sz str) \<and> (16 dvd sz \<or> \<not> letter (str ! sz))))"
  using assms by (simp add: is_ascii_exact is_alphabet_exact is_alphabet_sse_exact SIZE_MOD_def)

theorem ascii_alphabet_correct_witness:
  "is_ascii (replicate 9 65) 9 = Some True \<and> is_alphabet (replicate 9 65) 9 = Some True \<and>
   is_alphabet_sse (replicate 9 65 @ replicate 16 0) 9 = Some True \<and> is_alphabet_sse (replicate 25 65) 9 = Some False"
  using ascii_alphabet_correct [of 9 "replicate 9 65"] ascii_alphabet_correct [of 9 "replicate 9 65 @ replicate 16 0"]
    ascii_alphabet_correct [of 9 "replicate 25 65"]
  by (simp add: ascii_def letter_def list_all_iff nth_append)

text \<open>C24: The index of \<open>is_ascii\<close> is an \<open>unsigned int\<close>.  Exactly for buffers of fewer than
  \<open>2^32 - 8\<close> bytes this is enough: on a shorter buffer of ASCII characters it returns true,
  on a longer one it never returns properly, because \<open>i + 8\<close> wraps to 0 before it can pass
  the end (the loop reads behind the buffer or starts over for ever).\<close>

theorem is_ascii_bound:
  assumes "0 < length str" "list_all ascii str"
  shows "is_ascii str (length str) = (if length str + 8 < 2 ^ 32 then Some True else None)"
proof (cases "length str + 8 < 2 ^ 32")
  case True
  then show ?thesis using is_ascii_exact [of "length str" str] assms by simp
next
  case False
  then have "ascii_words str (length str) 0 = None"
    using ascii_words_wraps [of str "length str" 0] assms(2) by (cases "ascii_words str (length str) 0") auto
  then show ?thesis using False assms(1) by (simp add: is_ascii_def)
qed

theorem is_ascii_bound_witness:
  "is_ascii (replicate 9 65) 9 = Some True \<and> is_ascii (replicate (2 ^ 32) 65) (2 ^ 32) = None"
  using is_ascii_bound [of "replicate 9 65"] is_ascii_bound [of "replicate (2 ^ 32) 65"]
  by (simp add: ascii_def list_all_iff)

end
