(* ===== verification/Bytes_Tests.thy ===== *)
theory Bytes_Tests
  imports Bytes "HOL-Library.Monad_Syntax"
begin

text \<open>
  The testers of \<open>bitwise-1/ascii.c\<close>.  The array \<open>str\<close> of 135 characters is passed along; a
  failed check, which ends the program, and an undefined access are \<open>None\<close>.
\<close>

section \<open>The testers\<close>

definition STR_SIZE :: nat where "STR_SIZE = 135"

definition ascii_checker :: "bool \<Rightarrow> u8 list \<Rightarrow> (u8 list \<Rightarrow> nat \<Rightarrow> bool option) \<Rightarrow> unit option" where
  "ascii_checker flag str fp = do { r \<leftarrow> fp str STR_SIZE; if flag \<noteq> r then None else Some () }"

text \<open>Storing \<open>c i\<close> at the positions of a list, and one check for each position, after which
  it is overwritten with \<open>reset\<close>.\<close>

primrec fill :: "(nat \<Rightarrow> u8) \<Rightarrow> nat list \<Rightarrow> u8 list \<Rightarrow> u8 list" where
  "fill c [] str = str"
| "fill c (i # is) str = fill c is (str[i := c i])"

primrec probe :: "(u8 list \<Rightarrow> nat \<Rightarrow> bool option) \<Rightarrow> (nat \<Rightarrow> u8) \<Rightarrow> u8 \<Rightarrow> nat list \<Rightarrow> u8 list \<Rightarrow> u8 list option" where
  "probe fp c reset [] str = Some str"
| "probe fp c reset (i # is) str =
     do { let str = str[i := c i]; ascii_checker False str fp; probe fp c reset is (str[i := reset]) }"

definition is_ascii_tester :: "unit option" where
  "is_ascii_tester = do {
     let str = fill of_nat [0..<128] (replicate STR_SIZE 0);
     ascii_checker True str is_ascii;
     str \<leftarrow> probe is_ascii (\<lambda>i. 128 + of_nat i) 0 [0..<16] str;
     str \<leftarrow> probe is_ascii (\<lambda>i. 128) 0 [128..<135] str;
     Some () }"

text \<open>A loop over characters that must be accepted, and one over characters that must not.\<close>

primrec accept_loop :: "(u8 list \<Rightarrow> nat \<Rightarrow> bool option) \<Rightarrow> nat list \<Rightarrow> u8 list \<Rightarrow> u8 list option" where
  "accept_loop fp [] str = Some str"
| "accept_loop fp (c # cs) str =
     do { let str = fill (\<lambda>_. of_nat c) [0..<135] str; ascii_checker True str fp; accept_loop fp cs str }"

primrec reject_loop :: "(u8 list \<Rightarrow> nat \<Rightarrow> bool option) \<Rightarrow> nat list \<Rightarrow> u8 list \<Rightarrow> u8 list option" where
  "reject_loop fp [] str = Some str"
| "reject_loop fp (c # cs) str =
     do { str \<leftarrow> probe fp (\<lambda>_. of_nat c) 65 [0..<16] str;
          str \<leftarrow> probe fp (\<lambda>_. of_nat c) 65 [128..<135] str;
          reject_loop fp cs str }"

definition is_alphabet_tester :: "(u8 list \<Rightarrow> nat \<Rightarrow> bool option) \<Rightarrow> unit option" where
  "is_alphabet_tester fp = do {
     str \<leftarrow> accept_loop fp [65..<91] (replicate STR_SIZE 0);
     str \<leftarrow> accept_loop fp [97..<123] str;
     str \<leftarrow> reject_loop fp [0..<65] str;
     ascii_checker True str fp;
     str \<leftarrow> reject_loop fp [91..<97] str;
     ascii_checker True str fp;
     str \<leftarrow> reject_loop fp [123..<256] str;
     ascii_checker True str fp;
     Some () }"

section \<open>Testing a predicate on characters\<close>

declare upt_rec_numeral [simp del]

text \<open>\<open>decides fp P\<close>: on arrays of this size the function decides whether all characters satisfy \<open>P\<close>.\<close>

definition decides :: "(u8 list \<Rightarrow> nat \<Rightarrow> bool option) \<Rightarrow> (u8 \<Rightarrow> bool) \<Rightarrow> bool" where
  "decides fp P \<longleftrightarrow> (\<forall>str. length str = STR_SIZE \<longrightarrow> fp str STR_SIZE = Some (list_all P str))"

definition all_good :: "(u8 \<Rightarrow> bool) \<Rightarrow> u8 list \<Rightarrow> bool" where
  "all_good P str \<longleftrightarrow> length str = STR_SIZE \<and> list_all P str"

lemma all_good_update: "all_good P str \<Longrightarrow> P c \<Longrightarrow> all_good P (str[i := c])"
  by (auto simp: all_good_def list_all_iff dest: set_update_subset_insert [THEN subsetD])

lemma length_fill [simp]: "length (fill c is str) = length str"
  by (induction "is" arbitrary: str) simp_all

lemma nth_fill: "i < length str \<Longrightarrow> fill c is str ! i = (if i \<in> set is then c i else str ! i)"
  by (induction "is" arbitrary: str) (auto simp: nth_list_update)

lemma checker_true: "decides fp P \<Longrightarrow> all_good P str \<Longrightarrow> ascii_checker True str fp = Some ()"
  by (simp add: decides_def all_good_def ascii_checker_def)

lemma checker_false:
  assumes "decides fp P" "length str = STR_SIZE" "i < STR_SIZE" "\<not> P (str ! i)"
  shows "ascii_checker False str fp = Some ()"
  using assms by (auto simp: decides_def ascii_checker_def list_all_length)

lemma probe_passes:
  assumes fp: "decides fp P" and r: "P reset"
  shows "all_good P str \<Longrightarrow> \<forall>i \<in> set is. i < STR_SIZE \<and> \<not> P (c i) \<Longrightarrow>
    \<exists>str'. probe fp c reset is str = Some str' \<and> all_good P str'"
proof (induction "is" arbitrary: str)
  case (Cons i "is")
  have "ascii_checker False (str[i := c i]) fp = Some ()"
    using Cons.prems by (intro checker_false [OF fp, of _ i]) (auto simp: all_good_def)
  moreover have "all_good P (str[i := reset])" by (rule all_good_update [OF Cons.prems(1) r])
  ultimately show ?case using Cons.IH [of "str[i := reset]"] Cons.prems(2) by (simp add: Let_def)
qed simp

lemma reject_passes:
  assumes fp: "decides fp P" and r: "P 65"
  shows "all_good P str \<Longrightarrow> \<forall>c \<in> set cs. \<not> P (of_nat c) \<Longrightarrow>
    \<exists>str'. reject_loop fp cs str = Some str' \<and> all_good P str'"
proof (induction cs arbitrary: str)
  case (Cons c cs)
  obtain s1 where 1: "probe fp (\<lambda>_. of_nat c) 65 [0..<16] str = Some s1" "all_good P s1"
    using probe_passes [OF fp r Cons.prems(1), of "[0..<16]" "\<lambda>_. of_nat c"] Cons.prems(2) by (auto simp: STR_SIZE_def)
  obtain s2 where 2: "probe fp (\<lambda>_. of_nat c) 65 [128..<135] s1 = Some s2" "all_good P s2"
    using probe_passes [OF fp r 1(2), of "[128..<135]" "\<lambda>_. of_nat c"] Cons.prems(2) by (auto simp: STR_SIZE_def)
  then show ?case using Cons.IH [OF 2(2)] Cons.prems(2) 1(1) 2(1) by simp
qed simp

lemma fill_good: "length str = STR_SIZE \<Longrightarrow> P c \<Longrightarrow> all_good P (fill (\<lambda>_. c) [0..<135] str)"
  by (auto simp: all_good_def list_all_length nth_fill STR_SIZE_def)

lemma accept_passes:
  assumes fp: "decides fp P"
  shows "length str = STR_SIZE \<Longrightarrow> cs \<noteq> [] \<Longrightarrow> \<forall>c \<in> set cs. P (of_nat c) \<Longrightarrow>
    \<exists>str'. accept_loop fp cs str = Some str' \<and> all_good P str'"
proof (induction cs arbitrary: str)
  case (Cons c cs)
  let ?s = "fill (\<lambda>_. of_nat c) [0..<135] str"
  have good: "all_good P ?s" using Cons.prems by (intro fill_good) auto
  then show ?case using checker_true [OF fp good] Cons.IH [of ?s] Cons.prems by (cases cs) (auto simp: Let_def)
qed simp

lemma letter_of_nat: "n < 256 \<Longrightarrow> letter (of_nat n) \<longleftrightarrow> 65 \<le> n \<and> n \<le> 90 \<or> 97 \<le> n \<and> n \<le> 122"
  by (simp add: letter_def word_le_nat_alt unat_of_nat)

lemma alphabet_tester_passes:
  assumes fp: "decides fp letter"
  shows "is_alphabet_tester fp = Some ()"
proof -
  have A: "letter 65" by (simp add: letter_def)
  obtain s1 where 1: "accept_loop fp [65..<91] (replicate STR_SIZE 0) = Some s1" "all_good letter s1"
    using accept_passes [OF fp, of "replicate STR_SIZE 0" "[65..<91]"] by (auto simp: letter_of_nat)
  obtain s2 where 2: "accept_loop fp [97..<123] s1 = Some s2" "all_good letter s2"
    using accept_passes [OF fp, of s1 "[97..<123]"] 1(2) by (auto simp: letter_of_nat all_good_def)
  obtain s3 where 3: "reject_loop fp [0..<65] s2 = Some s3" "all_good letter s3"
    using reject_passes [OF fp A 2(2), of "[0..<65]"] by (auto simp: letter_of_nat)
  obtain s4 where 4: "reject_loop fp [91..<97] s3 = Some s4" "all_good letter s4"
    using reject_passes [OF fp A 3(2), of "[91..<97]"] by (auto simp: letter_of_nat)
  obtain s5 where 5: "reject_loop fp [123..<256] s4 = Some s5" "all_good letter s5"
    using reject_passes [OF fp A 4(2), of "[123..<256]"] by (auto simp: letter_of_nat)
  show ?thesis
    using 1(1) 2(1) 3(1) 4(1) 5(1) checker_true [OF fp 3(2)] checker_true [OF fp 4(2)] checker_true [OF fp 5(2)]
    by (simp add: is_alphabet_tester_def)
qed

section \<open>The outcome\<close>

text \<open>The test of the SSE version passes because of what lies behind the array on the stack:
  with \<open>beyond\<close> there, it passes when the first byte is no letter, fails when it is one, and
  when nothing but the array may be read its first check is undefined.\<close>

theorem ascii_testers:
  assumes "16 \<le> length beyond"
  shows "is_ascii_tester = Some () \<and> is_alphabet_tester is_alphabet = Some () \<and>
    is_alphabet_tester (\<lambda>str. is_alphabet_sse (str @ beyond)) = (if letter (hd beyond) then None else Some ()) \<and>
    is_alphabet_tester is_alphabet_sse = None"
proof (intro conjI)
  have d: "decides is_ascii ascii" "decides is_alphabet letter"
    by (simp_all add: decides_def STR_SIZE_def is_ascii_exact is_alphabet_exact SIZE_MOD_def)
  show "is_alphabet_tester is_alphabet = Some ()" by (rule alphabet_tester_passes [OF d(2)])
  show "is_ascii_tester = Some ()"
  proof -
    let ?s = "fill of_nat [0..<128] (replicate STR_SIZE 0)"
    have g: "all_good ascii ?s"
      by (auto simp: all_good_def list_all_length nth_fill ascii_def word_less_nat_alt unat_of_nat)
    have z: "ascii 0" "\<not> ascii 128" by (simp_all add: ascii_def)
    have hi: "\<not> ascii (128 + of_nat i)" if "i < 16" for i
      using that by (simp add: ascii_def word_less_nat_alt unat_word_ariths unat_of_nat)
    obtain s1 where 1: "probe is_ascii (\<lambda>i. 128 + of_nat i) 0 [0..<16] ?s = Some s1" "all_good ascii s1"
      using probe_passes [OF d(1) z(1) g, of "[0..<16]" "\<lambda>i. 128 + of_nat i"] hi by (auto simp: STR_SIZE_def)
    obtain s2 where 2: "probe is_ascii (\<lambda>i. 128) 0 [128..<135] s1 = Some s2"
      using probe_passes [OF d(1) z(1) 1(2), of "[128..<135]" "\<lambda>i. 128"] z(2) by (auto simp: STR_SIZE_def)
    show ?thesis using checker_true [OF d(1) g] 1(1) 2 by (simp add: is_ascii_tester_def Let_def)
  qed
  let ?sse = "\<lambda>str. is_alphabet_sse (str @ beyond)"
  have sse: "?sse str STR_SIZE = Some (list_all letter str \<and> \<not> letter (hd beyond))" if "length str = STR_SIZE" for str
  proof -
    have "hd beyond = beyond ! 0" using assms by (intro hd_conv_nth) auto
    then show ?thesis using that assms is_alphabet_sse_exact [of STR_SIZE "str @ beyond"]
      by (simp add: STR_SIZE_def SIZE_MOD_def nth_append)
  qed
  have first: "is_alphabet_tester fp = None" if "fp (replicate STR_SIZE 65) STR_SIZE \<noteq> Some True" for fp
  proof -
    have "fill (\<lambda>_. 65) [0..<135] (replicate STR_SIZE 0) = replicate STR_SIZE 65"
      by (rule nth_equalityI) (simp_all add: nth_fill STR_SIZE_def)
    moreover have "[65..<91] = 65 # [66..<91]" by (simp add: upt_conv_Cons)
    ultimately have "accept_loop fp [65..<91] (replicate STR_SIZE 0) = None"
      using that by (cases "fp (replicate STR_SIZE 65) STR_SIZE") (auto simp: ascii_checker_def Let_def)
    then show ?thesis by (simp add: is_alphabet_tester_def)
  qed
  show "is_alphabet_tester ?sse = (if letter (hd beyond) then None else Some ())"
  proof (cases "letter (hd beyond)")
    case True
    then show ?thesis using first [of ?sse] sse [of "replicate STR_SIZE 65"] by simp
  next
    case False
    then have "decides ?sse letter" using sse by (simp add: decides_def)
    then show ?thesis using alphabet_tester_passes False by simp
  qed
  show "is_alphabet_tester is_alphabet_sse = None"
    by (rule first) (use is_alphabet_sse_overread [of STR_SIZE "replicate STR_SIZE 65"] in
      \<open>simp add: STR_SIZE_def SIZE_MOD_def list_all_length letter_def\<close>)
qed

end
