(* ===== verification/Hex.thy ===== *)
theory Hex
  imports Bytes
begin

text \<open>
  \<open>bitwise-1/hex.c\<close>: \<open>hexchar2val\<close>, the byte-parallel \<open>hexstr2val\<close> and their
  testers, with the part of \<open>snprintf\<close> the testers use.
\<close>

unbundle bit_operations_syntax

definition hexchar2val :: "u8 \<Rightarrow> u8" where
  "hexchar2val c =
     (let letter = c AND 0x40; shift = drop_bit 3 letter OR drop_bit 6 letter
      in (c + shift) AND 0xf)"

text \<open>\<open>char\<close> is signed: the conversion to \<open>uint64_t\<close> extends the sign.  The constant
  \<open>0xF << (i << 2)\<close> is an \<open>int\<close>, which is extended as well.\<close>

definition hex_gather :: "u8 list \<Rightarrow> nat \<Rightarrow> u64" where
  "hex_gather str sz = fold (\<lambda>i hex. hex OR push_bit (8 * (sz - i - 1)) (scast (str ! i))) [0..<sz] 0"

definition hex_compress :: "u64 \<Rightarrow> nat \<Rightarrow> u64" where
  "hex_compress raw sz =
     fold (\<lambda>i hex. hex OR (drop_bit (4 * i) raw AND scast (push_bit (4 * i) (0xF :: 32 word)))) [0..<sz] 0"

definition hexstr2val :: "u8 list \<Rightarrow> nat \<Rightarrow> u64 option" where
  "hexstr2val str sz =
     (if sz = 0 \<or> 8 < sz \<or> length str < sz then None
      else let hex = hex_gather str sz;
               letter = hex AND PACKED_BYTE 0x40;
               shift = drop_bit 3 letter OR drop_bit 6 letter;
               raw = (hex + shift) AND PACKED_BYTE 0x0F
           in Some (hex_compress raw sz))"

text \<open>The testers: \<open>False\<close> when a checker calls \<open>exit(1)\<close>.\<close>

definition hexchar2val_tester :: bool where
  "hexchar2val_tester \<longleftrightarrow>
     list_all (\<lambda>i. unat (hexchar2val (of_nat i)) = i - 48) [48..<58] \<and>
     list_all (\<lambda>i. unat (hexchar2val (of_nat i)) = i - 97 + 10) [97..<103] \<and>
     list_all (\<lambda>i. unat (hexchar2val (of_nat i)) = i - 65 + 10) [65..<71]"

definition hexstr_checker :: "u32 \<Rightarrow> u8 list \<Rightarrow> bool" where
  "hexstr_checker num s \<longleftrightarrow>
     (case hexstr2val s (length s) of None \<Rightarrow> False | Some ans \<Rightarrow> num = (ucast ans :: u32))"

text \<open>\<open>snprintf\<close> with the format \<open>%0fX\<close>: at least \<open>f\<close> upper-case digits.\<close>

definition hex_digit :: "nat \<Rightarrow> u8" where
  "hex_digit d = of_nat (if d < 10 then 48 + d else 55 + d)"

fun hex_digits :: "nat \<Rightarrow> u8 list" where
  "hex_digits n = (if n < 16 then [hex_digit n] else hex_digits (n div 16) @ [hex_digit (n mod 16)])"

declare hex_digits.simps [simp del]

definition sprintf_X :: "nat \<Rightarrow> nat \<Rightarrow> u8 list" where
  "sprintf_X f n = (let ds = hex_digits n in replicate (f - length ds) 48 @ ds)"

definition hexstr2val_tester :: bool where
  "hexstr2val_tester \<longleftrightarrow>
     hexstr_checker 0 [48] \<and> hexstr_checker 0 [48, 48] \<and> hexstr_checker 0 (replicate 8 48) \<and>
     hexstr_checker 0xF [102] \<and> hexstr_checker 0xF [48, 102] \<and> hexstr_checker 0xF (replicate 7 48 @ [70]) \<and>
     hexstr_checker 0xFFFFFFFF (replicate 8 70) \<and>
     list_all (\<lambda>i. list_all (\<lambda>f. hexstr_checker (of_nat i) (sprintf_X f i)) [1..<9]) [0..<0xFFFFFFFF]"

section \<open>What the digits mean\<close>

definition digit_value :: "u8 \<Rightarrow> nat option" where
  "digit_value c =
     (if 48 \<le> c \<and> c \<le> 57 then Some (unat c - 48)
      else if 65 \<le> c \<and> c \<le> 70 then Some (unat c - 55)
      else if 97 \<le> c \<and> c \<le> 102 then Some (unat c - 87)
      else None)"

fun hex_value :: "u8 list \<Rightarrow> nat option" where
  "hex_value [] = Some 0"
| "hex_value (c # cs) = (case (digit_value c, hex_value cs) of
     (Some d, Some v) \<Rightarrow> Some (d * 16 ^ length cs + v) | _ \<Rightarrow> None)"

section \<open>One character\<close>

definition char_shift :: "u8 \<Rightarrow> u8" where
  "char_shift c = (let letter = c AND 0x40 in drop_bit 3 letter OR drop_bit 6 letter)"

lemma all_bytes: "list_all (\<lambda>n. P (of_nat n)) [0..<256] \<Longrightarrow> P (c :: u8)"
proof -
  assume "list_all (\<lambda>n. P (of_nat n)) [0..<256]"
  then have "\<forall>n \<in> {0..<256}. P (of_nat n)" by (simp only: list_all_iff set_upt)
  from bspec [OF this, of "unat c"] have "P (of_nat (unat c))" using byte_less [of c] by simp
  then show ?thesis by simp
qed

lemma digit_facts:
  assumes "digit_value c = Some d"
  shows "unat (hexchar2val c) = d" "d < 16" "unat c + unat (char_shift c) < 256" "unat c < 128"
proof -
  have "list_all (\<lambda>n. case digit_value (of_nat n) of None \<Rightarrow> True
      | Some d \<Rightarrow> unat (hexchar2val (of_nat n)) = d \<and> d < 16 \<and>
          unat (of_nat n :: u8) + unat (char_shift (of_nat n)) < 256 \<and> unat (of_nat n :: u8) < 128) [0..<256]"
    by code_simp
  from all_bytes [where P = "\<lambda>b. case digit_value b of None \<Rightarrow> True
      | Some d \<Rightarrow> unat (hexchar2val b) = d \<and> d < 16 \<and> unat b + unat (char_shift b) < 256 \<and> unat b < 128" and c = c, OF this]
  show "unat (hexchar2val c) = d" "d < 16" "unat c + unat (char_shift c) < 256" "unat c < 128" using assms by simp_all
qed

lemma hexchar2val_shift: "hexchar2val c = (c + char_shift c) AND 0xf"
  by (simp add: hexchar2val_def char_shift_def Let_def)

section \<open>The loops, bit by bit\<close>

lemma bit_fold_or: "bit (fold (\<lambda>i w. w OR f i) is a) n \<longleftrightarrow> bit (a :: u64) n \<or> (\<exists>i \<in> set is. bit (f i) n)"
  by (induction "is" arbitrary: a) (auto simp: bit_or_iff)

text \<open>Gathering packs the characters, the last one first, and fills up with zeros.\<close>

lemma bit_scast_char:
  assumes "unat (c :: u8) < 128"
  shows "bit (scast c :: u64) n \<longleftrightarrow> bit c n"
proof -
  have "list_all (\<lambda>n. unat (of_nat n :: u8) < 128 \<longrightarrow> \<not> bit (of_nat n :: u8) 7) [0..<256]" by code_simp
  from all_bytes [where P = "\<lambda>c. unat c < 128 \<longrightarrow> \<not> bit c 7" and c = c, OF this] have "\<not> bit c 7" using assms by simp
  then have "m < 7" if "bit c m" for m using that byte_bit [OF that] by (cases "m = 7") auto
  from this [of n] this [of 7] show ?thesis by (auto simp: bit_signed_iff min_def not_less split: if_splits)
qed

lemma gather_pack:
  assumes "length cs \<le> 8" "list_all (\<lambda>c. unat c < 128) cs"
  shows "hex_gather cs (length cs) = pack (rev cs @ replicate (8 - length cs) 0)"
proof (rule pack_eqI)
  show len: "length (rev cs @ replicate (8 - length cs) (0 :: u8)) \<le> 8" using assms(1) by simp
next
  fix i j :: nat assume ij: "i < length (rev cs @ replicate (8 - length cs) (0 :: u8))" "j < 8"
  have b: "bit (push_bit (8 * (length cs - k - 1)) (scast (cs ! k) :: u64)) (8 * i + j) \<longleftrightarrow>
      i = length cs - k - 1 \<and> bit (cs ! k) j" if "k < length cs" for k
  proof -
    have sc: "bit (scast (cs ! k) :: u64) n \<longleftrightarrow> bit (cs ! k) n" for n
      using assms(2) that by (intro bit_scast_char) (simp add: list_all_length)
    show ?thesis
    proof (cases "i = length cs - k - 1")
      case True
      have "8 * i + j < 64" using ij assms(1) by simp
      then show ?thesis using True ij by (simp add: bit_push_bit_iff sc)
    next
      case False
      then have "8 * i + j < 8 * (length cs - k - 1) \<or> 8 \<le> 8 * i + j - 8 * (length cs - k - 1)" using ij(2) by linarith
      then show ?thesis using False byte_bit [of "cs ! k" "8 * i + j - 8 * (length cs - k - 1)"] by (auto simp: bit_push_bit_iff sc not_le)
    qed
  qed
  have "bit (hex_gather cs (length cs)) (8 * i + j) \<longleftrightarrow> (\<exists>k < length cs. i = length cs - k - 1 \<and> bit (cs ! k) j)"
    unfolding hex_gather_def bit_fold_or using b by auto
  also have "\<dots> \<longleftrightarrow> i < length cs \<and> bit (rev cs ! i) j"
    by (auto simp: rev_nth) (metis Suc_diff_Suc diff_Suc_less diff_diff_cancel less_imp_le_nat zero_less_iff_neq_zero not_less0)
  finally show "bit (hex_gather cs (length cs)) (8 * i + j) = bit ((rev cs @ replicate (8 - length cs) 0) ! i) j"
    using ij by (auto simp: nth_append)
next
  show "\<not> bit (hex_gather cs (length cs)) i" if "8 * length (rev cs @ replicate (8 - length cs) (0 :: u8)) \<le> i" for i
    using that assms(1) bit_imp_le_length [of "hex_gather cs (length cs)" i] by auto
qed

text \<open>The arithmetic on the packed word is the arithmetic of \<open>hexchar2val\<close> on each byte.\<close>

lemma bit_consts: "bit (64 :: int) n \<longleftrightarrow> n = 6" "bit (8 :: int) n \<longleftrightarrow> n = 3" "bit (1 :: int) n \<longleftrightarrow> n = 0"
  using bit_exp_iff [where ?'a = int, of 6 n] bit_exp_iff [where ?'a = int, of 3 n] bit_exp_iff [where ?'a = int, of 0 n] by simp_all

lemma bit_char_shift: "bit (char_shift c) j \<longleftrightarrow> bit c 6 \<and> (j = 0 \<or> j = 3)"
  by (auto simp: char_shift_def Let_def bit_or_iff bit_drop_bit_eq bit_and_iff bit_consts bit_1_iff)

lemma bit_letters:
  assumes "length bs = 8"
  shows "bit (pack (map (\<lambda>b. b AND 0x40) bs)) n \<longleftrightarrow> n div 8 < 8 \<and> n mod 8 = 6 \<and> bit (bs ! (n div 8)) 6"
  using assms by (auto simp: bit_pack bit_and_iff bit_consts)

lemma shift_pack:
  assumes "length bs = 8"
  defines "ls \<equiv> pack (map (\<lambda>b. b AND 0x40) bs)"
  shows "drop_bit 3 ls OR drop_bit 6 ls = pack (map char_shift bs)"
proof (rule pack_eqI)
  fix i j :: nat assume i: "i < length (map char_shift bs)" and j: "j < 8"
  have "(8 * i + j + 3) mod 8 = 6 \<longleftrightarrow> j = 3" "(8 * i + j + 6) mod 8 = 6 \<longleftrightarrow> j = 0"
    using j by presburger+
  moreover have "(8 * i + 3 + 3) div 8 = i" "(8 * i + 0 + 6) div 8 = i" by simp_all
  ultimately show "bit (drop_bit 3 ls OR drop_bit 6 ls) (8 * i + j) = bit (map char_shift bs ! i) j"
    using i assms(1) by (auto simp: ls_def bit_or_iff bit_drop_bit_eq bit_letters bit_char_shift add.commute [of 3] add.commute [of 6])
qed (use assms in \<open>auto simp: ls_def bit_or_iff bit_drop_bit_eq bit_letters\<close>)

lemma raw_pack:
  assumes "length bs = 8" "\<And>i. i < 8 \<Longrightarrow> unat (bs ! i) + unat (char_shift (bs ! i)) < 256"
  shows "(let letter = pack bs AND PACKED_BYTE 0x40; shift = drop_bit 3 letter OR drop_bit 6 letter
      in (pack bs + shift) AND PACKED_BYTE 0x0F) = pack (map hexchar2val bs)"
proof -
  have c: "PACKED_BYTE 0x40 = pack (replicate 8 0x40)" "PACKED_BYTE 0x0F = pack (replicate 8 0x0F)"
    using PACKED_BYTE_pack [of "0x40"] PACKED_BYTE_pack [of "0x0F"] by simp_all
  have m: "map2 f bs (replicate 8 a) = map (\<lambda>b. f b a) bs" for f and a :: u8
    using assms(1) by (intro nth_equalityI) auto
  have letter: "pack bs AND PACKED_BYTE 0x40 = pack (map (\<lambda>b. b AND 0x40) bs)"
    using assms(1) by (simp add: c pack_bitwise m)
  have "pack bs + pack (map char_shift bs) = pack (map2 (+) bs (map char_shift bs))"
    using assms by (intro pack_add) simp_all
  also have "map2 (+) bs (map char_shift bs) = map (\<lambda>b. b + char_shift b) bs" using assms(1) by (intro nth_equalityI) auto
  finally have "pack bs + pack (map char_shift bs) = pack (map (\<lambda>b. b + char_shift b) bs)" .
  moreover have "map2 (AND) (map (\<lambda>b. b + char_shift b) bs) (replicate 8 0x0F) = map hexchar2val bs"
    using assms(1) by (intro nth_equalityI) (auto simp: hexchar2val_shift)
  ultimately show ?thesis using assms(1) by (simp add: Let_def letter shift_pack) (simp add: c pack_bitwise)
qed

section \<open>Compressing bytes to digits\<close>

fun nib_val :: "u8 list \<Rightarrow> nat" where
  "nib_val [] = 0"
| "nib_val (b # bs) = unat b + 16 * nib_val bs"

lemma nib_bound: "(\<forall>b \<in> set bs. unat b < 16) \<Longrightarrow> nib_val bs < 16 ^ length bs"
  by (induction bs) auto

lemma nib_append: "nib_val (as @ bs) = nib_val as + 16 ^ length as * nib_val bs"
  by (induction as) (simp_all add: algebra_simps)

lemma nib_zeros [simp]: "nib_val (replicate n 0) = 0"
  by (induction n) auto

lemma bit_nib_val:
  "\<forall>b \<in> set bs. unat b < 16 \<Longrightarrow> bit (nib_val bs) n \<longleftrightarrow> n div 4 < length bs \<and> bit (bs ! (n div 4)) (n mod 4)"
proof (induction bs arbitrary: n)
  case (Cons b bs)
  have s: "bit (unat b + 16 * nib_val bs) n = (if n < 4 then bit (unat b) n else bit (nib_val bs) (n - 4))"
    using bit_split_pow [of "unat b" 4 "nib_val bs" n] Cons.prems by simp
  show ?case
  proof (cases "n < 4")
    case False
    then have "n div 4 = Suc ((n - 4) div 4)" "n mod 4 = (n - 4) mod 4" by (simp_all add: le_div_geq le_mod_geq)
    then show ?thesis using False Cons s by simp
  qed (simp add: s bit_unsigned_iff)
qed simp

lemma nibble_bit: "unat (b :: u8) < 16 \<Longrightarrow> bit b n \<Longrightarrow> n < 4"
proof -
  assume b: "unat b < 16" "bit b n"
  have "list_all (\<lambda>k. unat (of_nat k :: u8) < 16 \<longrightarrow> (\<forall>n \<in> set [4..<8]. \<not> bit (of_nat k :: u8) n)) [0..<256]" by code_simp
  from all_bytes [where P = "\<lambda>b. unat b < 16 \<longrightarrow> (\<forall>n \<in> set [4..<8]. \<not> bit b n)" and c = b, OF this]
  have "\<forall>n \<in> set [4..<8]. \<not> bit b n" using b(1) by blast
  then have "n \<notin> set [4..<8]" using b(2) by blast
  then show "n < 4" using byte_bit [OF b(2)] by (simp only: set_upt atLeastLessThan_iff) auto
qed

text \<open>The mask of digit \<open>i\<close>; for the eighth digit the sign extension adds all higher bits.\<close>

lemma bit_digit_mask:
  assumes "i < 8"
  shows "bit (scast (push_bit (4 * i) (0xF :: 32 word)) :: u64) n \<longleftrightarrow> n < 64 \<and> (n div 4 = i \<or> i = 7 \<and> 28 \<le> n)"
proof -
  have F: "(0xF :: 32 word) = mask 4" by (simp add: mask_eq_exp_minus_1)
  have b: "bit (push_bit (4 * i) (0xF :: 32 word)) m \<longleftrightarrow> 4 * i \<le> m \<and> m < 32 \<and> m < 4 * i + 4" for m
    unfolding F by (auto simp: bit_push_bit_iff bit_mask_iff)
  show ?thesis using assms by (auto simp: bit_signed_iff b min_def split: if_splits)
qed

lemma compress_nib_val:
  assumes len: "length bs = 8" "sz \<le> 8" and nib: "\<forall>b \<in> set bs. unat b < 16"
  shows "hex_compress (pack bs) sz = of_nat (nib_val (take sz bs))"
proof (rule bit_word_eqI)
  fix n assume n: "n < LENGTH(64)"
  have byte: "bit (pack bs) (n + 4 * i) \<and> (n div 4 = i \<or> i = 7 \<and> 28 \<le> n) \<longleftrightarrow> n div 4 = i \<and> bit (bs ! i) (n mod 4)" if "i < 8" for i
  proof (cases "n div 4 = i")
    case True
    then have "n = 4 * i + n mod 4" by auto
    then have "n + 4 * i = n mod 4 + 8 * i" by linarith
    moreover have "n mod 4 < 8" by (rule less_trans [of _ 4]) simp_all
    moreover have "(m + 8 * i) div 8 = i \<and> (m + 8 * i) mod 8 = m" if "m < 8" for m :: nat using that by simp
    ultimately have "(n + 4 * i) div 8 = i" "(n + 4 * i) mod 8 = n mod 4" by metis+
    then show ?thesis using True that len by (simp add: bit_pack)
  next
    case False
    have "\<not> bit (pack bs) (n + 28)" if n: "28 \<le> n" "n div 4 \<noteq> 7"
    proof
      assume b: "bit (pack bs) (n + 28)"
      then have "(n + 28) div 8 < 8" using len by (simp add: bit_pack)
      moreover have "32 \<le> n" using n by linarith
      ultimately have div: "(n + 28) div 8 = 7" by linarith
      then have "4 \<le> (n + 28) mod 8" using \<open>32 \<le> n\<close> div_mult_mod_eq [of "n + 28" 8] by linarith
      then show False using b div len nib nibble_bit [of "bs ! 7" "(n + 28) mod 8"] by (auto simp: bit_pack)
    qed
    then show ?thesis using False by auto
  qed
  have "bit (hex_compress (pack bs) sz) n \<longleftrightarrow> (\<exists>i < sz. bit (pack bs) (n + 4 * i) \<and> (n div 4 = i \<or> i = 7 \<and> 28 \<le> n))"
    unfolding hex_compress_def bit_fold_or using len(2) n by (auto simp: bit_and_iff bit_drop_bit_eq bit_digit_mask add.commute)
  also have "\<dots> \<longleftrightarrow> (\<exists>i < sz. n div 4 = i \<and> bit (bs ! i) (n mod 4))" using byte [OF less_le_trans [OF _ len(2)]] by (simp only: cong: conj_cong)
  also have "\<dots> \<longleftrightarrow> n div 4 < sz \<and> bit (bs ! (n div 4)) (n mod 4)" by auto
  also have "\<dots> \<longleftrightarrow> bit (of_nat (nib_val (take sz bs)) :: u64) n"
  proof -
    have "\<forall>b \<in> set (take sz bs). unat b < 16" using nib by (meson in_set_takeD)
    from bit_nib_val [OF this, of n] show ?thesis using n len by (auto simp: bit_of_nat_iff)
  qed
  finally show "bit (hex_compress (pack bs) sz) n = bit (of_nat (nib_val (take sz bs)) :: u64) n" .
qed

section \<open>Correctness\<close>

lemma hex_value_digits:
  "hex_value cs = Some v \<Longrightarrow> list_all (\<lambda>c. \<exists>d. digit_value c = Some d) cs"
  by (induction cs arbitrary: v) (auto split: option.splits)

lemma nib_hex_value:
  "hex_value cs = Some v \<Longrightarrow> nib_val (map hexchar2val (rev cs)) = v"
proof (induction cs arbitrary: v)
  case (Cons c cs)
  then obtain d w where d: "digit_value c = Some d" "hex_value cs = Some w" "v = d * 16 ^ length cs + w"
    by (auto split: option.splits)
  then show ?case using Cons.IH [OF d(2)] digit_facts(1) [OF d(1)] by (simp add: nib_append mult.commute)
qed simp

lemma hexstr2val_value:
  assumes v: "hex_value cs = Some v" and len: "0 < length cs" "length cs \<le> 8"
  shows "hexstr2val cs (length cs) = Some (of_nat v)"
proof -
  let ?bs = "rev cs @ replicate (8 - length cs) 0"
  have dig: "\<exists>d. digit_value c = Some d" if "c \<in> set cs" for c using hex_value_digits [OF v] that by (auto simp: list_all_iff)
  have small: "unat c + unat (char_shift c) < 256 \<and> unat (hexchar2val c) < 16" if "c \<in> set ?bs" for c
  proof (cases "c \<in> set cs")
    case True
    then show ?thesis using dig [OF True] digit_facts by metis
  next
    case False
    then have "c = 0" using that by auto
    then show ?thesis by (simp add: char_shift_def hexchar2val_def)
  qed
  have "list_all (\<lambda>c. unat c < 128) cs" using dig digit_facts(4) by (auto simp: list_all_iff)
  then have g: "hex_gather cs (length cs) = pack ?bs" using gather_pack len by simp
  have l8: "length ?bs = 8" using len by simp
  have "unat (?bs ! i) + unat (char_shift (?bs ! i)) < 256" if "i < 8" for i
    using small [of "?bs ! i"] that l8 by (metis nth_mem)
  from raw_pack [OF l8 this]
  have raw: "(let letter = pack ?bs AND PACKED_BYTE 0x40; shift = drop_bit 3 letter OR drop_bit 6 letter
      in (pack ?bs + shift) AND PACKED_BYTE 0x0F) = pack (map hexchar2val ?bs)" .
  have "hex_compress (pack (map hexchar2val ?bs)) (length cs) = of_nat (nib_val (take (length cs) (map hexchar2val ?bs)))"
    using small l8 len by (intro compress_nib_val) auto
  also have "take (length cs) (map hexchar2val ?bs) = map hexchar2val (rev cs)" by simp
  finally show ?thesis using raw nib_hex_value [OF v] len by (simp add: hexstr2val_def g Let_def)
qed

lemma hex_value_append:
  "hex_value (cs @ ds) = (case (hex_value cs, hex_value ds) of
     (Some a, Some b) \<Rightarrow> Some (a * 16 ^ length ds + b) | _ \<Rightarrow> None)"
  by (induction cs) (auto split: option.splits simp: algebra_simps power_add)

lemma digit_value_digit: "d < 16 \<Longrightarrow> digit_value (hex_digit d) = Some d"
proof -
  have "list_all (\<lambda>d. digit_value (hex_digit d) = Some d) [0..<16]" by code_simp
  then show "d < 16 \<Longrightarrow> digit_value (hex_digit d) = Some d" by (simp only: list_all_iff set_upt) auto
qed

lemma hex_digits_value: "hex_value (hex_digits n) = Some n"
proof (induction n rule: hex_digits.induct)
  case (1 n)
  then show ?case by (subst hex_digits.simps) (simp add: digit_value_digit hex_value_append)
qed

lemma hex_digits_length: "n < 16 ^ Suc k \<Longrightarrow> 0 < length (hex_digits n) \<and> length (hex_digits n) \<le> Suc k"
proof (induction n arbitrary: k rule: hex_digits.induct)
  case (1 n)
  show ?case
  proof (cases "n < 16")
    case False
    then obtain j where "k = Suc j" using 1(2) by (cases k) auto
    then show ?thesis using False 1(1) [OF False, of j] 1(2) by (subst (1 2) hex_digits.simps) auto
  qed (simp add: hex_digits.simps)
qed

lemma sprintf_X_value: "hex_value (sprintf_X f n) = Some n"
proof -
  have "hex_value (replicate k 48) = Some 0" for k by (induction k) (simp_all add: digit_value_def)
  then show ?thesis by (simp add: sprintf_X_def Let_def hex_value_append hex_digits_value)
qed

lemma fixed_strings:
  "hexstr_checker 0 [48] \<and> hexstr_checker 0 [48, 48] \<and> hexstr_checker 0 (replicate 8 48) \<and>
   hexstr_checker 0xF [102] \<and> hexstr_checker 0xF [48, 102] \<and> hexstr_checker 0xF (replicate 7 48 @ [70]) \<and>
   hexstr_checker 0xFFFFFFFF (replicate 8 70)"
  by code_simp

text \<open>C28: The byte-parallel \<open>hexstr2val\<close> is the usual reading of a hexadecimal number:
  for a string of one to eight digits, upper or lower case, it returns the value of
  the digits; hence it reads back what \<open>%0fX\<close> prints for every 32-bit number and
  width, and both exhaustive testers, \<open>hexchar2val_tester\<close> and \<open>hexstr2val_tester\<close>,
  succeed.\<close>

theorem hexstr2val_correct:
  "(\<forall>cs v. hex_value cs = Some v \<longrightarrow> 0 < length cs \<longrightarrow> length cs \<le> 8 \<longrightarrow>
      hexstr2val cs (length cs) = Some (of_nat v)) \<and>
   (\<forall>f n. f \<le> 8 \<longrightarrow> n < 2 ^ 32 \<longrightarrow> hexstr2val (sprintf_X f n) (length (sprintf_X f n)) = Some (of_nat n)) \<and>
   hexchar2val_tester \<and> hexstr2val_tester"
proof (intro conjI allI impI)
  show "hexstr2val cs (length cs) = Some (of_nat v)" if "hex_value cs = Some v" "0 < length cs" "length cs \<le> 8" for cs v
    using that by (rule hexstr2val_value)
  show rt: "hexstr2val (sprintf_X f n) (length (sprintf_X f n)) = Some (of_nat n)" if "f \<le> 8" "n < 2 ^ 32" for f n
    using hex_digits_length [of n 7] that
    by (intro hexstr2val_value sprintf_X_value) (auto simp: sprintf_X_def Let_def)
  show "hexchar2val_tester" by code_simp
  have "hexstr_checker (of_nat i) (sprintf_X f i)" if "i < 0xFFFFFFFF" "f \<le> 8" for i f
    using rt [of f i] that by (simp add: hexstr_checker_def unsigned_of_nat take_bit_nat_eq_self)
  then have "\<forall>i \<in> {0..<0xFFFFFFFF}. \<forall>f \<in> {1..<9}. hexstr_checker (of_nat i) (sprintf_X f i)" by auto
  then show "hexstr2val_tester" unfolding hexstr2val_tester_def list_all_iff set_upt using fixed_strings by blast
qed

lemma hexstr2val_correct_witness: "hexstr2val [50, 97] (length [50, 97 :: u8]) = Some (of_nat 42)"
proof -
  have "hex_value [50, 97] = Some 42" by code_simp
  moreover have "0 < length [50, 97 :: u8]" "length [50, 97 :: u8] \<le> 8" by simp_all
  ultimately show ?thesis by (rule hexstr2val_correct [THEN conjunct1, rule_format])
qed

end
