(* ===== verification/Xvec.thy ===== *)
theory Xvec
  imports Prelude
begin

text \<open>
  The vector with small-buffer optimisation of \<open>xvector/xvec.h\<close> and \<open>xvec.c\<close>.
  The storage is a list of elements: the buffer inside the object while
  \<open>on_heap\<close> is 0, the heap block after that (the union holds one of them at a
  time).  Accesses outside the storage, a failed assertion, a shift that is
  undefined in C and an unchecked failing \<open>malloc\<close> are all \<open>None\<close>.  The macros
  pass \<open>vec_capacity(v)\<close> and \<open>vec_elemsize(v)\<close> along, as here.
\<close>

section \<open>The vector\<close>

record 'a xvec =
  vsize :: nat
  on_heap :: bool
  vcap :: nat
  nbuf :: nat
  storage :: "'a list"

text \<open>The fields \<open>size\<close> and \<open>capacity\<close> have 54 and 6 bits.\<close>

definition SIZE_BITS :: nat where "SIZE_BITS = 2 ^ 54"
definition CAP_BITS :: nat where "CAP_BITS = 2 ^ 6"

text \<open>\<open>64 - __builtin_clzl(n)\<close>, the number of significant bits of \<open>n > 0\<close>.\<close>

fun bit_len :: "nat \<Rightarrow> nat" where
  "bit_len n = (if n = 0 then 0 else Suc (bit_len (n div 2)))"

declare bit_len.simps [simp del]

definition ilog2 :: "nat \<Rightarrow> nat option" where
  "ilog2 n = (if n = 0 then None else Some (bit_len n - (if and n (n - 1) = 0 then 1 else 0)))"

definition STACK_SIZE :: "nat \<Rightarrow> nat" where
  "STACK_SIZE s = (if and s (s - 1) = 0 then s else 2 ^ bit_len s)"

definition to_capacity :: "nat \<Rightarrow> nat option" where
  "to_capacity n = (if n < 31 then Some (2 ^ n) else None)"

definition expand_capacity :: "nat \<Rightarrow> nat option" where
  "expand_capacity c = map_option Suc (ilog2 c)"

definition vec_init :: "nat \<Rightarrow> 'a \<Rightarrow> 'a list \<Rightarrow> 'a xvec option" where
  "vec_init s zero args =
     (let n = STACK_SIZE s in
      if length args \<le> n
      then Some \<lparr>vsize = length args, on_heap = False, vcap = n mod CAP_BITS, nbuf = n,
                 storage = args @ replicate (n - length args) zero\<rparr>
      else None)"

definition vec_capacity :: "'a xvec \<Rightarrow> nat option" where
  "vec_capacity v = (if on_heap v then to_capacity (vcap v) else Some (nbuf v))"

definition vec_pos :: "'a xvec \<Rightarrow> nat \<Rightarrow> 'a option" where
  "vec_pos v n = (if n < vsize v \<and> n < length (storage v) then Some (storage v ! n) else None)"

text \<open>
  A new block for \<open>count\<close> elements of \<open>es\<close> bytes that starts with the elements
  \<open>old\<close> and is uninitialised (\<open>junk\<close>) behind them; \<open>avail\<close> says which requests
  \<open>malloc\<close> and \<open>realloc\<close> can serve.
\<close>

definition new_block :: "(nat \<Rightarrow> bool) \<Rightarrow> 'a \<Rightarrow> nat \<Rightarrow> nat \<Rightarrow> 'a list \<Rightarrow> 'a list option" where
  "new_block avail junk es count old =
     (let bytes = size_mul es count; n = bytes div es in
      if avail bytes then Some (take n old @ replicate (n - length old) junk) else None)"

text \<open>\<open>malloc\<close> followed by \<open>memcpy\<close> of the elements, which must fit.\<close>

definition move_to_heap :: "(nat \<Rightarrow> bool) \<Rightarrow> 'a \<Rightarrow> nat \<Rightarrow> nat \<Rightarrow> nat \<Rightarrow> 'a xvec \<Rightarrow> 'a xvec option" where
  "move_to_heap avail junk es c count v =
     (case mem_load 0 (vsize v) (storage v) of
        None \<Rightarrow> None
      | Some old \<Rightarrow>
          (case new_block avail junk es count [] of
             None \<Rightarrow> None
           | Some tmp \<Rightarrow>
               map_option (\<lambda>st. v\<lparr>vcap := c mod CAP_BITS, storage := st, on_heap := True\<rparr>)
                 (mem_store 0 old tmp)))"

definition vec_reserve :: "(nat \<Rightarrow> bool) \<Rightarrow> 'a \<Rightarrow> nat \<Rightarrow> 'a xvec \<Rightarrow> nat \<Rightarrow> nat \<Rightarrow> 'a xvec option" where
  "vec_reserve avail junk es v n capacity =
     (if n > capacity then
        case ilog2 n of
          None \<Rightarrow> None
        | Some c \<Rightarrow>
            if c \<ge> 64 then None
            else if on_heap v then
              map_option (\<lambda>st. v\<lparr>vcap := c mod CAP_BITS, storage := st\<rparr>)
                (new_block avail junk es (2 ^ c) (storage v))
            else move_to_heap avail junk es c (2 ^ c) v
      else Some v)"

text \<open>The first part of \<open>__vec_push_back\<close> and \<open>__vec_insert\<close>: making room for one more element.\<close>

definition make_room :: "(nat \<Rightarrow> bool) \<Rightarrow> 'a \<Rightarrow> nat \<Rightarrow> 'a xvec \<Rightarrow> nat \<Rightarrow> 'a xvec option" where
  "make_room avail junk es v capacity =
     (if vsize v = capacity then
        if on_heap v then
          let c = (vcap v + 1) mod CAP_BITS in
          case to_capacity c of
            None \<Rightarrow> None
          | Some count \<Rightarrow>
              map_option (\<lambda>st. v\<lparr>vcap := c, storage := st\<rparr>) (new_block avail junk es count (storage v))
        else
          case expand_capacity capacity of
            None \<Rightarrow> None
          | Some c \<Rightarrow>
              (case to_capacity (c mod CAP_BITS) of
                 None \<Rightarrow> None
               | Some count \<Rightarrow> move_to_heap avail junk es c count v)
      else Some v)"

definition vec_push_back :: "(nat \<Rightarrow> bool) \<Rightarrow> 'a \<Rightarrow> nat \<Rightarrow> 'a xvec \<Rightarrow> 'a \<Rightarrow> nat \<Rightarrow> 'a xvec option" where
  "vec_push_back avail junk es v e capacity =
     (case make_room avail junk es v capacity of
        None \<Rightarrow> None
      | Some v \<Rightarrow>
          map_option (\<lambda>st. v\<lparr>storage := st, vsize := (vsize v + 1) mod SIZE_BITS\<rparr>)
            (mem_store (vsize v) [e] (storage v)))"

definition vec_insert :: "(nat \<Rightarrow> bool) \<Rightarrow> 'a \<Rightarrow> nat \<Rightarrow> 'a xvec \<Rightarrow> nat \<Rightarrow> 'a \<Rightarrow> nat \<Rightarrow> 'a xvec option" where
  "vec_insert avail junk es v index e capacity =
     (if index < vsize v then
        case make_room avail junk es v capacity of
          None \<Rightarrow> None
        | Some v \<Rightarrow>
            (case mem_load index (vsize v - index) (storage v) of
               None \<Rightarrow> None
             | Some tail \<Rightarrow>
                 (case mem_store (1 + index) tail (storage v) of
                    None \<Rightarrow> None
                  | Some st \<Rightarrow>
                      map_option (\<lambda>st. v\<lparr>storage := st, vsize := (vsize v + 1) mod SIZE_BITS\<rparr>)
                        (mem_store index [e] st)))
      else None)"

definition vec_pop_back :: "'a xvec \<Rightarrow> 'a xvec" where
  "vec_pop_back v = v\<lparr>vsize := vsize v - (if vsize v \<noteq> 0 then 1 else 0)\<rparr>"

definition vec_erase :: "'a xvec \<Rightarrow> nat \<Rightarrow> 'a xvec option" where
  "vec_erase v index =
     (if index < vsize v then
        case mem_load (1 + index) (vsize v - index) (storage v) of
          None \<Rightarrow> None
        | Some tail \<Rightarrow> map_option (\<lambda>st. v\<lparr>storage := st, vsize := vsize v - 1\<rparr>) (mem_store index tail (storage v))
      else None)"

text \<open>\<open>vec_free\<close>: whether the block is passed to \<open>free\<close>.\<close>

definition vec_free :: "'a xvec \<Rightarrow> bool" where
  "vec_free v = on_heap v"

end
