(* ===== verification/Xvec_Spec.thy ===== *)
theory Xvec_Spec
  imports Xvec
begin

text \<open>
  The vector refines a list: \<open>vec_list\<close> is the list it stands for, \<open>vec_ok\<close> its
  invariant.  The locale \<open>sequence\<close> is the contract between a container and the
  list operations; from the laws for one operation follows the refinement for
  every sequence of operations.
\<close>

section \<open>Sequences\<close>

datatype 'a seq_op = Push 'a | Pop | Insert nat 'a | Erase nat | Reserve nat

fun list_op :: "'a seq_op \<Rightarrow> 'a list \<Rightarrow> 'a list option" where
  "list_op (Push e) l = Some (l @ [e])"
| "list_op Pop l = Some (butlast l)"
| "list_op (Insert i e) l = (if i < length l then Some (take i l @ e # drop i l) else None)"
| "list_op (Erase i) l = (if i < length l then Some (take i l @ drop (Suc i) l) else None)"
| "list_op (Reserve n) l = Some l"

primrec run_ops :: "('o \<Rightarrow> 's \<Rightarrow> 's option) \<Rightarrow> 'o list \<Rightarrow> 's \<Rightarrow> 's option" where
  "run_ops step [] s = Some s"
| "run_ops step (x # xs) s = (case step x s of None \<Rightarrow> None | Some s' \<Rightarrow> run_ops step xs s')"

lemma list_op_length: "list_op x l = Some l' \<Longrightarrow> length l' \<le> Suc (length l)"
  by (cases x) (auto split: if_splits)

text \<open>\<open>okop\<close> restricts the operations, \<open>safe\<close> says in which states the container can
  carry out an operation that the list can.\<close>

locale sequence =
  fixes inv :: "'s \<Rightarrow> bool" and contents :: "'s \<Rightarrow> 'a list" and step :: "'a seq_op \<Rightarrow> 's \<Rightarrow> 's option"
    and okop :: "'a seq_op \<Rightarrow> bool" and safe :: "'a seq_op \<Rightarrow> 's \<Rightarrow> bool" and max_len :: nat
  assumes step_refines: "inv s \<Longrightarrow> okop x \<Longrightarrow> length (contents s) < max_len \<Longrightarrow> safe x s \<Longrightarrow>
      (case list_op x (contents s) of
         None \<Rightarrow> step x s = None
       | Some l \<Rightarrow> \<exists>s'. step x s = Some s' \<and> inv s' \<and> contents s' = l)"
    and step_unsafe: "inv s \<Longrightarrow> okop x \<Longrightarrow> length (contents s) < max_len \<Longrightarrow> \<not> safe x s \<Longrightarrow> step x s = None"
begin

lemma run_sound:
  "inv s \<Longrightarrow> length (contents s) + length xs \<le> max_len \<Longrightarrow> list_all okop xs \<Longrightarrow> run_ops step xs s = Some s' \<Longrightarrow>
    inv s' \<and> run_ops list_op xs (contents s) = Some (contents s')"
proof (induction xs arbitrary: s)
  case (Cons x xs)
  then obtain s1 where s1: "step x s = Some s1" "run_ops step xs s1 = Some s'"
    by (auto split: option.splits)
  have len: "length (contents s) < max_len" using Cons.prems(2) by simp
  have ok: "okop x" "list_all okop xs" using Cons.prems(3) by simp_all
  have "safe x s" using step_unsafe [OF Cons.prems(1) ok(1) len] s1(1) by force
  then have "inv s1" "list_op x (contents s) = Some (contents s1)"
    using step_refines [OF Cons.prems(1) ok(1) len] s1(1) by (force split: option.splits)+
  then show ?case
    using Cons.IH [of s1] s1(2) Cons.prems(2) ok(2) list_op_length [of x "contents s" "contents s1"] by simp
qed simp

lemma run_complete:
  "inv s \<Longrightarrow> length (contents s) + length xs \<le> max_len \<Longrightarrow> list_all okop xs \<Longrightarrow> (\<And>x s. x \<in> set xs \<Longrightarrow> safe x s) \<Longrightarrow>
    run_ops list_op xs (contents s) = Some l \<Longrightarrow> \<exists>s'. run_ops step xs s = Some s' \<and> inv s' \<and> contents s' = l"
proof (induction xs arbitrary: s)
  case (Cons x xs)
  then obtain l1 where l1: "list_op x (contents s) = Some l1" "run_ops list_op xs l1 = Some l"
    by (auto split: option.splits)
  have len: "length (contents s) < max_len" using Cons.prems(2) by simp
  have ok: "safe x s" "okop x" "list_all okop xs" using Cons.prems(3,4) by simp_all
  obtain s1 where s1: "step x s = Some s1" "inv s1" "contents s1 = l1"
    using step_refines [OF Cons.prems(1) ok(2) len ok(1)] l1(1) by auto
  then show ?case
    using Cons.IH [of s1] l1 ok(3) Cons.prems(2,4) list_op_length [OF l1(1)] by simp
qed simp

end

section \<open>Logarithms\<close>

lemma bit_len_bounds: "0 < n \<Longrightarrow> 2 ^ (bit_len n - 1) \<le> n \<and> n < 2 ^ bit_len n \<and> 0 < bit_len n"
proof (induction n rule: bit_len.induct)
  case (1 n)
  show ?case
  proof (cases "n div 2 = 0")
    case True
    then have "n = 1" using 1(2) by presburger
    then show ?thesis by (simp add: bit_len.simps)
  next
    case False
    then have ih: "2 ^ (bit_len (n div 2) - 1) \<le> n div 2" "n div 2 < 2 ^ bit_len (n div 2)" "0 < bit_len (n div 2)"
      using 1(1) [of] 1(2) by auto
    obtain k where k: "bit_len (n div 2) = Suc k" using ih(3) gr0_implies_Suc by blast
    then have "bit_len n = Suc (Suc k)" using 1(2) by (subst bit_len.simps) simp
    then show ?thesis using ih(1,2) k by auto
  qed
qed

lemma and_pred_pow2: "and (2 ^ k) (2 ^ k - 1) = (0::nat)"
proof -
  have "and (2 ^ k) (mask k) = (0::nat)"
    by (rule bit_eqI) (auto simp: bit_and_iff bit_exp_iff bit_mask_iff)
  then show ?thesis by (simp add: mask_eq_exp_minus_1)
qed

lemma and_pred_zero: "0 < n \<Longrightarrow> and n (n - 1) = (0::nat) \<Longrightarrow> n = 2 ^ (bit_len n - 1)"
proof (induction n rule: bit_len.induct)
  case (1 n)
  show ?case
  proof (cases "odd n")
    case True
    then obtain m where m: "n = 2 * m + 1" by (metis oddE)
    then have "and n (n - 1) = 2 * m"
      by (simp add: m and_rec [of "Suc (2 * m)"])
    then show ?thesis using 1(3) m by (simp add: bit_len.simps)
  next
    case False
    then obtain m where m: "n = 2 * m" "0 < m" using 1(2) by (auto elim: evenE)
    have "and n (n - 1) = 2 * and m (m - 1)"
    proof -
      have "n - 1 = 2 * (m - 1) + 1" using m by simp
      then show ?thesis by (simp add: m(1) and_rec [of "2 * m"])
    qed
    then have "m = 2 ^ (bit_len m - 1)" using 1 m by simp
    moreover have "bit_len n = Suc (bit_len m)" using m by (subst bit_len.simps) simp
    moreover have "0 < bit_len m" using bit_len_bounds [OF m(2)] by simp
    ultimately show ?thesis using m(1) by (metis diff_Suc_1 power_Suc Suc_pred)
  qed
qed

lemma ilog2_pow2: "ilog2 (2 ^ k) = Some k"
proof -
  have "2 ^ (bit_len (2 ^ k) - 1) = (2::nat) ^ k" using and_pred_zero [OF _ and_pred_pow2, of k] by simp
  then have "bit_len (2 ^ k) - 1 = k" by simp
  then show ?thesis using and_pred_pow2 [of k] by (simp add: ilog2_def)
qed

lemma ilog2_bounds:
  assumes "0 < n"
  obtains c where "ilog2 n = Some c" "n \<le> 2 ^ c" "2 ^ c < 2 * n"
proof (cases "and n (n - 1) = 0")
  case True
  then have n: "n = 2 ^ (bit_len n - 1)" using and_pred_zero assms by simp
  show thesis using that [of "bit_len n - 1"] n assms by (metis ilog2_pow2 le_refl less_add_same_cancel1 mult_2)
next
  case False
  then have "n \<noteq> 2 ^ (bit_len n - 1)" using and_pred_pow2 by metis
  moreover have "2 ^ bit_len n = 2 * (2::nat) ^ (bit_len n - 1)"
    using bit_len_bounds [OF assms] by (metis Suc_pred' power_Suc)
  ultimately show thesis using that [of "bit_len n"] bit_len_bounds [OF assms] False assms
    by (simp add: ilog2_def)
qed

section \<open>The invariant and the list\<close>

definition vec_ok :: "'a xvec \<Rightarrow> bool" where
  "vec_ok v \<longleftrightarrow> vsize v \<le> length (storage v) \<and> vsize v < 2 ^ 30 \<and>
     (if on_heap v then vcap v < 31 \<and> length (storage v) = 2 ^ vcap v
      else length (storage v) = nbuf v \<and> (\<exists>k. nbuf v = 2 ^ k))"

definition vec_list :: "'a xvec \<Rightarrow> 'a list" where
  "vec_list v = take (vsize v) (storage v)"

text \<open>Memory suffices and sizes in bytes do not overflow.\<close>

definition alloc_ok :: "(nat \<Rightarrow> bool) \<Rightarrow> nat \<Rightarrow> bool" where
  "alloc_ok avail es \<longleftrightarrow> (\<forall>n. avail n) \<and> 0 < es \<and> es * 2 ^ 30 < SIZE_MOD"

lemma vec_capacity_ok: "vec_ok v \<Longrightarrow> vec_capacity v = Some (length (storage v))"
  by (simp add: vec_ok_def vec_capacity_def to_capacity_def split: if_splits)

lemma new_block_ok:
  assumes "alloc_ok avail es" "c \<le> 30"
  shows "new_block avail junk es (2 ^ c) old = Some (take (2 ^ c) old @ replicate (2 ^ c - length old) junk)"
proof -
  have "(2::nat) ^ c \<le> 2 ^ 30" using assms(2) by (intro power_increasing) simp_all
  then have "es * 2 ^ c \<le> es * 2 ^ 30" by (rule mult_le_mono2)
  then have "es * 2 ^ c < SIZE_MOD" using assms(1) unfolding alloc_ok_def by linarith
  then have "size_mul es (2 ^ c) = es * 2 ^ c" by (rule size_mul_id)
  then show ?thesis using assms(1) by (simp add: new_block_def alloc_ok_def Let_def)
qed

text \<open>A vector whose storage has been replaced by a larger heap block with the same elements.\<close>

definition grown :: "nat \<Rightarrow> 'a xvec \<Rightarrow> 'a xvec \<Rightarrow> bool" where
  "grown n v v' \<longleftrightarrow> vec_ok v' \<and> vsize v' = vsize v \<and> vec_list v' = vec_list v \<and> n \<le> length (storage v')"

lemma grown_mono: "grown m v v' \<Longrightarrow> n \<le> m \<Longrightarrow> grown n v v'"
  by (simp add: grown_def)

lemma move_to_heap_ok:
  assumes A: "alloc_ok avail es" "c \<le> 30" and v: "vec_ok v" "vsize v \<le> 2 ^ c"
  shows "\<exists>v'. move_to_heap avail junk es c (2 ^ c) v = Some v' \<and> grown (2 ^ c) v v'"
proof -
  have "c < CAP_BITS" using A(2) by (simp add: CAP_BITS_def)
  then show ?thesis
    using v A(2) by (auto simp: move_to_heap_def new_block_ok [OF A] mem_load_def mem_store_def vec_ok_def
        grown_def vec_list_def slice_def blit_def min_def split: if_splits)
qed

lemma realloc_ok:
  assumes A: "alloc_ok avail es" "c \<le> 30" and v: "vec_ok v" "on_heap v" "length (storage v) \<le> 2 ^ c"
  shows "\<exists>st. new_block avail junk es (2 ^ c) (storage v) = Some st \<and> grown (2 ^ c) v (v\<lparr>vcap := c, storage := st\<rparr>)"
proof -
  have "vsize v \<le> 2 ^ c" using v(1,3) unfolding vec_ok_def by linarith
  then show ?thesis
    using v A(2) by (auto simp: new_block_ok [OF A] vec_ok_def grown_def vec_list_def min_def split: if_splits)
qed

lemma pow2_less_cancel: "(2::nat) ^ c < 2 ^ k \<Longrightarrow> c < k"
  by simp

lemma make_room_ok:
  assumes A: "alloc_ok avail es" and v: "vec_ok v" "vsize v < 2 ^ 29"
  shows "\<exists>v'. make_room avail junk es v (length (storage v)) = Some v' \<and> grown (vsize v + 1) v v'"
proof (cases "vsize v = length (storage v)")
  case False
  then show ?thesis using v by (auto simp: make_room_def grown_def vec_ok_def)
next
  case full: True
  show ?thesis
  proof (cases "on_heap v")
    case True
    then have c: "length (storage v) = 2 ^ vcap v" using v by (simp add: vec_ok_def)
    then have "vcap v < 29" using v(2) full by (metis pow2_less_cancel)
    then have "Suc (vcap v) \<le> 30" "(vcap v + 1) mod CAP_BITS = Suc (vcap v)" by (simp_all add: CAP_BITS_def)
    moreover have "vsize v + 1 \<le> 2 ^ Suc (vcap v)" using c full by simp
    ultimately show ?thesis using realloc_ok [OF A \<open>Suc (vcap v) \<le> 30\<close> v(1) True, of junk] c full True
      by (auto simp: make_room_def to_capacity_def Let_def simp del: power_Suc intro: grown_mono)
  next
    case False
    then obtain k where k: "length (storage v) = 2 ^ k" using v by (auto simp: vec_ok_def)
    then have "k < 29" using v(2) full by (metis pow2_less_cancel)
    then have c: "Suc k \<le> 30" "Suc k mod CAP_BITS = Suc k" by (simp_all add: CAP_BITS_def)
    have "expand_capacity (length (storage v)) = Some (Suc k)" by (simp add: expand_capacity_def k ilog2_pow2)
    moreover have "vsize v + 1 \<le> 2 ^ Suc k" "vsize v \<le> 2 ^ Suc k" using k full by simp_all
    ultimately show ?thesis using move_to_heap_ok [OF A c(1) v(1), of junk] c full False k
      by (auto simp: make_room_def to_capacity_def simp del: power_Suc intro: grown_mono)
  qed
qed

lemma reserve_ok:
  assumes A: "alloc_ok avail es" and v: "vec_ok v" "n < 2 ^ 29"
  shows "\<exists>v'. vec_reserve avail junk es v n (length (storage v)) = Some v' \<and> grown n v v'"
proof (cases "n > length (storage v)")
  case False
  then show ?thesis using v by (auto simp: vec_reserve_def grown_def)
next
  case True
  then have "0 < n" by simp
  then obtain c where c: "ilog2 n = Some c" "n \<le> 2 ^ c" "2 ^ c < 2 * n" by (rule ilog2_bounds)
  have "(2::nat) ^ c < 2 ^ 30" using c(3) v(2) by simp
  then have "c < 30" by (rule pow2_less_cancel)
  then have c30: "c \<le> 30" "c mod CAP_BITS = c" by (simp_all add: CAP_BITS_def)
  have len: "length (storage v) \<le> 2 ^ c" "vsize v \<le> 2 ^ c" using True c(2) v(1) by (auto simp: vec_ok_def)
  show ?thesis
    using realloc_ok [OF A c30(1) v(1) _ len(1), of junk] move_to_heap_ok [OF A c30(1) v(1) len(2), of junk] True c c30
    by (cases "on_heap v") (auto simp: vec_reserve_def grown_def)
qed

section \<open>The operations\<close>

text \<open>The operations as the macros of \<open>xvec.h\<close> call them.\<close>

fun vec_step :: "(nat \<Rightarrow> bool) \<Rightarrow> 'a \<Rightarrow> nat \<Rightarrow> 'a seq_op \<Rightarrow> 'a xvec \<Rightarrow> 'a xvec option" where
  "vec_step avail junk es (Push e) v = Option.bind (vec_capacity v) (vec_push_back avail junk es v e)"
| "vec_step avail junk es Pop v = Some (vec_pop_back v)"
| "vec_step avail junk es (Insert i e) v = Option.bind (vec_capacity v) (vec_insert avail junk es v i e)"
| "vec_step avail junk es (Erase i) v = vec_erase v i"
| "vec_step avail junk es (Reserve n) v = Option.bind (vec_capacity v) (vec_reserve avail junk es v n)"

lemma vec_list_length: "vec_ok v \<Longrightarrow> length (vec_list v) = vsize v"
  by (simp add: vec_list_def vec_ok_def)

lemma vec_size_update:
  assumes "vec_ok v" "length st = length (storage v)" "n \<le> length st" "n < 2 ^ 30"
  shows "vec_ok (v\<lparr>storage := st, vsize := n\<rparr>)"
  using assms by (auto simp: vec_ok_def)

lemma vec_push_back_ok:
  assumes A: "alloc_ok avail es" and v: "vec_ok v" "vsize v < 2 ^ 29"
  shows "\<exists>v'. vec_push_back avail junk es v e (length (storage v)) = Some v' \<and> vec_ok v' \<and> vec_list v' = vec_list v @ [e]"
proof -
  obtain w where w: "make_room avail junk es v (length (storage v)) = Some w" "grown (vsize v + 1) v w"
    using make_room_ok [OF assms] by blast
  let ?st = "blit (vsize w) [e] (storage w)"
  have g: "vec_ok w" "vsize w = vsize v" "vec_list w = vec_list v" "vsize v + 1 \<le> length (storage w)"
    using w(2) by (simp_all add: grown_def)
  have "(vsize w + 1) mod SIZE_BITS = vsize w + 1" using v(2) g(2) by (simp add: SIZE_BITS_def)
  moreover have "vec_ok (w\<lparr>storage := ?st, vsize := vsize w + 1\<rparr>)"
    using g v(2) by (intro vec_size_update) simp_all
  moreover have "take (vsize w + 1) ?st = take (vsize w) (storage w) @ [e]" using g(2,4) by (simp add: blit_def min_def)
  ultimately show ?thesis using w(1) g by (simp add: vec_push_back_def mem_store_def vec_list_def del: One_nat_def)
qed

lemma vec_insert_ok:
  assumes A: "alloc_ok avail es" and v: "vec_ok v" "vsize v < 2 ^ 29" and i: "i < vsize v"
  shows "\<exists>v'. vec_insert avail junk es v i e (length (storage v)) = Some v' \<and> vec_ok v' \<and>
    vec_list v' = take i (vec_list v) @ e # drop i (vec_list v)"
proof -
  obtain w where w: "make_room avail junk es v (length (storage v)) = Some w" "grown (vsize v + 1) v w"
    using make_room_ok [OF A v] by blast
  have g: "vec_ok w" "vsize w = vsize v" "vec_list w = vec_list v" "vsize v + 1 \<le> length (storage w)"
    using w(2) by (simp_all add: grown_def)
  let ?n = "vsize v"
  let ?tail = "slice i (?n - i) (storage w)"
  let ?st = "blit (1 + i) ?tail (storage w)"
  have len: "length ?tail = ?n - i" "length ?st = length (storage w)" using g(4) i by simp_all
  have vl: "vec_list v = take ?n (storage w)" using g(2,3) by (simp add: vec_list_def)
  have sz: "(?n + 1) mod SIZE_BITS = ?n + 1" using v(2) by (simp add: SIZE_BITS_def)
  have ok: "vec_ok (w\<lparr>storage := blit i [e] ?st, vsize := ?n + 1\<rparr>)"
    using g v(2) i len by (intro vec_size_update) simp_all
  have "take (?n + 1) (blit i [e] ?st) = take i (take ?n (storage w)) @ e # drop i (take ?n (storage w))"
  proof (rule nth_equalityI)
    fix j assume "j < length (take (?n + 1) (blit i [e] ?st))"
    then have j: "j < ?n + 1" "j < length (storage w)" using len g(4) i by simp_all
    then show "take (?n + 1) (blit i [e] ?st) ! j = (take i (take ?n (storage w)) @ e # drop i (take ?n (storage w))) ! j"
      using len g(4) i by (auto simp: nth_blit nth_append nth_Cons' nth_slice min_def)
  qed (use len g(4) i in simp)
  then have lst: "vec_list (w\<lparr>storage := blit i [e] ?st, vsize := ?n + 1\<rparr>) = take i (vec_list v) @ e # drop i (vec_list v)"
    unfolding vl by (simp add: vec_list_def)
  show ?thesis
    using w(1) g(2,4) i ok lst sz len by (simp add: vec_insert_def mem_store_def mem_load_def del: One_nat_def)
qed

text \<open>\<open>vec_erase\<close> moves one element too many: it reads the element behind the last one.\<close>

lemma vec_erase_result:
  assumes v: "vec_ok v" and i: "i < vsize v"
  shows "vsize v = length (storage v) \<Longrightarrow> vec_erase v i = None"
    "vsize v < length (storage v) \<Longrightarrow> \<exists>v'. vec_erase v i = Some v' \<and> vec_ok v' \<and>
      vec_list v' = take i (vec_list v) @ drop (Suc i) (vec_list v)"
proof -
  show "vsize v = length (storage v) \<Longrightarrow> vec_erase v i = None"
    using i by (simp add: vec_erase_def mem_load_def)
  assume room: "vsize v < length (storage v)"
  let ?n = "vsize v"
  let ?tail = "slice (1 + i) (?n - i) (storage v)"
  have len: "length ?tail = ?n - i" using room i by simp
  have ok: "vec_ok (v\<lparr>storage := blit i ?tail (storage v), vsize := ?n - 1\<rparr>)"
    using v room i len by (intro vec_size_update) (auto simp: vec_ok_def)
  have "take (?n - 1) (blit i ?tail (storage v)) = take i (take ?n (storage v)) @ drop (Suc i) (take ?n (storage v))"
  proof (rule nth_equalityI)
    fix j assume "j < length (take (?n - 1) (blit i ?tail (storage v)))"
    then have "j < ?n - 1" "j < length (storage v)" using len room i by simp_all
    then show "take (?n - 1) (blit i ?tail (storage v)) ! j = (take i (take ?n (storage v)) @ drop (Suc i) (take ?n (storage v))) ! j"
      using len room i by (auto simp: nth_blit nth_append nth_slice min_def)
  qed (use len room i in simp)
  then show "\<exists>v'. vec_erase v i = Some v' \<and> vec_ok v' \<and> vec_list v' = take i (vec_list v) @ drop (Suc i) (vec_list v)"
    using room i len ok by (simp add: vec_erase_def mem_load_def mem_store_def vec_list_def)
qed

definition vec_safe :: "'a seq_op \<Rightarrow> 'a xvec \<Rightarrow> bool" where
  "vec_safe x v \<longleftrightarrow> (case x of Erase i \<Rightarrow> vsize v \<le> i \<or> vsize v < length (storage v) | _ \<Rightarrow> True)"

definition vec_okop :: "'a seq_op \<Rightarrow> bool" where
  "vec_okop x \<longleftrightarrow> (case x of Reserve n \<Rightarrow> n < 2 ^ 29 | _ \<Rightarrow> True)"

text \<open>The vector is a sequence wherever memory suffices.\<close>

lemma vec_sequence:
  assumes A: "alloc_ok avail es"
  shows "sequence vec_ok vec_list (vec_step avail junk es) vec_okop vec_safe (2 ^ 29)"
proof
  fix v :: "'a xvec" and x :: "'a seq_op"
  assume v: "vec_ok v" "vec_okop x" "length (vec_list v) < 2 ^ 29"
  note sz = v(3) [unfolded vec_list_length [OF v(1)]]
  show "case list_op x (vec_list v) of None \<Rightarrow> vec_step avail junk es x v = None
      | Some l \<Rightarrow> \<exists>v'. vec_step avail junk es x v = Some v' \<and> vec_ok v' \<and> vec_list v' = l" if "vec_safe x v"
  proof (cases x)
    case (Push e)
    then show ?thesis using vec_push_back_ok [OF A v(1) sz, of junk e] by (simp add: vec_capacity_ok [OF v(1)])
  next
    case Pop
    have "vec_ok (vec_pop_back v)" using v(1) by (auto simp: vec_pop_back_def vec_ok_def)
    moreover have "vec_list (vec_pop_back v) = butlast (vec_list v)"
      using v(1) by (auto simp: vec_pop_back_def vec_list_def vec_ok_def butlast_take)
    ultimately show ?thesis using Pop by simp
  next
    case (Insert i e)
    then show ?thesis using vec_insert_ok [OF A v(1) sz, of i junk e]
      by (simp add: vec_capacity_ok [OF v(1)] vec_list_length [OF v(1)] vec_insert_def)
  next
    case (Erase i)
    then show ?thesis using vec_erase_result(2) [OF v(1), of i] that
      by (auto simp: vec_list_length [OF v(1)] vec_safe_def vec_erase_def)
  next
    case (Reserve n)
    then obtain v' where "vec_reserve avail junk es v n (length (storage v)) = Some v'" "grown n v v'"
      using reserve_ok [OF A v(1), of n junk] v(2) by (auto simp: vec_okop_def)
    then show ?thesis using Reserve by (simp add: vec_capacity_ok [OF v(1)] grown_def)
  qed
  show "vec_step avail junk es x v = None" if unsafe: "\<not> vec_safe x v"
  proof -
    obtain i where i: "x = Erase i" "i < vsize v" "length (storage v) \<le> vsize v"
      using unsafe by (auto simp: vec_safe_def split: seq_op.splits)
    then have "vsize v = length (storage v)" using v(1) unfolding vec_ok_def by linarith
    then show ?thesis using vec_erase_result(1) [OF v(1) i(2)] i(1) by simp
  qed
qed

text \<open>The instance the unit test uses most: four-byte elements.\<close>

interpretation xv: sequence vec_ok vec_list "vec_step (\<lambda>_. True) junk 4" vec_okop vec_safe "2 ^ 29"
  for junk :: 'a
  by (rule vec_sequence) (simp add: alloc_ok_def SIZE_MOD_def)

lemma STACK_SIZE_pow2: "0 < s \<Longrightarrow> \<exists>k. STACK_SIZE s = 2 ^ k"
  unfolding STACK_SIZE_def using and_pred_zero [of s] by metis

lemma vec_init_ok:
  assumes "vec_init s zero args = Some v" "0 < s" "length args < 2 ^ 30"
  shows "vec_ok v" "vec_list v = args"
proof -
  have n: "length args \<le> STACK_SIZE s" using assms(1) by (simp add: vec_init_def Let_def split: if_splits)
  have v: "v = \<lparr>vsize = length args, on_heap = False, vcap = STACK_SIZE s mod CAP_BITS, nbuf = STACK_SIZE s,
      storage = args @ replicate (STACK_SIZE s - length args) zero\<rparr>"
    using assms(1) n by (simp add: vec_init_def Let_def)
  show "vec_ok v" using STACK_SIZE_pow2 [OF assms(2)] assms(3) n by (simp add: v vec_ok_def)
  show "vec_list v = args" by (simp add: v vec_list_def)
qed

text \<open>C20: The vector refines a list.  For every sequence of push, pop, insert, erase
  and reserve on a vector in its invariant, with at most \<open>2 ^ 29\<close> elements: when the
  sequence runs to the end, the list it leaves is the list that the same operations
  on lists leave; and when it contains no erase, it runs to the end whenever the
  list operations do.\<close>

theorem xvec_refines_list:
  assumes "alloc_ok avail es" "vec_ok v" "vsize v + length xs \<le> 2 ^ 29" "list_all vec_okop xs"
  shows "(\<forall>v'. run_ops (vec_step avail junk es) xs v = Some v' \<longrightarrow>
      vec_ok v' \<and> run_ops list_op xs (vec_list v) = Some (vec_list v')) \<and>
    ((\<forall>i. Erase i \<notin> set xs) \<longrightarrow> (\<forall>l. run_ops list_op xs (vec_list v) = Some l \<longrightarrow>
      (\<exists>v'. run_ops (vec_step avail junk es) xs v = Some v' \<and> vec_list v' = l)))"
proof -
  note S = vec_sequence [OF assms(1), of junk]
  have len: "length (vec_list v) + length xs \<le> 2 ^ 29" using assms(3) by (simp add: vec_list_length [OF assms(2)])
  have "(\<forall>i. Erase i \<notin> set xs) \<Longrightarrow> x \<in> set xs \<Longrightarrow> vec_safe x s" for x s
    by (auto simp: vec_safe_def split: seq_op.splits)
  then show ?thesis
    using sequence.run_sound [OF S assms(2) len assms(4)] sequence.run_complete [OF S assms(2) len assms(4)] by blast
qed

definition vec_example :: "nat xvec" where
  "vec_example = \<lparr>vsize = 2, on_heap = False, vcap = 2, nbuf = 2, storage = [13, 42]\<rparr>"

lemma vec_example_ok: "vec_ok vec_example" "vec_list vec_example = [13, 42]"
  by (auto simp: vec_example_def vec_ok_def vec_list_def intro: exI [of _ 1])

theorem xvec_refines_list_witness:
  "\<exists>v'. run_ops (vec_step (\<lambda>_. True) 0 4) [Push 88, Insert 1 7, Pop] vec_example = Some v' \<and> vec_list v' = [13, 7, 42]"
proof -
  have "alloc_ok (\<lambda>_. True) 4" by (simp add: alloc_ok_def SIZE_MOD_def)
  then show ?thesis
    using xvec_refines_list [of "\<lambda>_. True" 4 vec_example "[Push 88, Insert 1 7, Pop]" 0] vec_example_ok
    by (simp add: vec_okop_def vec_example_def)
qed

text \<open>Erasing from a full vector reads behind its storage: \<open>__vec_erase\<close> moves
  \<open>size - index\<close> elements although only \<open>size - index - 1\<close> follow the erased one.
  With at least one unused slot the erase is right.\<close>

theorem vec_erase_overread:
  assumes "vec_ok v" "i < vsize v"
  shows "if vsize v = length (storage v) then vec_erase v i = None
    else \<exists>v'. vec_erase v i = Some v' \<and> vec_ok v' \<and> vec_list v' = take i (vec_list v) @ drop (Suc i) (vec_list v)"
  using vec_erase_result [OF assms] assms(1) by (auto simp: vec_ok_def)

theorem vec_erase_overread_witness: "vec_ok vec_example \<and> vec_erase vec_example 0 = None"
  using vec_erase_overread [OF vec_example_ok(1), of 0] vec_example_ok(1) by (simp add: vec_example_def)

end
