(* ===== verification/Xvec_Tests.thy ===== *)
theory Xvec_Tests
  imports Xvec_Spec "HOL-Library.Monad_Syntax"
begin

text \<open>
  The function \<open>check\<close> of \<open>xvector/xvec-unittest.c\<close>.  What it prints of the vectors is
  returned: the capacities, the answers for \<open>vec2\<close> and the lines of \<open>display\<close>, each the elements of a
  vector and whether they are on the heap.  The elements are of any type; the literals of
  the source are parameters.
\<close>

section \<open>The test\<close>

definition display :: "'a xvec \<Rightarrow> ('a list \<times> bool) option" where
  "display v = do { es \<leftarrow> those (map (vec_pos v) [0..<vsize v]); Some (es, on_heap v) }"

text \<open>An operation on a vector followed by \<open>display\<close>.\<close>

definition shown :: "('a xvec \<Rightarrow> 'a xvec option) \<Rightarrow> 'a xvec \<Rightarrow> ('a xvec \<times> ('a list \<times> bool)) option" where
  "shown f v = do { v \<leftarrow> f v; d \<leftarrow> display v; Some (v, d) }"

primrec shown_all :: "('a xvec \<Rightarrow> 'a xvec option) list \<Rightarrow> 'a xvec \<Rightarrow> ('a list \<times> bool) list option" where
  "shown_all [] v = Some []"
| "shown_all (f # fs) v = do { (v, d) \<leftarrow> shown f v; ds \<leftarrow> shown_all fs v; Some (d # ds) }"

text \<open>The macros, which read the capacity themselves.\<close>

definition vpush :: "(nat \<Rightarrow> bool) \<Rightarrow> 'a \<Rightarrow> nat \<Rightarrow> 'a \<Rightarrow> 'a xvec \<Rightarrow> 'a xvec option" where
  "vpush avail junk es e v = do { c \<leftarrow> vec_capacity v; vec_push_back avail junk es v e c }"

definition vinsert :: "(nat \<Rightarrow> bool) \<Rightarrow> 'a \<Rightarrow> nat \<Rightarrow> nat \<Rightarrow> 'a \<Rightarrow> 'a xvec \<Rightarrow> 'a xvec option" where
  "vinsert avail junk es i e v = do { c \<leftarrow> vec_capacity v; vec_insert avail junk es v i e c }"

definition vreserve :: "(nat \<Rightarrow> bool) \<Rightarrow> 'a \<Rightarrow> nat \<Rightarrow> nat \<Rightarrow> 'a xvec \<Rightarrow> 'a xvec option" where
  "vreserve avail junk es n v = do { c \<leftarrow> vec_capacity v; vec_reserve avail junk es v n c }"

text \<open>\<open>vec1\<close> of floats (4 bytes), \<open>vec2\<close> of ints (4 bytes), \<open>vec3\<close> of doubles (8 bytes).\<close>

definition check_vec1 :: "(nat \<Rightarrow> bool) \<Rightarrow> 'a \<Rightarrow> 'a \<Rightarrow> 'a list \<Rightarrow> (nat \<times> ('a list \<times> bool) list) option" where
  "check_vec1 avail junk zero lits =
     do { v \<leftarrow> vec_init 3 zero [];
          c \<leftarrow> vec_capacity v;
          ds \<leftarrow> shown_all (Some # map (vpush avail junk 4) lits @ replicate 6 (\<lambda>v. Some (vec_pop_back v))) v;
          Some (c, ds) }"

definition check_vec2 :: "(nat \<Rightarrow> bool) \<Rightarrow> int \<Rightarrow> (int \<times> int \<times> nat \<times> int) option" where
  "check_vec2 avail junk =
     do { v \<leftarrow> vec_init 2 0 [13, 42];
          a \<leftarrow> vec_pos v 0;
          b \<leftarrow> vec_pos v 1;
          v \<leftarrow> vpush avail junk 4 88 v;
          v \<leftarrow> vreserve avail junk 4 100 v;
          c \<leftarrow> vec_capacity v;
          d \<leftarrow> vec_pos v 2;
          Some (a, b, c, d) }"

definition check_vec3 :: "(nat \<Rightarrow> bool) \<Rightarrow> 'a \<Rightarrow> 'a \<Rightarrow> 'a \<Rightarrow> (nat \<Rightarrow> 'a) \<Rightarrow> ('a list \<times> bool) list option" where
  "check_vec3 avail junk zero lit conv =
     do { v \<leftarrow> vec_init 2 zero [lit];
          shown_all (map (\<lambda>i. vinsert avail junk 8 i (conv i)) [0..<5]
            @ map (\<lambda>i. vinsert avail junk 8 1 (conv i)) [0..<5]
            @ replicate 9 (\<lambda>v. vec_erase v 1)) v }"

section \<open>What it prints\<close>

lemma bit_len_numeral: "bit_len (Suc 0) = 1" "bit_len (numeral k) = Suc (bit_len (numeral k div 2))"
  by (subst bit_len.simps, simp add: bit_len.simps)+

lemmas vec_eval = vec_init_def STACK_SIZE_def bit_len_numeral ilog2_def to_capacity_def expand_capacity_def
  vec_capacity_def vec_pos_def new_block_def move_to_heap_def vec_reserve_def make_room_def vec_push_back_def
  vec_insert_def vec_pop_back_def vec_erase_def vpush_def vinsert_def vreserve_def shown_def display_def
  mem_load_def mem_store_def slice_def blit_def CAP_BITS_def SIZE_BITS_def size_mul_def SIZE_MOD_def
  upt_rec Let_def replicate_numeral_eq

lemma check_vec2_prints: "check_vec2 (\<lambda>_. True) junk = Some (13, 42, 128, 88)"
  by (simp add: check_vec2_def vec_eval cong: bind_weak_cong)

lemma check_vec1_prints:
  "check_vec1 (\<lambda>_. True) junk zero [a, b, c, d, e, f] =
     Some (4, [([], False), ([a], False), ([a, b], False), ([a, b, c], False), ([a, b, c, d], False),
       ([a, b, c, d, e], True), ([a, b, c, d, e, f], True), ([a, b, c, d, e], True), ([a, b, c, d], True),
       ([a, b, c], True), ([a, b], True), ([a], True), ([], True)])"
  by (simp add: check_vec1_def vec_eval cong: bind_weak_cong)

lemma check_vec3_prints:
  "check_vec3 (\<lambda>_. True) junk zero lit conv =
     Some (map (\<lambda>k. (map conv [0..<k] @ [lit], 1 < k)) [1..<6]
       @ map (\<lambda>k. (conv 0 # rev (map conv [0..<k]) @ map conv [1..<5] @ [lit], True)) [1..<6]
       @ map (\<lambda>k. (conv 0 # drop k (rev (map conv [0..<5]) @ map conv [1..<5] @ [lit]), True)) [1..<10])"
  by (simp add: check_vec3_def vec_eval cong: bind_weak_cong)

text \<open>When \<open>malloc\<close> succeeds the test hits no assertion and no access outside a vector, and
  prints what a list would hold after each step; a vector is on the heap from the first
  element on that does not fit into its buffer.\<close>

theorem xvec_check_prints:
  assumes "\<And>n. avail n"
  shows "check_vec1 avail junk zero [a, b, c, d, e, f] =
      Some (4, map (\<lambda>k. (take k [a, b, c, d, e, f], 4 < k)) [0..<7]
        @ map (\<lambda>k. (take (5 - k) [a, b, c, d, e, f], True)) [0..<6]) \<and>
    check_vec2 avail i = Some (13, 42, 128, 88) \<and>
    check_vec3 avail jd z lit conv =
      Some (map (\<lambda>k. (map conv [0..<k] @ [lit], 1 < k)) [1..<6]
        @ map (\<lambda>k. (conv 0 # rev (map conv [0..<k]) @ map conv [1..<5] @ [lit], True)) [1..<6]
        @ map (\<lambda>k. (conv 0 # drop k (rev (map conv [0..<5]) @ map conv [1..<5] @ [lit]), True)) [1..<10])"
proof -
  have "avail = (\<lambda>_. True)" using assms by blast
  then show ?thesis by (simp only: check_vec1_prints check_vec2_prints check_vec3_prints) (simp add: upt_rec)
qed

end
