(* ===== verification/Xs.thy ===== *)
theory Xs
  imports Prelude "HOL-Library.Monad_Syntax"
begin

text \<open>
  The copy-on-write string of \<open>xstring/xs.h\<close> and \<open>xs.c\<close>.  A string of up to 15
  characters lives in the 16 bytes of the object, whose last byte holds
  \<open>space_left\<close> and the flags; a longer one in a reference-counted block on the
  heap.  An operation maps the heap and the object \<open>*x\<close> to their new values; a
  failed assertion, an access outside a block or to a freed block, and the use of
  a NULL from \<open>malloc\<close> are \<open>None\<close>.
\<close>

section \<open>Data\<close>

record refcounted =
  refcnt :: nat
  rdata :: "u8 list"

text \<open>\<open>OnHeap ptr size capacity\<close>: the bit fields of the third view of the union.\<close>

datatype xs = Inline "u8 list" | OnHeap nat nat nat

record xheap =
  blocks :: "nat \<Rightarrow> refcounted option"
  xnext :: nat

definition xs_literal_empty :: xs where
  "xs_literal_empty = Inline (replicate 15 0 @ [15])"

definition XS_SIZE_BITS :: nat where "XS_SIZE_BITS = 2 ^ 54"

text \<open>The low and the high nibble of byte 15.\<close>

definition space_left :: "u8 list \<Rightarrow> nat" where
  "space_left d = unat (d ! 15) mod 16"

definition set_space_left :: "nat \<Rightarrow> u8 list \<Rightarrow> u8 list" where
  "set_space_left n d = d[15 := of_nat (unat (d ! 15) div 16 * 16 + n mod 16)]"

fun xs_is_ptr :: "xs \<Rightarrow> bool" where
  "xs_is_ptr (Inline d) = False"
| "xs_is_ptr (OnHeap p n c) = True"

fun refcount_get :: "xheap \<Rightarrow> xs \<Rightarrow> nat option" where
  "refcount_get h (Inline d) = Some 1"
| "refcount_get h (OnHeap p n c) = map_option refcnt (blocks h p)"

definition refcount_add :: "(nat \<Rightarrow> nat) \<Rightarrow> xheap \<Rightarrow> xs \<Rightarrow> xheap option" where
  "refcount_add f h x =
     (case x of
        Inline d \<Rightarrow> None
      | OnHeap p n c \<Rightarrow>
          do { r \<leftarrow> blocks h p; Some (h\<lparr>blocks := (blocks h)(p \<mapsto> r\<lparr>refcnt := f (refcnt r)\<rparr>)\<rparr>) })"

definition refcount_increment :: "xheap \<Rightarrow> xs \<Rightarrow> xheap option" where
  "refcount_increment = refcount_add (\<lambda>n. size_add n 1)"

definition refcount_decrement :: "xheap \<Rightarrow> xs \<Rightarrow> xheap option" where
  "refcount_decrement = refcount_add (\<lambda>n. size_sub n 1)"

fun xs_size :: "xs \<Rightarrow> nat" where
  "xs_size (Inline d) = 15 - space_left d"
| "xs_size (OnHeap p n c) = n"

text \<open>The bytes \<open>xs_data\<close> points to, and writing them back.\<close>

fun xs_data :: "xheap \<Rightarrow> xs \<Rightarrow> u8 list option" where
  "xs_data h (Inline d) = Some d"
| "xs_data h (OnHeap p n c) = map_option rdata (blocks h p)"

fun put_data :: "u8 list \<Rightarrow> xheap \<Rightarrow> xs \<Rightarrow> (xheap \<times> xs) option" where
  "put_data bs h (Inline d) = Some (h, Inline bs)"
| "put_data bs h (OnHeap p n c) =
     do { r \<leftarrow> blocks h p; Some (h\<lparr>blocks := (blocks h)(p \<mapsto> r\<lparr>rdata := bs\<rparr>)\<rparr>, OnHeap p n c) }"

fun set_size :: "nat \<Rightarrow> xs \<Rightarrow> xs" where
  "set_size n (Inline d) = Inline (set_space_left (15 - n) d)"
| "set_size n (OnHeap p m c) = OnHeap p (n mod XS_SIZE_BITS) c"

fun xs_capacity :: "xs \<Rightarrow> nat" where
  "xs_capacity (Inline d) = 15"
| "xs_capacity (OnHeap p n c) = 2 ^ c - 1"

definition xs_is_free :: "xheap \<Rightarrow> xs \<Rightarrow> bool option" where
  "xs_is_free h x = map_option (\<lambda>n. n = 0) (refcount_get h x)"

text \<open>\<open>32 - __builtin_clz(n) - 1\<close> for the argument cut to \<open>uint32_t\<close>; undefined for 0.\<close>

fun floor_log :: "nat \<Rightarrow> nat" where
  "floor_log n = (if n < 2 then 0 else Suc (floor_log (n div 2)))"

declare floor_log.simps [simp del]

definition xs_ilog2 :: "nat \<Rightarrow> nat option" where
  "xs_ilog2 n = (if n mod 2 ^ 32 = 0 then None else Some (floor_log (n mod 2 ^ 32)))"

section \<open>Blocks\<close>

text \<open>\<open>sizeof(RefCounted) + size - 1\<close> bytes are allocated, eight of them for the
  counter, so \<open>size + 7\<close> bytes of data.  \<open>avail\<close> says which requests \<open>malloc\<close> can
  serve, \<open>junk\<close> is what a new block contains.\<close>

definition refcount_create :: "(nat \<Rightarrow> bool) \<Rightarrow> u8 \<Rightarrow> xheap \<Rightarrow> nat \<Rightarrow> (nat \<times> xheap) option" where
  "refcount_create avail junk h n =
     (if avail (16 + n - 1)
      then Some (xnext h, h\<lparr>xnext := xnext h + 1,
                           blocks := (blocks h)(xnext h \<mapsto> \<lparr>refcnt = 1, rdata = replicate (n + 7) junk\<rparr>)\<rparr>)
      else None)"

definition free_block :: "xheap \<Rightarrow> nat \<Rightarrow> xheap option" where
  "free_block h p = (if blocks h p = None then None else Some (h\<lparr>blocks := (blocks h)(p := None)\<rparr>))"

text \<open>\<open>memcpy\<close> into the data of block \<open>p\<close>.\<close>

definition block_store :: "nat \<Rightarrow> u8 list \<Rightarrow> xheap \<Rightarrow> nat \<Rightarrow> xheap option" where
  "block_store off bs h p =
     do { r \<leftarrow> blocks h p;
          d \<leftarrow> mem_store off bs (rdata r);
          Some (h\<lparr>blocks := (blocks h)(p \<mapsto> r\<lparr>rdata := d\<rparr>)\<rparr>) }"

definition refcount_realloc :: "(nat \<Rightarrow> bool) \<Rightarrow> u8 \<Rightarrow> xheap \<Rightarrow> xs \<Rightarrow> nat \<Rightarrow> (nat \<times> xheap) option" where
  "refcount_realloc avail junk h x n =
     (case x of
        Inline d \<Rightarrow> None
      | OnHeap q m c \<Rightarrow>
          do { k \<leftarrow> refcount_get h x;
               if k \<noteq> 1 then None
               else do {
                 src \<leftarrow> xs_data h x;
                 (p, h) \<leftarrow> refcount_create avail junk h n;
                 old \<leftarrow> mem_load 0 (m + 1) src;
                 h \<leftarrow> block_store 0 old h p;
                 h \<leftarrow> free_block h q;
                 Some (p, h) } })"

section \<open>Operations\<close>

text \<open>The C string passed to \<open>xs_new\<close> is given by its characters, without the final NUL.\<close>

definition xs_new :: "(nat \<Rightarrow> bool) \<Rightarrow> u8 \<Rightarrow> xheap \<Rightarrow> u8 list \<Rightarrow> (xheap \<times> xs) option" where
  "xs_new avail junk h s =
     (let len = length s + 1 in
      if len > 16 then
        do { l \<leftarrow> xs_ilog2 len;
             (p, h) \<leftarrow> refcount_create avail junk h (2 ^ ((l + 1) mod 64));
             h \<leftarrow> block_store 0 (s @ [0]) h p;
             Some (h, OnHeap p ((len - 1) mod XS_SIZE_BITS) ((l + 1) mod 64)) }
      else
        Some (h, Inline (set_space_left (15 - (len - 1)) (blit 0 (s @ [0]) (replicate 15 0 @ [15])))))"

text \<open>When an inline string moves to the heap, the bits of \<open>size\<close> are what bytes 8
  to 14 of the characters were.\<close>

definition xs_grow :: "(nat \<Rightarrow> bool) \<Rightarrow> u8 \<Rightarrow> xheap \<Rightarrow> xs \<Rightarrow> nat \<Rightarrow> (xheap \<times> xs) option" where
  "xs_grow avail junk h x len =
     (if len \<le> xs_capacity x then Some (h, x)
      else do {
        l \<leftarrow> xs_ilog2 len;
        case x of
          OnHeap q n c \<Rightarrow>
            do { (p, h) \<leftarrow> refcount_realloc avail junk h x (2 ^ (l + 1));
                 Some (h, OnHeap p n ((l + 1) mod 64)) }
        | Inline d \<Rightarrow>
            do { (p, h) \<leftarrow> refcount_create avail junk h (2 ^ (l + 1));
                 h \<leftarrow> block_store 0 d h p;
                 Some (h, OnHeap p (le_val (slice 8 7 d) mod XS_SIZE_BITS) ((l + 1) mod 64)) } })"

definition xs_free :: "xheap \<Rightarrow> xs \<Rightarrow> (xheap \<times> xs) option" where
  "xs_free h x =
     (case x of
        Inline d \<Rightarrow> Some (h, xs_literal_empty)
      | OnHeap p n c \<Rightarrow>
          do { h \<leftarrow> refcount_decrement h x;
               z \<leftarrow> xs_is_free h x;
               h \<leftarrow> (if z then free_block h p else Some h);
               Some (h, xs_literal_empty) })"

definition xs_cow :: "(nat \<Rightarrow> bool) \<Rightarrow> u8 \<Rightarrow> xheap \<Rightarrow> xs \<Rightarrow> (xheap \<times> xs) option" where
  "xs_cow avail junk h x =
     do { k \<leftarrow> refcount_get h x;
          if 1 < k then
            do { (h, tmps) \<leftarrow> xs_grow avail junk h xs_literal_empty (xs_capacity x);
                 dst \<leftarrow> xs_data h tmps;
                 src \<leftarrow> xs_data h x;
                 bs \<leftarrow> mem_load 0 (xs_size x + 1) src;
                 dst \<leftarrow> mem_store 0 bs dst;
                 (h, tmps) \<leftarrow> put_data dst h tmps;
                 (h, _) \<leftarrow> xs_free h x;
                 Some (h, tmps) }
          else Some (h, x) }"

text \<open>The \<open>memmove\<close> and two \<open>memcpy\<close> of \<open>xs_concat\<close>: \<open>dst\<close> is written, the others are read.\<close>

definition concat_into :: "u8 list \<Rightarrow> u8 list \<Rightarrow> nat \<Rightarrow> u8 list \<Rightarrow> nat \<Rightarrow> u8 list \<Rightarrow> nat \<Rightarrow> u8 list option" where
  "concat_into dst data n pre pres suf sufs =
     do { b \<leftarrow> mem_load 0 n data;
          dst \<leftarrow> mem_store pres b dst;
          b \<leftarrow> mem_load 0 pres pre;
          dst \<leftarrow> mem_store 0 b dst;
          b \<leftarrow> mem_load 0 (sufs + 1) suf;
          mem_store (pres + n) b dst }"

text \<open>\<open>prefix\<close> and \<open>suffix\<close> are objects different from \<open>*string\<close>.\<close>

definition xs_concat :: "(nat \<Rightarrow> bool) \<Rightarrow> u8 \<Rightarrow> xheap \<Rightarrow> xs \<Rightarrow> xs \<Rightarrow> xs \<Rightarrow> (xheap \<times> xs) option" where
  "xs_concat avail junk h string pfx sfx =
     (let pres = xs_size pfx; sufs = xs_size sfx; n = xs_size string; capacity = xs_capacity string in
      if n + pres + sufs \<le> capacity then
        do { (h, string) \<leftarrow> xs_cow avail junk h string;
             data \<leftarrow> xs_data h string;
             pre \<leftarrow> xs_data h pfx;
             suf \<leftarrow> xs_data h sfx;
             dst \<leftarrow> concat_into data data n pre pres suf sufs;
             (h, string) \<leftarrow> put_data dst h string;
             Some (h, set_size (n + pres + sufs) string) }
      else
        do { (h, tmps) \<leftarrow> xs_grow avail junk h xs_literal_empty (n + pres + sufs);
             tmpdata \<leftarrow> xs_data h tmps;
             data \<leftarrow> xs_data h string;
             pre \<leftarrow> xs_data h pfx;
             suf \<leftarrow> xs_data h sfx;
             dst \<leftarrow> concat_into tmpdata data n pre pres suf sufs;
             (h, tmps) \<leftarrow> put_data dst h tmps;
             (h, _) \<leftarrow> xs_free h string;
             Some (h, set_size (n + pres + sufs) tmps) })"

text \<open>The 256-bit set of characters, in 32 bytes.\<close>

definition check_bit :: "u8 list \<Rightarrow> u8 \<Rightarrow> bool" where
  "check_bit m b \<longleftrightarrow> and (m ! (unat b div 8)) (push_bit (unat b mod 8) 1) \<noteq> 0"

definition set_bit_in :: "u8 \<Rightarrow> u8 list \<Rightarrow> u8 list" where
  "set_bit_in b m = m[unat b div 8 := or (m ! (unat b div 8)) (push_bit (unat b mod 8) 1)]"

definition make_mask :: "u8 list \<Rightarrow> u8 list" where
  "make_mask cs = fold set_bit_in cs (replicate 32 0)"

text \<open>The two loops of \<open>xs_trim\<close>: leading and trailing characters of the set.\<close>

primrec lead_loop :: "u8 list \<Rightarrow> u8 list \<Rightarrow> nat \<Rightarrow> nat \<Rightarrow> nat" where
  "lead_loop m d i 0 = i"
| "lead_loop m d i (Suc k) = (if check_bit m (d ! i) then lead_loop m d (Suc i) k else i)"

primrec tail_loop :: "u8 list \<Rightarrow> u8 list \<Rightarrow> nat \<Rightarrow> nat" where
  "tail_loop m d 0 = 0"
| "tail_loop m d (Suc n) = (if check_bit m (d ! n) then tail_loop m d n else Suc n)"

definition xs_trim :: "(nat \<Rightarrow> bool) \<Rightarrow> u8 \<Rightarrow> xheap \<Rightarrow> xs \<Rightarrow> u8 list \<Rightarrow> (xheap \<times> xs) option" where
  "xs_trim avail junk h x trimset =
     (if trimset = [] then Some (h, x)
      else do {
        dataptr \<leftarrow> xs_data h x;
        let n = xs_size x;
        let m = make_mask trimset;
        let i = lead_loop m dataptr 0 n;
        let slen = size_sub (tail_loop m dataptr n) i;
        (h, x) \<leftarrow> xs_cow avail junk h x;
        orig \<leftarrow> xs_data h x;
        b \<leftarrow> mem_load i slen dataptr;
        orig \<leftarrow> mem_store 0 b orig;
        c \<leftarrow> mem_load slen 1 orig;
        orig \<leftarrow> (if hd c \<noteq> 0 then mem_store slen [0] orig else Some orig);
        (h, x) \<leftarrow> put_data orig h x;
        Some (h, set_size slen x) })"

definition xs_copy :: "xheap \<Rightarrow> xs \<Rightarrow> (xheap \<times> xs) option" where
  "xs_copy h src =
     (if xs_is_ptr src then do { h \<leftarrow> refcount_increment h src; Some (h, src) } else Some (h, src))"

text \<open>\<open>strlen\<close> of the bytes from an offset on.\<close>

definition strlen :: "u8 list \<Rightarrow> nat" where
  "strlen bs = length (takeWhile (\<lambda>b. b \<noteq> 0) bs)"

primrec delim_loop :: "u8 list \<Rightarrow> u8 list \<Rightarrow> nat \<Rightarrow> nat \<Rightarrow> nat option" where
  "delim_loop m d i 0 = None"
| "delim_loop m d i (Suc k) = (if check_bit m (d ! i) then Some i else delim_loop m d (Suc i) k)"

text \<open>
  \<open>xs_tok_r\<close> on the bytes from \<open>orig\<close> on: the offset of the token (\<open>None\<close> is NULL),
  the offset to save, and the bytes after the delimiter has been overwritten.
\<close>

definition tok_scan :: "u8 list \<Rightarrow> u8 list \<Rightarrow> nat option \<times> nat \<times> u8 list" where
  "tok_scan delim d =
     (let slen = strlen d; m = make_mask delim; i = lead_loop m d 0 slen in
      if i < slen
      then case delim_loop m d i (slen - i) of
             None \<Rightarrow> (Some i, slen, d)
           | Some j \<Rightarrow> (Some i, Suc j, d[j := 0])
      else (None, 0, d))"

text \<open>The first call, with \<open>x\<close>; \<open>saved\<close> is what \<open>*saveptr\<close> was.  An empty \<open>delim\<close> returns
  the whole string.\<close>

definition xs_tok_r :: "(nat \<Rightarrow> bool) \<Rightarrow> u8 \<Rightarrow> xheap \<Rightarrow> xs \<Rightarrow> u8 list \<Rightarrow> nat \<Rightarrow> (xheap \<times> xs \<times> nat option \<times> nat) option" where
  "xs_tok_r avail junk h x delim saved =
     (if delim = [] then Some (h, x, Some 0, saved)
      else do {
        (h, x) \<leftarrow> xs_cow avail junk h x;
        orig \<leftarrow> xs_data h x;
        let (tok, save, d) = tok_scan delim orig;
        (h, x) \<leftarrow> put_data d h x;
        Some (h, x, tok, if tok = None then saved else save) })"

text \<open>The following calls, with NULL: \<open>saved\<close> is a position in the data of \<open>x\<close>.
  \<open>xs_data(NULL)\<close> for an empty \<open>delim\<close> is undefined.\<close>

definition xs_tok_r_next :: "xheap \<Rightarrow> xs \<Rightarrow> u8 list \<Rightarrow> nat \<Rightarrow> (xheap \<times> xs \<times> nat option \<times> nat) option" where
  "xs_tok_r_next h x delim saved =
     (if delim = [] then None
      else do {
        data \<leftarrow> xs_data h x;
        let (tok, save, d) = tok_scan delim (drop saved data);
        (h, x) \<leftarrow> put_data (take saved data @ d) h x;
        Some (h, x, map_option (\<lambda>t. saved + t) tok, if tok = None then saved else saved + save) })"

end
