(* ===== verification/Xs_Pool.thy ===== *)
theory Xs_Pool
  imports Xs "HOL-Library.Multiset"
begin

text \<open>
  Copy-on-write strings behave like values.  \<open>xs_rep h x s\<close> says that the object
  \<open>x\<close> stands for the string \<open>s\<close>; \<open>pool h L\<close> is the invariant of all live objects
  \<open>L\<close> with their strings: each stands for its string, and the counter of every
  block is the number of objects that share it.  Every operation on one object
  keeps the pool of the others unchanged.
\<close>

section \<open>Logarithm\<close>

lemma floor_log_bounds: "0 < n \<Longrightarrow> 2 ^ floor_log n \<le> n \<and> n < 2 ^ (floor_log n + 1)"
proof (induction n rule: floor_log.induct)
  case (1 n)
  show ?case
  proof (cases "n < 2")
    case True
    then show ?thesis using 1(2) by (simp add: floor_log.simps)
  next
    case False
    then have ih: "2 ^ floor_log (n div 2) \<le> n div 2 \<and> n div 2 < 2 ^ (floor_log (n div 2) + 1)" using 1(1) by simp
    have "floor_log n = Suc (floor_log (n div 2))" using False by (subst floor_log.simps) simp
    then show ?thesis using ih by auto
  qed
qed

lemma xs_ilog2_bounds:
  assumes "0 < n" "n < 2 ^ 31"
  obtains l where "xs_ilog2 n = Some l" "2 ^ l \<le> n" "n < 2 ^ (l + 1)" "l < 31"
proof -
  have "n mod 2 ^ 32 = n" using assms by simp
  moreover have "(2::nat) ^ floor_log n < 2 ^ 31" using floor_log_bounds [OF assms(1)] assms(2) by linarith
  then have "floor_log n < 31" by (rule power_less_imp_less_exp [rotated]) simp
  ultimately show thesis using that [of "floor_log n"] floor_log_bounds [OF assms(1)] assms(1) by (simp add: xs_ilog2_def)
qed

section \<open>The pool\<close>

fun points :: "xs \<Rightarrow> nat \<Rightarrow> bool" where
  "points (Inline d) p = False"
| "points (OnHeap q n c) p = (q = p)"

text \<open>The bytes of a block or an object hold the string and a NUL.\<close>

definition holds :: "u8 list \<Rightarrow> u8 list \<Rightarrow> bool" where
  "holds d s \<longleftrightarrow> length s < length d \<and> take (length s) d = s \<and> d ! length s = 0"

fun xs_rep :: "xheap \<Rightarrow> xs \<Rightarrow> u8 list \<Rightarrow> bool" where
  "xs_rep h (Inline d) s \<longleftrightarrow> length d = 16 \<and> holds d s \<and> length s \<le> 15 \<and> d ! 15 = of_nat (15 - length s)"
| "xs_rep h (OnHeap p n c) s \<longleftrightarrow> n = length s \<and> 4 < c \<and> c \<le> 31 \<and> length s < 2 ^ c \<and>
     (\<exists>r. blocks h p = Some r \<and> length (rdata r) = 2 ^ c + 7 \<and> holds (rdata r) s)"

definition owners :: "(xs \<times> u8 list) multiset \<Rightarrow> nat \<Rightarrow> nat" where
  "owners L p = size (filter_mset (\<lambda>(x, s). points x p) L)"

definition pool :: "xheap \<Rightarrow> (xs \<times> u8 list) multiset \<Rightarrow> bool" where
  "pool h L \<longleftrightarrow> (\<forall>(x, s) \<in># L. xs_rep h x s) \<and>
     (\<forall>p r. blocks h p = Some r \<longrightarrow> refcnt r = owners L p \<and> 0 < owners L p) \<and>
     (\<forall>q. xnext h \<le> q \<longrightarrow> blocks h q = None) \<and> size L < SIZE_MOD"

lemma owners_add [simp]: "owners (add_mset (x, s) L) p = owners L p + of_bool (points x p)"
  by (simp add: owners_def)

lemma owners_zero: "owners L p = 0 \<longleftrightarrow> (\<forall>x s. (x, s) \<in># L \<longrightarrow> \<not> points x p)"
  by (induction L) (auto simp: owners_def)

lemma owners_pos: "(x, s) \<in># L \<Longrightarrow> points x p \<Longrightarrow> 0 < owners L p"
  using owners_zero [of L p] by auto

lemma owners_le: "owners L p \<le> size L"
  by (simp add: owners_def size_filter_mset_lesseq)

lemma pool_rep: "pool h L \<Longrightarrow> (x, s) \<in># L \<Longrightarrow> xs_rep h x s"
  by (auto simp: pool_def)

lemma pool_block: "pool h L \<Longrightarrow> blocks h p = Some r \<Longrightarrow> refcnt r = owners L p \<and> 0 < owners L p"
  by (simp add: pool_def)

lemma pool_fresh: "pool h L \<Longrightarrow> blocks h (xnext h) = None"
  by (simp add: pool_def)

text \<open>A string is represented alike in two heaps that agree on the block it is in.\<close>

lemma rep_cong: "(\<And>p. points x p \<Longrightarrow> map_option rdata (blocks h' p) = map_option rdata (blocks h p)) \<Longrightarrow> xs_rep h' x s = xs_rep h x s"
proof (cases x)
  case (OnHeap p n c)
  assume "\<And>p. points x p \<Longrightarrow> map_option rdata (blocks h' p) = map_option rdata (blocks h p)"
  then have "map_option rdata (blocks h' p) = map_option rdata (blocks h p)" using OnHeap by simp
  then show ?thesis by (cases "blocks h p"; cases "blocks h' p") (simp_all add: OnHeap)
qed simp

lemma rep_transfer:
  "xs_rep h x s \<Longrightarrow> (\<And>p. points x p \<Longrightarrow> map_option rdata (blocks h' p) = map_option rdata (blocks h p)) \<Longrightarrow> xs_rep h' x s"
  using rep_cong by blast

section \<open>Making, sharing and dropping\<close>

text \<open>A new block for a new object.\<close>

lemma pool_new_block:
  assumes P: "pool h L" and s: "length s < 2 ^ c" "4 < c" "c \<le> 31" "holds d s" "length d = 2 ^ c + 7"
    and room: "size L + 1 < SIZE_MOD"
  shows "pool (h\<lparr>xnext := xnext h + 1, blocks := (blocks h)(xnext h \<mapsto> \<lparr>refcnt = 1, rdata = d\<rparr>)\<rparr>)
    (add_mset (OnHeap (xnext h) (length s) c, s) L)"
proof -
  let ?h = "h\<lparr>xnext := xnext h + 1, blocks := (blocks h)(xnext h \<mapsto> \<lparr>refcnt = 1, rdata = d\<rparr>)\<rparr>"
  have np: "\<not> points x (xnext h)" if "(x, t) \<in># L" for x t
    using pool_rep [OF P that] pool_fresh [OF P] by (cases x) auto
  then have z: "owners L (xnext h) = 0" by (auto simp: owners_zero)
  have "xs_rep ?h x t" if "(x, t) \<in># L" for x t
    by (rule rep_transfer [OF pool_rep [OF P that]]) (use np [OF that] in auto)
  moreover have "xs_rep ?h (OnHeap (xnext h) (length s) c) s" using s by simp
  ultimately show ?thesis using P room z by (auto simp: pool_def)
qed

lemma pool_Inline:
  assumes "pool h L" "xs_rep h (Inline d) s" "size L + 1 < SIZE_MOD"
  shows "pool h (add_mset (Inline d, s) L)"
  using assms by (auto simp: pool_def)

lemma pool_remove_Inline: "pool h (add_mset (Inline d, s) R) \<Longrightarrow> pool h R"
  by (auto simp: pool_def)

lemma refcount_add_rep:
  assumes "blocks h p = Some r"
  shows "refcount_add f h (OnHeap p n c) = Some (h\<lparr>blocks := (blocks h)(p \<mapsto> r\<lparr>refcnt := f (refcnt r)\<rparr>)\<rparr>)"
  using assms by (simp add: refcount_add_def)

text \<open>Changing a counter changes no string.\<close>

lemma rep_refcnt:
  assumes "blocks h p = Some r" "xs_rep h x s"
  shows "xs_rep (h\<lparr>blocks := (blocks h)(p \<mapsto> r\<lparr>refcnt := k\<rparr>)\<rparr>) x s"
  by (rule rep_transfer [OF assms(2)]) (use assms(1) in simp)

lemma pool_copy:
  assumes P: "pool h (add_mset (x, s) R)" and room: "size R + 2 < SIZE_MOD"
  shows "\<exists>h'. xs_copy h x = Some (h', x) \<and> pool h' (add_mset (x, s) (add_mset (x, s) R))"
proof (cases x)
  case (Inline d)
  then show ?thesis using P room by (auto simp: xs_copy_def pool_def)
next
  case (OnHeap p n c)
  obtain r where r: "blocks h p = Some r" using pool_rep [OF P, of x s] OnHeap by auto
  have k: "refcnt r = owners R p + 1" using pool_block [OF P r] OnHeap by simp
  have "size_add (refcnt r) 1 = refcnt r + 1"
    using k owners_le [of R p] room by (intro size_add_id) simp
  then have c: "xs_copy h x = Some (h\<lparr>blocks := (blocks h)(p \<mapsto> r\<lparr>refcnt := refcnt r + 1\<rparr>)\<rparr>, x)"
    by (simp add: xs_copy_def OnHeap refcount_increment_def refcount_add_rep [OF r])
  have "pool (h\<lparr>blocks := (blocks h)(p \<mapsto> r\<lparr>refcnt := refcnt r + 1\<rparr>)\<rparr>) (add_mset (x, s) (add_mset (x, s) R))"
    using P r k room rep_refcnt [OF r] by (auto simp: pool_def OnHeap split: if_splits)
  then show ?thesis using c by blast
qed

lemma pool_free:
  assumes P: "pool h (add_mset (x, s) R)"
  shows "\<exists>h'. xs_free h x = Some (h', xs_literal_empty) \<and> pool h' R"
proof (cases x)
  case (Inline d)
  then show ?thesis using P pool_remove_Inline by (auto simp: xs_free_def)
next
  case (OnHeap p n c)
  obtain r where r: "blocks h p = Some r" using pool_rep [OF P, of x s] OnHeap by auto
  have k: "refcnt r = owners R p + 1" using pool_block [OF P r] OnHeap by simp
  have szR: "size R + 1 < SIZE_MOD" using P by (simp add: pool_def)
  have "size_sub (refcnt r) 1 = owners R p"
    using k owners_le [of R p] szR by (subst size_sub_id) simp_all
  then have dec: "refcount_decrement h x = Some (h\<lparr>blocks := (blocks h)(p \<mapsto> r\<lparr>refcnt := owners R p\<rparr>)\<rparr>)"
    by (simp add: OnHeap refcount_decrement_def refcount_add_rep [OF r])
  let ?h = "h\<lparr>blocks := (blocks h)(p \<mapsto> r\<lparr>refcnt := owners R p\<rparr>)\<rparr>"
  have rep: "xs_rep ?h y t" if "(y, t) \<in># R" for y t using rep_refcnt [OF r] pool_rep [OF P] that by simp
  show ?thesis
  proof (cases "owners R p = 0")
    case True
    then have np: "\<not> points y p" if "(y, t) \<in># R" for y t using that by (auto simp: owners_zero)
    let ?f = "?h\<lparr>blocks := (blocks ?h)(p := None)\<rparr>"
    have "xs_rep ?f y t" if "(y, t) \<in># R" for y t
      by (rule rep_transfer [OF rep [OF that]]) (use np [OF that] in auto)
    moreover have "xs_free h x = Some (?f, xs_literal_empty)"
      using dec True by (simp add: xs_free_def OnHeap xs_is_free_def free_block_def)
    moreover have "pool ?f R"
      using P szR \<open>\<And>y t. (y, t) \<in># R \<Longrightarrow> xs_rep ?f y t\<close> by (auto simp: pool_def OnHeap)
    ultimately show ?thesis by blast
  next
    case False
    then have "xs_free h x = Some (?h, xs_literal_empty)" using dec by (simp add: xs_free_def OnHeap xs_is_free_def)
    moreover have "pool ?h R" using P szR rep False r by (auto simp: pool_def OnHeap split: if_splits)
    ultimately show ?thesis by blast
  qed
qed

section \<open>Reading an object\<close>

lemma unat_nibble: "(b :: u8) = of_nat (15 - n) \<Longrightarrow> unat b = 15 - n"
  by (simp add: unat_of_nat)

lemma set_size_rep: "xs_rep h x s \<Longrightarrow> set_size (length s) x = x"
proof (cases x)
  case (Inline d)
  assume "xs_rep h x s"
  then have d: "length d = 16" "d ! 15 = of_nat (15 - length s)" using Inline by simp_all
  from unat_nibble [OF d(2)] have "set_space_left (15 - length s) d = d[15 := d ! 15]" by (simp add: set_space_left_def d(2))
  then show ?thesis using Inline by simp
next
  case (OnHeap p n c)
  assume "xs_rep h x s"
  then have "n = length s" "c \<le> 31" "length s < 2 ^ c" using OnHeap by simp_all
  moreover have "(2::nat) ^ c \<le> 2 ^ 31" using \<open>c \<le> 31\<close> by (intro power_increasing) simp_all
  ultimately show ?thesis using OnHeap by (simp add: XS_SIZE_BITS_def)
qed

lemma xs_rep_data:
  assumes "xs_rep h x s"
  obtains d where "xs_data h x = Some d" "holds d s" "xs_size x = length s" "length s \<le> xs_capacity x" "xs_capacity x < length d"
proof (cases x)
  case (Inline d)
  then have "d ! 15 = of_nat (15 - length s)" "length s \<le> 15" using assms by simp_all
  then have "xs_size x = length s" using Inline unat_nibble [of "d ! 15" "length s"] by (simp add: space_left_def)
  then show thesis using that [of d] assms Inline by simp
next
  case (OnHeap p n c)
  then show thesis using that assms by fastforce
qed

lemma rep_length: "xs_rep h x s \<Longrightarrow> length s < SIZE_MOD"
proof (cases x)
  case (OnHeap p n c)
  assume "xs_rep h x s"
  then have "length s < 2 ^ c" "c \<le> 31" using OnHeap by simp_all
  moreover have "(2::nat) ^ c \<le> 2 ^ 31" using \<open>c \<le> 31\<close> by (intro power_increasing) simp_all
  ultimately show ?thesis by (simp add: SIZE_MOD_def)
qed (simp add: SIZE_MOD_def)

lemma rep_data_length: "xs_rep h x s \<Longrightarrow> xs_data h x = Some d \<Longrightarrow> length d < SIZE_MOD"
proof (cases x)
  case (OnHeap p n c)
  assume "xs_rep h x s" "xs_data h x = Some d"
  then have "length d = 2 ^ c + 7" "c \<le> 31" using OnHeap by auto
  moreover have "(2::nat) ^ c \<le> 2 ^ 31" using \<open>c \<le> 31\<close> by (intro power_increasing) simp_all
  ultimately show ?thesis by (simp add: SIZE_MOD_def)
qed (simp add: SIZE_MOD_def)

lemma rep_capacity: "xs_rep h x s \<Longrightarrow> 15 \<le> xs_capacity x"
proof (cases x)
  case (OnHeap p n c)
  assume "xs_rep h x s"
  then have "(2::nat) ^ 5 \<le> 2 ^ c" using OnHeap by (intro power_increasing) simp_all
  then show ?thesis using OnHeap by simp
qed simp

lemma holds_load: "holds d s \<Longrightarrow> mem_load 0 (length s + 1) d = Some (s @ [0])" "holds d s \<Longrightarrow> mem_load 0 (length s) d = Some s"
  by (simp_all add: holds_def mem_load_def slice_def take_Suc_conv_app_nth)

lemma store_zero: "length b \<le> length d \<Longrightarrow> mem_store 0 b d = Some (b @ drop (length b) d)"
  by (simp add: mem_store_def blit_def)

lemma holds_prefix: "holds (s @ 0 # r) s"
  by (simp add: holds_def)

section \<open>A fresh block for the empty literal\<close>

lemma xs_grow_empty:
  assumes "15 < len" "len < 2 ^ 31" and avail: "\<And>n. avail n"
  obtains c d where "4 < c" "c \<le> 31" "2 ^ (c - 1) \<le> len" "len < 2 ^ c" "length d = 2 ^ c + 7"
    "xs_grow avail junk h xs_literal_empty len =
      Some (h\<lparr>xnext := xnext h + 1, blocks := (blocks h)(xnext h \<mapsto> \<lparr>refcnt = 1, rdata = d\<rparr>)\<rparr>, OnHeap (xnext h) 0 c)"
proof -
  have "0 < len" using assms(1) by simp
  from xs_ilog2_bounds [OF this assms(2)] obtain l where l: "xs_ilog2 len = Some l" "2 ^ l \<le> len" "len < 2 ^ (l + 1)" "l < 31"
    by blast
  have "(2::nat) ^ 4 < 2 ^ (l + 1)" using l(3) assms(1) by simp
  then have l4: "4 < l + 1" by (rule power_less_imp_less_exp [rotated]) simp
  have big: "(16::nat) \<le> 2 ^ (l + 1) + 7" using power_increasing [of 4 "l + 1" "2::nat"] l4 by simp
  let ?e = "replicate 15 0 @ [15] :: u8 list"
  have "le_val (slice 8 7 ?e) = 0" by (simp add: slice_def eval_nat_numeral)
  then have "xs_grow avail junk h xs_literal_empty len = Some (h\<lparr>xnext := xnext h + 1, blocks := (blocks h)(xnext h \<mapsto>
      \<lparr>refcnt = 1, rdata = ?e @ drop 16 (replicate (2 ^ (l + 1) + 7) junk)\<rparr>)\<rparr>, OnHeap (xnext h) 0 (l + 1))"
    using assms(1) avail l big
    by (simp add: xs_grow_def xs_literal_empty_def refcount_create_def block_store_def store_zero)
  moreover have "length (?e @ drop 16 (replicate (2 ^ (l + 1) + 7) junk)) = 2 ^ (l + 1) + 7" using big by simp
  ultimately show thesis using that [of "l + 1" "?e @ drop 16 (replicate (2 ^ (l + 1) + 7) junk)"] l l4 by simp
qed

text \<open>Filling the fresh block with a string.\<close>

lemma pool_fresh_string:
  assumes P: "pool h L" and c: "4 < c" "c \<le> 31" "length s < 2 ^ c"
    and d: "length d = 2 ^ c + 7" "length d' = length d" "holds d' s" and room: "size L + 1 < SIZE_MOD"
  shows "\<exists>h'. put_data d' (h\<lparr>xnext := xnext h + 1, blocks := (blocks h)(xnext h \<mapsto> \<lparr>refcnt = 1, rdata = d\<rparr>)\<rparr>) (OnHeap (xnext h) 0 c) =
      Some (h', OnHeap (xnext h) 0 c) \<and> pool h' (add_mset (OnHeap (xnext h) (length s) c, s) L)"
  using pool_new_block [OF P c(3,1,2) d(3) _ room] d(1,2) by simp

lemma data_after_create:
  assumes "pool h L" "(x, s) \<in># L"
  shows "xs_data (h\<lparr>xnext := n, blocks := (blocks h)(xnext h \<mapsto> b)\<rparr>) x = xs_data h x"
  using pool_rep [OF assms] pool_fresh [OF assms(1)] by (cases x) auto

section \<open>Writing to an object of its own\<close>

lemma owners_fresh: "pool h L \<Longrightarrow> blocks h p = None \<Longrightarrow> owners L p = 0"
proof -
  assume P: "pool h L" and p: "blocks h p = None"
  have "\<not> points x p" if "(x, s) \<in># L" for x s using pool_rep [OF P that] p by (cases x) auto
  then show ?thesis by (simp add: owners_zero)
qed

lemma nth_set_space_left: "i < 15 \<Longrightarrow> set_space_left n d ! i = d ! i"
  by (simp add: set_space_left_def)

lemma rep_Inline_resized:
  assumes "length d = 16" "unat (d ! 15) < 16" "holds d s" "length s \<le> 15"
  shows "xs_rep h (Inline (set_space_left (15 - length s) d)) s"
proof -
  let ?d = "set_space_left (15 - length s) d"
  have len: "length ?d = 16" using assms(1) by (simp add: set_space_left_def)
  have last: "?d ! 15 = of_nat (15 - length s)" using assms(1,2) by (simp add: set_space_left_def)
  have "take (length s) ?d = take (length s) d" using assms(1,4) by (simp add: set_space_left_def)
  moreover have "?d ! length s = 0"
  proof (cases "length s = 15")
    case False
    then show ?thesis using assms(3,4) by (simp add: nth_set_space_left holds_def)
  qed (use last in simp)
  ultimately show ?thesis using assms len last by (simp add: holds_def)
qed

text \<open>
  The bytes of an unshared object are replaced and its size is set.  The object
  may carry a wrong size before, as the result of \<open>xs_cow\<close> does.
\<close>

lemma pool_write:
  assumes P: "pool h (add_mset (set_size k x, s) R)" and own: "refcount_get h x = Some 1"
    and d: "xs_data h x = Some d" "length d' = length d" "holds d' t" "length t \<le> xs_capacity x"
    and nib: "xs_is_ptr x \<or> unat (d' ! 15) < 16"
  shows "\<exists>h' x'. put_data d' h x = Some (h', x') \<and> pool h' (add_mset (set_size (length t) x', t) R)"
proof (cases x)
  case (Inline b)
  have "length b = 16" using pool_rep [OF P, of "set_size k x" s] Inline by (simp add: set_space_left_def)
  then have "xs_rep h (Inline (set_space_left (15 - length t) d')) t"
    using rep_Inline_resized [of d' t] d nib Inline by simp
  then show ?thesis using P Inline pool_Inline [OF pool_remove_Inline] by (auto simp: pool_def)
next
  case (OnHeap p n c)
  obtain r where r: "blocks h p = Some r" "length (rdata r) = 2 ^ c + 7" "4 < c" "c \<le> 31"
    using pool_rep [OF P, of "set_size k x" s] OnHeap by auto
  let ?h = "h\<lparr>blocks := (blocks h)(p \<mapsto> r\<lparr>rdata := d'\<rparr>)\<rparr>"
  have one: "refcnt r = 1" using own OnHeap r by simp
  then have z: "owners R p = 0" using pool_block [OF P r(1)] OnHeap by simp
  have "length t < 2 ^ c" using d(4) OnHeap by (intro le_less_trans [of "length t" "2 ^ c - 1"]) simp_all
  moreover have "(2::nat) ^ c \<le> 2 ^ 31" using r(4) by (intro power_increasing) simp_all
  ultimately have "xs_rep ?h (set_size (length t) x) t" using d r OnHeap by (simp add: XS_SIZE_BITS_def)
  moreover have "xs_rep ?h y u" if "(y, u) \<in># R" for y u
  proof (rule rep_transfer)
    show "xs_rep h y u" using pool_rep [OF P] that by simp
    show "map_option rdata (blocks ?h q) = map_option rdata (blocks h q)" if "points y q" for q
      using z \<open>points y q\<close> \<open>(y, u) \<in># R\<close> by (auto simp: owners_zero)
  qed
  ultimately have "pool ?h (add_mset (set_size (length t) x, t) R)"
    using P z one r OnHeap by (auto simp: pool_def)
  then show ?thesis using OnHeap r by simp
qed

section \<open>Copy on write\<close>

lemma cow_unshared:
  assumes "refcount_get h x = Some 1"
  shows "xs_cow avail junk h x = Some (h, x)"
  using assms by (simp add: xs_cow_def)

lemma refcount_get_pool:
  assumes "pool h (add_mset (OnHeap p n c, s) R)"
  shows "refcount_get h (OnHeap p m e) = Some (owners R p + 1)"
proof -
  obtain r where r: "blocks h p = Some r" using pool_rep [OF assms, of "OnHeap p n c" s] by auto
  then show ?thesis using pool_block [OF assms r] by simp
qed

lemma cow_shared:
  assumes P: "pool h (add_mset (x, s) R)" and x: "x = OnHeap p n c" and sh: "0 < owners R p"
    and room: "size R + 2 < SIZE_MOD" and avail: "\<And>n. avail n"
  shows "\<exists>h1 q. xs_cow avail junk h x = Some (h1, OnHeap q 0 c) \<and>
    pool h1 (add_mset (OnHeap q (length s) c, s) R) \<and> owners R q = 0"
proof -
  let ?L = "add_mset (x, s) R"
  have rep: "xs_rep h x s" using pool_rep [OF P] by simp
  then have c: "4 < c" "c \<le> 31" "length s < 2 ^ c" "n = length s" using x by simp_all
  have p16: "(2::nat) ^ 5 \<le> 2 ^ c" "(2::nat) ^ c \<le> 2 ^ 31" using c(1,2) by (intro power_increasing; simp)+
  have xc: "xs_capacity x = 2 ^ c - 1" using x by simp
  from p16 have cap: "15 < xs_capacity x" "xs_capacity x < 2 ^ 31" using x by simp_all
  obtain e d where e: "4 < e" "e \<le> 31" "2 ^ (e - 1) \<le> xs_capacity x"
    "xs_capacity x < 2 ^ e" "length d = 2 ^ e + 7" and g: "xs_grow avail junk h xs_literal_empty (xs_capacity x) =
      Some (h\<lparr>xnext := xnext h + 1, blocks := (blocks h)(xnext h \<mapsto> \<lparr>refcnt = 1, rdata = d\<rparr>)\<rparr>, OnHeap (xnext h) 0 e)"
    by (rule xs_grow_empty [OF cap avail])
  have "(2::nat) ^ (e - 1) < 2 ^ c" "(2::nat) ^ c \<le> 2 ^ e"
    using e(3,4) xc zero_less_power [of "2::nat" c] by linarith+
  then have "e - 1 < c" "c \<le> e" by (simp_all add: power_increasing_iff)
  then have ec: "e = c" by simp
  obtain src where src: "xs_data h x = Some src" "holds src s" "xs_size x = length s" using xs_rep_data [OF rep] by metis
  let ?h = "h\<lparr>xnext := xnext h + 1, blocks := (blocks h)(xnext h \<mapsto> \<lparr>refcnt = 1, rdata = d\<rparr>)\<rparr>"
  let ?d = "(s @ [0]) @ drop (length s + 1) d"
  have hd: "holds ?d s" "length ?d = length d" using holds_prefix [of s "drop (length s + 1) d"] e(5) ec c(3) by simp_all
  from pool_fresh_string [OF P c(1,2,3) _ hd(2,1)] e(5) ec room obtain h2 where h2:
    "put_data ?d ?h (OnHeap (xnext h) 0 c) = Some (h2, OnHeap (xnext h) 0 c)"
    "pool h2 (add_mset (x, s) (add_mset (OnHeap (xnext h) (length s) c, s) R))"
    by (auto simp: add_mset_commute)
  from pool_free [OF h2(2)] obtain h3 where h3: "xs_free h2 x = Some (h3, xs_literal_empty)"
    "pool h3 (add_mset (OnHeap (xnext h) (length s) c, s) R)" by blast
  have "refcount_get h x = Some (owners R p + 1)" using refcount_get_pool P x by blast
  moreover have "mem_store 0 (s @ [0]) d = Some ?d" using store_zero [of "s @ [0]" d] e(5) ec c(3) by simp
  ultimately have "xs_cow avail junk h x = Some (h3, OnHeap (xnext h) 0 c)"
    using sh g ec src holds_load(1) [OF src(2)] data_after_create [OF P, of x s] h2(1) h3(1)
    by (simp add: xs_cow_def)
  moreover have "owners R (xnext h) = 0" using owners_fresh [OF P pool_fresh [OF P]] by simp
  ultimately show ?thesis using h3(2) by blast
qed

lemma xs_rep_nibble: "xs_rep h x s \<Longrightarrow> xs_data h x = Some d \<Longrightarrow> xs_is_ptr x \<or> length d = 16 \<and> unat (d ! 15) < 16"
  using unat_nibble [of "d ! 15" "length s"] by (cases x) auto

lemma cow_pool:
  assumes P: "pool h (add_mset (x, s) R)" and room: "size R + 2 < SIZE_MOD" and avail: "\<And>n. avail n"
  obtains h1 x1 d where "xs_cow avail junk h x = Some (h1, x1)" "pool h1 (add_mset (set_size (length s) x1, s) R)"
    "refcount_get h1 x1 = Some 1" "xs_capacity x1 = xs_capacity x" "xs_data h1 x1 = Some d" "holds d s"
    "xs_capacity x < length d" "xs_is_ptr x1 \<or> length d = 16 \<and> unat (d ! 15) < 16"
    "length s \<le> xs_capacity x1" "xs_size x1 = (if refcount_get h x = Some 1 then length s else 0)"
proof (cases "refcount_get h x = Some 1")
  case True
  have rep: "xs_rep h x s" using pool_rep [OF P] by simp
  obtain d where d: "xs_data h x = Some d" "holds d s" "xs_capacity x < length d" "xs_size x = length s" "length s \<le> xs_capacity x"
    by (rule xs_rep_data [OF rep])
  then show thesis using that [of h x d] True P cow_unshared [OF True] set_size_rep [OF rep] xs_rep_nibble [OF rep d(1)] by simp
next
  case False
  then obtain p n c where x: "x = OnHeap p n c" by (cases x) auto
  have "0 < owners R p" using refcount_get_pool [of h p n c s R n c] P False x by (cases "owners R p = 0") auto
  from cow_shared [where avail = avail and junk = junk, OF P x this room avail] obtain h1 q where c: "xs_cow avail junk h x = Some (h1, OnHeap q 0 c)"
    "pool h1 (add_mset (OnHeap q (length s) c, s) R)" "owners R q = 0" by blast
  have rep: "xs_rep h1 (OnHeap q (length s) c) s" by (rule pool_rep [OF c(2)]) simp
  obtain d where d: "xs_data h1 (OnHeap q (length s) c) = Some d" "holds d s" "2 ^ c - 1 < length d" "length s \<le> 2 ^ c - 1"
    by (rule xs_rep_data [OF rep]) auto
  moreover have "refcount_get h1 (OnHeap q 0 c) = Some 1" using refcount_get_pool [OF c(2)] c(3) by simp
  moreover have "set_size (length s) (OnHeap q 0 c) = OnHeap q (length s) c" using set_size_rep [OF rep] by simp
  moreover have "xs_size (OnHeap q 0 c) = (if refcount_get h x = Some 1 then length s else 0)" using False by simp
  ultimately show thesis by (intro that [of h1 "OnHeap q 0 c" d]) (use c(1,2) x in simp_all)
qed

section \<open>Concatenation\<close>

lemma concat_into_eq:
  assumes "holds data s" "holds pre t" "holds suf u" "length t + length s + length u < length dst"
  shows "concat_into dst data (length s) pre (length t) suf (length u) =
    Some (t @ s @ u @ 0 # drop (length t + length s + length u + 1) dst)"
proof -
  have "mem_store (length t) s dst = Some (take (length t) dst @ s @ drop (length t + length s) dst)"
    using assms(4) by (simp add: mem_store_def blit_def)
  moreover have "mem_store 0 t (take (length t) dst @ s @ drop (length t + length s) dst) =
      Some (t @ s @ drop (length t + length s) dst)"
    using assms(4) by (simp add: store_zero)
  moreover have "mem_store (length t + length s) (u @ [0]) (t @ s @ drop (length t + length s) dst) =
      Some (t @ s @ u @ 0 # drop (length t + length s + length u + 1) dst)"
    using assms(4) by (simp add: mem_store_def blit_def add_ac)
  ultimately show ?thesis
    using assms(1-3) holds_load(1) [of suf u] by (simp add: concat_into_def holds_load(2))
qed

lemma holds_concat: "holds (t @ s @ u @ 0 # r) (t @ s @ u)"
  using holds_prefix [of "t @ s @ u" r] by simp

lemma nibble_kept:
  assumes "length d = 16" "unat (d ! 15 :: u8) < 16" "length t \<le> 15"
  shows "unat ((t @ 0 # drop (Suc (length t)) d) ! 15) < 16"
proof (cases "length t = 15")
  case False
  then have "(t @ 0 # drop (Suc (length t)) d) ! 15 = d ! 15" using assms(1,3) by (simp add: nth_append nth_Cons')
  then show ?thesis using assms(2) by simp
qed (simp add: nth_append)

lemma xs_concat_pool:
  assumes P: "pool h (add_mset (x, s) R)" and room: "size R + 2 < SIZE_MOD" and avail: "\<And>n. avail n"
    and pfx: "(p, t) \<in># R" and sfx: "(q, u) \<in># R" and len: "length s + length t + length u < 2 ^ 31"
  shows "\<exists>h' x'. xs_concat avail junk h x p q = Some (h', x') \<and> pool h' (add_mset (x', t @ s @ u) R)"
proof -
  let ?n = "length s + length t + length u"
  have rep: "xs_rep h x s" "xs_rep h p t" "xs_rep h q u" using pool_rep [OF P] pfx sfx by auto
  obtain dx where dx: "xs_data h x = Some dx" "holds dx s" "xs_size x = length s" by (rule xs_rep_data [OF rep(1)])
  obtain dp where dp: "xs_data h p = Some dp" "holds dp t" "xs_size p = length t" by (rule xs_rep_data [OF rep(2)])
  obtain dq where dq: "xs_data h q = Some dq" "holds dq u" "xs_size q = length u" by (rule xs_rep_data [OF rep(3)])
  show ?thesis
  proof (cases "?n \<le> xs_capacity x")
    case True
    obtain h1 x1 d where c: "xs_cow avail junk h x = Some (h1, x1)" "pool h1 (add_mset (set_size (length s) x1, s) R)"
      "refcount_get h1 x1 = Some 1" "xs_capacity x1 = xs_capacity x" "xs_data h1 x1 = Some d" "holds d s"
      "xs_capacity x < length d" "xs_is_ptr x1 \<or> length d = 16 \<and> unat (d ! 15) < 16"
      by (rule cow_pool [OF P room avail])
    have rep1: "xs_rep h1 p t" "xs_rep h1 q u" using pool_rep [OF c(2)] pfx sfx by auto
    obtain ep where ep: "xs_data h1 p = Some ep" "holds ep t" by (rule xs_rep_data [OF rep1(1)])
    obtain eq where eq: "xs_data h1 q = Some eq" "holds eq u" by (rule xs_rep_data [OF rep1(2)])
    let ?d = "t @ s @ u @ 0 # drop (length t + length s + length u + 1) d"
    have into: "concat_into d d (length s) ep (length t) eq (length u) = Some ?d"
      using True c(7) by (intro concat_into_eq c(6) ep(2) eq(2)) simp
    have cap: "length (t @ s @ u) \<le> xs_capacity x1" using True c(4) by simp
    have nib: "xs_is_ptr x1 \<or> unat (?d ! 15) < 16"
      using c(8) nibble_kept [of d "t @ s @ u"] cap by (cases x1) (simp_all add: add_ac)
    have "length ?d = length d" using True c(7) by simp
    from pool_write [OF c(2,3,5) this holds_concat cap nib] obtain h' x' where "put_data ?d h1 x1 = Some (h', x')" "pool h' (add_mset (set_size ?n x', t @ s @ u) R)"
      by (auto simp: add_ac)
    then show ?thesis using True c(1,5) dx dp dq ep(1) eq(1) into by (simp add: xs_concat_def)
  next
    case False
    then have big: "15 < ?n" using rep_capacity [OF rep(1)] by simp
    obtain e d where e: "4 < e" "e \<le> 31" "2 ^ (e - 1) \<le> ?n" "?n < 2 ^ e" "length d = 2 ^ e + 7"
      and g: "xs_grow avail junk h xs_literal_empty ?n =
        Some (h\<lparr>xnext := xnext h + 1, blocks := (blocks h)(xnext h \<mapsto> \<lparr>refcnt = 1, rdata = d\<rparr>)\<rparr>, OnHeap (xnext h) 0 e)"
      by (rule xs_grow_empty [OF big len avail])
    let ?d = "t @ s @ u @ 0 # drop (length t + length s + length u + 1) d"
    have into: "concat_into d dx (length s) dp (length t) dq (length u) = Some ?d"
      using e(4,5) by (intro concat_into_eq dx(2) dp(2) dq(2)) simp
    have "length (t @ s @ u) < 2 ^ e" "length ?d = length d" using e(4,5) by simp_all
    from pool_fresh_string [OF P e(1,2) this(1) e(5) this(2) holds_concat] room obtain h2 where h2:
      "put_data ?d (h\<lparr>xnext := xnext h + 1, blocks := (blocks h)(xnext h \<mapsto> \<lparr>refcnt = 1, rdata = d\<rparr>)\<rparr>) (OnHeap (xnext h) 0 e) =
         Some (h2, OnHeap (xnext h) 0 e)"
      "pool h2 (add_mset (x, s) (add_mset (OnHeap (xnext h) ?n e, t @ s @ u) R))"
      by (auto simp: add_mset_commute add_ac)
    from pool_free [OF h2(2)] obtain h3 where h3: "xs_free h2 x = Some (h3, xs_literal_empty)"
      "pool h3 (add_mset (OnHeap (xnext h) ?n e, t @ s @ u) R)" by blast
    have "?n mod XS_SIZE_BITS = ?n" using len by (simp add: XS_SIZE_BITS_def)
    then show ?thesis
      using False g into h2(1) h3 dx dp dq data_after_create [OF P, of x s] data_after_create [OF P, of p t]
        data_after_create [OF P, of q u] pfx sfx by (simp add: xs_concat_def Let_def)
  qed
qed

section \<open>Construction\<close>

lemma xs_new_inline:
  assumes "length s \<le> 15"
  shows "\<exists>d. xs_new avail junk h s = Some (h, Inline d) \<and> xs_rep h (Inline d) s"
proof -
  let ?b = "s @ 0 # drop (Suc (length s)) (replicate 15 0 @ [15 :: u8])"
  have "length (replicate 15 0 @ [15 :: u8]) = 16" "unat ((replicate 15 0 @ [15 :: u8]) ! 15) < 16" by (simp_all add: nth_append)
  from nibble_kept [OF this assms] have "unat (?b ! 15) < 16" .
  then have "xs_rep h (Inline (set_space_left (15 - length s) ?b)) s"
    using assms by (intro rep_Inline_resized holds_prefix) simp_all
  moreover have "blit 0 (s @ [0]) (replicate 15 0 @ [15]) = ?b" by (simp add: blit_def)
  ultimately show ?thesis using assms by (simp add: xs_new_def del: drop_append)
qed

lemma xs_new_pool:
  assumes P: "pool h L" and room: "size L + 1 < SIZE_MOD" and avail: "\<And>n. avail n" and len: "length s + 1 < 2 ^ 31"
  shows "\<exists>h' x'. xs_new avail junk h s = Some (h', x') \<and> pool h' (add_mset (x', s) L)"
proof (cases "length s \<le> 15")
  case True
  from xs_new_inline [OF this] show ?thesis using pool_Inline [OF P _ room] by blast
next
  case False
  obtain l where l: "xs_ilog2 (length s + 1) = Some l" "2 ^ l \<le> length s + 1" "length s + 1 < 2 ^ (l + 1)" "l < 31"
    by (rule xs_ilog2_bounds [OF _ len]) simp
  have "(2::nat) ^ 4 < 2 ^ (l + 1)" using l(3) False by simp
  then have l4: "4 < l + 1" by (rule power_less_imp_less_exp [rotated]) simp
  let ?d = "(s @ [0]) @ drop (length (s @ [0])) (replicate (2 ^ (l + 1) + 7) junk)"
  have st: "mem_store 0 (s @ [0]) (replicate (2 ^ (l + 1) + 7) junk) = Some ?d"
    using l(3) by (intro store_zero) simp
  have "holds ?d s" "length ?d = 2 ^ (l + 1) + 7" using holds_prefix [of s] l(3) by simp_all
  from pool_new_block [OF P _ l4 _ this room] l(3,4)
  have "pool (h\<lparr>xnext := xnext h + 1, blocks := (blocks h)(xnext h \<mapsto> \<lparr>refcnt = 1, rdata = ?d\<rparr>)\<rparr>)
    (add_mset (OnHeap (xnext h) (length s) (l + 1), s) L)" by simp
  moreover have "xs_new avail junk h s = Some (h\<lparr>xnext := xnext h + 1, blocks := (blocks h)(xnext h \<mapsto> \<lparr>refcnt = 1, rdata = ?d\<rparr>)\<rparr>,
      OnHeap (xnext h) (length s) (l + 1))"
    using False l(1,4) avail st len
    by (simp add: xs_new_def refcount_create_def block_store_def XS_SIZE_BITS_def del: drop_append drop_replicate power_Suc)
  ultimately show ?thesis by blast
qed

end
