(* ===== verification/Xs_Spec.thy ===== *)
theory Xs_Spec
  imports Xs_Pool
begin

text \<open>
  The character sets of \<open>xs_trim\<close> and \<open>xs_tok_r\<close> are sets, their loops compute
  prefixes and suffixes, and with the operations of \<open>Xs_Pool\<close> the strings behave
  like values.
\<close>

section \<open>Character sets and trimming\<close>

lemma check_bit_iff: "check_bit m b \<longleftrightarrow> bit (m ! (unat b div 8)) (unat b mod 8)"
  by (simp add: check_bit_def bit_iff_and_push_bit_not_eq_0)

lemma byte_split: "unat (b :: u8) div 8 = unat c div 8 \<and> unat b mod 8 = unat c mod 8 \<longleftrightarrow> b = c"
  by (metis div_mult_mod_eq word_unat_eq_iff)

lemma byte_index [simp]: "unat (b :: u8) div 8 < 32"
proof -
  have "unat b < 256" using unsigned_less [of b] by simp
  then show ?thesis by simp
qed

lemma check_set_bit_in:
  assumes "length m = 32"
  shows "check_bit (set_bit_in c m) b \<longleftrightarrow> b = c \<or> check_bit m b"
  using assms byte_index [of c] byte_split [of b c] byte_split [of c b]
  by (auto simp: check_bit_iff set_bit_in_def nth_list_update bit_or_iff bit_exp_iff)

lemma check_make_mask: "check_bit (make_mask cs) b \<longleftrightarrow> b \<in> set cs"
proof -
  have "check_bit (fold set_bit_in cs m) b \<longleftrightarrow> b \<in> set cs \<or> check_bit m b" if "length m = 32" for m
    using that
  proof (induction cs arbitrary: m)
    case (Cons c cs)
    have "length (set_bit_in c m) = 32" using Cons.prems by (simp add: set_bit_in_def)
    then show ?case using Cons.IH [of "set_bit_in c m"] Cons.prems by (auto simp: check_set_bit_in)
  qed simp
  moreover have "\<not> check_bit (replicate 32 0) b" by (simp add: check_bit_iff)
  ultimately show ?thesis by (simp add: make_mask_def)
qed

lemma lead_loop_eq:
  "i + k \<le> length d \<Longrightarrow> lead_loop (make_mask cs) d i k = i + length (takeWhile (\<lambda>b. b \<in> set cs) (take k (drop i d)))"
proof (induction k arbitrary: i)
  case (Suc k)
  then have "take (Suc k) (drop i d) = d ! i # take k (drop (Suc i) d)" by (simp add: Cons_nth_drop_Suc [symmetric])
  then show ?case using Suc by (simp add: check_make_mask)
qed simp

lemma tail_loop_eq:
  "n \<le> length d \<Longrightarrow> tail_loop (make_mask cs) d n = length (dropWhile (\<lambda>b. b \<in> set cs) (rev (take n d)))"
  by (induction n) (simp_all add: check_make_mask take_Suc_conv_app_nth)

text \<open>What trimming a string means.\<close>

definition trimmed :: "u8 list \<Rightarrow> u8 list \<Rightarrow> u8 list" where
  "trimmed cs s = rev (dropWhile (\<lambda>b. b \<in> set cs) (rev (dropWhile (\<lambda>b. b \<in> set cs) s)))"

lemma rev_dropWhile_rev: "rev (dropWhile P (rev ys)) = take (length (dropWhile P (rev ys))) ys"
proof -
  have "ys = rev (dropWhile P (rev ys)) @ rev (takeWhile P (rev ys))"
    by (metis rev_append rev_rev_ident takeWhile_dropWhile_id)
  then show ?thesis by (metis append_eq_conv_conj length_rev)
qed

lemma trimmed_slice:
  assumes "\<not> set s \<subseteq> set cs"
  defines "i \<equiv> length (takeWhile (\<lambda>b. b \<in> set cs) s)" and "n \<equiv> length (dropWhile (\<lambda>b. b \<in> set cs) (rev s))"
  shows "i \<le> n" "n \<le> length s" "trimmed cs s = take (n - i) (drop i s)" "length (trimmed cs s) = n - i"
proof -
  let ?P = "\<lambda>b. b \<in> set cs"
  have dw: "dropWhile ?P s = drop i s" by (simp add: i_def dropWhile_eq_drop)
  have "\<exists>b \<in> set (drop i s). \<not> ?P b"
  proof (rule ccontr)
    assume "\<not> ?thesis"
    moreover have "b \<in> set cs" if "b \<in> set (takeWhile ?P s)" for b using set_takeWhileD [OF that] by simp
    moreover have "set s = set (takeWhile ?P s) \<union> set (drop i s)"
      unfolding dw [symmetric] by (metis set_append takeWhile_dropWhile_id)
    ultimately show False using assms(1) by auto
  qed
  moreover have "rev s = rev (drop i s) @ rev (take i s)" by (metis append_take_drop_id rev_append)
  ultimately have split: "dropWhile ?P (rev s) = dropWhile ?P (rev (drop i s)) @ rev (take i s)"
    by (metis dropWhile_append1 set_rev)
  have il: "i \<le> length s" by (simp add: i_def length_takeWhile_le)
  have n: "n = length (dropWhile ?P (rev (drop i s))) + i" using split il by (simp add: n_def)
  have "rev (dropWhile ?P (rev (drop i s))) = take (n - i) (drop i s)"
    using n rev_dropWhile_rev [of ?P "drop i s"] by simp
  then show tr: "trimmed cs s = take (n - i) (drop i s)" by (simp add: trimmed_def dw)
  show "i \<le> n" using n by simp
  show nl: "n \<le> length s" unfolding n_def using length_dropWhile_le [of ?P "rev s"] by simp
  show "length (trimmed cs s) = n - i" using tr nl by simp
qed

lemma trim_scan:
  assumes "holds d s"
  shows "lead_loop (make_mask cs) d 0 (length s) = length (takeWhile (\<lambda>b. b \<in> set cs) s)"
    "tail_loop (make_mask cs) d (length s) = length (dropWhile (\<lambda>b. b \<in> set cs) (rev s))"
  using assms lead_loop_eq [of 0 "length s" d cs] tail_loop_eq [of "length s" d cs] by (simp_all add: holds_def)

lemma mem_load_inside: "holds d s \<Longrightarrow> i + n \<le> length s \<Longrightarrow> mem_load i n d = Some (take n (drop i s))"
  by (auto simp: holds_def mem_load_def slice_def) (metis drop_take min.absorb1 nat_le_linear take_take add_le_imp_le_diff add.commute)

text \<open>Moving the characters to the front and setting a NUL behind them, if none is there.\<close>

lemma terminate:
  assumes "length t < length d"
  defines "e \<equiv> t @ drop (length t) d"
  shows "(if hd (slice (length t) 1 e) \<noteq> 0 then mem_store (length t) [0] e else Some e) = Some (t @ 0 # drop (Suc (length t)) d)"
    "mem_load (length t) 1 e = Some (slice (length t) 1 e)"
proof -
  have "drop (length t) d = d ! length t # drop (Suc (length t)) d" using assms(1) by (simp add: Cons_nth_drop_Suc)
  then show "(if hd (slice (length t) 1 e) \<noteq> 0 then mem_store (length t) [0] e else Some e) = Some (t @ 0 # drop (Suc (length t)) d)"
    by (simp add: e_def slice_def mem_store_def blit_def)
  show "mem_load (length t) 1 e = Some (slice (length t) 1 e)" using assms by (simp add: e_def mem_load_def)
qed

lemma xs_trim_pool:
  assumes P: "pool h (add_mset (x, s) R)" and room: "size R + 2 < SIZE_MOD" and avail: "\<And>n. avail n"
    and cs: "\<not> set s \<subseteq> set cs"
  shows "\<exists>h' x'. xs_trim avail junk h x cs = Some (h', x') \<and> pool h' (add_mset (x', trimmed cs s) R)"
proof (cases "cs = []")
  case True
  then have "trimmed cs s = s" by (simp add: trimmed_def)
  then show ?thesis using True P by (simp add: xs_trim_def)
next
  case False
  let ?i = "length (takeWhile (\<lambda>b. b \<in> set cs) s)" and ?n = "length (dropWhile (\<lambda>b. b \<in> set cs) (rev s))"
  let ?t = "trimmed cs s"
  note tr = trimmed_slice [OF cs]
  have rep: "xs_rep h x s" using pool_rep [OF P] by simp
  obtain dx where dx: "xs_data h x = Some dx" "holds dx s" "xs_size x = length s" "length s \<le> xs_capacity x"
    by (rule xs_rep_data [OF rep])
  obtain h1 x1 d where c: "xs_cow avail junk h x = Some (h1, x1)" "pool h1 (add_mset (set_size (length s) x1, s) R)"
    "refcount_get h1 x1 = Some 1" "xs_capacity x1 = xs_capacity x" "xs_data h1 x1 = Some d" "holds d s"
    "xs_capacity x < length d" "xs_is_ptr x1 \<or> length d = 16 \<and> unat (d ! 15) < 16"
    by (rule cow_pool [OF P room avail])
  have lt: "length ?t < length d" using tr(2,4) dx(4) c(7) by simp
  have big: "length s < SIZE_MOD" using rep_length [OF rep] .
  have sub: "size_sub ?n ?i = length ?t" using tr(1,2,4) big by (simp add: size_sub_id)
  have ld: "mem_load ?i (length ?t) dx = Some ?t" using mem_load_inside [OF dx(2), of ?i "length ?t"] tr by simp
  have st: "mem_store 0 ?t d = Some (?t @ drop (length ?t) d)" using lt by (intro store_zero) simp
  let ?d = "?t @ 0 # drop (Suc (length ?t)) d"
  have cap: "length ?t \<le> xs_capacity x1" using tr(2,4) dx(4) c(4) by simp
  have nib: "xs_is_ptr x1 \<or> unat (?d ! 15) < 16" using c(8) nibble_kept [of d ?t] cap by (cases x1) simp_all
  have "length ?d = length d" using lt by simp
  from pool_write [OF c(2,3,5) this holds_prefix cap nib] obtain h' x' where w:
    "put_data ?d h1 x1 = Some (h', x')" "pool h' (add_mset (set_size (length ?t) x', ?t) R)" by blast
  then have "xs_trim avail junk h x cs = Some (h', set_size (length ?t) x')"
    using False dx(1,3) trim_scan [OF dx(2), of cs] sub c(1,5) ld st terminate [OF lt]
    by (auto simp: xs_trim_def Let_def split: if_splits)
  then show ?thesis using w(2) by blast
qed

section \<open>Tokens\<close>

lemma delim_loop_eq:
  "i + k \<le> length d \<Longrightarrow> delim_loop (make_mask cs) d i k =
     (let n = length (takeWhile (\<lambda>b. b \<notin> set cs) (take k (drop i d))) in if n < k then Some (i + n) else None)"
proof (induction k arbitrary: i)
  case (Suc k)
  then have "take (Suc k) (drop i d) = d ! i # take k (drop (Suc i) d)" by (simp add: Cons_nth_drop_Suc [symmetric])
  then show ?case using Suc by (simp add: check_make_mask Let_def)
qed simp

text \<open>The first token of a string, if it has one.\<close>

definition first_token :: "u8 list \<Rightarrow> u8 list \<Rightarrow> u8 list option" where
  "first_token cs s = (let r = dropWhile (\<lambda>b. b \<in> set cs) s in
     if r = [] then None else Some (takeWhile (\<lambda>b. b \<notin> set cs) r))"

lemma holds_split:
  assumes "holds d s"
  obtains r where "d = s @ 0 # r"
  using assms by (metis append_take_drop_id holds_def Cons_nth_drop_Suc)

lemma takeWhile_nonzero: "0 \<notin> set w \<Longrightarrow> takeWhile (\<lambda>b. b \<noteq> 0) (w @ 0 # r) = (w :: u8 list)"
  by (induction w) auto

lemma strlen_holds: "holds d s \<Longrightarrow> 0 \<notin> set s \<Longrightarrow> strlen d = length s"
  by (metis holds_split strlen_def takeWhile_nonzero)

lemma tok_scan_first_token:
  assumes d: "holds d s" and nz: "0 \<notin> set s"
  obtains tok save d' where "tok_scan cs d = (tok, save, d')" "length d' = length d"
    "\<forall>i \<ge> length s. d' ! i = d ! i"
    "map_option (\<lambda>i. takeWhile (\<lambda>b. b \<noteq> 0) (drop i d')) tok = first_token cs s"
proof -
  let ?P = "\<lambda>b. b \<in> set cs"
  define i where "i = length (takeWhile ?P s)"
  define w where "w = takeWhile (\<lambda>b. b \<notin> set cs) (drop i s)"
  have dw: "dropWhile ?P s = drop i s" by (simp add: i_def dropWhile_eq_drop)
  have il: "i \<le> length s" by (simp add: i_def length_takeWhile_le)
  have lead: "lead_loop (make_mask cs) d 0 (length s) = i" using trim_scan(1) [OF d] by (simp add: i_def)
  obtain r where dr: "d = s @ 0 # r" by (rule holds_split [OF d])
  have dl: "delim_loop (make_mask cs) d i (length s - i) = (if length w < length s - i then Some (i + length w) else None)"
    using delim_loop_eq [of i "length s - i" d cs] il by (simp add: dr w_def Let_def)
  have wd: "drop i s = w @ dropWhile (\<lambda>b. b \<notin> set cs) (drop i s)" by (simp add: w_def)
  have wz: "0 \<notin> set w" using nz wd by (metis UnCI in_set_dropD set_append)
  note scan = tok_scan_def [of cs d, unfolded strlen_holds [OF d nz] lead Let_def]
  consider "i = length s" | "i < length s" "length w < length s - i" | "i < length s" "length w = length s - i"
    using il wd by (metis append_take_drop_id le_neq_implies_less length_append length_drop le_add1)
  then show thesis
  proof cases
    case 1
    then show thesis using that [of None 0 d] scan dw by (simp add: first_token_def)
  next
    case 2
    then obtain c v where v: "drop i s = w @ c # v" by (metis append_Nil2 length_drop less_irrefl list.exhaust wd)
    have "drop i (d[i + length w := 0]) = (drop i d)[length w := 0]" by (simp add: drop_update_swap)
    also have "\<dots> = w @ 0 # v @ 0 # r" using v il by (simp add: dr)
    finally have "takeWhile (\<lambda>b. b \<noteq> 0) (drop i (d[i + length w := 0])) = w" using takeWhile_nonzero [OF wz] by simp
    then show thesis using that [of "Some i" "Suc (i + length w)" "d[i + length w := 0]"] scan dl 2 dw
      by (simp add: first_token_def w_def)
  next
    case 3
    then have "w = drop i s" using wd by (metis append_eq_append_conv append_Nil2 length_drop)
    then have "takeWhile (\<lambda>b. b \<noteq> 0) (drop i d) = w" using takeWhile_nonzero [OF wz] il by (simp add: dr)
    then show thesis using that [of "Some i" "length s" d] scan dl 3 dw by (simp add: first_token_def w_def)
  qed
qed

section \<open>Properties\<close>

text \<open>C25: Copy-on-write strings behave like values.  Let the live objects of the
  program be \<open>x\<close>, which stands for \<open>s\<close>, and \<open>R\<close>, and let \<open>malloc\<close> succeed.  Making
  a string of fewer than \<open>2^31 - 1\<close> characters, copying \<open>x\<close>, dropping it,
  concatenating onto it two other objects, and trimming it when it has a character
  outside the set never access a block they do not own or read outside one; the
  object gets the string a pure function computes, no other object changes its
  string, and every counter is again the number of objects that share the block.\<close>

theorem xs_value_semantics:
  assumes P: "pool h (add_mset (x, s) R)" and room: "size R + 2 < SIZE_MOD" and avail: "\<And>n. avail n"
  shows "(\<forall>t. length t + 1 < 2 ^ 31 \<longrightarrow>
      (\<exists>h' y. xs_new avail junk h t = Some (h', y) \<and> pool h' (add_mset (y, t) (add_mset (x, s) R)))) \<and>
    (\<exists>h'. xs_copy h x = Some (h', x) \<and> pool h' (add_mset (x, s) (add_mset (x, s) R))) \<and>
    (\<exists>h'. xs_free h x = Some (h', xs_literal_empty) \<and> pool h' R) \<and>
    (\<forall>p t q u. (p, t) \<in># R \<longrightarrow> (q, u) \<in># R \<longrightarrow> length s + length t + length u < 2 ^ 31 \<longrightarrow>
      (\<exists>h' x'. xs_concat avail junk h x p q = Some (h', x') \<and> pool h' (add_mset (x', t @ s @ u) R))) \<and>
    (\<forall>cs. \<not> set s \<subseteq> set cs \<longrightarrow>
      (\<exists>h' x'. xs_trim avail junk h x cs = Some (h', x') \<and> pool h' (add_mset (x', trimmed cs s) R)))"
proof (intro conjI allI impI)
  have room': "size (add_mset (x, s) R) + 1 < SIZE_MOD" using room by simp
  show "\<exists>h' y. xs_new avail junk h t = Some (h', y) \<and> pool h' (add_mset (y, t) (add_mset (x, s) R))"
    if "length t + 1 < 2 ^ 31" for t
    by (rule xs_new_pool [OF P room' avail that])
  show "\<exists>h' x'. xs_trim avail junk h x cs = Some (h', x') \<and> pool h' (add_mset (x', trimmed cs s) R)"
    if "\<not> set s \<subseteq> set cs" for cs
    by (rule xs_trim_pool [OF P room avail that])
qed (intro pool_copy [OF P room] pool_free [OF P] xs_concat_pool [OF P room avail]; assumption)+

text \<open>A string of 21 characters that two objects share: one of them is trimmed.\<close>

definition shared_heap :: xheap where
  "shared_heap = \<lparr>blocks = [0 \<mapsto> \<lparr>refcnt = 2, rdata = 32 # replicate 20 65 @ replicate 18 0\<rparr>], xnext = 1\<rparr>"

definition shared_string :: "u8 list" where
  "shared_string = 32 # replicate 20 65"

lemma shared_pool: "pool shared_heap {#(OnHeap 0 21 5, shared_string), (OnHeap 0 21 5, shared_string)#}"
proof -
  have "holds (32 # replicate 20 65 @ replicate 18 0) shared_string"
    using holds_prefix [of shared_string "replicate 17 0"] by (simp add: shared_string_def eval_nat_numeral)
  then have "xs_rep shared_heap (OnHeap 0 21 5) shared_string" by (simp add: shared_heap_def) (simp add: shared_string_def)
  then show ?thesis by (auto simp: pool_def shared_heap_def SIZE_MOD_def owners_def split: if_splits)
qed

lemma xs_value_semantics_witness:
  "\<exists>h' x'. xs_trim (\<lambda>n. True) 0 shared_heap (OnHeap 0 21 5) [32] = Some (h', x') \<and>
     pool h' {#(x', trimmed [32] shared_string), (OnHeap 0 21 5, shared_string)#}"
  using xs_value_semantics [OF shared_pool, of "\<lambda>n. True" 0] by (simp add: SIZE_MOD_def shared_string_def)

text \<open>Trimming a string that consists of characters of the set only goes wrong:
  the length left, \<open>slen - i\<close>, is computed as 0 minus the length, which wraps, and
  \<open>memmove\<close> is asked to move almost \<open>2^64\<close> bytes.\<close>

theorem xs_trim_all_underflow:
  assumes P: "pool h (add_mset (x, s) R)" and room: "size R + 2 < SIZE_MOD" and avail: "\<And>n. avail n"
    and s: "s \<noteq> []" "set s \<subseteq> set cs"
  shows "xs_trim avail junk h x cs = None"
proof -
  have rep: "xs_rep h x s" using pool_rep [OF P] by simp
  obtain d where d: "xs_data h x = Some d" "holds d s" "xs_size x = length s" by (rule xs_rep_data [OF rep])
  have "takeWhile (\<lambda>b. b \<in> set cs) s = s" "dropWhile (\<lambda>b. b \<in> set cs) (rev s) = []"
    using s(2) by (auto simp: takeWhile_eq_all_conv)
  with trim_scan [OF d(2), of cs]
  have scan: "lead_loop (make_mask cs) d 0 (length s) = length s" "tail_loop (make_mask cs) d (length s) = 0" by simp_all
  have "size_sub 0 (length s) = SIZE_MOD - length s" using s(1) rep_length [OF rep] by (simp add: size_sub_def SIZE_MOD_def)
  then have none: "mem_load (length s) (size_sub 0 (length s)) d = None"
    using rep_length [OF rep] rep_data_length [OF rep d(1)] by (simp add: mem_load_def)
  obtain h1 x1 d1 where c: "xs_cow avail junk h x = Some (h1, x1)" "xs_data h1 x1 = Some d1"
    by (rule cow_pool [OF P room avail])
  show ?thesis using s d(1,3) scan c none by (auto simp: xs_trim_def Let_def)
qed

lemma xs_trim_all_underflow_witness:
  "xs_trim (\<lambda>n. True) 0 shared_heap (OnHeap 0 21 5) [32, 65] = None"
  using xs_trim_all_underflow [OF shared_pool, of "\<lambda>n. True" "[32, 65]" 0] by (simp add: SIZE_MOD_def shared_string_def)

text \<open>C26: The first call of \<open>xs_tok_r\<close> returns the first token: the offset it returns
  is the start of a C string that is the first maximal run of characters outside
  the set, or NULL when there is none.  No other object changes.  The object keeps
  its size when it had the block for itself; when the block was shared, \<open>xs_cow\<close>
  has made a private copy and the size of the object is 0.\<close>

theorem xs_tok_r_first_token:
  assumes P: "pool h (add_mset (x, s) R)" and room: "size R + 2 < SIZE_MOD" and avail: "\<And>n. avail n"
    and nz: "0 \<notin> set s" and cs: "cs \<noteq> []"
  shows "\<exists>h' x' tok save d. xs_tok_r avail junk h x cs saved = Some (h', x', tok, save) \<and> xs_data h' x' = Some d \<and>
    map_option (\<lambda>i. takeWhile (\<lambda>b. b \<noteq> 0) (drop i d)) tok = first_token cs s \<and>
    (\<forall>(y, u) \<in># R. xs_rep h' y u) \<and>
    xs_size x' = (if refcount_get h x = Some 1 then length s else 0)"
proof -
  obtain h1 x1 d where c: "xs_cow avail junk h x = Some (h1, x1)" "pool h1 (add_mset (set_size (length s) x1, s) R)"
    "refcount_get h1 x1 = Some 1" "xs_data h1 x1 = Some d" "holds d s"
    "xs_is_ptr x1 \<or> length d = 16 \<and> unat (d ! 15) < 16" "length s \<le> xs_capacity x1"
    "xs_size x1 = (if refcount_get h x = Some 1 then length s else 0)"
    by (rule cow_pool [OF P room avail])
  obtain tok save d' where t: "tok_scan cs d = (tok, save, d')" "length d' = length d"
    "\<forall>i \<ge> length s. d' ! i = d ! i"
    "map_option (\<lambda>i. takeWhile (\<lambda>b. b \<noteq> 0) (drop i d')) tok = first_token cs s"
    by (rule tok_scan_first_token [where cs = cs, OF c(5) nz])
  have "holds d' (take (length s) d')" using c(5) t(2) t(3) by (simp add: holds_def)
  moreover have "xs_is_ptr x1 \<or> d' ! 15 = d ! 15" using c(7) t(3) by (cases x1) simp_all
  ultimately obtain h' x' where w: "put_data d' h1 x1 = Some (h', x')"
    "pool h' (add_mset (set_size (length (take (length s) d')) x', take (length s) d') R)"
    using pool_write [OF c(2,3,4) t(2), of "take (length s) d'"] c(5,6,7) t(2) by (auto simp: holds_def)
  have "\<forall>(y, u) \<in># R. xs_rep h' y u" using pool_rep [OF w(2)] by auto
  moreover have "xs_data h' x' = Some d'" using w(1) c(4) by (cases x1) auto
  moreover have "xs_size x' = xs_size x1"
    using w(1) c(4) \<open>xs_is_ptr x1 \<or> d' ! 15 = d ! 15\<close> by (cases x1) (auto simp: space_left_def)
  moreover have "xs_tok_r avail junk h x cs saved = Some (h', x', tok, if tok = None then saved else save)"
    using cs c(1,4) t(1) w(1) by (simp add: xs_tok_r_def Let_def)
  ultimately show ?thesis using t(4) c(8) by metis
qed

lemma xs_tok_r_first_token_witness:
  "\<exists>h' x' tok save. xs_tok_r (\<lambda>n. True) 0 shared_heap (OnHeap 0 21 5) [32] 0 = Some (h', x', tok, save) \<and> xs_size x' = 0"
  using xs_tok_r_first_token [OF shared_pool, of "\<lambda>n. True" "[32]" 0 0]
  by (auto simp: SIZE_MOD_def shared_string_def shared_heap_def)

end
