(* ===== verification/Xs_Tests.thy ===== *)
theory Xs_Tests
  imports Xs_Spec
begin

text \<open>
  The checks and the sharing benchmark of \<open>xstring/xs-unittest.c\<close>.  A test maps the heap
  to the heap it leaves; \<open>None\<close> is a failed \<open>check\<close>, which ends the program, or an
  undefined operation of the string library.
\<close>

section \<open>The checks\<close>

definition chars :: "string \<Rightarrow> u8 list" where
  "chars = map of_char"

text \<open>\<open>strcmp(x, y) = 0\<close> for the bytes \<open>x\<close> points to, which must hold a NUL, and the literal \<open>y\<close>.\<close>

definition check :: "u8 list \<Rightarrow> u8 list \<Rightarrow> unit option" where
  "check x y = (if 0 \<in> set x \<and> takeWhile (\<lambda>b. b \<noteq> 0) x = y then Some () else None)"

definition check_data :: "xheap \<Rightarrow> xs \<Rightarrow> u8 list \<Rightarrow> unit option" where
  "check_data h x y = do { d \<leftarrow> xs_data h x; check d y }"

definition check_tok :: "xheap \<Rightarrow> xs \<Rightarrow> nat option \<Rightarrow> u8 list \<Rightarrow> unit option" where
  "check_tok h x tok y = do { t \<leftarrow> tok; d \<leftarrow> xs_data h x; check (drop t d) y }"

text \<open>\<open>n\<close> calls of \<open>xs_concat\<close> with the same arguments.\<close>

primrec concat_times :: "u8 \<Rightarrow> nat \<Rightarrow> xheap \<Rightarrow> xs \<Rightarrow> xs \<Rightarrow> xs \<Rightarrow> (xheap \<times> xs) option" where
  "concat_times junk 0 h x p q = Some (h, x)"
| "concat_times junk (Suc n) h x p q =
     do { (h, x) \<leftarrow> xs_concat (\<lambda>_. True) junk h x p q; concat_times junk n h x p q }"

definition test :: "u8 \<Rightarrow> xheap \<Rightarrow> xheap option" where
  "test junk h = do {
     (h, string) \<leftarrow> xs_new (\<lambda>_. True) junk h (10 # chars '' foobarbar'');
     (h, space) \<leftarrow> xs_new (\<lambda>_. True) junk h (10 # chars '' '');
     (h, empty) \<leftarrow> xs_new (\<lambda>_. True) junk h [];
     (h, pfx) \<leftarrow> xs_new (\<lambda>_. True) junk h (chars ''((('');
     (h, suffix) \<leftarrow> xs_new (\<lambda>_. True) junk h (chars '')))'');
     check_data h string (10 # chars '' foobarbar'');
     (h, string) \<leftarrow> xs_trim (\<lambda>_. True) junk h string [10, 32];
     check_data h string (chars ''foobarbar'');
     (h, string) \<leftarrow> concat_times junk 3 h string empty space;
     check_data h string (chars ''foobarbar'' @ [10, 32, 10, 32, 10, 32]);
     (h, string) \<leftarrow> xs_trim (\<lambda>_. True) junk h string [10, 32];
     check_data h string (chars ''foobarbar'');
     (h, string) \<leftarrow> xs_concat (\<lambda>_. True) junk h string pfx suffix;
     (h, string) \<leftarrow> concat_times junk 3 h string empty space;
     check_data h string (chars ''(((foobarbar)))'' @ [10, 32, 10, 32, 10, 32]);
     (h, string) \<leftarrow> xs_trim (\<lambda>_. True) junk h string [10, 32];
     check_data h string (chars ''(((foobarbar)))'');
     (h, string) \<leftarrow> xs_concat (\<lambda>_. True) junk h string pfx suffix;
     check_data h string (chars ''((((((foobarbar))))))'');
     (h, string) \<leftarrow> xs_trim (\<lambda>_. True) junk h string (chars ''()'');
     check_data h string (chars ''foobarbar'');
     (h, string) \<leftarrow> concat_times junk 3 h string pfx suffix;
     check_data h string (chars ''(((((((((foobarbar)))))))))'');
     (h, string) \<leftarrow> xs_concat (\<lambda>_. True) junk h string pfx suffix;
     check_data h string (chars ''((((((((((((foobarbar))))))))))))'');
     (h, string) \<leftarrow> xs_grow (\<lambda>_. True) junk h string (xs_capacity string + 1);
     check_data h string (chars ''((((((((((((foobarbar))))))))))))'');
     (h, string) \<leftarrow> xs_trim (\<lambda>_. True) junk h string (chars ''()'');
     check_data h string (chars ''foobarbar'');
     (h, copy) \<leftarrow> xs_copy h string;
     check_data h copy (chars ''foobarbar'');
     (h, copy) \<leftarrow> xs_free h copy;
     check_data h string (chars ''foobarbar'');
     (h, string) \<leftarrow> xs_free h string;
     (h, pfx) \<leftarrow> xs_free h pfx;
     (h, suffix) \<leftarrow> xs_free h suffix;
     (h, space) \<leftarrow> xs_free h space;
     (h, empty) \<leftarrow> xs_free h empty;
     Some h }"

definition copy_on_write :: "u8 \<Rightarrow> xheap \<Rightarrow> xheap option" where
  "copy_on_write junk h = (let s = chars ''0123456789abcdef'' in do {
     (h, empty) \<leftarrow> xs_new (\<lambda>_. True) junk h [];
     (h, x) \<leftarrow> xs_new (\<lambda>_. True) junk h s;
     (h, y) \<leftarrow> xs_copy h x;
     (h, z) \<leftarrow> xs_copy h x;
     (h, w) \<leftarrow> xs_copy h x;
     check_data h x s;
     check_data h y s;
     check_data h z s;
     check_data h w s;
     (h, y) \<leftarrow> xs_concat (\<lambda>_. True) junk h y empty x;
     (h, z) \<leftarrow> xs_concat (\<lambda>_. True) junk h z x x;
     (h, w) \<leftarrow> xs_trim (\<lambda>_. True) junk h w (chars ''0123'');
     check_data h x s;
     check_data h y (s @ s);
     check_data h z (s @ s @ s);
     check_data h w (chars ''456789abcdef'');
     (h, w) \<leftarrow> xs_free h w;
     (h, z) \<leftarrow> xs_free h z;
     (h, w) \<leftarrow> xs_copy h y;
     (h, z) \<leftarrow> xs_copy h y;
     check_data h y (s @ s);
     check_data h w (s @ s);
     check_data h z (s @ s);
     (h, x) \<leftarrow> xs_concat (\<lambda>_. True) junk h x empty z;
     check_data h x (s @ s @ s);
     (h, x) \<leftarrow> xs_trim (\<lambda>_. True) junk h x (chars ''0'');
     check_data h x (chars ''123456789abcdef'' @ s @ s);
     (h, x) \<leftarrow> xs_free h x;
     (h, y) \<leftarrow> xs_free h y;
     (h, z) \<leftarrow> xs_free h z;
     (h, w) \<leftarrow> xs_free h w;
     Some h })"

text \<open>The result of \<open>token\<close> is also how often it prints \<open>invalid token\<close>.\<close>

definition token :: "u8 \<Rightarrow> xheap \<Rightarrow> (xheap \<times> nat) option" where
  "token junk h = (let delim = chars '' ;'' in do {
     (h, x) \<leftarrow> xs_new (\<lambda>_. True) junk h (chars ''   ; aaa ; ; bbb; ccc'');
     (h, y) \<leftarrow> xs_copy h x;
     check_data h y (chars ''   ; aaa ; ; bbb; ccc'');
     (h, x, tok, saveptr) \<leftarrow> xs_tok_r (\<lambda>_. True) junk h x delim 0;
     check_tok h x tok (chars ''aaa'');
     (h, x, tok, saveptr) \<leftarrow> xs_tok_r_next h x delim saveptr;
     check_tok h x tok (chars ''bbb'');
     (h, x, tok, saveptr) \<leftarrow> xs_tok_r_next h x delim saveptr;
     check_tok h x tok (chars ''ccc'');
     (h, x, tok, saveptr) \<leftarrow> xs_tok_r_next h x delim saveptr;
     check_data h x (chars ''   ; aaa'');
     check_data h y (chars ''   ; aaa ; ; bbb; ccc'');
     let invalid = of_bool (tok \<noteq> None);
     (h, x) \<leftarrow> xs_free h x;
     (h, y) \<leftarrow> xs_free h y;
     (h, x) \<leftarrow> xs_new (\<lambda>_. True) junk h (chars ''   ; ddd;'');
     (h, x, tok, saveptr) \<leftarrow> xs_tok_r (\<lambda>_. True) junk h x delim saveptr;
     check_tok h x tok (chars ''ddd'');
     (h, x, tok, saveptr) \<leftarrow> xs_tok_r_next h x delim saveptr;
     check_data h x (chars ''   ; ddd'');
     let invalid = invalid + of_bool (tok \<noteq> None);
     (h, y) \<leftarrow> xs_new (\<lambda>_. True) junk h (chars ''   ; ;'');
     (h, y, tok, saveptr) \<leftarrow> xs_tok_r (\<lambda>_. True) junk h y delim saveptr;
     let invalid = invalid + of_bool (tok \<noteq> None);
     check_data h y (chars ''   ; ;'');
     (h, x) \<leftarrow> xs_free h x;
     (h, y) \<leftarrow> xs_free h y;
     Some (h, invalid) })"

definition checker :: "u8 \<Rightarrow> xheap \<Rightarrow> (xheap \<times> nat) option" where
  "checker junk h = do { h \<leftarrow> test junk h; h \<leftarrow> copy_on_write junk h; token junk h }"

section \<open>Sharing one string\<close>

definition XS_ARRAY_SIZE :: nat where "XS_ARRAY_SIZE = 5000"

definition bench_string :: "nat \<Rightarrow> u8 list" where
  "bench_string sz = map (\<lambda>i. 97 + of_nat (i mod 26)) [0..<sz - 1]"

primrec copy_all :: "nat \<Rightarrow> xheap \<Rightarrow> xs \<Rightarrow> (xheap \<times> xs list) option" where
  "copy_all 0 h x = Some (h, [])"
| "copy_all (Suc n) h x = do { (h, y) \<leftarrow> xs_copy h x; (h, ys) \<leftarrow> copy_all n h x; Some (h, y # ys) }"

primrec check_all :: "xheap \<Rightarrow> xs list \<Rightarrow> u8 list \<Rightarrow> unit option" where
  "check_all h [] s = Some ()"
| "check_all h (x # xs) s = do { check_data h x s; check_all h xs s }"

primrec check_runs :: "nat \<Rightarrow> xheap \<Rightarrow> xs list \<Rightarrow> u8 list \<Rightarrow> unit option" where
  "check_runs 0 h xs s = Some ()"
| "check_runs (Suc n) h xs s = do { check_all h xs s; check_runs n h xs s }"

primrec free_all :: "xheap \<Rightarrow> xs list \<Rightarrow> xheap option" where
  "free_all h [] = Some h"
| "free_all h (x # xs) = do { (h, _) \<leftarrow> xs_free h x; free_all h xs }"

text \<open>\<open>sz\<close> is the size of the array of characters, its last one the NUL.\<close>

definition cow_benchmark :: "(nat \<Rightarrow> bool) \<Rightarrow> u8 \<Rightarrow> nat \<Rightarrow> nat \<Rightarrow> xheap \<Rightarrow> xheap option" where
  "cow_benchmark avail junk run sz h =
     (if 0 < run \<and> 0 < sz then do {
        (h, x) \<leftarrow> xs_new avail junk h (bench_string sz);
        (h, arr) \<leftarrow> copy_all XS_ARRAY_SIZE h x;
        check_runs run h arr (bench_string sz);
        h \<leftarrow> free_all h arr;
        (h, x) \<leftarrow> xs_free h x;
        Some h }
      else None)"

section \<open>The checks pass\<close>

lemma loops_numeral:
  "lead_loop m d i (numeral k) = (if check_bit m (d ! i) then lead_loop m d (Suc i) (pred_numeral k) else i)"
  "tail_loop m d (numeral k) = (if check_bit m (d ! pred_numeral k) then tail_loop m d (pred_numeral k) else numeral k)"
  "delim_loop m d i (numeral k) = (if check_bit m (d ! i) then Some i else delim_loop m d (Suc i) (pred_numeral k))"
  "concat_times junk (numeral k) h x p q =
     do { (h, x) \<leftarrow> xs_concat (\<lambda>_. True) junk h x p q; concat_times junk (pred_numeral k) h x p q }"
  by (simp_all only: numeral_eq_Suc lead_loop.simps tail_loop.simps delim_loop.simps concat_times.simps)

lemma floor_log_numeral:
  "floor_log (Suc 0) = 0" "floor_log (numeral k) = (if numeral k < (2::nat) then 0 else Suc (floor_log (numeral k div 2)))"
  by (subst floor_log.simps, simp)+

lemmas xs_eval = chars_def xs_new_def blit_def set_space_left_def space_left_def check_data_def check_def check_tok_def xs_tok_r_def xs_tok_r_next_def tok_scan_def strlen_def
  xs_trim_def xs_concat_def xs_copy_def xs_free_def xs_cow_def xs_grow_def refcount_create_def refcount_realloc_def
  block_store_def free_block_def xs_literal_empty_def mem_load_def mem_store_def slice_def concat_into_def
  xs_ilog2_def refcount_increment_def refcount_decrement_def refcount_add_def xs_is_free_def
  check_make_mask Let_def replicate_numeral_eq loops_numeral size_add_def size_sub_def SIZE_MOD_def XS_SIZE_BITS_def floor_log_numeral

lemma test_passes: "\<exists>m. test junk \<lparr>blocks = Map.empty, xnext = n\<rparr> = Some \<lparr>blocks = Map.empty, xnext = m\<rparr>"
  by (simp add: test_def xs_eval cong: bind_weak_cong)

lemma copy_on_write_passes:
  "\<exists>m. copy_on_write junk \<lparr>blocks = Map.empty, xnext = n\<rparr> = Some \<lparr>blocks = Map.empty, xnext = m\<rparr>"
  by (simp add: copy_on_write_def xs_eval cong: bind_weak_cong)

lemma token_passes: "\<exists>m. token junk \<lparr>blocks = Map.empty, xnext = n\<rparr> = Some (\<lparr>blocks = Map.empty, xnext = m\<rparr>, 0)"
  by (simp add: token_def xs_eval cong: bind_weak_cong)

lemma checker_passes: "\<exists>m. checker junk \<lparr>blocks = Map.empty, xnext = n\<rparr> = Some (\<lparr>blocks = Map.empty, xnext = m\<rparr>, 0)"
proof -
  obtain m where "test junk \<lparr>blocks = Map.empty, xnext = n\<rparr> = Some \<lparr>blocks = Map.empty, xnext = m\<rparr>"
    using test_passes by blast
  moreover obtain m' where "copy_on_write junk \<lparr>blocks = Map.empty, xnext = m\<rparr> = Some \<lparr>blocks = Map.empty, xnext = m'\<rparr>"
    using copy_on_write_passes by blast
  ultimately show ?thesis using token_passes [of junk m'] by (simp add: checker_def)
qed

section \<open>The benchmark passes\<close>

lemma pool_none: "pool h {#} \<longleftrightarrow> blocks h = Map.empty"
  by (auto simp: pool_def owners_def SIZE_MOD_def)

lemma copy_all_pool:
  "pool h (add_mset (x, s) R) \<Longrightarrow> size R + n + 1 < SIZE_MOD \<Longrightarrow>
    \<exists>h'. copy_all n h x = Some (h', replicate n x) \<and> pool h' (add_mset (x, s) (replicate_mset n (x, s) + R))"
proof (induction n arbitrary: h R)
  case (Suc n)
  obtain h1 where h1: "xs_copy h x = Some (h1, x)" "pool h1 (add_mset (x, s) (add_mset (x, s) R))"
    using pool_copy [OF Suc.prems(1)] Suc.prems(2) by auto
  then show ?case using Suc.IH [OF h1(2)] Suc.prems(2) by auto
qed simp

lemma free_all_pool:
  "pool h (replicate_mset n (x, s) + R) \<Longrightarrow> \<exists>h'. free_all h (replicate n x) = Some h' \<and> pool h' R"
proof (induction n arbitrary: h)
  case (Suc n)
  obtain h1 where "xs_free h x = Some (h1, xs_literal_empty)" "pool h1 (replicate_mset n (x, s) + R)"
    using pool_free [of h x s "replicate_mset n (x, s) + R"] Suc.prems by auto
  then show ?case using Suc.IH by simp
qed simp

lemma check_rep:
  assumes "xs_rep h x s" "0 \<notin> set s"
  shows "check_data h x s = Some ()"
proof -
  obtain d where d: "xs_data h x = Some d" "holds d s" using assms(1) by (cases x) auto
  have "d = take (length s) d @ d ! length s # drop (Suc (length s)) d"
    using d(2) unfolding holds_def by (blast intro: id_take_nth_drop)
  then obtain r where r: "d = s @ 0 # r" using d(2) by (auto simp: holds_def)
  have "\<forall>b \<in> set s. b \<noteq> 0" using assms(2) by metis
  then have "takeWhile (\<lambda>b. b \<noteq> 0) d = s" unfolding r by (simp add: takeWhile_append2)
  then show ?thesis using d(1) by (simp add: check_data_def check_def r)
qed

lemma check_runs_rep:
  assumes "xs_rep h x s" "0 \<notin> set s"
  shows "check_runs run h (replicate n x) s = Some ()"
proof -
  have "check_all h (replicate n x) s = Some ()" by (induction n) (simp_all add: check_rep [OF assms])
  then show ?thesis by (induction run) simp_all
qed

lemma bench_string_nonzero: "0 \<notin> set (bench_string sz)"
proof
  assume "0 \<in> set (bench_string sz)"
  then obtain i where "(97 :: u8) + of_nat (i mod 26) = 0" by (auto simp: bench_string_def)
  then have "unat ((97 :: u8) + of_nat (i mod 26)) = 0" by simp
  moreover have "unat ((97 :: u8) + of_nat (i mod 26)) = 97 + i mod 26"
    by (simp add: unat_word_ariths unat_of_nat)
  ultimately show False by simp
qed

text \<open>The checks of the unit test pass and print no error, whatever a new block contains, and
  every block is given back.  So does the benchmark, in which 5000 objects share one string
  of any size below \<open>2^31\<close>.\<close>

theorem xs_unittest_passes:
  assumes "blocks h = Map.empty" and "\<And>n. avail n" and "0 < run" "0 < sz" "sz < 2 ^ 31"
  shows "(\<exists>h'. checker junk h = Some (h', 0) \<and> blocks h' = Map.empty) \<and>
    (\<exists>h'. cow_benchmark avail junk run sz h = Some h' \<and> blocks h' = Map.empty)"
proof
  have "h = \<lparr>blocks = Map.empty, xnext = xnext h\<rparr>" using assms(1) by simp
  then show "\<exists>h'. checker junk h = Some (h', 0) \<and> blocks h' = Map.empty"
    using checker_passes [of junk "xnext h"] by (metis xheap.select_convs(1))
  let ?s = "bench_string sz"
  have len: "length ?s + 1 < 2 ^ 31" using assms(4,5) by (simp add: bench_string_def)
  obtain h1 x where 1: "xs_new avail junk h ?s = Some (h1, x)" "pool h1 {#(x, ?s)#}"
    using xs_new_pool [where avail = avail and junk = junk, OF iffD2 [OF pool_none assms(1)] _ assms(2) len]
    by (auto simp: SIZE_MOD_def)
  obtain h2 where 2: "copy_all XS_ARRAY_SIZE h1 x = Some (h2, replicate XS_ARRAY_SIZE x)"
      "pool h2 (add_mset (x, ?s) (replicate_mset XS_ARRAY_SIZE (x, ?s)))"
    using copy_all_pool [OF 1(2), of XS_ARRAY_SIZE] by (auto simp: XS_ARRAY_SIZE_def SIZE_MOD_def)
  have 3: "check_runs run h2 (replicate XS_ARRAY_SIZE x) ?s = Some ()"
    by (rule check_runs_rep [OF pool_rep [OF 2(2)] bench_string_nonzero]) simp
  obtain h3 where 4: "free_all h2 (replicate XS_ARRAY_SIZE x) = Some h3" "pool h3 {#(x, ?s)#}"
    using free_all_pool [of h2 XS_ARRAY_SIZE x ?s "{#(x, ?s)#}"] 2(2) by auto
  obtain h4 where "xs_free h3 x = Some (h4, xs_literal_empty)" "pool h4 {#}" using pool_free [OF 4(2)] by blast
  then show "\<exists>h'. cow_benchmark avail junk run sz h = Some h' \<and> blocks h' = Map.empty"
    using assms(3,4) 1(1) 2(1) 3 4(1) by (simp add: cow_benchmark_def pool_none)
qed

theorem xs_unittest_passes_witness:
  "\<exists>h'. cow_benchmark (\<lambda>_. True) 0 1000 4096 \<lparr>blocks = Map.empty, xnext = 0\<rparr> = Some h' \<and> blocks h' = Map.empty"
  by (rule xs_unittest_passes [THEN conjunct2]) simp_all

end
