(* ===== verification/Slist.thy ===== *)
theory Slist
  imports Prelude "HOL-Library.Monad_Syntax" "HOL-Library.Multiset"
begin

text \<open>
  The singly linked list of \<open>swap-pairs/link-list.c\<close>.  A node is a cell at an
  address other than 0, which is NULL; a pointer to a pointer (\<open>node_t **\<close>) is a
  \<open>slot\<close>, either the variable \<open>head\<close> or the \<open>next\<close> field of a node.  Every function
  maps the memory to a new one; a NULL or dangling pointer that is dereferenced, a
  failed assertion and a loop that does not end are \<open>None\<close>.
\<close>

section \<open>Memory\<close>

record node_t =
  nvalue :: int
  nnext :: nat

datatype slot = Head | Next nat

record lmem =
  head :: nat
  nodes :: "nat \<Rightarrow> node_t option"

text \<open>\<open>*s\<close> and \<open>*s = p\<close>.\<close>

definition get :: "lmem \<Rightarrow> slot \<Rightarrow> nat option" where
  "get m s = (case s of Head \<Rightarrow> Some (head m) | Next p \<Rightarrow> map_option nnext (nodes m p))"

definition put :: "slot \<Rightarrow> nat \<Rightarrow> lmem \<Rightarrow> lmem option" where
  "put s q m =
     (case s of
        Head \<Rightarrow> Some (m\<lparr>head := q\<rparr>)
      | Next p \<Rightarrow> (case nodes m p of
            None \<Rightarrow> None
          | Some n \<Rightarrow> Some (m\<lparr>nodes := (nodes m)(p \<mapsto> n\<lparr>nnext := q\<rparr>)\<rparr>)))"

section \<open>Operations\<close>

text \<open>The walk to the last slot; \<open>alloc m\<close> is what \<open>malloc\<close> returns.\<close>

partial_function (option) last_slot :: "lmem \<Rightarrow> slot \<Rightarrow> slot option" where
  "last_slot m indirect = do { p \<leftarrow> get m indirect; if p \<noteq> 0 then last_slot m (Next p) else Some indirect }"

definition add_entry :: "(lmem \<Rightarrow> nat) \<Rightarrow> int \<Rightarrow> lmem \<Rightarrow> lmem option" where
  "add_entry alloc new_value m =
     (let new_node = alloc m in
      if new_node = 0 then None
      else do {
        let m = m\<lparr>nodes := (nodes m)(new_node \<mapsto> \<lparr>nvalue = new_value, nnext = 0\<rparr>)\<rparr>;
        indirect \<leftarrow> last_slot m Head;
        put indirect new_node m })"

partial_function (option) find_from :: "lmem \<Rightarrow> int \<Rightarrow> nat \<Rightarrow> nat option" where
  "find_from m v current =
     (if current = 0 then Some 0
      else do { n \<leftarrow> nodes m current; if nvalue n = v then Some current else find_from m v (nnext n) })"

definition find_entry :: "lmem \<Rightarrow> int \<Rightarrow> nat option" where
  "find_entry m v = find_from m v (head m)"

partial_function (option) slot_of :: "lmem \<Rightarrow> nat \<Rightarrow> slot \<Rightarrow> slot option" where
  "slot_of m entry indirect = do { p \<leftarrow> get m indirect; if p \<noteq> entry then slot_of m entry (Next p) else Some indirect }"

definition remove_entry :: "nat \<Rightarrow> lmem \<Rightarrow> lmem option" where
  "remove_entry entry m =
     do { indirect \<leftarrow> slot_of m entry Head;
          n \<leftarrow> nodes m entry;
          m \<leftarrow> put indirect (nnext n) m;
          Some (m\<lparr>nodes := (nodes m)(entry := None)\<rparr>) }"

partial_function (option) swap_loop :: "slot \<Rightarrow> lmem \<Rightarrow> lmem option" where
  "swap_loop node m =
     do { p \<leftarrow> get m node;
          if p = 0 then Some m
          else do {
            q \<leftarrow> get m (Next p);
            if q = 0 then Some m
            else do {
              m \<leftarrow> put node q m;
              r \<leftarrow> get m (Next q);
              m \<leftarrow> put (Next p) r m;
              m \<leftarrow> put (Next q) p m;
              q \<leftarrow> get m node;
              p \<leftarrow> get m (Next q);
              swap_loop (Next p) m } } }"

definition swap_pair :: "lmem \<Rightarrow> lmem option" where
  "swap_pair m = swap_loop Head m"

partial_function (option) rev_recursive :: "nat \<Rightarrow> lmem \<Rightarrow> (nat \<times> lmem) option" where
  "rev_recursive cur m =
     (if cur = 0 then Some (cur, m)
      else do {
        q \<leftarrow> get m (Next cur);
        if q = 0 then Some (cur, m)
        else do {
          (hd, m) \<leftarrow> rev_recursive q m;
          q \<leftarrow> get m (Next cur);
          m \<leftarrow> put (Next q) cur m;
          m \<leftarrow> put (Next cur) 0 m;
          Some (hd, m) } })"

definition reverse :: "lmem \<Rightarrow> lmem option" where
  "reverse m = do { (hd, m) \<leftarrow> rev_recursive (head m) m; Some (m\<lparr>head := hd\<rparr>) }"

text \<open>The shuffle: \<open>len\<close> counts the nodes; \<open>rnd i\<close> is what the \<open>i\<close>-th call of \<open>rand\<close> returns.\<close>

partial_function (option) count_from :: "lmem \<Rightarrow> nat \<Rightarrow> nat option" where
  "count_from m cur =
     (if cur = 0 then Some 0 else do { q \<leftarrow> get m (Next cur); k \<leftarrow> count_from m q; Some (Suc k) })"

primrec advance :: "lmem \<Rightarrow> nat \<Rightarrow> slot \<Rightarrow> slot option" where
  "advance m 0 target = Some target"
| "advance m (Suc k) target = do { p \<leftarrow> get m target; _ \<leftarrow> get m (Next p); advance m k (Next p) }"

definition swap_slots :: "slot \<Rightarrow> slot \<Rightarrow> lmem \<Rightarrow> lmem option" where
  "swap_slots cur target m =
     do { tmp \<leftarrow> get m target;
          p \<leftarrow> get m cur;
          m \<leftarrow> put target p m;
          m \<leftarrow> put cur tmp m;
          t \<leftarrow> get m target;
          tmp \<leftarrow> get m (Next t);
          c \<leftarrow> get m cur;
          cn \<leftarrow> get m (Next c);
          t \<leftarrow> get m target;
          m \<leftarrow> put (Next t) cn m;
          c \<leftarrow> get m cur;
          put (Next c) tmp m }"

primrec shuffle_loop :: "(nat \<Rightarrow> nat) \<Rightarrow> nat \<Rightarrow> slot \<Rightarrow> lmem \<Rightarrow> lmem option" where
  "shuffle_loop rnd 0 cur m = Some m"
| "shuffle_loop rnd (Suc i) cur m =
     do { let j = rnd 0 mod (Suc i + 1);
          target \<leftarrow> advance m j cur;
          m \<leftarrow> swap_slots cur target m;
          c \<leftarrow> get m cur;
          _ \<leftarrow> get m (Next c);
          shuffle_loop (\<lambda>k. rnd (Suc k)) i (Next c) m }"

definition fisher_yates_shuffle :: "(nat \<Rightarrow> nat) \<Rightarrow> lmem \<Rightarrow> lmem option" where
  "fisher_yates_shuffle rnd m = do { len \<leftarrow> count_from m (head m); shuffle_loop rnd (len - 1) Head m }"

end
