(* ===== verification/Slist_Spec.thy ===== *)
theory Slist_Spec
  imports Slist
begin

text \<open>
  The operations on the singly linked list are list functions: \<open>path m s xs\<close> says
  that the nodes reached from slot \<open>s\<close> are \<open>xs\<close>.  Every lemma names the slots an
  operation may change; values never change.
\<close>

section \<open>Slots\<close>

definition val :: "lmem \<Rightarrow> nat \<Rightarrow> int option" where
  "val m x = map_option nvalue (nodes m x)"

lemma val_head [simp]: "val (m\<lparr>head := q\<rparr>) = val m"
  by (simp add: val_def fun_eq_iff)

definition upd :: "slot \<Rightarrow> nat \<Rightarrow> lmem \<Rightarrow> lmem" where
  "upd s q m = the (put s q m)"

lemma put_upd: "get m s = Some p \<Longrightarrow> put s q m = Some (upd s q m)"
  by (auto simp: get_def put_def upd_def split: slot.splits)

lemma get_upd: "get m s = Some p \<Longrightarrow> get (upd s q m) t = (if t = s then Some q else get m t)"
  by (auto simp: get_def put_def upd_def split: slot.splits)

lemma val_upd: "get m s = Some p \<Longrightarrow> val (upd s q m) = val m"
  by (auto simp: get_def put_def upd_def val_def fun_eq_iff split: slot.splits)

lemmas upd_simps = put_upd get_upd val_upd

text \<open>The memory outside a set of slots, and every value, is unchanged.\<close>

definition changes_within :: "slot set \<Rightarrow> lmem \<Rightarrow> lmem \<Rightarrow> bool" where
  "changes_within S m m' \<longleftrightarrow> (\<forall>t. t \<notin> S \<longrightarrow> get m' t = get m t) \<and> val m' = val m"

lemma frame_refl [simp]: "changes_within S m m"
  by (simp add: changes_within_def)

lemma frame_trans: "changes_within S m m1 \<Longrightarrow> changes_within T m1 m2 \<Longrightarrow> changes_within (S \<union> T) m m2"
  by (simp add: changes_within_def)

lemma frame_mono: "changes_within S m m' \<Longrightarrow> S \<subseteq> T \<Longrightarrow> changes_within T m m'"
  by (auto simp: changes_within_def)

lemma frame_get: "changes_within S m m' \<Longrightarrow> t \<notin> S \<Longrightarrow> get m' t = get m t"
  by (simp add: changes_within_def)

lemma frame_upd: "get m s = Some p \<Longrightarrow> changes_within {s} m (upd s q m)"
  by (simp add: changes_within_def upd_simps)

section \<open>List segments\<close>

fun lseg :: "lmem \<Rightarrow> nat \<Rightarrow> nat list \<Rightarrow> nat \<Rightarrow> bool" where
  "lseg m p [] q \<longleftrightarrow> p = q"
| "lseg m p (x # xs) q \<longleftrightarrow> p = x \<and> x \<noteq> 0 \<and> (\<exists>r. get m (Next x) = Some r \<and> lseg m r xs q)"

definition path :: "lmem \<Rightarrow> slot \<Rightarrow> nat list \<Rightarrow> bool" where
  "path m s xs \<longleftrightarrow> (\<exists>p. get m s = Some p \<and> lseg m p xs 0)"

lemma lseg_append: "lseg m p (xs @ ys) q \<longleftrightarrow> (\<exists>r. lseg m p xs r \<and> lseg m r ys q)"
  by (induction xs arbitrary: p) auto

lemma lseg_cong: "(\<And>x. x \<in> set xs \<Longrightarrow> get m' (Next x) = get m (Next x)) \<Longrightarrow> lseg m' p xs q = lseg m p xs q"
  by (induction xs arbitrary: p) auto

lemma lseg_frame: "lseg m p xs q \<Longrightarrow> changes_within S m m' \<Longrightarrow> S \<inter> Next ` set xs = {} \<Longrightarrow> lseg m' p xs q"
  using lseg_cong [of xs m' m p q] by (auto simp: changes_within_def)

lemma lseg_null: "lseg m 0 xs q \<Longrightarrow> xs = []"
  by (cases xs) auto

lemma lseg_end: "lseg m p xs 0 \<Longrightarrow> p \<noteq> 0 \<Longrightarrow> \<exists>ys. xs = p # ys"
  by (cases xs) auto

lemma lseg_nonzero: "lseg m p xs q \<Longrightarrow> 0 \<notin> set xs"
  by (induction xs arbitrary: p) auto

lemma lseg_get: "lseg m p xs q \<Longrightarrow> x \<in> set xs \<Longrightarrow> \<exists>r. get m (Next x) = Some r"
  by (induction xs arbitrary: p) auto

section \<open>Swapping pairs\<close>

fun swapped :: "'a list \<Rightarrow> 'a list" where
  "swapped (x # y # zs) = y # x # swapped zs"
| "swapped xs = xs"

lemma set_swapped [simp]: "set (swapped xs) = set xs"
  by (induction xs rule: swapped.induct) auto

lemma swap_loop_correct:
  "path m s xs \<Longrightarrow> distinct xs \<Longrightarrow> s \<notin> Next ` set xs \<Longrightarrow>
     \<exists>m'. swap_loop s m = Some m' \<and> path m' s (swapped xs) \<and> changes_within (insert s (Next ` set xs)) m m'"
proof (induction xs arbitrary: m s rule: swapped.induct)
  case (1 x y zs)
  from 1(2) obtain r where g: "get m s = Some x" "get m (Next x) = Some y" "get m (Next y) = Some r" "lseg m r zs 0"
    and nz: "x \<noteq> 0" "y \<noteq> 0" by (auto simp: path_def)
  have ne: "x \<noteq> y" "s \<noteq> Next x" "s \<noteq> Next y" "x \<notin> set zs" "y \<notin> set zs" using 1(3,4) by auto
  define m1 where "m1 = upd s y m"
  define m2 where "m2 = upd (Next x) r m1"
  define m3 where "m3 = upd (Next y) x m2"
  note d1 = upd_simps [OF g(1), of y, folded m1_def]
  have g1: "get m1 (Next x) = Some y" using g ne d1 by simp
  note d2 = upd_simps [OF g1, of r, folded m2_def]
  have g2: "get m2 (Next y) = Some r" using g ne d1 d2 by simp
  note d3 = upd_simps [OF g2, of x, folded m3_def]
  have fr: "changes_within {s, Next x, Next y} m m3" by (auto simp: changes_within_def d1 d2 d3)
  have "lseg m3 r zs 0" using lseg_frame [OF g(4) fr] 1(4) ne by auto
  then have "path m3 (Next x) zs" using ne by (auto simp: path_def d1 d2 d3)
  moreover have "Next x \<notin> Next ` set zs" using ne by auto
  ultimately obtain m' where m': "swap_loop (Next x) m3 = Some m'" "path m' (Next x) (swapped zs)"
      "changes_within (insert (Next x) (Next ` set zs)) m3 m'" using 1(1) [of m3 "Next x"] 1(3) by auto
  have "swap_loop s m = swap_loop (Next x) m3"
    using g nz ne by (subst swap_loop.simps) (simp add: d1 d2 d3)
  moreover have "get m' s = Some y" "get m' (Next y) = Some x"
    using frame_get [OF m'(3), of s] frame_get [OF m'(3), of "Next y"] 1(4) ne by (auto simp: d1 d2 d3)
  then have "path m' s (y # x # swapped zs)" using m'(2) nz by (auto simp: path_def)
  moreover have "changes_within (insert s (Next ` set (x # y # zs))) m m'"
    by (rule frame_mono [OF frame_trans [OF fr m'(3)]]) auto
  ultimately show ?case using m'(1) by simp
qed (subst swap_loop.simps, auto simp: path_def)+

section \<open>Reversal\<close>

lemma rev_recursive_correct:
  "lseg m p xs 0 \<Longrightarrow> distinct xs \<Longrightarrow>
     \<exists>m' q. rev_recursive p m = Some (q, m') \<and> lseg m' q (rev xs) 0 \<and> changes_within (Next ` set xs) m m'"
proof (induction xs arbitrary: p)
  case Nil
  then show ?case by (subst rev_recursive.simps) simp
next
  case (Cons x xs)
  then obtain r where r: "p = x" "x \<noteq> 0" "get m (Next x) = Some r" "lseg m r xs 0" by auto
  show ?case
  proof (cases xs)
    case Nil
    then show ?thesis using r by (subst rev_recursive.simps) auto
  next
    case (Cons y ys)
    then have y: "r = y" "y \<noteq> 0" using r(4) by auto
    have dist: "x \<notin> set xs" "y \<notin> set ys" "x \<noteq> y" using Cons.prems(2) Cons by auto
    from Cons.IH [OF r(4)] Cons.prems(2) obtain m1 q where m1: "rev_recursive r m = Some (q, m1)"
      "lseg m1 q (rev xs) 0" "changes_within (Next ` set xs) m m1" by auto
    have seg: "lseg m1 q (rev ys) y" "get m1 (Next y) = Some 0" using m1(2) Cons by (auto simp: lseg_append)
    have gx: "get m1 (Next x) = Some y" using frame_get [OF m1(3), of "Next x"] r y dist by auto
    define m2 where "m2 = upd (Next y) x m1"
    define m3 where "m3 = upd (Next x) 0 m2"
    note d2 = upd_simps [OF seg(2), of x, folded m2_def]
    have gx2: "get m2 (Next x) = Some y" using gx dist d2 by simp
    note d3 = upd_simps [OF gx2, of 0, folded m3_def]
    have fr: "changes_within {Next x, Next y} m1 m3" by (auto simp: changes_within_def d2 d3)
    have "lseg m3 q (rev ys) y" using lseg_frame [OF seg(1) fr] dist Cons by auto
    then have "lseg m3 q (rev (x # xs)) 0" using r(2) y(2) dist Cons by (auto simp: lseg_append d2 d3)
    moreover have "rev_recursive p m = Some (q, m3)"
      using r y m1(1) gx by (subst rev_recursive.simps) (simp add: d2 d3)
    moreover have "changes_within (Next ` set (x # xs)) m m3"
      by (rule frame_mono [OF frame_trans [OF m1(3) fr]]) (use Cons in auto)
    ultimately show ?thesis by blast
  qed
qed

section \<open>Adding, finding and removing\<close>

lemma last_slot_correct:
  "path m s xs \<Longrightarrow> last_slot m s = Some (if xs = [] then s else Next (last xs))"
proof (induction xs arbitrary: s)
  case (Cons x xs)
  then show ?case by (subst last_slot.simps) (auto simp: path_def)
qed (subst last_slot.simps, simp add: path_def)

lemma find_from_correct:
  "lseg m p xs 0 \<Longrightarrow> find_from m v p = Some (case filter (\<lambda>x. val m x = Some v) xs of [] \<Rightarrow> 0 | x # _ \<Rightarrow> x)"
proof (induction xs arbitrary: p)
  case (Cons x xs)
  then obtain n where "nodes m x = Some n" "lseg m (nnext n) xs 0" "p = x" "x \<noteq> 0" by (auto simp: get_def)
  then show ?case using Cons.IH by (subst find_from.simps) (auto simp: val_def)
qed (subst find_from.simps, simp)

lemma slot_of_correct:
  "path m s (xs @ e # ys) \<Longrightarrow> e \<notin> set xs \<Longrightarrow> slot_of m e s = Some (if xs = [] then s else Next (last xs))"
proof (induction xs arbitrary: s)
  case (Cons x xs)
  then show ?case by (subst slot_of.simps) (auto simp: path_def)
qed (subst slot_of.simps, simp add: path_def)

text \<open>Writing the last slot of a prefix replaces the rest of the list.\<close>

abbreviation end_slot :: "slot \<Rightarrow> nat list \<Rightarrow> slot" where
  "end_slot s xs \<equiv> (if xs = [] then s else Next (last xs))"

lemma path_Cons: "path m s (x # xs) \<longleftrightarrow> get m s = Some x \<and> x \<noteq> 0 \<and> path m (Next x) xs"
  by (auto simp: path_def)

lemma end_slot_get: "path m s (xs @ ys) \<Longrightarrow> \<exists>p. get m (end_slot s xs) = Some p \<and> lseg m p ys 0"
proof (induction xs arbitrary: s)
  case (Cons x xs)
  then have "path m (Next x) (xs @ ys)" by (simp add: path_Cons)
  from Cons.IH [OF this] show ?case by (cases xs) auto
qed (simp add: path_def)

lemma path_splice:
  assumes "path m s (xs @ ys)" "distinct xs" "s \<notin> Next ` set xs" "lseg m r zs 0" "end_slot s xs \<notin> Next ` set zs"
  shows "path (upd (end_slot s xs) r m) s (xs @ zs)"
  using assms
proof (induction xs arbitrary: s)
  case Nil
  then obtain p where p: "get m s = Some p" by (auto simp: path_def)
  then have "lseg (upd s r m) r zs 0" using lseg_frame [OF Nil(4) frame_upd [OF p]] Nil(5) by auto
  then show ?case using p by (simp add: path_def get_upd)
next
  case (Cons x xs)
  have p: "path m (Next x) (xs @ ys)" "get m s = Some x" "x \<noteq> 0" using Cons.prems(1) by (simp_all add: path_Cons)
  have e: "end_slot s (x # xs) = end_slot (Next x) xs" by simp
  obtain q where q: "get m (end_slot (Next x) xs) = Some q" using end_slot_get [OF p(1)] by blast
  have "path (upd (end_slot (Next x) xs) r m) (Next x) (xs @ zs)"
    using Cons.prems by (intro Cons.IH [OF p(1)]) auto
  moreover have "s \<noteq> end_slot (Next x) xs" using Cons.prems(3) by (auto simp: image_iff)
  ultimately show ?case unfolding e using p q by (simp add: path_Cons get_upd)
qed

lemma val_insert:
  "val (m\<lparr>nodes := (nodes m)(x \<mapsto> n)\<rparr>) = (val m)(x \<mapsto> nvalue n)"
  "val (m\<lparr>nodes := (nodes m)(x := None)\<rparr>) = (val m)(x := None)"
  by (auto simp: val_def)

lemma get_nodes_other:
  "s \<noteq> Next x \<Longrightarrow> get (m\<lparr>nodes := (nodes m)(x := n)\<rparr>) s = get m s"
  by (auto simp: get_def split: slot.splits)

lemma path_nodes_other:
  assumes "path m s xs" "s \<noteq> Next x" "x \<notin> set xs"
  shows "path (m\<lparr>nodes := (nodes m)(x := n)\<rparr>) s xs"
proof -
  let ?m = "m\<lparr>nodes := (nodes m)(x := n)\<rparr>"
  have "get ?m (Next y) = get m (Next y)" if "y \<in> set xs" for y using assms(3) that by (intro get_nodes_other) auto
  then show ?thesis using assms lseg_cong [of xs ?m m] by (simp add: path_def get_nodes_other)
qed

lemma add_entry_correct:
  assumes P: "path m Head xs" "distinct xs" and new: "alloc m \<noteq> 0" "nodes m (alloc m) = None"
  shows "\<exists>m'. add_entry alloc v m = Some m' \<and> path m' Head (xs @ [alloc m]) \<and> val m' = (val m)(alloc m \<mapsto> v)"
proof -
  let ?n = "alloc m"
  define m0 where "m0 = m\<lparr>nodes := (nodes m)(?n \<mapsto> \<lparr>nvalue = v, nnext = 0\<rparr>)\<rparr>"
  have "?n \<notin> set xs" using P(1) lseg_get [of m _ xs 0 ?n] new(2) by (auto simp: path_def get_def)
  then have p0: "path m0 Head xs" unfolding m0_def by (intro path_nodes_other P) simp_all
  have gn: "get m0 (Next ?n) = Some 0" by (simp add: m0_def get_def)
  have "end_slot Head xs \<notin> Next ` set [?n]" using \<open>?n \<notin> set xs\<close> by (cases xs rule: rev_cases) auto
  then have "path (upd (end_slot Head xs) ?n m0) Head (xs @ [?n])"
    using p0 P(2) gn new by (intro path_splice [where ys = "[]"]) auto
  moreover obtain p where p: "get m0 (end_slot Head xs) = Some p" using end_slot_get [of m0 Head xs "[]"] p0 by auto
  have "add_entry alloc v m = Some (upd (end_slot Head xs) ?n m0)"
    using new last_slot_correct [OF p0] put_upd [OF p] by (simp add: add_entry_def Let_def m0_def)
  moreover have "val (upd (end_slot Head xs) ?n m0) = (val m)(?n \<mapsto> v)"
    by (simp add: val_upd [OF p]) (simp add: m0_def val_insert)
  ultimately show ?thesis by blast
qed

lemma remove_entry_correct:
  assumes P: "path m Head (xs @ e # ys)" "distinct (xs @ e # ys)"
  shows "\<exists>m'. remove_entry e m = Some m' \<and> path m' Head (xs @ ys) \<and> val m' = (val m)(e := None)"
proof -
  obtain p where p: "get m (end_slot Head xs) = Some p" "lseg m p (e # ys) 0" using end_slot_get [OF P(1)] by blast
  then obtain n where n: "nodes m e = Some n" "lseg m (nnext n) ys 0" by (auto simp: get_def)
  let ?m = "upd (end_slot Head xs) (nnext n) m"
  have dist: "distinct xs" "e \<notin> set (xs @ ys)" "Head \<notin> Next ` set xs" "end_slot Head xs \<notin> Next ` set ys"
    using P(2) by (cases xs rule: rev_cases; auto)+
  have "path ?m Head (xs @ ys)" by (rule path_splice [OF P(1) dist(1,3) n(2) dist(4)])
  then have "path (?m\<lparr>nodes := (nodes ?m)(e := None)\<rparr>) Head (xs @ ys)" using dist(2) by (intro path_nodes_other) auto
  moreover have "remove_entry e m = Some (?m\<lparr>nodes := (nodes ?m)(e := None)\<rparr>)"
    using slot_of_correct [OF P(1)] dist(2) n(1) put_upd [OF p(1)] by (simp add: remove_entry_def)
  ultimately show ?thesis by (auto simp: val_insert val_upd [OF p(1)])
qed

section \<open>Shuffling\<close>

lemma count_from_correct: "lseg m p xs 0 \<Longrightarrow> count_from m p = Some (length xs)"
proof (induction xs arbitrary: p)
  case (Cons x xs)
  then show ?case by (subst count_from.simps) auto
qed (subst count_from.simps, simp)

lemma advance_correct: "path m s (xs @ t # ys) \<Longrightarrow> advance m (length xs) s = Some (end_slot s xs)"
proof (induction xs arbitrary: s)
  case (Cons x xs)
  then show ?case by (auto simp: path_Cons path_def)
qed simp

text \<open>Exchanging the first node with a later one.\<close>

lemma swap_slots_same:
  assumes "path m s (x # xs)" "s \<noteq> Next x"
  shows "\<exists>m'. swap_slots s s m = Some m' \<and> path m' s (x # xs) \<and> changes_within {} m m'"
proof -
  obtain q where g: "get m s = Some x" "get m (Next x) = Some q" using assms(1) by (auto simp: path_def)
  define m1 where "m1 = upd s x m"
  note d1 = upd_simps [OF g(1), of x, folded m1_def]
  have g1: "get m1 s = Some x" "get m1 (Next x) = Some q" using g assms(2) by (simp_all add: d1)
  define m2 where "m2 = upd s x m1"
  note d2 = upd_simps [OF g1(1), of x, folded m2_def]
  have g2: "get m2 (Next x) = Some q" using g1 assms(2) by (simp add: d2)
  define m3 where "m3 = upd (Next x) q m2"
  note d3 = upd_simps [OF g2, of q, folded m3_def]
  have g3: "get m3 (Next x) = Some q" by (simp add: d3)
  define m4 where "m4 = upd (Next x) q m3"
  note d4 = upd_simps [OF g3, of q, folded m4_def]
  have f: "changes_within {} m m4" using g assms(2) by (auto simp: changes_within_def d1 d2 d3 d4)
  have "swap_slots s s m = Some m4" using g g2 assms(2) by (simp add: swap_slots_def d1 d2 d3 d4)
  moreover have "path m4 s (x # xs)" using assms(1) lseg_cong [of "x # xs" m4 m] f by (simp only: path_def changes_within_def) auto
  ultimately show ?thesis using f by blast
qed

lemma swap_slots_eval:
  assumes g: "get m s = Some x" "get m e = Some t" "get m (Next t) = Some r" "get m (Next x) = Some p"
    and ne: "e \<noteq> s" "e \<noteq> Next t" "s \<noteq> Next x" "s \<noteq> Next t" "x \<noteq> t"
  defines "q \<equiv> (if e = Next x then x else p)"
  shows "\<exists>m'. swap_slots s e m = Some m' \<and> val m' = val m \<and>
    (\<forall>u. get m' u = (if u = Next t then Some q else if u = Next x then Some r
                      else if u = s then Some t else if u = e then Some x else get m u))"
proof -
  define m1 where "m1 = upd e x m"
  note d1 = upd_simps [OF g(2), of x, folded m1_def]
  have g1: "get m1 s = Some x" using g ne by (simp add: d1)
  define m2 where "m2 = upd s t m1"
  note d2 = upd_simps [OF g1, of t, folded m2_def]
  have g2: "get m2 (Next x) = Some q" using g ne by (simp add: d1 d2 q_def)
  define m3 where "m3 = upd (Next x) r m2"
  note d3 = upd_simps [OF g2, of r, folded m3_def]
  have g3: "get m3 (Next t) = Some r" using g ne by (simp add: d1 d2 d3)
  define m4 where "m4 = upd (Next t) q m3"
  note d4 = upd_simps [OF g3, of q, folded m4_def]
  have "get m2 e = Some x" using ne by (simp add: d1 d2)
  moreover have "get m2 s = Some t" "get m2 (Next t) = Some r" "get m3 s = Some t" using g ne by (simp_all add: d1 d2 d3)
  ultimately have "swap_slots s e m = Some m4"
    using g g2 d1(1) d2(1) d3(1) d4(1) g1 by (simp add: swap_slots_def)
  then show ?thesis by (simp add: d1 d2 d3 d4)
qed

lemma swap_slots_other:
  assumes P: "path m s (x # xs @ t # ys)" and dist: "distinct (x # xs @ t # ys)" "s \<notin> Next ` set (x # xs @ t # ys)"
  defines "e \<equiv> end_slot (Next x) xs"
  shows "\<exists>m'. swap_slots s e m = Some m' \<and> path m' s (t # xs @ x # ys) \<and>
    changes_within (insert s (Next ` set (x # xs @ t # ys))) m m'"
proof -
  have Px: "path m (Next x) (xs @ t # ys)" and gs: "get m s = Some x" and x0: "x \<noteq> 0" using P by (simp_all add: path_Cons)
  obtain p where p: "get m (Next x) = Some p" "lseg m p (xs @ t # ys) 0" using Px by (auto simp: path_def)
  obtain r where gt: "get m e = Some t" "get m (Next t) = Some r" "lseg m r ys 0" "t \<noteq> 0"
    using end_slot_get [OF Px] by (auto simp: e_def)
  have e: "e = Next x \<or> e \<in> Next ` set xs" using last_in_set [of xs] by (simp add: e_def) 
  then have ne: "e \<noteq> s" "e \<noteq> Next t" "s \<noteq> Next x" "s \<noteq> Next t" "x \<noteq> t" using dist by auto
  from swap_slots_eval [OF gs gt(1,2) p(1) ne] obtain m' where m': "swap_slots s e m = Some m'" "val m' = val m"
    and g': "\<And>u. get m' u = (if u = Next t then Some (if e = Next x then x else p) else if u = Next x then Some r
                      else if u = s then Some t else if u = e then Some x else get m u)" by blast
  have "get m' (Next y) = get m (Next y)" if "y \<in> set ys" for y
  proof -
    have "y \<noteq> x" "y \<noteq> t" "Next y \<noteq> s" "Next y \<noteq> e" using e dist that by auto
    then show ?thesis by (simp add: g')
  qed
  then have "lseg m' r ys 0" using gt(3) lseg_cong [of ys m' m r 0] by simp
  then have tail: "lseg m' x (x # ys) 0" using x0 ne by (simp add: g')
  have "path m' s (t # xs @ x # ys)"
  proof (cases xs rule: rev_cases)
    case Nil
    then show ?thesis using tail ne gt(4) by (simp add: path_Cons g' e_def) (simp add: path_def g' e_def)
  next
    case (snoc us b)
    then have eb: "e = Next b" "b \<noteq> x" using dist by (auto simp: e_def)
    have seg: "lseg m p us b" "b \<noteq> 0" using p(2) snoc by (auto simp: lseg_append)
    have "get m' (Next y) = get m (Next y)" if "y \<in> set us" for y
    proof -
      have "y \<noteq> x" "y \<noteq> t" "Next y \<noteq> s" "y \<noteq> b" using dist snoc that by auto
      then show ?thesis by (simp add: g' eb)
    qed
    then have "lseg m' p us b" using seg(1) lseg_cong [of us m' m p b] by simp
    then have "lseg m' p (xs @ x # ys) 0" using tail seg(2) snoc eb ne dist by (auto simp: lseg_append g')
    then show ?thesis using gt(4) ne eb by (simp add: path_Cons g') (simp add: path_def g')
  qed
  moreover have "changes_within (insert s (Next ` set (x # xs @ t # ys))) m m'" using e m'(2) by (auto simp: changes_within_def g')
  ultimately show ?thesis using m'(1) by blast
qed

text \<open>The list the shuffle leaves, as a function of the random numbers.\<close>

definition exchange :: "nat \<Rightarrow> 'a list \<Rightarrow> 'a list" where
  "exchange j xs = xs[0 := xs ! j, j := xs ! 0]"

primrec shuffled :: "(nat \<Rightarrow> nat) \<Rightarrow> nat \<Rightarrow> 'a list \<Rightarrow> 'a list" where
  "shuffled rnd 0 xs = xs"
| "shuffled rnd (Suc i) xs =
     (let ys = exchange (rnd 0 mod (i + 2)) xs in hd ys # shuffled (\<lambda>k. rnd (Suc k)) i (tl ys))"

lemma exchange_split: "exchange (Suc (length xs)) (x # xs @ t # ys) = t # xs @ x # ys"
  by (simp add: exchange_def list_update_append)

lemma mset_exchange: "j < length xs \<Longrightarrow> mset (exchange j xs) = mset xs"
  unfolding exchange_def by (rule mset_swap) auto

lemma mset_shuffled: "length xs = Suc n \<Longrightarrow> mset (shuffled rnd n xs) = mset xs"
proof (induction n arbitrary: rnd xs)
  case (Suc n)
  let ?ys = "exchange (rnd 0 mod (n + 2)) xs"
  have ys: "mset ?ys = mset xs" using Suc.prems by (intro mset_exchange) simp
  then have "length ?ys = Suc (Suc n)" using Suc.prems by (metis size_mset)
  then obtain a as where a: "?ys = a # as" "length as = Suc n" by (cases ?ys) auto
  then show ?case using Suc.IH [of as] ys by (simp add: Let_def)
qed simp

lemma swap_step:
  assumes "path m s zs" "distinct zs" "s \<notin> Next ` set zs" "j < length zs"
  shows "\<exists>e m'. advance m j s = Some e \<and> swap_slots s e m = Some m' \<and> path m' s (exchange j zs) \<and>
    changes_within (insert s (Next ` set zs)) m m'"
proof -
  obtain x zs' where z: "zs = x # zs'" using assms(4) by (cases zs) auto
  show ?thesis
  proof (cases j)
    case 0
    have "exchange 0 zs = zs" using z by (simp add: exchange_def)
    then show ?thesis using swap_slots_same [of m s x zs'] assms z 0 frame_mono [of "{}"] by (auto intro: exI [of _ s])
  next
    case (Suc k)
    then have k: "k < length zs'" using assms(4) z by simp
    define xs where "xs = take k zs'"
    define t where "t = zs' ! k"
    define ys where "ys = drop (Suc k) zs'"
    have zs': "zs' = xs @ t # ys" using id_take_nth_drop [OF k] by (simp add: xs_def t_def ys_def)
    have len: "j = Suc (length xs)" using k Suc by (simp add: xs_def)
    have P: "path m s (x # xs @ t # ys)" using assms(1) z zs' by simp
    then have "advance m j s = Some (end_slot (Next x) xs)"
      using advance_correct [of m "Next x" xs t ys] len by (auto simp: path_Cons path_def)
    then show ?thesis using swap_slots_other [OF P] assms(2,3) z zs' exchange_split [of xs x t ys] len by simp
  qed
qed

lemma shuffle_loop_correct:
  "path m s zs \<Longrightarrow> distinct zs \<Longrightarrow> s \<notin> Next ` set zs \<Longrightarrow> length zs = Suc n \<Longrightarrow>
     \<exists>m'. shuffle_loop rnd n s m = Some m' \<and> path m' s (shuffled rnd n zs) \<and> changes_within (insert s (Next ` set zs)) m m'"
proof (induction n arbitrary: rnd s zs m)
  case (Suc n)
  let ?j = "rnd 0 mod (n + 2)"
  have j: "?j < length zs" using Suc.prems(4) by simp
  from swap_step [OF Suc.prems(1-3) j] obtain e m1 where m1: "advance m ?j s = Some e" "swap_slots s e m = Some m1"
    "path m1 s (exchange ?j zs)" "changes_within (insert s (Next ` set zs)) m m1" by blast
  have ms: "mset (exchange ?j zs) = mset zs" using j by (rule mset_exchange)
  then have "length (exchange ?j zs) = Suc (Suc n)" using Suc.prems(4) by (metis size_mset)
  then obtain a as where a: "exchange ?j zs = a # as" "length as = Suc n" by (cases "exchange ?j zs") auto
  have set: "set (a # as) = set zs" "distinct (a # as)"
    using ms a(1) Suc.prems(2) by (metis mset_eq_setD, metis mset_eq_imp_distinct_iff)
  have p: "get m1 s = Some a" "path m1 (Next a) as" using m1(3) a by (simp_all add: path_Cons)
  then obtain q where q: "get m1 (Next a) = Some q" by (auto simp: path_def)
  from Suc.IH [OF p(2), of "\<lambda>k. rnd (Suc k)"] set a(2) obtain m' where m': "shuffle_loop (\<lambda>k. rnd (Suc k)) n (Next a) m1 = Some m'"
    "path m' (Next a) (shuffled (\<lambda>k. rnd (Suc k)) n as)" "changes_within (insert (Next a) (Next ` set as)) m1 m'" by auto
  have "get m' s = Some a" using frame_get [OF m'(3), of s] p(1) Suc.prems(3) set by auto
  moreover have "a \<noteq> 0" using m1(3) a by (simp add: path_Cons)
  ultimately have "path m' s (shuffled rnd (Suc n) zs)" using m'(2) a by (simp add: path_Cons Let_def)
  moreover have "shuffle_loop rnd (Suc n) s m = Some m'" using m1(1,2) p(1) q m'(1) by (simp add: Let_def)
  moreover have "changes_within (insert s (Next ` set zs)) m m'"
    by (rule frame_mono [OF frame_trans [OF m1(4) m'(3)]]) (use set in auto)
  ultimately show ?case by blast
qed simp

section \<open>The whole list\<close>

lemma path_head: "path m Head xs \<Longrightarrow> lseg m (head m) xs 0"
  by (simp add: path_def get_def)

lemma swap_pair_correct:
  assumes "path m Head xs" "distinct xs"
  shows "\<exists>m'. swap_pair m = Some m' \<and> path m' Head (swapped xs) \<and> val m' = val m"
  using swap_loop_correct [OF assms] by (auto simp: swap_pair_def changes_within_def)

lemma reverse_correct:
  assumes "path m Head xs" "distinct xs"
  shows "\<exists>m'. reverse m = Some m' \<and> path m' Head (rev xs) \<and> val m' = val m"
proof -
  obtain m' q where r: "rev_recursive (head m) m = Some (q, m')" "lseg m' q (rev xs) 0" "changes_within (Next ` set xs) m m'"
    using rev_recursive_correct [OF path_head [OF assms(1)] assms(2)] by blast
  have "path (m'\<lparr>head := q\<rparr>) Head (rev xs)"
    using r(2) lseg_cong [of "rev xs" "m'\<lparr>head := q\<rparr>" m'] by (simp add: path_def get_def)
  moreover have "val (m'\<lparr>head := q\<rparr>) = val m" using r(3) by (simp add: changes_within_def)
  ultimately show ?thesis using r(1) by (simp add: reverse_def)
qed

lemma find_entry_correct:
  "path m Head xs \<Longrightarrow> find_entry m v = Some (case filter (\<lambda>x. val m x = Some v) xs of [] \<Rightarrow> 0 | x # _ \<Rightarrow> x)"
  using find_from_correct [OF path_head] by (simp add: find_entry_def)

lemma remove_member_correct:
  assumes "path m Head xs" "distinct xs" "e \<in> set xs"
  shows "\<exists>m'. remove_entry e m = Some m' \<and> path m' Head (remove1 e xs) \<and> val m' = (val m)(e := None)"
proof -
  obtain us ys where u: "xs = us @ e # ys" "e \<notin> set us" using split_list_first [OF assms(3)] by blast
  then show ?thesis using remove_entry_correct [of m us e ys] assms(1,2) by (simp add: remove1_append)
qed

lemma shuffle_correct:
  assumes P: "path m Head xs" and D: "distinct xs"
  shows "\<exists>m'. fisher_yates_shuffle rnd m = Some m' \<and> path m' Head (shuffled rnd (length xs - 1) xs) \<and>
      mset (shuffled rnd (length xs - 1) xs) = mset xs \<and> val m' = val m"
proof (cases xs)
  case Nil
  then show ?thesis using P count_from_correct [OF path_head [OF P]] by (simp add: fisher_yates_shuffle_def)
next
  case (Cons x ys)
  then show ?thesis
    using shuffle_loop_correct [OF P D, of "length ys" rnd] count_from_correct [OF path_head [OF P]]
      mset_shuffled [of xs "length ys" rnd]
    by (auto simp: fisher_yates_shuffle_def changes_within_def)
qed

section \<open>Properties\<close>

text \<open>C27: On a list of nodes \<open>xs\<close> every operation of \<open>link-list.c\<close> returns, without
  touching a NULL or freed pointer, and is the list function it is named after:
  \<open>swap_pair\<close> exchanges neighbours, \<open>reverse\<close> reverses, \<open>add_entry\<close> appends the new
  node, \<open>find_entry\<close> returns the first node with the value or NULL, \<open>remove_entry\<close> of a
  node of the list takes it out, and \<open>fisher_yates_shuffle\<close> leaves the list that the
  random numbers determine by exchanging nodes, a permutation of the old one.  No
  value is changed.\<close>

theorem slist_correct:
  assumes P: "path m Head xs" and D: "distinct xs"
  shows "(\<exists>m'. swap_pair m = Some m' \<and> path m' Head (swapped xs) \<and> val m' = val m) \<and>
    (\<exists>m'. reverse m = Some m' \<and> path m' Head (rev xs) \<and> val m' = val m) \<and>
    (\<forall>alloc v. alloc m \<noteq> 0 \<longrightarrow> nodes m (alloc m) = None \<longrightarrow>
       (\<exists>m'. add_entry alloc v m = Some m' \<and> path m' Head (xs @ [alloc m]) \<and> val m' = (val m)(alloc m \<mapsto> v))) \<and>
    (\<forall>v. find_entry m v = Some (case filter (\<lambda>x. val m x = Some v) xs of [] \<Rightarrow> 0 | x # _ \<Rightarrow> x)) \<and>
    (\<forall>e \<in> set xs. \<exists>m'. remove_entry e m = Some m' \<and> path m' Head (remove1 e xs) \<and> val m' = (val m)(e := None)) \<and>
    (\<forall>rnd. \<exists>m'. fisher_yates_shuffle rnd m = Some m' \<and> path m' Head (shuffled rnd (length xs - 1) xs) \<and>
       mset (shuffled rnd (length xs - 1) xs) = mset xs \<and> val m' = val m)"
  by (intro conjI allI impI ballI swap_pair_correct [OF P D] reverse_correct [OF P D] add_entry_correct [OF P D]
    find_entry_correct [OF P] remove_member_correct [OF P D] shuffle_correct [OF P D])

definition three_nodes :: lmem where
  "three_nodes = \<lparr>head = 8, nodes = [8 \<mapsto> \<lparr>nvalue = 72, nnext = 16\<rparr>, 16 \<mapsto> \<lparr>nvalue = 101, nnext = 4\<rparr>, 4 \<mapsto> \<lparr>nvalue = 108, nnext = 0\<rparr>]\<rparr>"

lemma slist_correct_witness:
  "path three_nodes Head [8, 16, 4] \<and> (\<exists>m'. swap_pair three_nodes = Some m' \<and> path m' Head [16, 8, 4]) \<and>
   (\<exists>m'. remove_entry 16 three_nodes = Some m' \<and> path m' Head [8, 4])"
proof -
  have p: "path three_nodes Head [8, 16, 4]" by (simp add: path_def three_nodes_def get_def)
  then show ?thesis using slist_correct [OF p] by auto
qed

end
