(* ===== verification/Slist_Main.thy ===== *)
theory Slist_Main
  imports Slist_Spec
begin

text \<open>
  The program of \<open>swap-pairs/link-list.c\<close>.  A list in memory stands for the list of its
  values (\<open>stands_for\<close>); each operation of \<open>main\<close> is the function on values of the same
  name, so that what \<open>main\<close> prints can be computed.  \<open>None\<close> is as in the theory of the
  operations.
\<close>

section \<open>The program\<close>

partial_function (option) print_from :: "lmem \<Rightarrow> nat \<Rightarrow> int list option" where
  "print_from m current =
     (if current = 0 then Some []
      else do { n \<leftarrow> nodes m current; vs \<leftarrow> print_from m (nnext n); Some (nvalue n # vs) })"

definition print_list :: "lmem \<Rightarrow> int list option" where
  "print_list m = print_from m (head m)"

primrec add_entries :: "(lmem \<Rightarrow> nat) \<Rightarrow> int list \<Rightarrow> lmem \<Rightarrow> lmem option" where
  "add_entries alloc [] m = Some m"
| "add_entries alloc (v # vs) m = do { m \<leftarrow> add_entry alloc v m; add_entries alloc vs m }"

definition remove_value :: "int \<Rightarrow> lmem \<Rightarrow> lmem option" where
  "remove_value v m = do { entry \<leftarrow> find_entry m v; remove_entry entry m }"

definition main_list :: "(lmem \<Rightarrow> nat) \<Rightarrow> (nat \<Rightarrow> nat) \<Rightarrow> lmem \<Rightarrow> int list list option" where
  "main_list alloc rnd m = do {
     let m = m\<lparr>head := 0\<rparr>;
     l0 \<leftarrow> print_list m;
     m \<leftarrow> add_entries alloc [72, 101, 108, 109, 110, 111] m;
     l1 \<leftarrow> print_list m;
     m \<leftarrow> remove_value 101 m;
     m \<leftarrow> remove_value 111 m;
     l2 \<leftarrow> print_list m;
     m \<leftarrow> swap_pair m;
     l3 \<leftarrow> print_list m;
     m \<leftarrow> reverse m;
     l4 \<leftarrow> print_list m;
     m \<leftarrow> add_entries alloc [1, 2, 3, 4, 5, 6] m;
     l5 \<leftarrow> print_list m;
     m \<leftarrow> fisher_yates_shuffle rnd m;
     l6 \<leftarrow> print_list m;
     Some [l0, l1, l2, l3, l4, l5, l6] }"

section \<open>Lists of values\<close>

definition stands_for :: "lmem \<Rightarrow> int list \<Rightarrow> bool" where
  "stands_for m vs \<longleftrightarrow> (\<exists>xs. path m Head xs \<and> distinct xs \<and> map (val m) xs = map Some vs)"

lemma print_from_lseg: "lseg m p xs 0 \<Longrightarrow> map (val m) xs = map Some vs \<Longrightarrow> print_from m p = Some vs"
proof (induction xs arbitrary: p vs)
  case (Cons x xs)
  then obtain n ws where n: "nodes m x = Some n" "lseg m (nnext n) xs 0" "vs = nvalue n # ws" "map (val m) xs = map Some ws"
    by (cases vs) (auto simp: get_def val_def [of m x])
  then show ?case using Cons.IH [OF n(2,4)] Cons.prems(1) by (subst print_from.simps) auto
qed (subst print_from.simps, simp)

lemma print_list_stands: "stands_for m vs \<Longrightarrow> print_list m = Some vs"
  by (auto simp: stands_for_def print_list_def intro: print_from_lseg [OF path_head])

lemma lseg_live: "lseg m p xs 0 \<Longrightarrow> x \<in> set xs \<Longrightarrow> nodes m x \<noteq> None"
  using lseg_get by (fastforce simp: get_def)

lemma add_entry_stands:
  assumes "stands_for m vs" and alloc: "\<And>m. alloc m \<noteq> 0 \<and> nodes m (alloc m) = None"
  shows "\<exists>m'. add_entry alloc v m = Some m' \<and> stands_for m' (vs @ [v])"
proof -
  obtain xs where xs: "path m Head xs" "distinct xs" "map (val m) xs = map Some vs" using assms(1) by (auto simp: stands_for_def)
  obtain m' where m': "add_entry alloc v m = Some m'" "path m' Head (xs @ [alloc m])" "val m' = (val m)(alloc m \<mapsto> v)"
    using add_entry_correct [OF xs(1,2)] alloc by blast
  have new: "alloc m \<notin> set xs" using lseg_live [OF path_head [OF xs(1)]] alloc by blast
  then have "map (val m') (xs @ [alloc m]) = map Some (vs @ [v])"
    using xs(3) by (simp add: m'(3) map_fun_upd)
  then show ?thesis using m'(1,2) xs(2) new by (auto simp: stands_for_def)
qed

lemma add_entries_stands:
  "stands_for m vs \<Longrightarrow> (\<And>m. alloc m \<noteq> 0 \<and> nodes m (alloc m) = None) \<Longrightarrow>
    \<exists>m'. add_entries alloc ws m = Some m' \<and> stands_for m' (vs @ ws)"
proof (induction ws arbitrary: m vs)
  case (Cons w ws)
  obtain m1 where "add_entry alloc w m = Some m1" "stands_for m1 (vs @ [w])"
    using add_entry_stands [OF Cons.prems] by blast
  then show ?case using Cons.IH [OF _ Cons.prems(2)] by fastforce
qed simp

lemma remove_first_value:
  assumes "map f xs = map Some vs" "v \<in> set vs" "distinct xs"
  shows "\<exists>x zs. filter (\<lambda>x. f x = Some v) xs = x # zs \<and> x \<in> set xs \<and> map f (remove1 x xs) = map Some (remove1 v vs)"
  using assms
proof (induction xs arbitrary: vs)
  case (Cons y ys)
  then obtain w ws where w: "vs = w # ws" "f y = Some w" "map f ys = map Some ws" by (cases vs) auto
  show ?case
  proof (cases "w = v")
    case False
    then obtain x zs where "filter (\<lambda>x. f x = Some v) ys = x # zs" "x \<in> set ys" "map f (remove1 x ys) = map Some (remove1 v ws)"
      using Cons.IH [OF w(3)] Cons.prems w(1) by auto
    then show ?thesis using False w Cons.prems(3) by auto
  qed (use w in auto)
qed simp

lemma remove_value_stands:
  assumes "stands_for m vs" "v \<in> set vs"
  shows "\<exists>m'. remove_value v m = Some m' \<and> stands_for m' (remove1 v vs)"
proof -
  obtain xs where xs: "path m Head xs" "distinct xs" "map (val m) xs = map Some vs" using assms(1) by (auto simp: stands_for_def)
  obtain x zs where x: "filter (\<lambda>x. val m x = Some v) xs = x # zs" "x \<in> set xs"
      "map (val m) (remove1 x xs) = map Some (remove1 v vs)"
    using remove_first_value [OF xs(3) assms(2) xs(2)] by blast
  obtain m' where m': "remove_entry x m = Some m'" "path m' Head (remove1 x xs)" "val m' = (val m)(x := None)"
    using remove_member_correct [OF xs(1,2) x(2)] by blast
  have "x \<notin> set (remove1 x xs)" using xs(2) by simp
  then have "map (val m') (remove1 x xs) = map Some (remove1 v vs)" unfolding m'(3) x(3) [symmetric] by (rule map_fun_upd)
  then show ?thesis
    using m'(1,2) xs(2) find_entry_correct [OF xs(1), of v] x(1) by (auto simp: remove_value_def stands_for_def)
qed

lemma map_swapped: "map f (swapped xs) = swapped (map f xs)"
  by (induction xs rule: swapped.induct) auto

lemma map_shuffled: "length xs = Suc n \<Longrightarrow> map f (shuffled rnd n xs) = shuffled rnd n (map f xs)"
proof (induction n arbitrary: rnd xs)
  case (Suc n)
  let ?j = "rnd 0 mod (n + 2)"
  have j: "?j < length xs" using Suc.prems by simp
  then have m: "map f (exchange ?j xs) = exchange ?j (map f xs)"
    using Suc.prems by (simp add: exchange_def map_update del: list_update.simps)
  have "length (exchange ?j xs) = Suc (Suc n)" using Suc.prems by (simp add: exchange_def)
  then obtain y ys where y: "exchange ?j xs = y # ys" "length ys = Suc n" by (cases "exchange ?j xs") auto
  then have "exchange ?j (map f xs) = f y # map f ys" using m by simp
  then show ?case using Suc.IH [OF y(2)] y(1) by (simp add: Let_def)
qed simp

lemma distinct_swapped: "distinct xs \<Longrightarrow> distinct (swapped xs)"
  by (induction xs rule: swapped.induct) auto

lemma swap_pair_stands: "stands_for m vs \<Longrightarrow> \<exists>m'. swap_pair m = Some m' \<and> stands_for m' (swapped vs)"
  unfolding stands_for_def by (metis swap_pair_correct distinct_swapped map_swapped)

lemma reverse_stands: "stands_for m vs \<Longrightarrow> \<exists>m'. reverse m = Some m' \<and> stands_for m' (rev vs)"
  unfolding stands_for_def by (metis reverse_correct distinct_rev rev_map)

lemma shuffle_stands:
  assumes "stands_for m vs"
  shows "\<exists>m' ws. fisher_yates_shuffle rnd m = Some m' \<and> ws = shuffled rnd (length vs - 1) vs \<and> mset ws = mset vs \<and> stands_for m' ws"
proof -
  obtain xs where xs: "path m Head xs" "distinct xs" "map (val m) xs = map Some vs" using assms by (auto simp: stands_for_def)
  let ?n = "length vs - 1"
  have len: "length xs = length vs" using xs(3) by (metis length_map)
  obtain m' where m': "fisher_yates_shuffle rnd m = Some m'" "path m' Head (shuffled rnd ?n xs)"
      "mset (shuffled rnd ?n xs) = mset xs" "val m' = val m"
    using shuffle_correct [OF xs(1,2)] len by metis
  have "map (val m') (shuffled rnd ?n xs) = map Some (shuffled rnd ?n vs) \<and> mset (shuffled rnd ?n vs) = mset vs"
  proof (cases vs)
    case (Cons v us)
    then have "length xs = Suc ?n" "length vs = Suc ?n" using len by simp_all
    then show ?thesis by (simp only: map_shuffled mset_shuffled xs(3) m'(4))
  qed (use len in simp)
  moreover have "distinct (shuffled rnd ?n xs)" using m'(3) xs(2) by (metis mset_eq_imp_distinct_iff)
  ultimately show ?thesis using m'(1,2) by (auto simp: stands_for_def)
qed

section \<open>What the program prints\<close>

text \<open>When \<open>malloc\<close> returns fresh addresses, the program ends and prints seven lists; the
  last is the permutation of the sixth that the random numbers determine.\<close>

theorem main_list_prints:
  assumes alloc: "\<And>m. alloc m \<noteq> 0 \<and> nodes m (alloc m) = None"
  shows "\<exists>ws. main_list alloc rnd m =
      Some [[], [72, 101, 108, 109, 110, 111], [72, 108, 109, 110], [108, 72, 110, 109], [109, 110, 72, 108],
        [109, 110, 72, 108, 1, 2, 3, 4, 5, 6], ws] \<and>
    ws = shuffled rnd 9 [109, 110, 72, 108, 1, 2, 3, 4, 5, 6] \<and> mset ws = mset [109, 110, 72, 108, 1, 2, 3, 4, 5, 6]"
proof -
  have 0: "stands_for (m\<lparr>head := 0\<rparr>) []" by (auto simp: stands_for_def path_def get_def)
  obtain m1 where 1: "add_entries alloc [72, 101, 108, 109, 110, 111] (m\<lparr>head := 0\<rparr>) = Some m1"
      "stands_for m1 [72, 101, 108, 109, 110, 111]"
    using add_entries_stands [OF 0 alloc] by fastforce
  obtain m2 where 2: "remove_value 101 m1 = Some m2" "stands_for m2 [72, 108, 109, 110, 111]"
    using remove_value_stands [OF 1(2), of 101] by auto
  obtain m3 where 3: "remove_value 111 m2 = Some m3" "stands_for m3 [72, 108, 109, 110]"
    using remove_value_stands [OF 2(2), of 111] by auto
  obtain m4 where 4: "swap_pair m3 = Some m4" "stands_for m4 [108, 72, 110, 109]" using swap_pair_stands [OF 3(2)] by auto
  obtain m5 where 5: "reverse m4 = Some m5" "stands_for m5 [109, 110, 72, 108]" using reverse_stands [OF 4(2)] by auto
  obtain m6 where 6: "add_entries alloc [1, 2, 3, 4, 5, 6] m5 = Some m6" "stands_for m6 [109, 110, 72, 108, 1, 2, 3, 4, 5, 6]"
    using add_entries_stands [OF 5(2) alloc, of "[1, 2, 3, 4, 5, 6]"] by auto
  have nine: "length [109, 110, 72, 108, 1, 2, 3, 4, 5, 6 :: int] - 1 = 9" by simp
  obtain m7 ws where 7: "fisher_yates_shuffle rnd m6 = Some m7" "stands_for m7 ws"
      "ws = shuffled rnd 9 [109, 110, 72, 108, 1, 2, 3, 4, 5, 6]" "mset ws = mset [109, 110, 72, 108, 1, 2, 3, 4, 5, 6]"
    using shuffle_stands [OF 6(2), of rnd] unfolding nine by blast
  note prints = print_list_stands [OF 0] print_list_stands [OF 1(2)] print_list_stands [OF 3(2)] print_list_stands [OF 4(2)]
    print_list_stands [OF 5(2)] print_list_stands [OF 6(2)] print_list_stands [OF 7(2)]
  have "main_list alloc rnd m =
      Some [[], [72, 101, 108, 109, 110, 111], [72, 108, 109, 110], [108, 72, 110, 109], [109, 110, 72, 108],
        [109, 110, 72, 108, 1, 2, 3, 4, 5, 6], ws]"
    unfolding main_list_def Let_def by (simp only: prints 1(1) 2(1) 3(1) 4(1) 5(1) 6(1) 7(1) bind.bind_lunit)
  then show ?thesis using 7(3,4) by blast
qed

end
