(* ===== verification/Sched.thy ===== *)
theory Sched
  imports Kernel_List
begin

text \<open>
  The preemptive user-level threads of \<open>user-level-thread/task_sched.c\<close>: tasks on a
  ring with \<open>main\<close>, a timer signal that switches to the next one, and a list of
  finished tasks that the next resumed thread frees.  The state holds the links of
  \<open>list.h\<close>, the allocated tasks, what each saved context resumes, the preemption
  counter and whether SIGALRM is blocked.  Touching a freed task sets \<open>crashed\<close>.
\<close>

section \<open>State\<close>

text \<open>The \<open>struct list_head\<close>s: of \<open>task_main\<close>, of \<open>task_reap\<close> and of a task.\<close>

datatype tnode = Main | Reap | Task nat

text \<open>What a callback does, as far as the scheduler sees it.\<close>

datatype op = PreemptDisable | PreemptEnable | Work

text \<open>A saved context starts the trampoline or returns from \<open>swapcontext\<close> in \<open>schedule\<close>,
  whose variable \<open>set\<close> says if SIGALRM was blocked, and which the signal handler or
  the trampoline called.\<close>

datatype ctx = Fresh | InSchedule bool bool

record task_struct =
  uc_context :: ctx
  uc_blocked :: bool
  callback :: "op list"
  reap_self :: bool

text \<open>Where \<open>main\<close> is: before the condition of its loop, in the body, in \<open>sigsuspend\<close>, and behind.\<close>

datatype sched_pc = AtTest | AtEnable | AtWait | InSuspend | AtDisable | AtExit | Done

record sched =
  slinks :: "tnode links"
  task_current :: tnode
  tasks :: "nat \<Rightarrow> task_struct option"
  task_main :: task_struct
  pc :: sched_pc
  preempt_count :: int
  alarm_blocked :: bool
  trace :: "(nat \<times> op) list"
  crashed :: bool

section \<open>Scheduling\<close>

text \<open>Reading and writing the structure of a thread.\<close>

definition task_of :: "sched \<Rightarrow> tnode \<Rightarrow> task_struct option" where
  "task_of s t = (case t of Main \<Rightarrow> Some (task_main s) | Reap \<Rightarrow> None | Task i \<Rightarrow> tasks s i)"

definition set_task :: "tnode \<Rightarrow> task_struct \<Rightarrow> sched \<Rightarrow> sched" where
  "set_task t v s =
     (case t of
        Main \<Rightarrow> s\<lparr>task_main := v\<rparr>
      | Reap \<Rightarrow> s
      | Task i \<Rightarrow> s\<lparr>tasks := (tasks s)(i \<mapsto> v)\<rparr>)"

definition preempt_disable :: "sched \<Rightarrow> sched" where
  "preempt_disable s = s\<lparr>preempt_count := preempt_count s + 1\<rparr>"

definition preempt_enable :: "sched \<Rightarrow> sched" where
  "preempt_enable s = s\<lparr>preempt_count := preempt_count s - 1\<rparr>"

definition local_irq_save :: "sched \<Rightarrow> bool \<times> sched" where
  "local_irq_save s = (alarm_blocked s, s\<lparr>alarm_blocked := True\<rparr>)"

definition local_irq_restore :: "bool \<Rightarrow> sched \<Rightarrow> sched" where
  "local_irq_restore saved s = s\<lparr>alarm_blocked := saved\<rparr>"

definition task_destroy :: "tnode \<Rightarrow> sched \<Rightarrow> sched" where
  "task_destroy t s =
     (case t of
        Task i \<Rightarrow>
          if tasks s i = None then s\<lparr>crashed := True\<rparr>
          else s\<lparr>slinks := list_del t (slinks s), tasks := (tasks s)(i := None)\<rparr>
      | _ \<Rightarrow> s\<lparr>crashed := True\<rparr>)"

text \<open>The part of \<open>schedule\<close> behind the switch, and the return from the signal handler.\<close>

definition schedule_end :: "bool \<Rightarrow> bool \<Rightarrow> sched \<Rightarrow> sched option" where
  "schedule_end saved handler s =
     map_option (\<lambda>s. let s = local_irq_restore saved s in if handler then s\<lparr>alarm_blocked := False\<rparr> else s)
       (list_for_each_entry_safe slinks task_destroy Reap s)"

definition local_irq_restore_trampoline :: "tnode \<Rightarrow> task_struct \<Rightarrow> sched \<Rightarrow> sched" where
  "local_irq_restore_trampoline t v s = local_irq_restore False (set_task t (v\<lparr>uc_blocked := False\<rparr>) s)"

text \<open>\<open>swapcontext\<close>: the context of \<open>from\<close> is saved with the signal mask, that of \<open>to\<close> resumed.
  A finished task must not be resumed.\<close>

definition resume :: "tnode \<Rightarrow> sched \<Rightarrow> sched option" where
  "resume to s =
     (case task_of s to of
        None \<Rightarrow> Some (s\<lparr>crashed := True\<rparr>)
      | Some w \<Rightarrow>
          (let s = s\<lparr>alarm_blocked := uc_blocked w\<rparr>
           in case uc_context w of
                Fresh \<Rightarrow> Some (local_irq_restore_trampoline to w s)
              | InSchedule saved handler \<Rightarrow> if reap_self w then None else schedule_end saved handler s))"

definition task_switch_to :: "bool \<Rightarrow> bool \<Rightarrow> tnode \<Rightarrow> tnode \<Rightarrow> sched \<Rightarrow> sched option" where
  "task_switch_to saved handler from to s =
     (case task_of s from of
        None \<Rightarrow> Some (s\<lparr>crashed := True\<rparr>)
      | Some v \<Rightarrow>
          resume to (set_task from (v\<lparr>uc_context := InSchedule saved handler, uc_blocked := alarm_blocked s\<rparr>)
            (s\<lparr>task_current := to\<rparr>)))"

definition schedule :: "bool \<Rightarrow> sched \<Rightarrow> sched option" where
  "schedule handler s =
     (let (saved, s) = local_irq_save s; cur = task_current s; next_task = list_first_entry cur (slinks s)
      in case task_of s cur of
           None \<Rightarrow> Some (s\<lparr>crashed := True\<rparr>)
         | Some v \<Rightarrow>
             (let s = (if reap_self v then s\<lparr>slinks := list_move cur Reap (slinks s)\<rparr> else s)
              in task_switch_to saved handler cur next_task s))"

text \<open>SIGALRM: it ends \<open>sigsuspend\<close>, and is blocked while the handler runs.\<close>

definition timer_handler :: "sched \<Rightarrow> sched option" where
  "timer_handler s = (if preempt_count s \<noteq> 0 then Some (s\<lparr>alarm_blocked := False\<rparr>) else schedule True s)"

definition tick :: "sched \<Rightarrow> sched option" where
  "tick s =
     (let s = (if task_current s = Main \<and> pc s = InSuspend then s\<lparr>pc := AtDisable\<rparr> else s)
      in timer_handler (s\<lparr>alarm_blocked := True\<rparr>))"

section \<open>Threads\<close>

text \<open>The trampoline behind the call of the callback.\<close>

definition task_finish :: "nat \<Rightarrow> task_struct \<Rightarrow> sched \<Rightarrow> sched option" where
  "task_finish i v s = schedule False (set_task (Task i) (v\<lparr>reap_self := True\<rparr>) s)"

definition task_step :: "nat \<Rightarrow> sched \<Rightarrow> sched option" where
  "task_step i s =
     (case tasks s i of
        None \<Rightarrow> Some (s\<lparr>crashed := True\<rparr>)
      | Some v \<Rightarrow>
          (case callback v of
             [] \<Rightarrow> task_finish i v s
           | a # as \<Rightarrow>
               (let s = set_task (Task i) (v\<lparr>callback := as\<rparr>) s;
                    s = s\<lparr>trace := trace s @ [(i, a)]\<rparr>
                in Some (case a of PreemptDisable \<Rightarrow> preempt_disable s | PreemptEnable \<Rightarrow> preempt_enable s | Work \<Rightarrow> s))))"

definition main_step :: "sched \<Rightarrow> sched" where
  "main_step s =
     (case pc s of
        AtTest \<Rightarrow> s\<lparr>pc := (if \<not> list_empty Main (slinks s) \<or> \<not> list_empty Reap (slinks s) then AtEnable else AtExit)\<rparr>
      | AtEnable \<Rightarrow> preempt_enable (s\<lparr>pc := AtWait\<rparr>)
      | AtWait \<Rightarrow> s\<lparr>pc := InSuspend\<rparr>
      | InSuspend \<Rightarrow> s
      | AtDisable \<Rightarrow> preempt_disable (s\<lparr>pc := AtTest\<rparr>)
      | AtExit \<Rightarrow> preempt_enable (s\<lparr>pc := Done\<rparr>)
      | Done \<Rightarrow> s)"

definition thread_step :: "sched \<Rightarrow> sched option" where
  "thread_step s =
     (case task_current s of Main \<Rightarrow> Some (main_step s) | Reap \<Rightarrow> Some (s\<lparr>crashed := True\<rparr>) | Task i \<Rightarrow> task_step i s)"

text \<open>The timer runs until \<open>main\<close> has left its loop.\<close>

inductive sstep :: "sched \<Rightarrow> sched \<Rightarrow> bool" where
  timer: "pc s \<noteq> Done \<Longrightarrow> \<not> alarm_blocked s \<Longrightarrow> tick s = Some s' \<Longrightarrow> sstep s s'"
| thread: "pc s \<noteq> Done \<Longrightarrow> thread_step s = Some s' \<Longrightarrow> sstep s s'"

section \<open>Start\<close>

definition task_init :: sched where
  "task_init =
     \<lparr>slinks = INIT_LIST_HEAD Main (INIT_LIST_HEAD Reap \<lparr>lprev = (\<lambda>t. t), lnext = (\<lambda>t. t)\<rparr>),
      task_current = Main, tasks = (\<lambda>i. None),
      task_main = \<lparr>uc_context = Fresh, uc_blocked = False, callback = [], reap_self = False\<rparr>,
      pc = AtTest, preempt_count = 0, alarm_blocked = False, trace = [], crashed = False\<rparr>"

text \<open>\<open>task_add\<close> with the address that \<open>calloc\<close> returns; allocation is assumed to succeed.\<close>

definition task_add :: "op list \<Rightarrow> nat \<Rightarrow> sched \<Rightarrow> sched" where
  "task_add func i s =
     (let s = set_task (Task i) \<lparr>uc_context = Fresh, uc_blocked = True, callback = func, reap_self = False\<rparr> s;
          s = preempt_disable s;
          s = s\<lparr>slinks := list_add_tail (Task i) Main (slinks s)\<rparr>
      in preempt_enable s)"

definition task_printf :: "op list" where
  "task_printf = [PreemptDisable, Work, PreemptEnable]"

text \<open>The callback \<open>sort\<close>: allocation, messages, filling, sorting, checking and freeing the array.\<close>

definition sort_ops :: "op list" where
  "sort_ops = [PreemptDisable, Work, PreemptEnable] @ task_printf @ [Work] @ task_printf @ [Work, Work] @
     task_printf @ [PreemptDisable, Work, PreemptEnable]"

definition sched_start :: "op list list \<Rightarrow> sched" where
  "sched_start funcs = preempt_disable (fold (\<lambda>i. task_add (funcs ! i) i) [0..<length funcs] task_init)"

end
