(* ===== verification/Sched_Spec.thy ===== *)
theory Sched_Spec
  imports Sched "HOL-Library.Sublist"
begin

text \<open>
  The scheduler keeps its invariant under every interleaving of timer signals and
  thread steps: no freed task is touched, every task runs its callback to the end
  exactly once and is then freed, and the timer switches round robin.
\<close>

section \<open>Invariant\<close>

text \<open>The rest of a callback is balanced when it is entered with \<open>d\<close> open \<open>preempt_disable\<close>.\<close>

fun bal :: "int \<Rightarrow> op list \<Rightarrow> bool" where
  "bal d [] \<longleftrightarrow> d = 0"
| "bal d (PreemptDisable # as) \<longleftrightarrow> bal (d + 1) as"
| "bal d (PreemptEnable # as) \<longleftrightarrow> 0 < d \<and> bal (d - 1) as"
| "bal d (Work # as) \<longleftrightarrow> bal d as"

definition rings :: "sched \<Rightarrow> nat list \<Rightarrow> nat list \<Rightarrow> bool" where
  "rings s ts rs \<longleftrightarrow> klist (slinks s) Main (map Task ts) \<and> klist (slinks s) Reap (map Task rs) \<and>
     set ts \<inter> set rs = {} \<and> dom (tasks s) = set ts \<union> set rs"

abbreviation ring_of :: "nat list \<Rightarrow> tnode set" where
  "ring_of ts \<equiv> insert Main (Task ` set ts)"

text \<open>A thread that was switched away from, and the current one.\<close>

definition parked :: "sched \<Rightarrow> tnode \<Rightarrow> bool" where
  "parked s t \<longleftrightarrow> (\<exists>v. task_of s t = Some v \<and> \<not> reap_self v \<and>
     (if t = Main then pc s \<in> {AtWait, AtDisable} else bal 0 (callback v)) \<and>
     (t \<noteq> Main \<and> uc_context v = Fresh \<or> (\<exists>b. uc_context v = InSchedule b True)))"

definition running :: "sched \<Rightarrow> tnode \<Rightarrow> bool" where
  "running s t \<longleftrightarrow> (\<exists>v. task_of s t = Some v \<and> \<not> reap_self v \<and>
     (if t = Main then preempt_count s = (if pc s \<in> {AtTest, AtEnable, AtExit} then 1 else 0)
      else bal (preempt_count s) (callback v)))"

text \<open>What task \<open>i\<close> has done and what it still has to do.\<close>

definition done_ops :: "sched \<Rightarrow> nat \<Rightarrow> op list" where
  "done_ops s i = map snd (filter (\<lambda>e. fst e = i) (trace s))"

definition todo_ops :: "sched \<Rightarrow> nat \<Rightarrow> op list" where
  "todo_ops s i = (case tasks s i of None \<Rightarrow> [] | Some v \<Rightarrow> callback v)"

definition common :: "op list list \<Rightarrow> sched \<Rightarrow> nat list \<Rightarrow> nat list \<Rightarrow> bool" where
  "common ps s ts rs \<longleftrightarrow> rings s ts rs \<and> (\<forall>i \<in> set rs. \<exists>v. tasks s i = Some v \<and> callback v = []) \<and>
     \<not> crashed s \<and> (\<forall>i. done_ops s i @ todo_ops s i = (if i < length ps then ps ! i else []))"

definition sinv :: "op list list \<Rightarrow> sched \<Rightarrow> bool" where
  "sinv ps s \<longleftrightarrow> (\<exists>ts rs. common ps s ts rs \<and> task_current s \<in> ring_of ts \<and>
     (\<forall>t \<in> ring_of ts. t \<noteq> task_current s \<longrightarrow> parked s t) \<and> running s (task_current s) \<and>
     \<not> alarm_blocked s \<and> (pc s \<in> {AtExit, Done} \<longrightarrow> ts = [] \<and> rs = []))"

section \<open>Freeing the finished tasks\<close>

lemma rings_cong: "slinks s' = slinks s \<Longrightarrow> dom (tasks s') = dom (tasks s) \<Longrightarrow> rings s' ts rs = rings s ts rs"
  by (simp add: rings_def)

lemma destroy_step:
  assumes "rings s ts (r # rs)"
  shows "task_destroy (Task r) s = s\<lparr>slinks := list_del (Task r) (slinks s), tasks := (tasks s)(r := None)\<rparr>"
    "rings (task_destroy (Task r) s) ts rs" "lnext (slinks s) (Task r) = hd (map Task rs @ [Reap])"
proof -
  have k: "klist (slinks s) Main (map Task ts)" "klist (slinks s) Reap ([] @ Task r # map Task rs)"
    and d: "set ts \<inter> set (r # rs) = {}" "dom (tasks s) = set ts \<union> set (r # rs)" using assms by (simp_all add: rings_def)
  have dist: "r \<notin> set rs" using k(2) by (auto dest: ring_distinct)
  have "r \<in> dom (tasks s)" using d(2) by simp
  then show e: "task_destroy (Task r) s = s\<lparr>slinks := list_del (Task r) (slinks s), tasks := (tasks s)(r := None)\<rparr>"
    by (auto simp: task_destroy_def)
  have "klist (list_del (Task r) (slinks s)) Reap (map Task rs)" using kl.unlink_ring [OF k(2)] by simp
  moreover have "insert Reap (set ([] @ Task r # map Task rs)) \<inter> insert Main (set (map Task ts)) = {}" using d(1) by auto
  then have "klist (list_del (Task r) (slinks s)) Main (map Task ts)" using kl.unlink_other [OF k(2)] k(1) by simp
  ultimately show "rings (task_destroy (Task r) s) ts rs" unfolding e using d dist by (auto simp: rings_def)
  show "lnext (slinks s) (Task r) = hd (map Task rs @ [Reap])" using k(2) by (cases rs) (auto simp: ring_def)
qed

lemma clean_reaps:
  assumes "rings s ts rs"
  shows "\<exists>l. list_for_each_entry_safe slinks task_destroy Reap s = Some (s\<lparr>slinks := l, tasks := tasks s |` (- set rs)\<rparr>) \<and>
    rings (s\<lparr>slinks := l, tasks := tasks s |` (- set rs)\<rparr>) ts []"
proof -
  have k: "klist (slinks s) Reap (map Task rs)" using assms by (simp add: rings_def)
  have "list_for_each_entry_safe slinks task_destroy Reap s = Some (fold task_destroy (map Task rs) s)"
  proof (rule list_for_each_entry_safe_run [where P = "\<lambda>ns t. \<exists>rs. ns = map Task rs \<and> rings t ts rs"])
    show "\<exists>rs'. map Task rs = map Task rs' \<and> rings s ts rs'" using assms by blast
    show "lnext (slinks s) Reap = hd (map Task rs @ [Reap])" using ring_next_head [OF k] by (simp add: hd_append)
  next
    fix y ys t assume "\<exists>rs. y # ys = map Task rs \<and> rings t ts rs"
    then obtain r rs' where r: "y = Task r" "ys = map Task rs'" "rings t ts (r # rs')" by (auto simp: Cons_eq_map_conv)
    then show "y \<noteq> Reap \<and> lnext (slinks t) y = hd (ys @ [Reap]) \<and> (\<exists>rs. ys = map Task rs \<and> rings (task_destroy y t) ts rs)"
      using destroy_step [OF r(3)] by auto
  qed
  moreover have "\<exists>l. fold task_destroy (map Task rs) s = s\<lparr>slinks := l, tasks := tasks s |` (- set rs)\<rparr> \<and>
      rings (fold task_destroy (map Task rs) s) ts []"
    using assms
  proof (induction rs arbitrary: s)
    case Nil
    then show ?case by (auto intro: exI [of _ "slinks s"])
  next
    case (Cons r rs)
    note d = destroy_step [OF Cons.prems]
    from Cons.IH [OF d(2)] obtain l where l: "fold task_destroy (map Task rs) (task_destroy (Task r) s) =
        (task_destroy (Task r) s)\<lparr>slinks := l, tasks := tasks (task_destroy (Task r) s) |` (- set rs)\<rparr>"
      "rings (fold task_destroy (map Task rs) (task_destroy (Task r) s)) ts []" by blast
    have "(tasks s)(r := None) |` (- set rs) = tasks s |` (- set (r # rs))" by (auto simp: restrict_map_def fun_eq_iff)
    then show ?case using l by (auto simp: d(1))
  qed
  ultimately show ?thesis by auto
qed

section \<open>Switching\<close>

lemma task_of_simps [simp]:
  "task_of s Main = Some (task_main s)" "task_of s (Task i) = tasks s i"
  "set_task (Task i) v s = s\<lparr>tasks := (tasks s)(i \<mapsto> v)\<rparr>" "set_task Main v s = s\<lparr>task_main := v\<rparr>"
  by (simp_all add: task_of_def set_task_def)

lemma parked_pc: "parked s Main \<Longrightarrow> pc s \<in> {AtWait, AtDisable}"
  by (auto simp: parked_def)

lemma parked_cong:
  "pc s' = pc s \<Longrightarrow> task_of s' t = task_of s t \<Longrightarrow> parked s' t = parked s t"
  by (simp add: parked_def)

text \<open>The common part depends on the callbacks only, not on contexts and flags.\<close>

lemma todo_ops_alt: "todo_ops s i = (case map_option callback (tasks s i) of None \<Rightarrow> [] | Some c \<Rightarrow> c)"
  by (simp add: todo_ops_def split: option.split)

lemma common_cong:
  assumes C: "common ps s ts rs" and eq: "slinks s' = slinks s" "crashed s' = crashed s" "trace s' = trace s"
    and cb: "\<And>i. map_option callback (tasks s' i) = map_option callback (tasks s i)"
  shows "common ps s' ts rs"
proof -
  have "i \<in> dom (tasks s') \<longleftrightarrow> i \<in> dom (tasks s)" for i using cb [of i] by (cases "tasks s i"; cases "tasks s' i") auto
  then have "dom (tasks s') = dom (tasks s)" by blast
  moreover have "\<exists>v. tasks s' i = Some v \<and> callback v = []" if "\<exists>v. tasks s i = Some v \<and> callback v = []" for i
    using that cb [of i] by (cases "tasks s' i") auto
  moreover have "todo_ops s' i = todo_ops s i" for i unfolding todo_ops_alt cb ..
  ultimately show ?thesis using C eq by (simp add: common_def rings_def done_ops_def)
qed

lemma resume_inv:
  assumes C: "common ps s ts rs" and to: "to \<in> ring_of ts" "task_current s = to"
    and park: "\<And>t. t \<in> ring_of ts \<Longrightarrow> parked s t" and z: "preempt_count s = 0"
  shows "\<exists>s'. resume to s = Some s' \<and> sinv ps s' \<and> task_current s' = to \<and> klist (slinks s') Main (map Task ts)"
proof -
  have R: "rings s ts rs" using C by (simp add: common_def)
  have pcs: "pc s \<in> {AtWait, AtDisable}" using park [of Main] parked_pc by blast
  obtain w where w: "task_of s to = Some w" "\<not> reap_self w" "to \<noteq> Main \<Longrightarrow> bal 0 (callback w)"
    and ctx: "to \<noteq> Main \<and> uc_context w = Fresh \<or> (\<exists>b. uc_context w = InSchedule b True)"
    using park [OF to(1)] by (auto simp: parked_def split: if_splits)
  from ctx show ?thesis
  proof
    assume f: "to \<noteq> Main \<and> uc_context w = Fresh"
    then obtain i where i: "to = Task i" "i \<in> set ts" using to(1) by auto
    let ?s = "s\<lparr>alarm_blocked := False, tasks := (tasks s)(i \<mapsto> w\<lparr>uc_blocked := False\<rparr>)\<rparr>"
    have ti: "tasks s i = Some w" using w(1) i by simp
    have "resume to s = Some ?s"
      using f w(1) i by (simp add: resume_def Let_def local_irq_restore_trampoline_def local_irq_restore_def)
    moreover have "common ps ?s ts rs"
      by (rule common_cong [OF C]) (simp_all add: ti)
    moreover have "running ?s to" using w(2,3) f i z by (simp add: running_def)
    moreover have "parked ?s t" if "t \<in> ring_of ts" "t \<noteq> to" for t
      using park [OF that(1)] that i by (cases t) (auto simp: parked_def)
    ultimately have "sinv ps ?s" using to pcs unfolding sinv_def by (intro exI [of _ ts] exI [of _ rs]) auto
    then show ?thesis using \<open>resume to s = Some ?s\<close> to R by (auto simp: rings_def)
  next
    assume "\<exists>b. uc_context w = InSchedule b True"
    then obtain b where b: "uc_context w = InSchedule b True" by blast
    have Ra: "rings (s\<lparr>alarm_blocked := uc_blocked w\<rparr>) ts rs" using R by (simp add: rings_def)
    from clean_reaps [OF this] obtain l where l:
      "list_for_each_entry_safe slinks task_destroy Reap (s\<lparr>alarm_blocked := uc_blocked w\<rparr>) =
        Some (s\<lparr>alarm_blocked := uc_blocked w, slinks := l, tasks := tasks s |` (- set rs)\<rparr>)"
      "rings (s\<lparr>alarm_blocked := uc_blocked w, slinks := l, tasks := tasks s |` (- set rs)\<rparr>) ts []" by auto
    let ?s = "s\<lparr>alarm_blocked := False, slinks := l, tasks := tasks s |` (- set rs)\<rparr>"
    have "resume to s = Some ?s"
      using b w(1,2) l(1) by (simp add: resume_def Let_def schedule_end_def local_irq_restore_def)
    moreover have "todo_ops ?s i = todo_ops s i" for i
      using C by (cases "i \<in> set rs") (auto simp: todo_ops_def common_def)
    then have "common ps ?s ts []" using C l(2) by (simp add: common_def rings_def done_ops_def)
    moreover have same: "task_of ?s t = task_of s t" if "t \<in> ring_of ts" for t
    proof -
      have "set ts \<inter> set rs = {}" using R by (simp add: rings_def)
      then show ?thesis using that by (auto simp: restrict_map_def)
    qed
    then have "parked ?s t" if "t \<in> ring_of ts" for t using park [OF that] parked_cong [of ?s s t] that by simp
    moreover have "running ?s to" using same [OF to(1)] w z pcs by (auto simp: running_def)
    ultimately have "sinv ps ?s" using to pcs unfolding sinv_def by (intro exI [of _ ts] exI [of _ "[]"]) auto
    then show ?thesis using \<open>resume to s = Some ?s\<close> to l(2) by (auto simp: rings_def)
  qed
qed

text \<open>The timer switches away from a thread that is not finished.\<close>

lemma schedule_handler:
  assumes C: "common ps s ts rs" and cur: "task_current s \<in> ring_of ts"
    and park: "\<And>t. t \<in> ring_of ts \<Longrightarrow> t \<noteq> task_current s \<Longrightarrow> parked s t"
    and run: "running s (task_current s)" and z: "preempt_count s = 0"
    and pcm: "task_current s = Main \<Longrightarrow> pc s \<in> {AtWait, AtDisable}"
  shows "\<exists>s'. schedule True s = Some s' \<and> sinv ps s' \<and> task_current s' = lnext (slinks s) (task_current s) \<and>
    klist (slinks s') Main (map Task ts)"
proof -
  let ?cur = "task_current s"
  let ?nx = "lnext (slinks s) ?cur"
  have k: "klist (slinks s) Main (map Task ts)" using C by (simp add: common_def rings_def)
  have nx: "?nx \<in> ring_of ts" using ring_links_mem(1) [OF k, of ?cur] cur by auto
  obtain v where v: "task_of s ?cur = Some v" "\<not> reap_self v" "?cur \<noteq> Main \<Longrightarrow> bal 0 (callback v)"
    using run z by (auto simp: running_def split: if_splits)
  define s1 where "s1 = set_task ?cur (v\<lparr>uc_context := InSchedule (alarm_blocked s) True, uc_blocked := True\<rparr>)
      (s\<lparr>alarm_blocked := True, task_current := ?nx\<rparr>)"
  have "schedule True s = resume ?nx s1"
    using v cur by (auto simp: schedule_def local_irq_save_def Let_def task_switch_to_def list_first_entry_def s1_def)
  moreover have "common ps s1 ts rs"
    by (rule common_cong [OF C]) (use v(1) cur in \<open>auto simp: s1_def\<close>)
  moreover have "parked s1 t" if "t \<in> ring_of ts" for t
  proof (cases "t = ?cur")
    case True
    then show ?thesis using v pcm cur by (auto simp: parked_def s1_def)
  next
    case False
    then have "task_of s1 t = task_of s t" using that cur by (auto simp: s1_def)
    moreover have "pc s1 = pc s" using cur by (auto simp: s1_def)
    ultimately show ?thesis using park [OF that False] parked_cong by blast
  qed
  moreover have "task_current s1 = ?nx" "preempt_count s1 = 0" using cur z by (auto simp: s1_def)
  ultimately show ?thesis using resume_inv [of ps s1 ts rs ?nx] nx by auto
qed

text \<open>A finished task moves itself to the list of tasks to free.\<close>

lemma finish_inv:
  assumes C: "common ps s ts rs" and cur: "task_current s = Task i" "i \<in> set ts"
    and park: "\<And>t. t \<in> ring_of ts \<Longrightarrow> t \<noteq> task_current s \<Longrightarrow> parked s t"
    and v: "tasks s i = Some v" "callback v = []" and z: "preempt_count s = 0"
  shows "\<exists>s'. task_finish i v s = Some s' \<and> sinv ps s'"
proof -
  obtain us vs where ts: "ts = us @ i # vs" using split_list [OF cur(2)] by blast
  have R: "rings s ts rs" using C by (simp add: common_def)
  then have k: "klist (slinks s) Main (map Task us @ Task i # map Task vs)" "klist (slinks s) Reap (map Task rs)"
    and d: "set ts \<inter> set rs = {}" by (simp_all add: rings_def ts)
  have dist: "i \<notin> set us" "i \<notin> set vs" using ring_distinct [OF k(1)] by auto
  let ?l = "list_move (Task i) Reap (slinks s)"
  let ?nx = "lnext (slinks s) (Task i)"
  have nx: "?nx \<in> ring_of (us @ vs)" using k(1) by (cases vs) (auto simp: ring_def)
  define s1 where "s1 = s\<lparr>alarm_blocked := True, slinks := ?l, task_current := ?nx,
      tasks := (tasks s)(i \<mapsto> v\<lparr>reap_self := True, uc_context := InSchedule (alarm_blocked s) False, uc_blocked := True\<rparr>)\<rparr>"
  have "task_finish i v s = resume ?nx s1"
    by (simp add: task_finish_def schedule_def local_irq_save_def Let_def task_switch_to_def list_first_entry_def cur s1_def)
  moreover have disj: "insert Main (set (map Task us @ Task i # map Task vs)) \<inter> insert Reap (set (map Task rs)) = {}"
    using d ts by auto
  have R1: "rings s1 (us @ vs) (i # rs)"
    using list_move_between(1,2) [OF k disj] R v(1) dist d ts by (auto simp: rings_def s1_def)
  have "common ps s1 (us @ vs) (i # rs)"
  proof -
    have "todo_ops s1 j = todo_ops s j" for j using v by (simp add: todo_ops_def s1_def)
    then show ?thesis using C R1 v by (auto simp: common_def done_ops_def s1_def)
  qed
  moreover have "parked s1 t" if t: "t \<in> ring_of (us @ vs)" for t
  proof -
    have "t \<in> ring_of ts" "t \<noteq> Task i" using t dist ts by auto
    then show ?thesis using park [of t] cur parked_cong [of s1 s t] by (cases t) (auto simp: s1_def)
  qed
  moreover have "task_current s1 = ?nx" "preempt_count s1 = 0" using z by (auto simp: s1_def)
  ultimately show ?thesis using resume_inv [of ps s1 "us @ vs" "i # rs" ?nx] nx by auto
qed

section \<open>Every step keeps the invariant\<close>

lemma sinvE:
  assumes "sinv ps s"
  obtains ts rs where "common ps s ts rs" "task_current s \<in> ring_of ts"
    "\<And>t. t \<in> ring_of ts \<Longrightarrow> t \<noteq> task_current s \<Longrightarrow> parked s t" "running s (task_current s)"
    "\<not> alarm_blocked s" "pc s \<in> {AtExit, Done} \<Longrightarrow> ts = [] \<and> rs = []"
  using assms unfolding sinv_def by blast

lemma sinvI:
  assumes "common ps s ts rs" "task_current s \<in> ring_of ts"
    "\<And>t. t \<in> ring_of ts \<Longrightarrow> t \<noteq> task_current s \<Longrightarrow> parked s t" "running s (task_current s)"
    "\<not> alarm_blocked s" "pc s \<in> {AtExit, Done} \<Longrightarrow> ts = [] \<and> rs = []"
  shows "sinv ps s"
  using assms unfolding sinv_def by blast

lemma tick_inv:
  assumes I: "sinv ps s" and pc: "pc s \<noteq> Done"
  shows "\<exists>s'. tick s = Some s' \<and> sinv ps s' \<and>
    (preempt_count s \<noteq> 0 \<longrightarrow> s' = s) \<and>
    (preempt_count s = 0 \<longrightarrow> task_current s' = lnext (slinks s) (task_current s) \<and>
       (\<forall>ts. klist (slinks s) Main (map Task ts) \<longrightarrow> klist (slinks s') Main (map Task ts)))"
proof -
  from I obtain ts rs where C: "common ps s ts rs" and cur: "task_current s \<in> ring_of ts"
    and park: "\<And>t. t \<in> ring_of ts \<Longrightarrow> t \<noteq> task_current s \<Longrightarrow> parked s t" and run: "running s (task_current s)"
    and al: "\<not> alarm_blocked s" by (rule sinvE) blast
  show ?thesis
  proof (cases "preempt_count s = 0")
    case False
    then have "\<not> (task_current s = Main \<and> pc s = InSuspend)" using run by (auto simp: running_def)
    then have "tick s = Some s" using False al by (simp add: tick_def timer_handler_def Let_def)
    then show ?thesis using I False by simp
  next
    case True
    define s0 where "s0 = (if task_current s = Main \<and> pc s = InSuspend then s\<lparr>pc := AtDisable\<rparr> else s)\<lparr>alarm_blocked := True\<rparr>"
    have f: "slinks s0 = slinks s" "task_current s0 = task_current s" "tasks s0 = tasks s" "task_main s0 = task_main s"
      "preempt_count s0 = 0" "trace s0 = trace s" "crashed s0 = crashed s"
      "task_current s \<noteq> Main \<Longrightarrow> pc s0 = pc s" using True by (simp_all add: s0_def)
    have "tick s = schedule True s0" using True by (simp add: tick_def timer_handler_def s0_def Let_def)
    moreover have "common ps s0 ts rs" by (rule common_cong [OF C]) (simp_all add: f)
    moreover have "task_of s0 t = task_of s t" for t by (cases t) (simp_all add: task_of_def f)
    moreover have "parked s0 t" if "t \<in> ring_of ts" "t \<noteq> task_current s0" for t
    proof (cases "task_current s = Main")
      case True
      then show ?thesis using park [of t] that by (auto simp: parked_def \<open>\<And>t. task_of s0 t = task_of s t\<close> f)
    next
      case False
      then have "parked s0 t = parked s t" using parked_cong [OF f(8) \<open>\<And>t. task_of s0 t = task_of s t\<close>] by blast
      then show ?thesis using park [of t] that f by simp
    qed
    moreover have pcm: "pc s0 \<in> {AtWait, AtDisable}" if "task_current s0 = Main"
    proof -
      have "pc s \<in> {AtWait, InSuspend, AtDisable}" using run True pc that f by (cases "pc s") (auto simp: running_def)
      then show ?thesis using that f by (auto simp: s0_def)
    qed
    moreover have "running s0 (task_current s0)"
      using run True pcm by (auto simp: running_def \<open>\<And>t. task_of s0 t = task_of s t\<close> f)
    ultimately have "\<exists>s'. tick s = Some s' \<and> sinv ps s' \<and> task_current s' = lnext (slinks s) (task_current s) \<and>
        klist (slinks s') Main (map Task ts)"
      using schedule_handler [of ps s0 ts rs] cur f by auto
    moreover have "us = ts" if "klist (slinks s) Main (map Task us)" for us
    proof -
      have "klist (slinks s) Main (map Task ts)" using C by (simp add: common_def rings_def)
      from ring_unique [OF that this] show ?thesis by (simp add: map_injective inj_def)
    qed
    ultimately show ?thesis using True by blast
  qed
qed

lemma main_step_inv:
  assumes I: "sinv ps s" and cur: "task_current s = Main"
  shows "sinv ps (main_step s)"
proof -
  from I obtain ts rs where C: "common ps s ts rs" and park: "\<And>t. t \<in> ring_of ts \<Longrightarrow> t \<noteq> Main \<Longrightarrow> parked s t"
    and run: "running s Main" and al: "\<not> alarm_blocked s" and ex: "pc s \<in> {AtExit, Done} \<Longrightarrow> ts = [] \<and> rs = []"
    by (rule sinvE) (auto simp: cur)
  have k: "klist (slinks s) Main (map Task ts)" "klist (slinks s) Reap (map Task rs)" using C by (simp_all add: common_def rings_def)
  have f: "slinks (main_step s) = slinks s" "task_current (main_step s) = Main" "tasks (main_step s) = tasks s"
    "task_main (main_step s) = task_main s" "trace (main_step s) = trace s" "crashed (main_step s) = crashed s"
    "alarm_blocked (main_step s) = alarm_blocked s"
    using cur by (cases "pc s"; simp add: main_step_def preempt_disable_def preempt_enable_def)+
  show ?thesis
  proof (rule sinvI)
    show "common ps (main_step s) ts rs" by (rule common_cong [OF C]) (simp_all add: f)
    show "parked (main_step s) t" if "t \<in> ring_of ts" "t \<noteq> task_current (main_step s)" for t
      using park [of t] that by (auto simp: parked_def f task_of_def)
    show "running (main_step s) (task_current (main_step s))"
      using run cur by (cases "pc s") (auto simp: running_def f main_step_def preempt_disable_def preempt_enable_def)
    show "ts = [] \<and> rs = []" if "pc (main_step s) \<in> {AtExit, Done}"
      using that ex list_empty_iff [OF k(1)] list_empty_iff [OF k(2)]
      by (cases "pc s") (auto simp: main_step_def preempt_disable_def preempt_enable_def split: if_splits)
  qed (simp_all add: f al)
qed

lemma task_step_inv:
  assumes I: "sinv ps s" and cur: "task_current s = Task i"
  shows "\<exists>s'. task_step i s = Some s' \<and> sinv ps s'"
proof -
  from I obtain ts rs where C: "common ps s ts rs" and i: "i \<in> set ts"
    and park: "\<And>t. t \<in> ring_of ts \<Longrightarrow> t \<noteq> task_current s \<Longrightarrow> parked s t"
    and run: "running s (Task i)" and al: "\<not> alarm_blocked s" and ex: "pc s \<in> {AtExit, Done} \<Longrightarrow> ts = [] \<and> rs = []"
    by (rule sinvE) (auto simp: cur)
  obtain v where v: "tasks s i = Some v" "\<not> reap_self v" "bal (preempt_count s) (callback v)" using run by (auto simp: running_def)
  have nr: "i \<notin> set rs" using C i by (auto simp: common_def rings_def)
  show ?thesis
  proof (cases "callback v")
    case Nil
    then have "task_step i s = task_finish i v s" "preempt_count s = 0" using v by (simp_all add: task_step_def)
    then show ?thesis using finish_inv [OF C cur i park v(1) Nil] by simp
  next
    case (Cons a as)
    define s1 where "s1 = s\<lparr>tasks := (tasks s)(i \<mapsto> v\<lparr>callback := as\<rparr>), trace := trace s @ [(i, a)]\<rparr>"
    define s' where "s' = (case a of PreemptDisable \<Rightarrow> preempt_disable s1 | PreemptEnable \<Rightarrow> preempt_enable s1 | Work \<Rightarrow> s1)"
    have st: "task_step i s = Some s'" using v(1) Cons by (cases a) (simp_all add: task_step_def Let_def s1_def s'_def)
    have f: "slinks s' = slinks s" "task_current s' = Task i" "task_main s' = task_main s" "pc s' = pc s" "crashed s' = crashed s"
      "alarm_blocked s' = alarm_blocked s" "tasks s' = (tasks s)(i \<mapsto> v\<lparr>callback := as\<rparr>)" "trace s' = trace s @ [(i, a)]"
      using cur by (cases a; simp add: s'_def s1_def preempt_disable_def preempt_enable_def)+
    have "bal (preempt_count s') as"
      using v(3) Cons by (cases a) (simp_all add: s'_def s1_def preempt_disable_def preempt_enable_def)
    then have "running s' (Task i)" using v(2) by (simp add: running_def f)
    moreover have "done_ops s' j @ todo_ops s' j = done_ops s j @ todo_ops s j" for j
      using v(1) Cons by (simp add: done_ops_def todo_ops_def f)
    then have "common ps s' ts rs" using C nr v(1) by (auto simp: common_def rings_def f)
    moreover have "parked s' t" if "t \<in> ring_of ts" "t \<noteq> Task i" for t
      using park [of t] that cur parked_cong [of s' s t] by (cases t) (auto simp: f)
    ultimately have "sinv ps s'" using al ex i by (intro sinvI [of ps s' ts rs]) (simp_all add: f)
    then show ?thesis using st by blast
  qed
qed

lemma thread_step_inv:
  assumes "sinv ps s"
  shows "\<exists>s'. thread_step s = Some s' \<and> sinv ps s'"
proof (cases "task_current s")
  case Main
  then show ?thesis using main_step_inv [OF assms] by (simp add: thread_step_def)
next
  case Reap
  then show ?thesis using assms by (auto simp: sinv_def)
next
  case (Task i)
  then show ?thesis using task_step_inv [OF assms] by (simp add: thread_step_def)
qed

lemma sstep_inv: "sstep s s' \<Longrightarrow> sinv ps s \<Longrightarrow> sinv ps s'"
proof (induction rule: sstep.induct)
  case (timer s s')
  then show ?case using tick_inv [of ps s] by fastforce
next
  case (thread s s')
  then show ?case using thread_step_inv [of ps s] by fastforce
qed

lemma steps_inv: "sstep\<^sup>*\<^sup>* s s' \<Longrightarrow> sinv ps s \<Longrightarrow> sinv ps s'"
  by (induction rule: rtranclp_induct) (auto intro: sstep_inv)

section \<open>The start\<close>

lemma task_add_rings:
  assumes "rings s ts []" "i \<notin> set ts"
  shows "rings (task_add f i s) (ts @ [i]) []"
proof -
  have k: "klist (slinks s) Main (map Task ts)" "klist (slinks s) Reap []" "dom (tasks s) = set ts" using assms(1) by (simp_all add: rings_def)
  have n: "Task i \<noteq> Main" "Task i \<notin> set (map Task ts)" using assms(2) by auto
  have "klist (list_add_tail (Task i) Main (slinks s)) Main (map Task (ts @ [i]))" using kl.push_ring [OF k(1) n] by simp
  moreover have "klist (list_add_tail (Task i) Main (slinks s)) Reap []"
    using kl.push_other [OF k(1) n, of Reap "[]"] k(2) by auto
  ultimately show ?thesis
    using k(3) by (auto simp: rings_def task_add_def Let_def preempt_disable_def preempt_enable_def)
qed

lemma start_state:
  fixes ps defines "s n \<equiv> fold (\<lambda>i. task_add (ps ! i) i) [0..<n] task_init"
  shows "rings (s n) [0..<n] [] \<and> task_current (s n) = Main \<and> task_main (s n) = task_main task_init \<and> pc (s n) = AtTest \<and>
    preempt_count (s n) = 0 \<and> \<not> alarm_blocked (s n) \<and> trace (s n) = [] \<and> \<not> crashed (s n) \<and>
    tasks (s n) = (\<lambda>i. if i < n then Some \<lparr>uc_context = Fresh, uc_blocked = True, callback = ps ! i, reap_self = False\<rparr> else None)"
proof (induction n)
  case 0
  show ?case by (auto simp: s_def task_init_def rings_def kl.init_ring kl.init_other)
next
  case (Suc n)
  have "s (Suc n) = task_add (ps ! n) n (s n)" by (simp add: s_def)
  moreover have "rings (task_add (ps ! n) n (s n)) ([0..<n] @ [n]) []" using Suc by (intro task_add_rings) auto
  ultimately show ?case
    using Suc by (auto simp: task_add_def Let_def preempt_disable_def preempt_enable_def fun_eq_iff)
qed

lemma start_pc: "pc (sched_start ps) = AtTest"
  using start_state [of ps "length ps"] by (simp add: sched_start_def preempt_disable_def)

lemma start_inv:
  assumes "\<forall>p \<in> set ps. bal 0 p"
  shows "sinv ps (sched_start ps)"
proof -
  note S = start_state [of ps "length ps"]
  show ?thesis
  proof (rule sinvI [where ts = "[0..<length ps]" and rs = "[]"])
    show "common ps (sched_start ps) [0..<length ps] []"
      using S by (auto simp: sched_start_def common_def rings_def preempt_disable_def done_ops_def todo_ops_def)
    show "parked (sched_start ps) t" if "t \<in> ring_of [0..<length ps]" "t \<noteq> task_current (sched_start ps)" for t
      using S that assms by (auto simp: sched_start_def parked_def preempt_disable_def)
    show "running (sched_start ps) (task_current (sched_start ps))"
      using S by (auto simp: sched_start_def running_def preempt_disable_def task_init_def)
  qed (use S in \<open>auto simp: sched_start_def preempt_disable_def\<close>)
qed

section \<open>Properties\<close>

text \<open>The successor on a circular list.\<close>

lemma chain_succ: "chain nx pv a xs b \<Longrightarrow> k \<le> length xs \<Longrightarrow> nx ((a # xs) ! k) = (xs @ [b]) ! k"
proof (induction xs arbitrary: a k)
  case (Cons x xs)
  then show ?case by (cases k) auto
qed simp

lemma ring_succ:
  assumes "klist h g xs" "k < length (g # xs)"
  shows "lnext h ((g # xs) ! k) = (g # xs) ! ((k + 1) mod length (g # xs))"
proof -
  have "lnext h ((g # xs) ! k) = (xs @ [g]) ! k" using assms by (intro chain_succ [of _ "lprev h"]) (auto simp: ring_def)
  also have "\<dots> = (g # xs) ! ((k + 1) mod length (g # xs))" using assms(2) by (cases "k = length xs") (auto simp: nth_append)
  finally show ?thesis .
qed

text \<open>C29: Start the program with any callbacks whose \<open>preempt_disable\<close> and \<open>preempt_enable\<close>
  calls are balanced, and let timer signals interrupt it at any moment.  Then no freed
  task is ever touched, SIGALRM is unblocked whenever a thread runs, and both the timer
  handler and the running thread can always take their next step; what each task has
  done is a prefix of its callback.  When \<open>main\<close> has left its loop, every task has run
  its callback to the end and has been freed.\<close>

theorem sched_correct:
  assumes bal: "\<forall>p \<in> set ps. bal 0 p" and run: "sstep\<^sup>*\<^sup>* (sched_start ps) s"
  shows "\<not> crashed s \<and> \<not> alarm_blocked s \<and> (\<exists>s'. thread_step s = Some s') \<and> (pc s \<noteq> Done \<longrightarrow> (\<exists>s'. tick s = Some s')) \<and>
    (\<forall>i < length ps. prefix (done_ops s i) (ps ! i)) \<and>
    (pc s = Done \<longrightarrow> tasks s = (\<lambda>i. None) \<and> (\<forall>i < length ps. done_ops s i = ps ! i))"
proof -
  have I: "sinv ps s" by (rule steps_inv [OF run start_inv [OF bal]])
  then obtain ts rs where C: "common ps s ts rs" and al: "\<not> alarm_blocked s" and ex: "pc s \<in> {AtExit, Done} \<Longrightarrow> ts = [] \<and> rs = []"
    by (rule sinvE) blast
  have tr: "done_ops s i @ todo_ops s i = ps ! i" if "i < length ps" for i using C that by (simp add: common_def)
  have "tasks s = (\<lambda>i. None)" if "pc s = Done"
  proof -
    have "dom (tasks s) = {}" using C ex that by (simp add: common_def rings_def)
    then show ?thesis by auto
  qed
  moreover from this have "done_ops s i = ps ! i" if "pc s = Done" "i < length ps" for i
    using tr [OF that(2)] that(1) by (simp add: todo_ops_def)
  moreover have "prefix (done_ops s i) (ps ! i)" if "i < length ps" for i using tr [OF that] by (metis prefixI)
  ultimately show ?thesis using C al thread_step_inv [OF I] tick_inv [OF I] by (auto simp: common_def)
qed

text \<open>The three sorting tasks of \<open>main\<close>.\<close>

lemma sched_correct_witness:
  "\<not> crashed (sched_start [sort_ops, sort_ops, sort_ops]) \<and>
   (\<exists>s'. tick (sched_start [sort_ops, sort_ops, sort_ops]) = Some s')"
proof -
  have b: "\<forall>p \<in> set [sort_ops, sort_ops, sort_ops]. bal 0 p" by (simp add: sort_ops_def task_printf_def)
  show ?thesis using sched_correct [OF b rtranclp.rtrancl_refl] by (simp add: start_pc)
qed

text \<open>C30: The scheduler is round robin.  In every reachable state in which preemption
  is enabled, the timer switches to the thread that follows the current one on the
  ring of \<open>main\<close> and the unfinished tasks, and leaves the ring as it is; with
  preemption disabled it changes nothing.  Hence as many timer signals as there are
  threads reach every thread.\<close>

theorem sched_round_robin:
  assumes bal: "\<forall>p \<in> set ps. bal 0 p" and run: "sstep\<^sup>*\<^sup>* (sched_start ps) s" and pc: "pc s \<noteq> Done"
  shows "\<exists>ts s'. klist (slinks s) Main (map Task ts) \<and> (\<forall>i v. tasks s i = Some v \<longrightarrow> callback v \<noteq> [] \<longrightarrow> i \<in> set ts) \<and>
    tick s = Some s' \<and>
    (if preempt_count s = 0
     then klist (slinks s') Main (map Task ts) \<and>
       (\<exists>k < length (Main # map Task ts). task_current s = (Main # map Task ts) ! k \<and>
          task_current s' = (Main # map Task ts) ! ((k + 1) mod length (Main # map Task ts)))
     else s' = s)"
proof -
  have I: "sinv ps s" by (rule steps_inv [OF run start_inv [OF bal]])
  then obtain ts rs where C: "common ps s ts rs" and cur: "task_current s \<in> ring_of ts"
    by (rule sinvE) blast
  have k: "klist (slinks s) Main (map Task ts)" using C by (simp add: common_def rings_def)
  have work: "i \<in> set ts" if "tasks s i = Some v" "callback v \<noteq> []" for i v
  proof -
    have "i \<in> set ts \<union> set rs" using C that(1) by (auto simp: common_def rings_def)
    then show ?thesis using C that by (auto simp: common_def)
  qed
  obtain s' where s': "tick s = Some s'" "preempt_count s \<noteq> 0 \<longrightarrow> s' = s"
    "preempt_count s = 0 \<longrightarrow> task_current s' = lnext (slinks s) (task_current s) \<and> klist (slinks s') Main (map Task ts)"
    using tick_inv [OF I pc] k by blast
  have "task_current s \<in> set (Main # map Task ts)" using cur by auto
  then obtain n where n: "n < length (Main # map Task ts)" "task_current s = (Main # map Task ts) ! n" by (metis in_set_conv_nth)
  show ?thesis
  proof (intro exI conjI)
    show "if preempt_count s = 0 then klist (slinks s') Main (map Task ts) \<and>
       (\<exists>k < length (Main # map Task ts). task_current s = (Main # map Task ts) ! k \<and>
          task_current s' = (Main # map Task ts) ! ((k + 1) mod length (Main # map Task ts))) else s' = s"
      using s'(2,3) n ring_succ [OF k n(1)] by auto
  qed (use k work s'(1) in auto)
qed

text \<open>After its first two steps \<open>main\<close> can be interrupted; the first task is next.\<close>

lemma sched_round_robin_witness:
  "\<exists>s'. tick (main_step (main_step (sched_start [sort_ops, [Work]]))) = Some s' \<and> task_current s' = Task 0"
proof -
  let ?s = "sched_start [sort_ops, [Work]]"
  have b: "\<forall>p \<in> set [sort_ops, [Work]]. bal 0 p" by (simp add: sort_ops_def task_printf_def)
  have S: "rings ?s [0, 1] []" "task_current ?s = Main" "preempt_count ?s = 1" "pc ?s = AtTest"
    using start_state [of "[sort_ops, [Work]]" 2] start_pc by (auto simp: sched_start_def preempt_disable_def rings_def upt_rec)
  then have k: "klist (slinks ?s) Main (map Task [0, 1])" by (simp add: rings_def)
  then have pc1: "main_step ?s = ?s\<lparr>pc := AtEnable\<rparr>" using S list_empty_iff [OF k] by (simp add: main_step_def)
  then have pc2: "main_step (main_step ?s) = ?s\<lparr>pc := AtWait, preempt_count := 0\<rparr>" using S by (simp add: main_step_def preempt_enable_def)
  have "sstep ?s (main_step ?s)" "sstep (main_step ?s) (main_step (main_step ?s))"
    using S pc1 by (auto intro!: sstep.thread simp: thread_step_def)
  then have r: "sstep\<^sup>*\<^sup>* ?s (main_step (main_step ?s))" by simp
  obtain ts s' where t: "klist (slinks ?s) Main (map Task ts)" "tick (main_step (main_step ?s)) = Some s'"
    "\<exists>k < length (Main # map Task ts). Main = (Main # map Task ts) ! k \<and>
       task_current s' = (Main # map Task ts) ! ((k + 1) mod length (Main # map Task ts))"
    using sched_round_robin [OF b r] S pc2 by auto
  have "ts = [0, 1]" using ring_unique [OF t(1) k] by (metis list.inj_map_strong tnode.inject)
  with t(3) have "task_current s' = Task 0" by (auto simp: nth_Cons' less_Suc_eq split: if_splits)
  then show ?thesis using t(2) by blast
qed

end
