(* ===== verification/Cmp32.thy ===== *)
theory Cmp32
  imports Prelude
begin

text \<open>
  The comparison and the pseudo-random step of the sorting tasks in
  \<open>user-level-thread/task_sched.c\<close>: \<open>cmp_u32\<close> isolates the highest differing bit,
  \<open>random_shuffle\<close> is an invertible mixing function.
\<close>

definition cmp_u32 :: "u32 \<Rightarrow> u32 \<Rightarrow> int" where
  "cmp_u32 x y =
     (let diff = x XOR y in
      if diff = 0 then 0
      else let diff = diff OR drop_bit 1 diff;
               diff = diff OR drop_bit 2 diff;
               diff = diff OR drop_bit 4 diff;
               diff = diff OR drop_bit 8 diff;
               diff = diff OR drop_bit 16 diff;
               diff = diff XOR drop_bit 1 diff
           in if x AND diff \<noteq> 0 then 1 else - 1)"

definition random_shuffle :: "u32 \<Rightarrow> u32" where
  "random_shuffle x =
     (let x = x XOR drop_bit 16 x;
          x = x * 0x7feb352d;
          x = x XOR drop_bit 15 x;
          x = x * 0x846ca68b
      in x XOR drop_bit 16 x)"

section \<open>The highest bit\<close>

text \<open>After \<open>k\<close> doublings bit \<open>n\<close> says whether one of the \<open>2 ^ k\<close> bits from \<open>n\<close> on was set.\<close>

lemma smear_step:
  assumes "\<And>n. bit d n \<longleftrightarrow> (\<exists>m. n \<le> m \<and> m < n + w \<and> bit (x :: u32) m)" "v = w + w"
  shows "bit (d OR drop_bit w d) n \<longleftrightarrow> (\<exists>m. n \<le> m \<and> m < n + v \<and> bit x m)"
proof -
  have "bit (d OR drop_bit w d) n \<longleftrightarrow> (\<exists>m. n \<le> m \<and> m < n + w \<and> bit x m) \<or> (\<exists>m. n + w \<le> m \<and> m < n + v \<and> bit x m)"
    using assms by (simp add: bit_or_iff bit_drop_bit_eq add_ac)
  moreover have "n \<le> m \<and> m < n + v \<longleftrightarrow> n \<le> m \<and> m < n + w \<or> n + w \<le> m \<and> m < n + v" for m using assms(2) by auto
  ultimately show ?thesis by blast
qed

definition smear :: "u32 \<Rightarrow> u32" where
  "smear diff =
     (let diff = diff OR drop_bit 1 diff;
          diff = diff OR drop_bit 2 diff;
          diff = diff OR drop_bit 4 diff;
          diff = diff OR drop_bit 8 diff
      in diff OR drop_bit 16 diff)"

lemma bit_smear: "bit (smear x) n \<longleftrightarrow> (\<exists>m \<ge> n. bit x m)"
proof -
  have s0: "bit x n \<longleftrightarrow> (\<exists>m. n \<le> m \<and> m < n + 1 \<and> bit x m)" for n by (auto simp: le_less_Suc_eq)
  note s1 = smear_step [OF s0, of 2]
  note s2 = smear_step [OF s1, of 4]
  note s3 = smear_step [OF s2, of 8]
  note s4 = smear_step [OF s3, of 16]
  note s5 = smear_step [OF s4, of 32]
  have "bit (smear x) n \<longleftrightarrow> (\<exists>m. n \<le> m \<and> m < n + 32 \<and> bit x m)" unfolding smear_def Let_def by (rule s5) simp_all
  also have "\<dots> \<longleftrightarrow> (\<exists>m \<ge> n. bit x m)" 
  proof -
    have "m < n + 32" if "bit x m" for m using bit_imp_le_length [OF that] by simp
    then show ?thesis by blast
  qed
  finally show ?thesis .
qed

lemma highest_bit:
  assumes "x \<noteq> 0"
  obtains k where "bit (x :: u32) k" "\<And>m. k < m \<Longrightarrow> \<not> bit x m" "smear x XOR drop_bit 1 (smear x) = 2 ^ k"
proof -
  from assms obtain j where j: "bit x j" by (auto simp: bit_eq_iff)
  define k where "k = Max {m. bit x m}"
  have fin: "finite {m. bit x m}" by (rule finite_subset [of _ "{..<32}"]) (use bit_imp_le_length [of x] in auto)
  then have k: "bit x k" "\<And>m. k < m \<Longrightarrow> \<not> bit x m"
    using Max_in [OF fin] Max_ge [OF fin] j by (auto simp: k_def not_le [symmetric])
  have "smear x XOR drop_bit 1 (smear x) = 2 ^ k"
  proof (rule bit_word_eqI)
    fix n assume n: "n < LENGTH(32)"
    have "(\<exists>m \<ge> n. bit x m) \<longleftrightarrow> n \<le> k" "(\<exists>m \<ge> Suc n. bit x m) \<longleftrightarrow> Suc n \<le> k" using k by (meson le_trans not_less)+
    then show "bit (smear x XOR drop_bit 1 (smear x)) n = bit (2 ^ k :: u32) n"
      using n by (auto simp: bit_xor_iff bit_drop_bit_eq bit_smear bit_exp_iff)
  qed
  with k show thesis using that by blast
qed

text \<open>Two numbers that agree above bit \<open>k\<close> are ordered by bit \<open>k\<close>.\<close>

lemma less_at_bit_nat:
  fixes a b :: nat
  assumes "\<not> bit a k" "bit b k" "drop_bit (Suc k) a = drop_bit (Suc k) b"
  shows "a < b"
proof -
  have "take_bit (Suc k) a = take_bit k a" "take_bit (Suc k) b = 2 ^ k + take_bit k b"
    using assms(1,2) by (simp_all add: take_bit_Suc_from_most)
  moreover have "take_bit k a < 2 ^ k" by (rule take_bit_nat_less_exp)
  ultimately have "take_bit (Suc k) a < take_bit (Suc k) b" by linarith
  then show ?thesis using bits_ident [of "Suc k" a] bits_ident [of "Suc k" b] assms(3) by (metis nat_add_left_cancel_less)
qed

lemma less_at_bit:
  assumes "\<not> bit x k" "bit y k" "\<And>m. k < m \<Longrightarrow> bit x m = bit (y :: u32) m"
  shows "x < y"
proof -
  have b: "bit (unat w) n \<longleftrightarrow> bit w n" for w :: u32 and n by (simp add: bit_unsigned_iff)
  have "drop_bit (Suc k) (unat x) = drop_bit (Suc k) (unat y)"
    by (rule bit_eqI) (simp add: bit_drop_bit_eq b assms(3))
  from less_at_bit_nat [OF _ _ this] show ?thesis using assms(1,2) b by (simp add: word_less_nat_alt)
qed

section \<open>Mixing\<close>

lemma inj_xor_shift: "0 < k \<Longrightarrow> inj (\<lambda>x :: u32. x XOR drop_bit k x)"
proof (rule injI)
  fix x y :: u32 assume k: "0 < k" and eq: "x XOR drop_bit k x = y XOR drop_bit k y"
  have "bit x n = bit y n" for n
  proof (induction "32 - n" arbitrary: n rule: less_induct)
    case less
    show ?case
    proof (cases "n < 32")
      case True
      then have "bit x (k + n) = bit y (k + n)" using k by (intro less) simp
      then show ?thesis using arg_cong [OF eq, of "\<lambda>w. bit w n"] by (auto simp: bit_xor_iff bit_drop_bit_eq)
    qed (use bit_imp_le_length [of x n] bit_imp_le_length [of y n] in auto)
  qed
  then show "x = y" by (intro bit_word_eqI)
qed

lemma inj_mult_odd:
  assumes "a * b = (1 :: u32)"
  shows "inj (\<lambda>x. x * a)"
proof (rule injI)
  fix x y assume "x * a = y * a"
  then have "x * a * b = y * a * b" by simp
  then show "x = y" using assms by (simp add: mult.assoc)
qed

lemma random_shuffle_bij: "bij random_shuffle"
proof -
  have a: "(0x7feb352d :: u32) * 0x1d69e2a5 = 1" "(0x846ca68b :: u32) * 0x43021123 = 1" by simp_all
  have e: "random_shuffle = (\<lambda>x. x XOR drop_bit 16 x) \<circ> (\<lambda>x. x * 0x846ca68b) \<circ> (\<lambda>x. x XOR drop_bit 15 x) \<circ>
      (\<lambda>x. x * 0x7feb352d) \<circ> (\<lambda>x. x XOR drop_bit 16 x)" by (simp add: random_shuffle_def Let_def fun_eq_iff)
  have "inj random_shuffle"
    unfolding e by (intro inj_compose inj_xor_shift inj_mult_odd [OF a(1)] inj_mult_odd [OF a(2)]) simp_all
  then show ?thesis by (simp add: bij_def finite_UNIV_inj_surj)
qed

lemma cmp_u32_smear:
  "cmp_u32 x y = (if x XOR y = 0 then 0 else if x AND (smear (x XOR y) XOR drop_bit 1 (smear (x XOR y))) \<noteq> 0 then 1 else - 1)"
  by (simp only: cmp_u32_def smear_def Let_def)

section \<open>Property\<close>

text \<open>\<open>cmp_u32\<close> compares unsigned numbers: its sign is the order of the two arguments,
  for all of them; and \<open>random_shuffle\<close> is a permutation of the 32-bit numbers.\<close>

theorem cmp_u32_correct:
  "cmp_u32 x y = (if x = y then 0 else if x < y then - 1 else 1) \<and> bij random_shuffle"
proof (cases "x = y")
  case True
  then show ?thesis using random_shuffle_bij by (simp add: cmp_u32_def)
next
  case False
  then have "x XOR y \<noteq> 0" by (auto simp: bit_eq_iff bit_xor_iff)
  then obtain k where k: "bit (x XOR y) k" "\<And>m. k < m \<Longrightarrow> \<not> bit (x XOR y) m"
    "smear (x XOR y) XOR drop_bit 1 (smear (x XOR y)) = 2 ^ k" by (rule highest_bit) blast
  have "cmp_u32 x y = (if x AND 2 ^ k \<noteq> 0 then 1 else - 1)"
    unfolding cmp_u32_smear k(3) using \<open>x XOR y \<noteq> 0\<close> by (rule if_not_P)
  moreover have "x AND 2 ^ k \<noteq> 0 \<longleftrightarrow> bit x k" by (simp add: bit_iff_and_push_bit_not_eq_0)
  moreover have "x < y \<longleftrightarrow> \<not> bit x k"
    using less_at_bit [of x k y] less_at_bit [of y k x] k by (auto simp: bit_xor_iff)
  ultimately show ?thesis using False random_shuffle_bij by simp
qed

end
