(* ===== verification/Xor_List.thy ===== *)
theory Xor_List
  imports Prelude "HOL-Library.Monad_Syntax"
begin

text \<open>
  The XOR linked list of \<open>xor-linkedlist\<close>: each node stores the exclusive or of the
  addresses of its two neighbours.  The memory maps addresses, 64-bit words with 0
  for NULL, to nodes; an access to NULL or to a freed node, and a loop that does not
  end, are \<open>None\<close>.
\<close>

unbundle bit_operations_syntax

record xnode =
  ndata :: int
  naddr :: u64

type_synonym xmem = "u64 \<Rightarrow> xnode option"

text \<open>\<open>p->addr\<close>, \<open>p->data\<close> and the assignment \<open>p->addr = a\<close>.\<close>

definition addr_of :: "xmem \<Rightarrow> u64 \<Rightarrow> u64 option" where
  "addr_of h p = (if p = 0 then None else map_option naddr (h p))"

definition data_of :: "xmem \<Rightarrow> u64 \<Rightarrow> int option" where
  "data_of h p = (if p = 0 then None else map_option ndata (h p))"

definition set_addr :: "u64 \<Rightarrow> u64 \<Rightarrow> xmem \<Rightarrow> xmem option" where
  "set_addr p a h = (if p = 0 then None else do { n \<leftarrow> h p; Some (h(p \<mapsto> n\<lparr>naddr := a\<rparr>)) })"

section \<open>Building and deleting\<close>

text \<open>\<open>tmp\<close> is the address \<open>malloc\<close> returns.\<close>

definition insert_node :: "u64 \<Rightarrow> u64 \<Rightarrow> int \<Rightarrow> xmem \<Rightarrow> (u64 \<times> xmem) option" where
  "insert_node tmp l d h =
     (if tmp = 0 then None
      else do {
        let h = h(tmp \<mapsto> \<lparr>ndata = d, naddr = 0\<rparr>);
        if l = 0 then Some (tmp, h)
        else do {
          a \<leftarrow> addr_of h l;
          h \<leftarrow> set_addr l (tmp XOR a) h;
          h \<leftarrow> set_addr tmp l h;
          Some (tmp, h) } })"

fun create_list :: "u64 list \<Rightarrow> int list \<Rightarrow> u64 \<Rightarrow> xmem \<Rightarrow> (u64 \<times> xmem) option" where
  "create_list (tmp # tmps) (d # ds) ret h = do { (ret, h) \<leftarrow> insert_node tmp ret d h; create_list tmps ds ret h }"
| "create_list _ [] ret h = Some (ret, h)"
| "create_list [] (d # ds) ret h = None"

partial_function (option) delete_list :: "u64 \<Rightarrow> xmem \<Rightarrow> xmem option" where
  "delete_list l h =
     (if l = 0 then Some h
      else do {
        next \<leftarrow> addr_of h l;
        h \<leftarrow> (if next \<noteq> 0 then do { a \<leftarrow> addr_of h next; set_addr next (a XOR l) h } else Some h);
        delete_list next (h(l := None)) })"

section \<open>Splitting\<close>

partial_function (option) half_loop ::
    "xmem \<Rightarrow> u64 \<Rightarrow> u64 \<Rightarrow> u64 \<Rightarrow> u64 \<Rightarrow> nat \<Rightarrow> (u64 \<times> u64 \<times> nat) option" where
  "half_loop h head prev fast fast_next sz =
     (if fast \<noteq> 0 \<and> fast_next \<noteq> 0 then
        do { let tmp = head;
             a \<leftarrow> addr_of h head;
             let head = a XOR prev;
             let prev = tmp;
             b \<leftarrow> addr_of h fast_next;
             let fast = b XOR fast;
             fast_next \<leftarrow> (if fast \<noteq> 0 then do { c \<leftarrow> addr_of h fast; Some (c XOR fast_next) } else Some fast_next);
             half_loop h head prev fast fast_next (sz + 1) }
      else Some (head, prev, sz))"

definition to_half :: "u64 \<Rightarrow> xmem \<Rightarrow> (u64 \<times> nat \<times> xmem) option" where
  "to_half head h =
     do { fast_next \<leftarrow> addr_of h head;
          (head, prev, sz) \<leftarrow> half_loop h head 0 head fast_next 0;
          a \<leftarrow> addr_of h prev;
          h \<leftarrow> set_addr prev (a XOR head) h;
          b \<leftarrow> addr_of h head;
          h \<leftarrow> set_addr head (b XOR prev) h;
          Some (head, sz, h) }"

section \<open>Insertion sort\<close>

text \<open>The inner loop: walk back to the place of \<open>target\<close>.\<close>

partial_function (option) place_loop :: "xmem \<Rightarrow> u64 \<Rightarrow> u64 \<Rightarrow> u64 \<Rightarrow> (u64 \<times> u64) option" where
  "place_loop h target pos prev =
     (if pos \<noteq> 0 \<and> target \<noteq> 0 then
        do { x \<leftarrow> data_of h pos;
             y \<leftarrow> data_of h target;
             if x > y then
               do { let tmp = pos;
                    a \<leftarrow> addr_of h pos;
                    place_loop h target (a XOR prev) tmp }
             else Some (pos, prev) }
      else Some (pos, prev))"

definition xor_into :: "u64 \<Rightarrow> u64 \<Rightarrow> u64 \<Rightarrow> xmem \<Rightarrow> xmem option" where
  "xor_into p x y h = do { a \<leftarrow> addr_of h p; set_addr p ((a XOR x) XOR y) h }"

text \<open>Linking \<open>target\<close> between \<open>pos\<close> and \<open>prev\<close>; the result is the new \<open>head\<close>.\<close>

definition link_target :: "u64 \<Rightarrow> u64 \<Rightarrow> u64 \<Rightarrow> u64 \<Rightarrow> xmem \<Rightarrow> (u64 \<times> xmem) option" where
  "link_target head target pos prev h =
     (if pos = 0 then
        do { h \<leftarrow> set_addr target prev h;
             a \<leftarrow> addr_of h prev;
             h \<leftarrow> set_addr prev (a XOR target) h;
             Some (target, h) }
      else
        do { h \<leftarrow> xor_into pos prev target h;
             h \<leftarrow> xor_into prev pos target h;
             h \<leftarrow> set_addr target (pos XOR prev) h;
             Some (head, h) })"

partial_function (option) insertion_loop :: "u64 \<Rightarrow> u64 \<Rightarrow> u64 \<Rightarrow> xmem \<Rightarrow> (u64 \<times> xmem) option" where
  "insertion_loop head srt sorted_prev h =
     (if srt = 0 then Some (head, h)
      else do {
        a \<leftarrow> addr_of h srt;
        let target = a XOR sorted_prev;
        (pos, prev) \<leftarrow> place_loop h target srt target;
        if srt \<noteq> pos then
          do { b \<leftarrow> addr_of h target;
               let next = b XOR srt;
               h \<leftarrow> xor_into srt target next h;
               (head, h) \<leftarrow> link_target head target pos prev h;
               if next = 0 then Some (head, h)
               else do {
                 h \<leftarrow> xor_into next target srt h;
                 c \<leftarrow> addr_of h srt;
                 insertion_loop head srt (c XOR next) h } }
        else insertion_loop head (a XOR sorted_prev) srt h })"

definition insertion_sort :: "u64 \<Rightarrow> xmem \<Rightarrow> (u64 \<times> xmem) option" where
  "insertion_sort head h =
     (if head = 0 then Some (head, h)
      else do { a \<leftarrow> addr_of h head; if a = 0 then Some (head, h) else insertion_loop head head 0 h })"

section \<open>Merge sort\<close>

text \<open>Moving the first node of one list to the end of the merged one; the two branches of the loop.\<close>

definition merge_take :: "u64 \<Rightarrow> u64 \<Rightarrow> xmem \<Rightarrow> (u64 \<times> xmem) option" where
  "merge_take merge left h =
     do { next \<leftarrow> addr_of h left;
          h \<leftarrow> (if next \<noteq> 0 then do { a \<leftarrow> addr_of h next; set_addr next (left XOR a) h } else Some h);
          h \<leftarrow> (if merge = 0 then set_addr left 0 h
                else do { a \<leftarrow> addr_of h merge; h \<leftarrow> set_addr merge (a XOR left) h; set_addr left merge h });
          Some (next, h) }"

partial_function (option) merge_loop :: "u64 \<Rightarrow> u64 \<Rightarrow> u64 \<Rightarrow> u64 \<Rightarrow> xmem \<Rightarrow> (u64 \<times> xmem) option" where
  "merge_loop start merge left right h =
     (if left \<noteq> 0 \<or> right \<noteq> 0 then
        do { from_left \<leftarrow> (if right = 0 then Some True
                          else if left = 0 then Some False
                          else do { x \<leftarrow> data_of h left; y \<leftarrow> data_of h right; Some (x < y) });
             if from_left then
               do { (next, h) \<leftarrow> merge_take merge left h;
                    merge_loop (if merge = 0 then left else start) left next right h }
             else
               do { (next, h) \<leftarrow> merge_take merge right h;
                    merge_loop (if merge = 0 then right else start) right left next h } }
      else Some (start, h))"

partial_function (option) merge_sort :: "u64 \<Rightarrow> nat \<Rightarrow> xmem \<Rightarrow> (u64 \<times> xmem) option" where
  "merge_sort start min_split_size h =
     (if start = 0 then Some (start, h)
      else do {
        a \<leftarrow> addr_of h start;
        if a = 0 then Some (start, h)
        else if min_split_size = 0 then insertion_sort start h
        else do {
          (right, sz, h) \<leftarrow> to_half start h;
          let min_split_size = (if sz \<le> min_split_size then 0 else min_split_size);
          (left, h) \<leftarrow> merge_sort start min_split_size h;
          (right, h) \<leftarrow> merge_sort right min_split_size h;
          merge_loop start 0 left right h } })"

section \<open>The unit test\<close>

text \<open>The comparison with the sorted array; \<open>False\<close> when the test calls \<open>exit(1)\<close>.  The
  numbers are small enough that the difference in \<open>cmp\<close> does not overflow, so
  \<open>qsort\<close> sorts.\<close>

fun check_walk :: "xmem \<Rightarrow> int list \<Rightarrow> u64 \<Rightarrow> u64 \<Rightarrow> bool option" where
  "check_walk h [] cur prev = Some (cur = 0)"
| "check_walk h (r # rs) cur prev =
     (if cur = 0 then Some False
      else do { d \<leftarrow> data_of h cur;
                if r \<noteq> d then Some False
                else do { a \<leftarrow> addr_of h cur; check_walk h rs (a XOR prev) cur } })"

definition check_sorted :: "u64 \<Rightarrow> int list \<Rightarrow> xmem \<Rightarrow> bool option" where
  "check_sorted head result h = check_walk h (sort result) head 0"

text \<open>One round of \<open>check\<close>, \<open>randomcheck\<close> and \<open>ramping\<close>: build, sort, compare, delete.  The
  comparison leaves the array sorted.\<close>

definition check_round :: "nat \<Rightarrow> u64 list \<Rightarrow> int list \<Rightarrow> xmem \<Rightarrow> (bool \<times> int list \<times> xmem) option" where
  "check_round split_size tmps x h =
     do { (data, h) \<leftarrow> create_list tmps x 0 h;
          (data, h) \<leftarrow> merge_sort data split_size h;
          ok \<leftarrow> check_sorted data x h;
          h \<leftarrow> delete_list data h;
          Some (ok, sort x, h) }"

end
