(* ===== verification/Xor_List_Spec.thy ===== *)
theory Xor_List_Spec
  imports Xor_List "HOL-Library.Multiset"
begin

text \<open>
  Merge sort on the XOR list sorts: \<open>xseg h a xs b\<close> says that the nodes \<open>xs\<close> are
  linked in this order between the neighbours \<open>a\<close> and \<open>b\<close>.  Each operation names
  the nodes it may relink; data never changes.
\<close>

section \<open>Memory\<close>

definition relink :: "u64 \<Rightarrow> u64 \<Rightarrow> xmem \<Rightarrow> xmem" where
  "relink p a h = (case h p of None \<Rightarrow> h | Some n \<Rightarrow> if p = 0 then h else h(p \<mapsto> n\<lparr>naddr := a\<rparr>))"

lemma addr_of_relink [simp]: "addr_of (relink p a h) q = (if q = p then map_option (\<lambda>_. a) (addr_of h p) else addr_of h q)"
  by (auto simp: addr_of_def relink_def split: option.splits)

lemma data_of_relink [simp]: "data_of (relink p a h) = data_of h"
  by (auto simp: data_of_def relink_def fun_eq_iff split: option.splits)

lemma set_addr_relink: "set_addr p a h = (if addr_of h p = None then None else Some (relink p a h))"
  by (auto simp: addr_of_def set_addr_def relink_def split: option.splits)

lemma xor_into_relink: "xor_into p x y h = (case addr_of h p of None \<Rightarrow> None | Some a \<Rightarrow> Some (relink p ((a XOR x) XOR y) h))"
  by (auto simp: xor_into_def set_addr_relink split: option.splits)

lemma addr_of_nz: "addr_of h p = Some b \<Longrightarrow> p \<noteq> 0"
  by (auto simp: addr_of_def split: if_splits)

lemma addr_data: "addr_of h p = Some b \<Longrightarrow> \<exists>d. data_of h p = Some d"
  by (auto simp: addr_of_def data_of_def split: if_splits)

text \<open>Only the links of the nodes in \<open>S\<close> have changed.\<close>

definition xframe :: "u64 set \<Rightarrow> xmem \<Rightarrow> xmem \<Rightarrow> bool" where
  "xframe S h h' \<longleftrightarrow> (\<forall>q. q \<notin> S \<longrightarrow> h' q = h q) \<and> data_of h' = data_of h \<and> dom h' = dom h"

lemma xframe_refl [simp]: "xframe S h h"
  by (simp add: xframe_def)

lemma xframe_trans: "xframe S h h1 \<Longrightarrow> xframe T h1 h2 \<Longrightarrow> S \<subseteq> U \<Longrightarrow> T \<subseteq> U \<Longrightarrow> xframe U h h2"
  unfolding xframe_def by (simp add: subset_iff) metis

lemma xframe_mono: "xframe S h h' \<Longrightarrow> S \<subseteq> T \<Longrightarrow> xframe T h h'"
  by (auto simp: xframe_def)

lemma xframe_addr: "xframe S h h' \<Longrightarrow> q \<notin> S \<Longrightarrow> addr_of h' q = addr_of h q"
  by (simp add: xframe_def addr_of_def)

lemma xframe_data: "xframe S h h' \<Longrightarrow> data_of h' = data_of h"
  by (simp add: xframe_def)

lemma dom_relink [simp]: "dom (relink p a h) = dom h"
  by (auto simp: relink_def split: option.splits)

lemma xframe_relink [simp]: "xframe S h h1 \<Longrightarrow> p \<in> S \<Longrightarrow> xframe S h (relink p a h1)"
  by (auto simp: xframe_def) (auto simp: relink_def split: option.splits)

section \<open>Segments\<close>

fun nxt :: "u64 list \<Rightarrow> u64 \<Rightarrow> u64" where
  "nxt [] b = b"
| "nxt (x # xs) b = x"

fun lst :: "u64 \<Rightarrow> u64 list \<Rightarrow> u64" where
  "lst a [] = a"
| "lst a (x # xs) = lst x xs"

lemma nxt_append [simp]: "nxt (xs @ ys) b = nxt xs (nxt ys b)"
  by (cases xs) simp_all

lemma lst_append [simp]: "lst a (xs @ ys) = lst (lst a xs) ys"
  by (induction xs arbitrary: a) simp_all

lemma nxt_nth: "nxt xs b = (xs @ [b]) ! 0"
  by (cases xs) simp_all

lemma lst_in: "xs \<noteq> [] \<Longrightarrow> lst a xs \<in> set xs"
  by (cases xs rule: rev_cases) simp_all

fun xseg :: "xmem \<Rightarrow> u64 \<Rightarrow> u64 list \<Rightarrow> u64 \<Rightarrow> bool" where
  "xseg h a [] b \<longleftrightarrow> True"
| "xseg h a (x # xs) b \<longleftrightarrow> addr_of h x = Some (a XOR nxt xs b) \<and> xseg h x xs b"

lemma xseg_append [simp]: "xseg h a (xs @ ys) b \<longleftrightarrow> xseg h a xs (nxt ys b) \<and> xseg h (lst a xs) ys b"
  by (induction xs arbitrary: a) auto

lemma xseg_cong: "(\<And>x. x \<in> set xs \<Longrightarrow> addr_of h' x = addr_of h x) \<Longrightarrow> xseg h' a xs b = xseg h a xs b"
  by (induction xs arbitrary: a) auto

lemma xseg_frame: "xseg h a xs b \<Longrightarrow> xframe S h h' \<Longrightarrow> S \<inter> set xs = {} \<Longrightarrow> xseg h' a xs b"
  using xseg_cong [of xs h' h a b] xframe_addr [of S h h'] by blast

lemma xseg_relink [simp]: "p \<notin> set xs \<Longrightarrow> xseg (relink p v h) a xs b = xseg h a xs b"
  by (rule xseg_cong) auto

lemma xseg_addr: "xseg h a xs b \<Longrightarrow> x \<in> set xs \<Longrightarrow> \<exists>c. addr_of h x = Some c"
  by (induction xs arbitrary: a) auto

lemma xseg_nz: "xseg h a xs b \<Longrightarrow> 0 \<notin> set xs"
  using xseg_addr addr_of_nz by fast

lemma xseg_nth:
  "xseg h a xs b \<Longrightarrow> i < length xs \<Longrightarrow> addr_of h (xs ! i) = Some ((a # xs) ! i XOR (xs @ [b]) ! Suc i)"
proof (induction xs arbitrary: a i)
  case (Cons x xs)
  then show ?case by (cases i) (auto simp: nxt_nth)
qed simp

lemma xor_cancel [simp]: "(a XOR b) XOR b = (a :: u64)" "(a XOR b) XOR a = b" "a XOR (b XOR a) = b"
  by (simp_all add: xor.assoc xor.commute xor.left_commute)

definition xlist :: "xmem \<Rightarrow> u64 list \<Rightarrow> bool" where
  "xlist h xs \<longleftrightarrow> xseg h 0 xs 0 \<and> distinct xs"

section \<open>Splitting\<close>

lemma half_loop_correct:
  assumes X: "xseg h 0 xs 0"
  shows "2 * k \<le> length xs \<Longrightarrow> fast = (if 2 * k < length xs then xs ! (2 * k) else 0) \<Longrightarrow>
    (2 * k < length xs \<Longrightarrow> fn = (xs @ [0]) ! Suc (2 * k)) \<Longrightarrow>
    half_loop h ((xs @ [0]) ! k) ((0 # xs) ! k) fast fn k =
      Some ((xs @ [0]) ! (length xs div 2), (0 # xs) ! (length xs div 2), length xs div 2)"
proof (induction "length xs div 2 - k" arbitrary: k fast fn)
  case 0
  then have k: "k = length xs div 2" by simp
  have "\<not> (fast \<noteq> 0 \<and> fn \<noteq> 0)" using 0(3,4) k by (auto simp: nth_append)
  then show ?case using k by (subst half_loop.simps) auto
next
  case (Suc m)
  then have k: "Suc (2 * k) < length xs" by linarith
  have nz: "xs ! i \<noteq> 0" if "i < length xs" for i using xseg_nz [OF X] that by (metis nth_mem)
  have f: "fast = xs ! (2 * k)" "fn = xs ! Suc (2 * k)" using Suc.prems k by (simp_all add: nth_append)
  have a: "addr_of h (xs ! k) = Some ((0 # xs) ! k XOR (xs @ [0]) ! Suc k)" using xseg_nth [OF X] k by simp
  have b: "addr_of h fn = Some (fast XOR (xs @ [0]) ! (2 * Suc k))" using xseg_nth [OF X k] k f by simp
  let ?fast = "(xs @ [0]) ! (2 * Suc k)"
  have fe: "?fast = (if 2 * Suc k < length xs then xs ! (2 * Suc k) else 0)" using k by (auto simp: nth_append)
  have c: "addr_of h ?fast = Some (fn XOR (xs @ [0]) ! Suc (2 * Suc k))" if "2 * Suc k < length xs"
    using xseg_nth [OF X that] that f by (simp add: nth_append)
  let ?fn = "if ?fast \<noteq> 0 then (xs @ [0]) ! Suc (2 * Suc k) else fn"
  have "half_loop h ((xs @ [0]) ! k) ((0 # xs) ! k) fast fn k = half_loop h ((xs @ [0]) ! Suc k) ((0 # xs) ! Suc k) ?fast ?fn (Suc k)"
  proof (cases "2 * Suc k < length xs")
    case True
    then show ?thesis using f nz [of "2 * k"] nz [of "Suc (2 * k)"] nz [OF True] a b c [OF True] k fe
      by (subst half_loop.simps) (simp add: nth_append Let_def)
  next
    case False
    then show ?thesis using f nz [of "2 * k"] nz [of "Suc (2 * k)"] a b k fe
      by (subst half_loop.simps) (simp add: nth_append Let_def)
  qed
  also have "\<dots> = Some ((xs @ [0]) ! (length xs div 2), (0 # xs) ! (length xs div 2), length xs div 2)"
  proof (rule Suc.hyps(1))
    show "?fn = (xs @ [0]) ! Suc (2 * Suc k)" if "2 * Suc k < length xs" using that fe nz [OF that] by simp
  qed (use Suc.hyps(2) k fe in auto)
  finally show ?case .
qed

lemma cut_correct:
  assumes X: "xlist h (ys @ p # q # zs)"
  shows "\<exists>a b h1 h2. addr_of h p = Some a \<and> set_addr p (a XOR q) h = Some h1 \<and> addr_of h1 q = Some b \<and>
    set_addr q (b XOR p) h1 = Some h2 \<and> xlist h2 (ys @ [p]) \<and> xlist h2 (q # zs) \<and> xframe {p, q} h h2"
proof -
  have s: "xseg h 0 ys p" "addr_of h p = Some (lst 0 ys XOR q)" "addr_of h q = Some (p XOR nxt zs 0)" "xseg h q zs 0"
    using X by (auto simp: xlist_def)
  let ?h2 = "relink q (nxt zs 0) (relink p (lst 0 ys) h)"
  have "xlist ?h2 (ys @ [p])" "xlist ?h2 (q # zs)" using X s by (auto simp: xlist_def)
  then show ?thesis using s X by (auto simp: set_addr_relink xlist_def)
qed

lemma to_half_correct:
  assumes X: "xlist h xs" and n: "2 \<le> length xs"
  shows "\<exists>h'. to_half (nxt xs 0) h = Some (xs ! (length xs div 2), length xs div 2, h') \<and>
    xlist h' (take (length xs div 2) xs) \<and> xlist h' (drop (length xs div 2) xs) \<and> xframe (set xs) h h'"
proof -
  let ?k = "length xs div 2"
  have k: "0 < ?k" "?k < length xs" using n by auto
  define ys where "ys = take (?k - 1) xs"
  define p where "p = xs ! (?k - 1)"
  define q where "q = xs ! ?k"
  define zs where "zs = drop (Suc ?k) xs"
  have tk: "take ?k xs = ys @ [p]" using k take_Suc_conv_app_nth [of "?k - 1" xs] by (simp add: ys_def p_def)
  have dk: "drop ?k xs = q # zs" using k by (simp add: q_def zs_def Cons_nth_drop_Suc)
  have xs: "xs = ys @ p # q # zs" using append_take_drop_id [of ?k xs] tk dk by simp
  from cut_correct [of h ys p q zs] X xs obtain a b h1 h2 where c: "addr_of h p = Some a" "set_addr p (a XOR q) h = Some h1"
    "addr_of h1 q = Some b" "set_addr q (b XOR p) h1 = Some h2" "xlist h2 (ys @ [p])" "xlist h2 (q # zs)" "xframe {p, q} h h2" by auto
  have seg: "xseg h 0 xs 0" using X by (simp add: xlist_def)
  have nn: "0 < length xs" by (rule less_le_trans [OF _ n]) simp
  have h0: "nxt xs 0 = xs ! 0" "(xs @ [0]) ! 0 = xs ! 0" using nn by (simp_all add: nxt_nth nth_append)
  have "addr_of h (xs ! 0) = Some ((xs @ [0]) ! 1)" using xseg_nth [OF seg nn] by simp
  moreover have "half_loop h ((xs @ [0]) ! 0) ((0 # xs) ! 0) (xs ! 0) ((xs @ [0]) ! 1) 0 = Some ((xs @ [0]) ! ?k, (0 # xs) ! ?k, ?k)"
    by (rule half_loop_correct [OF seg]) (use n in auto)
  moreover have "(xs @ [0]) ! ?k = q" "(0 # xs) ! ?k = p" using k by (simp_all add: q_def p_def nth_append nth_Cons')
  ultimately have "to_half (nxt xs 0) h = Some (q, ?k, h2)" using c(1-4) h0 by (simp add: to_half_def)
  moreover have "xframe (set xs) h h2" using xframe_mono [OF c(7)] xs by simp
  ultimately show ?thesis using c(5,6) unfolding tk dk q_def [symmetric] by blast
qed

section \<open>Merging\<close>

fun amerge :: "('a \<Rightarrow> 'b :: linorder) \<Rightarrow> 'a list \<Rightarrow> 'a list \<Rightarrow> 'a list" where
  "amerge f (x # xs) (y # ys) = (if f x < f y then x # amerge f xs (y # ys) else y # amerge f (x # xs) ys)"
| "amerge f xs [] = xs"
| "amerge f [] ys = ys"

lemma amerge_Nil [simp]: "amerge f [] ys = ys"
  by (cases ys) simp_all

lemma mset_amerge [simp]: "mset (amerge f xs ys) = mset xs + mset ys"
  by (induction f xs ys rule: amerge.induct) simp_all

lemma set_amerge [simp]: "set (amerge f xs ys) = set xs \<union> set ys"
  by (induction f xs ys rule: amerge.induct) auto

lemma sorted_amerge: "sorted (map f xs) \<Longrightarrow> sorted (map f ys) \<Longrightarrow> sorted (map f (amerge f xs ys))"
  by (induction f xs ys rule: amerge.induct) (auto simp: not_less intro: less_imp_le order_trans)

lemma merge_unlink:
  assumes X: "xseg h x ls 0" "distinct ls"
  shows "\<exists>h1. (if nxt ls 0 \<noteq> 0 then do { a \<leftarrow> addr_of h (nxt ls 0); set_addr (nxt ls 0) (x XOR a) h } else Some h) = Some h1 \<and>
    xseg h1 0 ls 0 \<and> xframe (set ls) h h1"
proof (cases ls)
  case (Cons y zs)
  then show ?thesis using X addr_of_nz [of h y] by (auto simp: set_addr_relink intro!: exI [of _ "relink y (nxt zs 0) h"])
qed simp

lemma merge_take_correct:
  assumes L: "xlist h (x # ls)" and M: "xlist h ms" and d: "x \<notin> set ms" "set ls \<inter> set ms = {}"
  shows "\<exists>h'. merge_take (lst 0 ms) x h = Some (nxt ls 0, h') \<and> xlist h' ls \<and> xlist h' (ms @ [x]) \<and>
    xframe (insert x (set ls \<union> set ms)) h h'"
proof -
  have s: "addr_of h x = Some (nxt ls 0)" "xseg h x ls 0" "x \<notin> set ls" "distinct ls" using L by (auto simp: xlist_def)
  obtain h1 where h1: "(if nxt ls 0 \<noteq> 0 then do { a \<leftarrow> addr_of h (nxt ls 0); set_addr (nxt ls 0) (x XOR a) h } else Some h) = Some h1"
    "xseg h1 0 ls 0" "xframe (set ls) h h1" using merge_unlink [OF s(2,4)] by auto
  have x1: "addr_of h1 x = Some (nxt ls 0)" using xframe_addr [OF h1(3) s(3)] s(1) by simp
  have m1: "xseg h1 0 ms 0" using M d(2) xseg_frame [OF _ h1(3)] by (auto simp: xlist_def)
  have f1: "xframe (insert x (set ls \<union> set ms)) h h1" by (rule xframe_mono [OF h1(3)]) blast
  show ?thesis
  proof (cases ms rule: rev_cases)
    case Nil
    have "merge_take (lst 0 ms) x h = Some (nxt ls 0, relink x 0 h1)"
      using s(1) h1(1) x1 Nil by (simp add: merge_take_def set_addr_relink)
    moreover have "xseg (relink x 0 h1) 0 ls 0" "xseg (relink x 0 h1) 0 (ms @ [x]) 0" using h1(2) s(3) x1 Nil by auto
    ultimately show ?thesis using s(4) Nil f1 by (auto simp: xlist_def)
  next
    case (snoc ns m)
    have m: "addr_of h1 m = Some (lst 0 ns)" "xseg h1 0 ns m" "m \<notin> set ns" "m \<noteq> x" "m \<notin> set ls" "m \<noteq> 0"
      using m1 M d snoc xseg_nz [OF m1] by (auto simp: xlist_def)
    let ?h3 = "relink x m (relink m (lst 0 ns XOR x) h1)"
    have "merge_take (lst 0 ms) x h = Some (nxt ls 0, ?h3)"
      using s(1) h1(1) m snoc x1 by (simp add: merge_take_def set_addr_relink)
    moreover have "xseg ?h3 0 ls 0" "xseg ?h3 0 (ms @ [x]) 0" using h1(2) s(3) m snoc d x1 by auto
    ultimately show ?thesis using s(4) M d snoc f1 by (auto simp: xlist_def)
  qed
qed

abbreviation dat :: "xmem \<Rightarrow> u64 \<Rightarrow> int" where
  "dat h x \<equiv> the (data_of h x)"

text \<open>What a sorting routine does to the list \<open>xs\<close>: it relinks the nodes of \<open>xs\<close> into a sorted order.\<close>

definition xsorted :: "u64 \<Rightarrow> u64 list \<Rightarrow> xmem \<Rightarrow> xmem \<Rightarrow> bool" where
  "xsorted p xs h h' \<longleftrightarrow> (\<exists>ys. p = nxt ys 0 \<and> xlist h' ys \<and> mset ys = mset xs \<and> sorted (map (dat h) ys)) \<and> xframe (set xs) h h'"

lemma xlist_dat: "xlist h xs \<Longrightarrow> x \<in> set xs \<Longrightarrow> data_of h x = Some (dat h x)"
  using xseg_addr [of h 0 xs 0 x] addr_data [of h x] by (auto simp: xlist_def)

lemma xlist_frame: "xlist h xs \<Longrightarrow> xframe S h h' \<Longrightarrow> S \<inter> set xs = {} \<Longrightarrow> xlist h' xs"
  using xseg_frame by (auto simp: xlist_def)

lemma nxt_zero: "xlist h xs \<Longrightarrow> nxt xs 0 = 0 \<longleftrightarrow> xs = []"
  using xseg_nz [of h 0 xs 0] by (cases xs) (auto simp: xlist_def)

lemma lst_zero: "xlist h xs \<Longrightarrow> lst 0 xs = 0 \<longleftrightarrow> xs = []"
  using xseg_nz [of h 0 xs 0] lst_in [of xs 0] by (cases xs) (auto simp: xlist_def)

lemma merge_step:
  assumes "xlist h ms" "xlist h (x # xs)" "xlist h rs" "distinct (ms @ (x # xs) @ rs)"
  shows "\<exists>h1. merge_take (lst 0 ms) x h = Some (nxt xs 0, h1) \<and> xlist h1 (ms @ [x]) \<and> xlist h1 xs \<and> xlist h1 rs \<and>
    xframe (insert x (set xs \<union> set ms)) h h1 \<and> data_of h1 = data_of h"
proof -
  obtain h1 where h1: "merge_take (lst 0 ms) x h = Some (nxt xs 0, h1)" "xlist h1 xs" "xlist h1 (ms @ [x])"
    "xframe (insert x (set xs \<union> set ms)) h h1" using merge_take_correct [OF assms(2,1)] assms(4) by auto
  moreover have "xlist h1 rs" using xlist_frame [OF assms(3) h1(4)] assms(4) by auto
  ultimately show ?thesis using xframe_data [OF h1(4)] by blast
qed

lemma merge_loop_correct:
  assumes "xlist h ms" "xlist h ls" "xlist h rs" "distinct (ms @ ls @ rs)" "ms \<noteq> [] \<Longrightarrow> start = nxt ms 0"
    "ms @ ls @ rs \<noteq> []"
  shows "\<exists>h'. merge_loop start (lst 0 ms) (nxt ls 0) (nxt rs 0) h = Some (nxt (ms @ amerge (dat h) ls rs) 0, h') \<and>
    xlist h' (ms @ amerge (dat h) ls rs) \<and> xframe (set (ms @ ls @ rs)) h h'"
  using assms
proof (induction "length ls + length rs" arbitrary: ms ls rs h start)
  case 0
  then show ?case by (subst merge_loop.simps) auto
next
  case (Suc n)
  have nz: "nxt ls 0 = 0 \<longleftrightarrow> ls = []" "nxt rs 0 = 0 \<longleftrightarrow> rs = []" "lst 0 ms = 0 \<longleftrightarrow> ms = []"
    using Suc.prems nxt_zero lst_zero by blast+
  have dl: "\<exists>d. data_of h x = Some d" if "x \<in> set ls \<union> set rs" for x using that Suc.prems(2,3) xlist_dat by blast
  have am: "(\<exists>x xs. ls = x # xs \<and> (rs \<noteq> [] \<longrightarrow> dat h x < dat h (nxt rs 0)) \<and> amerge (dat h) ls rs = x # amerge (dat h) xs rs)
    \<or> (\<exists>y ys. rs = y # ys \<and> (ls \<noteq> [] \<longrightarrow> \<not> dat h (nxt ls 0) < dat h y) \<and> amerge (dat h) ls rs = y # amerge (dat h) ls ys)"
    using Suc.hyps(2) by (cases ls; cases rs) (auto split: list.splits)
  have st: "(if ms = [] then x else start) = nxt (ms @ [x]) 0" for x using Suc.prems(5) by (cases ms) auto
  from am show ?case
  proof (elim disjE exE conjE)
    fix x xs assume l: "ls = x # xs" "rs \<noteq> [] \<longrightarrow> dat h x < dat h (nxt rs 0)" "amerge (dat h) ls rs = x # amerge (dat h) xs rs"
    obtain h1 where h1: "merge_take (lst 0 ms) x h = Some (nxt xs 0, h1)" "xlist h1 (ms @ [x])" "xlist h1 xs" "xlist h1 rs"
      "xframe (insert x (set xs \<union> set ms)) h h1" "data_of h1 = data_of h" using merge_step [of h ms x xs rs] Suc.prems l(1) by auto
    have "merge_loop start (lst 0 ms) (nxt ls 0) (nxt rs 0) h = merge_loop (if ms = [] then x else start) x (nxt xs 0) (nxt rs 0) h1"
      using l(1,2) nz dl [of x] dl [of "nxt rs 0"] h1(1) by (subst merge_loop.simps) (cases rs; auto)
    moreover from Suc.hyps(1) [of xs rs h1 "ms @ [x]" "if ms = [] then x else start"] obtain h2 where
      "merge_loop (if ms = [] then x else start) x (nxt xs 0) (nxt rs 0) h1 = Some (nxt (ms @ x # amerge (dat h) xs rs) 0, h2)"
      "xlist h2 (ms @ x # amerge (dat h) xs rs)" "xframe (set (ms @ ls @ rs)) h1 h2"
      using h1 Suc.hyps(2) Suc.prems l(1) st [of x] by auto
    ultimately show ?case using xframe_trans [OF h1(5), of "set (ms @ ls @ rs)" h2 "set (ms @ ls @ rs)"] l by auto
  next
    fix y ys assume l: "rs = y # ys" "ls \<noteq> [] \<longrightarrow> \<not> dat h (nxt ls 0) < dat h y" "amerge (dat h) ls rs = y # amerge (dat h) ls ys"
    obtain h1 where h1: "merge_take (lst 0 ms) y h = Some (nxt ys 0, h1)" "xlist h1 (ms @ [y])" "xlist h1 ys" "xlist h1 ls"
      "xframe (insert y (set ys \<union> set ms)) h h1" "data_of h1 = data_of h" using merge_step [of h ms y ys ls] Suc.prems l(1) by auto
    have "merge_loop start (lst 0 ms) (nxt ls 0) (nxt rs 0) h = merge_loop (if ms = [] then y else start) y (nxt ls 0) (nxt ys 0) h1"
      using l(1,2) nz dl [of y] dl [of "nxt ls 0"] h1(1) by (subst merge_loop.simps) (cases ls; auto)
    moreover from Suc.hyps(1) [of ls ys h1 "ms @ [y]" "if ms = [] then y else start"] obtain h2 where
      "merge_loop (if ms = [] then y else start) y (nxt ls 0) (nxt ys 0) h1 = Some (nxt (ms @ y # amerge (dat h) ls ys) 0, h2)"
      "xlist h2 (ms @ y # amerge (dat h) ls ys)" "xframe (set (ms @ ls @ rs)) h1 h2"
      using h1 Suc.hyps(2) Suc.prems l(1) st [of y] by auto
    ultimately show ?case using xframe_trans [OF h1(5), of "set (ms @ ls @ rs)" h2 "set (ms @ ls @ rs)"] l by auto
  qed
qed

section \<open>Insertion sort\<close>

lemma place_loop_correct:
  assumes X: "xseg h 0 us t" "t \<noteq> 0" and D: "\<And>x. x \<in> set us \<Longrightarrow> \<exists>d. data_of h x = Some d" "data_of h t = Some dt"
    and U: "us = as @ bs" "\<forall>x\<in>set bs. dat h t < dat h x"
  shows "\<exists>cs ds. us = cs @ ds \<and> place_loop h t (lst 0 as) (nxt bs t) = Some (lst 0 cs, nxt ds t) \<and>
    (\<forall>x\<in>set ds. dat h t < dat h x) \<and> (cs \<noteq> [] \<longrightarrow> dat h (lst 0 cs) \<le> dat h t)"
  using U
proof (induction as arbitrary: bs rule: rev_induct)
  case Nil
  then show ?case by (subst place_loop.simps) (rule exI [of _ "[]"], rule exI [of _ bs], simp)
next
  case (snoc a as)
  obtain da where a: "a \<noteq> 0" "addr_of h a = Some (lst 0 as XOR nxt bs t)" "data_of h a = Some da"
    using X(1) snoc.prems(1) xseg_nz [OF X(1)] D(1) [of a] by auto
  show ?case
  proof (cases "dat h t < dat h a")
    case True
    then have "place_loop h t (lst 0 (as @ [a])) (nxt bs t) = place_loop h t (lst 0 as) (nxt (a # bs) t)"
      using a X(2) D(2) by (subst place_loop.simps) simp
    then show ?thesis using snoc.IH [of "a # bs"] snoc.prems True by simp
  next
    case False
    then have "place_loop h t (lst 0 (as @ [a])) (nxt bs t) = Some (lst 0 (as @ [a]), nxt bs t)"
      using a X(2) D(2) by (subst place_loop.simps) simp
    then show ?thesis using snoc.prems False by (intro exI [of _ "as @ [a]"] exI [of _ bs]) simp
  qed
qed

lemma link_target_correct:
  assumes X: "xseg h 0 (as @ b # bs) c" and d: "distinct (as @ b # bs)" "t \<notin> set (as @ b # bs)" and t: "addr_of h t = Some v"
  shows "\<exists>h'. link_target head t (lst 0 as) b h = Some (if as = [] then t else head, h') \<and>
    xseg h' 0 (as @ t # b # bs) c \<and> xframe (insert t (set (as @ b # bs))) h h'"
proof (cases as rule: rev_cases)
  case Nil
  let ?h = "relink b (t XOR nxt bs c) (relink t b h)"
  have "link_target head t (lst 0 as) b h = Some (t, ?h)"
    using X d(2) t Nil by (auto simp: link_target_def set_addr_relink xor.commute)
  moreover have "xseg ?h 0 (as @ t # b # bs) c" using X d t Nil by auto
  ultimately show ?thesis using Nil by simp
next
  case (snoc as' a)
  let ?h = "relink t (a XOR b) (relink b (t XOR nxt bs c) (relink a (lst 0 as' XOR t) h))"
  have "a \<noteq> 0" using X snoc addr_of_nz by auto
  then have "link_target head t (lst 0 as) b h = Some (head, ?h)"
    using X d t snoc by (simp add: link_target_def set_addr_relink xor_into_relink) (auto simp: xor.commute)
  moreover have "xseg ?h 0 (as @ t # b # bs) c" using X d t snoc by auto
  ultimately show ?thesis using snoc by simp
qed

text \<open>One round of the outer loop: \<open>t\<close> moves from behind the sorted part \<open>us\<close> to its place in it.\<close>

lemma insertion_step:
  assumes X: "xlist h (us @ t # rest)" and u: "us = as @ b # bs"
  shows "\<exists>h1 h2 h3. xor_into (lst 0 us) t (nxt rest 0) h = Some h1 \<and>
    link_target head t (lst 0 as) b h1 = Some (if as = [] then t else head, h2) \<and>
    (rest = [] \<longrightarrow> h3 = h2) \<and> (rest \<noteq> [] \<longrightarrow> xor_into (nxt rest 0) t (lst 0 us) h2 = Some h3) \<and>
    xlist h3 ((as @ t # b # bs) @ rest) \<and> xframe (set (us @ t # rest)) h h3"
proof -
  have "us \<noteq> []" using u by simp
  then obtain ws s where us: "us = ws @ [s]" using append_butlast_last_id [of us] by metis
  have d: "distinct (us @ t # rest)" and sg: "xseg h 0 ws s" "addr_of h s = Some (lst 0 ws XOR t)"
    "addr_of h t = Some (s XOR nxt rest 0)" "xseg h t rest 0" using X us by (auto simp: xlist_def)
  let ?h1 = "relink s (lst 0 ws XOR nxt rest 0) h"
  have h1: "xor_into (lst 0 us) t (nxt rest 0) h = Some ?h1" using us sg by (simp add: xor_into_relink)
  have s1: "xseg ?h1 0 (as @ b # bs) (nxt rest 0)" "xseg ?h1 t rest 0" "addr_of ?h1 t = Some (s XOR nxt rest 0)"
    using sg d us unfolding u [symmetric] by auto
  have d2: "distinct (as @ b # bs)" "t \<notin> set (as @ b # bs)" using d unfolding u [symmetric] by auto
  obtain h2 where h2: "link_target head t (lst 0 as) b ?h1 = Some (if as = [] then t else head, h2)"
    "xseg h2 0 (as @ t # b # bs) (nxt rest 0)" "xframe (insert t (set us)) ?h1 h2"
    using link_target_correct [OF s1(1) d2 s1(3), of head] unfolding u [symmetric] by blast
  have f: "xframe (set (us @ t # rest)) h h2" by (rule xframe_trans [OF xframe_relink h2(3)]) (use us in auto)
  have r2: "xseg h2 t rest 0" using xseg_frame [OF s1(2) h2(3)] d by auto
  have ls: "lst 0 (as @ t # b # bs) = s" using arg_cong [OF u, of "lst 0"] us by simp
  have ds: "distinct ((as @ t # b # bs) @ rest)" using d u by auto
  show ?thesis
  proof (cases rest)
    case Nil
    then show ?thesis using h1 h2 f ds by (auto simp: xlist_def)
  next
    case (Cons r rs)
    let ?h3 = "relink r (s XOR nxt rs 0) h2"
    have "xor_into (nxt rest 0) t (lst 0 us) h2 = Some ?h3" using r2 Cons us by (simp add: xor_into_relink xor.commute)
    moreover have "xseg ?h3 0 ((as @ t # b # bs) @ rest) 0" using h2(2) r2 Cons ls ds d us by auto
    ultimately show ?thesis using h1 h2(1) f Cons ds by (auto simp: xlist_def)
  qed
qed

lemma sorted_insert_at:
  assumes "sorted (map f (as @ bs))" "\<forall>x\<in>set bs. f t < f x" "as \<noteq> [] \<longrightarrow> f (lst 0 as) \<le> f t"
  shows "sorted (map f (as @ t # bs))"
proof -
  have "f x \<le> f t" if "x \<in> set as" for x
  proof (cases as rule: rev_cases)
    case (snoc as' a)
    then show ?thesis using that assms(1,3) by (force simp: sorted_append)
  qed (use that in simp)
  then show ?thesis using assms(1,2) by (force simp: sorted_append)
qed

lemma xsorted_trans:
  assumes "xframe (set xs) h h1" "mset ys = mset xs" "xsorted p ys h1 h2"
  shows "xsorted p xs h h2"
proof -
  have "set ys = set xs" using assms(2) by (rule mset_eq_setD)
  then have "xframe (set xs) h h2" using xframe_trans [OF assms(1), of "set xs" h2 "set xs"] assms(3) by (simp add: xsorted_def)
  then show ?thesis using assms xframe_data [OF assms(1)] by (simp add: xsorted_def)
qed

lemma insertion_loop_correct:
  assumes "xlist h (us @ rest)" "us = ws @ [s]" "sorted (map (dat h) us)"
  shows "\<exists>p h'. insertion_loop (nxt us 0) s (lst 0 ws) h = Some (p, h') \<and> xsorted p (us @ rest) h h'"
  using assms
proof (induction rest arbitrary: h us ws s)
  case Nil
  have s: "s \<noteq> 0" "addr_of h s = Some (lst 0 ws)" "\<exists>d. data_of h s = Some d"
    using Nil.prems addr_of_nz [of h s] addr_data [of h s] by (auto simp: xlist_def)
  have "place_loop h 0 s 0 = Some (s, 0)" by (subst place_loop.simps) simp
  moreover have "insertion_loop (nxt us 0) 0 s h = Some (nxt us 0, h)" by (subst insertion_loop.simps) simp
  ultimately have "insertion_loop (nxt us 0) s (lst 0 ws) h = Some (nxt us 0, h)"
    using s by (subst insertion_loop.simps) simp
  then show ?case using Nil.prems by (auto simp: xsorted_def intro!: exI [of _ us])
next
  case (Cons t rest)
  note us = Cons.prems(2)
  have X: "xseg h 0 us t" "distinct (us @ t # rest)" using Cons.prems(1) by (auto simp: xlist_def)
  have s: "s \<noteq> 0" "addr_of h s = Some (lst 0 ws XOR t)" "t \<noteq> 0" "addr_of h t = Some (s XOR nxt rest 0)"
    using Cons.prems(1,2) addr_of_nz [of h s] addr_of_nz [of h t] by (auto simp: xlist_def)
  have D: "\<exists>d. data_of h x = Some d" if "x \<in> set us" for x using that xlist_dat [OF Cons.prems(1)] by auto
  obtain dt where dt: "data_of h t = Some dt" using addr_data [OF s(4)] by auto
  have "us = us @ []" "\<forall>x\<in>set []. dat h t < dat h x" by simp_all
  from place_loop_correct [OF X(1) s(3) D dt this]
  obtain cs ds where p: "us = cs @ ds" "place_loop h t (lst 0 us) (nxt [] t) = Some (lst 0 cs, nxt ds t)"
    "\<forall>x\<in>set ds. dat h t < dat h x" "cs \<noteq> [] \<longrightarrow> dat h (lst 0 cs) \<le> dat h t"
    by blast
  have st: "sorted (map (dat h) (cs @ t # ds))" using sorted_insert_at [OF _ p(3,4)] Cons.prems(3) p(1) by simp
  have pl: "place_loop h t s t = Some (lst 0 cs, nxt ds t)" using p(2) us by simp
  show ?case
  proof (cases ds)
    case Nil
    have "lst 0 cs = s" using Nil p(1) arg_cong [OF us, of "lst 0"] by simp
    then have "insertion_loop (nxt us 0) s (lst 0 ws) h = insertion_loop (nxt us 0) t s h"
      using Nil s pl by (subst insertion_loop.simps) (simp add: Let_def)
    moreover have "sorted (map (dat h) (us @ [t]))" using st Nil p(1) by simp
    ultimately show ?thesis using Cons.IH [of h "us @ [t]" us t] Cons.prems(1) us by simp
  next
    case (Cons b bs)
    then have u: "us = cs @ b # bs" using p(1) by simp
    define vs where "vs = cs @ t # b # bs"
    obtain h1 h2 h3 where h: "xor_into (lst 0 us) t (nxt rest 0) h = Some h1"
      "link_target (nxt us 0) t (lst 0 cs) b h1 = Some (if cs = [] then t else nxt us 0, h2)" "rest = [] \<longrightarrow> h3 = h2"
      "rest \<noteq> [] \<longrightarrow> xor_into (nxt rest 0) t (lst 0 us) h2 = Some h3" "xlist h3 (vs @ rest)" "xframe (set (us @ t # rest)) h h3"
      using insertion_step [OF Cons.prems(1) u, of "nxt us 0"] unfolding vs_def by auto
    have hd: "(if cs = [] then t else nxt us 0) = nxt vs 0" using u by (cases cs) (simp_all add: vs_def)
    have "s = lst b bs" using arg_cong [OF u, of "lst 0"] us by simp
    then have "s \<in> set (b # bs)" using lst_in [of "b # bs" 0] by simp
    then have ne: "s \<noteq> lst 0 cs" using X(2) u lst_in [of cs 0] s(1) by (cases "cs = []") auto
    have m: "mset (vs @ rest) = mset (us @ t # rest)" using u by (simp add: vs_def)
    have sv: "sorted (map (dat h3) vs)" using st Cons xframe_data [OF h(6)] by (simp add: vs_def)
    have nr: "nxt rest 0 = 0 \<longleftrightarrow> rest = []" using Cons.prems(1) addr_of_nz [of h 0] by (cases rest) (auto simp: xlist_def)
    have un: "insertion_loop (nxt us 0) s (lst 0 ws) h = (if rest = [] then Some (nxt vs 0, h2)
        else do { c \<leftarrow> addr_of h3 s; insertion_loop (nxt vs 0) s (c XOR nxt rest 0) h3 })"
      using s pl ne h(1-4) us Cons hd nr by (subst insertion_loop.simps) (auto simp: Let_def)
    show ?thesis
    proof (cases rest)
      case Nil
      then show ?thesis using un h(3,5,6) sv m xframe_data [OF h(6)] by (auto simp: xsorted_def intro!: exI [of _ vs])
    next
      case (Cons r rs)
      obtain zs where zs: "vs = zs @ [s]"
        using us u by (cases bs rule: rev_cases) (auto simp: vs_def)
      then have "addr_of h3 s = Some (lst 0 zs XOR nxt rest 0)" using h(5) by (auto simp: xlist_def)
      then have "insertion_loop (nxt us 0) s (lst 0 ws) h = insertion_loop (nxt vs 0) s (lst 0 zs) h3" using un Cons by simp
      then show ?thesis using Cons.IH [OF h(5) zs sv] xsorted_trans [OF h(6) m] by auto
    qed
  qed
qed

lemma insertion_sort_correct:
  assumes X: "xlist h xs"
  shows "\<exists>p h'. insertion_sort (nxt xs 0) h = Some (p, h') \<and> xsorted p xs h h'"
proof (cases xs)
  case Nil
  then show ?thesis using X by (simp add: insertion_sort_def xsorted_def)
next
  case (Cons x ys)
  have a: "addr_of h x = Some (nxt ys 0)" "x \<noteq> 0" using X Cons addr_of_nz [of h x] by (auto simp: xlist_def)
  have nz: "nxt ys 0 = 0 \<longleftrightarrow> ys = []" using X Cons addr_of_nz [of h 0] by (cases ys) (auto simp: xlist_def)
  show ?thesis
  proof (cases ys)
    case Nil
    then show ?thesis using X \<open>xs = x # ys\<close> a by (auto simp: insertion_sort_def xsorted_def intro!: exI [of _ xs])
  next
    case snd: (Cons y zs)
    then have "insertion_sort (nxt xs 0) h = insertion_loop (nxt [x] 0) x (lst 0 []) h"
      using a nz Cons by (simp add: insertion_sort_def)
    then show ?thesis using insertion_loop_correct [of h "[x]" ys "[]" x] X Cons by simp
  qed
qed

section \<open>Merge sort\<close>

lemma xsorted_frame:
  assumes "xsorted p xs h h1" "xlist h ys" "set xs \<inter> set ys = {}"
  shows "xlist h1 ys"
  using assms xlist_frame by (auto simp: xsorted_def)

lemma merge_halves:
  assumes X: "xlist h (as @ bs)" "as \<noteq> []" and S: "xframe (set (as @ bs)) h h1" "xlist h1 as" "xlist h1 bs"
    and A: "xsorted p as h1 h2" and B: "xsorted q bs h2 h3"
  shows "\<exists>r h4. merge_loop start 0 p q h3 = Some (r, h4) \<and> xsorted r (as @ bs) h h4"
proof -
  have d: "data_of h1 = data_of h" "data_of h2 = data_of h" "data_of h3 = data_of h"
    using S(1) A B xframe_data by (auto simp: xsorted_def)
  obtain as' where a: "p = nxt as' 0" "xlist h2 as'" "mset as' = mset as" "sorted (map (dat h) as')"
    using A d by (auto simp: xsorted_def)
  obtain bs' where b: "q = nxt bs' 0" "xlist h3 bs'" "mset bs' = mset bs" "sorted (map (dat h) bs')"
    using B d by (auto simp: xsorted_def)
  have st: "set as' = set as" "set bs' = set bs" using a(3) b(3) mset_eq_setD by blast+
  have ds: "set as \<inter> set bs = {}" "distinct as'" "distinct bs'" using X a b by (auto simp: xlist_def)
  have a3: "xlist h3 as'" using xsorted_frame [OF B a(2)] ds(1) st(1) by blast
  have "as' \<noteq> []" using X(2) a(3) by auto
  then obtain h4 where m: "merge_loop start 0 p q h3 = Some (nxt (amerge (dat h) as' bs') 0, h4)"
    "xlist h4 (amerge (dat h) as' bs')" "xframe (set (as' @ bs')) h3 h4"
    using merge_loop_correct [of h3 "[]" as' bs' start] a b a3 ds st d by (auto simp: xlist_def)
  have f: "xframe (set (as @ bs)) h h2" using xframe_trans [OF S(1), of "set as" h2] A by (auto simp: xsorted_def)
  have f3: "xframe (set (as @ bs)) h h3" using xframe_trans [OF f, of "set bs" h3] B by (auto simp: xsorted_def)
  have "xframe (set (as @ bs)) h h4" by (rule xframe_trans [OF f3 m(3)]) (use st in auto)
  moreover have "sorted (map (dat h) (amerge (dat h) as' bs'))" by (rule sorted_amerge [OF a(4) b(4)])
  ultimately show ?thesis using m a(3) b(3) by (auto simp: xsorted_def intro!: exI [of _ "amerge (dat h) as' bs'"])
qed

lemma merge_sort_correct:
  assumes "xlist h xs"
  shows "\<exists>p h'. merge_sort (nxt xs 0) k h = Some (p, h') \<and> xsorted p xs h h'"
  using assms
proof (induction "length xs" arbitrary: xs k h rule: less_induct)
  case less
  show ?case
  proof (cases "length xs < 2")
    case True
    then have "merge_sort (nxt xs 0) k h = Some (nxt xs 0, h)"
      using less.prems by (subst merge_sort.simps, cases xs) (auto simp: xlist_def)
    then show ?thesis using less.prems True by (auto simp: xsorted_def sorted01 intro!: exI [of _ xs])
  next
    case False
    then obtain x y ys where xs: "xs = x # y # ys" by (cases xs; cases "tl xs") auto
    have a: "addr_of h x = Some y" "x \<noteq> 0" "y \<noteq> 0"
      using less.prems xs addr_of_nz [of h x] addr_of_nz [of h y] by (auto simp: xlist_def)
    show ?thesis
    proof (cases "k = 0")
      case True
      then have "merge_sort (nxt xs 0) k h = insertion_sort (nxt xs 0) h" using a xs by (subst merge_sort.simps) simp
      then show ?thesis using insertion_sort_correct [OF less.prems] by simp
    next
      case k: False
      let ?n = "length xs div 2"
      let ?k = "if ?n \<le> k then 0 else k"
      let ?as = "take ?n xs" and ?bs = "drop ?n xs"
      have n: "2 \<le> length xs" "?n < length xs" "0 < ?n" using False by auto
      obtain h1 where h1: "to_half (nxt xs 0) h = Some (xs ! ?n, ?n, h1)" "xlist h1 ?as" "xlist h1 ?bs" "xframe (set xs) h h1"
        using to_half_correct [OF less.prems n(1)] by blast
      have nx: "nxt ?as 0 = nxt xs 0" using n by (cases xs; cases ?n; simp)
      have nx2: "nxt ?bs 0 = xs ! ?n" using n(2) by (simp add: Cons_nth_drop_Suc [symmetric])
      obtain p h2 where p: "merge_sort (nxt xs 0) ?k h1 = Some (p, h2)" "xsorted p ?as h1 h2"
        using less.hyps [OF _ h1(2), of ?k] n nx by auto
      have b2: "xlist h2 ?bs" using xsorted_frame [OF p(2) h1(3)] less.prems set_take_disj_set_drop_if_distinct [of xs ?n ?n]
        by (simp add: xlist_def)
      have lt: "length ?bs < length xs" using n(2,3) by (simp only: length_drop)
      obtain q h3 where q: "merge_sort (xs ! ?n) ?k h2 = Some (q, h3)" "xsorted q ?bs h2 h3"
        using less.hyps [OF lt b2, of ?k] nx2 by auto
      obtain r h4 where r: "merge_loop (nxt xs 0) 0 p q h3 = Some (r, h4)" "xsorted r (?as @ ?bs) h h4"
        using merge_halves [OF _ _ _ h1(2,3) p(2) q(2), of h "nxt xs 0"] less.prems xs n(3) h1(4) by auto
      have "merge_sort (nxt xs 0) k h = Some (r, h4)"
        using a xs k h1(1) p(1) q(1) r(1) by (subst merge_sort.simps) (simp add: Let_def)
      then show ?thesis using r(2) by simp
    qed
  qed
qed

section \<open>Building, comparing and deleting\<close>

lemma insert_node_correct:
  assumes X: "xlist h xs" and t: "t \<noteq> 0" "t \<notin> set xs"
  shows "\<exists>h'. insert_node t (nxt xs 0) d h = Some (t, h') \<and> xlist h' (t # xs) \<and>
    (\<forall>q. q \<notin> set (t # xs) \<longrightarrow> h' q = h q) \<and> dom h' = insert t (dom h) \<and> data_of h' = (data_of h)(t \<mapsto> d)"
proof (cases xs)
  case Nil
  then show ?thesis using t
    by (intro exI [of _ "h(t \<mapsto> \<lparr>ndata = d, naddr = 0\<rparr>)"]) (auto simp: insert_node_def xlist_def addr_of_def data_of_def)
next
  case (Cons x ys)
  let ?h = "h(t \<mapsto> \<lparr>ndata = d, naddr = 0\<rparr>)"
  have x: "x \<noteq> 0" "x \<noteq> t" "addr_of h x = Some (nxt ys 0)" "xseg h x ys 0" "distinct xs"
    using X Cons t addr_of_nz [of h x] by (auto simp: xlist_def)
  have a: "addr_of ?h q = (if q = t then Some 0 else addr_of h q)" for q using t by (simp add: addr_of_def)
  have "addr_of ?h q = addr_of h q" if "q \<in> set ys" for q using that t(2) Cons a by auto
  then have sg: "xseg ?h x ys 0" using x(4) xseg_cong [of ys ?h h x 0] by simp
  let ?g = "relink t x (relink x (t XOR nxt ys 0) ?h)"
  have "insert_node t (nxt xs 0) d h = Some (t, ?g)"
    using x t Cons by (simp add: insert_node_def a set_addr_relink)
  moreover have "xlist ?g (t # xs)" using sg x t Cons a by (auto simp: xlist_def)
  moreover have "\<forall>q. q \<notin> set (t # xs) \<longrightarrow> ?g q = h q" using Cons by (auto simp: relink_def split: option.splits)
  moreover have "data_of ?g = (data_of h)(t \<mapsto> d)" using t(1) by (auto simp: data_of_def relink_def fun_eq_iff split: option.splits)
  moreover have "dom ?g = insert t (dom h)" by simp
  ultimately show ?thesis by blast
qed

lemma create_list_correct:
  assumes "xlist h xs" "distinct (tmps @ xs)" "0 \<notin> set tmps" "length tmps = length ds"
  shows "\<exists>h'. create_list tmps ds (nxt xs 0) h = Some (nxt (rev tmps @ xs) 0, h') \<and> xlist h' (rev tmps @ xs) \<and>
    map (data_of h') (rev tmps @ xs) = map Some (rev ds) @ map (data_of h) xs \<and>
    (\<forall>q. q \<notin> set (tmps @ xs) \<longrightarrow> h' q = h q)"
  using assms
proof (induction tmps arbitrary: xs ds h)
  case (Cons t tmps)
  obtain d ds' where ds: "ds = d # ds'" using Cons.prems(4) by (cases ds) auto
  obtain h1 where h1: "insert_node t (nxt xs 0) d h = Some (t, h1)" "xlist h1 (t # xs)"
    "\<forall>q. q \<notin> set (t # xs) \<longrightarrow> h1 q = h q" "data_of h1 = (data_of h)(t \<mapsto> d)"
    using insert_node_correct [OF Cons.prems(1), of t d] Cons.prems(2,3) by auto
  have "map (data_of h1) xs = map (data_of h) xs" using h1(4) Cons.prems(2) by auto
  then show ?case using Cons.IH [OF h1(2), of ds'] Cons.prems h1 ds by auto
qed simp

lemma check_walk_correct:
  "xseg h prev xs 0 \<Longrightarrow> map (data_of h) xs = map Some rs \<Longrightarrow> check_walk h rs (nxt xs 0) prev = Some True"
proof (induction xs arbitrary: prev rs)
  case (Cons x xs)
  then obtain r rs' where "rs = r # rs'" by (cases rs) auto
  then show ?case using Cons addr_of_nz [of h x] by auto
qed simp

lemma delete_list_correct: "xlist h xs \<Longrightarrow> delete_list (nxt xs 0) h = Some (\<lambda>q. if q \<in> set xs then None else h q)"
proof (induction xs arbitrary: h)
  case Nil
  then show ?case by (subst delete_list.simps) simp
next
  case (Cons x xs)
  have x: "addr_of h x = Some (nxt xs 0)" "xseg h x xs 0" "x \<notin> set xs" "distinct xs" using Cons.prems by (auto simp: xlist_def)
  obtain h1 where h1: "(if nxt xs 0 \<noteq> 0 then do { a \<leftarrow> addr_of h (nxt xs 0); set_addr (nxt xs 0) (x XOR a) h } else Some h) = Some h1"
    "xseg h1 0 xs 0" "xframe (set xs) h h1" using merge_unlink [OF x(2,4)] by auto
  have "addr_of (h1(x := None)) q = addr_of h1 q" if "q \<in> set xs" for q using that x(3) by (auto simp: addr_of_def)
  then have "xlist (h1(x := None)) xs" using h1(2) x(4) xseg_cong [of xs "h1(x := None)" h1 0 0] by (simp add: xlist_def)
  note del = Cons.IH [OF this]
  have eq: "(\<lambda>q. if q \<in> set xs then None else (h1(x := None)) q) = (\<lambda>q. if q \<in> set (x # xs) then None else h q)"
    using h1(3) by (auto simp: xframe_def)
  have "delete_list (nxt xs 0) (h1(x := None)) = Some (\<lambda>q. if q \<in> set (x # xs) then None else h q)"
    using del unfolding eq .
  then show ?case using x(1) h1(1) addr_of_nz [OF x(1)] by (subst delete_list.simps) (simp add: xor.commute cong: if_cong)
qed

text \<open>A round of the unit test passes and gives back all of its memory.\<close>

lemma check_round_passes:
  assumes "distinct tmps" "0 \<notin> set tmps" "set tmps \<inter> dom h = {}" "length tmps = length x"
  shows "check_round k tmps x h = Some (True, sort x, h)"
proof -
  obtain h1 where h1: "create_list tmps x 0 h = Some (nxt (rev tmps) 0, h1)" "xlist h1 (rev tmps)"
    "map (data_of h1) (rev tmps) = map Some (rev x)" "\<forall>q. q \<notin> set tmps \<longrightarrow> h1 q = h q"
    using create_list_correct [of h "[]" tmps x] assms by (auto simp: xlist_def)
  obtain p h2 where h2: "merge_sort (nxt (rev tmps) 0) k h1 = Some (p, h2)" "xsorted p (rev tmps) h1 h2"
    using merge_sort_correct [OF h1(2)] by blast
  then obtain ys where ys: "p = nxt ys 0" "xlist h2 ys" "mset ys = mset tmps" "sorted (map (dat h1) ys)" "xframe (set tmps) h1 h2"
    by (auto simp: xsorted_def)
  have "mset (map (dat h1) ys) = mset (map (dat h1) (rev tmps))" using ys(3) by simp
  also have "map (dat h1) (rev tmps) = rev x" using arg_cong [OF h1(3), of "map the"] by (simp add: comp_def)
  finally have srt: "sort x = map (dat h1) ys" using ys(4) by (intro properties_for_sort) auto
  have "map (data_of h2) ys = map (data_of h1) ys" using xframe_data [OF ys(5)] by simp
  also have "\<dots> = map Some (sort x)" using xlist_dat [OF ys(2)] xframe_data [OF ys(5)] srt by simp
  finally have c: "check_sorted p x h2 = Some True"
    using check_walk_correct [of h2 0 ys "sort x"] ys(1,2) by (simp add: check_sorted_def xlist_def)
  have "set ys = set tmps" using ys(3) by (rule mset_eq_setD)
  then have "(\<lambda>q. if q \<in> set ys then None else h2 q) = h"
    using h1(4) ys(5) assms(3) domIff [of _ h] unfolding xframe_def fun_eq_iff by (metis disjoint_iff)
  then have "delete_list p h2 = Some h" using delete_list_correct [OF ys(2)] ys(1) by simp
  then show ?thesis using h1(1) h2(1) c by (simp add: check_round_def)
qed

section \<open>Properties\<close>

text \<open>C31: On every well-formed XOR list and for every split size, \<open>__merge_sort\<close> (with
  \<open>to_half\<close>, \<open>insertion_sort\<close> and the merging loop) returns, never follows a NULL or
  dangling pointer, and leaves a well-formed list of the same nodes in ascending order
  of their data.  No node's data and no other node changes.\<close>

theorem xor_merge_sort_correct:
  assumes "xlist h xs"
  shows "\<exists>ys h'. merge_sort (nxt xs 0) k h = Some (nxt ys 0, h') \<and> xlist h' ys \<and> mset ys = mset xs \<and>
    sorted (map (dat h) ys) \<and> data_of h' = data_of h \<and> (\<forall>q. q \<notin> set xs \<longrightarrow> h' q = h q)"
  using merge_sort_correct [OF assms, of k] by (auto simp: xsorted_def xframe_def)

definition sample :: xmem where
  "sample = [8 \<mapsto> \<lparr>ndata = 3, naddr = 16\<rparr>, 16 \<mapsto> \<lparr>ndata = 1, naddr = 8 XOR 32\<rparr>, 32 \<mapsto> \<lparr>ndata = 2, naddr = 16\<rparr>]"

theorem xor_merge_sort_correct_witness:
  "\<exists>ys h'. merge_sort (nxt [8, 16, 32] 0) 1 sample = Some (nxt ys 0, h') \<and> xlist h' ys \<and> mset ys = mset [8, 16, 32] \<and>
    sorted (map (dat sample) ys) \<and> data_of h' = data_of sample \<and> (\<forall>q. q \<notin> set [8, 16, 32] \<longrightarrow> h' q = sample q)"
proof (rule xor_merge_sort_correct)
  show "xlist sample [8, 16, 32]" by (simp add: xlist_def sample_def addr_of_def)
qed

end
