(* ===== verification/Xor_List_Tests.thy ===== *)
theory Xor_List_Tests
  imports Xor_List_Spec
begin

text \<open>
  The unit test program of \<open>xor-linkedlist/xor-linkedlist-unittest.c\<close>.  \<open>alloc h n\<close> are the
  addresses that \<open>n\<close> calls of \<open>malloc\<close> return in memory \<open>h\<close>, \<open>rnd\<close> the results of \<open>rand\<close>;
  the programs pass on how many of them are used up.  A result \<open>False\<close> stands for \<open>exit(1)\<close>.
  The time measurement of \<open>ramping\<close> is left out.
\<close>

section \<open>The programs\<close>

text \<open>Rounds with the arrays of a list one after the other, until one fails.\<close>

primrec rounds_of :: "(xmem \<Rightarrow> nat \<Rightarrow> u64 list) \<Rightarrow> int list list \<Rightarrow> xmem \<Rightarrow> (bool \<times> xmem) option" where
  "rounds_of alloc [] h = Some (True, h)"
| "rounds_of alloc (x # xs) h =
     do { (ok, _, h) \<leftarrow> check_round 1 (alloc h (length x)) x h;
          if ok then rounds_of alloc xs h else Some (False, h) }"

definition check_program :: "(xmem \<Rightarrow> nat \<Rightarrow> u64 list) \<Rightarrow> xmem \<Rightarrow> (bool \<times> xmem) option" where
  "check_program alloc h =
     rounds_of alloc [[1, 2, 3, 4, 5, 6, 7], [7, 6, 5, 4, 3, 2, 1], [7, 2, 1, 3, 4, 6, 5]] h"

text \<open>The array \<open>x\<close> of \<open>num\<close> numbers from the \<open>k\<close>-th call of \<open>rand\<close> on.\<close>

definition rand_array :: "(nat \<Rightarrow> nat) \<Rightarrow> nat \<Rightarrow> nat \<Rightarrow> int list" where
  "rand_array rnd k num = map (\<lambda>j. int (rnd (k + j) mod 10000) - 5000) [0..<num]"

primrec randomcheck :: "(xmem \<Rightarrow> nat \<Rightarrow> u64 list) \<Rightarrow> (nat \<Rightarrow> nat) \<Rightarrow> nat \<Rightarrow> nat \<Rightarrow> xmem \<Rightarrow> (bool \<times> xmem) option" where
  "randomcheck alloc rnd 0 k h = Some (True, h)"
| "randomcheck alloc rnd (Suc i) k h =
     do { let num = rnd k mod 1000 + 1;
          let x = rand_array rnd (k + 1) num;
          (ok, _, h) \<leftarrow> check_round 1 (alloc h num) x h;
          if ok then randomcheck alloc rnd i (k + 1 + num) h else Some (False, h) }"

definition MAX_MERGE_SIZE :: nat where "MAX_MERGE_SIZE = 11"
definition MAX_ARRAY_LENGTH :: nat where "MAX_ARRAY_LENGTH = 65536"

text \<open>The inner loop of \<open>ramping\<close>, over the split sizes \<open>1 << j\<close>.\<close>

primrec ramping_splits :: "(xmem \<Rightarrow> nat \<Rightarrow> u64 list) \<Rightarrow> nat list \<Rightarrow> int list \<Rightarrow> xmem \<Rightarrow> (bool \<times> xmem) option" where
  "ramping_splits alloc [] x h = Some (True, h)"
| "ramping_splits alloc (j # js) x h =
     do { (ok, x, h) \<leftarrow> check_round (2 ^ j) (alloc h MAX_ARRAY_LENGTH) x h;
          if ok then ramping_splits alloc js x h else Some (False, h) }"

primrec ramping :: "(xmem \<Rightarrow> nat \<Rightarrow> u64 list) \<Rightarrow> (nat \<Rightarrow> nat) \<Rightarrow> nat \<Rightarrow> nat \<Rightarrow> xmem \<Rightarrow> (bool \<times> xmem) option" where
  "ramping alloc rnd 0 k h = Some (True, h)"
| "ramping alloc rnd (Suc i) k h =
     do { (ok, h) \<leftarrow> ramping_splits alloc [1..<MAX_MERGE_SIZE] (rand_array rnd k MAX_ARRAY_LENGTH) h;
          if ok then ramping alloc rnd i (k + MAX_ARRAY_LENGTH) h else Some (False, h) }"

datatype option_arg = Option_check | Option_ramping | Option_other

definition unittest_main :: "(xmem \<Rightarrow> nat \<Rightarrow> u64 list) \<Rightarrow> (nat \<Rightarrow> nat) \<Rightarrow> option_arg \<Rightarrow> xmem \<Rightarrow> (bool \<times> xmem) option" where
  "unittest_main alloc rnd arg h =
     (case arg of
        Option_check \<Rightarrow>
          do { (ok, h) \<leftarrow> check_program alloc h; if ok then randomcheck alloc rnd 100 0 h else Some (False, h) }
      | Option_ramping \<Rightarrow> ramping alloc rnd 5 0 h
      | Option_other \<Rightarrow> Some (False, h))"

section \<open>The programs pass\<close>

definition fresh_addresses :: "(xmem \<Rightarrow> nat \<Rightarrow> u64 list) \<Rightarrow> xmem \<Rightarrow> bool" where
  "fresh_addresses alloc h \<longleftrightarrow> (\<forall>n \<le> MAX_ARRAY_LENGTH.
     length (alloc h n) = n \<and> distinct (alloc h n) \<and> 0 \<notin> set (alloc h n) \<and> set (alloc h n) \<inter> dom h = {})"

lemma round_passes:
  "fresh_addresses alloc h \<Longrightarrow> length x \<le> MAX_ARRAY_LENGTH \<Longrightarrow>
    check_round k (alloc h (length x)) x h = Some (True, sort x, h)"
  by (rule check_round_passes) (auto simp: fresh_addresses_def)

lemma length_rand_array [simp]: "length (rand_array rnd k n) = n"
  by (simp add: rand_array_def)

lemma rounds_pass:
  "fresh_addresses alloc h \<Longrightarrow> \<forall>x \<in> set xs. length x \<le> MAX_ARRAY_LENGTH \<Longrightarrow> rounds_of alloc xs h = Some (True, h)"
  by (induction xs) (simp_all add: round_passes)

lemma randomcheck_passes: "fresh_addresses alloc h \<Longrightarrow> randomcheck alloc rnd i k h = Some (True, h)"
proof (induction i arbitrary: k)
  case (Suc i)
  have "rnd k mod 1000 < 1000" by simp
  then have "rnd k mod 1000 + 1 \<le> MAX_ARRAY_LENGTH" by (simp add: MAX_ARRAY_LENGTH_def)
  then show ?case
    using Suc round_passes [OF Suc.prems, of "rand_array rnd (k + 1) (rnd k mod 1000 + 1)" 1] by (simp add: Let_def)
qed simp

lemma ramping_splits_pass:
  "fresh_addresses alloc h \<Longrightarrow> length x = MAX_ARRAY_LENGTH \<Longrightarrow> ramping_splits alloc js x h = Some (True, h)"
proof (induction js arbitrary: x)
  case (Cons j js)
  then show ?case using round_passes [of alloc h x "2 ^ j"] by simp
qed simp

lemma ramping_passes: "fresh_addresses alloc h \<Longrightarrow> ramping alloc rnd i k h = Some (True, h)"
  by (induction i arbitrary: k) (simp_all add: ramping_splits_pass)

section \<open>Property\<close>

text \<open>C32: The unit test program passes with either option, whatever \<open>rand\<close> returns, and gives
  back all of its memory, when \<open>malloc\<close> returns fresh distinct addresses: each of its
  rounds builds a list, sorts it (with split size 1, or with every power of two from 2 to
  1024), finds exactly the sorted array in it, and deletes it.\<close>

theorem xor_unittest_passes:
  assumes "fresh_addresses alloc h"
  shows "unittest_main alloc rnd Option_check h = Some (True, h) \<and>
    unittest_main alloc rnd Option_ramping h = Some (True, h)"
proof -
  have "check_program alloc h = Some (True, h)"
    unfolding check_program_def by (rule rounds_pass [OF assms]) (simp add: MAX_ARRAY_LENGTH_def)
  then show ?thesis by (simp add: unittest_main_def randomcheck_passes [OF assms] ramping_passes [OF assms])
qed

theorem xor_unittest_passes_witness:
  "unittest_main (\<lambda>_ n. map of_nat [1..<Suc n]) (\<lambda>_. 0) Option_check Map.empty = Some (True, Map.empty)"
proof (rule xor_unittest_passes [THEN conjunct1])
  have "inj_on (of_nat :: nat \<Rightarrow> u64) (set [1..<Suc n])" if "n \<le> MAX_ARRAY_LENGTH" for n
    using that by (auto simp: inj_on_def MAX_ARRAY_LENGTH_def word_of_nat_eq_iff take_bit_nat_eq_self)
  moreover have "(of_nat i :: u64) \<noteq> 0" if "1 \<le> i" "i \<le> MAX_ARRAY_LENGTH" for i
    using that by (auto simp: MAX_ARRAY_LENGTH_def word_of_nat_eq_0_iff dest: dvd_imp_le)
  ultimately show "fresh_addresses (\<lambda>_ n. map of_nat [1..<Suc n]) Map.empty"
    by (auto simp: fresh_addresses_def distinct_map)
qed

end
