(* ===== verification/Mmap_Alloc.thy ===== *)
theory Mmap_Alloc
  imports Allocator "HOL-Library.Monad_Syntax" "HOL-Library.Word"
begin

text \<open>
  The allocator of \<open>mmap-alloc/alloc.c\<close>, which gives every block its own pages, and its
  tests.  The memory is the set of mapped pages with the \<open>size_t\<close> objects in them; an
  access to an unmapped page, a division by zero and a failing assertion are \<open>None\<close>.
  The kernel is a parameter: what \<open>sysconf\<close> answers, the address \<open>mmap\<close> chooses for a
  new mapping (\<open>None\<close> is \<open>MAP_FAILED\<close>), and the pages the program occupies besides.
\<close>

unbundle bit_operations_syntax

record kernel =
  page_bytes :: nat
  sysconf_pagesize :: int
  mmap_at :: "nat set \<Rightarrow> nat \<Rightarrow> nat option"
  base_pages :: nat

record mstate =
  mapped :: "nat set"
  words :: "nat \<Rightarrow> nat"
  page_size :: nat

section \<open>Memory and system calls\<close>

definition pages_of :: "kernel \<Rightarrow> nat \<Rightarrow> nat \<Rightarrow> nat set" where
  "pages_of K a n = {a div page_bytes K ..< (a + n + page_bytes K - 1) div page_bytes K}"

definition load_word :: "kernel \<Rightarrow> nat \<Rightarrow> mstate \<Rightarrow> nat option" where
  "load_word K x s = (if x div page_bytes K \<in> mapped s then Some (words s x) else None)"

definition store_word :: "kernel \<Rightarrow> nat \<Rightarrow> nat \<Rightarrow> mstate \<Rightarrow> mstate option" where
  "store_word K x v s = (if x div page_bytes K \<in> mapped s then Some (s\<lparr>words := (words s)(x := v)\<rparr>) else None)"

text \<open>Anonymous pages are filled with zeroes.\<close>

definition mmap :: "kernel \<Rightarrow> nat \<Rightarrow> mstate \<Rightarrow> nat option \<times> mstate" where
  "mmap K n s =
     (if n = 0 then (None, s)
      else case mmap_at K (mapped s) n of
             None \<Rightarrow> (None, s)
           | Some a \<Rightarrow> (Some a, s\<lparr>mapped := mapped s \<union> pages_of K a n,
               words := (\<lambda>x. if x div page_bytes K \<in> pages_of K a n then 0 else words s x)\<rparr>))"

definition munmap :: "kernel \<Rightarrow> nat \<Rightarrow> nat \<Rightarrow> mstate \<Rightarrow> int \<times> mstate" where
  "munmap K a n s =
     (if a mod page_bytes K \<noteq> 0 \<or> n = 0 then (-1, s)
      else (0, s\<lparr>mapped := mapped s - pages_of K a n\<rparr>))"

section \<open>The allocator\<close>

definition sizeof_page_header :: nat where
  "sizeof_page_header = 16"

definition get_page_size :: "kernel \<Rightarrow> mstate \<Rightarrow> nat \<times> mstate" where
  "get_page_size K s =
     (let s1 = (if page_size s = 0
                then let tmp = sysconf_pagesize K in s\<lparr>page_size := (if tmp < 0 then 4096 else nat tmp)\<rparr>
                else s)
      in (page_size s1, s1))"

definition any_to_page_header :: "nat \<Rightarrow> nat" where
  "any_to_page_header ptr = size_sub ptr sizeof_page_header"

text \<open>A failing \<open>munmap\<close> is only reported.\<close>

definition naive_free_internal :: "kernel \<Rightarrow> nat \<Rightarrow> mstate \<Rightarrow> mstate option" where
  "naive_free_internal K header s =
     (if header = 0 then Some s
      else do { pages \<leftarrow> load_word K header s;
                psize \<leftarrow> load_word K (header + 8) s;
                Some (snd (munmap K header (size_mul pages psize) s)) })"

definition naive_free :: "kernel \<Rightarrow> nat \<Rightarrow> mstate \<Rightarrow> mstate option" where
  "naive_free K ptr s = (if ptr \<noteq> 0 then naive_free_internal K (any_to_page_header ptr) s else Some s)"

definition naive_malloc_internal :: "kernel \<Rightarrow> nat \<Rightarrow> mstate \<Rightarrow> (nat \<times> mstate) option" where
  "naive_malloc_internal K sz s =
     (if sz = 0 then Some (0, s)
      else let (psize, s1) = get_page_size K s in
        if psize = 0 then None
        else
          let pages = size_add (size_add sz sizeof_page_header div psize) 1;
              mmap_size = size_mul pages psize;
              (r, s2) = mmap K mmap_size s1
          in case r of
               None \<Rightarrow> Some (0, s2)
             | Some ptr \<Rightarrow> do { s3 \<leftarrow> store_word K ptr pages s2;
                               s4 \<leftarrow> store_word K (ptr + 8) psize s3;
                               Some (ptr, s4) })"

definition naive_malloc :: "kernel \<Rightarrow> nat \<Rightarrow> mstate \<Rightarrow> (nat \<times> mstate) option" where
  "naive_malloc K sz s =
     do { (result, s1) \<leftarrow> naive_malloc_internal K sz s;
          Some (if result = 0 then 0 else result + sizeof_page_header, s1) }"

section \<open>The tests\<close>

abbreviation (input) TEST_SUCCESS :: "32 word" where "TEST_SUCCESS \<equiv> 0"
abbreviation (input) ALLOC_LARGE :: "32 word" where "ALLOC_LARGE \<equiv> 1"
abbreviation (input) ALLOC_SMALL :: "32 word" where "ALLOC_SMALL \<equiv> 2"
abbreviation (input) NOT_FREED :: "32 word" where "NOT_FREED \<equiv> 4"
abbreviation (input) ALLOC_FAILED :: "32 word" where "ALLOC_FAILED \<equiv> 8"

text \<open>The first field of \<open>/proc/self/statm\<close>, the total program size in pages.\<close>

definition get_used_memory :: "kernel \<Rightarrow> mstate \<Rightarrow> nat" where
  "get_used_memory K s = base_pages K + card (mapped s)"

definition test_variable_malloc :: "kernel \<Rightarrow> nat \<Rightarrow> mstate \<Rightarrow> (32 word \<times> mstate) option" where
  "test_variable_malloc K sz s =
     (let (psize, s) = get_page_size K s in
      if psize = 0 then None
      else do {
        let min_expected_page_alloc = size_add sz sizeof_page_header div psize;
        let max_expected_page_alloc = size_add (size_add sz sizeof_page_header div psize) 1;
        let before_malloc = get_used_memory K s;
        (ptr, s) \<leftarrow> naive_malloc K sz s;
        if ptr = 0 \<and> sz \<noteq> 0 then Some (ALLOC_FAILED, s)
        else do {
          let after_malloc = get_used_memory K s;
          let allocated = size_sub after_malloc before_malloc;
          let ret = (if allocated < min_expected_page_alloc then TEST_SUCCESS OR ALLOC_SMALL else TEST_SUCCESS);
          let ret = (if allocated > max_expected_page_alloc then ret OR ALLOC_LARGE else ret);
          s \<leftarrow> naive_free K ptr s;
          let after_free = get_used_memory K s;
          Some (if before_malloc \<noteq> after_free then ret OR NOT_FREED else ret, s) } })"

text \<open>A result other than success is printed and then the assertion fails.\<close>

definition test_alloc_zero :: "kernel \<Rightarrow> mstate \<Rightarrow> mstate option" where
  "test_alloc_zero K s =
     do { (result, s) \<leftarrow> test_variable_malloc K 0 s;
          if result \<noteq> TEST_SUCCESS then None else Some s }"

partial_function (option) alloc_small_loop :: "kernel \<Rightarrow> nat \<Rightarrow> mstate \<Rightarrow> mstate option" where
  "alloc_small_loop K i s =
     (let (psize, s) = get_page_size K s in
      if i < size_sub psize sizeof_page_header
      then do { (result, s) \<leftarrow> test_variable_malloc K i s;
                if result \<noteq> TEST_SUCCESS then None else alloc_small_loop K (size_add i 1) s }
      else Some s)"

definition test_alloc_small :: "kernel \<Rightarrow> mstate \<Rightarrow> mstate option" where
  "test_alloc_small K s = alloc_small_loop K 1 s"

text \<open>The loop of \<open>test_alloc_large\<close> returns the size it stopped at.\<close>

partial_function (option) alloc_large_loop :: "kernel \<Rightarrow> nat \<Rightarrow> mstate \<Rightarrow> (nat \<times> mstate) option" where
  "alloc_large_loop K sz s =
     (if sz < 18446744073709551615 div 10
      then do { (result, s) \<leftarrow> test_variable_malloc K sz s;
                if result AND ALLOC_FAILED \<noteq> 0 then Some (sz, s)
                else if result \<noteq> TEST_SUCCESS then None
                else alloc_large_loop K (size_mul sz 2) s }
      else Some (sz, s))"

text \<open>The largest successful allocation is only printed.\<close>

definition test_alloc_large :: "kernel \<Rightarrow> mstate \<Rightarrow> (nat \<times> mstate) option" where
  "test_alloc_large K s =
     (let (psize, s) = get_page_size K s
      in do { (sz, s) \<leftarrow> alloc_large_loop K (size_sub psize sizeof_page_header) s;
              let largest_sucessful_alloc = sz div 2;
              Some (largest_sucessful_alloc, s) })"

definition main_tests :: "kernel \<Rightarrow> mstate \<Rightarrow> mstate option" where
  "main_tests K s =
     do { s \<leftarrow> test_alloc_zero K s;
          s \<leftarrow> test_alloc_small K s;
          (_, s) \<leftarrow> test_alloc_large K s;
          Some s }"

end
