(* ===== verification/Mmap_Alloc_Spec.thy ===== *)
theory Mmap_Alloc_Spec
  imports Mmap_Alloc
begin

text \<open>
  Every live block of the \<open>mmap\<close> allocator owns whole pages of its own.  The theory
  gives the effect of \<open>naive_malloc\<close> and \<open>naive_free\<close> on the mapped pages, shows
  that they meet the contract of an allocator, and that the tests pass.
\<close>

section \<open>What is documented of the kernel\<close>

definition mmap_documented :: "kernel \<Rightarrow> bool" where
  "mmap_documented K \<longleftrightarrow> 16 < page_bytes K \<and> page_bytes K < 2 ^ 32 \<and> sysconf_pagesize K = int (page_bytes K) \<and>
     (\<forall>M n a. mmap_at K M n = Some a \<longrightarrow>
        0 < a \<and> a mod page_bytes K = 0 \<and> a + n < SIZE_MOD \<and> pages_of K a n \<inter> M = {})"

lemma page_pos: "mmap_documented K \<Longrightarrow> 16 < page_bytes K"
  by (simp add: mmap_documented_def)

lemma mmap_atD:
  assumes "mmap_documented K" "mmap_at K M n = Some a"
  shows "0 < a" "a mod page_bytes K = 0" "a + n < SIZE_MOD" "pages_of K a n \<inter> M = {}"
  using assms unfolding mmap_documented_def by blast+

section \<open>Pages\<close>

definition span :: "kernel \<Rightarrow> nat \<Rightarrow> nat \<Rightarrow> nat set" where
  "span K a n = {a div page_bytes K ..< a div page_bytes K + n}"

lemma pages_of_span:
  assumes "a mod page_bytes K = 0" "0 < page_bytes K"
  shows "pages_of K a (n * page_bytes K) = span K a n"
proof -
  obtain k where a: "a = page_bytes K * k" using assms(1) by auto
  have "(page_bytes K * k + n * page_bytes K + page_bytes K - 1) div page_bytes K
      = ((page_bytes K - 1) + (k + n) * page_bytes K) div page_bytes K"
    using assms(2) by (simp add: algebra_simps)
  also have "\<dots> = k + n" using assms(2) by (subst div_mult_self1) simp_all
  finally show ?thesis using assms(2) a by (simp add: pages_of_def span_def)
qed

lemma in_page:
  assumes "a mod page_bytes K = 0" "d < page_bytes K"
  shows "(a + d) div page_bytes K = a div page_bytes K"
proof -
  obtain k where a: "a = page_bytes K * k" using assms(1) by auto
  then show ?thesis using assms(2) by simp
qed

lemma span_first: "0 < n \<Longrightarrow> a div page_bytes K \<in> span K a n"
  by (simp add: span_def)

lemma card_span [simp]: "card (span K a n) = n" "finite (span K a n)"
  by (simp_all add: span_def)

lemma span_apart:
  assumes "span K a n \<inter> span K b m = {}" "0 < n" "0 < m" "a mod page_bytes K = 0" "b mod page_bytes K = 0"
  shows "a + n * page_bytes K \<le> b \<or> b + m * page_bytes K \<le> a"
proof -
  obtain i j where ij: "a = page_bytes K * i" "b = page_bytes K * j" using assms(4,5) by (auto elim!: dvdE)
  show ?thesis
  proof (cases "page_bytes K = 0")
    case False
    have "i + n \<le> j \<or> j + m \<le> i"
    proof (rule ccontr)
      assume "\<not> (i + n \<le> j \<or> j + m \<le> i)"
      then have "max i j \<in> span K a n \<inter> span K b m" using ij False assms(2,3) by (auto simp: span_def)
      then show False using assms(1) by blast
    qed
    then have "page_bytes K * (i + n) \<le> page_bytes K * j \<or> page_bytes K * (j + m) \<le> page_bytes K * i" by auto
    then show ?thesis using ij by (simp add: algebra_simps)
  qed (simp add: ij)
qed

section \<open>Effect of the operations\<close>

definition size_known :: "kernel \<Rightarrow> mstate \<Rightarrow> mstate" where
  "size_known K s = s\<lparr>page_size := page_bytes K\<rparr>"

lemma get_page_size_known:
  "mmap_documented K \<Longrightarrow> page_size s = 0 \<or> page_size s = page_bytes K \<Longrightarrow> get_page_size K s = (page_bytes K, size_known K s)"
  by (cases s) (auto simp: get_page_size_def mmap_documented_def size_known_def)

definition pages_for :: "kernel \<Rightarrow> nat \<Rightarrow> nat" where
  "pages_for K r = (r + 16) div page_bytes K + 1"

lemma pages_for_bounds:
  assumes "16 < page_bytes K"
  shows "r + 16 < pages_for K r * page_bytes K" "pages_for K r * page_bytes K \<le> r + 16 + page_bytes K" "0 < pages_for K r"
proof -
  show "r + 16 < pages_for K r * page_bytes K" using assms dividend_less_div_times [of "page_bytes K" "r + 16"]
    by (simp add: pages_for_def)
  show "pages_for K r * page_bytes K \<le> r + 16 + page_bytes K" using div_times_less_eq_dividend [of "r + 16" "page_bytes K"]
    by (simp add: pages_for_def)
qed (simp add: pages_for_def)

text \<open>The state after a block of \<open>n\<close> pages at \<open>a\<close> was taken.\<close>

definition taken :: "kernel \<Rightarrow> nat \<Rightarrow> nat \<Rightarrow> mstate \<Rightarrow> mstate" where
  "taken K a n s = s\<lparr>page_size := page_bytes K, mapped := mapped s \<union> span K a n,
     words := (\<lambda>x. if x div page_bytes K \<in> span K a n then 0 else words s x)(a := n, a + 8 := page_bytes K)\<rparr>"

lemma naive_malloc_effect:
  assumes K: "mmap_documented K" and ps: "page_size s = 0 \<or> page_size s = page_bytes K"
    and r: "r \<noteq> 0" "r + 16 + page_bytes K < SIZE_MOD"
  shows "naive_malloc K r s = Some (case mmap_at K (mapped s) (pages_for K r * page_bytes K) of
      None \<Rightarrow> (0, size_known K s) | Some a \<Rightarrow> (a + 16, taken K a (pages_for K r) s))"
proof -
  let ?n = "pages_for K r"
  note b = pages_for_bounds [OF page_pos [OF K], of r]
  have p0: "page_bytes K \<noteq> 0" using page_pos [OF K] by simp
  have ln: "?n * 1 \<le> ?n * page_bytes K" using p0 by (intro mult_le_mono2) simp
  have lt: "r + 16 < SIZE_MOD" "?n * page_bytes K < SIZE_MOD" "?n < SIZE_MOD" using b(2) ln r(2) by linarith+
  have "size_add (size_add r 16 div page_bytes K) 1 = ?n"
    using lt(1,3) by (subst size_add_id) (simp_all add: size_add_id pages_for_def)
  note n = this size_mul_id [OF lt(2)]
  have nz: "?n * page_bytes K \<noteq> 0" using b(3) p0 by simp
  show ?thesis
  proof (cases "mmap_at K (mapped s) (?n * page_bytes K)")
    case None
    then show ?thesis using r(1) p0 n nz get_page_size_known [OF K ps]
      by (simp add: naive_malloc_def naive_malloc_internal_def sizeof_page_header_def mmap_def size_known_def)
  next
    case (Some a)
    note a = mmap_atD [OF K Some]
    note po = pages_of_span [OF a(2), of ?n] in_page [OF a(2), of 8]
    show ?thesis using r(1) p0 n nz get_page_size_known [OF K ps] Some po a(1) span_first [OF b(3), of a K] page_pos [OF K]
      by (simp add: naive_malloc_def naive_malloc_internal_def sizeof_page_header_def mmap_def size_known_def store_word_def taken_def Let_def cong: if_cong)
  qed
qed

lemma naive_malloc_zero: "naive_malloc K 0 s = Some (0, s)"
  by (simp add: naive_malloc_def naive_malloc_internal_def)

lemma naive_free_effect:
  assumes K: "mmap_documented K" and a: "0 < a" "a mod page_bytes K = 0" "a + n * page_bytes K < SIZE_MOD"
    and h: "words s a = n" "words s (a + 8) = page_bytes K" "0 < n" "span K a n \<subseteq> mapped s"
  shows "naive_free K (a + 16) s = Some (s\<lparr>mapped := mapped s - span K a n\<rparr>)"
proof -
  note po = pages_of_span [OF a(2), of n] in_page [OF a(2), of 8]
  have "n * page_bytes K < SIZE_MOD" "n * page_bytes K \<noteq> 0" using a(3) h(3) page_pos [OF K] by auto
  moreover have "a + 16 < SIZE_MOD" using a(3) h(3) page_pos [OF K] by (cases n) auto
  ultimately show ?thesis
    using a h po span_first [OF h(3), of a K] page_pos [OF K]
    by (auto simp: naive_free_def naive_free_internal_def any_to_page_header_def sizeof_page_header_def size_sub_id
        load_word_def munmap_def size_mul_id)
qed

section \<open>The contract of an allocator\<close>

definition mm_block :: "kernel \<Rightarrow> mstate \<Rightarrow> nat \<Rightarrow> nat \<Rightarrow> nat \<Rightarrow> bool" where
  "mm_block K s a n r \<longleftrightarrow> 0 < a \<and> a mod page_bytes K = 0 \<and> a + n * page_bytes K < SIZE_MOD \<and> r + 16 \<le> n * page_bytes K \<and>
     words s a = n \<and> words s (a + 8) = page_bytes K \<and> 0 < n"

abbreviation bspan :: "kernel \<Rightarrow> mstate \<Rightarrow> nat \<Rightarrow> nat set" where
  "bspan K s p \<equiv> span K (p - 16) (words s (p - 16))"

text \<open>\<open>M\<close> are the pages mapped besides the live blocks \<open>A\<close>.\<close>

definition mm_inv :: "kernel \<Rightarrow> nat set \<Rightarrow> mstate \<Rightarrow> (nat \<times> nat) set \<Rightarrow> bool" where
  "mm_inv K M s A \<longleftrightarrow> mmap_documented K \<and> (page_size s = 0 \<or> page_size s = page_bytes K) \<and>
     mapped s = M \<union> (\<Union>(p, r)\<in>A. bspan K s p) \<and>
     (\<forall>(p, r)\<in>A. 16 \<le> p \<and> mm_block K s (p - 16) (words s (p - 16)) r \<and> bspan K s p \<inter> M = {}) \<and>
     (\<forall>(p, r)\<in>A. \<forall>(q, r')\<in>A. (p, r) \<noteq> (q, r') \<longrightarrow> bspan K s p \<inter> bspan K s q = {})"

lemma mm_invD:
  assumes "mm_inv K M s A"
  shows "mmap_documented K" "page_size s = 0 \<or> page_size s = page_bytes K" "mapped s = M \<union> (\<Union>(p, r)\<in>A. bspan K s p)"
    "(p, r) \<in> A \<Longrightarrow> 16 \<le> p" "(p, r) \<in> A \<Longrightarrow> mm_block K s (p - 16) (words s (p - 16)) r" "(p, r) \<in> A \<Longrightarrow> bspan K s p \<inter> M = {}"
    "(p, r) \<in> A \<Longrightarrow> (q, r') \<in> A \<Longrightarrow> (p, r) \<noteq> (q, r') \<Longrightarrow> bspan K s p \<inter> bspan K s q = {}"
  using assms unfolding mm_inv_def by fast+

lemma mm_invI:
  assumes "mmap_documented K" "page_size s = 0 \<or> page_size s = page_bytes K" "mapped s = M \<union> (\<Union>(p, r)\<in>A. bspan K s p)"
    "\<And>p r. (p, r) \<in> A \<Longrightarrow> 16 \<le> p \<and> mm_block K s (p - 16) (words s (p - 16)) r \<and> bspan K s p \<inter> M = {}"
    "\<And>p r q r'. (p, r) \<in> A \<Longrightarrow> (q, r') \<in> A \<Longrightarrow> (p, r) \<noteq> (q, r') \<Longrightarrow> bspan K s p \<inter> bspan K s q = {}"
  shows "mm_inv K M s A"
  unfolding mm_inv_def using assms(1-3)
proof (intro conjI)
  show "\<forall>(p, r)\<in>A. 16 \<le> p \<and> mm_block K s (p - 16) (words s (p - 16)) r \<and> bspan K s p \<inter> M = {}" using assms(4) by blast
  show "\<forall>(p, r)\<in>A. \<forall>(q, r')\<in>A. (p, r) \<noteq> (q, r') \<longrightarrow> bspan K s p \<inter> bspan K s q = {}" using assms(5) by blast
qed

lemma mm_block_first: "mm_block K s a n r \<Longrightarrow> a div page_bytes K \<in> span K a n"
  by (simp add: mm_block_def span_first)

lemma mm_inv_size_known: "mm_inv K M s A \<Longrightarrow> mm_inv K M (size_known K s) A"
  by (simp add: mm_inv_def size_known_def mm_block_def)

text \<open>The words of a header are not touched when another block is taken.\<close>

lemma taken_words:
  assumes K: "mmap_documented K" and a: "a mod page_bytes K = 0" "span K a n \<inter> mapped s = {}" "0 < n"
    and B: "mm_block K s b m r" "span K b m \<subseteq> mapped s"
  shows "words (taken K a n s) b = words s b" "words (taken K a n s) (b + 8) = words s (b + 8)"
proof -
  have b: "b mod page_bytes K = 0" using B(1) by (simp add: mm_block_def)
  have ob: "b div page_bytes K \<notin> span K a n" using mm_block_first [OF B(1)] B(2) a(2) by blast
  note i8 = in_page [OF b, of 8] in_page [OF a(1), of 8]
  have "x \<noteq> a \<and> x \<noteq> a + 8 \<and> x div page_bytes K \<notin> span K a n" if "x = b \<or> x = b + 8" for x
  proof -
    have "x div page_bytes K = b div page_bytes K" using that i8(1) page_pos [OF K] by auto
    then have o: "x div page_bytes K \<notin> span K a n" using ob by simp
    moreover have "x div page_bytes K \<noteq> a div page_bytes K" using o span_first [OF a(3), of a K] by metis
    ultimately show ?thesis using i8(2) page_pos [OF K] by auto
  qed
  then show "words (taken K a n s) b = words s b" "words (taken K a n s) (b + 8) = words s (b + 8)"
    by (simp_all add: taken_def)
qed

lemma mm_inv_taken:
  assumes I: "mm_inv K M s A" and a: "0 < a" "a mod page_bytes K = 0" "a + n * page_bytes K < SIZE_MOD"
    "span K a n \<inter> mapped s = {}" "0 < n" "r + 16 \<le> n * page_bytes K"
  shows "a + 16 \<notin> fst ` A" "mm_inv K M (taken K a n s) (insert (a + 16, r) A)"
proof -
  let ?s = "taken K a n s"
  note D = mm_invD [OF I]
  have sub: "bspan K s p \<subseteq> mapped s" if "(p, q) \<in> A" for p q using D(3) that by fastforce
  have w: "words ?s (p - 16) = words s (p - 16)" "words ?s (p - 16 + 8) = words s (p - 16 + 8)" if "(p, q) \<in> A" for p q
    using taken_words [OF D(1) a(2,4,5) D(5) [OF that] sub [OF that]] by simp_all
  have nw: "words ?s a = n" "words ?s (a + 8) = page_bytes K" by (simp_all add: taken_def)
  have fresh: "bspan K s p \<inter> span K a n = {}" if "(p, q) \<in> A" for p q using sub [OF that] a(4) by blast
  show nin: "a + 16 \<notin> fst ` A"
  proof
    assume "a + 16 \<in> fst ` A"
    then obtain q where q: "(a + 16, q) \<in> A" by auto
    have "a div page_bytes K \<in> bspan K s (a + 16)" using mm_block_first [OF D(5) [OF q]] by simp
    then show False using fresh [OF q] span_first [OF a(5), of a K] by auto
  qed
  have un: "(\<Union>(p, r)\<in>A. bspan K ?s p) = (\<Union>(p, r)\<in>A. bspan K s p)" using w(1) by (intro SUP_cong) auto
  have M: "span K a n \<inter> M = {}" using a(4) D(3) by blast
  have new: "16 \<le> a + 16 \<and> mm_block K ?s (a + 16 - 16) (words ?s (a + 16 - 16)) r \<and> bspan K ?s (a + 16) \<inter> M = {}"
    using nw a M by (simp add: mm_block_def)
  have old: "16 \<le> p \<and> mm_block K ?s (p - 16) (words ?s (p - 16)) q \<and> bspan K ?s p \<inter> M = {}" if "(p, q) \<in> A" for p q
    using D(4) [OF that] D(5) [OF that] D(6) [OF that] w [OF that] by (simp add: mm_block_def)
  have oo: "bspan K ?s p \<inter> bspan K ?s q = {}" if "(p, u) \<in> A" "(q, v) \<in> A" "(p, u) \<noteq> (q, v)" for p u q v
    using D(7) [OF that] w(1) [OF that(1)] w(1) [OF that(2)] by simp
  have on: "bspan K ?s p \<inter> bspan K ?s (a + 16) = {}" "bspan K ?s (a + 16) \<inter> bspan K ?s p = {}" if "(p, u) \<in> A" for p u
    using w(1) [OF that] nw(1) fresh [OF that] by (simp_all add: Int_commute)
  have dis: "bspan K ?s p \<inter> bspan K ?s q = {}"
    if "(p, u) \<in> insert (a + 16, r) A" "(q, v) \<in> insert (a + 16, r) A" "(p, u) \<noteq> (q, v)" for p u q v
  proof (cases "(p, u) \<in> A"; cases "(q, v) \<in> A")
    assume "(p, u) \<in> A" "(q, v) \<in> A"
    then show ?thesis using oo that(3) by blast
  next
    assume p: "(p, u) \<in> A" and "(q, v) \<notin> A"
    then have "q = a + 16" using that(2) by simp
    then show ?thesis using on(1) [OF p] by simp
  next
    assume "(p, u) \<notin> A" and q: "(q, v) \<in> A"
    then have "p = a + 16" using that(1) by simp
    then show ?thesis using on(2) [OF q] by simp
  next
    assume "(p, u) \<notin> A" "(q, v) \<notin> A"
    then show ?thesis using that by simp
  qed
  have ps: "page_size ?s = 0 \<or> page_size ?s = page_bytes K" and "mapped ?s = mapped s \<union> span K a n" by (simp_all add: taken_def)
  then have mp: "mapped ?s = M \<union> (\<Union>(p, r)\<in>insert (a + 16, r) A. bspan K ?s p)" using D(3) un nw(1) by auto
  show "mm_inv K M ?s (insert (a + 16, r) A)" by (rule mm_invI [OF D(1) ps mp _ dis]) (use new old in blast)+
qed

lemma naive_malloc_inv:
  assumes I: "mm_inv K M s A" and r: "r + 16 + page_bytes K < SIZE_MOD"
  shows "\<exists>v s'. naive_malloc K r s = Some (v, s') \<and>
    (if v = 0 then mm_inv K M s' A else v \<notin> fst ` A \<and> mm_inv K M s' (insert (v, r) A))"
proof (cases "r = 0")
  case True
  then show ?thesis using I by (simp add: naive_malloc_zero)
next
  case False
  note D = mm_invD [OF I]
  note b = pages_for_bounds [OF page_pos [OF D(1)], of r]
  note E = naive_malloc_effect [OF D(1,2) False r]
  show ?thesis
  proof (cases "mmap_at K (mapped s) (pages_for K r * page_bytes K)")
    case None
    then show ?thesis using E mm_inv_size_known [OF I] by simp
  next
    case (Some a)
    note a = mmap_atD [OF D(1) Some]
    have d: "span K a (pages_for K r) \<inter> mapped s = {}" using a(2,4) pages_of_span [OF a(2)] page_pos [OF D(1)] by simp
    show ?thesis using E Some mm_inv_taken [OF I a(1-3) d b(3) less_imp_le [OF b(1)]] by simp
  qed
qed

lemma naive_free_inv:
  assumes I: "mm_inv K M s A" and A: "(p, r) \<in> A"
  shows "\<exists>s'. naive_free K p s = Some s' \<and> mm_inv K M s' (A - {(p, r)})"
proof -
  note D = mm_invD [OF I]
  let ?n = "words s (p - 16)"
  let ?s = "s\<lparr>mapped := mapped s - bspan K s p\<rparr>"
  obtain a where p: "p = a + 16" using D(4) [OF A] le_Suc_ex [of 16 p] by auto
  have B: "mm_block K s a (words s a) r" using D(5) [OF A] p by simp
  have sub: "span K a (words s a) \<subseteq> mapped s" using A D(3) p by fastforce
  have "naive_free K p s = Some ?s"
    using naive_free_effect [OF D(1), of a "words s a" s] B sub p by (simp add: mm_block_def)
  moreover have "mm_inv K M ?s (A - {(p, r)})"
  proof -
    have "M - bspan K s p = M" using D(6) [OF A] by blast
    moreover have "(\<Union>(q, u)\<in>A. bspan K s q) - bspan K s p = (\<Union>(q, u)\<in>A - {(p, r)}. bspan K s q)"
      using D(7) [OF A] A by fastforce
    ultimately have mp: "mapped ?s = M \<union> (\<Union>(q, u)\<in>A - {(p, r)}. bspan K ?s q)" using D(3) by (simp add: Un_Diff)
    have w: "words ?s = words s" "page_size ?s = page_size s" by simp_all
    have bl: "mm_block K ?s b n u = mm_block K s b n u" for b n u by (simp add: mm_block_def)
    show ?thesis
    proof (rule mm_invI [OF D(1) _ mp], unfold w bl)
      fix q u assume "(q, u) \<in> A - {(p, r)}"
      then have q: "(q, u) \<in> A" by simp
      show "16 \<le> q \<and> mm_block K s (q - 16) (words s (q - 16)) u \<and> bspan K s q \<inter> M = {}"
        using D(4) [OF q] D(5) [OF q] D(6) [OF q] by blast
    next
      fix q u q' u' assume "(q, u) \<in> A - {(p, r)}" "(q', u') \<in> A - {(p, r)}" "(q, u) \<noteq> (q', u')"
      then show "bspan K s q \<inter> bspan K s q' = {}" using D(7) [of q u q' u'] by blast
    qed (rule D(2))
  qed
  ultimately show ?thesis by simp
qed

lemma mm_inv_apart:
  assumes I: "mm_inv K M s A" and A: "(p, r) \<in> A" "(q, r') \<in> A" "(p, r) \<noteq> (q, r')"
  shows "p + r \<le> q \<or> q + r' \<le> p"
proof -
  note D = mm_invD [OF I]
  obtain a b where p: "p = a + 16" "q = b + 16"
    using D(4) [OF A(1)] D(4) [OF A(2)] le_Suc_ex [of 16 p] le_Suc_ex [of 16 q] by auto
  have B: "mm_block K s a (words s a) r" "mm_block K s b (words s b) r'" using D(5) [OF A(1)] D(5) [OF A(2)] p by simp_all
  have "a + words s a * page_bytes K \<le> b \<or> b + words s b * page_bytes K \<le> a"
    by (rule span_apart) (use D(7) [OF A] B p in \<open>simp_all add: mm_block_def\<close>)
  then show ?thesis using B p by (auto simp: mm_block_def)
qed

interpretation mm: allocator "mm_inv K M" "\<lambda>r. r + 16 + page_bytes K < SIZE_MOD" "naive_malloc K" "naive_free K"
  using naive_malloc_inv naive_free_inv mm_inv_apart by unfold_locales blast+

section \<open>The tests\<close>

text \<open>What one test run does: no page is leaked, and the only failure is that of \<open>mmap\<close>.\<close>

lemma test_variable_malloc_result:
  assumes K: "mmap_documented K" and ps: "page_size s = 0 \<or> page_size s = page_bytes K" and f: "finite (mapped s)"
    and u: "base_pages K + card (mapped s) + pages_for K r < SIZE_MOD" and r: "r + 16 + page_bytes K < SIZE_MOD"
  shows "\<exists>s'. test_variable_malloc K r s =
      Some (if r \<noteq> 0 \<and> mmap_at K (mapped s) (pages_for K r * page_bytes K) = None then ALLOC_FAILED else TEST_SUCCESS, s') \<and>
    mapped s' = mapped s \<and> page_size s' = page_bytes K"
proof -
  have p0: "page_bytes K \<noteq> 0" "0 < page_bytes K" "16 < page_bytes K" using page_pos [OF K] by simp_all
  note g = get_page_size_known [OF K ps]
  have k: "mapped (size_known K s) = mapped s" "page_size (size_known K s) = page_bytes K" by (simp_all add: size_known_def)
  show ?thesis
  proof (cases "r = 0")
    case True
    have "size_add 0 16 div page_bytes K = 0" using p0(3) by (simp add: size_add_def SIZE_MOD_def)
    then show ?thesis using g k p0 u True
      by (simp add: test_variable_malloc_def naive_malloc_zero naive_free_def sizeof_page_header_def Let_def size_sub_def get_used_memory_def)
  next
    case False
    note b = pages_for_bounds [OF p0(3), of r]
    note E = naive_malloc_effect [OF K _ False r, of "size_known K s", unfolded k]
    show ?thesis
    proof (cases "mmap_at K (mapped s) (pages_for K r * page_bytes K)")
      case None
      then show ?thesis using g k p0 False E by (simp add: test_variable_malloc_def Let_def size_known_def)
    next
      case (Some a)
      note a = mmap_atD [OF K Some]
      let ?n = "pages_for K r" and ?t = "taken K a (pages_for K r) (size_known K s)"
      have d: "span K a ?n \<inter> mapped s = {}" using a(2,4) pages_of_span [OF a(2)] p0 by simp
      have t: "mapped ?t = mapped s \<union> span K a ?n" "words ?t a = ?n" "words ?t (a + 8) = page_bytes K" "page_size ?t = page_bytes K"
        by (simp_all add: taken_def k)
      have fr: "naive_free K (a + 16) ?t = Some (?t\<lparr>mapped := mapped s\<rparr>)"
        using naive_free_effect [OF K a(1-3) t(2,3) b(3)] t(1) d by (simp add: Un_Diff Diff_triv Int_commute)
      have c: "card (mapped ?t) = card (mapped s) + ?n" using d f t(1) by (simp add: card_Un_disjoint Int_commute)
      have al: "size_sub (get_used_memory K ?t) (get_used_memory K (size_known K s)) = ?n"
        using u c k by (simp add: get_used_memory_def size_sub_id)
      have mx: "size_add (size_add r 16 div page_bytes K) 1 = ?n" "\<not> ?n < size_add r 16 div page_bytes K"
        using r u by (auto simp: size_add_id pages_for_def)
      show ?thesis using g k p0 False E Some a(1) al mx fr t(4)
        by (simp add: test_variable_malloc_def Let_def sizeof_page_header_def get_used_memory_def)
    qed
  qed
qed

definition test_ready :: "kernel \<Rightarrow> nat set \<Rightarrow> mstate \<Rightarrow> bool" where
  "test_ready K M s \<longleftrightarrow> mapped s = M \<and> (page_size s = 0 \<or> page_size s = page_bytes K)"

definition tests_fit :: "kernel \<Rightarrow> nat set \<Rightarrow> bool" where
  "tests_fit K M \<longleftrightarrow> mmap_documented K \<and> finite M \<and> base_pages K + card M < 2 ^ 63 \<and> mmap_at K M (page_bytes K) \<noteq> None"

lemma pages_for_small: "r + 16 < page_bytes K \<Longrightarrow> pages_for K r = 1"
  by (simp add: pages_for_def)

lemma test_run:
  assumes T: "tests_fit K M" and s: "test_ready K M s" and r: "r < 1844674407370955161"
  shows "\<exists>s'. test_variable_malloc K r s =
      Some (if r \<noteq> 0 \<and> mmap_at K M (pages_for K r * page_bytes K) = None then ALLOC_FAILED else TEST_SUCCESS, s') \<and> test_ready K M s'"
proof -
  have K: "mmap_documented K" "page_bytes K < 2 ^ 32" using T by (simp_all add: tests_fit_def mmap_documented_def)
  have "(r + 16) div page_bytes K \<le> r + 16" by (rule div_le_dividend)
  then have "pages_for K r \<le> r + 17" unfolding pages_for_def by linarith
  then have "base_pages K + card (mapped s) + pages_for K r < SIZE_MOD" "r + 16 + page_bytes K < SIZE_MOD"
    using T s r K(2) by (simp_all add: tests_fit_def test_ready_def SIZE_MOD_def)
  then show ?thesis using test_variable_malloc_result [OF K(1), of s r] T s by (auto simp: tests_fit_def test_ready_def)
qed

lemma test_run_small:
  assumes T: "tests_fit K M" "test_ready K M s" and r: "r + 16 < page_bytes K"
  shows "\<exists>s'. test_variable_malloc K r s = Some (TEST_SUCCESS, s') \<and> test_ready K M s'"
proof -
  have "r < 1844674407370955161" using r T(1) by (simp add: tests_fit_def mmap_documented_def)
  from test_run [OF T this] show ?thesis using pages_for_small [OF r] T(1) by (auto simp: tests_fit_def)
qed

lemma ready_page_size:
  assumes "tests_fit K M" "test_ready K M s"
  shows "get_page_size K s = (page_bytes K, size_known K s)" "test_ready K M (size_known K s)"
  using assms get_page_size_known [of K s] by (simp_all add: tests_fit_def test_ready_def size_known_def)

lemma alloc_small_loop_passes:
  assumes T: "tests_fit K M"
  shows "test_ready K M s \<Longrightarrow> \<exists>s'. alloc_small_loop K i s = Some s' \<and> test_ready K M s'"
proof (induction "page_bytes K - 16 - i" arbitrary: i s)
  case 0
  have "\<not> i < size_sub (page_bytes K) 16" using 0(1) T by (simp add: tests_fit_def mmap_documented_def size_sub_id SIZE_MOD_def)
  then show ?case using ready_page_size [OF T 0(2)] by (subst alloc_small_loop.simps) (simp add: sizeof_page_header_def)
next
  case (Suc m)
  have lt: "i + 16 < page_bytes K" "page_bytes K < 2 ^ 32" using Suc.hyps(2) T by (auto simp: tests_fit_def mmap_documented_def)
  have i: "i < size_sub (page_bytes K) 16" "size_add i 1 = i + 1" using lt by (simp_all add: size_sub_id size_add_id SIZE_MOD_def)
  obtain s' where s': "test_variable_malloc K i (size_known K s) = Some (TEST_SUCCESS, s')" "test_ready K M s'"
    using test_run_small [OF T ready_page_size(2) [OF T Suc.prems] lt(1)] by blast
  have "m = page_bytes K - 16 - (i + 1)" using Suc.hyps(2) by simp
  from Suc.hyps(1) [OF this s'(2)] show ?case
    using ready_page_size [OF T Suc.prems] s'(1) i by (subst alloc_small_loop.simps) (simp add: sizeof_page_header_def)
qed

lemma alloc_large_loop_passes:
  assumes T: "tests_fit K M"
  shows "test_ready K M s \<Longrightarrow> 0 < n \<Longrightarrow> \<exists>m s'. alloc_large_loop K n s = Some (m, s') \<and> test_ready K M s'"
proof (induction "1844674407370955161 - n" arbitrary: n s rule: less_induct)
  case less
  show ?case
  proof (cases "n < 1844674407370955161")
    case True
    have m: "size_mul n 2 = n * 2" using True by (simp add: size_mul_id SIZE_MOD_def)
    obtain s' where s': "test_variable_malloc K n s =
        Some (if n \<noteq> 0 \<and> mmap_at K M (pages_for K n * page_bytes K) = None then ALLOC_FAILED else TEST_SUCCESS, s')" "test_ready K M s'"
      using test_run [OF T less.prems(1) True] by blast
    have "\<exists>m s''. alloc_large_loop K (n * 2) s' = Some (m, s'') \<and> test_ready K M s''"
      by (rule less.hyps) (use True less.prems(2) s'(2) in auto)
    then show ?thesis using s' True m by (subst alloc_large_loop.simps) auto
  next
    case False
    then show ?thesis using less.prems by (subst alloc_large_loop.simps) simp
  qed
qed

section \<open>Properties\<close>

lemma in_block_page:
  assumes "mm_block K s a n r" "16 < page_bytes K" "a + 16 \<le> x" "x < a + 16 + r"
  shows "x div page_bytes K \<in> span K a n"
proof -
  obtain k where a: "a = page_bytes K * k" using assms(1) by (auto simp: mm_block_def)
  have "x < page_bytes K * (k + n)" using assms a by (simp add: mm_block_def algebra_simps)
  then have "x div page_bytes K < k + n" by (simp add: less_mult_imp_div_less mult.commute)
  moreover have "k \<le> x div page_bytes K" using a assms(2,3) div_le_mono [of "page_bytes K * k" x "page_bytes K"] by simp
  ultimately show ?thesis using a assms(2) by (simp add: span_def)
qed

text \<open>C33: Any client that frees only what it holds can run any sequence of \<open>naive_malloc\<close> and
  \<open>naive_free\<close> calls whose sizes leave room for the header: nothing faults, live blocks
  never overlap, every byte of a live block lies in a page that was mapped for it, and
  when everything is freed exactly the pages mapped at the start remain.\<close>

theorem mmap_client_safe:
  assumes "mmap_documented K" "page_size s = 0" "\<And>r. Alloc r \<in> set ops \<Longrightarrow> r + 16 + page_bytes K < SIZE_MOD"
  shows "\<exists>s' held. client_run (naive_malloc K) (naive_free K) ops s [] = Some (s', held) \<and> distinct held \<and>
    (\<forall>(p, r)\<in>set held. \<forall>(q, r')\<in>set held. (p, r) \<noteq> (q, r') \<longrightarrow> p + r \<le> q \<or> q + r' \<le> p) \<and>
    (\<forall>(p, r)\<in>set held. \<forall>x. p \<le> x \<and> x < p + r \<longrightarrow> x div page_bytes K \<in> mapped s' - mapped s) \<and>
    (held = [] \<longrightarrow> mapped s' = mapped s)"
proof -
  have "mm_inv K (mapped s) s (set [])" using assms(1,2) by (simp add: mm_inv_def)
  from mm.client_safe [OF this _ assms(3), of ops] obtain s' held where h: "client_run (naive_malloc K) (naive_free K) ops s [] = Some (s', held)"
    "mm_inv K (mapped s) s' (set held)" "distinct held" by auto
  note D = mm_invD [OF h(2)]
  have "x div page_bytes K \<in> mapped s' - mapped s" if A: "(p, r) \<in> set held" "p \<le> x" "x < p + r" for p r x
  proof -
    have p: "p - 16 + 16 = p" using D(4) [OF A(1)] by simp
    have "x div page_bytes K \<in> bspan K s' p" using in_block_page [OF D(5) [OF A(1)] page_pos [OF D(1)]] A(2,3) p by simp
    then show ?thesis using D(3) D(6) [OF A(1)] A(1) by fastforce
  qed
  moreover have "held = [] \<longrightarrow> mapped s' = mapped s" using D(3) by simp
  moreover have "p + r \<le> q \<or> q + r' \<le> p" if "(p, r) \<in> set held" "(q, r') \<in> set held" "(p, r) \<noteq> (q, r')" for p r q r'
    using mm.apart [OF h(2) that] .
  ultimately show ?thesis using h(1,3) by blast
qed

definition one_block_kernel :: kernel where
  "one_block_kernel = \<lparr>page_bytes = 4096, sysconf_pagesize = 4096,
     mmap_at = (\<lambda>M n. if M = {} \<and> n + 4096 < SIZE_MOD then Some 4096 else None), base_pages = 100\<rparr>"

definition fresh_process :: mstate where
  "fresh_process = \<lparr>mapped = {}, words = (\<lambda>_. 0), page_size = 0\<rparr>"

lemma one_block_documented: "mmap_documented one_block_kernel"
  by (auto simp: mmap_documented_def one_block_kernel_def)

theorem mmap_client_safe_witness:
  "\<exists>s' held. client_run (naive_malloc one_block_kernel) (naive_free one_block_kernel) [Alloc 5000, Alloc 1, Free 0] fresh_process [] =
      Some (s', held) \<and> distinct held \<and>
    (\<forall>(p, r)\<in>set held. \<forall>(q, r')\<in>set held. (p, r) \<noteq> (q, r') \<longrightarrow> p + r \<le> q \<or> q + r' \<le> p) \<and>
    (\<forall>(p, r)\<in>set held. \<forall>x. p \<le> x \<and> x < p + r \<longrightarrow> x div page_bytes one_block_kernel \<in> mapped s' - mapped fresh_process) \<and>
    (held = [] \<longrightarrow> mapped s' = mapped fresh_process)"
  by (rule mmap_client_safe [OF one_block_documented]) (auto simp: fresh_process_def one_block_kernel_def SIZE_MOD_def)

text \<open>C34: For every kernel that behaves as documented and grants a single page, the program's
  tests run to the end without a failing assertion and unmap all they mapped.\<close>

theorem mmap_tests_pass:
  assumes "mmap_documented K" "page_size s = 0" "finite (mapped s)" "base_pages K + card (mapped s) < 2 ^ 63"
    "mmap_at K (mapped s) (page_bytes K) \<noteq> None"
  shows "\<exists>s'. main_tests K s = Some s' \<and> mapped s' = mapped s"
proof -
  let ?M = "mapped s"
  have T: "tests_fit K ?M" "test_ready K ?M s" using assms by (simp_all add: tests_fit_def test_ready_def)
  have ps: "16 < page_bytes K" "page_bytes K < 2 ^ 32" using assms(1) by (simp_all add: mmap_documented_def)
  obtain s1 where s1: "test_alloc_zero K s = Some s1" "test_ready K ?M s1"
    using test_run_small [OF T, of 0] ps by (auto simp: test_alloc_zero_def)
  obtain s2 where s2: "test_alloc_small K s1 = Some s2" "test_ready K ?M s2"
    using alloc_small_loop_passes [OF T(1) s1(2)] by (auto simp: test_alloc_small_def)
  note g = ready_page_size [OF T(1) s2(2)]
  have "size_sub (page_bytes K) 16 = page_bytes K - 16" using ps by (simp add: size_sub_id SIZE_MOD_def)
  then obtain m s3 where "alloc_large_loop K (size_sub (page_bytes K) 16) (size_known K s2) = Some (m, s3)" "test_ready K ?M s3"
    using alloc_large_loop_passes [OF T(1) g(2), of "page_bytes K - 16"] ps by auto
  then show ?thesis using s1(1) s2(1) g(1) by (simp add: main_tests_def test_alloc_large_def sizeof_page_header_def test_ready_def)
qed

theorem mmap_tests_pass_witness: "\<exists>s'. main_tests one_block_kernel fresh_process = Some s' \<and> mapped s' = mapped fresh_process"
  by (rule mmap_tests_pass [OF one_block_documented]) (simp_all add: fresh_process_def one_block_kernel_def SIZE_MOD_def)

text \<open>The sum with the header size wraps: a request of nearly \<open>2 ^ 64\<close> bytes gets one page.\<close>

lemma naive_malloc_overflow:
  assumes K: "mmap_documented K" and s: "page_size s = 0 \<or> page_size s = page_bytes K" and r: "SIZE_MOD - 16 \<le> r" "r < SIZE_MOD"
    and m: "mmap_at K (mapped s) (page_bytes K) = Some a"
  shows "\<exists>s'. naive_malloc K r s = Some (a + 16, s') \<and> mapped s' = mapped s \<union> span K a 1"
proof -
  have "(r + 16) mod SIZE_MOD = r + 16 - SIZE_MOD" using r le_mod_geq [of SIZE_MOD "r + 16"] by (simp add: SIZE_MOD_def)
  then have "size_add r 16 < 16" using r by (simp add: size_add_def)
  then have n: "size_add (size_add r 16 div page_bytes K) 1 = 1" "size_mul 1 (page_bytes K) = page_bytes K"
    using K by (simp_all add: mmap_documented_def size_add_def size_mul_def SIZE_MOD_def)
  note a = mmap_atD [OF K m]
  note po = pages_of_span [OF a(2), of 1] in_page [OF a(2), of 8] span_first [of 1 a K]
  have "r \<noteq> 0" using r by (simp add: SIZE_MOD_def)
  then show ?thesis using get_page_size_known [OF K s] page_pos [OF K] n m po a(1)
    by (simp add: naive_malloc_def naive_malloc_internal_def sizeof_page_header_def mmap_def size_known_def store_word_def Let_def)
qed

end
