(* ===== verification/Coroutine.thy ===== *)
theory Coroutine
  imports Prelude "HOL-Library.Word"
begin

text \<open>
  The stackless coroutines of \<open>coroutine/coroutine.c\<close>.  A coroutine is a function of its
  continuation, the line it was left at (0 at the start), which returns the next
  continuation or \<open>ASYNC_DONE\<close>.  The state holds the static variables; \<open>consumed_log\<close> and
  \<open>produced_log\<close> are what \<open>consume_item\<close> and \<open>produce_item\<close> print.
\<close>

unbundle bit_operations_syntax

section \<open>State\<close>

definition NUM_ITEMS :: int where "NUM_ITEMS = 32"
definition BUFSIZE :: nat where "BUFSIZE = 8"

definition ASYNC_INIT :: int where "ASYNC_INIT = 0"
definition ASYNC_DONE :: int where "ASYNC_DONE = -1"

record cstate =
  buf :: "int list"
  bufptr :: nat
  item :: int
  full_count :: u32
  empty_count :: u32
  produced :: int
  consumed :: int
  cr_producer :: int
  cr_consumer :: int
  produced_log :: "int list"
  consumed_log :: "int list"

definition add_to_buffer :: "int \<Rightarrow> cstate \<Rightarrow> cstate" where
  "add_to_buffer i s = s\<lparr>buf := (buf s)[bufptr s := i], bufptr := (bufptr s + 1) mod BUFSIZE\<rparr>"

definition get_from_buffer :: "cstate \<Rightarrow> int \<times> cstate" where
  "get_from_buffer s = (buf s ! bufptr s, s\<lparr>bufptr := (bufptr s + 1) mod BUFSIZE\<rparr>)"

definition produce_item :: "cstate \<Rightarrow> int \<times> cstate" where
  "produce_item s = (item s, s\<lparr>item := item s + 1, produced_log := produced_log s @ [item s]\<rparr>)"

definition consume_item :: "int \<Rightarrow> cstate \<Rightarrow> cstate" where
  "consume_item i s = s\<lparr>consumed_log := consumed_log s @ [i]\<rparr>"

section \<open>Producer and consumer\<close>

text \<open>What follows the wait in the loop of \<open>producer\<close>, up to the next test of the loop.\<close>

definition producer_body :: "cstate \<Rightarrow> cstate" where
  "producer_body s =
     (let s1 = s\<lparr>full_count := full_count s - 1\<rparr>;
          (i, s2) = produce_item s1;
          s3 = add_to_buffer i s2;
          s4 = s3\<lparr>empty_count := empty_count s3 + 1\<rparr>
      in s4\<lparr>produced := produced s4 + 1\<rparr>)"

definition consumer_body :: "cstate \<Rightarrow> cstate" where
  "consumer_body s =
     (let s1 = s\<lparr>empty_count := empty_count s - 1\<rparr>;
          (i, s2) = get_from_buffer s1;
          s3 = consume_item i s2;
          s4 = s3\<lparr>full_count := full_count s3 + 1\<rparr>
      in s4\<lparr>consumed := consumed s4 + 1\<rparr>)"

lemma produced_body [simp]: "produced (producer_body s) = produced s + 1"
  by (simp add: producer_body_def produce_item_def add_to_buffer_def Let_def)

lemma consumed_body [simp]: "consumed (consumer_body s) = consumed s + 1"
  by (simp add: consumer_body_def consume_item_def get_from_buffer_def Let_def)

text \<open>The loops from their tests on.  Line 142 and line 157 are the waits.\<close>

function producer_for :: "cstate \<Rightarrow> int \<times> cstate" where
  "producer_for s =
     (if produced s < NUM_ITEMS then
        if \<not> 0 < full_count s then (142, s) else producer_for (producer_body s)
      else (ASYNC_DONE, s))"
  by pat_completeness auto
termination by (relation "measure (\<lambda>s. nat (NUM_ITEMS - produced s))") auto

function consumer_for :: "cstate \<Rightarrow> int \<times> cstate" where
  "consumer_for s =
     (if consumed s < NUM_ITEMS then
        if \<not> 0 < empty_count s then (157, s) else consumer_for (consumer_body s)
      else (ASYNC_DONE, s))"
  by pat_completeness auto
termination by (relation "measure (\<lambda>s. nat (NUM_ITEMS - consumed s))") auto

declare producer_for.simps [simp del] consumer_for.simps [simp del]

definition producer :: "int \<Rightarrow> cstate \<Rightarrow> int \<times> cstate" where
  "producer kcont s =
     (if kcont = 0 then producer_for (s\<lparr>produced := 0\<rparr>)
      else if kcont = 142 then if \<not> 0 < full_count s then (142, s) else producer_for (producer_body s)
      else (ASYNC_DONE, s))"

definition consumer :: "int \<Rightarrow> cstate \<Rightarrow> int \<times> cstate" where
  "consumer kcont s =
     (if kcont = 0 then consumer_for (s\<lparr>consumed := 0\<rparr>)
      else if kcont = 157 then if \<not> 0 < empty_count s then (157, s) else consumer_for (consumer_body s)
      else (ASYNC_DONE, s))"

section \<open>Driver\<close>

text \<open>\<open>async_call\<close>: resume unless done; whether it is done now, the new continuation, the state.\<close>

definition async_call :: "(int \<Rightarrow> cstate \<Rightarrow> int \<times> cstate) \<Rightarrow> int \<Rightarrow> cstate \<Rightarrow> bool \<times> int \<times> cstate" where
  "async_call f kcont s =
     (if kcont = ASYNC_DONE then (True, kcont, s)
      else let (k, s1) = f kcont s in (k = ASYNC_DONE, k, s1))"

text \<open>The value of \<open>producer(&cr_producer) & consumer(&cr_consumer)\<close>; C does not fix which call
  comes first, \<open>left_first\<close> says which.\<close>

definition both :: "bool \<Rightarrow> cstate \<Rightarrow> int \<times> cstate" where
  "both left_first s =
     (if left_first
      then let (a, s1) = producer (cr_producer s) s; (b, s2) = consumer (cr_consumer s1) s1 in (a AND b, s2)
      else let (b, s1) = consumer (cr_consumer s) s; (a, s2) = producer (cr_producer s1) s1 in (a AND b, s2))"

definition driver_await :: "bool \<Rightarrow> cstate \<Rightarrow> int \<times> cstate" where
  "driver_await left_first s = (let (v, s1) = both left_first s in if v = 0 then (176, s1) else (ASYNC_DONE, s1))"

definition driver_thread :: "bool \<Rightarrow> int \<Rightarrow> cstate \<Rightarrow> int \<times> cstate" where
  "driver_thread left_first kcont s =
     (if kcont = 0 then
        driver_await left_first (s\<lparr>empty_count := 0, full_count := of_nat BUFSIZE, cr_producer := ASYNC_INIT, cr_consumer := ASYNC_INIT\<rparr>)
      else if kcont = 176 then driver_await left_first s
      else (ASYNC_DONE, s))"

text \<open>The loop of \<open>main\<close>; \<open>n\<close> counts the calls that did not finish, each followed by \<open>usleep\<close>.\<close>

partial_function (option) main_loop :: "bool \<Rightarrow> int \<Rightarrow> nat \<Rightarrow> cstate \<Rightarrow> (nat \<times> cstate) option" where
  "main_loop left_first kcont n s =
     (let (fin, k, s1) = async_call (driver_thread left_first) kcont s
      in if fin then Some (n, s1) else main_loop left_first k (n + 1) s1)"

definition main_co :: "bool \<Rightarrow> cstate \<Rightarrow> (nat \<times> cstate) option" where
  "main_co left_first s = main_loop left_first ASYNC_INIT 0 s"

text \<open>The static variables at program start.\<close>

definition statics :: cstate where
  "statics = \<lparr>buf = replicate BUFSIZE 0, bufptr = 0, item = 0, full_count = 0, empty_count = 0, produced = 0, consumed = 0,
     cr_producer = 0, cr_consumer = 0, produced_log = [], consumed_log = []\<rparr>"

end
