(* ===== verification/Coroutine_Spec.thy ===== *)
theory Coroutine_Spec
  imports Coroutine
begin

text \<open>
  Two facts about the coroutines.  Resumed with \<open>async_call\<close>, which stores the
  continuation, producer and consumer hand over all items in order under every
  schedule.  The driver, however, calls them without storing what they return, and
  ends after its first call.
\<close>

section \<open>Resuming\<close>

type_synonym corts = "int \<times> int \<times> cstate"

text \<open>One \<open>async_call\<close> of the producer (\<open>True\<close>) or of the consumer.\<close>

definition resume_one :: "bool \<Rightarrow> corts \<Rightarrow> corts" where
  "resume_one b st =
     (let (kp, kc, s) = st in
      if b then let (fin, k, s1) = async_call producer kp s in (k, kc, s1)
      else let (fin, k, s1) = async_call consumer kc s in (kp, k, s1))"

definition resumes :: "bool list \<Rightarrow> corts \<Rightarrow> corts" where
  "resumes bs st = fold resume_one bs st"

definition started :: corts where
  "started = (0, 0, statics\<lparr>full_count := of_nat BUFSIZE\<rparr>)"

text \<open>All states that occur: those of the alternating schedule, and two in which the
  consumer was called before there was an item.\<close>

definition rounds :: "nat \<Rightarrow> bool list" where
  "rounds n = concat (replicate n [True, False])"

definition occurring :: "corts list" where
  "occurring = map (\<lambda>n. resumes (take n (rounds 4)) started) [0..<9] @
     [resumes [False] started, resumes [False, True] started]"

text \<open>\<open>n\<close> items are produced and \<open>m\<close> consumed, in order, and the coroutines are done exactly
  when they have handled all items.\<close>

definition handed_over :: "nat \<Rightarrow> nat \<Rightarrow> corts \<Rightarrow> bool" where
  "handed_over n m st = (case st of (kp, kc, s) \<Rightarrow>
     produced_log s = map int [0..<n] \<and> consumed_log s = map int [0..<m] \<and> m \<le> n \<and> n \<le> m + 8 \<and>
     (kp = ASYNC_DONE \<longleftrightarrow> n = 32) \<and> (kc = ASYNC_DONE \<longleftrightarrow> m = 32))"

definition handed :: "corts \<Rightarrow> bool" where
  "handed st = handed_over (length (produced_log (snd (snd st)))) (length (consumed_log (snd (snd st)))) st"

lemma occurring_closed: "list_all (\<lambda>st. list_ex ((=) (resume_one True st)) occurring \<and> list_ex ((=) (resume_one False st)) occurring) occurring"
  by code_simp

lemma occurring_handed: "list_all handed occurring"
  by code_simp

lemma occurring_ends: "list_all (\<lambda>st. handed_over 32 32 (resumes (rounds 4) st)) occurring"
  by code_simp

lemma started_occurring: "list_ex ((=) started) occurring"
  by code_simp

lemma resumes_occurring: "resumes bs started \<in> set occurring"
proof (induction bs rule: rev_induct)
  case Nil
  show ?case using started_occurring by (auto simp: list_ex_iff resumes_def)
next
  case (snoc b bs)
  have "resumes (bs @ [b]) started = resume_one b (resumes bs started)" by (simp add: resumes_def)
  then show ?case using occurring_closed snoc by (cases b) (auto simp: list_all_iff list_ex_iff)
qed

section \<open>Properties\<close>

text \<open>C35: Under every schedule of \<open>async_call\<close>s the producer has produced the items 0 to n - 1 and
  the consumer has consumed 0 to m - 1, in order and each once, with at most eight items
  waiting; the coroutines report \<open>ASYNC_DONE\<close> exactly when they have handled all 32 items,
  and four more calls of each always suffice for that.\<close>

theorem coroutines_hand_over:
  "(\<exists>n m. handed_over n m (resumes bs started)) \<and> handed_over 32 32 (resumes (bs @ rounds 4) started)"
proof -
  have "resumes (bs @ rounds 4) started = resumes (rounds 4) (resumes bs started)" by (simp add: resumes_def)
  then show ?thesis using resumes_occurring [of bs] occurring_handed occurring_ends by (auto simp: list_all_iff handed_def)
qed

text \<open>The driver calls the two coroutines without storing the continuations they return and
  tests the bitwise conjunction of the two line numbers, which is not zero.  Whichever
  call the compiler evaluates first, \<open>main\<close> ends after one call of the driver: only 8 of
  the 32 items are produced, and either those or none are consumed.\<close>

theorem driver_stops_early:
  "\<exists>s. main_co left_first statics = Some (0, s) \<and> produced_log s = map int [0..<8] \<and>
     consumed_log s = (if left_first then map int [0..<8] else [])"
proof -
  obtain fin k s where c: "async_call (driver_thread left_first) ASYNC_INIT statics = (fin, k, s)" by (rule prod_cases3)
  have "case async_call (driver_thread b) ASYNC_INIT statics of (fin, k, s) \<Rightarrow>
      fin \<and> produced_log s = map int [0..<8] \<and> consumed_log s = (if b then map int [0..<8] else [])" for b
    by (cases b) (simp only:, code_simp)+
  from this [of left_first] show ?thesis unfolding main_co_def by (subst main_loop.simps) (simp add: c)
qed

end
