(* ===== verification/Contention.thy ===== *)
theory Contention
  imports Prelude
begin

text \<open>
  The lock contention benchmark of \<open>mutex-perf/mutexperf.c\<close>: four threads walk hand over
  hand around a ring of five mutexes, after a start protocol with a condition variable
  and one start mutex per thread.  A step is one call of a \<open>pthread\<close> function or one
  access to shared data; \<open>Blocked\<close> is a call that has to wait, \<open>Bad\<close> one whose behaviour
  is undefined (unlocking a mutex of somebody else, destroying a locked mutex).
\<close>

definition CONTENTION_THREAD_COUNT :: nat where "CONTENTION_THREAD_COUNT = 4"
definition CONTENTION_MUTEX_COUNT :: nat where "CONTENTION_MUTEX_COUNT = CONTENTION_THREAD_COUNT + 1"

section \<open>State\<close>

datatype thread_pc =
  New | Lock_First | Ready_Lock | Ready | Signal | Ready_Unlock | Start_Lock | Start_Unlock |
  Loop | Loop_Unlock | Last_Unlock | Finished

datatype main_pc =
  Create nat | M_Ready_Lock | M_Test | M_Wait | M_Relock | M_Ready_Unlock | M_Start nat | M_Join nat | M_Done

record contention_thread_info =
  tpc :: thread_pc
  index :: nat
  count_j :: int

text \<open>The owners of the mutexes; \<open>CONTENTION_THREAD_COUNT\<close> stands for the main thread.\<close>

record contention_info =
  owner :: "nat \<Rightarrow> nat option"
  ready_owner :: "nat option"
  start_owner :: "nat \<Rightarrow> nat option"
  ready_count :: nat
  thread_reps :: int
  thr :: "nat \<Rightarrow> contention_thread_info"
  mpc :: main_pc

datatype outcome = Blocked | Next contention_info | Bad

definition set_thr :: "nat \<Rightarrow> contention_thread_info \<Rightarrow> contention_info \<Rightarrow> contention_info" where
  "set_thr t u s = s\<lparr>thr := (thr s)(t := u)\<rparr>"

section \<open>Steps\<close>

definition contention_thread :: "nat \<Rightarrow> contention_info \<Rightarrow> outcome" where
  "contention_thread t s =
     (let u = thr s t; i = index u; next = (i + 1) mod CONTENTION_MUTEX_COUNT in
      case tpc u of
        New \<Rightarrow> Blocked
      | Lock_First \<Rightarrow>
          if owner s i = None
          then Next (set_thr t (u\<lparr>tpc := Ready_Lock\<rparr>) (s\<lparr>owner := (owner s)(i \<mapsto> t)\<rparr>))
          else Blocked
      | Ready_Lock \<Rightarrow>
          if ready_owner s = None
          then Next (set_thr t (u\<lparr>tpc := Ready\<rparr>) (s\<lparr>ready_owner := Some t\<rparr>))
          else Blocked
      | Ready \<Rightarrow>
          Next (set_thr t (u\<lparr>tpc := (if ready_count s + 1 = CONTENTION_THREAD_COUNT then Signal else Ready_Unlock)\<rparr>)
            (s\<lparr>ready_count := ready_count s + 1\<rparr>))
      | Signal \<Rightarrow>
          Next (set_thr t (u\<lparr>tpc := Ready_Unlock\<rparr>) (s\<lparr>mpc := (if mpc s = M_Wait then M_Relock else mpc s)\<rparr>))
      | Ready_Unlock \<Rightarrow>
          if ready_owner s = Some t
          then Next (set_thr t (u\<lparr>tpc := Start_Lock\<rparr>) (s\<lparr>ready_owner := None\<rparr>))
          else Bad
      | Start_Lock \<Rightarrow>
          if start_owner s t = None
          then Next (set_thr t (u\<lparr>tpc := Start_Unlock\<rparr>) (s\<lparr>start_owner := (start_owner s)(t \<mapsto> t)\<rparr>))
          else Blocked
      | Start_Unlock \<Rightarrow>
          if start_owner s t = Some t
          then Next (set_thr t (u\<lparr>tpc := Loop, count_j := 1\<rparr>) (s\<lparr>start_owner := (start_owner s)(t := None)\<rparr>))
          else Bad
      | Loop \<Rightarrow>
          if count_j u < thread_reps s
          then if owner s next = None
               then Next (set_thr t (u\<lparr>tpc := Loop_Unlock\<rparr>) (s\<lparr>owner := (owner s)(next \<mapsto> t)\<rparr>))
               else Blocked
          else Next (set_thr t (u\<lparr>tpc := Last_Unlock\<rparr>) s)
      | Loop_Unlock \<Rightarrow>
          if owner s i = Some t
          then Next (set_thr t (u\<lparr>tpc := Loop, index := next, count_j := count_j u + 1\<rparr>) (s\<lparr>owner := (owner s)(i := None)\<rparr>))
          else Bad
      | Last_Unlock \<Rightarrow>
          if owner s i = Some t
          then Next (set_thr t (u\<lparr>tpc := Finished\<rparr>) (s\<lparr>owner := (owner s)(i := None)\<rparr>))
          else Bad
      | Finished \<Rightarrow> Blocked)"

text \<open>The main thread.  Creating thread \<open>i\<close> includes locking its new start mutex; joining
  includes destroying the mutexes.\<close>

definition contention :: "contention_info \<Rightarrow> outcome" where
  "contention s =
     (let me = CONTENTION_THREAD_COUNT in
      case mpc s of
        Create i \<Rightarrow>
          Next (set_thr i \<lparr>tpc = Lock_First, index = i, count_j = 1\<rparr>
            (s\<lparr>start_owner := (start_owner s)(i \<mapsto> me),
               mpc := (if i + 1 < CONTENTION_THREAD_COUNT then Create (i + 1) else M_Ready_Lock)\<rparr>))
      | M_Ready_Lock \<Rightarrow> if ready_owner s = None then Next (s\<lparr>ready_owner := Some me, mpc := M_Test\<rparr>) else Blocked
      | M_Test \<Rightarrow>
          if ready_count s < CONTENTION_THREAD_COUNT
          then if ready_owner s = Some me then Next (s\<lparr>ready_owner := None, mpc := M_Wait\<rparr>) else Bad
          else Next (s\<lparr>mpc := M_Ready_Unlock\<rparr>)
      | M_Wait \<Rightarrow> Blocked
      | M_Relock \<Rightarrow> if ready_owner s = None then Next (s\<lparr>ready_owner := Some me, mpc := M_Test\<rparr>) else Blocked
      | M_Ready_Unlock \<Rightarrow> if ready_owner s = Some me then Next (s\<lparr>ready_owner := None, mpc := M_Start 0\<rparr>) else Bad
      | M_Start i \<Rightarrow>
          if start_owner s i = Some me
          then Next (s\<lparr>start_owner := (start_owner s)(i := None),
                 mpc := (if i + 1 < CONTENTION_THREAD_COUNT then M_Start (i + 1) else M_Join 0)\<rparr>)
          else Bad
      | M_Join i \<Rightarrow>
          if tpc (thr s i) = Finished
          then if start_owner s i \<noteq> None then Bad
               else if i + 1 < CONTENTION_THREAD_COUNT then Next (s\<lparr>mpc := M_Join (i + 1)\<rparr>)
               else if (\<exists>m<CONTENTION_MUTEX_COUNT. owner s m \<noteq> None) \<or> ready_owner s \<noteq> None then Bad
               else Next (s\<lparr>mpc := M_Done\<rparr>)
          else Blocked
      | M_Done \<Rightarrow> Blocked)"

text \<open>\<open>pthread_cond_wait\<close> may return although nothing was signalled.\<close>

definition spurious_wakeup :: "contention_info \<Rightarrow> outcome" where
  "spurious_wakeup s = (if mpc s = M_Wait then Next (s\<lparr>mpc := M_Relock\<rparr>) else Blocked)"

text \<open>A step of the program; the flag is \<open>False\<close> for a spurious wakeup.\<close>

inductive contention_step :: "contention_info \<Rightarrow> bool \<Rightarrow> contention_info \<Rightarrow> bool" where
  thread: "t < CONTENTION_THREAD_COUNT \<Longrightarrow> contention_thread t s = Next s' \<Longrightarrow> contention_step s True s'"
| main: "contention s = Next s' \<Longrightarrow> contention_step s True s'"
| spurious: "spurious_wakeup s = Next s' \<Longrightarrow> contention_step s False s'"

definition contention_start :: "nat \<Rightarrow> contention_info" where
  "contention_start reps = \<lparr>owner = (\<lambda>_. None), ready_owner = None, start_owner = (\<lambda>_. None), ready_count = 0,
     thread_reps = int (reps div CONTENTION_THREAD_COUNT), thr = (\<lambda>_. \<lparr>tpc = New, index = 0, count_j = 0\<rparr>), mpc = Create 0\<rparr>"

section \<open>Results\<close>

text \<open>The overall start and stop times from those of the threads.\<close>

definition total_times :: "(int \<times> int) list \<Rightarrow> int \<times> int" where
  "total_times infos = (case infos of
      [] \<Rightarrow> (0, 0)
    | (b, e) # rest \<Rightarrow> fold (\<lambda>(st, sp) (rs, re). (if st < rs then st else rs, if sp > re then sp else re)) rest (b, e))"

definition cmp_int64 :: "int \<Rightarrow> int \<Rightarrow> int" where
  "cmp_int64 a b = (if a < b then -1 else if a > b then 1 else 0)"

end
