(* ===== verification/Contention_Spec.thy ===== *)
theory Contention_Spec
  imports Contention
begin

text \<open>
  The benchmark has no deadlock and ends.  The invariant relates the owners of all
  mutexes to the positions of the threads; progress is the argument that four threads
  cannot hold a ring of five mutexes.
\<close>

section \<open>Invariant\<close>

lemmas counts = CONTENTION_THREAD_COUNT_def CONTENTION_MUTEX_COUNT_def

text \<open>The mutexes of the ring a thread holds.\<close>

definition held :: "contention_thread_info \<Rightarrow> nat set" where
  "held u = (case tpc u of
      New \<Rightarrow> {} | Lock_First \<Rightarrow> {} | Finished \<Rightarrow> {}
    | Loop_Unlock \<Rightarrow> {index u, (index u + 1) mod 5} | _ \<Rightarrow> {index u})"

definition counted :: "thread_pc \<Rightarrow> bool" where
  "counted p = (p \<notin> {New, Lock_First, Ready_Lock, Ready})"

definition running :: "thread_pc \<Rightarrow> bool" where
  "running p = (p \<in> {Start_Unlock, Loop, Loop_Unlock, Last_Unlock, Finished})"

text \<open>What the position of the main thread says about thread \<open>t\<close>.\<close>

definition created :: "main_pc \<Rightarrow> nat \<Rightarrow> bool" where
  "created p t = (case p of Create i \<Rightarrow> t < i | _ \<Rightarrow> True)"

definition released :: "main_pc \<Rightarrow> nat \<Rightarrow> bool" where
  "released p t = (case p of M_Start i \<Rightarrow> t < i | M_Join i \<Rightarrow> True | M_Done \<Rightarrow> True | _ \<Rightarrow> False)"

definition past_wait :: "main_pc \<Rightarrow> bool" where
  "past_wait p = (case p of M_Ready_Unlock \<Rightarrow> True | M_Start i \<Rightarrow> True | M_Join i \<Rightarrow> True | M_Done \<Rightarrow> True | _ \<Rightarrow> False)"

definition joined :: "main_pc \<Rightarrow> nat \<Rightarrow> bool" where
  "joined p t = (case p of M_Join i \<Rightarrow> t < i | M_Done \<Rightarrow> True | _ \<Rightarrow> False)"

definition main_index :: "main_pc \<Rightarrow> bool" where
  "main_index p = (case p of Create i \<Rightarrow> i < 4 | M_Start i \<Rightarrow> i < 4 | M_Join i \<Rightarrow> i < 4 | _ \<Rightarrow> True)"

text \<open>The ring, seen from each thread.\<close>

definition ring_inv :: "contention_info \<Rightarrow> bool" where
  "ring_inv s \<longleftrightarrow> (\<forall>m t. owner s m = Some t \<longleftrightarrow> t < 4 \<and> m \<in> held (thr s t)) \<and>
     (\<forall>t<4. index (thr s t) < 5 \<and> (tpc (thr s t) = Loop_Unlock \<longrightarrow> count_j (thr s t) < thread_reps s) \<and>
        (tpc (thr s t) \<noteq> New \<and> \<not> running (tpc (thr s t)) \<longrightarrow> index (thr s t) = t))"

definition ready_inv :: "contention_info \<Rightarrow> bool" where
  "ready_inv s \<longleftrightarrow>
     (\<forall>t. ready_owner s = Some t \<longleftrightarrow> t < 4 \<and> tpc (thr s t) \<in> {Ready, Signal, Ready_Unlock} \<or> t = 4 \<and> mpc s \<in> {M_Test, M_Ready_Unlock}) \<and>
     ready_count s = card {t. t < 4 \<and> counted (tpc (thr s t))} \<and>
     (past_wait (mpc s) \<longrightarrow> ready_count s = 4) \<and>
     (mpc s = M_Wait \<and> ready_count s = 4 \<longrightarrow> (\<exists>t<4. tpc (thr s t) = Signal))"

definition start_at :: "main_pc \<Rightarrow> thread_pc \<Rightarrow> nat option \<Rightarrow> nat \<Rightarrow> bool" where
  "start_at p q w t \<longleftrightarrow> (q = New \<longleftrightarrow> \<not> created p t) \<and> (running q \<longrightarrow> released p t) \<and> (joined p t \<longrightarrow> q = Finished) \<and>
     w = (if q = Start_Unlock then Some t else if created p t \<and> \<not> released p t then Some 4 else None)"

definition start_inv :: "contention_info \<Rightarrow> bool" where
  "start_inv s \<longleftrightarrow> main_index (mpc s) \<and> (\<forall>t<4. start_at (mpc s) (tpc (thr s t)) (start_owner s t) t)"

definition cinv :: "contention_info \<Rightarrow> bool" where
  "cinv s \<longleftrightarrow> ring_inv s \<and> ready_inv s \<and> start_inv s"

lemmas pos_defs = held_def counted_def running_def created_def released_def past_wait_def joined_def main_index_def

lemma cinv_start: "cinv (contention_start reps)"
  by (simp add: cinv_def ring_inv_def ready_inv_def start_inv_def start_at_def contention_start_def pos_defs)

lemma card_upd:
  assumes "t < 4"
  shows "card {x. x < 4 \<and> P ((f(t := u)) x)} + of_bool (P (f t)) = card {x. x < (4::nat) \<and> P (f x)} + of_bool (P u)"
proof -
  let ?A = "{x. x < 4 \<and> x \<noteq> t \<and> P (f x)}"
  have c: "card {x. x < 4 \<and> P (g x)} = card ?A + of_bool (P (g t))" if "\<And>x. x \<noteq> t \<Longrightarrow> g x = f x" for g
  proof (cases "P (g t)")
    case True
    then have "{x. x < 4 \<and> P (g x)} = insert t ?A" using that assms by auto
    then show ?thesis using True by simp
  next
    case False
    then have "{x. x < 4 \<and> P (g x)} = ?A" using that by (metis (lifting))
    then show ?thesis using False by simp
  qed
  show ?thesis using c [of "f(t := u)"] c [of f] by simp
qed

lemma ring_invD:
  assumes "ring_inv s"
  shows "owner s m = Some t \<longleftrightarrow> t < 4 \<and> m \<in> held (thr s t)" "t < 4 \<Longrightarrow> index (thr s t) < 5"
    "t < 4 \<Longrightarrow> tpc (thr s t) = Loop_Unlock \<Longrightarrow> count_j (thr s t) < thread_reps s"
    "t < 4 \<Longrightarrow> tpc (thr s t) \<noteq> New \<Longrightarrow> \<not> running (tpc (thr s t)) \<Longrightarrow> index (thr s t) = t"
  using assms unfolding ring_inv_def by blast+

lemma ring_upd:
  assumes R: "ring_inv s" "t < 4" and T: "thr s' = (thr s)(t := u)" "thread_reps s' = thread_reps s"
    and O: "\<And>m. owner s' m = (if m \<in> held u then Some t else if m \<in> held (thr s t) then None else owner s m)"
    and F: "\<And>m. m \<in> held u \<Longrightarrow> m \<notin> held (thr s t) \<Longrightarrow> owner s m = None"
    and U: "index u < 5" "tpc u = Loop_Unlock \<longrightarrow> count_j u < thread_reps s" "tpc u \<noteq> New \<and> \<not> running (tpc u) \<longrightarrow> index u = t"
  shows "ring_inv s'"
proof -
  note D = ring_invD [OF R(1)]
  have "owner s' m = Some v \<longleftrightarrow> v < 4 \<and> m \<in> held (thr s' v)" for m v
  proof (cases "v = t")
    case True
    have "owner s m = Some t \<Longrightarrow> m \<in> held (thr s t)" using D(1) by blast
    then show ?thesis using True O [of m] T R(2) by auto
  next
    case False
    have "owner s m = Some v \<Longrightarrow> m \<notin> held u \<and> m \<notin> held (thr s t)" using D(1) [of m t] D(1) [of m v] F [of m] False R(2) by auto
    then show ?thesis using False O [of m] T D(1) [of m v] by auto
  qed
  then show ?thesis using D(2-4) T U unfolding ring_inv_def by auto
qed

lemma ring_thread:
  assumes I: "ring_inv s" "t < 4" and N: "contention_thread t s = Next s'"
  shows "ring_inv s'"
proof (rule ring_upd [OF I, of s' "thr s' t"])
  note D = ring_invD [OF I(1)]
  show "thr s' = (thr s)(t := thr s' t)" "thread_reps s' = thread_reps s" using N
    by (cases "tpc (thr s t)"; auto simp: contention_thread_def set_thr_def Let_def split: if_splits)+
  have nx: "Suc (index (thr s t)) mod 5 \<noteq> index (thr s t)" "index (thr s t) \<noteq> Suc (index (thr s t)) mod 5"
    using D(2) [OF I(2)] by presburger+
  have ow: "\<And>m. m \<in> held (thr s t) \<Longrightarrow> owner s m = Some t" using D(1) I(2) by blast
  show "owner s' m = (if m \<in> held (thr s' t) then Some t else if m \<in> held (thr s t) then None else owner s m)" for m using N ow [of m] nx
    by (cases "tpc (thr s t)"; auto simp: contention_thread_def set_thr_def Let_def held_def counts split: if_splits)
  show "owner s m = None" if "m \<in> held (thr s' t)" "m \<notin> held (thr s t)" for m using N that
    by (cases "tpc (thr s t)"; auto simp: contention_thread_def set_thr_def Let_def held_def counts split: if_splits)
  show "index (thr s' t) < 5" "tpc (thr s' t) = Loop_Unlock \<longrightarrow> count_j (thr s' t) < thread_reps s"
    "tpc (thr s' t) \<noteq> New \<and> \<not> running (tpc (thr s' t)) \<longrightarrow> index (thr s' t) = t" using N D(2-4) [OF I(2)]
    by (cases "tpc (thr s t)"; auto simp: contention_thread_def set_thr_def Let_def running_def counts split: if_splits)+
qed

lemma ready_invD:
  assumes "ready_inv s"
  shows "ready_owner s = Some t \<longleftrightarrow> t < 4 \<and> tpc (thr s t) \<in> {Ready, Signal, Ready_Unlock} \<or> t = 4 \<and> mpc s \<in> {M_Test, M_Ready_Unlock}"
    "ready_count s = card {t. t < 4 \<and> counted (tpc (thr s t))}" "past_wait (mpc s) \<Longrightarrow> ready_count s = 4"
    "mpc s = M_Wait \<Longrightarrow> ready_count s = 4 \<Longrightarrow> \<exists>t<4. tpc (thr s t) = Signal"
  using assms unfolding ready_inv_def by blast+

lemma all_counted:
  assumes "ready_inv s" "ready_count s = 4" "t < 4"
  shows "counted (tpc (thr s t))"
proof -
  have "{t. t < 4 \<and> counted (tpc (thr s t))} = {t. t < 4}"
    using assms(1,2) ready_invD(2) by (intro card_subset_eq) auto
  then show ?thesis using assms(3) by blast
qed

lemma thread_frame:
  assumes "contention_thread t s = Next s'"
  shows "\<exists>u. thr s' = (thr s)(t := u)" "mpc s' = (if tpc (thr s t) = Signal \<and> mpc s = M_Wait then M_Relock else mpc s)"
    "ready_count s' = (if tpc (thr s t) = Ready then ready_count s + 1 else ready_count s)"
    "counted (tpc (thr s' t)) = (counted (tpc (thr s t)) \<or> tpc (thr s t) = Ready)"
  using assms
  by (cases "tpc (thr s t)"; force simp: contention_thread_def set_thr_def Let_def counted_def split: if_splits)+

lemma ready_thread:
  assumes I: "ready_inv s" "t < 4" and N: "contention_thread t s = Next s'"
  shows "ready_inv s'"
proof -
  note D = ready_invD [OF I(1)]
  note F = thread_frame [OF N]
  obtain u where u: "thr s' = (thr s)(t := u)" using F(1) by blast
  have pw: "past_wait (mpc s') = past_wait (mpc s)" using F(2) by (simp add: past_wait_def)
  have u': "(thr s)(t := thr s' t) = thr s'" using u by simp
  have cr: "\<not> counted Ready" by (simp add: counted_def)
  have c: "ready_count s' = card {x. x < 4 \<and> counted (tpc (thr s' x))}"
    using card_upd [OF I(2), of "\<lambda>u. counted (tpc u)" "thr s" "thr s' t", unfolded u'] F(3,4) D(2) cr by (cases "tpc (thr s t) = Ready") simp_all
  have nr: "tpc (thr s t) \<noteq> Ready" if "ready_count s = 4" using all_counted [OF I(1) that I(2)] by (auto simp: counted_def)
  have w: "\<exists>v<4. tpc (thr s' v) = Signal" if M: "mpc s' = M_Wait" "ready_count s' = 4"
  proof (cases "tpc (thr s t) = Ready")
    case True
    then have "tpc (thr s' t) = Signal" using N M(2) by (auto simp: contention_thread_def set_thr_def Let_def counts split: if_splits)
    then show ?thesis using I(2) by blast
  next
    case False
    have "mpc s = M_Wait" "tpc (thr s t) \<noteq> Signal" using M(1) F(2) by (auto split: if_splits)
    moreover then obtain v where "v < 4" "tpc (thr s v) = Signal" using D(4) M(2) F(3) False by auto
    ultimately show ?thesis using u by (intro exI [of _ v]) auto
  qed
  have "ready_owner s' = Some v \<longleftrightarrow> v < 4 \<and> tpc (thr s' v) \<in> {Ready, Signal, Ready_Unlock} \<or> v = 4 \<and> mpc s' \<in> {M_Test, M_Ready_Unlock}" for v
    using N D(1) [of v] D(1) [of t] I(2)
    by (cases "tpc (thr s t)"; auto simp: contention_thread_def set_thr_def Let_def split: if_splits)
  then show ?thesis unfolding ready_inv_def using c pw D(3) nr F(3) w by auto
qed

lemma start_invD:
  assumes "start_inv s"
  shows "main_index (mpc s)" "t < 4 \<Longrightarrow> start_at (mpc s) (tpc (thr s t)) (start_owner s t) t"
  using assms unfolding start_inv_def by blast+

lemma start_thread:
  assumes I: "start_inv s" "t < 4" and N: "contention_thread t s = Next s'"
  shows "start_inv s'"
proof -
  note D = start_invD [OF I(1)]
  note F = thread_frame [OF N]
  obtain u where u: "thr s' = (thr s)(t := u)" using F(1) by blast
  have m: "main_index (mpc s') = main_index (mpc s)" "start_at (mpc s') = start_at (mpc s)"
    using F(2) by (auto simp: main_index_def start_at_def created_def released_def joined_def fun_eq_iff)
  have so: "start_owner s' v = start_owner s v" if "v \<noteq> t" for v
    using N that by (cases "tpc (thr s t)"; auto simp: contention_thread_def set_thr_def Let_def split: if_splits)
  have "start_at (mpc s) (tpc (thr s' t)) (start_owner s' t) t"
    using N D(2) [OF I(2)] I(2)
    by (cases "tpc (thr s t)"; auto simp: contention_thread_def set_thr_def Let_def start_at_def running_def split: if_splits)
  moreover have "start_at (mpc s) (tpc (thr s' v)) (start_owner s' v) v" if "v < 4" "v \<noteq> t" for v
    using D(2) [OF that(1)] so [OF that(2)] u that(2) by simp
  ultimately show ?thesis unfolding start_inv_def m using D(1) by blast
qed

lemma cinv_thread: "cinv s \<Longrightarrow> t < 4 \<Longrightarrow> contention_thread t s = Next s' \<Longrightarrow> cinv s'"
  unfolding cinv_def using ring_thread ready_thread start_thread by blast

section \<open>Steps of the main thread\<close>

lemma ring_main:
  assumes I: "cinv s" and N: "contention s = Next s'"
  shows "ring_inv s'"
proof (cases "mpc s")
  case (Create i)
  have i: "i < 4" "tpc (thr s i) = New" using I Create by (auto simp: cinv_def start_inv_def main_index_def start_at_def created_def)
  have s': "thr s' = (thr s)(i := \<lparr>tpc = Lock_First, index = i, count_j = 1\<rparr>)" "owner s' = owner s" "thread_reps s' = thread_reps s"
    using N Create by (auto simp: contention_def set_thr_def)
  show ?thesis by (rule ring_upd [OF _ i(1) s'(1)]) (use I i s' in \<open>auto simp: cinv_def held_def\<close>)
qed (use I N in \<open>auto simp: cinv_def ring_inv_def contention_def Let_def split: if_splits\<close>)

lemma ready_count_le: "ready_inv s \<Longrightarrow> ready_count s \<le> 4"
  using card_mono [of "{..<4}" "{t. t < 4 \<and> counted (tpc (thr s t))}"] ready_invD(2) [of s] by auto

lemma ready_main_other:
  assumes R: "ready_inv s" and N: "contention s = Next s'" and m: "\<And>i. mpc s \<noteq> Create i"
  shows "ready_inv s'"
proof -
  note D = ready_invD [OF R]
  have f: "thr s' = thr s" "ready_count s' = ready_count s"
    using N m by (cases "mpc s"; auto simp: contention_def Let_def split: if_splits)+
  have "ready_owner s' = Some v \<longleftrightarrow> v < 4 \<and> tpc (thr s v) \<in> {Ready, Signal, Ready_Unlock} \<or> v = 4 \<and> mpc s' \<in> {M_Test, M_Ready_Unlock}" for v
    using N m D(1) [of v] by (cases "mpc s") (auto simp: contention_def Let_def counts split: if_splits)
  moreover have "ready_count s = 4" if "past_wait (mpc s')"
    using N m D(3) that ready_count_le [OF R]
    by (cases "mpc s") (auto simp: contention_def Let_def counts past_wait_def split: if_splits)
  moreover have "ready_count s \<noteq> 4" if "mpc s' = M_Wait"
    using N m that by (cases "mpc s") (auto simp: contention_def Let_def counts split: if_splits)
  ultimately show ?thesis unfolding ready_inv_def f using D(2) by blast
qed

lemma ready_main:
  assumes I: "cinv s" and N: "contention s = Next s'"
  shows "ready_inv s'"
proof (cases "mpc s")
  case (Create i)
  have R: "ready_inv s" and i: "i < 4" "tpc (thr s i) = New"
    using I Create by (auto simp: cinv_def start_inv_def main_index_def start_at_def created_def)
  note D = ready_invD [OF R]
  have s': "thr s' = (thr s)(i := \<lparr>tpc = Lock_First, index = i, count_j = 1\<rparr>)" "ready_owner s' = ready_owner s"
    "ready_count s' = ready_count s" "mpc s' \<noteq> M_Wait" "\<not> past_wait (mpc s')" "mpc s' \<notin> {M_Test, M_Ready_Unlock}"
    using N Create by (auto simp: contention_def set_thr_def past_wait_def split: if_splits)
  have "ready_count s' = card {x. x < 4 \<and> counted (tpc (thr s' x))}"
    using card_upd [OF i(1), of "\<lambda>u. counted (tpc u)" "thr s"] i(2) s'(1,3) D(2) by (simp add: counted_def)
  moreover have "ready_owner s' = Some v \<longleftrightarrow> v < 4 \<and> tpc (thr s' v) \<in> {Ready, Signal, Ready_Unlock} \<or> v = 4 \<and> mpc s' \<in> {M_Test, M_Ready_Unlock}" for v
    using D(1) [of v] i(2) Create s' by auto
  ultimately show ?thesis unfolding ready_inv_def using s'(4,5) by blast
qed (use I ready_main_other [OF _ N] in \<open>simp_all add: cinv_def\<close>)

lemma start_main:
  assumes I: "cinv s" and N: "contention s = Next s'"
  shows "start_inv s'"
proof -
  have S: "start_inv s" using I by (simp add: cinv_def)
  note D = start_invD [OF S]
  have "main_index (mpc s')" using N D(1) by (cases "mpc s") (auto simp: contention_def set_thr_def main_index_def Let_def counts split: if_splits)
  moreover have "start_at (mpc s') (tpc (thr s' t)) (start_owner s' t) t" if t: "t < 4" for t
  proof (cases "mpc s")
    case (M_Join i)
    then have i: "i < 4" using D(1) by (simp add: main_index_def)
    have "t = i \<or> t < i \<or> (i < t \<and> i < 3)" using t i by linarith
    then show ?thesis using N D(2) [OF t] M_Join
      by (elim disjE) (auto simp: contention_def start_at_def Let_def counts created_def released_def joined_def running_def split: if_splits)
  qed (use N D(1) D(2) [OF t] t in \<open>auto simp: contention_def set_thr_def main_index_def start_at_def Let_def counts
      created_def released_def joined_def running_def less_Suc_eq split: if_splits\<close>)
  ultimately show ?thesis by (simp add: start_inv_def)
qed

lemma cinv_main: "cinv s \<Longrightarrow> contention s = Next s' \<Longrightarrow> cinv s'"
  unfolding cinv_def [of s'] using ring_main ready_main start_main by blast

lemma cinv_spurious: "cinv s \<Longrightarrow> spurious_wakeup s = Next s' \<Longrightarrow> cinv s'"
proof -
  assume I: "cinv s" and "spurious_wakeup s = Next s'"
  then have m: "mpc s = M_Wait" and s': "s' = s\<lparr>mpc := M_Relock\<rparr>" by (auto simp: spurious_wakeup_def split: if_splits)
  have "start_at M_Relock = start_at M_Wait" by (simp add: fun_eq_iff start_at_def created_def released_def joined_def)
  then have "start_inv s'" using I m s' by (simp add: cinv_def start_inv_def main_index_def)
  moreover have "ready_inv s'" using I m s' by (simp add: cinv_def ready_inv_def past_wait_def)
  moreover have "ring_inv s'" using I s' by (simp add: cinv_def ring_inv_def)
  ultimately show "cinv s'" by (simp add: cinv_def)
qed

lemma cinv_step: "contention_step s b s' \<Longrightarrow> cinv s \<Longrightarrow> cinv s'"
  by (induction rule: contention_step.induct) (auto simp: counts intro: cinv_thread cinv_main cinv_spurious)

section \<open>No undefined behaviour\<close>

lemma thread_not_bad:
  assumes I: "cinv s" "t < 4"
  shows "contention_thread t s \<noteq> Bad"
proof -
  have r: "ring_inv s" "ready_inv s" "start_inv s" using I by (simp_all add: cinv_def)
  have "owner s (index (thr s t)) = Some t" if "tpc (thr s t) \<in> {Loop_Unlock, Last_Unlock}"
    using that ring_invD(1) [OF r(1), of "index (thr s t)" t] I(2) by (auto simp: held_def)
  then show ?thesis
    using ready_invD(1) [OF r(2), of t] start_invD(2) [OF r(3) I(2)] I(2)
    by (cases "tpc (thr s t)") (auto simp: contention_thread_def Let_def start_at_def)
qed

lemma main_not_bad:
  assumes I: "cinv s"
  shows "contention s \<noteq> Bad"
proof (cases "mpc s")
  case (M_Start i)
  have "i < 4" "start_at (M_Start i) (tpc (thr s i)) (start_owner s i) i"
    using I M_Start start_invD(1) [of s] start_invD(2) [of s i] by (auto simp: cinv_def main_index_def)
  then show ?thesis using M_Start by (auto simp: contention_def start_at_def created_def released_def running_def counts)
next
  case (M_Join i)
  have i: "i < 4" using I M_Join by (auto simp: cinv_def start_inv_def main_index_def)
  have so: "start_owner s i = None" if "tpc (thr s i) = Finished"
    using I M_Join i that start_invD(2) [of s i] by (auto simp: cinv_def start_at_def released_def)
  have "owner s m = None" "ready_owner s = None" if f: "tpc (thr s i) = Finished" "\<not> Suc i < 4" for m
  proof -
    have "tpc (thr s t) = Finished" if "t < 4" for t
    proof (cases "t = i")
      case False
      then have "t < i" using that f(2) by simp
      then show ?thesis using I M_Join that start_invD(2) [of s t] by (auto simp: cinv_def start_at_def joined_def)
    qed (use f in simp)
    then have "owner s m \<noteq> Some t" "ready_owner s \<noteq> Some t" for t
      using I M_Join ring_invD(1) [of s m t] ready_invD(1) [of s t] by (auto simp: cinv_def held_def)
    then show "owner s m = None" "ready_owner s = None" by (metis option.exhaust)+
  qed
  then show ?thesis using M_Join so by (auto simp: contention_def Let_def counts)
qed (use I in \<open>auto simp: contention_def Let_def counts cinv_def ready_inv_def\<close>)

section \<open>Progress\<close>

lemma closed_ring:
  assumes "S \<noteq> {}" "S \<subseteq> {..<5::nat}" "\<And>m. m \<in> S \<Longrightarrow> (m + 1) mod 5 \<in> S"
  shows "S = {..<5}"
proof -
  obtain m where m: "m \<in> S" using assms(1) by blast
  have k: "(m + k) mod 5 \<in> S" for k
  proof (induction k)
    case 0
    have "m mod 5 = m" using m assms(2) by auto
    then show ?case using m by simp
  next
    case (Suc k)
    then show ?case using assms(3) [of "(m + k) mod 5"] by (simp add: mod_Suc_eq)
  qed
  have "n \<in> S" if "n < 5" for n
  proof -
    have "m < 5" using m assms(2) by blast
    then have "(m + (5 + n - m)) mod 5 = n" using that by simp
    then show ?thesis using k [of "5 + n - m"] by simp
  qed
  then show ?thesis using assms(2) by auto
qed

text \<open>Four threads that all wait for their next mutex would hold the whole ring of five.\<close>

lemma ring_free:
  assumes R: "ring_inv s" and A: "\<And>t. t < 4 \<Longrightarrow> tpc (thr s t) = Loop \<or> tpc (thr s t) = Finished" and t: "t < 4" "tpc (thr s t) = Loop"
  shows "\<exists>u<4. tpc (thr s u) = Loop \<and> owner s ((index (thr s u) + 1) mod 5) = None"
proof (rule ccontr)
  assume c: "\<not> ?thesis"
  let ?L = "{u. u < 4 \<and> tpc (thr s u) = Loop}"
  let ?S = "(\<lambda>u. index (thr s u)) ` ?L"
  note D = ring_invD [OF R]
  have "?S = {..<5}"
  proof (rule closed_ring)
    show "?S \<noteq> {}" using t by blast
    show "?S \<subseteq> {..<5}" using D(2) by auto
    fix m assume "m \<in> ?S"
    then obtain u where u: "u < 4" "tpc (thr s u) = Loop" "m = index (thr s u)" by blast
    then obtain v where "owner s ((m + 1) mod 5) = Some v" using c by auto
    then have v: "v < 4" "(m + 1) mod 5 \<in> held (thr s v)" using D(1) by blast+
    then show "(m + 1) mod 5 \<in> ?S" using A [OF v(1)] by (auto simp: held_def)
  qed
  then have "card {..<5::nat} \<le> card ?L" using card_image_le [of ?L "\<lambda>u. index (thr s u)"] by simp
  moreover have "card ?L \<le> card {..<4::nat}" by (rule card_mono) auto
  ultimately show False by simp
qed

definition can_step :: "contention_info \<Rightarrow> bool" where
  "can_step s \<longleftrightarrow> (\<exists>s'. contention_step s True s')"

lemma can_thread: "t < 4 \<Longrightarrow> contention_thread t s = Next s' \<Longrightarrow> can_step s"
  unfolding can_step_def using contention_step.thread [of t s s'] by (auto simp: counts)

lemma can_main: "contention s = Next s' \<Longrightarrow> can_step s"
  unfolding can_step_def using contention_step.main by blast

lemma can_at:
  assumes I: "cinv s" "t < 4" and p: "tpc (thr s t) \<in> {Ready, Signal, Ready_Unlock, Start_Unlock, Loop_Unlock, Last_Unlock}"
  shows "can_step s"
proof (cases "contention_thread t s")
  case Blocked
  then show ?thesis using p by (cases "tpc (thr s t)") (simp_all add: contention_thread_def Let_def split: if_splits)
qed (use can_thread [OF I(2)] thread_not_bad [OF I] in auto)

lemma ready_mutex_free:
  assumes I: "cinv s" and n: "\<not> can_step s" and m: "mpc s \<notin> {M_Test, M_Ready_Unlock}"
  shows "ready_owner s = None"
proof (cases "ready_owner s")
  case (Some t)
  have "ready_inv s" using I by (simp add: cinv_def)
  from ready_invD(1) [OF this, of t] have "t < 4" "tpc (thr s t) \<in> {Ready, Signal, Ready_Unlock}" using Some m by blast+
  then have "can_step s" using can_at [OF I, of t] by blast
  then show ?thesis using n by contradiction
qed

lemma waiting_progress:
  assumes I: "cinv s" and n: "\<not> can_step s" and m: "mpc s = M_Wait"
  shows False
proof -
  have R: "ring_inv s" "ready_inv s" "start_inv s" using I by (simp_all add: cinv_def)
  have "ready_count s \<noteq> 4" using ready_invD(4) [OF R(2) m] can_at [OF I] n by blast
  moreover have "ready_count s = 4" if "\<And>t. t < 4 \<Longrightarrow> counted (tpc (thr s t))"
  proof -
    have "{t. t < 4 \<and> counted (tpc (thr s t))} = {..<4}" using that by auto
    then show ?thesis using ready_invD(2) [OF R(2)] by simp
  qed
  ultimately obtain t where t: "t < 4" "\<not> counted (tpc (thr s t))" by blast
  have c: "start_at M_Wait (tpc (thr s v)) (start_owner s v) v" if "v < 4" for v using start_invD(2) [OF R(3) that] m by simp
  have "tpc (thr s t) \<noteq> Ready" using can_at [OF I t(1)] n by auto
  then have "tpc (thr s t) = Lock_First \<or> tpc (thr s t) = Ready_Lock"
    using t(2) c [OF t(1)] by (auto simp: counted_def start_at_def created_def)
  then show False
  proof
    assume l: "tpc (thr s t) = Lock_First"
    have it: "index (thr s t) = t" using ring_invD(4) [OF R(1) t(1)] l by (simp add: running_def)
    have "owner s t = None"
    proof (cases "owner s t")
      case (Some v)
      then have v: "v < 4" "t \<in> held (thr s v)" using ring_invD(1) [OF R(1)] by blast+
      have nr: "\<not> running (tpc (thr s v))" "tpc (thr s v) \<noteq> New"
        using c [OF v(1)] by (auto simp: start_at_def released_def created_def)
      then have "t = v" using v(2) ring_invD(4) [OF R(1) v(1)] by (cases "tpc (thr s v)") (auto simp: held_def running_def)
      then show ?thesis using v(2) l by (simp add: held_def)
    qed simp
    then show False using can_thread [OF t(1)] n l it by (auto simp: contention_thread_def Let_def)
  next
    assume "tpc (thr s t) = Ready_Lock"
    then show False using can_thread [OF t(1)] n ready_mutex_free [OF I n] m by (auto simp: contention_thread_def Let_def)
  qed
qed

lemma joining_progress:
  assumes I: "cinv s" and n: "\<not> can_step s" and m: "mpc s = M_Join i"
  shows False
proof -
  have R: "ring_inv s" "ready_inv s" "start_inv s" using I by (simp_all add: cinv_def)
  have i: "i < 4" using start_invD(1) [OF R(3)] m by (simp add: main_index_def)
  have "tpc (thr s i) \<noteq> Finished"
    using can_main main_not_bad [OF I] n m by (auto simp: contention_def Let_def split: if_splits)
  have rc: "ready_count s = 4" using ready_invD(3) [OF R(2)] m by (simp add: past_wait_def)
  have A: "tpc (thr s t) = Loop \<or> tpc (thr s t) = Finished" if t: "t < 4" for t
  proof -
    have "tpc (thr s t) \<noteq> Start_Lock"
      using can_thread [OF t] n start_invD(2) [OF R(3) t] m by (auto simp: contention_thread_def Let_def start_at_def released_def)
    then show ?thesis using all_counted [OF R(2) rc t] can_at [OF I t] n by (cases "tpc (thr s t)") (auto simp: counted_def)
  qed
  then have "tpc (thr s i) = Loop" using \<open>tpc (thr s i) \<noteq> Finished\<close> i by blast
  from ring_free [OF R(1) A i this] obtain u where "u < 4" "tpc (thr s u) = Loop" "owner s ((index (thr s u) + 1) mod 5) = None" by blast
  moreover from this have "\<exists>s'. contention_thread u s = Next s'" by (simp add: contention_thread_def Let_def counts)
  ultimately show False using can_thread n by blast
qed

lemma progress:
  assumes I: "cinv s" and d: "mpc s \<noteq> M_Done"
  shows "can_step s"
proof (rule ccontr)
  assume n: "\<not> can_step s"
  have b: "contention s = Blocked" using can_main n main_not_bad [OF I] by (cases "contention s") auto
  have "ready_owner s = None" if "mpc s = M_Ready_Lock \<or> mpc s = M_Relock" using ready_mutex_free [OF I n] that by auto
  then show False using b d waiting_progress [OF I n] joining_progress [OF I n]
    by (cases "mpc s") (auto simp: contention_def Let_def split: if_splits)
qed

section \<open>Termination\<close>

text \<open>The steps left: every step of the program lowers this bound, a spurious wakeup raises it by two.\<close>

fun thread_rank :: "thread_pc \<Rightarrow> nat" where
  "thread_rank New = 16" | "thread_rank Lock_First = 15" | "thread_rank Ready_Lock = 14" | "thread_rank Ready = 13"
| "thread_rank Signal = 12" | "thread_rank Ready_Unlock = 6" | "thread_rank Start_Lock = 5" | "thread_rank Start_Unlock = 4"
| "thread_rank Loop = 2" | "thread_rank Loop_Unlock = 1" | "thread_rank Last_Unlock = 1" | "thread_rank Finished = 0"

definition thread_left :: "int \<Rightarrow> contention_thread_info \<Rightarrow> nat" where
  "thread_left reps u = thread_rank (tpc u) +
     (if running (tpc u) \<and> tpc u \<noteq> Start_Unlock then if tpc u = Loop \<or> tpc u = Loop_Unlock then 2 * nat (reps - count_j u) else 0
      else 2 * nat reps)"

fun main_rank :: "main_pc \<Rightarrow> nat" where
  "main_rank (Create i) = 20 - i" | "main_rank M_Ready_Lock = 14" | "main_rank M_Relock = 13" | "main_rank M_Test = 12"
| "main_rank M_Wait = 11" | "main_rank M_Ready_Unlock = 10" | "main_rank (M_Start i) = 9 - i" | "main_rank (M_Join i) = 5 - i"
| "main_rank M_Done = 0"

definition steps_left :: "contention_info \<Rightarrow> nat" where
  "steps_left s = main_rank (mpc s) + (\<Sum>t<4. thread_left (thread_reps s) (thr s t))"

lemma sum_upd: "t < 4 \<Longrightarrow> (\<Sum>x<4. f ((g(t := u)) x)) + f (g t) = (\<Sum>x<4. f (g x)) + f u"
  for f :: "contention_thread_info \<Rightarrow> nat" and t :: nat
proof -
  assume t: "t < 4"
  have "(\<Sum>x<4. f (h x)) = f (h t) + (\<Sum>x\<in>{..<4} - {t}. f (h x))" for h using t by (simp add: sum.remove)
  moreover have "(\<Sum>x\<in>{..<4} - {t}. f ((g(t := u)) x)) = (\<Sum>x\<in>{..<4} - {t}. f (g x))" by (intro sum.cong) auto
  ultimately show ?thesis by simp
qed

lemma thread_lowers:
  assumes I: "cinv s" "t < 4" and N: "contention_thread t s = Next s'"
  shows "steps_left s' < steps_left s"
proof -
  note F = thread_frame [OF N]
  obtain u where u: "thr s' = (thr s)(t := u)" using F(1) by blast
  have r: "thread_reps s' = thread_reps s"
    using N by (cases "tpc (thr s t)") (auto simp: contention_thread_def set_thr_def Let_def split: if_splits)
  have j: "tpc (thr s t) = Loop_Unlock \<Longrightarrow> count_j (thr s t) < thread_reps s" using I ring_invD(3) by (auto simp: cinv_def)
  have "thread_left (thread_reps s) (thr s' t) + (if tpc (thr s t) = Signal then 4 else 0) < thread_left (thread_reps s) (thr s t)"
    using N j by (cases "tpc (thr s t)") (auto simp: contention_thread_def set_thr_def Let_def thread_left_def running_def split: if_splits)
  moreover have "main_rank (mpc s') \<le> main_rank (mpc s) + (if tpc (thr s t) = Signal then 4 else 0)" using F(2) by simp
  moreover have "(\<Sum>x<4. thread_left (thread_reps s) (thr s' x)) + thread_left (thread_reps s) (thr s t) =
      (\<Sum>x<4. thread_left (thread_reps s) (thr s x)) + thread_left (thread_reps s) (thr s' t)"
    using sum_upd [OF I(2), of "thread_left (thread_reps s)" "thr s" u] u by simp
  ultimately show ?thesis unfolding steps_left_def r by linarith
qed

lemma main_lowers:
  assumes I: "cinv s" and N: "contention s = Next s'"
  shows "steps_left s' < steps_left s"
proof (cases "mpc s")
  case (Create i)
  have i: "i < 4" "tpc (thr s i) = New" using I Create by (auto simp: cinv_def start_inv_def main_index_def start_at_def created_def)
  have s': "thr s' = (thr s)(i := \<lparr>tpc = Lock_First, index = i, count_j = 1\<rparr>)" "thread_reps s' = thread_reps s"
    "mpc s' = (if i + 1 < 4 then Create (i + 1) else M_Ready_Lock)"
    using N Create by (auto simp: contention_def set_thr_def counts)
  have "main_rank (mpc s') \<le> main_rank (mpc s)" using s'(3) Create i by auto
  then show ?thesis using sum_upd [OF i(1), of "thread_left (thread_reps s)" "thr s" "thr s' i"] s' i
    by (simp add: steps_left_def thread_left_def running_def)
next
  case (M_Start i)
  then show ?thesis using I N by (auto simp: contention_def Let_def counts steps_left_def cinv_def start_inv_def main_index_def split: if_splits)
next
  case (M_Join i)
  then show ?thesis using I N by (auto simp: contention_def Let_def counts steps_left_def cinv_def start_inv_def main_index_def split: if_splits)
qed (use N in \<open>auto simp: contention_def Let_def counts steps_left_def split: if_splits\<close>)

lemma spurious_raises: "spurious_wakeup s = Next s' \<Longrightarrow> steps_left s' = steps_left s + 2"
  by (auto simp: spurious_wakeup_def steps_left_def split: if_splits)

section \<open>Properties\<close>

text \<open>Runs with \<open>n\<close> steps of the program and \<open>k\<close> spurious wakeups.\<close>

inductive contention_run :: "contention_info \<Rightarrow> nat \<Rightarrow> nat \<Rightarrow> contention_info \<Rightarrow> bool" where
  run_start: "contention_run s 0 0 s"
| run_step: "contention_run s n k s' \<Longrightarrow> contention_step s' True s'' \<Longrightarrow> contention_run s (Suc n) k s''"
| run_wakeup: "contention_run s n k s' \<Longrightarrow> contention_step s' False s'' \<Longrightarrow> contention_run s n (Suc k) s''"

inductive_cases real_stepE: "contention_step s True s'"
inductive_cases wakeup_stepE: "contention_step s False s'"

lemma real_lowers: "contention_step s True s' \<Longrightarrow> cinv s \<Longrightarrow> steps_left s' < steps_left s"
  by (erule real_stepE) (auto simp: counts intro: thread_lowers main_lowers)

lemma run_inv: "contention_run s n k s' \<Longrightarrow> cinv s \<Longrightarrow> cinv s' \<and> n + steps_left s' \<le> steps_left s + 2 * k"
proof (induction rule: contention_run.induct)
  case (run_step s n k s' s'')
  then show ?case using cinv_step real_lowers [of s' s''] by fastforce
next
  case (run_wakeup s n k s' s'')
  then show ?case using cinv_step spurious_raises [of s' s''] by (fastforce elim: wakeup_stepE)
qed simp

lemma steps_left_start: "steps_left (contention_start reps) = 84 + 8 * (reps div 4)"
  by (simp add: steps_left_def contention_start_def thread_left_def running_def counts)

text \<open>C36: In every run of the benchmark, with any number of repetitions, any schedule and any
  spurious wakeups, no thread unlocks a mutex it does not own and no locked mutex is
  destroyed; as long as the main thread has not finished, some thread can go on (the ring of
  five mutexes cannot deadlock with four threads); and the number of steps is bounded, so
  the benchmark ends.  At the end all threads have finished and every mutex is free.\<close>

theorem contention_ends:
  assumes "contention_run (contention_start reps) n k s"
  shows "(\<forall>t<CONTENTION_THREAD_COUNT. contention_thread t s \<noteq> Bad) \<and> contention s \<noteq> Bad \<and>
    (mpc s \<noteq> M_Done \<longrightarrow> (\<exists>s'. contention_step s True s')) \<and> n \<le> 84 + 8 * (reps div 4) + 2 * k \<and>
    (mpc s = M_Done \<longrightarrow> (\<forall>t<CONTENTION_THREAD_COUNT. tpc (thr s t) = Finished) \<and> (\<forall>m. owner s m = None) \<and> ready_owner s = None)"
proof -
  have I: "cinv s" "n + steps_left s \<le> 84 + 8 * (reps div 4) + 2 * k"
    using run_inv [OF assms cinv_start] steps_left_start by simp_all
  have R: "ring_inv s" "ready_inv s" "start_inv s" using I(1) by (simp_all add: cinv_def)
  have "(\<forall>t<4. tpc (thr s t) = Finished) \<and> (\<forall>m. owner s m = None) \<and> ready_owner s = None" if d: "mpc s = M_Done"
  proof -
    have f: "tpc (thr s t) = Finished" if "t < 4" for t using start_invD(2) [OF R(3) that] d by (simp add: start_at_def joined_def)
    have "owner s m \<noteq> Some t" "ready_owner s \<noteq> Some t" for m t
      using ring_invD(1) [OF R(1), of m t] ready_invD(1) [OF R(2), of t] f [of t] d by (auto simp: held_def)
    then show ?thesis using f by (metis option.exhaust)
  qed
  then show ?thesis using thread_not_bad [OF I(1)] main_not_bad [OF I(1)] progress [OF I(1)] I(2) by (auto simp: counts can_step_def)
qed

theorem contention_ends_witness:
  "\<exists>s. contention_run (contention_start 100000) 1 0 s \<and> contention s \<noteq> Bad \<and> (\<exists>s'. contention_step s True s')"
proof -
  obtain s where s: "contention (contention_start 100000) = Next s" "mpc s = Create 1"
    by (simp add: contention_def contention_start_def set_thr_def counts Let_def)
  have r: "contention_run (contention_start 100000) 1 0 s"
    using run_step [OF run_start contention_step.main [OF s(1)]] by simp
  show ?thesis using r contention_ends [OF r] s(2) by auto
qed

text \<open>The times reported are the earliest start and the latest stop, and \<open>cmp_int64\<close> is the order.\<close>

lemma total_fold:
  "fold (\<lambda>(st, sp) (rs, re). (if st < rs then st else rs, if sp > re then sp else re)) rest (b, e) =
     (fold min (map fst rest) b, fold max (map snd rest) e)" for b e :: int
  by (induction rest arbitrary: b e) (auto simp: min_def max_def)

lemma total_times_correct: "infos \<noteq> [] \<Longrightarrow> total_times infos = (Min (fst ` set infos), Max (snd ` set infos))"
  using Min.set_eq_fold [of "fst (hd infos)" "map fst (tl infos)"] Max.set_eq_fold [of "snd (hd infos)" "map snd (tl infos)"]
  by (cases infos) (auto simp: total_times_def total_fold)

lemma cmp_int64_order: "cmp_int64 a b < 0 \<longleftrightarrow> a < b" "cmp_int64 a b > 0 \<longleftrightarrow> a > b" "cmp_int64 a b = 0 \<longleftrightarrow> a = b"
  by (auto simp: cmp_int64_def)

end
