(* ===== verification/Mutex_Measure.thy ===== *)
theory Mutex_Measure
  imports Contention_Spec "HOL-Library.Signed_Division" "HOL-Library.Multiset"
begin

text \<open>
  The measuring part of \<open>mutex-perf/mutexperf.c\<close>: ten rounds of a benchmark, of which the best
  and the median are printed.  \<open>qsort\<close> is a parameter, its contract the one of the C standard; the
  clock is a parameter as well.
\<close>

section \<open>Program\<close>

record test_results =
  res_reps :: int
  res_start :: int
  res_stop :: int

definition now_usecs :: "int \<times> int \<Rightarrow> int" where
  "now_usecs tv = fst tv * 1000000 + snd tv"

text \<open>Locking and unlocking a mutex of one's own; \<open>None\<close> is a call that never returns or is undefined.\<close>

fun lock_unlock_loop :: "nat \<Rightarrow> bool \<Rightarrow> bool option" where
  "lock_unlock_loop 0 locked = Some locked"
| "lock_unlock_loop (Suc i) locked = (if locked then None else lock_unlock_loop i False)"

definition lock_unlock :: "(int \<times> int) \<times> (int \<times> int) \<Rightarrow> test_results \<Rightarrow> test_results option" where
  "lock_unlock clock res =
     map_option (\<lambda>_. res\<lparr>res_start := now_usecs (fst clock), res_stop := now_usecs (snd clock)\<rparr>)
       (lock_unlock_loop (nat (res_reps res)) False)"

definition SETS :: nat where "SETS = 10"

text \<open>The conversion to \<open>int\<close>, and what is printed for one of the sorted times.\<close>

definition to_int :: "int \<Rightarrow> int" where
  "to_int x = signed_take_bit 31 x"

definition per_rep :: "int \<Rightarrow> int \<Rightarrow> int" where
  "per_rep reps t = to_int ((t * 1000) sdiv reps)"

text \<open>\<open>test i\<close> are the start and the stop that round \<open>i\<close> leaves in \<open>res\<close>.\<close>

definition measure_times :: "(nat \<Rightarrow> int \<times> int) \<Rightarrow> int list" where
  "measure_times test = map (\<lambda>i. snd (test i) - fst (test i)) [0..<SETS]"

definition measure_test :: "(int list \<Rightarrow> int list) \<Rightarrow> (nat \<Rightarrow> int \<times> int) \<Rightarrow> int \<Rightarrow> int \<times> int" where
  "measure_test qsort test reps =
     (let times = qsort (measure_times test) in (per_rep reps (times ! 0), per_rep reps (times ! (SETS div 2))))"

text \<open>\<open>main\<close>: \<open>runs i\<close> are the start and stop times of the four threads in round \<open>i\<close>.\<close>

definition mutexperf_main :: "(int list \<Rightarrow> int list) \<Rightarrow> (nat \<Rightarrow> (int \<times> int) list) \<Rightarrow> int \<times> int" where
  "mutexperf_main qsort runs = measure_test qsort (\<lambda>i. total_times (runs i)) 100000"

section \<open>What is printed\<close>

definition qsort_contract :: "(int \<Rightarrow> int \<Rightarrow> int) \<Rightarrow> (int list \<Rightarrow> int list) \<Rightarrow> bool" where
  "qsort_contract cmp qsort \<longleftrightarrow> (\<forall>xs. mset (qsort xs) = mset xs \<and> sorted_wrt (\<lambda>a b. cmp a b \<le> 0) (qsort xs))"

lemma qsort_sorts:
  assumes "qsort_contract cmp_int64 qsort"
  shows "qsort xs = sort xs"
proof -
  have "(\<lambda>a b. cmp_int64 a b \<le> 0) = (\<le>)" by (intro ext) (auto simp: cmp_int64_def)
  then have "sorted (qsort xs)" "mset (qsort xs) = mset xs" using assms by (simp_all add: qsort_contract_def)
  then show ?thesis by (metis properties_for_sort)
qed

lemma qsort_contract_sort: "qsort_contract cmp_int64 sort"
proof -
  have "(\<lambda>a b. cmp_int64 a b \<le> 0) = (\<le>)" by (intro ext) (auto simp: cmp_int64_def)
  then show ?thesis by (simp add: qsort_contract_def)
qed

lemma lock_unlock_returns: "lock_unlock clock res = Some (res\<lparr>res_start := now_usecs (fst clock), res_stop := now_usecs (snd clock)\<rparr>)"
proof -
  have "lock_unlock_loop n False = Some False" for n by (induction n) auto
  then show ?thesis by (simp add: lock_unlock_def)
qed

text \<open>A time that fits is printed rounded down.\<close>

lemma per_rep_id:
  assumes "0 \<le> t" "t * 1000 < 2 ^ 31 * reps" "0 < reps"
  shows "per_rep reps t = t * 1000 div reps"
proof -
  have "(t * 1000) sdiv reps = t * 1000 div reps" using assms(1,3) by (cases "t = 0") (simp_all add: signed_divide_int_def)
  moreover have "0 \<le> t * 1000 div reps" using assms(1,3) by (simp add: pos_imp_zdiv_nonneg_iff)
  moreover have "t * 1000 div reps < 2 ^ 31"
  proof (rule ccontr)
    assume "\<not> t * 1000 div reps < 2 ^ 31"
    then have "2 ^ 31 * reps \<le> t * 1000 div reps * reps" using assms(3) by (intro mult_right_mono) auto
    also have "\<dots> \<le> t * 1000" using div_mult_mod_eq [of "t * 1000" reps] pos_mod_sign [OF assms(3), of "t * 1000"] by linarith
    finally show False using assms(2) by linarith
  qed
  ultimately show ?thesis by (simp add: per_rep_def to_int_def signed_take_bit_int_eq_self)
qed

lemma filter_take_drop: "length (filter P ys) = length (filter P (take k ys)) + length (filter P (drop k ys))"
  by (metis append_take_drop_id filter_append length_append)

lemma length_filter_sort: "length (filter P (sort xs)) = length (filter P xs)"
  by (metis mset_filter mset_sort size_mset)

text \<open>For every \<open>qsort\<close> that meets its contract and a clock that does not go back, the program prints
  the shortest of the ten times and one that six of them do not exceed and five reach, each
  divided by the repetitions.\<close>

theorem measure_prints:
  assumes "qsort_contract cmp_int64 qsort" "0 < reps" "\<And>t. t \<in> set (measure_times test) \<Longrightarrow> 0 \<le> t \<and> t * 1000 < 2 ^ 31 * reps"
  shows "\<exists>m \<in> set (measure_times test).
    measure_test qsort test reps = (Min (set (measure_times test)) * 1000 div reps, m * 1000 div reps) \<and>
    6 \<le> length (filter (\<lambda>t. t \<le> m) (measure_times test)) \<and> 5 \<le> length (filter (\<lambda>t. m \<le> t) (measure_times test))"
proof -
  let ?xs = "measure_times test" and ?ys = "sort (measure_times test)"
  have len: "length ?ys = 10" by (simp add: measure_times_def SETS_def)
  have mem: "?ys ! 0 \<in> set ?xs" "?ys ! 5 \<in> set ?xs" using len nth_mem [of _ ?ys] by (auto simp: set_sort)
  have "?ys ! 0 = Min (set ?xs)"
  proof (rule Min_eqI [symmetric])
    fix y assume "y \<in> set ?xs"
    then obtain k where "k < length ?ys" "?ys ! k = y" by (metis in_set_conv_nth set_sort)
    then show "?ys ! 0 \<le> y" using sorted_nth_mono [of ?ys 0 k] by auto
  qed (use mem in auto)
  moreover have "measure_test qsort test reps = (?ys ! 0 * 1000 div reps, ?ys ! 5 * 1000 div reps)"
    using per_rep_id assms mem by (simp add: measure_test_def qsort_sorts [OF assms(1)] Let_def SETS_def)
  moreover have "6 \<le> length (filter (\<lambda>t. t \<le> ?ys ! 5) ?xs)"
  proof -
    have "filter (\<lambda>t. t \<le> ?ys ! 5) (take 6 ?ys) = take 6 ?ys"
      using len by (intro filter_True) (auto simp: in_set_conv_nth intro!: sorted_nth_mono)
    then have "6 \<le> length (filter (\<lambda>t. t \<le> ?ys ! 5) ?ys)" using len filter_take_drop [of _ ?ys 6] by simp
    then show ?thesis by (simp only: length_filter_sort)
  qed
  moreover have "5 \<le> length (filter (\<lambda>t. ?ys ! 5 \<le> t) ?xs)"
  proof -
    have "filter (\<lambda>t. ?ys ! 5 \<le> t) (drop 5 ?ys) = drop 5 ?ys"
      using len by (intro filter_True) (auto simp: in_set_conv_nth intro!: sorted_nth_mono)
    then have "5 \<le> length (filter (\<lambda>t. ?ys ! 5 \<le> t) ?ys)" using len filter_take_drop [of _ ?ys 5] by simp
    then show ?thesis by (simp only: length_filter_sort)
  qed
  ultimately show ?thesis using mem(2) by auto
qed

end
