(* ===== verification/Proxy.thy ===== *)
theory Proxy
  imports Kernel_List "HOL-Library.Monad_Syntax"
begin

text \<open>
  The port forwarder of \<open>proxy/proxy.c\<close>.  The state holds the allocated connections, the
  list of connections in the order of their expiry (the links of \<open>list.h\<close>), the epoll
  set, and the bytes that went through: \<open>rx\<close> and \<open>tx\<close> are what was read from and written
  to a socket, \<open>pipes\<close> what is in a pipe.  The results of the system calls and of
  \<open>malloc\<close> are a parameter; \<open>clock\<close> counts the calls.  A step is \<open>None\<close>
  when it touches NULL or freed memory, when an assertion fails, or when it does not end.
\<close>

section \<open>State\<close>

record buffer =
  pipe :: "int \<times> int"
  bytes :: int

record conn =
  other :: nat
  fd :: int
  buf :: buffer
  expire :: int

text \<open>Results of \<open>splice\<close>: from a socket into a pipe, and from a pipe to a socket.\<close>

datatype splice_in = Got "nat list" | In_Again | In_Error
datatype splice_out = Sent nat | Out_Again | Out_Error

datatype pnode = Expire | Conn nat

record proxy =
  clock :: nat
  plinks :: "pnode links"
  conns :: "nat \<Rightarrow> conn option"
  epolled :: "int \<Rightarrow> nat option"
  num_events :: int
  max_events :: int
  rx :: "int \<Rightarrow> nat list"
  tx :: "int \<Rightarrow> nat list"
  pipes :: "int \<times> int \<Rightarrow> nat list"

text \<open>The kernel and \<open>malloc\<close> answer depending on the state, that is, on all that happened before.\<close>

record pkernel =
  k_malloc :: "proxy \<Rightarrow> nat \<times> conn"
  k_pipe2 :: "proxy \<Rightarrow> (int \<times> int) option"
  k_epoll_ctl :: "proxy \<Rightarrow> bool"
  k_accept :: "proxy \<Rightarrow> int"
  k_socket :: "proxy \<Rightarrow> int"
  k_connect :: "proxy \<Rightarrow> bool"
  k_splice_in :: "proxy \<Rightarrow> nat \<Rightarrow> splice_in"
  k_splice_out :: "proxy \<Rightarrow> nat \<Rightarrow> splice_out"
  k_fionread :: "proxy \<Rightarrow> int"

definition connection_timeout :: int where "connection_timeout = 5"
definition MIN_EVENTS :: int where "MIN_EVENTS = 32"
definition BUFSZ :: int where "BUFSZ = 16384"

definition after_call :: "proxy \<Rightarrow> proxy" where
  "after_call s = s\<lparr>clock := clock s + 1\<rparr>"

definition set_conn :: "nat \<Rightarrow> conn \<Rightarrow> proxy \<Rightarrow> proxy" where
  "set_conn c v s = s\<lparr>conns := (conns s)(c \<mapsto> v)\<rparr>"

definition node_live :: "proxy \<Rightarrow> pnode \<Rightarrow> bool" where
  "node_live s n = (case n of Expire \<Rightarrow> True | Conn c \<Rightarrow> conns s c \<noteq> None)"

text \<open>\<open>list_del\<close> writes to both neighbours, \<open>list_add_tail\<close> to the last node.\<close>

definition expire_del :: "nat \<Rightarrow> proxy \<Rightarrow> proxy option" where
  "expire_del c s =
     (if node_live s (Conn c) \<and> node_live s (lnext (plinks s) (Conn c)) \<and> node_live s (lprev (plinks s) (Conn c))
      then Some (s\<lparr>plinks := list_del (Conn c) (plinks s)\<rparr>) else None)"

definition expire_add_tail :: "nat \<Rightarrow> proxy \<Rightarrow> proxy option" where
  "expire_add_tail c s =
     (if node_live s (Conn c) \<and> node_live s (lprev (plinks s) Expire)
      then Some (s\<lparr>plinks := list_add_tail (Conn c) Expire (plinks s)\<rparr>) else None)"

section \<open>Connections\<close>

text \<open>The arrays are large enough for \<open>realloc\<close> not to matter; \<open>events\<close> itself is the argument of a round.\<close>

definition epoll_add :: "pkernel \<Rightarrow> int \<Rightarrow> nat \<Rightarrow> proxy \<Rightarrow> bool \<times> proxy" where
  "epoll_add K f c s =
     (let s1 = s\<lparr>num_events := num_events s + 1\<rparr>;
          s2 = (if num_events s1 \<ge> max_events s1 then s1\<lparr>max_events := max (max_events s1 * 2) MIN_EVENTS\<rparr> else s1);
          ok = k_epoll_ctl K s2
      in (ok, after_call (if ok then s2\<lparr>epolled := (epolled s2)(f \<mapsto> c)\<rparr> else s2)))"

definition epoll_del :: "int \<Rightarrow> proxy \<Rightarrow> proxy option" where
  "epoll_del f s =
     (let s1 = s\<lparr>num_events := num_events s - 1\<rparr>
      in if num_events s1 < 0 then None else Some (s1\<lparr>epolled := (epolled s1)(f := None)\<rparr>))"

text \<open>Closing both ends of a pipe drops what is in it.\<close>

definition delbuffer :: "buffer \<Rightarrow> proxy \<Rightarrow> proxy" where
  "delbuffer b s = s\<lparr>pipes := (pipes s)(pipe b := [])\<rparr>"

definition newbuffer :: "pkernel \<Rightarrow> nat \<Rightarrow> proxy \<Rightarrow> (bool \<times> proxy) option" where
  "newbuffer K c s =
     do { v \<leftarrow> conns s c;
          case k_pipe2 K s of
            None \<Rightarrow> Some (False, after_call s)
          | Some p \<Rightarrow> Some (True, after_call (set_conn c (v\<lparr>buf := (buf v)\<lparr>pipe := p\<rparr>\<rparr>) (s\<lparr>pipes := (pipes s)(p := [])\<rparr>))) }"

definition delconn :: "nat \<Rightarrow> proxy \<Rightarrow> proxy option" where
  "delconn c s =
     do { v \<leftarrow> conns s c;
          s \<leftarrow> expire_del c s;
          let s = delbuffer (buf v) s;
          s \<leftarrow> epoll_del (fd v) s;
          Some (s\<lparr>conns := (conns s)(c := None)\<rparr>) }"

text \<open>The fields of a new connection hold what the memory held before.  Returns the connection, or 0.\<close>

definition newconn :: "pkernel \<Rightarrow> int \<Rightarrow> int \<Rightarrow> proxy \<Rightarrow> (nat \<times> proxy) option" where
  "newconn K f now s =
     (let (c, v) = k_malloc K s in
      if c = 0 then None
      else do {
        let s = after_call (set_conn c (v\<lparr>fd := f\<rparr>) s);
        (ok, s) \<leftarrow> newbuffer K c s;
        if \<not> ok then do { s \<leftarrow> delconn c s; Some (0, s) }
        else let (ok, s) = epoll_add K f c s in
          if \<not> ok then do { s \<leftarrow> delconn c s; Some (0, s) }
          else do {
            v \<leftarrow> conns s c;
            let s = set_conn c (v\<lparr>expire := now + connection_timeout\<rparr>) s;
            s \<leftarrow> expire_add_tail c s;
            Some (c, s) } })"

text \<open>A new socket has transferred nothing.\<close>

definition new_socket :: "int \<Rightarrow> proxy \<Rightarrow> proxy" where
  "new_socket f s = s\<lparr>rx := (rx s)(f := []), tx := (tx s)(f := [])\<rparr>"

definition new_request :: "pkernel \<Rightarrow> int \<Rightarrow> proxy \<Rightarrow> proxy option" where
  "new_request K now s =
     (let newsk = k_accept K s; s = after_call s in
      if newsk < 0 then Some s
      else do { (_, s) \<leftarrow> newconn K newsk now (new_socket newsk s); Some s })"

definition openconn :: "pkernel \<Rightarrow> nat \<Rightarrow> int \<Rightarrow> proxy \<Rightarrow> (nat \<times> proxy) option" where
  "openconn K oth now s =
     (let outfd = k_socket K s; s = after_call s in
      if outfd < 0 then Some (0, s)
      else if \<not> k_connect K s then Some (0, after_call s)
      else do {
        (c, s) \<leftarrow> newconn K outfd now (new_socket outfd (after_call s));
        if c = 0 then Some (0, s)
        else do {
          v \<leftarrow> conns s c;
          let s = set_conn c (v\<lparr>other := oth\<rparr>) s;
          w \<leftarrow> conns s oth;
          let s = set_conn oth (w\<lparr>other := c\<rparr>) s;
          Some (c, s) } })"

section \<open>Moving data\<close>

definition add_bytes :: "int \<Rightarrow> conn \<Rightarrow> conn" where
  "add_bytes n v = v\<lparr>buf := (buf v)\<lparr>bytes := bytes (buf v) + n\<rparr>\<rparr>"

text \<open>From a socket to the pipe of \<open>c\<close>; an empty result is the end of the stream.\<close>

partial_function (option) move_data_in :: "pkernel \<Rightarrow> int \<Rightarrow> nat \<Rightarrow> proxy \<Rightarrow> (bool \<times> proxy) option" where
  "move_data_in K srcfd c s =
     do { v \<leftarrow> conns s c;
          case k_splice_in K s c of
            Got bs \<Rightarrow>
              if bs = [] then Some (False, after_call s)
              else move_data_in K srcfd c
                (after_call (set_conn c (add_bytes (int (length bs)) v)
                  (s\<lparr>rx := (rx s)(srcfd := rx s srcfd @ bs),
                     pipes := (pipes s)(pipe (buf v) := pipes s (pipe (buf v)) @ bs)\<rparr>)))
          | In_Again \<Rightarrow> Some (True, after_call s)
          | In_Error \<Rightarrow> Some (False, after_call s) }"

text \<open>At most \<open>BUFSZ\<close> bytes leave the pipe at a time.\<close>

partial_function (option) move_data_out :: "pkernel \<Rightarrow> nat \<Rightarrow> int \<Rightarrow> proxy \<Rightarrow> (bool \<times> proxy) option" where
  "move_data_out K c dstfd s =
     do { v \<leftarrow> conns s c;
          if bytes (buf v) > 0 then
            case k_splice_out K s c of
              Sent n \<Rightarrow>
                let n = min n (nat (min (bytes (buf v)) BUFSZ)); q = pipes s (pipe (buf v)); n = min n (length q) in
                if n = 0 then Some (True, after_call s)
                else move_data_out K c dstfd
                  (after_call (set_conn c (add_bytes (- int n) v)
                    (s\<lparr>tx := (tx s)(dstfd := tx s dstfd @ take n q), pipes := (pipes s)(pipe (buf v) := drop n q)\<rparr>)))
            | Out_Again \<Rightarrow> Some (True, after_call s)
            | Out_Error \<Rightarrow> Some (False, after_call s)
          else Some (True, s) }"

section \<open>Closing and expiry\<close>

definition closeconn :: "nat \<Rightarrow> proxy \<Rightarrow> proxy option" where
  "closeconn c s =
     do { v \<leftarrow> conns s c;
          s \<leftarrow> (if other v \<noteq> 0 then delconn (other v) s else Some s);
          delconn c s }"

text \<open>The loop is \<open>list_for_each_entry_safe\<close>: \<open>tmp\<close> is the node behind \<open>conn\<close>, read before the body runs.\<close>

definition node_next :: "proxy \<Rightarrow> pnode \<Rightarrow> pnode option" where
  "node_next s n = (if node_live s n then Some (lnext (plinks s) n) else None)"

partial_function (option) expire_loop :: "int \<Rightarrow> pnode \<Rightarrow> pnode \<Rightarrow> proxy \<Rightarrow> (int \<times> proxy) option" where
  "expire_loop now conn tmp s =
     (case conn of
        Expire \<Rightarrow> Some (-1, s)
      | Conn c \<Rightarrow>
          do { v \<leftarrow> conns s c;
               if expire v > now then Some ((expire v - now) * 1000, s)
               else do { s \<leftarrow> closeconn c s;
                         next \<leftarrow> node_next s tmp;
                         expire_loop now tmp next s } })"

definition expire_connections :: "int \<Rightarrow> proxy \<Rightarrow> (int \<times> proxy) option" where
  "expire_connections now s =
     (let first = lnext (plinks s) Expire
      in do { tmp \<leftarrow> node_next s first; expire_loop now first tmp s })"

definition touch_conn :: "nat \<Rightarrow> int \<Rightarrow> proxy \<Rightarrow> proxy option" where
  "touch_conn c now s =
     do { v \<leftarrow> conns s c;
          let s = set_conn c (v\<lparr>expire := now + connection_timeout\<rparr>) s;
          s \<leftarrow> expire_del c s;
          expire_add_tail c s }"

section \<open>The main loop\<close>

record event =
  data_ptr :: nat
  ev_in :: bool
  ev_out :: bool
  ev_err_hup :: bool

text \<open>The \<open>EPOLLIN\<close> part; the flag says that the connection was closed (\<open>continue\<close>), the number is \<open>other\<close>.\<close>

definition handle_in :: "pkernel \<Rightarrow> int \<Rightarrow> nat \<Rightarrow> nat \<Rightarrow> proxy \<Rightarrow> (bool \<times> nat \<times> proxy) option" where
  "handle_in K now c oth s =
     do { s \<leftarrow> touch_conn c now s;
          (oth, s) \<leftarrow> (if oth = 0 then openconn K c now s else Some (oth, s));
          v \<leftarrow> conns s c;
          (inn, s) \<leftarrow> move_data_in K (fd v) c s;
          w \<leftarrow> conns s oth;
          (out, s) \<leftarrow> move_data_out K c (fd w) s;
          if \<not> inn \<or> \<not> out then do { s \<leftarrow> closeconn c s; Some (True, oth, s) }
          else do { s \<leftarrow> touch_conn oth now s; Some (False, oth, s) } }"

definition handle_out :: "pkernel \<Rightarrow> int \<Rightarrow> nat \<Rightarrow> nat \<Rightarrow> proxy \<Rightarrow> proxy option" where
  "handle_out K now c oth s =
     do { v \<leftarrow> conns s c;
          (ok, s) \<leftarrow> move_data_out K oth (fd v) s;
          s \<leftarrow> (if \<not> ok then delconn c s else touch_conn c now s);
          w \<leftarrow> conns s oth;
          let len = k_fionread K s;
          let s = after_call s;
          if len > 0 then
            do { (ok, s) \<leftarrow> move_data_in K (fd w) oth s;
                 if \<not> ok then closeconn oth s else Some s }
          else Some s }"

definition handle_event :: "pkernel \<Rightarrow> int \<Rightarrow> event \<Rightarrow> proxy \<Rightarrow> proxy option" where
  "handle_event K now ev s =
     (let c = data_ptr ev in
      if c = 0 then if ev_in ev then new_request K now s else Some s
      else if ev_err_hup ev then closeconn c s
      else do {
        v \<leftarrow> conns s c;
        (closed, oth, s) \<leftarrow> (if ev_in ev then handle_in K now c (other v) s else Some (False, other v, s));
        if \<not> closed \<and> ev_out ev \<and> oth \<noteq> 0 then handle_out K now c oth s else Some s })"

fun handle_events :: "pkernel \<Rightarrow> int \<Rightarrow> event list \<Rightarrow> proxy \<Rightarrow> proxy option" where
  "handle_events K now [] s = Some s"
| "handle_events K now (ev # evs) s = do { s \<leftarrow> handle_event K now ev s; handle_events K now evs s }"

text \<open>One round of the loop of \<open>main\<close> with the events \<open>epoll_wait\<close> reported at time \<open>now\<close>; the next timeout.\<close>

definition proxy_round :: "pkernel \<Rightarrow> int \<Rightarrow> event list \<Rightarrow> proxy \<Rightarrow> (int \<times> proxy) option" where
  "proxy_round K now evs s = do { s \<leftarrow> handle_events K now evs s; expire_connections now s }"

fun proxy_rounds :: "pkernel \<Rightarrow> (int \<times> event list) list \<Rightarrow> proxy \<Rightarrow> proxy option" where
  "proxy_rounds K [] s = Some s"
| "proxy_rounds K ((now, evs) # rest) s = do { (_, s) \<leftarrow> proxy_round K now evs s; proxy_rounds K rest s }"

text \<open>The state after \<open>listen_socket\<close>: an empty list, and the listening socket \<open>lfd\<close> in the epoll set.\<close>

definition proxy_start :: "int \<Rightarrow> proxy" where
  "proxy_start lfd = \<lparr>clock = 0, plinks = INIT_LIST_HEAD Expire \<lparr>lprev = (\<lambda>x. x), lnext = (\<lambda>x. x)\<rparr>, conns = (\<lambda>_. None),
     epolled = [lfd \<mapsto> 0], num_events = 1, max_events = MIN_EVENTS, rx = (\<lambda>_. []), tx = (\<lambda>_. []), pipes = (\<lambda>_. [])\<rparr>"

end
