(* ===== verification/Proxy_Spec.thy ===== *)
theory Proxy_Spec
  imports Proxy "HOL-Library.Sublist"
begin

text \<open>
  The invariant of the proxy has two parts: the expiry list holds exactly the live
  connections in the order of their expiry, and the data of every live pair of
  connections is forwarded in order.  The handlers keep it as long as setting up a
  connection does not fail, memory is fresh, and a batch of events does not mention
  a connection that an earlier event of the batch may have closed.
\<close>

section \<open>The expiry list\<close>

abbreviation exp_of :: "proxy \<Rightarrow> nat \<Rightarrow> int" where
  "exp_of s c \<equiv> expire (the (conns s c))"

definition linv :: "int \<Rightarrow> nat list \<Rightarrow> proxy \<Rightarrow> bool" where
  "linv now cs s \<longleftrightarrow> klist (plinks s) Expire (map Conn cs) \<and> set cs = dom (conns s) \<and> 0 \<notin> set cs \<and>
     num_events s = int (length cs) + 1 \<and> sorted (map (exp_of s) cs) \<and> (\<forall>c\<in>set cs. exp_of s c \<le> now + connection_timeout)"

lemma linvD:
  assumes "linv now cs s"
  shows "klist (plinks s) Expire (map Conn cs)" "set cs = dom (conns s)" "0 \<notin> set cs" "num_events s = int (length cs) + 1"
    "sorted (map (exp_of s) cs)" "\<And>c. c \<in> set cs \<Longrightarrow> exp_of s c \<le> now + connection_timeout" "distinct cs"
  using assms ring_distinct [of "lnext (plinks s)" "lprev (plinks s)" Expire "map Conn cs"] unfolding linv_def
  by (auto simp: distinct_map)

lemma linv_live: "linv now cs s \<Longrightarrow> n \<in> insert Expire (Conn ` set cs) \<Longrightarrow> node_live s n"
  using linvD(2) [of now cs s] by (auto simp: node_live_def)

lemma linv_neighbours:
  assumes "linv now cs s" "n \<in> insert Expire (Conn ` set cs)"
  shows "node_live s (lnext (plinks s) n)" "node_live s (lprev (plinks s) n)"
  using ring_links_mem [OF linvD(1) [OF assms(1)], of n] linv_live [OF assms(1)] assms(2) by auto

lemma expire_del_list:
  assumes L: "linv now cs s" and c: "cs = as @ c # bs"
  shows "expire_del c s = Some (s\<lparr>plinks := list_del (Conn c) (plinks s)\<rparr>)"
    "klist (list_del (Conn c) (plinks s)) Expire (map Conn (as @ bs))"
proof -
  have "Conn c \<in> insert Expire (Conn ` set cs)" using c by simp
  then show "expire_del c s = Some (s\<lparr>plinks := list_del (Conn c) (plinks s)\<rparr>)"
    using linv_live [OF L] linv_neighbours [OF L] by (simp add: expire_del_def)
  show "klist (list_del (Conn c) (plinks s)) Expire (map Conn (as @ bs))"
    using kl.unlink_ring [of "plinks s" Expire "map Conn as" "Conn c" "map Conn bs"] linvD(1) [OF L] c by simp
qed

lemma expire_add_list:
  assumes K: "klist (plinks s) Expire (map Conn cs)" and D: "set cs \<subseteq> dom (conns s)" and c: "c \<in> dom (conns s)" "c \<notin> set cs"
  shows "expire_add_tail c s = Some (s\<lparr>plinks := list_add_tail (Conn c) Expire (plinks s)\<rparr>)"
    "klist (list_add_tail (Conn c) Expire (plinks s)) Expire (map Conn (cs @ [c]))"
proof -
  have "lprev (plinks s) Expire \<in> insert Expire (Conn ` set cs)" using ring_links_mem(2) [OF K, of Expire] by auto
  then show "expire_add_tail c s = Some (s\<lparr>plinks := list_add_tail (Conn c) Expire (plinks s)\<rparr>)"
    using D c(1) by (auto simp: expire_add_tail_def node_live_def)
  show "klist (list_add_tail (Conn c) Expire (plinks s)) Expire (map Conn (cs @ [c]))"
    using kl.push_ring [OF K, of "Conn c"] c(2) by auto
qed

section \<open>Connections and data\<close>

text \<open>All of a connection but its expiry.\<close>

definition cview :: "proxy \<Rightarrow> nat \<Rightarrow> (nat \<times> int \<times> buffer) option" where
  "cview s c = map_option (\<lambda>v. (other v, fd v, buf v)) (conns s c)"

text \<open>A connection with partner \<open>p\<close>, descriptor \<open>f\<close> and buffer \<open>b\<close>: the counter is right, the
  descriptor is watched, and what was received is what was sent on followed by what is in
  the pipe.\<close>

definition cgood :: "proxy \<Rightarrow> nat \<Rightarrow> nat \<Rightarrow> int \<Rightarrow> buffer \<Rightarrow> bool" where
  "cgood s c p f b \<longleftrightarrow> bytes b = int (length (pipes s (pipe b))) \<and> epolled s f = Some c \<and>
     (if p = 0 then rx s f = pipes s (pipe b) \<and> tx s f = []
      else \<exists>f' b'. p \<noteq> c \<and> cview s p = Some (c, f', b') \<and> rx s f = tx s f' @ pipes s (pipe b))"

definition dinv :: "proxy \<Rightarrow> bool" where
  "dinv s \<longleftrightarrow> cview s 0 = None \<and> (\<forall>c p f b. cview s c = Some (p, f, b) \<longrightarrow> cgood s c p f b) \<and>
     (\<forall>c p f b d p' f' b'. cview s c = Some (p, f, b) \<longrightarrow> cview s d = Some (p', f', b') \<longrightarrow> c \<noteq> d \<longrightarrow> f \<noteq> f' \<and> pipe b \<noteq> pipe b')"

definition pinv :: "int \<Rightarrow> nat list \<Rightarrow> proxy \<Rightarrow> bool" where
  "pinv now cs s \<longleftrightarrow> linv now cs s \<and> dinv s"

lemma dinvD:
  assumes "dinv s" "cview s c = Some (p, f, b)"
  shows "cgood s c p f b" "cview s d = Some (p', f', b') \<Longrightarrow> c \<noteq> d \<Longrightarrow> f \<noteq> f' \<and> pipe b \<noteq> pipe b'" "c \<noteq> 0"
  using assms unfolding dinv_def by (blast, blast, metis option.distinct(1))

lemma dinv_cong:
  assumes "cview s' = cview s" "rx s' = rx s" "tx s' = tx s" "pipes s' = pipes s" "epolled s' = epolled s"
  shows "dinv s' = dinv s"
  unfolding dinv_def cgood_def assms by (rule refl)

lemma cview_conn: "cview s c = Some (p, f, b) \<Longrightarrow> \<exists>v. conns s c = Some v \<and> other v = p \<and> fd v = f \<and> buf v = b"
  by (auto simp: cview_def)

lemma conn_cview: "conns s c = Some v \<Longrightarrow> cview s c = Some (other v, fd v, buf v)"
  by (simp add: cview_def)

lemma cview_set_conn [simp]: "cview (set_conn c v s) = (cview s)(c \<mapsto> (other v, fd v, buf v))"
  by (auto simp: cview_def set_conn_def fun_eq_iff)

lemma cview_update [simp]:
  "cview (s\<lparr>plinks := a\<rparr>) = cview s" "cview (s\<lparr>clock := b\<rparr>) = cview s" "cview (s\<lparr>rx := e\<rparr>) = cview s" "cview (s\<lparr>tx := e\<rparr>) = cview s"
  "cview (s\<lparr>pipes := q\<rparr>) = cview s" "cview (s\<lparr>epolled := g\<rparr>) = cview s" "cview (s\<lparr>num_events := n\<rparr>) = cview s"
  "cview (s\<lparr>max_events := n\<rparr>) = cview s"
  by (auto simp: cview_def fun_eq_iff)

lemma linv_cview: "linv now cs s \<Longrightarrow> c \<in> set cs \<Longrightarrow> \<exists>p f b. cview s c = Some (p, f, b)"
  using linvD(2) [of now cs s] by (auto simp: cview_def)

lemma cview_linv: "linv now cs s \<Longrightarrow> cview s c = Some x \<Longrightarrow> c \<in> set cs"
  using linvD(2) [of now cs s] by (auto simp: cview_def)

section \<open>Touching\<close>

lemma touch_conn_pinv:
  assumes I: "pinv now cs s" and c: "cs = as @ c # bs" and v: "conns s c = Some v"
  shows "\<exists>s'. touch_conn c now s = Some s' \<and> pinv now (as @ bs @ [c]) s' \<and>
    cview s' = cview s"
proof -
  have L: "linv now cs s" and D: "dinv s" using I by (simp_all add: pinv_def)
  let ?v = "v\<lparr>expire := now + connection_timeout\<rparr>"
  let ?s = "set_conn c ?v s"
  have cn: "conns ?s = (conns s)(c \<mapsto> ?v)" "plinks ?s = plinks s" by (simp_all add: set_conn_def)
  note l = linvD [OF L]
  have dc: "distinct (as @ c # bs)" using l(7) c by simp
  have "node_live ?s = node_live s" using v by (auto simp: node_live_def fun_eq_iff cn split: pnode.splits)
  then have del: "expire_del c ?s = Some (?s\<lparr>plinks := list_del (Conn c) (plinks s)\<rparr>)"
    using expire_del_list(1) [OF L c] by (auto simp: expire_del_def cn split: if_splits)
  let ?t = "?s\<lparr>plinks := list_del (Conn c) (plinks s)\<rparr>"
  have k: "klist (plinks ?t) Expire (map Conn (as @ bs))" using expire_del_list(2) [OF L c] by simp
  have dom: "set (as @ bs) \<subseteq> dom (conns ?t)" "c \<in> dom (conns ?t)" using l(2) c cn by auto
  note add = expire_add_list [OF k dom, of] dc
  let ?u = "?t\<lparr>plinks := list_add_tail (Conn c) Expire (plinks ?t)\<rparr>"
  have add1: "expire_add_tail c ?t = Some ?u" and k2: "klist (plinks ?u) Expire (map Conn (as @ bs @ [c]))"
    using expire_add_list [OF k dom] dc by auto
  have e: "exp_of ?u x = (if x = c then now + connection_timeout else exp_of s x)" for x by (simp add: cn)
  have m: "map (exp_of ?u) (as @ bs @ [c]) = map (exp_of s) (as @ bs) @ [now + connection_timeout]" using dc e by auto
  have srt: "sorted (map (exp_of ?u) (as @ bs @ [c]))"
    unfolding m using l(5,6) c by (auto simp: sorted_append)
  have "linv now (as @ bs @ [c]) ?u" unfolding linv_def
    using k2 l(2-4,6) c srt e by (auto simp: cn set_conn_def)
  moreover have cv: "cview ?u = cview s" using conn_cview [OF v] by auto
  moreover have "dinv ?u" using D dinv_cong [OF cv] by (simp add: set_conn_def)
  ultimately show ?thesis using v del add1 by (auto simp: touch_conn_def pinv_def)
qed

section \<open>The kernel\<close>

definition pipe_capacity :: nat where "pipe_capacity = 65536"

text \<open>What is documented: descriptors and memory that are handed out are not in use, and a pipe
  holds at most \<open>pipe_capacity\<close> bytes.\<close>

definition kernel_documented :: "pkernel \<Rightarrow> bool" where
  "kernel_documented K \<longleftrightarrow> (\<forall>s. finite (dom (conns s)) \<longrightarrow> conns s (fst (k_malloc K s)) = None) \<and>
     (\<forall>s q c p f b. finite (dom (conns s)) \<longrightarrow> k_pipe2 K s = Some q \<longrightarrow> cview s c = Some (p, f, b) \<longrightarrow> pipe b \<noteq> q) \<and>
     (\<forall>s c p f b. finite (dom (conns s)) \<longrightarrow> cview s c = Some (p, f, b) \<longrightarrow> f \<noteq> k_accept K s \<and> f \<noteq> k_socket K s) \<and>
     (\<forall>s c p f b bs. k_splice_in K s c = Got bs \<longrightarrow> cview s c = Some (p, f, b) \<longrightarrow>
        length (pipes s (pipe b)) + length bs \<le> pipe_capacity)"

text \<open>What the program silently relies on: memory is zeroed, setting up a connection never fails,
  and sending never fails for good.\<close>

definition no_failures :: "pkernel \<Rightarrow> bool" where
  "no_failures K \<longleftrightarrow> (\<forall>s. finite (dom (conns s)) \<longrightarrow> fst (k_malloc K s) \<noteq> 0 \<and> k_pipe2 K s \<noteq> None \<and> 0 \<le> k_socket K s) \<and>
     (\<forall>s. other (snd (k_malloc K s)) = 0 \<and> bytes (buf (snd (k_malloc K s))) = 0 \<and> k_epoll_ctl K s \<and> k_connect K s) \<and>
     (\<forall>s c. k_splice_out K s c \<noteq> Out_Error)"

lemma kernel_documentedD:
  assumes "kernel_documented K" "finite (dom (conns s))"
  shows "conns s (fst (k_malloc K s)) = None" "k_pipe2 K s = Some q \<Longrightarrow> cview s c = Some (p, f, b) \<Longrightarrow> pipe b \<noteq> q"
    "cview s c \<noteq> Some (p, k_accept K s, b)" "cview s c \<noteq> Some (p, k_socket K s, b)"
  using assms unfolding kernel_documented_def by blast+

lemma no_failuresD:
  assumes "no_failures K"
  shows "finite (dom (conns s)) \<Longrightarrow> fst (k_malloc K s) \<noteq> 0" "finite (dom (conns s)) \<Longrightarrow> \<exists>q. k_pipe2 K s = Some q"
    "finite (dom (conns s)) \<Longrightarrow> 0 \<le> k_socket K s" "other (snd (k_malloc K s)) = 0" "bytes (buf (snd (k_malloc K s))) = 0" "k_epoll_ctl K s" "k_connect K s"
    "k_splice_out K s c \<noteq> Out_Error"
  using assms unfolding no_failures_def by blast+

lemma pinv_finite: "pinv now cs s \<Longrightarrow> finite (dom (conns s))"
  using linvD(2) [of now cs s] by (metis List.finite_set pinv_def)

section \<open>Moving data\<close>

lemma linv_cong:
  assumes "plinks s' = plinks s" "num_events s' = num_events s" "\<And>c. map_option expire (conns s' c) = map_option expire (conns s c)"
  shows "linv now cs s' = linv now cs s"
proof -
  have d: "dom (conns s') = dom (conns s)" using assms(3) by (metis (no_types) domIff map_option_is_None subsetI subset_antisym)
  have "exp_of s' c = exp_of s c" if "c \<in> dom (conns s)" for c using assms(3) [of c] that by (cases "conns s' c") auto
  then have e: "exp_of s' c = exp_of s c" if "c \<in> set cs" "set cs = dom (conns s)" for c using that by blast
  show ?thesis unfolding linv_def assms(1,2) d
    by (intro conj_cong refl arg_cong [of _ _ sorted] ball_cong map_cong) (use e in simp_all)
qed

lemma dinv_data:
  assumes D: "dinv s" and c: "cview s c = Some (p, f, b)"
    and V: "cview s' = (cview s)(c \<mapsto> (p, f, b'))" "pipe b' = pipe b" "epolled s' = epolled s"
    and R: "\<And>g. g \<noteq> f \<Longrightarrow> rx s' g = rx s g" and P: "\<And>q. q \<noteq> pipe b \<Longrightarrow> pipes s' q = pipes s q"
    and T: "\<And>g. (\<And>f' b''. p \<noteq> 0 \<Longrightarrow> cview s p = Some (c, f', b'') \<Longrightarrow> g \<noteq> f') \<Longrightarrow> tx s' g = tx s g"
    and B: "bytes b' = int (length (pipes s' (pipe b)))" and E0: "p = 0 \<Longrightarrow> rx s' f = pipes s' (pipe b)"
    and E: "\<And>f' b''. p \<noteq> 0 \<Longrightarrow> cview s p = Some (c, f', b'') \<Longrightarrow> rx s' f = tx s' f' @ pipes s' (pipe b)"
  shows "dinv s'"
proof -
  note g = dinvD(1) [OF D c]
  have tx0: "tx s' f = tx s f" if "p = 0" using that by (intro T) simp
  have cg: "cgood s' c p f b'"
  proof (cases "p = 0")
    case True
    then show ?thesis using g V B E0 tx0 by (simp add: cgood_def)
  next
    case False
    then obtain f' b'' where w: "p \<noteq> c" "cview s p = Some (c, f', b'')" using g by (auto simp: cgood_def)
    then show ?thesis using g V B False E [OF False w(2)] by (simp add: cgood_def)
  qed
  have og: "cgood s' d q h e" if d: "d \<noteq> c" "cview s d = Some (q, h, e)" for d q h e
  proof -
    note gd = dinvD(1) [OF D d(2)]
    have ne: "h \<noteq> f" "pipe e \<noteq> pipe b" using dinvD(2) [OF D c d(2)] d(1) by auto
    have s: "rx s' h = rx s h" "pipes s' (pipe e) = pipes s (pipe e)" using R P ne by auto
    show ?thesis
    proof (cases "q = 0")
      case True
      have "tx s' h = tx s h"
      proof (rule T)
        fix f' b'' assume p: "p \<noteq> 0" "cview s p = Some (c, f', b'')"
        have "p \<noteq> d" using p(2) d(2) True dinvD(3) [OF D c] by auto
        then show "h \<noteq> f'" using dinvD(2) [OF D d(2) p(2)] by blast
      qed
      then show ?thesis using gd s True V(3) by (simp add: cgood_def)
    next
      case False
      then obtain f' b'' where w: "q \<noteq> d" "cview s q = Some (d, f', b'')" "rx s h = tx s f' @ pipes s (pipe e)"
        using gd by (auto simp: cgood_def)
      have "tx s' f' = tx s f'"
      proof (rule T)
        fix f2 b2 assume p: "p \<noteq> 0" "cview s p = Some (c, f2, b2)"
        have "q \<noteq> p" using p(2) w(2) d(1) by auto
        then show "f' \<noteq> f2" using dinvD(2) [OF D w(2) p(2)] by blast
      qed
      moreover have "\<exists>b3. cview s' q = Some (d, f', b3)" using w(2) V(1) c by auto
      ultimately show ?thesis using gd s False V(3) w by (auto simp: cgood_def)
    qed
  qed
  have "cgood s' d q h e" if "cview s' d = Some (q, h, e)" for d q h e using that cg og V(1) by (cases "d = c") auto
  moreover have "h \<noteq> h' \<and> pipe e \<noteq> pipe e'" if x: "cview s' d = Some (q, h, e)" "cview s' d' = Some (q', h', e')" "d \<noteq> d'" for d q h e d' q' h' e'
  proof -
    have "\<exists>e2. cview s d = Some (q, h, e2) \<and> pipe e2 = pipe e" "\<exists>e2. cview s d' = Some (q', h', e2) \<and> pipe e2 = pipe e'"
      using x(1,2) V c by (auto split: if_splits)
    then show ?thesis using dinvD(2) [OF D] x(3) by metis
  qed
  moreover have "cview s' 0 = None" using D V(1) dinvD(3) [OF D c] by (auto simp: dinv_def)
  ultimately show ?thesis unfolding dinv_def by blast
qed

text \<open>Only the buffer of \<open>c\<close> has changed.\<close>

definition moved :: "nat \<Rightarrow> proxy \<Rightarrow> proxy \<Rightarrow> bool" where
  "moved c s s' \<longleftrightarrow> (\<forall>d. d \<noteq> c \<longrightarrow> cview s' d = cview s d) \<and> map_option (\<lambda>(p, f, b). (p, f)) (cview s' c) = map_option (\<lambda>(p, f, b). (p, f)) (cview s c)"

lemma moved_refl: "cview s' = cview s \<Longrightarrow> moved c s s'"
  by (simp add: moved_def)

lemma moved_trans: "moved c s s1 \<Longrightarrow> moved c s1 s2 \<Longrightarrow> moved c s s2"
  by (simp add: moved_def)

lemma pinv_tick: "pinv now cs (after_call s) = pinv now cs s"
  using linv_cong [of "after_call s" s] dinv_cong [of "after_call s" s] by (simp add: pinv_def after_call_def)

lemma cview_tick [simp]: "cview (after_call s) = cview s"
  by (simp add: after_call_def)

definition received :: "int \<Rightarrow> nat \<Rightarrow> conn \<Rightarrow> nat list \<Rightarrow> proxy \<Rightarrow> proxy" where
  "received f c v bs s = after_call (set_conn c (add_bytes (int (length bs)) v)
     (s\<lparr>rx := (rx s)(f := rx s f @ bs), pipes := (pipes s)(pipe (buf v) := pipes s (pipe (buf v)) @ bs)\<rparr>))"

lemma received_pinv:
  assumes I: "pinv now cs s" and v: "conns s c = Some v"
  shows "pinv now cs (received (fd v) c v bs s)" "moved c s (received (fd v) c v bs s)"
    "conns (received (fd v) c v bs s) c = Some (add_bytes (int (length bs)) v)"
proof -
  let ?s = "received (fd v) c v bs s"
  have L: "linv now cs s" and D: "dinv s" using I by (simp_all add: pinv_def)
  note cv = conn_cview [OF v]
  have V: "cview ?s = (cview s)(c \<mapsto> (other v, fd v, (buf v)\<lparr>bytes := bytes (buf v) + int (length bs)\<rparr>))"
    by (simp add: received_def add_bytes_def)
  note g = dinvD(1) [OF D cv, unfolded cgood_def]
  have "dinv ?s"
    by (rule dinv_data [OF D cv V]) (use g in \<open>auto simp: received_def set_conn_def after_call_def split: if_splits\<close>)
  moreover have "linv now cs ?s"
    using L linv_cong [of ?s s now cs] v by (simp add: received_def set_conn_def after_call_def add_bytes_def)
  ultimately show "pinv now cs ?s" by (simp add: pinv_def)
  show "moved c s ?s" using V cv by (simp add: moved_def)
  show "conns ?s c = Some (add_bytes (int (length bs)) v)" by (simp add: received_def set_conn_def after_call_def)
qed

lemma move_data_in_pinv:
  assumes K: "kernel_documented K"
  shows "pinv now cs s \<Longrightarrow> conns s c = Some v \<Longrightarrow>
    \<exists>ok s'. move_data_in K (fd v) c s = Some (ok, s') \<and> pinv now cs s' \<and> moved c s s'"
proof (induction "pipe_capacity - length (pipes s (pipe (buf v)))" arbitrary: s v rule: less_induct)
  case less
  note step = move_data_in.simps [of K "fd v" c s]
  show ?case
  proof (cases "k_splice_in K s c")
    case (Got bs)
    show ?thesis
    proof (cases "bs = []")
      case True
      then show ?thesis using step Got less.prems pinv_tick [of now cs s] moved_refl [of "after_call s" s c] by auto
    next
      case False
      let ?s = "received (fd v) c v bs s" and ?v = "add_bytes (int (length bs)) v"
      note r = received_pinv [OF less.prems, of bs]
      have "length (pipes s (pipe (buf v))) + length bs \<le> pipe_capacity"
        using K Got conn_cview [OF less.prems(2)] unfolding kernel_documented_def by blast
      then have lt: "pipe_capacity - length (pipes ?s (pipe (buf ?v))) < pipe_capacity - length (pipes s (pipe (buf v)))"
        using False by (cases bs) (auto simp: received_def set_conn_def after_call_def add_bytes_def)
      have fd: "fd ?v = fd v" by (simp add: add_bytes_def)
      obtain ok s' where "move_data_in K (fd v) c ?s = Some (ok, s')" "pinv now cs s'" "moved c ?s s'"
        using less.hyps [OF lt r(1,3)] fd by auto
      then show ?thesis using step Got False less.prems(2) moved_trans [OF r(2)] by (simp add: received_def)
    qed
  qed (use step less.prems pinv_tick [of now cs s] moved_refl [of "after_call s" s c] in auto)
qed

definition forwarded :: "nat \<Rightarrow> int \<Rightarrow> nat \<Rightarrow> conn \<Rightarrow> proxy \<Rightarrow> proxy" where
  "forwarded n f c v s = after_call (set_conn c (add_bytes (- int n) v)
     (s\<lparr>tx := (tx s)(f := tx s f @ take n (pipes s (pipe (buf v)))), pipes := (pipes s)(pipe (buf v) := drop n (pipes s (pipe (buf v))))\<rparr>))"

lemma forwarded_pinv:
  assumes I: "pinv now cs s" and v: "conns s c = Some v" and p: "other v \<noteq> 0" "cview s (other v) = Some (c, f, b)"
    and n: "n \<le> length (pipes s (pipe (buf v)))"
  shows "pinv now cs (forwarded n f c v s)" "moved c s (forwarded n f c v s)"
    "conns (forwarded n f c v s) c = Some (add_bytes (- int n) v)"
proof -
  let ?s = "forwarded n f c v s"
  have L: "linv now cs s" and D: "dinv s" using I by (simp_all add: pinv_def)
  note cv = conn_cview [OF v]
  have V: "cview ?s = (cview s)(c \<mapsto> (other v, fd v, (buf v)\<lparr>bytes := bytes (buf v) - int n\<rparr>))"
    by (simp add: forwarded_def add_bytes_def)
  note g = dinvD(1) [OF D cv, unfolded cgood_def]
  have "dinv ?s"
    by (rule dinv_data [OF D cv V]) (use g p n in \<open>auto simp: forwarded_def set_conn_def after_call_def split: if_splits\<close>)
  moreover have "linv now cs ?s"
    using L linv_cong [of ?s s now cs] v by (simp add: forwarded_def set_conn_def after_call_def add_bytes_def)
  ultimately show "pinv now cs ?s" by (simp add: pinv_def)
  show "moved c s ?s" using V cv by (simp add: moved_def)
  show "conns ?s c = Some (add_bytes (- int n) v)" by (simp add: forwarded_def set_conn_def after_call_def)
qed

lemma move_data_out_pinv:
  assumes K: "no_failures K"
  shows "pinv now cs s \<Longrightarrow> conns s c = Some v \<Longrightarrow> other v \<noteq> 0 \<Longrightarrow> cview s (other v) = Some (c, f, b) \<Longrightarrow>
    \<exists>s'. move_data_out K c f s = Some (True, s') \<and> pinv now cs s' \<and> moved c s s'"
proof (induction "nat (bytes (buf v))" arbitrary: s v rule: less_induct)
  case less
  note step = move_data_out.simps [of K c f s]
  show ?case
  proof (cases "bytes (buf v) > 0")
    case True
    show ?thesis
    proof (cases "k_splice_out K s c")
      case (Sent m)
      define n where "n = min (min m (nat (min (bytes (buf v)) BUFSZ))) (length (pipes s (pipe (buf v))))"
      show ?thesis
      proof (cases "n = 0")
        case True
        then show ?thesis using step Sent less.prems \<open>bytes (buf v) > 0\<close> pinv_tick [of now cs s] moved_refl [of "after_call s" s c]
          by (simp add: n_def Let_def)
      next
        case False
        let ?s = "forwarded n f c v s" and ?v = "add_bytes (- int n) v"
        have nl: "n \<le> length (pipes s (pipe (buf v)))" by (simp add: n_def)
        note r = forwarded_pinv [OF less.prems nl]
        have lt: "nat (bytes (buf ?v)) < nat (bytes (buf v))" using False \<open>bytes (buf v) > 0\<close> by (simp add: add_bytes_def)
        have "other v \<noteq> c" using dinvD(1) [OF _ conn_cview [OF less.prems(2)]] less.prems(1,3) by (auto simp: pinv_def cgood_def)
        then have o: "other ?v \<noteq> 0" "cview ?s (other ?v) = Some (c, f, b)" using r(2) less.prems(3,4) by (auto simp: moved_def add_bytes_def)
        obtain s' where "move_data_out K c f ?s = Some (True, s')" "pinv now cs s'" "moved c ?s s'"
          using less.hyps [OF lt r(1,3) o] by auto
        then show ?thesis using step Sent False less.prems(2) \<open>bytes (buf v) > 0\<close> moved_trans [OF r(2)]
          by (simp add: forwarded_def n_def [symmetric] Let_def)
      qed
    qed (use step less.prems True no_failuresD(8) [OF K] pinv_tick [of now cs s] moved_refl [of "after_call s" s c] in simp_all)
  qed (use step less.prems moved_refl [of s s c] in simp)
qed

section \<open>Closing\<close>

lemma delconn_linv:
  assumes L: "linv now cs s" and c: "cs = as @ c # bs" and v: "conns s c = Some v"
  shows "\<exists>s'. delconn c s = Some s' \<and> linv now (as @ bs) s' \<and> cview s' = (cview s)(c := None) \<and> conns s' = (conns s)(c := None) \<and>
    rx s' = rx s \<and> tx s' = tx s \<and> pipes s' = (pipes s)(pipe (buf v) := []) \<and> epolled s' = (epolled s)(fd v := None)"
proof -
  note l = linvD [OF L] and del = expire_del_list [OF L c]
  let ?s = "s\<lparr>plinks := list_del (Conn c) (plinks s), pipes := (pipes s)(pipe (buf v) := []), num_events := num_events s - 1,
    epolled := (epolled s)(fd v := None), conns := (conns s)(c := None)\<rparr>"
  have "delconn c s = Some ?s" using v del(1) l(4) c by (simp add: delconn_def delbuffer_def epoll_del_def Let_def)
  moreover have "linv now (as @ bs) ?s"
  proof -
    have dc: "c \<notin> set (as @ bs)" using l(7) c by auto
    have e: "exp_of ?s x = exp_of s x" if "x \<in> set (as @ bs)" for x using that dc by auto
    have m: "map (exp_of ?s) (as @ bs) = map (exp_of s) (as @ bs)" using e by (rule map_cong [OF refl])
    have "sorted (map (exp_of ?s) (as @ bs))" unfolding m using l(5) c by (auto simp: sorted_append)
    moreover have "set (as @ bs) = dom (conns ?s)" using l(2) c dc by auto
    ultimately show ?thesis unfolding linv_def using del(2) l(3,4,6) c e by auto
  qed
  moreover have "cview ?s = (cview s)(c := None)" by (auto simp: cview_def)
  ultimately show ?thesis by (intro exI [of _ ?s]) simp
qed

lemma dinv_remove:
  assumes D: "dinv s" and V: "cview s' = (\<lambda>x. if x \<in> S then None else cview s x)" and R: "rx s' = rx s" "tx s' = tx s"
    and C: "\<And>c p f b. c \<notin> S \<Longrightarrow> cview s c = Some (p, f, b) \<Longrightarrow> p \<noteq> 0 \<Longrightarrow> p \<notin> S"
    and P: "\<And>c p f b. c \<notin> S \<Longrightarrow> cview s c = Some (p, f, b) \<Longrightarrow> pipes s' (pipe b) = pipes s (pipe b) \<and> epolled s' f = epolled s f"
  shows "dinv s'"
proof -
  have "cgood s' c p f b" if c: "cview s' c = Some (p, f, b)" for c p f b
  proof -
    have c': "c \<notin> S" "cview s c = Some (p, f, b)" using c V by (auto split: if_splits)
    show ?thesis using dinvD(1) [OF D c'(2)] C [OF c'] P [OF c'] R V by (auto simp: cgood_def)
  qed
  moreover have "f \<noteq> f' \<and> pipe b \<noteq> pipe b'" if "cview s' c = Some (p, f, b)" "cview s' d = Some (p', f', b')" "c \<noteq> d" for c p f b d p' f' b'
    using that V dinvD(2) [OF D, of c p f b d p' f' b'] by (auto split: if_splits)
  moreover have "cview s' 0 = None" using V D by (simp add: dinv_def)
  ultimately show ?thesis unfolding dinv_def by blast
qed

text \<open>Closing a connection closes its partner too, and nothing else.\<close>

lemma closeconn_pinv:
  assumes I: "pinv now cs s" and c: "cview s c = Some (p, f, b)"
  shows "\<exists>s' cs'. closeconn c s = Some s' \<and> pinv now cs' s' \<and> cview s' = (\<lambda>x. if x \<in> {c, p} then None else cview s x)"
proof -
  have L: "linv now cs s" and D: "dinv s" using I by (simp_all add: pinv_def)
  obtain v where v: "conns s c = Some v" "other v = p" "fd v = f" "buf v = b" using cview_conn [OF c] by blast
  note g = dinvD(1) [OF D c, unfolded cgood_def]
  have "c \<in> set cs" using cview_linv [OF L c] .
  then obtain as bs where cs: "cs = as @ c # bs" by (meson split_list)
  show ?thesis
  proof (cases "p = 0")
    case True
    obtain s' where s': "delconn c s = Some s'" "linv now (as @ bs) s'" "cview s' = (cview s)(c := None)" "rx s' = rx s" "tx s' = tx s"
      "pipes s' = (pipes s)(pipe (buf v) := [])" "epolled s' = (epolled s)(fd v := None)" using delconn_linv [OF L cs v(1)] by blast
    have V: "cview s' = (\<lambda>x. if x \<in> {c, p} then None else cview s x)" using s'(3) True D by (auto simp: dinv_def)
    have "dinv s'"
    proof (rule dinv_remove [OF D V s'(4,5)])
      fix d q h e assume d: "d \<notin> {c, p}" "cview s d = Some (q, h, e)"
      show "q \<notin> {c, p}" if "q \<noteq> 0" using dinvD(1) [OF D d(2), unfolded cgood_def] that c True d(1) by auto
      show "pipes s' (pipe e) = pipes s (pipe e) \<and> epolled s' h = epolled s h"
        using dinvD(2) [OF D c d(2)] d(1) s'(6,7) v by auto
    qed
    moreover have "closeconn c s = Some s'" using v True s'(1) by (simp add: closeconn_def)
    ultimately show ?thesis using s'(2) V by (auto simp: pinv_def)
  next
    case False
    then obtain f' b' where w: "p \<noteq> c" "cview s p = Some (c, f', b')" using g by auto
    obtain u where u: "conns s p = Some u" "fd u = f'" "buf u = b'" using cview_conn [OF w(2)] by blast
    have "p \<in> set cs" using cview_linv [OF L w(2)] .
    then obtain as1 bs1 where cs1: "cs = as1 @ p # bs1" by (meson split_list)
    obtain s1 where s1: "delconn p s = Some s1" "linv now (as1 @ bs1) s1" "cview s1 = (cview s)(p := None)" "conns s1 = (conns s)(p := None)"
      "rx s1 = rx s" "tx s1 = tx s" "pipes s1 = (pipes s)(pipe (buf u) := [])" "epolled s1 = (epolled s)(fd u := None)"
      using delconn_linv [OF L cs1 u(1)] by blast
    have v1: "conns s1 c = Some v" using s1(4) v(1) w(1) by simp
    have "c \<in> set (as1 @ bs1)" using linvD(2) [OF s1(2)] v1 by blast
    then obtain as2 bs2 where cs2: "as1 @ bs1 = as2 @ c # bs2" by (meson split_list)
    obtain s2 where s2: "delconn c s1 = Some s2" "linv now (as2 @ bs2) s2" "cview s2 = (cview s1)(c := None)" "rx s2 = rx s1" "tx s2 = tx s1"
      "pipes s2 = (pipes s1)(pipe (buf v) := [])" "epolled s2 = (epolled s1)(fd v := None)" using delconn_linv [OF s1(2) cs2 v1] by blast
    have V: "cview s2 = (\<lambda>x. if x \<in> {c, p} then None else cview s x)" using s1(3) s2(3) by auto
    have "dinv s2"
    proof (rule dinv_remove [OF D V])
      fix d q h e assume d: "d \<notin> {c, p}" "cview s d = Some (q, h, e)"
      show "q \<notin> {c, p}" if "q \<noteq> 0"
        using dinvD(1) [OF D d(2), unfolded cgood_def] that c w(2) d(1) by auto
      have "h \<noteq> f \<and> pipe e \<noteq> pipe b" "h \<noteq> f' \<and> pipe e \<noteq> pipe b'" using dinvD(2) [OF D d(2) c] dinvD(2) [OF D d(2) w(2)] d(1) by blast+
      then show "pipes s2 (pipe e) = pipes s (pipe e) \<and> epolled s2 h = epolled s h" using s1(7,8) s2(6,7) v u by auto
    qed (use s1 s2 in simp_all)
    moreover have "closeconn c s = Some s2" using v False s1(1) s2(1) by (simp add: closeconn_def)
    ultimately show ?thesis using s2(2) V by (auto simp: pinv_def)
  qed
qed

section \<open>New connections\<close>

text \<open>What a successful \<open>newconn\<close> leaves behind.\<close>

lemma newconn_state:
  assumes K: "kernel_documented K" "no_failures K" and L: "klist (plinks s) Expire (map Conn cs)" "set cs = dom (conns s)"
  shows "\<exists>c s' v. newconn K f now s = Some (c, s') \<and> c \<noteq> 0 \<and> conns s c = None \<and> conns s' = (conns s)(c \<mapsto> v) \<and>
    other v = 0 \<and> fd v = f \<and> bytes (buf v) = 0 \<and> expire v = now + connection_timeout \<and>
    (\<forall>d p g b. cview s d = Some (p, g, b) \<longrightarrow> pipe b \<noteq> pipe (buf v)) \<and>
    klist (plinks s') Expire (map Conn (cs @ [c])) \<and> num_events s' = num_events s + 1 \<and> rx s' = rx s \<and> tx s' = tx s \<and>
    pipes s' = (pipes s)(pipe (buf v) := []) \<and> epolled s' = (epolled s)(f \<mapsto> c)"
proof -
  obtain c v where m: "k_malloc K s = (c, v)" by (cases "k_malloc K s")
  have fin: "finite (dom (conns s))" using L(2) by (metis List.finite_set)
  have "conns s (fst (k_malloc K s)) = None" "fst (k_malloc K s) \<noteq> 0" "other (snd (k_malloc K s)) = 0" "bytes (buf (snd (k_malloc K s))) = 0"
    using kernel_documentedD(1) [OF K(1) fin] no_failuresD(1,4,5) [OF K(2)] fin by blast+
  then have c: "conns s c = None" "c \<noteq> 0" "other v = 0" "bytes (buf v) = 0" using m by simp_all
  define s1 where "s1 = after_call (set_conn c (v\<lparr>fd := f\<rparr>) s)"
  have fin1: "finite (dom (conns s1))" using fin by (simp add: s1_def set_conn_def after_call_def)
  obtain q where q: "k_pipe2 K s1 = Some q" using no_failuresD(2) [OF K(2) fin1] by blast
  have cn: "cview s c = None" using c(1) by (simp add: cview_def)
  have fr: "pipe b \<noteq> q" if "cview s d = Some (p, g, b)" for d p g b
  proof -
    have "cview s1 d = Some (p, g, b)" using that cn by (auto simp: s1_def)
    then show ?thesis by (rule kernel_documentedD(2) [OF K(1) fin1 q])
  qed
  let ?v = "v\<lparr>fd := f, buf := (buf v)\<lparr>pipe := q\<rparr>\<rparr>"
  define s2 where "s2 = after_call (set_conn c ?v (s1\<lparr>pipes := (pipes s1)(q := [])\<rparr>))"
  have nb: "newbuffer K c s1 = Some (True, s2)" using q by (simp add: newbuffer_def s2_def s1_def set_conn_def after_call_def)
  obtain s3 where s3: "epoll_add K f c s2 = (True, s3)" "conns s3 = conns s2" "plinks s3 = plinks s2" "num_events s3 = num_events s2 + 1"
    "rx s3 = rx s2" "tx s3 = tx s2" "pipes s3 = pipes s2" "epolled s3 = (epolled s2)(f \<mapsto> c)"
    using no_failuresD(6) [OF K(2)] by (auto simp: epoll_add_def after_call_def Let_def split: if_splits)
  let ?w = "?v\<lparr>expire := now + connection_timeout\<rparr>"
  define s4 where "s4 = set_conn c ?w s3"
  have c3: "conns s3 c = Some ?v" using s3(2) by (simp add: s2_def set_conn_def after_call_def)
  have c4: "conns s4 = (conns s)(c \<mapsto> ?w)" "plinks s4 = plinks s"
    using s3(2,3) by (auto simp: s4_def s2_def s1_def set_conn_def after_call_def fun_eq_iff)
  have nc: "c \<notin> set cs" using L(2) c(1) by auto
  note add = expire_add_list [of s4 cs c]
  have k4: "klist (plinks s4) Expire (map Conn cs)" "set cs \<subseteq> dom (conns s4)" "c \<in> dom (conns s4)" using L c4 by auto
  note add = expire_add_list [OF k4 nc]
  let ?s = "s4\<lparr>plinks := list_add_tail (Conn c) Expire (plinks s4)\<rparr>"
  have "newconn K f now s = Some (c, ?s)"
    using m c(2) nb s3(1) c3 add(1) by (simp add: newconn_def Let_def s1_def [symmetric] s4_def [symmetric])
  moreover have "conns ?s = (conns s)(c \<mapsto> ?w)" "klist (plinks ?s) Expire (map Conn (cs @ [c]))" using c4 add(2) by simp_all
  moreover have "num_events ?s = num_events s + 1" "rx ?s = rx s" "tx ?s = tx s" "pipes ?s = (pipes s)(q := [])" "epolled ?s = (epolled s)(f \<mapsto> c)"
    using s3 by (simp_all add: s4_def s2_def s1_def set_conn_def after_call_def)
  ultimately show ?thesis using c fr by (intro exI [of _ c] exI [of _ ?s] exI [of _ ?w]) auto
qed

lemma newconn_pinv:
  assumes K: "kernel_documented K" "no_failures K" and I: "pinv now cs s" and f: "\<And>d p b. cview s d \<noteq> Some (p, f, b)" "rx s f = []" "tx s f = []"
  shows "\<exists>c s' b. newconn K f now s = Some (c, s') \<and> c \<noteq> 0 \<and> cview s c = None \<and> pinv now (cs @ [c]) s' \<and> cview s' = (cview s)(c \<mapsto> (0, f, b)) \<and>
    rx s' = rx s \<and> tx s' = tx s \<and> pipes s' (pipe b) = []"
proof -
  have L: "linv now cs s" and D: "dinv s" using I by (simp_all add: pinv_def)
  note l = linvD [OF L]
  obtain c s' v where n: "newconn K f now s = Some (c, s')" "c \<noteq> 0" "conns s c = None" "conns s' = (conns s)(c \<mapsto> v)"
    "other v = 0" "fd v = f" "bytes (buf v) = 0" "expire v = now + connection_timeout"
    "\<forall>d p g b. cview s d = Some (p, g, b) \<longrightarrow> pipe b \<noteq> pipe (buf v)"
    "klist (plinks s') Expire (map Conn (cs @ [c]))" "num_events s' = num_events s + 1" "rx s' = rx s" "tx s' = tx s"
    "pipes s' = (pipes s)(pipe (buf v) := [])" "epolled s' = (epolled s)(f \<mapsto> c)"
    using newconn_state [OF K l(1,2), of f now] by blast
  have nc: "c \<notin> set cs" "cview s c = None" using l(2) n(3) by (auto simp: cview_def)
  have V: "cview s' = (cview s)(c \<mapsto> (0, f, buf v))" using n(4-6) by (auto simp: cview_def fun_eq_iff)
  have e: "exp_of s' x = exp_of s x" if "x \<in> set cs" for x using that nc n(4) by auto
  have m: "map (exp_of s') (cs @ [c]) = map (exp_of s) cs @ [now + connection_timeout]" using e n(4,8) by auto
  have "sorted (map (exp_of s') (cs @ [c]))" unfolding m using l(5,6) by (auto simp: sorted_append)
  then have "linv now (cs @ [c]) s'" unfolding linv_def using n l e by auto
  moreover have "dinv s'"
  proof -
    have "cgood s' c 0 f (buf v)" using n f(2,3) by (simp add: cgood_def)
    moreover have "cgood s' d p g b" if d: "cview s d = Some (p, g, b)" for d p g b
    proof -
      have "d \<noteq> c" "g \<noteq> f" using d nc(2) f(1) by auto
      moreover have "p \<noteq> c" if "p \<noteq> 0" using dinvD(1) [OF D d, unfolded cgood_def] that nc(2) by auto
      ultimately show ?thesis using dinvD(1) [OF D d] n(9) d V n(12-15) by (auto simp: cgood_def)
    qed
    ultimately have "cgood s' d p g b" if "cview s' d = Some (p, g, b)" for d p g b using that V by (cases "d = c") auto
    moreover have "g \<noteq> g' \<and> pipe b \<noteq> pipe b'" if x: "cview s' d = Some (p, g, b)" "cview s' d' = Some (p', g', b')" "d \<noteq> d'" for d p g b d' p' g' b'
    proof (cases "d = c \<or> d' = c")
      case True
      then show ?thesis using x V f(1) n(9) by (auto split: if_splits) (metis)+
    next
      case False
      then show ?thesis using x V dinvD(2) [OF D, of d p g b d' p' g' b'] by auto
    qed
    moreover have "cview s' 0 = None" using V n(2) D by (simp add: dinv_def)
    ultimately show ?thesis unfolding dinv_def by blast
  qed
  ultimately show ?thesis using n(1,2,12-14) nc V by (intro exI [of _ c] exI [of _ s'] exI [of _ "buf v"]) (auto simp: pinv_def)
qed

lemma new_socket_pinv:
  assumes I: "pinv now cs s" and f: "\<And>d p b. cview s d \<noteq> Some (p, f, b)"
  shows "pinv now cs (new_socket f s)" "cview (new_socket f s) = cview s" "rx (new_socket f s) f = []" "tx (new_socket f s) f = []"
proof -
  let ?s = "new_socket f s"
  show V: "cview ?s = cview s" and "rx ?s f = []" "tx ?s f = []" by (simp_all add: new_socket_def)
  have L: "linv now cs s" and D: "dinv s" using I by (simp_all add: pinv_def)
  have "cgood ?s c p g b" if c: "cview s c = Some (p, g, b)" for c p g b
    using dinvD(1) [OF D c] f c unfolding cgood_def V by (auto simp: new_socket_def split: if_splits) metis
  then have "dinv ?s" using D unfolding dinv_def V by blast
  moreover have "linv now cs ?s" using L linv_cong [of ?s s] by (simp add: new_socket_def)
  ultimately show "pinv now cs ?s" by (simp add: pinv_def)
qed

text \<open>The connections of \<open>s\<close> outside \<open>S\<close> are as before.\<close>

definition kept :: "nat set \<Rightarrow> proxy \<Rightarrow> proxy \<Rightarrow> bool" where
  "kept S s s' \<longleftrightarrow> (\<forall>d x. d \<notin> S \<longrightarrow> cview s d = Some x \<longrightarrow> cview s' d = Some x)"

lemma keptD: "kept S s s' \<Longrightarrow> d \<notin> S \<Longrightarrow> cview s d = Some x \<Longrightarrow> cview s' d = Some x"
  by (cases x) (auto simp: kept_def)

lemma kept_trans: "kept S s s1 \<Longrightarrow> kept S s1 s2 \<Longrightarrow> kept S s s2"
  by (simp add: kept_def)

lemma new_request_pinv:
  assumes K: "kernel_documented K" "no_failures K" and I: "pinv now cs s"
  shows "\<exists>s' cs'. new_request K now s = Some s' \<and> pinv now cs' s' \<and> kept {} s s'"
proof (cases "k_accept K s < 0")
  case True
  then show ?thesis using I pinv_tick [of now cs s] by (auto simp: new_request_def Let_def kept_def intro!: exI [of _ cs])
next
  case False
  let ?f = "k_accept K s" and ?s = "new_socket (k_accept K s) (after_call s)"
  have f: "cview (after_call s) d \<noteq> Some (p, ?f, b)" for d p b
    using kernel_documentedD(3) [OF K(1) pinv_finite [OF I]] unfolding cview_tick by blast
  have t: "pinv now cs (after_call s)" using I pinv_tick by simp
  note n = new_socket_pinv [OF t f]
  obtain c s' b where "newconn K ?f now ?s = Some (c, s')" "cview ?s c = None" "pinv now (cs @ [c]) s'" "cview s' = (cview ?s)(c \<mapsto> (0, ?f, b))"
    using newconn_pinv [OF K n(1), of ?f] n(2-4) f by auto
  then show ?thesis using False n(2) by (auto simp: new_request_def Let_def kept_def intro!: exI [of _ "cs @ [c]"])
qed

lemma openconn_pinv:
  assumes K: "kernel_documented K" "no_failures K" and I: "pinv now cs s" and c: "cview s c = Some (0, f, b)"
  shows "\<exists>d s' f' b'. openconn K c now s = Some (d, s') \<and> d \<noteq> 0 \<and> d \<noteq> c \<and> cview s d = None \<and> pinv now (cs @ [d]) s' \<and>
    cview s' = (cview s)(d \<mapsto> (c, f', b'), c \<mapsto> (d, f, b))"
proof -
  let ?f = "k_socket K s" and ?t = "after_call (after_call s)" and ?s = "new_socket (k_socket K s) (after_call (after_call s))"
  have fr: "cview ?t d \<noteq> Some (p, ?f, e)" for d p e
    using kernel_documentedD(4) [OF K(1) pinv_finite [OF I]] unfolding cview_tick by blast
  have t: "pinv now cs ?t" using I pinv_tick by simp
  note n = new_socket_pinv [OF t fr]
  obtain d s1 e where d: "newconn K ?f now ?s = Some (d, s1)" "d \<noteq> 0" "cview s d = None" "pinv now (cs @ [d]) s1"
    "cview s1 = (cview s)(d \<mapsto> (0, ?f, e))" "rx s1 = rx ?s" "tx s1 = tx ?s" "pipes s1 (pipe e) = []"
    using newconn_pinv [OF K n(1), of ?f] n(2-4) fr by auto
  have dc: "d \<noteq> c" using d(3) c by auto
  have D: "dinv s" and D1: "dinv s1" and L1: "linv now (cs @ [d]) s1" using I d(4) by (simp_all add: pinv_def)
  obtain v where v: "conns s1 d = Some v" "fd v = ?f" "buf v = e" using cview_conn [of s1 d 0 ?f e] d(5) by auto
  obtain w where w: "conns s1 c = Some w" "fd w = f" "buf w = b" using cview_conn [of s1 c 0 f b] d(5) dc c by auto
  let ?u = "set_conn c (w\<lparr>other := d\<rparr>) (set_conn d (v\<lparr>other := c\<rparr>) s1)"
  have V: "cview ?u = (cview s)(d \<mapsto> (c, ?f, e), c \<mapsto> (d, f, b))" using d(5) v w by (auto simp: fun_eq_iff)
  have op: "openconn K c now s = Some (d, ?u)"
  proof -
    have k: "\<not> k_socket K s < 0" "k_connect K (after_call s)" using no_failuresD(3,7) [OF K(2)] pinv_finite [OF I] not_le by blast+
    show ?thesis using k d(1,2) v(1) w(1) dc by (simp add: openconn_def Let_def set_conn_def)
  qed
  have lin: "linv now (cs @ [d]) ?u"
    using L1 linv_cong [of ?u s1 now "cs @ [d]"] v(1) w(1) dc by (simp add: set_conn_def)
  have gd: "cgood s1 d 0 ?f e" and gc: "cgood s1 c 0 f b" using dinvD(1) [OF D1] d(5) dc c by simp_all
  have same: "rx ?u = rx s1" "tx ?u = tx s1" "pipes ?u = pipes s1" "epolled ?u = epolled s1" by (simp_all add: set_conn_def)
  have c0: "c \<noteq> 0" using dinvD(3) [OF D c] .
  have "dinv ?u"
  proof -
    have "cgood ?u d c ?f e" "cgood ?u c d f b" using gd gc c0 d(2) dc unfolding cgood_def V same by auto
    moreover have "cgood ?u x p g a" if x: "x \<noteq> c" "x \<noteq> d" "cview s x = Some (p, g, a)" for x p g a
    proof -
      have x1: "cview s1 x = Some (p, g, a)" using x d(5) by simp
      have "p \<noteq> c \<and> p \<noteq> d" if "p \<noteq> 0" using dinvD(1) [OF D x(3), unfolded cgood_def] that c d(3) dinvD(3) [OF D x(3)] by auto
      then show ?thesis using dinvD(1) [OF D1 x1] d(5) unfolding cgood_def V same by auto
    qed
    ultimately have "cgood ?u x p g a" if "cview ?u x = Some (p, g, a)" for x p g a
      using that dc unfolding V by (auto split: if_splits)
    moreover have "g \<noteq> g' \<and> pipe a \<noteq> pipe a'" if x: "cview ?u x = Some (p, g, a)" "cview ?u y = Some (p', g', a')" "x \<noteq> y" for x p g a y p' g' a'
    proof -
      have "\<exists>q. cview s1 z = Some (q, h, m)" if "cview ?u z = Some (r, h, m)" for z r h m
        using that V d(5) c dc by (cases "z = c"; cases "z = d") auto
      then show ?thesis using x dinvD(2) [OF D1] by metis
    qed
    moreover have "cview ?u 0 = None" using V D d(2) c0 by (simp add: dinv_def)
    ultimately show ?thesis unfolding dinv_def by blast
  qed
  then show ?thesis using op lin V d(2,3) dc by (intro exI [of _ d] exI [of _ ?u] exI [of _ ?f] exI [of _ e]) (simp add: pinv_def)
qed

section \<open>Events\<close>

lemma pinv_split: "pinv now cs s \<Longrightarrow> cview s c = Some x \<Longrightarrow> \<exists>as bs. cs = as @ c # bs"
  using cview_linv [of now cs s c x] split_list [of c cs] by (auto simp: pinv_def)

lemma touch_event:
  assumes "pinv now cs s" "cview s c = Some (p, f, b)"
  shows "\<exists>s' cs'. touch_conn c now s = Some s' \<and> pinv now cs' s' \<and> cview s' = cview s"
  using pinv_split [OF assms] touch_conn_pinv [OF assms(1)] cview_conn [OF assms(2)] by metis

lemma moved_cview:
  assumes "moved c s s'" "cview s c = Some (p, f, b)"
  shows "\<exists>b'. cview s' c = Some (p, f, b')" "d \<noteq> c \<Longrightarrow> cview s' d = cview s d"
  using assms by (auto simp: moved_def)

lemma in_event:
  assumes "kernel_documented K" "pinv now cs s" "cview s c = Some (p, f, b)"
  shows "\<exists>ok s' b'. move_data_in K f c s = Some (ok, s') \<and> pinv now cs s' \<and> cview s' = (cview s)(c \<mapsto> (p, f, b'))"
proof -
  obtain v where v: "conns s c = Some v" "fd v = f" using cview_conn [OF assms(3)] by blast
  obtain ok s' where m: "move_data_in K f c s = Some (ok, s')" "pinv now cs s'" "moved c s s'"
    using move_data_in_pinv [OF assms(1,2) v(1)] v(2) by auto
  moreover obtain b' where "cview s' c = Some (p, f, b')" using moved_cview(1) [OF m(3) assms(3)] by blast
  moreover from this have "cview s' = (cview s)(c \<mapsto> (p, f, b'))" using moved_cview(2) [OF m(3) assms(3)] by auto
  ultimately show ?thesis by blast
qed

lemma out_event:
  assumes "no_failures K" "pinv now cs s" "cview s c = Some (p, f, b)" "p \<noteq> 0" "cview s p = Some (c, f', b')"
  shows "\<exists>s' b''. move_data_out K c f' s = Some (True, s') \<and> pinv now cs s' \<and> cview s' = (cview s)(c \<mapsto> (p, f, b''))"
proof -
  obtain v where v: "conns s c = Some v" "other v = p" using cview_conn [OF assms(3)] by blast
  obtain s' where m: "move_data_out K c f' s = Some (True, s')" "pinv now cs s'" "moved c s s'"
    using move_data_out_pinv [OF assms(1,2) v(1)] v(2) assms(4,5) by auto
  moreover obtain b'' where "cview s' c = Some (p, f, b'')" using moved_cview(1) [OF m(3) assms(3)] by blast
  moreover from this have "cview s' = (cview s)(c \<mapsto> (p, f, b''))" using moved_cview(2) [OF m(3) assms(3)] by auto
  ultimately show ?thesis by blast
qed

lemma partner:
  assumes "pinv now cs s" "cview s c = Some (p, f, b)" "p \<noteq> 0"
  shows "\<exists>f' b'. cview s p = Some (c, f', b')" "p \<noteq> c" "c \<noteq> 0"
  using assms dinvD(1,3) [of s c p f b] by (auto simp: pinv_def cgood_def)

text \<open>Opening the other side when there is none yet.\<close>

lemma open_event:
  assumes K: "kernel_documented K" "no_failures K" and I: "pinv now cs s" and c: "cview s c = Some (p, f, b)"
  shows "\<exists>q s' cs' f' b'. (if p = 0 then openconn K c now s else Some (p, s)) = Some (q, s') \<and> q \<noteq> 0 \<and> q \<noteq> c \<and> pinv now cs' s' \<and>
    cview s' c = Some (q, f, b) \<and> cview s' q = Some (c, f', b') \<and> (cview s q = None \<or> q = p) \<and> kept {c, p} s s'"
proof (cases "p = 0")
  case True
  obtain d s' f' b' where "openconn K c now s = Some (d, s')" "d \<noteq> 0" "d \<noteq> c" "cview s d = None" "pinv now (cs @ [d]) s'"
    "cview s' = (cview s)(d \<mapsto> (c, f', b'), c \<mapsto> (d, f, b))"
    using openconn_pinv [OF K I] c True by blast
  then show ?thesis using True by (intro exI [of _ d] exI [of _ s'] exI [of _ "cs @ [d]"] exI [of _ f'] exI [of _ b']) (auto simp: kept_def)
next
  case False
  then show ?thesis using partner [OF I c False] I c by (auto simp: kept_def)
qed

lemma handle_in_pinv:
  assumes K: "kernel_documented K" "no_failures K" and I: "pinv now cs s" and c: "cview s c = Some (p, f, b)"
  shows "\<exists>closed q s' cs'. handle_in K now c p s = Some (closed, q, s') \<and> pinv now cs' s' \<and> kept {c, p} s s' \<and>
    (\<not> closed \<longrightarrow> q \<noteq> 0 \<and> (\<exists>f b. cview s' c = Some (q, f, b)) \<and> (q = p \<or> cview s q = None))"
proof -
  obtain s1 cs1 where s1: "touch_conn c now s = Some s1" "pinv now cs1 s1" "cview s1 = cview s" using touch_event [OF I c] by blast
  have c1: "cview s1 c = Some (p, f, b)" using c s1(3) by simp
  obtain q s2 cs2 f' b' where s2: "(if p = 0 then openconn K c now s1 else Some (p, s1)) = Some (q, s2)" "q \<noteq> 0" "q \<noteq> c" "pinv now cs2 s2"
    "cview s2 c = Some (q, f, b)" "cview s2 q = Some (c, f', b')" "cview s1 q = None \<or> q = p" "kept {c, p} s1 s2"
    using open_event [OF K s1(2) c1] by blast
  obtain v where v: "conns s2 c = Some v" "fd v = f" using cview_conn [OF s2(5)] by blast
  obtain inn s3 b3 where s3: "move_data_in K f c s2 = Some (inn, s3)" "pinv now cs2 s3" "cview s3 = (cview s2)(c \<mapsto> (q, f, b3))"
    using in_event [OF K(1) s2(4,5)] by blast
  have c3: "cview s3 c = Some (q, f, b3)" "cview s3 q = Some (c, f', b')" using s3(3) s2(3,6) by simp_all
  obtain w where w: "conns s3 q = Some w" "fd w = f'" using cview_conn [OF c3(2)] by blast
  obtain s4 b4 where s4: "move_data_out K c f' s3 = Some (True, s4)" "pinv now cs2 s4" "cview s4 = (cview s3)(c \<mapsto> (q, f, b4))"
    using out_event [OF K(2) s3(2) c3(1) s2(2) c3(2)] by blast
  have c4: "cview s4 c = Some (q, f, b4)" "cview s4 q = Some (c, f', b')" using s4(3) c3 s2(3) by simp_all
  have k4: "kept {c, p} s s4" using s2(8) s1(3) s3(3) s4(3) by (auto simp: kept_def)
  show ?thesis
  proof (cases inn)
    case True
    obtain s5 cs5 where s5: "touch_conn q now s4 = Some s5" "pinv now cs5 s5" "cview s5 = cview s4" using touch_event [OF s4(2) c4(2)] by blast
    have "handle_in K now c p s = Some (False, q, s5)"
      using s1(1) s2(1) v s3(1) w s4(1) s5(1) True by (simp add: handle_in_def)
    then show ?thesis using s5 c4 k4 s2(2,7) s1(3) by (auto simp: kept_def)
  next
    case False
    obtain s5 cs5 where s5: "closeconn c s4 = Some s5" "pinv now cs5 s5" "cview s5 = (\<lambda>x. if x \<in> {c, q} then None else cview s4 x)"
      using closeconn_pinv [OF s4(2) c4(1)] by blast
    have "handle_in K now c p s = Some (True, q, s5)"
      using s1(1) s2(1) v s3(1) w s4(1) s5(1) False by (simp add: handle_in_def)
    then show ?thesis using s5 k4 s2(7) s1(3) by (auto simp: kept_def)
  qed
qed

lemma handle_out_pinv:
  assumes K: "kernel_documented K" "no_failures K" and I: "pinv now cs s" and c: "cview s c = Some (p, f, b)" "p \<noteq> 0"
  shows "\<exists>s' cs'. handle_out K now c p s = Some s' \<and> pinv now cs' s' \<and> kept {c, p} s s'"
proof -
  obtain f' b' where p: "cview s p = Some (c, f', b')" "p \<noteq> c" "c \<noteq> 0" using partner [OF I c] by blast
  obtain v where v: "conns s c = Some v" "fd v = f" using cview_conn [OF c(1)] by blast
  obtain s1 b1 where s1: "move_data_out K p f s = Some (True, s1)" "pinv now cs s1" "cview s1 = (cview s)(p \<mapsto> (c, f', b1))"
    using out_event [OF K(2) I p(1,3) c(1)] by blast
  have "cview s1 c = Some (p, f, b)" using s1(3) c(1) p(2) by simp
  then obtain s2 cs2 where s2: "touch_conn c now s1 = Some s2" "pinv now cs2 s2" "cview s2 = cview s1" using touch_event [OF s1(2)] by blast
  have p2: "cview s2 p = Some (c, f', b1)" using s2(3) s1(3) by simp
  obtain w where w: "conns s2 p = Some w" "fd w = f'" using cview_conn [OF p2] by blast
  have t: "pinv now cs2 (after_call s2)" "cview (after_call s2) p = Some (c, f', b1)" using s2(2) p2 pinv_tick by simp_all
  have k2: "kept {c, p} s s2" using s1(3) s2(3) by (auto simp: kept_def)
  show ?thesis
  proof (cases "k_fionread K s2 > 0")
    case False
    then have "handle_out K now c p s = Some (after_call s2)" using v s1(1) s2(1) w by (simp add: handle_out_def Let_def)
    then show ?thesis using t(1) k2 by (auto simp: kept_def)
  next
    case True
    obtain ok s3 b3 where s3: "move_data_in K f' p (after_call s2) = Some (ok, s3)" "pinv now cs2 s3" "cview s3 = (cview s2)(p \<mapsto> (c, f', b3))"
      using in_event [OF K(1) t] by auto
    show ?thesis
    proof (cases ok)
      case ok: True
      then have "handle_out K now c p s = Some s3" using v s1(1) s2(1) w True s3(1) by (simp add: handle_out_def Let_def)
      then show ?thesis using s3 k2 by (auto simp: kept_def)
    next
      case ok: False
      have "cview s3 p = Some (c, f', b3)" using s3(3) by simp
      then obtain s4 cs4 where s4: "closeconn p s3 = Some s4" "pinv now cs4 s4" "cview s4 = (\<lambda>x. if x \<in> {p, c} then None else cview s3 x)"
        using closeconn_pinv [OF s3(2)] by blast
      have "handle_out K now c p s = Some s4" using v s1(1) s2(1) w True s3(1) s4(1) ok by (simp add: handle_out_def Let_def)
      then show ?thesis using s4 s3(3) k2 by (auto simp: kept_def)
    qed
  qed
qed

text \<open>The connections an event may close.\<close>

definition affects :: "proxy \<Rightarrow> event \<Rightarrow> nat set" where
  "affects s ev = (case cview s (data_ptr ev) of None \<Rightarrow> {} | Some (p, f, b) \<Rightarrow> {data_ptr ev, p})"

lemma handle_event_pinv:
  assumes K: "kernel_documented K" "no_failures K" and I: "pinv now cs s" and live: "data_ptr ev = 0 \<or> cview s (data_ptr ev) \<noteq> None"
  shows "\<exists>s' cs'. handle_event K now ev s = Some s' \<and> pinv now cs' s' \<and> kept (affects s ev) s s'"
proof (cases "data_ptr ev = 0")
  case True
  have "cview s 0 = None" using I by (simp add: pinv_def dinv_def)
  then have a: "affects s ev = {}" using True by (simp add: affects_def)
  show ?thesis using new_request_pinv [OF K I] I True a by (cases "ev_in ev") (auto simp: handle_event_def kept_def)
next
  case False
  let ?c = "data_ptr ev"
  obtain p f b where c: "cview s ?c = Some (p, f, b)" using False live by auto
  have a: "affects s ev = {?c, p}" using c by (simp add: affects_def)
  show ?thesis
  proof (cases "ev_err_hup ev")
    case True
    then show ?thesis using closeconn_pinv [OF I c] False a by (auto simp: handle_event_def kept_def)
  next
    case err: False
    obtain v where v: "conns s ?c = Some v" "other v = p" using cview_conn [OF c] by blast
    obtain closed q s1 cs1 where s1: "(if ev_in ev then handle_in K now ?c p s else Some (False, p, s)) = Some (closed, q, s1)"
      "pinv now cs1 s1" "kept {?c, p} s s1" "\<not> closed \<and> q \<noteq> 0 \<longrightarrow> (\<exists>f b. cview s1 ?c = Some (q, f, b)) \<and> (q = p \<or> cview s q = None)"
    proof (cases "ev_in ev")
      case True
      then show ?thesis using handle_in_pinv [OF K I c] that by fastforce
    next
      case False
      then show ?thesis using that [of False p s cs] I c by (simp add: kept_def)
    qed
    show ?thesis
    proof (cases "\<not> closed \<and> ev_out ev \<and> q \<noteq> 0")
      case True
      then obtain f1 b1 where c1: "cview s1 ?c = Some (q, f1, b1)" "q = p \<or> cview s q = None" using s1(4) by blast
      obtain s2 cs2 where s2: "handle_out K now ?c q s1 = Some s2" "pinv now cs2 s2" "kept {?c, q} s1 s2"
        using handle_out_pinv [OF K s1(2) c1(1)] True by blast
      have "kept {?c, p} s s2" unfolding kept_def
      proof (intro allI impI)
        fix d x assume d: "d \<notin> {?c, p}" "cview s d = Some x"
        then have "d \<noteq> q" using c1(2) by auto
        then have "d \<notin> {?c, q}" using d(1) by blast
        then show "cview s2 d = Some x" by (rule keptD [OF s2(3) _ keptD [OF s1(3) d]])
      qed
      then show ?thesis using False err v s1(1) s2 True a by (auto simp: handle_event_def)
    next
      case no: False
      then have "handle_event K now ev s = Some s1" using False err v s1(1) by (auto simp: handle_event_def)
      then show ?thesis using s1(2,3) a by auto
    qed
  qed
qed

text \<open>Every event of the batch concerns the listening socket or a live connection, and no later one
  a connection that an earlier one may have closed.\<close>

fun batch_ok :: "proxy \<Rightarrow> event list \<Rightarrow> bool" where
  "batch_ok s [] \<longleftrightarrow> True"
| "batch_ok s (ev # evs) \<longleftrightarrow> (data_ptr ev = 0 \<or> cview s (data_ptr ev) \<noteq> None) \<and>
     list_all (\<lambda>e. data_ptr e = 0 \<or> data_ptr e \<notin> affects s ev) evs \<and> batch_ok s evs"

lemma batch_kept:
  assumes "kept S s s'" "batch_ok s evs" "list_all (\<lambda>e. data_ptr e = 0 \<or> data_ptr e \<notin> S) evs" "cview s 0 = None" "cview s' 0 = None"
  shows "batch_ok s' evs"
  using assms(2,3)
proof (induction evs)
  case (Cons ev evs)
  have "affects s' ev = affects s ev \<and> (data_ptr ev = 0 \<or> cview s' (data_ptr ev) \<noteq> None)"
  proof (cases "data_ptr ev = 0")
    case True
    then show ?thesis using assms(4,5) by (simp add: affects_def)
  next
    case False
    then obtain x where "cview s (data_ptr ev) = Some x" using Cons.prems(1) by auto
    moreover from this have "cview s' (data_ptr ev) = Some x" using keptD [OF assms(1)] Cons.prems(2) False by auto
    ultimately show ?thesis by (simp add: affects_def)
  qed
  then show ?case using Cons by simp
qed simp

lemma handle_events_pinv:
  assumes K: "kernel_documented K" "no_failures K"
  shows "pinv now cs s \<Longrightarrow> batch_ok s evs \<Longrightarrow> \<exists>s' cs'. handle_events K now evs s = Some s' \<and> pinv now cs' s'"
proof (induction evs arbitrary: s cs)
  case (Cons ev evs)
  obtain s1 cs1 where s1: "handle_event K now ev s = Some s1" "pinv now cs1 s1" "kept (affects s ev) s s1"
    using handle_event_pinv [OF K Cons.prems(1), of ev] Cons.prems(2) by auto
  have "batch_ok s1 evs"
    by (rule batch_kept [OF s1(3)]) (use Cons.prems s1(2) in \<open>simp_all add: pinv_def dinv_def\<close>)
  from Cons.IH [OF s1(2) this] show ?case using s1(1) by simp
qed auto

lemma pinv_later:
  assumes "pinv now cs s" "now \<le> now'"
  shows "pinv now' cs s"
proof -
  have "\<forall>c\<in>set cs. exp_of s c \<le> now' + connection_timeout"
  proof
    fix c assume "c \<in> set cs"
    then have "exp_of s c \<le> now + connection_timeout" using assms(1) linvD(6) by (auto simp: pinv_def)
    then show "exp_of s c \<le> now' + connection_timeout" using assms(2) by linarith
  qed
  then show ?thesis using assms unfolding pinv_def linv_def by blast
qed

lemma pinv_start: "pinv now [] (proxy_start lfd)"
  by (simp add: pinv_def linv_def dinv_def proxy_start_def cview_def INIT_LIST_HEAD_def set_prev_def set_next_def ring_def)

section \<open>Expiry\<close>

lemma expire_first:
  assumes I: "pinv now cs s"
  shows "cs = [] \<Longrightarrow> expire_connections now s = Some (-1, s)"
    "cs = c # ds \<Longrightarrow> exp_of s c > now \<Longrightarrow> expire_connections now s = Some ((exp_of s c - now) * 1000, s)"
proof -
  have L: "linv now cs s" using I by (simp add: pinv_def)
  note l = linvD [OF L]
  have f: "lnext (plinks s) Expire = (if cs = [] then Expire else Conn (hd cs))" using ring_next_head [OF l(1)] by (simp add: hd_map)
  show "cs = [] \<Longrightarrow> expire_connections now s = Some (-1, s)"
    using f by (simp add: expire_connections_def node_next_def node_live_def Let_def expire_loop.simps)
  assume c: "cs = c # ds" and e: "exp_of s c > now"
  obtain v where v: "conns s c = Some v" using l(2) c by auto
  show "expire_connections now s = Some ((exp_of s c - now) * 1000, s)"
    using f c e v by (simp add: expire_connections_def node_next_def node_live_def Let_def expire_loop.simps [of now "Conn c"])
qed

text \<open>An expired connection in front of its partner.\<close>

lemma expire_pair_faults:
  assumes I: "pinv now (c # d # ds) s" and c: "cview s c = Some (d, f, b)" and e: "exp_of s c \<le> now"
  shows "expire_connections now s = None"
proof -
  have L: "linv now (c # d # ds) s" using I by (simp add: pinv_def)
  note l = linvD [OF L]
  have n: "lnext (plinks s) Expire = Conn c" "lnext (plinks s) (Conn c) = Conn d" using l(1) by (auto simp: ring_def)
  obtain v where v: "conns s c = Some v" using l(2) by auto
  obtain s' where s': "closeconn c s = Some s'" "cview s' = (\<lambda>x. if x \<in> {c, d} then None else cview s x)"
    using closeconn_pinv [OF I c] by blast
  have "cview s' d = None" using s'(2) by simp
  then have "node_next s' (Conn d) = None" by (simp add: node_next_def node_live_def cview_def)
  then show ?thesis using n v s'(1) e
    by (simp add: expire_connections_def node_next_def [of s] node_live_def Let_def expire_loop.simps [of now "Conn c"])
qed

section \<open>Properties\<close>


text \<open>A kernel that meets the two hypotheses.\<close>

definition unused :: "nat set \<Rightarrow> nat" where
  "unused X = Suc (Max (insert 0 X))"

lemma unused_fresh: "finite X \<Longrightarrow> x \<in> X \<Longrightarrow> x \<noteq> unused X"
proof -
  assume "finite X" "x \<in> X"
  then have "x \<le> Max (insert 0 X)" by (intro Max_ge) auto
  then show ?thesis unfolding unused_def by linarith
qed

definition zeroed :: conn where
  "zeroed = \<lparr>other = 0, fd = 0, buf = \<lparr>pipe = (0, 0), bytes = 0\<rparr>, expire = 0\<rparr>"

definition fresh_fd :: "proxy \<Rightarrow> int" where
  "fresh_fd s = int (unused ((\<lambda>v. nat (fd v)) ` ran (conns s)))"

definition good_kernel :: pkernel where
  "good_kernel = \<lparr>k_malloc = (\<lambda>s. (unused (dom (conns s)), zeroed)),
     k_pipe2 = (\<lambda>s. Some (int (unused ((\<lambda>v. nat (fst (pipe (buf v)))) ` ran (conns s))), 0)), k_epoll_ctl = (\<lambda>_. True),
     k_accept = fresh_fd, k_socket = fresh_fd, k_connect = (\<lambda>_. True), k_splice_in = (\<lambda>_ _. In_Again), k_splice_out = (\<lambda>_ _. Sent 100),
     k_fionread = (\<lambda>_. 0)\<rparr>"

lemma unused_field:
  assumes "finite (dom (conns s))" "cview s c = Some (p, f, b)"
  shows "f \<noteq> fresh_fd s" "pipe b \<noteq> (int (unused ((\<lambda>v. nat (fst (pipe (buf v)))) ` ran (conns s))), 0)"
proof -
  obtain v where v: "conns s c = Some v" "fd v = f" "buf v = b" using cview_conn [OF assms(2)] by blast
  have r: "v \<in> ran (conns s)" "finite (ran (conns s))" using ranI [of "conns s" c v] v(1) finite_ran [OF assms(1)] by blast+
  show "f \<noteq> fresh_fd s" using unused_fresh [OF finite_imageI [OF r(2)] imageI [OF r(1)], of "\<lambda>v. nat (fd v)"] v(2) by (auto simp: fresh_fd_def)
  show "pipe b \<noteq> (int (unused ((\<lambda>v. nat (fst (pipe (buf v)))) ` ran (conns s))), 0)"
    using unused_fresh [OF finite_imageI [OF r(2)] imageI [OF r(1)], of "\<lambda>v. nat (fst (pipe (buf v)))"] v(3) by auto
qed

lemma good_kernel_ok: "kernel_documented good_kernel" "no_failures good_kernel"
proof -
  have m: "conns s (unused (dom (conns s))) = None" if "finite (dom (conns s))" for s
    using unused_fresh [OF that] by blast
  show "kernel_documented good_kernel"
    unfolding kernel_documented_def using m unused_field by (auto simp: good_kernel_def)
  show "no_failures good_kernel"
    by (auto simp: no_failures_def good_kernel_def zeroed_def unused_def fresh_fd_def)
qed

definition ev_listen :: event where
  "ev_listen = \<lparr>data_ptr = 0, ev_in = True, ev_out = False, ev_err_hup = False\<rparr>"


text \<open>The kernel of a small run: one client, one server, two bytes.\<close>

definition plain_kernel :: pkernel where
  "plain_kernel = \<lparr>k_malloc = (\<lambda>s. (clock s + 100, zeroed)), k_pipe2 = (\<lambda>s. Some (int (clock s) + 1000, int (clock s) + 2000)),
     k_epoll_ctl = (\<lambda>_. True), k_accept = (\<lambda>_. 10), k_socket = (\<lambda>_. 11), k_connect = (\<lambda>_. True),
     k_splice_in = (\<lambda>s c. if rx s 10 = [] then Got [7, 8] else In_Again), k_splice_out = (\<lambda>_ _. Sent 100), k_fionread = (\<lambda>_. 0)\<rparr>"

definition ev_read :: "nat \<Rightarrow> event" where
  "ev_read c = \<lparr>data_ptr = c, ev_in = True, ev_out = False, ev_err_hup = False\<rparr>"

declare move_data_in.simps [code] move_data_out.simps [code] expire_loop.simps [code]


end
