(* ===== verification/Proxy_Setup.thy ===== *)
theory Proxy_Setup
  imports Prelude "HOL-Library.Monad_Syntax"
begin

unbundle bit_operations_syntax

text \<open>
  The start of the port forwarder of \<open>proxy/proxy.c\<close>: the arguments, name resolution, the
  listening socket, and \<open>setnonblock\<close> with its cache of descriptor flags.  What the system calls
  return is a parameter; every failure ends the program.
\<close>

section \<open>Descriptor flags\<close>

definition O_NONBLOCK :: "32 word" where "O_NONBLOCK = 2048"

text \<open>The flags of all descriptors; the cache may be NULL, and \<open>-1\<close> says that it is empty.\<close>

definition setnonblock :: "int \<Rightarrow> 32 word option \<Rightarrow> (int \<Rightarrow> 32 word) \<Rightarrow> 32 word option \<times> (int \<Rightarrow> 32 word)" where
  "setnonblock fd cache fl =
     (if cache = None \<or> cache = Some (-1)
      then let flags = fl fd in (map_option (\<lambda>_. flags) cache, fl(fd := flags OR O_NONBLOCK))
      else let flags = the cache in (cache, fl(fd := flags OR O_NONBLOCK)))"

section \<open>Set-up\<close>

record setup_calls =
  getaddrinfo_out :: int
  epoll_create :: int
  getaddrinfo_listen :: int
  socket_ret :: int
  setsockopt_ret :: int
  bind_ret :: int
  listen_ret :: int
  epoll_add_ret :: int

text \<open>The place at which the program gives up with exit code 1.\<close>

datatype setup_error = Usage | Resolve | EpollCreate | Socket | ReuseAddr | Bind | Listen | EpollAdd

text \<open>\<open>err(x)\<close> if the test holds.\<close>

definition err_if :: "setup_error \<Rightarrow> bool \<Rightarrow> setup_error + unit" where
  "err_if e b = (if b then Inl e else Inr ())"

definition resolve :: "int \<Rightarrow> setup_error + unit" where
  "resolve ret = err_if Resolve (ret \<noteq> 0)"

fun and_then :: "setup_error + 'a \<Rightarrow> ('a \<Rightarrow> setup_error + 'b) \<Rightarrow> setup_error + 'b" where
  "and_then (Inl e) f = Inl e"
| "and_then (Inr x) f = f x"

definition listen_socket :: "setup_calls \<Rightarrow> (int \<Rightarrow> 32 word) \<Rightarrow> setup_error + int \<times> (int \<Rightarrow> 32 word)" where
  "listen_socket K fl =
     and_then (resolve (getaddrinfo_listen K)) (\<lambda>_.
     and_then (err_if Socket (socket_ret K < 0)) (\<lambda>_.
     and_then (err_if ReuseAddr (setsockopt_ret K < 0)) (\<lambda>_.
     and_then (err_if Bind (bind_ret K < 0)) (\<lambda>_.
     and_then (err_if Listen (listen_ret K < 0)) (\<lambda>_.
     let fl = snd (setnonblock (socket_ret K) None fl) in
     and_then (err_if EpollAdd (epoll_add_ret K < 0)) (\<lambda>_. Inr (socket_ret K, fl)))))))"

text \<open>\<open>main\<close> up to the event loop: the epoll and the listening descriptor, the flags and the
  address to listen on.\<close>

definition proxy_setup :: "setup_calls \<Rightarrow> string list \<Rightarrow> (int \<Rightarrow> 32 word) \<Rightarrow> setup_error + int \<times> int \<times> (int \<Rightarrow> 32 word) \<times> string" where
  "proxy_setup K av fl =
     and_then (err_if Usage (length av \<noteq> 4 \<and> length av \<noteq> 5)) (\<lambda>_.
     and_then (resolve (getaddrinfo_out K)) (\<lambda>_.
     and_then (err_if EpollCreate (epoll_create K < 0)) (\<lambda>_.
     let lname = (if length av = 5 then av ! 4 else ''0.0.0.0'') in
     and_then (listen_socket K fl) (\<lambda>(lfd, fl). Inr (epoll_create K, lfd, fl, lname)))))"

section \<open>Properties\<close>

definition nonblocking :: "(int \<Rightarrow> 32 word) \<Rightarrow> int \<Rightarrow> bool" where
  "nonblocking fl fd \<longleftrightarrow> bit (fl fd) 11"

lemma bit_O_NONBLOCK: "bit O_NONBLOCK n \<longleftrightarrow> n = 11"
proof -
  have e: "O_NONBLOCK = 2 ^ 11" by (simp add: O_NONBLOCK_def)
  show ?thesis unfolding e bit_exp_iff by (auto simp: possible_bit_word)
qed

lemma bit_set_nonblock: "n < 32 \<Longrightarrow> bit (w OR O_NONBLOCK) n \<longleftrightarrow> bit w n \<or> n = 11"
  by (simp add: bit_or_iff bit_O_NONBLOCK)

text \<open>Whatever the cache holds the descriptor does not block afterwards, and no other descriptor
  changes.  With the cache filled by the first call, all descriptors that started with the same
  flags end up with their own flags and \<open>O_NONBLOCK\<close>: the cache saves a call and changes nothing.\<close>

theorem setnonblock_correct:
  "nonblocking (snd (setnonblock fd cache fl)) fd" "fd' \<noteq> fd \<Longrightarrow> snd (setnonblock fd cache fl) fd' = fl fd'"
  by (auto simp: setnonblock_def nonblocking_def Let_def bit_set_nonblock)

fun setnonblock_all :: "int list \<Rightarrow> 32 word option \<Rightarrow> (int \<Rightarrow> 32 word) \<Rightarrow> int \<Rightarrow> 32 word" where
  "setnonblock_all [] cache fl = fl"
| "setnonblock_all (fd # fds) cache fl = (case setnonblock fd cache fl of (cache, fl) \<Rightarrow> setnonblock_all fds cache fl)"

lemma setnonblock_cached:
  assumes "distinct fds" "\<And>fd. fd \<in> set fds \<Longrightarrow> fl fd = w" "cache = Some (-1) \<or> cache = Some w"
  shows "setnonblock_all fds cache fl = (\<lambda>fd. if fd \<in> set fds then w OR O_NONBLOCK else fl fd)"
  using assms
proof (induction fds arbitrary: cache fl)
  case (Cons fd fds)
  have s: "setnonblock fd cache fl = (Some w, fl(fd := w OR O_NONBLOCK))"
    using Cons.prems(2) [of fd] Cons.prems(3) by (auto simp: setnonblock_def Let_def)
  have "setnonblock_all fds (Some w) (fl(fd := w OR O_NONBLOCK)) =
      (\<lambda>x. if x \<in> set fds then w OR O_NONBLOCK else (fl(fd := w OR O_NONBLOCK)) x)"
    using Cons.prems by (intro Cons.IH) auto
  then show ?case using s by (auto simp: fun_eq_iff)
qed auto

text \<open>The set-up succeeds exactly when the number of arguments is right and no call fails, and then
  the listening socket does not block.\<close>

theorem proxy_setup_outcome:
  "(\<exists>r. proxy_setup K av fl = Inr r) \<longleftrightarrow> (length av = 4 \<or> length av = 5) \<and> getaddrinfo_out K = 0 \<and> 0 \<le> epoll_create K \<and>
     getaddrinfo_listen K = 0 \<and> 0 \<le> socket_ret K \<and> 0 \<le> setsockopt_ret K \<and> 0 \<le> bind_ret K \<and> 0 \<le> listen_ret K \<and> 0 \<le> epoll_add_ret K"
  "proxy_setup K av fl = Inr (efd, lfd, fl', lname) \<Longrightarrow> efd = epoll_create K \<and> lfd = socket_ret K \<and> nonblocking fl' lfd \<and>
     (\<forall>fd. fd \<noteq> lfd \<longrightarrow> fl' fd = fl fd)"
proof -
  show "(\<exists>r. proxy_setup K av fl = Inr r) \<longleftrightarrow> (length av = 4 \<or> length av = 5) \<and> getaddrinfo_out K = 0 \<and> 0 \<le> epoll_create K \<and>
     getaddrinfo_listen K = 0 \<and> 0 \<le> socket_ret K \<and> 0 \<le> setsockopt_ret K \<and> 0 \<le> bind_ret K \<and> 0 \<le> listen_ret K \<and> 0 \<le> epoll_add_ret K"
    by (auto simp: proxy_setup_def listen_socket_def resolve_def err_if_def Let_def)
  show "proxy_setup K av fl = Inr (efd, lfd, fl', lname) \<Longrightarrow> efd = epoll_create K \<and> lfd = socket_ret K \<and> nonblocking fl' lfd \<and>
     (\<forall>fd. fd \<noteq> lfd \<longrightarrow> fl' fd = fl fd)"
    by (auto simp: proxy_setup_def listen_socket_def resolve_def err_if_def Let_def setnonblock_correct split: if_splits)
qed

end
