(* ===== verification/Defer.thy ===== *)
theory Defer
  imports Prelude
begin

text \<open>
  The \<open>defer\<close> macros of \<open>cdefer/defer.h\<close>.  A function body is a sequence of actions and
  \<open>Defer\<close> statements followed by \<open>Return\<close> with an expression; the labels of the deferred
  blocks are kept in an array of \<open>MAX_DEFERRED_STATEMENTS\<close>.  A store outside the array
  and a jump to a NULL label are \<open>None\<close>.
\<close>

definition MAX_DEFERRED_STATEMENTS :: nat where "MAX_DEFERRED_STATEMENTS = 32"

datatype 'a stmt = Do 'a | Defer 'a

record 'a frame =
  deferral_num :: nat
  deferrals :: "'a option list"
  done_log :: "'a list"

definition DEFER_INIT :: "'a frame" where
  "DEFER_INIT = \<lparr>deferral_num = 0, deferrals = replicate MAX_DEFERRED_STATEMENTS None, done_log = []\<rparr>"

text \<open>\<open>deferral_num\<close> is an unsigned char.\<close>

fun exec_stmt :: "'a stmt \<Rightarrow> 'a frame \<Rightarrow> 'a frame option" where
  "exec_stmt (Do a) s = Some (s\<lparr>done_log := done_log s @ [a]\<rparr>)"
| "exec_stmt (Defer b) s =
     (if deferral_num s < MAX_DEFERRED_STATEMENTS
      then Some (s\<lparr>deferrals := (deferrals s)[deferral_num s := Some b], deferral_num := (deferral_num s + 1) mod 256\<rparr>)
      else None)"

fun exec_stmts :: "'a stmt list \<Rightarrow> 'a frame \<Rightarrow> 'a frame option" where
  "exec_stmts [] s = Some s"
| "exec_stmts (x # xs) s = (case exec_stmt x s of None \<Rightarrow> None | Some s' \<Rightarrow> exec_stmts xs s')"

text \<open>The jumps: \<open>n\<close> labels are left.\<close>

fun run_deferred :: "nat \<Rightarrow> 'a frame \<Rightarrow> 'a frame option" where
  "run_deferred 0 s = Some s"
| "run_deferred (Suc n) s =
     (case deferrals s ! n of
        None \<Rightarrow> None
      | Some b \<Rightarrow> run_deferred n (s\<lparr>deferral_num := n, done_log := done_log s @ [b]\<rparr>))"

text \<open>\<open>Return e\<close>: the deferred blocks, then the expression.\<close>

definition exec_return :: "'a \<Rightarrow> 'a frame \<Rightarrow> 'a list option" where
  "exec_return e s = map_option (\<lambda>s. done_log s @ [e]) (run_deferred (deferral_num s) s)"

definition exec_function :: "'a stmt list \<Rightarrow> 'a \<Rightarrow> 'a list option" where
  "exec_function body e = (case exec_stmts body DEFER_INIT of None \<Rightarrow> None | Some s \<Rightarrow> exec_return e s)"

text \<open>The statements of \<open>test2\<close>.\<close>

definition test2_body :: "string stmt list" where
  "test2_body = [Do ''0'', Defer ''3'', Defer ''2'', Do ''1'']"

section \<open>Order\<close>

fun dos :: "'a stmt list \<Rightarrow> 'a list" where
  "dos [] = []"
| "dos (Do a # xs) = a # dos xs"
| "dos (Defer b # xs) = dos xs"

fun defers :: "'a stmt list \<Rightarrow> 'a list" where
  "defers [] = []"
| "defers (Do a # xs) = defers xs"
| "defers (Defer b # xs) = b # defers xs"

definition holds :: "'a list \<Rightarrow> 'a frame \<Rightarrow> bool" where
  "holds ds s \<longleftrightarrow> deferral_num s = length ds \<and> length ds \<le> 32 \<and> length (deferrals s) = 32 \<and> take (length ds) (deferrals s) = map Some ds"

lemma exec_stmts_correct:
  "holds ds s \<Longrightarrow> length ds + length (defers xs) \<le> 32 \<Longrightarrow>
    \<exists>s'. exec_stmts xs s = Some s' \<and> holds (ds @ defers xs) s' \<and> done_log s' = done_log s @ dos xs"
proof (induction xs arbitrary: ds s)
  case (Cons x xs)
  show ?case
  proof (cases x)
    case (Do a)
    then show ?thesis using Cons.IH [of ds "s\<lparr>done_log := done_log s @ [a]\<rparr>"] Cons.prems by (auto simp: holds_def)
  next
    case (Defer b)
    let ?s = "s\<lparr>deferrals := (deferrals s)[deferral_num s := Some b], deferral_num := (deferral_num s + 1) mod 256\<rparr>"
    have lt: "length ds < 32" using Cons.prems(2) Defer by simp
    have "holds (ds @ [b]) ?s" using Cons.prems(1) lt by (auto simp: holds_def take_Suc_conv_app_nth)
    then show ?thesis using Cons.IH [of "ds @ [b]" ?s] Cons.prems Defer lt by (auto simp: holds_def MAX_DEFERRED_STATEMENTS_def)
  qed
qed simp

lemma run_deferred_correct:
  "take (length ds) (deferrals s) = map Some ds \<Longrightarrow> length ds \<le> length (deferrals s) \<Longrightarrow>
    \<exists>s'. run_deferred (length ds) s = Some s' \<and> done_log s' = done_log s @ rev ds"
proof (induction ds arbitrary: s rule: rev_induct)
  case (snoc d ds)
  have "take (length ds) (deferrals s) = map Some ds \<and> deferrals s ! length ds = Some d"
    using snoc.prems by (simp add: take_Suc_conv_app_nth)
  then show ?case using snoc.IH [of "s\<lparr>deferral_num := length ds, done_log := done_log s @ [d]\<rparr>"] snoc.prems(2) by auto
qed simp

lemma exec_stmts_overflow: "holds ds s \<Longrightarrow> length ds + length (defers xs) > 32 \<Longrightarrow> exec_stmts xs s = None"
proof (induction xs arbitrary: ds s)
  case Nil
  then show ?case by (simp add: holds_def)
next
  case (Cons x xs)
  show ?case
  proof (cases x)
    case (Do a)
    then show ?thesis using Cons.IH [of ds "s\<lparr>done_log := done_log s @ [a]\<rparr>"] Cons.prems by (auto simp: holds_def)
  next
    case (Defer b)
    let ?s = "s\<lparr>deferrals := (deferrals s)[deferral_num s := Some b], deferral_num := (deferral_num s + 1) mod 256\<rparr>"
    show ?thesis
    proof (cases "length ds < 32")
      case True
      then have "holds (ds @ [b]) ?s" using Cons.prems(1) by (auto simp: holds_def take_Suc_conv_app_nth)
      then show ?thesis using Cons.IH [of "ds @ [b]" ?s] Cons.prems Defer True by (auto simp: holds_def MAX_DEFERRED_STATEMENTS_def)
    next
      case False
      then show ?thesis using Cons.prems Defer by (auto simp: holds_def MAX_DEFERRED_STATEMENTS_def)
    qed
  qed
qed

text \<open>C39: A function with at most 32 \<open>Defer\<close> statements runs its actions in order, then the
  deferred blocks in reverse order, each once, and then evaluates the expression of
  \<open>Return\<close>; the test prints 0 to 4 in order.  With more than 32 the array is overrun.\<close>

theorem defer_lifo:
  "exec_function body e = (if length (defers body) \<le> MAX_DEFERRED_STATEMENTS then Some (dos body @ rev (defers body) @ [e]) else None) \<and>
   exec_function test2_body ''4'' = Some [''0'', ''1'', ''2'', ''3'', ''4'']"
proof -
  have *: "exec_function body e = (if length (defers body) \<le> 32 then Some (dos body @ rev (defers body) @ [e]) else None)" for body and e :: 'b
  proof (cases "length (defers body) \<le> 32")
    case True
    have "holds [] DEFER_INIT" by (simp add: holds_def DEFER_INIT_def MAX_DEFERRED_STATEMENTS_def)
    from exec_stmts_correct [OF this, of body] True obtain s where s: "exec_stmts body DEFER_INIT = Some s" "holds (defers body) s"
      "done_log s = dos body" by (auto simp: DEFER_INIT_def)
    then obtain s' where "run_deferred (deferral_num s) s = Some s'" "done_log s' = dos body @ rev (defers body)"
      using run_deferred_correct [of "defers body" s] by (auto simp: holds_def)
    then show ?thesis using s(1) True by (simp add: exec_function_def exec_return_def)
  next
    case False
    have "holds [] DEFER_INIT" by (simp add: holds_def DEFER_INIT_def MAX_DEFERRED_STATEMENTS_def)
    from exec_stmts_overflow [OF this, of body] False show ?thesis by (simp add: exec_function_def)
  qed
  show ?thesis using * [of body e] * [of test2_body "''4''"] by (simp add: MAX_DEFERRED_STATEMENTS_def test2_body_def)
qed

end
