(* ===== verification/Logfs.thy ===== *)
theory Logfs
  imports Prelude
begin

text \<open>
  The kernel module of \<open>simple-logfs/logfs.c\<close>: loading, unloading, opening and mapping.
  The state says what is allocated and registered; which of the kernel services fail is a
  parameter.  A use of memory that is not allocated sets \<open>oops\<close>.
\<close>

section \<open>State\<close>

definition PAGE_SHIFT :: nat where "PAGE_SHIFT = 12"
definition LOG_LINE_BUF_SIZE :: nat where "LOG_LINE_BUF_SIZE = 32"
definition LOG_BUF_OUTPUT_BUF_SIZE :: nat where "LOG_BUF_OUTPUT_BUF_SIZE = LOG_LINE_BUF_SIZE * 2 ^ PAGE_SHIFT"

definition ENOMEM :: int where "ENOMEM = 12"
definition EINVAL :: int where "EINVAL = 22"

record services =
  kzalloc_glog :: bool
  kzalloc_buff :: bool
  misc_register_ret :: int
  kobject_create :: bool
  sysfs_create_group_ret :: int

record module_state =
  glog :: bool
  buff :: bool
  reserved :: bool
  misc_registered :: bool
  kobj :: bool
  oops_count :: nat

definition unloaded :: module_state where
  "unloaded = \<lparr>glog = False, buff = False, reserved = False, misc_registered = False, kobj = False, oops_count = 0\<rparr>"

section \<open>Loading and unloading\<close>

text \<open>The error labels, each falling through to the next.\<close>

definition err_buff :: "module_state \<Rightarrow> module_state" where
  "err_buff s = s\<lparr>glog := False\<rparr>"

definition err_register :: "module_state \<Rightarrow> module_state" where
  "err_register s = err_buff (s\<lparr>reserved := False, buff := False\<rparr>)"

text \<open>\<open>kobject_put\<close> of NULL does nothing.\<close>

definition err_create_kobj :: "module_state \<Rightarrow> module_state" where
  "err_create_kobj s = err_register (s\<lparr>kobj := False\<rparr>)"

definition mylog_init :: "services \<Rightarrow> module_state \<Rightarrow> int \<times> module_state" where
  "mylog_init K s =
     (if \<not> kzalloc_glog K then (- ENOMEM, s)
      else let s = s\<lparr>glog := True\<rparr> in
        if \<not> kzalloc_buff K then (- ENOMEM, err_buff s)
        else let s = s\<lparr>buff := True, reserved := True\<rparr>; ret = misc_register_ret K in
          if ret \<noteq> 0 then (ret, err_register s)
          else let s = s\<lparr>misc_registered := True\<rparr> in
            if \<not> kobject_create K then (ret, err_create_kobj s)
            else let s = s\<lparr>kobj := True\<rparr> in
              if sysfs_create_group_ret K \<noteq> 0 then (ret, err_create_kobj s)
              else (0, s))"

text \<open>Every access goes through \<open>GLOG\<close>.\<close>

definition use_glog :: "module_state \<Rightarrow> module_state" where
  "use_glog s = (if glog s then s else s\<lparr>oops_count := oops_count s + 1\<rparr>)"

definition mylog_exit :: "module_state \<Rightarrow> module_state" where
  "mylog_exit s =
     (let s1 = use_glog (s\<lparr>kobj := False\<rparr>)
      in s1\<lparr>reserved := False, buff := False, glog := False, misc_registered := False\<rparr>)"

section \<open>Mapping\<close>

text \<open>\<open>private_data\<close> is \<open>GLOG\<close> at the time of \<open>open\<close>; the device can be opened while it is registered.
  The mapping is the range of bytes of the buffer, or an error number.\<close>

definition mylog_mmap :: "nat \<Rightarrow> nat \<Rightarrow> module_state \<Rightarrow> (int + nat \<times> nat) \<times> module_state" where
  "mylog_mmap vm_pgoff size0 s =
     (let s1 = use_glog s in
      if LOG_BUF_OUTPUT_BUF_SIZE < size_add (size_mul vm_pgoff (2 ^ PAGE_SHIFT)) size0 then (Inl (- EINVAL), s1)
      else (Inr (vm_pgoff * 2 ^ PAGE_SHIFT, size0), s1))"

section \<open>Correctness\<close>

text \<open>Loading fails without a trace when it reports an error, and works otherwise; but when the
  kobject or its group cannot be created it reports success with the buffer freed and the
  device still registered.\<close>

lemma mylog_init_cases:
  "let (ret, s) = mylog_init K unloaded in
     if kzalloc_glog K \<and> kzalloc_buff K \<and> misc_register_ret K = 0 then
       ret = 0 \<and> misc_registered s \<and> oops_count s = 0 \<and>
       (if kobject_create K \<and> sysfs_create_group_ret K = 0 then glog s \<and> buff s \<and> reserved s \<and> kobj s
        else \<not> glog s \<and> \<not> buff s \<and> \<not> kobj s)
     else ret \<noteq> 0 \<and> s = unloaded"
  by (simp add: mylog_init_def unloaded_def err_buff_def err_register_def err_create_kobj_def ENOMEM_def Let_def)

lemma load_unload:
  assumes "mylog_init K unloaded = (0, s)" "kobject_create K" "sysfs_create_group_ret K = 0"
  shows "mylog_exit s = unloaded"
  using assms by (auto simp: mylog_init_def unloaded_def mylog_exit_def use_glog_def err_buff_def err_register_def ENOMEM_def Let_def split: if_splits)

lemma mmap_in_buffer:
  assumes "mylog_mmap pgoff n s = (Inr (off, len), s')" "pgoff * 2 ^ PAGE_SHIFT + n < SIZE_MOD"
  shows "off + len \<le> LOG_BUF_OUTPUT_BUF_SIZE"
proof -
  have "size_mul pgoff (2 ^ PAGE_SHIFT) = pgoff * 2 ^ PAGE_SHIFT" using assms(2) by (intro size_mul_id) simp
  then show ?thesis using assms by (auto simp: mylog_mmap_def Let_def size_add_id split: if_splits)
qed

text \<open>C40: For every combination of failing services: when \<open>mylog_init\<close> reports an error everything
  is undone; when it succeeds the module can be used, a mapping it grants lies inside the
  buffer (for offsets the kernel's own check lets through) and unloading leaves nothing
  behind.  The exception is a failing kobject or sysfs group: \<open>mylog_init\<close> then returns 0
  although the log is freed, the device stays registered, and the next \<open>mmap\<close>, as well as
  unloading, follows a NULL pointer.\<close>

theorem mylog_init_error_paths:
  "let (ret, s) = mylog_init K unloaded in
     (ret \<noteq> 0 \<and> s = unloaded) \<or>
     (ret = 0 \<and> misc_registered s \<and> glog s \<and> mylog_exit s = unloaded \<and>
        (\<forall>pgoff n. pgoff * 2 ^ PAGE_SHIFT + n \<ge> SIZE_MOD \<or>
           fst (mylog_mmap pgoff n s) = (if pgoff * 2 ^ PAGE_SHIFT + n \<le> LOG_BUF_OUTPUT_BUF_SIZE then Inr (pgoff * 2 ^ PAGE_SHIFT, n) else Inl (- EINVAL)))) \<or>
     (ret = 0 \<and> misc_registered s \<and> \<not> glog s \<and> \<not> (kobject_create K \<and> sysfs_create_group_ret K = 0) \<and>
        oops_count (snd (mylog_mmap 0 4096 s)) = 1 \<and> oops_count (mylog_exit s) = 1)"
proof -
  obtain ret s where i: "mylog_init K unloaded = (ret, s)" by (cases "mylog_init K unloaded")
  note c = mylog_init_cases [of K, unfolded i Let_def split_conv]
  have m: "fst (mylog_mmap pgoff n s) = (if pgoff * 2 ^ PAGE_SHIFT + n \<le> LOG_BUF_OUTPUT_BUF_SIZE then Inr (pgoff * 2 ^ PAGE_SHIFT, n) else Inl (- EINVAL))"
    if "pgoff * 2 ^ PAGE_SHIFT + n < SIZE_MOD" for pgoff n
    using that by (simp add: mylog_mmap_def Let_def size_add_id size_mul_id not_le)
  show ?thesis
  proof (cases "kzalloc_glog K \<and> kzalloc_buff K \<and> misc_register_ret K = 0")
    case False
    then show ?thesis using c i by simp
  next
    case ok: True
    show ?thesis
    proof (cases "kobject_create K \<and> sysfs_create_group_ret K = 0")
      case True
      have "mylog_exit s = unloaded" using load_unload [of K s] i c ok True by simp
      moreover have "\<forall>pgoff n. pgoff * 2 ^ PAGE_SHIFT + n \<ge> SIZE_MOD \<or> fst (mylog_mmap pgoff n s) =
          (if pgoff * 2 ^ PAGE_SHIFT + n \<le> LOG_BUF_OUTPUT_BUF_SIZE then Inr (pgoff * 2 ^ PAGE_SHIFT, n) else Inl (- EINVAL))"
        using m leI by blast
      ultimately show ?thesis using c i ok True by simp
    next
      case False
      have "oops_count (snd (mylog_mmap 0 4096 s)) = 1" "oops_count (mylog_exit s) = 1"
        using c ok False by (simp_all add: mylog_mmap_def mylog_exit_def use_glog_def Let_def)
      then show ?thesis using c i ok False by auto
    qed
  qed
qed

end
