(* ===== verification/Logfs_Show.thy ===== *)
theory Logfs_Show
  imports Logfs "HOL-Library.Monad_Syntax"
begin

text \<open>
  The log itself in \<open>simple-logfs/logfs.c\<close>: one page of text per line, shown by \<open>mylog_show\<close> and
  written through a mapping by \<open>user.c\<close>.  The buffer of the log is a list of bytes; a read or a
  write outside it, outside the mapping or outside the page that \<open>sysfs\<close> provides is \<open>None\<close>.
\<close>

section \<open>Showing\<close>

abbreviation PAGE_SIZE :: nat where "PAGE_SIZE \<equiv> 2 ^ PAGE_SHIFT"

definition text_of :: "u8 list \<Rightarrow> u8 list" where
  "text_of = takeWhile (\<lambda>c. c \<noteq> 0)"

text \<open>\<open>%s\<close> reads up to the next zero, wherever it is.\<close>

definition log_string :: "u8 list \<Rightarrow> nat \<Rightarrow> u8 list option" where
  "log_string b a = (if 0 \<in> set (drop a b) then Some (text_of (drop a b)) else None)"

text \<open>\<open>%d\<close> of a line number, and the format \<open>[%d]: %s\<close> with a newline.\<close>

definition line_number :: "nat \<Rightarrow> u8 list" where
  "line_number i = (if i < 10 then [48 + of_nat i] else [48 + of_nat (i div 10), 48 + of_nat (i mod 10)])"

definition log_line :: "nat \<Rightarrow> u8 list \<Rightarrow> u8 list" where
  "log_line i s = [91] @ line_number i @ [93, 58, 32] @ s @ [10]"

definition TMP_SIZE :: nat where "TMP_SIZE = 32"

text \<open>\<open>snprintf\<close> into \<open>tmp\<close> keeps all but one byte of its size and returns the whole length.\<close>

definition snprintf_tmp :: "u8 list \<Rightarrow> u8 list \<times> nat" where
  "snprintf_tmp s = (take (TMP_SIZE - 1) s, length s)"

definition strncat :: "nat \<Rightarrow> u8 list \<Rightarrow> u8 list \<Rightarrow> u8 list option" where
  "strncat n buf s = mem_store (length (text_of buf)) (take n (text_of s) @ [0]) buf"

fun show_lines :: "u8 list \<Rightarrow> nat list \<Rightarrow> u8 list \<Rightarrow> nat \<Rightarrow> (u8 list \<times> nat) option" where
  "show_lines b [] buf len = Some (buf, len)"
| "show_lines b (i # is) buf len = do {
     s \<leftarrow> log_string b (i * PAGE_SIZE);
     let (tmp, n) = snprintf_tmp (log_line i s);
     buf \<leftarrow> strncat TMP_SIZE buf (tmp @ [0]);
     show_lines b is buf (len + n)
   }"

definition mylog_show :: "module_state \<Rightarrow> u8 list \<Rightarrow> u8 list \<Rightarrow> (u8 list \<times> nat) option" where
  "mylog_show s b buf = (if glog s then show_lines b [0..<LOG_LINE_BUF_SIZE] buf 0 else None)"

section \<open>Writing\<close>

definition isspace :: "u8 \<Rightarrow> bool" where
  "isspace c \<longleftrightarrow> c = 32 \<or> 9 \<le> c \<and> c \<le> 13"

fun digits_val :: "u8 list \<Rightarrow> int \<Rightarrow> int" where
  "digits_val [] n = n"
| "digits_val (c # cs) n = (if 48 \<le> c \<and> c \<le> 57 then digits_val cs (10 * n + (uint c - 48)) else n)"

definition atoi :: "u8 list \<Rightarrow> int" where
  "atoi s = (case dropWhile isspace s of
       [] \<Rightarrow> 0
     | c # cs \<Rightarrow> if c = 45 then - digits_val cs 0 else if c = 43 then digits_val cs 0 else digits_val (c # cs) 0)"

text \<open>The offset \<open>idx << PAGE_SHIFT\<close> is an \<open>int\<close>, converted to \<open>off_t\<close>; the kernel counts it in
  pages.  The length 32 is rounded up to a page, and an offset at the very end is refused.\<close>

definition user_pgoff :: "int \<Rightarrow> nat" where
  "user_pgoff idx = nat (signed_take_bit 31 (idx * 2 ^ PAGE_SHIFT) mod 2 ^ 64) div PAGE_SIZE"

definition user_mmap :: "int \<Rightarrow> module_state \<Rightarrow> int + nat \<times> nat" where
  "user_mmap idx s = (if SIZE_MOD \<le> (user_pgoff idx + 1) * PAGE_SIZE then Inl (- 75) else fst (mylog_mmap (user_pgoff idx) PAGE_SIZE s))"

text \<open>Opening the device stores \<open>GLOG\<close> in the file; the result says whether it is there.\<close>

definition mylog_open :: "module_state \<Rightarrow> bool \<times> int" where
  "mylog_open s = (glog s, 0)"

text \<open>The exit code and the log; \<open>sprintf\<close> writes the whole argument, whatever the length of the mapping.\<close>

definition user_main :: "u8 list list \<Rightarrow> module_state \<Rightarrow> u8 list \<Rightarrow> (int \<times> u8 list) option" where
  "user_main argv s b =
     (if length argv < 3 then Some (1, b)
      else let idx = atoi (argv ! 1) in
        if \<not> misc_registered s then Some (1, b)
        else if \<not> fst (mylog_open s) then None
        else case user_mmap idx s of
          Inl e \<Rightarrow> Some (1, b)
        | Inr (off, len) \<Rightarrow>
            if length (argv ! 2) + 1 \<le> len then map_option (Pair 0) (mem_store off (argv ! 2 @ [0]) b) else None)"

section \<open>The lines of the log\<close>

definition log_ok :: "u8 list \<Rightarrow> bool" where
  "log_ok b \<longleftrightarrow> length b = LOG_BUF_OUTPUT_BUF_SIZE \<and> (\<forall>i < LOG_LINE_BUF_SIZE. 0 \<in> set (slice (i * PAGE_SIZE) PAGE_SIZE b))"

definition line_at :: "u8 list \<Rightarrow> nat \<Rightarrow> u8 list" where
  "line_at b i = text_of (slice (i * PAGE_SIZE) PAGE_SIZE b)"

definition shown_text :: "u8 list \<Rightarrow> nat list \<Rightarrow> u8 list" where
  "shown_text b is = concat (map (\<lambda>i. take (TMP_SIZE - 1) (log_line i (line_at b i))) is)"

definition shown_length :: "u8 list \<Rightarrow> nat list \<Rightarrow> nat" where
  "shown_length b is = sum_list (map (\<lambda>i. length (log_line i (line_at b i))) is)"

lemma text_of_append: "0 \<in> set s \<Longrightarrow> text_of (s @ t) = text_of s"
  unfolding text_of_def by (rule takeWhile_append1) auto

lemma text_of_zero: "0 \<notin> set s \<Longrightarrow> text_of (s @ 0 # t) = s"
  unfolding text_of_def by (subst takeWhile_append2) auto

lemma no_zero_text [simp]: "0 \<notin> set (text_of s)"
  unfolding text_of_def by (auto dest: set_takeWhileD)

lemma log_string_line:
  assumes "log_ok b" "i < LOG_LINE_BUF_SIZE"
  shows "log_string b (i * PAGE_SIZE) = Some (line_at b i)"
proof -
  let ?a = "i * PAGE_SIZE"
  have "0 \<in> set (slice ?a PAGE_SIZE b)" using assms by (simp add: log_ok_def)
  moreover have "drop ?a b = slice ?a PAGE_SIZE b @ drop PAGE_SIZE (drop ?a b)"
    unfolding slice_def by (rule append_take_drop_id [symmetric])
  ultimately show ?thesis unfolding log_string_def line_at_def by (metis Un_iff set_append text_of_append)
qed

lemma no_zero_line: "i < LOG_LINE_BUF_SIZE \<Longrightarrow> 0 \<notin> set (log_line i (line_at b i))"
proof -
  assume i: "i < LOG_LINE_BUF_SIZE"
  have "(48 + of_nat n :: u8) \<noteq> 0" if "n < 32" for n
  proof
    assume "(48 + of_nat n :: u8) = 0"
    then have "unat (of_nat (48 + n) :: u8) = 0" by simp
    moreover have "unat (of_nat (48 + n) :: u8) = (48 + n) mod 256" by (simp only: unat_of_nat) simp
    ultimately show False using that by simp
  qed
  then have "0 \<notin> set (line_number i)" using i by (auto simp: line_number_def LOG_LINE_BUF_SIZE_def)
  then show ?thesis by (simp add: log_line_def line_at_def)
qed

section \<open>What is shown\<close>

lemma strncat_page:
  assumes "0 \<notin> set t" "0 \<notin> set u" "length u \<le> n" "length t + length u < m"
  shows "strncat n (t @ replicate (m - length t) 0) (u @ [0]) = Some ((t @ u) @ replicate (m - length (t @ u)) 0)"
proof -
  have "t @ replicate (m - length t) 0 = t @ 0 # replicate (m - length t - 1) 0"
    using assms(4) by (cases "m - length t") auto
  then have "text_of (t @ replicate (m - length t) 0) = t" using text_of_zero [OF assms(1)] by simp
  moreover have "text_of (u @ [0]) = u" by (rule text_of_zero [OF assms(2)])
  moreover have "0 # replicate (m - Suc (length t + length u)) 0 = replicate (m - (length t + length u)) (0 :: u8)"
    using assms(4) by (metis replicate_Suc Suc_diff_Suc)
  ultimately show ?thesis using assms(3,4) by (simp add: strncat_def mem_store_def blit_def)
qed

lemma show_lines_correct:
  assumes "log_ok b" "set is \<subseteq> {..<LOG_LINE_BUF_SIZE}" "0 \<notin> set t" "length t + 31 * length is < m"
  shows "show_lines b is (t @ replicate (m - length t) 0) len =
    Some ((t @ shown_text b is) @ replicate (m - length (t @ shown_text b is)) 0, len + shown_length b is)"
  using assms(2-)
proof (induction "is" arbitrary: t len)
  case (Cons i "is")
  let ?u = "take 31 (log_line i (line_at b i))"
  have i: "i < LOG_LINE_BUF_SIZE" using Cons.prems(1) by simp
  have u: "0 \<notin> set ?u" "length ?u \<le> 31" using no_zero_line [OF i] by (auto dest: in_set_takeD)
  have "strncat TMP_SIZE (t @ replicate (m - length t) 0) (?u @ [0]) = Some ((t @ ?u) @ replicate (m - length (t @ ?u)) 0)"
    using Cons.prems u by (intro strncat_page) (auto simp: TMP_SIZE_def)
  moreover have "show_lines b is ((t @ ?u) @ replicate (m - length (t @ ?u)) 0) l =
      Some (((t @ ?u) @ shown_text b is) @ replicate (m - length ((t @ ?u) @ shown_text b is)) 0, l + shown_length b is)" for l
    using Cons.prems u by (intro Cons.IH) auto
  moreover have "shown_text b (i # is) = ?u @ shown_text b is" by (simp add: shown_text_def TMP_SIZE_def)
  ultimately show ?case using log_string_line [OF assms(1) i]
    by (simp add: snprintf_tmp_def TMP_SIZE_def shown_length_def del: append_assoc)
qed (simp add: shown_text_def shown_length_def)

text \<open>All lines, each cut off after 31 characters, and the length they would have had.\<close>

lemma mylog_show_correct:
  assumes "glog s" "log_ok b"
  shows "mylog_show s b (replicate PAGE_SIZE 0) =
    Some (shown_text b [0..<32] @ replicate (PAGE_SIZE - length (shown_text b [0..<32])) 0, shown_length b [0..<32])"
  using show_lines_correct [OF assms(2), of "[0..<32]" "[]" PAGE_SIZE 0] assms(1)
  by (simp add: mylog_show_def LOG_LINE_BUF_SIZE_def PAGE_SHIFT_def lessThan_atLeast0)

text \<open>The length returned is that of the text in the page only if no line was cut off.\<close>

lemma shown_length_exceeds:
  assumes "j \<in> set is" "31 < length (log_line j (line_at b j))"
  shows "length (shown_text b is) < shown_length b is"
  using assms(1)
proof (induction "is")
  case (Cons i "is")
  have le: "length (shown_text b is) \<le> shown_length b is"
    by (induction "is") (auto simp: shown_text_def shown_length_def TMP_SIZE_def)
  show ?case
  proof (cases "i = j")
    case True
    then show ?thesis using le assms(2) by (simp add: shown_text_def shown_length_def TMP_SIZE_def)
  next
    case False
    then show ?thesis using Cons by (simp add: shown_text_def shown_length_def TMP_SIZE_def min_def)
  qed
qed simp

section \<open>What is written\<close>

lemma user_pgoff_id: "i < 2 ^ 19 \<Longrightarrow> user_pgoff (int i) = i"
proof -
  assume "i < 2 ^ 19"
  then have "signed_take_bit 31 (int i * 2 ^ PAGE_SHIFT) = int i * 2 ^ PAGE_SHIFT"
    by (intro signed_take_bit_int_eq_self) (auto simp: PAGE_SHIFT_def)
  moreover have "int i * 2 ^ PAGE_SHIFT mod 2 ^ 64 = int (i * PAGE_SIZE)"
    using \<open>i < 2 ^ 19\<close> by (simp add: PAGE_SHIFT_def)
  ultimately show ?thesis unfolding user_pgoff_def by (simp only: nat_int) simp
qed

lemma user_mmap_line:
  assumes "i < 2 ^ 19"
  shows "user_mmap (int i) s = (if i < 32 then Inr (i * PAGE_SIZE, PAGE_SIZE) else Inl (- EINVAL))"
  using assms user_pgoff_id [OF assms]
  by (auto simp: user_mmap_def mylog_mmap_def Let_def size_mul_def size_add_def SIZE_MOD_def PAGE_SHIFT_def
      LOG_BUF_OUTPUT_BUF_SIZE_def LOG_LINE_BUF_SIZE_def)

lemma line_written:
  assumes "log_ok b" "i < 32" "0 \<notin> set c" "length c < PAGE_SIZE"
  defines "b' \<equiv> blit (i * PAGE_SIZE) (c @ [0]) b"
  shows "mem_store (i * PAGE_SIZE) (c @ [0]) b = Some b'" "log_ok b'" "\<forall>j < 32. line_at b' j = (if j = i then c else line_at b j)"
proof -
  have len: "length b = 32 * PAGE_SIZE" using assms(1) by (simp add: log_ok_def LOG_BUF_OUTPUT_BUF_SIZE_def LOG_LINE_BUF_SIZE_def)
  have fits: "i * PAGE_SIZE + length (c @ [0]) \<le> length b"
    using assms(2,4) len by (simp add: PAGE_SHIFT_def)
  show "mem_store (i * PAGE_SIZE) (c @ [0]) b = Some b'" using fits by (simp add: mem_store_def b'_def)
  have other: "slice (j * PAGE_SIZE) PAGE_SIZE b' = slice (j * PAGE_SIZE) PAGE_SIZE b" if "j < 32" "j \<noteq> i" for j
    unfolding b'_def by (rule slice_blit_disjoint [OF fits]) (use that len assms(4) in \<open>auto simp: PAGE_SHIFT_def\<close>)
  have same: "slice (i * PAGE_SIZE) PAGE_SIZE b' = c @ 0 # slice (i * PAGE_SIZE + length (c @ [0])) (PAGE_SIZE - length (c @ [0])) b'"
    using slice_split [of "i * PAGE_SIZE" "length (c @ [0])" "PAGE_SIZE - length (c @ [0])" b'] slice_blit_same [OF fits] assms(4)
    by (simp add: b'_def)
  show "log_ok b'" unfolding log_ok_def
  proof (intro conjI allI impI)
    show "length b' = LOG_BUF_OUTPUT_BUF_SIZE" using fits assms(1) by (simp add: b'_def log_ok_def)
    fix j assume "j < LOG_LINE_BUF_SIZE"
    then show "0 \<in> set (slice (j * PAGE_SIZE) PAGE_SIZE b')"
      using same other [of j] assms(1) by (cases "j = i") (auto simp: log_ok_def LOG_LINE_BUF_SIZE_def)
  qed
  show "\<forall>j < 32. line_at b' j = (if j = i then c else line_at b j)"
    using same other text_of_zero [OF assms(3)] by (simp add: line_at_def)
qed

text \<open>The program stores its second argument as the line its first argument numbers and keeps
  all others, and \<open>mylog_show\<close> shows it; a number beyond the log is refused.\<close>

theorem log_written_shown:
  assumes "glog s" "misc_registered s" "log_ok b" "atoi idx = int i" "i < 2 ^ 19" "0 \<notin> set c" "length c < PAGE_SIZE"
  shows "if i < 32 then \<exists>b'. user_main [name, idx, c] s b = Some (0, b') \<and> log_ok b' \<and>
      (\<forall>j < 32. line_at b' j = (if j = i then c else line_at b j)) \<and>
      mylog_show s b' (replicate PAGE_SIZE 0) =
        Some (shown_text b' [0..<32] @ replicate (PAGE_SIZE - length (shown_text b' [0..<32])) 0, shown_length b' [0..<32])
    else user_main [name, idx, c] s b = Some (1, b)"
proof (cases "i < 32")
  case True
  note W = line_written [OF assms(3) True assms(6,7)]
  have "user_main [name, idx, c] s b = Some (0, blit (i * PAGE_SIZE) (c @ [0]) b)"
    using assms True W(1) user_mmap_line [OF assms(5)] by (simp add: user_main_def mylog_open_def Let_def)
  then show ?thesis using W mylog_show_correct [OF assms(1) W(2)] True by auto
next
  case False
  then show ?thesis using assms user_mmap_line [OF assms(5)] by (simp add: user_main_def mylog_open_def Let_def)
qed

text \<open>The check of the bounds does not help against large numbers: they wrap, so that a line of
  the log is overwritten, and an argument of a page or more is written past the mapping.\<close>

lemma user_index_wraps: "user_pgoff (2 ^ 20) = 0"
  by (simp add: user_pgoff_def PAGE_SHIFT_def signed_take_bit_def)

lemma user_argument_overruns:
  assumes "glog s" "misc_registered s" "atoi idx = int i" "i < 32" "PAGE_SIZE \<le> length c"
  shows "user_main [name, idx, c] s b = None"
  using assms user_mmap_line [of i] by (simp add: user_main_def mylog_open_def Let_def)

theorem log_written_shown_witness:
  "\<exists>b'. user_main [[], [55], [104, 105]] (snd (mylog_init \<lparr>kzalloc_glog = True, kzalloc_buff = True, misc_register_ret = 0,
      kobject_create = True, sysfs_create_group_ret = 0\<rparr> unloaded)) (replicate LOG_BUF_OUTPUT_BUF_SIZE 0) = Some (0, b') \<and>
    line_at b' 7 = [104, 105]"
proof -
  let ?s = "snd (mylog_init \<lparr>kzalloc_glog = True, kzalloc_buff = True, misc_register_ret = 0,
      kobject_create = True, sysfs_create_group_ret = 0\<rparr> unloaded)"
  have "log_ok (replicate LOG_BUF_OUTPUT_BUF_SIZE 0)"
    by (auto simp: log_ok_def slice_def LOG_BUF_OUTPUT_BUF_SIZE_def LOG_LINE_BUF_SIZE_def PAGE_SHIFT_def)
  moreover have "atoi [55] = int 7" by (simp add: atoi_def isspace_def)
  moreover have "glog ?s" "misc_registered ?s" by (simp_all add: mylog_init_def Let_def)
  ultimately show ?thesis
    using log_written_shown [of ?s "replicate LOG_BUF_OUTPUT_BUF_SIZE 0" "[55]" 7 "[104, 105]" "[]"] by (auto simp: PAGE_SHIFT_def)
qed

end
