(* ===== verification/Loader.thy ===== *)
theory Loader
  imports Prelude
begin

text \<open>
  The search for the embedded program in \<open>embedded-payload/loader.c\<close>.  The executable is
  a list of bytes in a buffer at address \<open>base\<close>; \<open>None\<close> is a read outside the buffer.
\<close>

definition elf_magic :: "nat list" where "elf_magic = [127, 69, 76, 70]"

text \<open>\<open>memmem\<close> from offset \<open>i\<close> with \<open>n\<close> bytes to search; it reads until it finds the magic.\<close>

function memmem :: "nat list \<Rightarrow> nat \<Rightarrow> nat \<Rightarrow> nat option option" where
  "memmem d i n =
     (if n < 4 then Some None
      else if length d < i + 4 then None
      else if take 4 (drop i d) = elf_magic then Some (Some i)
      else memmem d (i + 1) (n - 1))"
  by pat_completeness auto
termination by (relation "measure (\<lambda>(d, i, n). n)") auto

declare memmem.simps [simp del]

definition valid_elf :: "nat list \<Rightarrow> nat \<Rightarrow> bool option" where
  "valid_elf d i =
     (if i + 7 \<le> length d
      then Some ((d ! (i + 4) = 1 \<or> d ! (i + 4) = 2) \<and> (d ! (i + 5) = 1 \<or> d ! (i + 5) = 2) \<and> d ! (i + 6) = 1)
      else None)"

text \<open>What \<open>main\<close> writes to the memory file, or the return value.  \<open>newelf\<close> is an address, so
  the length of the second search is computed from the address.  Files are below 2 GiB, so the
  size of the payload fits an int.\<close>

datatype loaded = Payload "nat list" | Ret int

definition find_again :: "nat \<Rightarrow> nat list \<Rightarrow> nat \<Rightarrow> nat option option" where
  "find_again base d i = memmem d (i + 6) (size_sub (size_sub (length d) (base + i)) 6)"

definition second_elf :: "nat \<Rightarrow> nat list \<Rightarrow> nat option option" where
  "second_elf base d =
     (case memmem d 52 (size_sub (length d) 52) of
        None \<Rightarrow> None
      | Some None \<Rightarrow> Some None
      | Some (Some i) \<Rightarrow>
          (case valid_elf d i of
             None \<Rightarrow> None
           | Some True \<Rightarrow> Some (Some i)
           | Some False \<Rightarrow> find_again base d i))"

definition loader :: "nat \<Rightarrow> nat list \<Rightarrow> loaded option" where
  "loader base d =
     (case second_elf base d of
        None \<Rightarrow> None
      | Some None \<Rightarrow> Some (Ret (-3))
      | Some (Some i) \<Rightarrow>
          (case valid_elf d i of
             None \<Rightarrow> None
           | Some False \<Rightarrow> Some (Ret (-3))
           | Some True \<Rightarrow> Some (Payload (drop i d))))"

section \<open>The program\<close>

text \<open>The rest of \<open>main\<close>: what \<open>open\<close>, \<open>malloc\<close>, \<open>memfd_create\<close>, \<open>fork\<close> and \<open>fexecve\<close> return is a
  parameter; \<open>d\<close> is the executable, as \<open>stat\<close> and \<open>read\<close> report it.\<close>

record loader_calls =
  open_exe :: int
  malloc_ok :: bool
  memfd_create :: int
  fork_ok :: bool
  fexecve_ok :: bool

text \<open>The end of the program: the return value, the descriptors and the buffer it leaves open, the
  program that runs in the child, and the return value of a child that could not run it.\<close>

record loader_end =
  parent_ret :: int
  left_open :: "int list"
  buffer_freed :: bool
  executed :: "nat list option"
  child_ret :: "int option"

definition early_return :: "int \<Rightarrow> loader_end" where
  "early_return r = \<lparr>parent_ret = r, left_open = [], buffer_freed = False, executed = None, child_ret = None\<rparr>"

definition deploy :: "loader_calls \<Rightarrow> nat list \<Rightarrow> loader_end" where
  "deploy K p =
     (let e = (early_return 0)\<lparr>buffer_freed := True, left_open := [memfd_create K]\<rparr> in
      if \<not> fork_ok K then e
      else if fexecve_ok K then e\<lparr>executed := Some p\<rparr>
      else e\<lparr>child_ret := Some (-1)\<rparr>)"

definition loader_main :: "loader_calls \<Rightarrow> nat \<Rightarrow> nat list \<Rightarrow> loader_end option" where
  "loader_main K base d =
     (if open_exe K < 0 then Some (early_return (-1))
      else if \<not> malloc_ok K then Some ((early_return (-2))\<lparr>left_open := [open_exe K]\<rparr>)
      else case loader base d of
        None \<Rightarrow> None
      | Some (Ret r) \<Rightarrow> Some ((early_return r)\<lparr>buffer_freed := True\<rparr>)
      | Some (Payload p) \<Rightarrow>
          if memfd_create K < 0 then Some ((early_return (-4))\<lparr>buffer_freed := True\<rparr>)
          else Some (deploy K p))"

section \<open>What it finds\<close>

definition magic_at :: "nat list \<Rightarrow> nat \<Rightarrow> bool" where
  "magic_at d i \<longleftrightarrow> i + 4 \<le> length d \<and> take 4 (drop i d) = elf_magic"

lemma memmem_found:
  "i \<le> j \<Longrightarrow> magic_at d j \<Longrightarrow> (\<And>k. i \<le> k \<Longrightarrow> k < j \<Longrightarrow> \<not> magic_at d k) \<Longrightarrow> j + 4 \<le> i + n \<Longrightarrow> memmem d i n = Some (Some j)"
proof (induction n arbitrary: i)
  case (Suc n)
  show ?case
  proof (cases "i = j")
    case True
    then show ?thesis using Suc.prems by (subst memmem.simps) (auto simp: magic_at_def)
  next
    case False
    then have "\<not> magic_at d i" "i + 1 \<le> j" using Suc.prems(1) Suc.prems(3) [of i] by auto
    then have "memmem d (i + 1) n = Some (Some j)" using Suc.IH [of "i + 1"] Suc.prems by simp
    then show ?thesis using Suc.prems \<open>\<not> magic_at d i\<close> \<open>i + 1 \<le> j\<close> by (subst memmem.simps) (auto simp: magic_at_def)
  qed
qed simp

lemma memmem_wild:
  "(\<And>k. i \<le> k \<Longrightarrow> \<not> magic_at d k) \<Longrightarrow> i \<le> length d \<Longrightarrow> length d < i + n \<Longrightarrow> 4 \<le> n \<Longrightarrow> memmem d i n = None"
proof (induction n arbitrary: i)
  case (Suc n)
  show ?case
  proof (cases "length d < i + 4")
    case True
    then show ?thesis using Suc.prems by (subst memmem.simps) simp
  next
    case False
    then have "memmem d (i + 1) n = None" using Suc.IH [of "i + 1"] Suc.prems by auto
    then show ?thesis using Suc.prems False by (subst memmem.simps) (auto simp: magic_at_def)
  qed
qed simp

text \<open>The first magic number behind the own header starts a valid header: the rest of the file is
  the payload.\<close>

lemma loader_payload:
  assumes "52 \<le> j" "magic_at d j" "\<And>k. 52 \<le> k \<Longrightarrow> k < j \<Longrightarrow> \<not> magic_at d k" "valid_elf d j = Some True" "length d < SIZE_MOD"
  shows "loader base d = Some (Payload (drop j d))"
proof -
  have "52 \<le> length d" using assms(1,2) by (simp add: magic_at_def)
  then have "memmem d 52 (size_sub (length d) 52) = Some (Some j)"
    using assms by (intro memmem_found) (auto simp: size_sub_id magic_at_def)
  then show ?thesis using assms(4) by (simp add: loader_def second_elf_def)
qed

text \<open>Otherwise the second search has a length of nearly \<open>2 ^ 64\<close>: when no further magic number
  follows, it runs off the end of the buffer instead of reporting that there is none.\<close>

lemma loader_wild_read:
  assumes "52 \<le> j" "magic_at d j" "\<And>k. 52 \<le> k \<Longrightarrow> k < j \<Longrightarrow> \<not> magic_at d k" "valid_elf d j = Some False"
    "\<And>k. j < k \<Longrightarrow> \<not> magic_at d k" "length d < base" "base + 2 * length d < SIZE_MOD"
  shows "loader base d = None"
proof -
  have l: "52 \<le> length d" "j + 7 \<le> length d" using assms(1,2,4) by (auto simp: magic_at_def valid_elf_def split: if_splits)
  then have "memmem d 52 (size_sub (length d) 52) = Some (Some j)"
    using assms by (intro memmem_found) (auto simp: size_sub_id magic_at_def)
  moreover have "size_sub (size_sub (length d) (base + j)) 6 = length d + SIZE_MOD - (base + j) - 6"
    using l assms(6,7) by (simp add: size_sub_def mod_if)
  moreover have "memmem d (j + 6) (length d + SIZE_MOD - (base + j) - 6) = None"
    using l assms(5-7) by (intro memmem_wild) auto
  ultimately show ?thesis using assms(4) by (simp add: loader_def second_elf_def find_again_def)
qed

text \<open>The payload runs exactly when every call succeeds; but a failed \<open>fork\<close> is reported as
  success, and in that case nothing runs.\<close>

theorem loader_runs_payload:
  assumes "52 \<le> j" "magic_at d j" "\<And>k. 52 \<le> k \<Longrightarrow> k < j \<Longrightarrow> \<not> magic_at d k" "valid_elf d j = Some True" "length d < SIZE_MOD"
  shows "\<exists>e. loader_main K base d = Some e \<and>
    executed e = (if 0 \<le> open_exe K \<and> malloc_ok K \<and> 0 \<le> memfd_create K \<and> fork_ok K \<and> fexecve_ok K then Some (drop j d) else None) \<and>
    (parent_ret e = 0 \<longleftrightarrow> 0 \<le> open_exe K \<and> malloc_ok K \<and> 0 \<le> memfd_create K) \<and>
    (buffer_freed e \<longleftrightarrow> 0 \<le> open_exe K \<and> malloc_ok K)"
  using loader_payload [OF assms] by (auto simp: loader_main_def early_return_def deploy_def Let_def)

end
