(* ===== verification/Timerfd.thy ===== *)
theory Timerfd
  imports Prelude
begin

text \<open>
  The timer example of \<open>timerfd/timer.c\<close>: a timer descriptor is armed once for five seconds,
  a child waits for it with epoll and arms it for one second after every expiration.  The
  results of the system calls are a parameter; the loop, which does not end by itself, has
  fuel.  A store past the end of an object is a fault.
\<close>

section \<open>State\<close>

record posix_timer =
  tfd :: int
  it_value_sec :: int
  it_value_nsec :: int
  it_interval_sec :: int
  it_interval_nsec :: int

text \<open>What the calls return; \<open>epoll_wait\<close> and \<open>read\<close> in every round, \<open>read\<close> with the bytes it stores.\<close>

record timer_calls =
  timerfd_create :: int
  timerfd_settime :: int
  fork_pid :: int
  epoll_ctl :: int
  epoll_wait :: "nat \<Rightarrow> int"
  read_bytes :: "nat \<Rightarrow> u8 list"

datatype timer_end =
    Exit int posix_timer
  | Fault nat posix_timer
  | Running posix_timer

section \<open>Program\<close>

definition set_time :: "int \<Rightarrow> posix_timer \<Rightarrow> posix_timer" where
  "set_time sec pt = pt\<lparr>it_value_sec := sec, it_value_nsec := 0, it_interval_sec := 0, it_interval_nsec := 0\<rparr>"

definition do_handle :: "posix_timer \<Rightarrow> posix_timer" where
  "do_handle pt = set_time 1 pt"

text \<open>\<open>int buf\<close>, whose content before the first \<open>read\<close> is not defined.\<close>

definition SIZEOF_INT :: nat where "SIZEOF_INT = 4"

fun epoll_rounds :: "timer_calls \<Rightarrow> nat \<Rightarrow> nat \<Rightarrow> u8 list \<Rightarrow> posix_timer \<Rightarrow> timer_end" where
  "epoll_rounds K 0 n buf pt = Running pt"
| "epoll_rounds K (Suc fuel) n buf pt =
     (if epoll_wait K n < 0 then Exit 1 pt
      else case mem_store 0 (read_bytes K n) buf of
        None \<Rightarrow> Fault n pt
      | Some buf \<Rightarrow> epoll_rounds K fuel (n + 1) buf (do_handle pt))"

definition start_epoll :: "timer_calls \<Rightarrow> nat \<Rightarrow> u8 list \<Rightarrow> posix_timer \<Rightarrow> timer_end" where
  "start_epoll K fuel buf pt = (if epoll_ctl K = -1 then Exit 1 pt else epoll_rounds K fuel 0 buf pt)"

text \<open>The parent goes on printing dots, also when there is no child.\<close>

definition timer_main :: "timer_calls \<Rightarrow> nat \<Rightarrow> u8 list \<Rightarrow> timer_end" where
  "timer_main K fuel buf =
     (let pt = \<lparr>tfd = timerfd_create K, it_value_sec = 0, it_value_nsec = 0, it_interval_sec = 0, it_interval_nsec = 0\<rparr> in
      if tfd pt < 0 then Exit 1 pt
      else let pt = set_time 5 pt in
        if timerfd_settime K \<noteq> 0 then Exit 1 pt
        else if fork_pid K = 0 then start_epoll K fuel buf pt
        else Running pt)"

section \<open>The first expiration\<close>

text \<open>The documented kernel: descriptors and timers can be had, and reading an expired timer
  yields the eight bytes of the number of expirations.\<close>

definition timer_kernel :: "timer_calls \<Rightarrow> bool" where
  "timer_kernel K \<longleftrightarrow> 0 \<le> timerfd_create K \<and> timerfd_settime K = 0 \<and> epoll_ctl K = 0 \<and>
     (\<forall>n. 0 \<le> epoll_wait K n \<longrightarrow> (\<exists>v. 0 < v \<and> v < 2 ^ 64 \<and> read_bytes K n = le_bytes 8 v))"

text \<open>With such a kernel the child never handles an expiration: it gives up when \<open>epoll_wait\<close>
  fails, and otherwise \<open>read\<close> stores eight bytes into the four of \<open>buf\<close> in the very first round,
  five seconds after the start.\<close>

theorem timer_read_overflows:
  assumes "timer_kernel K" "fork_pid K = 0" "length buf = SIZEOF_INT" "0 < fuel"
  shows "\<exists>pt. it_value_sec pt = 5 \<and> timer_main K fuel buf = (if epoll_wait K 0 < 0 then Exit 1 pt else Fault 0 pt)"
proof -
  obtain f where f: "fuel = Suc f" using assms(4) gr0_conv_Suc by blast
  have "mem_store 0 (read_bytes K 0) buf = None" if "\<not> epoll_wait K 0 < 0"
    using that assms(1,3) by (auto simp: timer_kernel_def mem_store_def SIZEOF_INT_def not_less)
  then show ?thesis using assms(1,2) f
    by (auto simp: timer_main_def start_epoll_def timer_kernel_def Let_def set_time_def)
qed

text \<open>What the example is meant to do it would do with a \<open>buf\<close> of eight bytes: every expiration
  arms the timer again for one second.\<close>

lemma epoll_rounds_arm:
  assumes "timer_kernel K" "length buf = 8" "\<And>n. 0 \<le> epoll_wait K n"
  shows "epoll_rounds K (Suc fuel) n buf pt = Running (set_time 1 pt)"
  using assms(2)
proof (induction fuel arbitrary: n buf pt)
  case 0
  obtain v where "read_bytes K n = le_bytes 8 v" using assms(1,3) by (auto simp: timer_kernel_def)
  then show ?case using 0 assms(3) [of n] by (simp add: mem_store_def do_handle_def)
next
  case (Suc fuel)
  obtain v where v: "read_bytes K n = le_bytes 8 v" using assms(1,3) by (auto simp: timer_kernel_def)
  have "epoll_rounds K (Suc (Suc fuel)) n buf pt = epoll_rounds K (Suc fuel) (n + 1) (blit 0 (le_bytes 8 v) buf) (do_handle pt)"
    using v Suc.prems assms(3) [of n] by (subst epoll_rounds.simps) (simp add: mem_store_def)
  also have "\<dots> = Running (set_time 1 (do_handle pt))" using Suc.prems by (intro Suc.IH) simp
  finally show ?case by (simp add: do_handle_def set_time_def)
qed

end
