(* ===== verification/Utime.thy ===== *)
theory Utime
  imports Prelude
begin

text \<open>
  The time arithmetic of \<open>utime.c\<close>, of which \<open>xor-linkedlist\<close>, \<open>xstring\<close> and \<open>xvector\<close> hold
  the same text.  \<open>timespec_to_ns\<close> computes in floating point and is not modelled.
\<close>

record timespec =
  tv_sec :: int
  tv_nsec :: int

definition timespec_diff :: "timespec \<Rightarrow> timespec \<Rightarrow> timespec" where
  "timespec_diff start stop =
     (if tv_nsec stop - tv_nsec start < 0
      then \<lparr>tv_sec = tv_sec stop - tv_sec start - 1, tv_nsec = tv_nsec stop - tv_nsec start + 1000000000\<rparr>
      else \<lparr>tv_sec = tv_sec stop - tv_sec start, tv_nsec = tv_nsec stop - tv_nsec start\<rparr>)"

definition normal :: "timespec \<Rightarrow> bool" where
  "normal t \<longleftrightarrow> 0 \<le> tv_nsec t \<and> tv_nsec t < 1000000000"

definition nanos :: "timespec \<Rightarrow> int" where
  "nanos t = tv_sec t * 1000000000 + tv_nsec t"

lemma timespec_diff_correct:
  "normal start \<Longrightarrow> normal stop \<Longrightarrow> normal (timespec_diff start stop)" "nanos (timespec_diff start stop) = nanos stop - nanos start"
  by (auto simp: timespec_diff_def normal_def nanos_def)

end
