(* ===== verification/Running_Stats.thy ===== *)
theory Running_Stats
  imports Complex_Main
begin

text \<open>
  The statistics of the benchmarks: \<open>cal_time\<close>, of which \<open>xvec-unittest.c\<close>, \<open>xs-unittest.c\<close> and
  \<open>xor-linkedlist-unittest.c\<close> hold the same text.  The operations on \<open>double\<close> are those of a
  field; the theorem is about exact arithmetic, without rounding.
\<close>

text \<open>The arguments \<open>mean\<close> and \<open>var\<close> are pointers to the values that are updated.\<close>

definition cal_time :: "nat \<Rightarrow> 'a :: field \<Rightarrow> 'a \<times> 'a \<Rightarrow> 'a \<times> 'a" where
  "cal_time run t mv =
     (let (mean, var) = mv;
          delta = t - mean;
          mean = mean + delta / of_nat run;
          var = var + delta * (t - mean)
      in (mean, var))"

text \<open>Run \<open>i + 1\<close> of the benchmark adds the time \<open>ts ! i\<close>; the result starts with zeros.\<close>

fun benchmark_stats :: "nat \<Rightarrow> 'a :: field list \<Rightarrow> 'a \<times> 'a \<Rightarrow> 'a \<times> 'a" where
  "benchmark_stats i [] mv = mv"
| "benchmark_stats i (t # ts) mv = benchmark_stats (i + 1) ts (cal_time (i + 1) t mv)"

definition mean_of :: "real list \<Rightarrow> real" where
  "mean_of ts = sum_list ts / length ts"

definition squares :: "real list \<Rightarrow> real" where
  "squares ts = (\<Sum>t \<leftarrow> ts. (t - mean_of ts)\<^sup>2)"

lemma benchmark_stats_append:
  "benchmark_stats i (ts @ us) mv = benchmark_stats (i + length ts) us (benchmark_stats i ts mv)"
  by (induction ts arbitrary: i mv) auto

text \<open>The sum of squared deviations from any point.\<close>

lemma deviations: "(\<Sum>t \<leftarrow> ts. (t - c)\<^sup>2) = squares ts + length ts * (mean_of ts - c)\<^sup>2" for c :: real
proof (cases "ts = []")
  case False
  have expand: "(\<Sum>t \<leftarrow> ts. (t - c)\<^sup>2) = (\<Sum>t \<leftarrow> ts. t\<^sup>2) - 2 * c * sum_list ts + real (length ts) * c\<^sup>2" for c :: real
    by (induction ts) (auto simp: algebra_simps power2_eq_square)
  have s: "sum_list ts = length ts * mean_of ts" using False by (simp add: mean_of_def)
  define q where "q = (\<Sum>t \<leftarrow> ts. t\<^sup>2)"
  have "(\<Sum>t \<leftarrow> ts. (t - c)\<^sup>2) = q - 2 * c * (length ts * mean_of ts) + length ts * c\<^sup>2"
    "squares ts = q - 2 * mean_of ts * (length ts * mean_of ts) + length ts * (mean_of ts)\<^sup>2"
    using expand [of c] expand [of "mean_of ts"] s by (simp_all add: q_def squares_def)
  then show ?thesis by (simp add: algebra_simps power2_eq_square)
qed (simp add: squares_def)

lemma mean_of_snoc: "mean_of (ts @ [t]) = mean_of ts + (t - mean_of ts) / (length ts + 1)"
proof (cases "ts = []")
  case False
  then have n: "0 < real (length ts)" by simp
  then have "sum_list ts = real (length ts) * mean_of ts" by (simp add: mean_of_def)
  then have "mean_of (ts @ [t]) = (real (length ts) * mean_of ts + t) / (real (length ts) + 1)" by (simp add: mean_of_def add.commute)
  moreover have "mean_of ts + (t - mean_of ts) / (real (length ts) + 1) =
      ((real (length ts) + 1) * mean_of ts + (t - mean_of ts)) / (real (length ts) + 1)"
    using n by (simp add: add_divide_distrib)
  ultimately show ?thesis by (simp add: algebra_simps)
qed (simp add: mean_of_def)

lemma squares_snoc: "squares (ts @ [t]) = squares ts + (t - mean_of ts) * (t - mean_of (ts @ [t]))"
proof -
  let ?m = "mean_of ts" and ?m' = "mean_of (ts @ [t])" and ?n = "real (length ts)"
  have d: "t - ?m = (?n + 1) * (?m' - ?m)" unfolding mean_of_snoc by (simp add: nonzero_eq_divide_eq)
  then have d': "t - ?m' = ?n * (?m' - ?m)" by (simp add: algebra_simps)
  have "squares (ts @ [t]) = squares ts + ?n * (?m - ?m')\<^sup>2 + (t - ?m')\<^sup>2"
    unfolding squares_def [of "ts @ [t]"] by (simp add: deviations)
  also have "\<dots> = squares ts + (t - ?m) * (t - ?m')"
    unfolding d d' by (simp add: algebra_simps power2_eq_square)
  finally show ?thesis .
qed

text \<open>After any number of runs the two values are the mean of the times and the sum, not the mean,
  of the squared deviations: what the programs print as the variance has not been divided by
  the number of runs.\<close>

theorem benchmark_stats_correct: "benchmark_stats 0 ts (0, 0) = (mean_of ts, squares ts)"
proof (induction ts rule: rev_induct)
  case Nil
  then show ?case by (simp add: mean_of_def squares_def)
next
  case (snoc t ts)
  have "mean_of ts + (t - mean_of ts) / (1 + real (length ts)) = mean_of (ts @ [t])"
    by (simp add: mean_of_snoc add.commute)
  then show ?case using snoc by (simp add: benchmark_stats_append cal_time_def squares_snoc Let_def)
qed

end
