(* ===== verification/Spec2Isabelle.thy ===== *)
theory Spec2Isabelle
  imports Buddy_Demo Kernel_List Ringbuf_Shm Vqueue_Test Kv_Main Event_Defects Bitwise Bytes_Tests Hex Xvec_Tests Xs_Tests Slist_Main Sched_Spec Cmp32 Xor_List_Tests Mmap_Alloc_Spec Coroutine_Spec Mutex_Measure Proxy_Spec Proxy_Setup Defer Logfs_Show Loader Timerfd Utime Running_Stats
begin

text \<open>
  A verification library for the C programs of this repository.

  \<^bold>\<open>The programs.\<close>  The repository holds about twenty independent small system programs: two
  memory allocators (\<open>buddy-alloc\<close>, \<open>mmap-alloc\<close>), two ring buffers (\<open>producer\<close>,
  \<open>ring-buffer\<close>), a shared-memory key-value store (\<open>key-value\<close>), an epoll event loop with its
  unit tests (\<open>event-loop\<close>), a port forwarder (\<open>proxy\<close>), preemptive user-level threads
  (\<open>user-level-thread\<close>), stackless coroutines (\<open>coroutine\<close>), a mutex benchmark (\<open>mutex-perf\<close>),
  containers (\<open>xvector\<close>, \<open>xstring\<close>, \<open>swap-pairs\<close>, \<open>xor-linkedlist\<close>), bit manipulation
  (\<open>bitwise-1\<close>), deferred statements (\<open>cdefer\<close>), a kernel module (\<open>simple-logfs\<close>) and a loader
  (\<open>embedded-payload\<close>).  They interact in two places: the Linux-style \<open>list.h\<close> is used by the
  threads and by the port forwarder (two copies of the same text), and the three copies of
  \<open>utime.c\<close> measure the unit tests.

  \<^bold>\<open>How the code is modelled.\<close>  Every C function is one definition at the top level, in the
  order of the file; loops are definitions of their own, named after the function.  State is
  passed explicitly: a \<open>record\<close> holds the globals or the object, memory is a list of bytes
  (with \<open>mem_load\<close> and \<open>mem_store\<close> of \<open>Prelude\<close>) or a map from addresses to cells.  Undefined
  behaviour, an access outside a block or to a freed one, and a failed assertion are \<open>None\<close>
  (or a value of the type \<open>fault\<close> in the event loop), so a theorem that says \<open>f x = Some y\<close>
  also says that none of them happens.  \<open>size_t\<close> arithmetic is \<open>nat\<close> with the wrap-around
  written out (\<open>size_add\<close>, \<open>size_sub\<close>, \<open>size_mul\<close>), bit manipulation is on \<open>word\<close>s of the
  width of the code.  Threads are step relations over explicit program counters.  The kernel,
  \<open>malloc\<close> and \<open>rand\<close> are parameters; what is assumed of them is named in the theorem that
  needs it.

  \<^bold>\<open>Shared theories.\<close>
  \<^item> \<open>Prelude\<close>: integer types, \<open>size_t\<close> arithmetic, byte buffers, little-endian numbers.
  \<^item> \<open>Circular_List\<close>: the locale \<open>circular_list\<close>, rings with a sentinel; interpreted by
    \<open>Buddy\<close> (the free lists of \<open>alloc.c\<close>) and \<open>Kernel_List\<close> (\<open>list.h\<close>).
  \<^item> \<open>Allocator\<close>: the locale \<open>allocator\<close>, what a client of an allocator may rely on, and that no
    client that frees only what it holds gets stuck; interpreted by \<open>Buddy_Spec\<close> and
    \<open>Mmap_Alloc_Spec\<close>.
  \<^item> \<open>Channel\<close>: the locale \<open>channel\<close>, bounded FIFO channels; interpreted by \<open>Ringbuf_Spec\<close> and
    \<open>Vqueue\<close>.
  \<^item> The locales \<open>chunk_scan\<close> (in \<open>Bytes\<close>, interpreted for \<open>is_ascii\<close> and \<open>is_alphabet\<close>) and
    \<open>sequence\<close> (in \<open>Xvec_Spec\<close>, interpreted for the vector) serve one component each.

  \<^bold>\<open>Components.\<close>
  \<^item> \<open>buddy-alloc/alloc.c\<close>: \<open>Buddy\<close> is the code, \<open>Buddy_Tree\<close> the abstract binary tree,
    \<open>Buddy_Refine\<close>, \<open>Buddy_Sim\<close> and \<open>Buddy_Alloc\<close> the simulation, \<open>Buddy_Spec\<close> the contract:
    \<open>bmalloc\<close> adds one fresh block or fails, only when memory is exhausted, \<open>bfree\<close> removes
    one, and freeing everything gives one free block back.  \<open>Buddy_Demo\<close>: how much fits, and the
    demonstration program.
  \<^item> \<open>user-level-thread/list.h\<close>: \<open>Kernel_List\<close>, every operation and iteration macro; cutting and
    splicing are inverse, the safe iteration survives deletion.
  \<^item> \<open>producer/producer.c\<close>: \<open>Ringbuf\<close>, \<open>Ringbuf_Spec\<close>, \<open>Ringbuf_Threads\<close>; the buffer is a FIFO
    channel, and under every interleaving of producer and consumer no access leaves it, no
    assertion fails, and one of the two can go on.  \<open>Ringbuf_Shm\<close>: the shared-memory set-up,
    its error paths and its race.
  \<^item> \<open>ring-buffer/queue.h\<close>: \<open>Vqueue\<close>, \<open>Vqueue_Threads\<close>; the double mapping, the mutex and the
    condition variables for any number of threads; messages come out in order, but a wakeup
    can be lost.  \<open>Vqueue_Test\<close>: in the test program none is, and every run ends.
  \<^item> \<open>key-value/kv.c\<close>: \<open>Kv\<close>, \<open>Kv_Spec\<close>; a bucket is a list of the last 512 entries, reads see
    the values of a key in the order they were written.  \<open>Kv_Types\<close>: every call keeps all
    arrays, strings and cached pointers well formed.  \<open>Kv_Main\<close>: what the program prints.
  \<^item> \<open>event-loop/ev.c\<close>: \<open>Event_Loop\<close> (the library over a heap and a kernel parameter),
    \<open>Event_Tests\<close> (its unit tests), \<open>Event_Spec\<close> (the documented kernel and \<open>ev_add\<close> /
    \<open>ev_del\<close>), \<open>Event_Safety\<close> (the loop for every well-behaved application), \<open>Event_Progs\<close> (the
    timer tests run to the end), \<open>Event_Defects\<close> (the cancel test and the reader).
  \<^item> \<open>proxy/proxy.c\<close>: \<open>Proxy\<close>, \<open>Proxy_Spec\<close>; connections, buffers, expiry and the event loop on
    top of \<open>Kernel_List\<close>; the invariant of the expiry list and of the pairs of connections, and
    the fault of an idle pair.  \<open>Proxy_Setup\<close>: the listening socket and \<open>setnonblock\<close>.
  \<^item> \<open>user-level-thread/task_sched.c\<close>: \<open>Sched\<close>, \<open>Sched_Spec\<close> (timer signals between any two
    steps) and \<open>Cmp32\<close> (the comparison and the shuffling of the sorting tasks).
  \<^item> \<open>coroutine/coroutine.c\<close>: \<open>Coroutine\<close>, \<open>Coroutine_Spec\<close>; \<open>mutex-perf/mutexperf.c\<close>:
    \<open>Contention\<close>, \<open>Contention_Spec\<close> (no deadlock, bounded runs), \<open>Mutex_Measure\<close> (what is printed).
  \<^item> \<open>mmap-alloc/alloc.c\<close>: \<open>Mmap_Alloc\<close>, \<open>Mmap_Alloc_Spec\<close>; every block owns its pages, the tests
    pass.
  \<^item> \<open>xvector\<close>: \<open>Xvec\<close>, \<open>Xvec_Spec\<close> (the vector refines a list), \<open>Xvec_Tests\<close> (what the unit
    test prints).  \<open>xstring\<close>: \<open>Xs\<close>, \<open>Xs_Pool\<close> (the invariant of all objects and counters),
    \<open>Xs_Spec\<close> (copy-on-write strings behave like values), \<open>Xs_Tests\<close> (the checks and the
    sharing benchmark pass and leak nothing).
  \<^item> \<open>swap-pairs/link-list.c\<close>: \<open>Slist\<close>, \<open>Slist_Spec\<close>, \<open>Slist_Main\<close>; \<open>xor-linkedlist\<close>:
    \<open>Xor_List\<close>, \<open>Xor_List_Spec\<close>, \<open>Xor_List_Tests\<close>; the operations are the list functions they are named after.
  \<^item> \<open>bitwise-1\<close>: \<open>Bitwise\<close> (\<open>div.c\<close>, \<open>single-num.c\<close>, \<open>asr.c\<close>), \<open>Bytes\<close> and
    \<open>Bytes_Tests\<close> (\<open>ascii.c\<close>), \<open>Hex\<close>
    (\<open>hex.c\<close>); each routine equals its definition, and the exhaustive testers succeed.
  \<^item> \<open>cdefer\<close>: \<open>Defer\<close>; \<open>simple-logfs\<close>: \<open>Logfs\<close> (the life of the module) and \<open>Logfs_Show\<close>
    (what \<open>user.c\<close> writes is what \<open>mylog_show\<close> shows); \<open>embedded-payload\<close>: \<open>Loader\<close>;
    \<open>timerfd\<close>: \<open>Timerfd\<close>; \<open>utime.c\<close>: \<open>Utime\<close>;
    the running mean of the benchmarks: \<open>Running_Stats\<close>.

  \<^bold>\<open>Bounds and fuel.\<close>  Loops without an evident measure are \<open>partial_function (option)\<close>, so that
  not returning is \<open>None\<close>, and the theorems prove that they return.  Only \<open>ev_loop\<close> and the loop of \<open>timer.c\<close>, which may
  run for ever, have fuel: the safety theorem holds for every fuel, and the timer tests are
  shown to end for every fuel above the number of expirations they wait for.  Numeric
  hypotheses such as \<open>length s + 1 < 2 ^ 31\<close> are the points at which the code's integers wrap;
  they are not bounds of the proofs.

  \<^bold>\<open>Not modelled.\<close>  Output on the terminal (except where it is returned as the result of a
  test), \<open>usleep\<close> and clocks; the rounding of floating-point arithmetic (\<open>timespec_to_ns\<close>, the \<open>POW_FACTOR\<close>
  variant of the vector; the statistics of the benchmarks are modelled over a field); the \<open>DISABLE_COW\<close> variant of \<open>xs_copy\<close>;
  the conversion of names and addresses by the C library; Makefiles and scripts.  Memory is sequentially consistent: the acquire and release
  accesses of \<open>producer.c\<close> are single steps.
\<close>

end
